(* ===== verification/Prelude.thy ===== *)
theory Prelude
  imports Main "HOL-Library.Word"
begin

text \<open>
  Shared types, automation and generic lemmas of the development: the machine integers of the
  sources (\<open>u_int32_t\<close> and so on) as words, the conversion between words and byte
  sequences in either byte order, the C macros that both programs use
  (\<open>howmany\<close>, \<open>roundup\<close>, \<open>powerof2\<close>), results that can be an exit of the process, and
  the named collections that the component theories extend.
\<close>

unbundle bit_operations_syntax

type_synonym byte = "8 word"
type_synonym u16 = "16 word"
type_synonym u32 = "32 word"
type_synonym u64 = "64 word"
type_synonym dump_ino_t = "32 word"

named_theorems ino_simps \<open>reading inode maps after an update\<close>
named_theorems layout_simps \<open>lengths and offsets of tape records\<close>
named_theorems frame_simps \<open>fields that an operation leaves alone\<close>


section \<open>C arithmetic macros\<close>

text \<open>On sizes that do not wrap; \<open>Inomap\<close> has \<open>howmany\<close> on 32-bit numbers that can.\<close>

definition howmany :: "nat \<Rightarrow> nat \<Rightarrow> nat" where
  "howmany x y = (x + (y - 1)) div y"

definition roundup :: "nat \<Rightarrow> nat \<Rightarrow> nat" where
  "roundup x y = ((x + (y - 1)) div y) * y"

text \<open>C division and remainder truncate towards zero.\<close>

definition c_div :: "int \<Rightarrow> int \<Rightarrow> int" where
  "c_div a b = sgn a * sgn b * (\<bar>a\<bar> div \<bar>b\<bar>)"

definition c_mod :: "int \<Rightarrow> int \<Rightarrow> int" where
  "c_mod a b = a - b * c_div a b"

lemma howmany_mult_ge: "0 < y \<Longrightarrow> x \<le> howmany x y * y"
proof -
  assume y: "0 < y"
  have "(x + (y - 1)) div y * y = (x + (y - 1)) - (x + (y - 1)) mod y"
    by (simp add: minus_mod_eq_div_mult)
  moreover have "(x + (y - 1)) mod y \<le> y - 1"
    using y by (metis Suc_pred' less_Suc_eq_le mod_less_divisor)
  ultimately show ?thesis by (simp add: howmany_def)
qed

lemma howmany_le_self: "0 < y \<Longrightarrow> howmany x y \<le> x"
proof -
  assume y: "0 < y"
  have "x + (y - 1) < Suc x * y" using y by (cases y) (auto simp: algebra_simps)
  then show ?thesis
    using y by (simp add: howmany_def div_less_iff_less_mult less_Suc_eq_le [symmetric])
qed

lemma roundup_ge: "0 < y \<Longrightarrow> x \<le> roundup x y"
  using howmany_mult_ge [of y x] by (simp add: roundup_def howmany_def)

lemma c_div_pos: "0 \<le> a \<Longrightarrow> 0 < b \<Longrightarrow> c_div a b = a div b"
  by (simp add: c_div_def sgn_if)

lemma c_div_minus: "c_div (- a) b = - c_div a b"
  by (simp add: c_div_def)

lemma c_div_c_mod: "a = b * c_div a b + c_mod a b"
  by (simp add: c_mod_def)


section \<open>Results that may leave the process\<close>

text \<open>
  \<open>exit\<close>, \<open>quit\<close>, \<open>errx\<close> and an aborted \<open>panic\<close> end the process; the sum type carries the
  reason on the left.  \<open>bindE\<close> runs the rest only after a normal return.
\<close>

fun bindE :: "'e + 'a \<Rightarrow> ('a \<Rightarrow> 'e + 'b) \<Rightarrow> 'e + 'b" where
  "bindE (Inl e) f = Inl e"
| "bindE (Inr x) f = f x"

lemma bindE_Inr_iff: "bindE m f = Inr y \<longleftrightarrow> (\<exists>x. m = Inr x \<and> f x = Inr y)"
  by (cases m) auto

lemma bindE_split:
  "P (bindE m f) \<longleftrightarrow> (\<forall>e. m = Inl e \<longrightarrow> P (Inl e)) \<and> (\<forall>x. m = Inr x \<longrightarrow> P (f x))"
  by (cases m) auto

lemma bindE_cong [fundef_cong]:
  "m = m' \<Longrightarrow> (\<And>x. m' = Inr x \<Longrightarrow> f x = f' x) \<Longrightarrow> bindE m f = bindE m' f'"
  by (cases m') auto


section \<open>Words as byte sequences\<close>

text \<open>
  \<open>le_bytes n w\<close> are the \<open>n\<close> low bytes of \<open>w\<close>, least significant first (the store order of a
  little-endian machine); \<open>le_word\<close> reads such a sequence back.
\<close>

definition le_bytes :: "nat \<Rightarrow> 'a::len word \<Rightarrow> byte list" where
  "le_bytes n w = map (\<lambda>i. ucast (drop_bit (8 * i) w)) [0..<n]"

fun le_word :: "byte list \<Rightarrow> 'a::len word" where
  "le_word [] = 0"
| "le_word (b # bs) = ucast b OR push_bit 8 (le_word bs)"

lemma length_le_bytes [simp]: "length (le_bytes n w) = n"
  by (simp add: le_bytes_def)

lemma bit_le_word:
  "bit (le_word bs :: 'a::len word) k \<longleftrightarrow>
     k < LENGTH('a) \<and> k div 8 < length bs \<and> bit (bs ! (k div 8)) (k mod 8)"
proof (induction bs arbitrary: k)
  case Nil
  then show ?case by simp
next
  case (Cons b bs)
  show ?case
  proof (cases "k < 8")
    case True
    then show ?thesis
      by (auto simp: bit_simps)
  next
    case False
    then obtain j where j: "k = j + 8" by (metis add.commute le_Suc_ex not_less)
    have "\<not> bit b (j + 8)" by (auto dest: bit_imp_le_length)
    then show ?thesis
      using Cons.IH [of j] j by (auto simp: bit_simps div_add_self2)
  qed
qed

lemma le_word_le_bytes:
  assumes "LENGTH('a::len) \<le> 8 * n"
  shows "(le_word (le_bytes n (w :: 'a word)) :: 'a word) = w"
proof (rule bit_word_eqI)
  fix k assume k: "k < LENGTH('a)"
  then have "k div 8 < n" using assms by (simp add: less_mult_imp_div_less mult.commute)
  then show "bit (le_word (le_bytes n w) :: 'a word) k = bit w k"
    using k by (simp add: bit_le_word le_bytes_def bit_simps)
qed

lemma le_bytes_le_word:
  assumes "LENGTH('a::len) = 8 * length bs"
  shows "le_bytes (length bs) (le_word bs :: 'a word) = bs"
proof (rule nth_equalityI)
  fix i assume "i < length (le_bytes (length bs) (le_word bs :: 'a word))"
  then have i: "i < length bs" by simp
  have "bit (ucast (drop_bit (8 * i) (le_word bs :: 'a word)) :: byte) k = bit (bs ! i) k"
    if k: "k < 8" for k
  proof -
    have "(8 * i + k) div 8 = i" "(8 * i + k) mod 8 = k" "8 * i + k < 8 * length bs"
      using k i by auto
    then show ?thesis using k i assms by (simp add: bit_le_word bit_simps)
  qed
  then have "ucast (drop_bit (8 * i) (le_word bs :: 'a word)) = bs ! i"
    by (intro bit_word_eqI) simp
  then show "le_bytes (length bs) (le_word bs :: 'a word) ! i = bs ! i"
    using i by (simp add: le_bytes_def)
qed simp


section \<open>Lists\<close>

lemma list_update_beyond_id [simp]: "\<not> i < length xs \<Longrightarrow> xs[i := x] = xs"
  by (simp add: list_update_beyond)

lemma take_drop_append_exact: "length xs = n \<Longrightarrow> take n (xs @ ys) = xs \<and> drop n (xs @ ys) = ys"
  by simp

end
