(* ===== verification/Inomap.thy ===== *)
theory Inomap
  imports Prelude
begin

text \<open>
  The inode maps of both programs: the macros \<open>SETINO\<close>, \<open>CLRINO\<close> and \<open>TSTINO\<close> of
  dump/dump.h and restore/restore.h over a byte array, the growing exclude bitmap of dump/main.c
  (\<open>exclude_ino\<close>, \<open>do_exclude_ino\<close>) and \<open>resizemaps\<close> of restore/utilities.c.
  The locale \<open>ino_marks\<close> states what a client relies on; it is interpreted on both bitmaps.
\<close>


section \<open>Inode numbers and bits\<close>

text \<open>Inode \<open>ino\<close> is bit \<open>(u_int)(ino - 1) % NBBY\<close> of byte \<open>(u_int)(ino - 1) / NBBY\<close>.\<close>

definition NBBY :: nat where "NBBY = 8"

definition ino_byte :: "dump_ino_t \<Rightarrow> nat" where
  "ino_byte ino = unat (ino - 1) div NBBY"

definition ino_bit :: "dump_ino_t \<Rightarrow> nat" where
  "ino_bit ino = unat (ino - 1) mod NBBY"

text \<open>An access outside the array is undefined in C; \<open>in_map\<close> says that it is inside.\<close>

definition in_map :: "dump_ino_t \<Rightarrow> byte list \<Rightarrow> bool" where
  "in_map ino mp \<longleftrightarrow> ino_byte ino < length mp"

definition SETINO :: "dump_ino_t \<Rightarrow> byte list \<Rightarrow> byte list" where
  "SETINO ino mp = mp[ino_byte ino := mp ! ino_byte ino OR push_bit (ino_bit ino) 1]"

definition CLRINO :: "dump_ino_t \<Rightarrow> byte list \<Rightarrow> byte list" where
  "CLRINO ino mp = mp[ino_byte ino := mp ! ino_byte ino AND NOT (push_bit (ino_bit ino) 1)]"

definition TSTINO :: "dump_ino_t \<Rightarrow> byte list \<Rightarrow> bool" where
  "TSTINO ino mp \<longleftrightarrow> in_map ino mp \<and> mp ! ino_byte ino AND push_bit (ino_bit ino) 1 \<noteq> 0"

definition ino_set :: "byte list \<Rightarrow> dump_ino_t set" where
  "ino_set mp = {ino. TSTINO ino mp}"

lemma ino_bit_less [simp]: "ino_bit ino < 8"
  by (simp add: ino_bit_def NBBY_def)

lemma bit_byte_exp: "k < 8 \<Longrightarrow> bit (2 ^ k :: byte) n \<longleftrightarrow> n = k"
  by (auto simp: bit_exp_iff possible_bit_word)

lemma and_bit_nonzero [simp]: "k < 8 \<Longrightarrow> (b AND 2 ^ k = (0::byte)) \<longleftrightarrow> \<not> bit b k"
  by (auto simp: bit_eq_iff [of "b AND 2 ^ k" 0] bit_and_iff bit_byte_exp bit_exp_iff)

lemma bit_or_exp [simp]: "k < 8 \<Longrightarrow> bit (b OR 2 ^ k :: byte) n \<longleftrightarrow> bit b n \<or> n = k"
  by (simp add: bit_or_iff bit_byte_exp)

lemma bit_and_not_exp [simp]: "k < 8 \<Longrightarrow> n < 8 \<Longrightarrow> bit (b AND NOT (2 ^ k) :: byte) n \<longleftrightarrow> bit b n \<and> n \<noteq> k"
  by (auto simp: bit_and_iff bit_not_iff possible_bit_word bit_byte_exp)

lemma TSTINO_bit: "TSTINO ino mp \<longleftrightarrow> in_map ino mp \<and> bit (mp ! ino_byte ino) (ino_bit ino)"
  by (simp add: TSTINO_def)

lemma ino_pos_inject: "ino_byte i = ino_byte j \<Longrightarrow> ino_bit i = ino_bit j \<Longrightarrow> i = j"
proof -
  assume "ino_byte i = ino_byte j" "ino_bit i = ino_bit j"
  then have "unat (i - 1) = unat (j - 1)"
    unfolding ino_byte_def ino_bit_def by (metis div_mult_mod_eq)
  then show "i = j" by (metis diff_add_cancel unsigned_word_eqI)
qed

lemma in_map_SETINO [simp]: "in_map j (SETINO i m) = in_map j m"
  by (simp add: in_map_def SETINO_def)

lemma in_map_CLRINO [simp]: "in_map j (CLRINO i m) = in_map j m"
  by (simp add: in_map_def CLRINO_def)

lemma length_SETINO [simp]: "length (SETINO i m) = length m"
  by (simp add: SETINO_def)

lemma length_CLRINO [simp]: "length (CLRINO i m) = length m"
  by (simp add: CLRINO_def)

lemma TSTINO_SETINO: "in_map i m \<Longrightarrow> TSTINO j (SETINO i m) \<longleftrightarrow> j = i \<or> TSTINO j m"
  using ino_pos_inject [of i j]
  by (cases "ino_byte i = ino_byte j"; cases "ino_bit i = ino_bit j")
    (auto simp: TSTINO_bit SETINO_def in_map_def)

lemma TSTINO_CLRINO: "TSTINO j (CLRINO i m) \<longleftrightarrow> j \<noteq> i \<and> TSTINO j m"
  using ino_pos_inject [of i j]
  by (cases "ino_byte i = ino_byte j"; cases "ino_bit i = ino_bit j")
    (auto simp: TSTINO_bit CLRINO_def in_map_def)


section \<open>What the clients of a map rely on\<close>

locale ino_marks =
  fixes set_mark :: "dump_ino_t \<Rightarrow> 'm \<Rightarrow> 'm"
    and test_mark :: "dump_ino_t \<Rightarrow> 'm \<Rightarrow> bool"
    and covers :: "dump_ino_t \<Rightarrow> 'm \<Rightarrow> bool"
  assumes test_set: "covers i m \<Longrightarrow> test_mark j (set_mark i m) \<longleftrightarrow> j = i \<or> test_mark j m"
    and covers_set: "covers i m \<Longrightarrow> covers j m \<Longrightarrow> covers j (set_mark i m)"
begin

lemma test_fold_set:
  assumes "\<forall>i \<in> set is. covers i m"
  shows "test_mark j (fold set_mark is m) \<longleftrightarrow> j \<in> set is \<or> test_mark j m"
  using assms
proof (induction "is" arbitrary: m)
  case Nil
  then show ?case by simp
next
  case (Cons i xs)
  then have "\<forall>k \<in> set xs. covers k (set_mark i m)" by (auto intro: covers_set)
  then show ?case using Cons by (auto simp: test_set)
qed

lemma marked_set: "covers i m \<Longrightarrow> {j. test_mark j (set_mark i m)} = insert i {j. test_mark j m}"
  by (auto simp: test_set)

lemma marks_grow: "covers i m \<Longrightarrow> test_mark j m \<Longrightarrow> test_mark j (set_mark i m)"
  by (simp add: test_set)

end

locale ino_bitmap = ino_marks set_mark test_mark covers
  for set_mark :: "dump_ino_t \<Rightarrow> 'm \<Rightarrow> 'm"
    and test_mark :: "dump_ino_t \<Rightarrow> 'm \<Rightarrow> bool"
    and covers :: "dump_ino_t \<Rightarrow> 'm \<Rightarrow> bool" +
  fixes clr_mark :: "dump_ino_t \<Rightarrow> 'm \<Rightarrow> 'm"
  assumes test_clr: "test_mark j (clr_mark i m) \<longleftrightarrow> j \<noteq> i \<and> test_mark j m"
    and covers_clr: "covers j (clr_mark i m) \<longleftrightarrow> covers j m"
begin

lemma marked_clr: "{j. test_mark j (clr_mark i m)} = {j. test_mark j m} - {i}"
  by (auto simp: test_clr)

lemma marks_shrink: "test_mark j (clr_mark i m) \<Longrightarrow> test_mark j m"
  by (simp add: test_clr)

end

interpretation inomap: ino_bitmap SETINO TSTINO in_map CLRINO
  by unfold_locales (simp_all add: TSTINO_SETINO TSTINO_CLRINO)

lemma ino_set_SETINO [ino_simps]: "in_map i m \<Longrightarrow> ino_set (SETINO i m) = insert i (ino_set m)"
  unfolding ino_set_def by (rule inomap.marked_set)

lemma ino_set_CLRINO [ino_simps]: "ino_set (CLRINO i m) = ino_set m - {i}"
  unfolding ino_set_def by (rule inomap.marked_clr)

lemma TSTINO_ino_set: "TSTINO i m \<longleftrightarrow> i \<in> ino_set m"
  by (simp add: ino_set_def)

lemma TSTINO_zeros [simp]: "\<not> TSTINO i (replicate n 0)"
  by (simp add: TSTINO_bit in_map_def)


section \<open>The exclude bitmap of dump\<close>

text \<open>
  \<open>iexclude_bitmap\<close> with \<open>iexclude_bitmap_bytes\<close>: the list is empty for the NULL bitmap and its
  length is the byte count.  Here inode \<open>ino\<close> is bit \<open>ino % 8\<close> of byte \<open>ino / 8\<close>.
\<close>

definition exclude_ino :: "dump_ino_t \<Rightarrow> byte list \<Rightarrow> bool" where
  "exclude_ino ino bm \<longleftrightarrow>
     unat (ino div 8) < length bm \<and> bm ! unat (ino div 8) AND push_bit (unat (ino mod 8)) 1 \<noteq> 0"

text \<open>
  The new byte count, in 32-bit unsigned arithmetic, when \<open>ino / 8 + 1\<close> exceeds the old one.
\<close>

definition exclude_bytes :: "dump_ino_t \<Rightarrow> u32 \<Rightarrow> u32" where
  "exclude_bytes ino bytes =
     (if ino div 8 + 1 > bytes then
        (if bytes = 0 then 2 * (ino div 8 + 1)
         else bytes * ((ino div 8 + 1) div bytes + 1))
      else bytes)"

definition exclude_mark :: "dump_ino_t \<Rightarrow> byte list \<Rightarrow> byte list" where
  "exclude_mark ino bm =
     (let bytes = unat (exclude_bytes ino (of_nat (length bm)));
          bm' = bm @ replicate (bytes - length bm) 0;
          k = unat (ino div 8)
      in bm'[k := bm' ! k OR push_bit (unat (ino mod 8)) 1])"

text \<open>
  How a run of dump can stop inside an operation: with one of its exit codes, or because a bounded
  model of a loop or recursion has used up its fuel.
\<close>

datatype dump_exit = X_FINOK | X_STARTUP | X_REWRITE | X_ABORT

datatype dump_stop = Exit dump_exit | NoFuel

text \<open>
  \<open>do_exclude_ino\<close>: nothing to do for an inode already excluded; otherwise the bitmap grows if it
  has to (a failing \<open>malloc\<close> or \<open>realloc\<close> of the given byte count ends the dump) and the bit is
  set.  The verbose message has no effect on the state.
\<close>

definition do_exclude_ino :: "(nat \<Rightarrow> bool) \<Rightarrow> dump_ino_t \<Rightarrow> byte list \<Rightarrow> dump_stop + byte list" where
  "do_exclude_ino malloc_ok ino bm =
     (if exclude_ino ino bm then Inr bm
      else if ino div 8 + 1 > of_nat (length bm)
              \<and> \<not> malloc_ok (unat (exclude_bytes ino (of_nat (length bm)))) then Inl (Exit X_STARTUP)
      else Inr (exclude_mark ino bm))"


definition exclude_inv :: "byte list \<Rightarrow> bool" where
  "exclude_inv bm \<longleftrightarrow> length bm \<le> 2 ^ 30"

lemma exclude_need: "unat (ino div 8 + 1 :: u32) = unat (ino div 8) + 1 \<and> unat (ino div 8) < 2 ^ 29"
proof -
  have "unat (ino div 8) = unat ino div 8" by (simp add: unat_div)
  moreover have "unat ino < 2 ^ 32" using unsigned_less [of ino] by simp
  ultimately have "unat (ino div 8) < 2 ^ 29" by simp
  then show ?thesis by (simp add: unat_word_ariths)
qed

text \<open>The growth never wraps, covers the inode and stays below \<open>2 ^ 30\<close> bytes.\<close>

lemma exclude_bytes_grows:
  assumes "length bm \<le> 2 ^ 30"
  shows "unat (ino div 8) < unat (exclude_bytes ino (of_nat (length bm)))
    \<and> length bm \<le> unat (exclude_bytes ino (of_nat (length bm)))
    \<and> unat (exclude_bytes ino (of_nat (length bm))) \<le> 2 ^ 30"
proof -
  define n where "n = unat (ino div 8) + 1"
  define l where "l = length bm"
  have n: "unat (ino div 8 + 1 :: u32) = n" "n \<le> 2 ^ 29" "0 < n" "unat (ino div 8) < n"
    using exclude_need [of ino] by (auto simp: n_def)
  have l: "unat (of_nat l :: u32) = l" "l \<le> 2 ^ 30"
    using assms by (simp_all add: l_def unat_of_nat)
  have gt: "(ino div 8 + 1 > (of_nat l :: u32)) \<longleftrightarrow> n > l"
    by (simp add: word_less_nat_alt l n)
  have zero: "((of_nat l :: u32) = 0) \<longleftrightarrow> l = 0"
    using l by (metis unat_eq_zero)
  have dbl: "unat (2 * (ino div 8 + 1) :: u32) = 2 * n"
  proof -
    have "unat (2 * (ino div 8 + 1) :: u32) = (unat (2 :: u32) * n) mod 2 ^ 32"
      by (simp only: unat_word_ariths(2) [of "2 :: u32"] n(1)) simp
    then show ?thesis using n by simp
  qed
  have grow: "unat ((of_nat l :: u32) * ((ino div 8 + 1) div of_nat l + 1)) = l * (n div l + 1)
      \<and> n < l * (n div l + 1) \<and> l * (n div l + 1) \<le> 2 ^ 30" if "0 < l" "l < n"
  proof -
    have q: "unat ((ino div 8 + 1) div of_nat l + 1 :: u32) = n div l + 1"
    proof -
      have "n div l \<le> n" by simp
      then have "n div l < 2 ^ 32 - 1" by (rule le_less_trans) (use n in simp)
      moreover have "unat ((ino div 8 + 1) div of_nat l :: u32) = n div l"
        by (simp only: unat_div n(1) l(1))
      ultimately show ?thesis
        by (simp add: unat_word_ariths(1) [of "(ino div 8 + 1) div of_nat l :: u32"])
    qed
    have e: "l * (n div l) = n - n mod l" by (simp add: minus_mod_eq_mult_div)
    have m: "n mod l < l" using that by simp
    have lo: "n < l * (n div l + 1)" using e m mod_less_eq_dividend [of n l]
      by (simp add: algebra_simps)
    have "l * (n div l + 1) \<le> n + l" using e by (simp add: algebra_simps)
    then have hi: "l * (n div l + 1) \<le> 2 ^ 30"
      by (rule order.trans) (use that n in simp)
    have "unat ((of_nat l :: u32) * ((ino div 8 + 1) div of_nat l + 1))
        = (l * (n div l + 1)) mod 2 ^ 32"
      by (simp only: unat_word_ariths(2) [of "of_nat l :: u32"] q l(1)) simp
    then show ?thesis using lo hi by simp
  qed
  show ?thesis
    using gt zero dbl grow n l
    by (auto simp: exclude_bytes_def l_def [symmetric])
qed

lemma length_exclude_mark:
  "exclude_inv bm \<Longrightarrow> length (exclude_mark ino bm) = unat (exclude_bytes ino (of_nat (length bm)))"
  using exclude_bytes_grows [of bm ino] by (simp add: exclude_mark_def exclude_inv_def Let_def)

lemma exclude_inv_mark: "exclude_inv bm \<Longrightarrow> exclude_inv (exclude_mark ino bm)"
  using exclude_bytes_grows [of bm ino] length_exclude_mark [of bm ino]
  by (simp add: exclude_inv_def)

lemma exclude_pos_inject:
  "unat (i div 8) = unat (j div 8) \<Longrightarrow> unat (i mod 8) = unat (j mod 8) \<Longrightarrow> i = (j :: u32)"
  by (metis div_mult_mod_eq unsigned_word_eqI)

lemma unat_mod8_less [simp]: "unat (i mod 8 :: u32) < 8" "\<not> 8 \<le> unat (i mod 8 :: u32)"
  by (simp_all add: unat_mod not_le)

lemma exclude_ino_mark:
  assumes inv: "exclude_inv bm"
  shows "exclude_ino j (exclude_mark i bm) \<longleftrightarrow> j = i \<or> exclude_ino j bm"
proof -
  define n where "n = unat (exclude_bytes i (of_nat (length bm)))"
  have n: "unat (i div 8) < n" "length bm \<le> n"
    using exclude_bytes_grows [of bm i] inv by (simp_all add: n_def exclude_inv_def)
  have e: "exclude_mark i bm = (bm @ replicate (n - length bm) 0)
      [unat (i div 8) := (bm @ replicate (n - length bm) 0) ! unat (i div 8)
         OR 2 ^ unat (i mod 8)]"
    by (simp add: exclude_mark_def Let_def n_def)
  show ?thesis
    unfolding exclude_ino_def e
    using exclude_pos_inject [of i j] n
    by (cases "unat (i div 8) = unat (j div 8)"; cases "unat (i mod 8) = unat (j mod 8)")
      (auto simp: nth_append)
qed

interpretation exclmap: ino_marks exclude_mark exclude_ino "\<lambda>_. exclude_inv"
  by unfold_locales (simp_all add: exclude_ino_mark exclude_inv_mark)

lemma do_exclude_ino_ok:
  assumes "exclude_inv bm" "do_exclude_ino ok i bm = Inr bm'"
  shows "exclude_inv bm' \<and> (\<forall>j. exclude_ino j bm' \<longleftrightarrow> j = i \<or> exclude_ino j bm)"
  using assms
  by (auto simp: do_exclude_ino_def exclude_ino_mark exclude_inv_mark split: if_splits)


section \<open>Resizing the maps of restore\<close>

text \<open>
  \<open>resizemaps\<close>: each map that exists is copied into a zeroed array for the new highest inode; a failing \<open>calloc\<close>
  exits.  The macro \<open>howmany\<close> is evaluated in unsigned 32-bit arithmetic, where the sum can wrap; a \<open>memcpy\<close> beyond one of
  its arrays is an overrun.
\<close>

definition howmany32 :: "u32 \<Rightarrow> u32 \<Rightarrow> u32" where
  "howmany32 x y = (x + (y - 1)) div y"

datatype resize_stop = Errx | Overrun

definition resize_one :: "(nat \<Rightarrow> bool) \<Rightarrow> dump_ino_t \<Rightarrow> dump_ino_t \<Rightarrow> byte list option
    \<Rightarrow> resize_stop + byte list option" where
  "resize_one calloc_ok oldmax newmax mo =
     (case mo of None \<Rightarrow> Inr None
      | Some mp \<Rightarrow>
          (let size = unat (howmany32 newmax 8); copied = unat (howmany32 oldmax 8)
           in if \<not> calloc_ok size then Inl Errx
              else if copied > size \<or> copied > length mp then Inl Overrun
              else Inr (Some (take copied mp @ replicate (size - copied) 0))))"

definition resizemaps :: "(nat \<Rightarrow> bool) \<Rightarrow> dump_ino_t \<Rightarrow> dump_ino_t
    \<Rightarrow> byte list option \<times> byte list option \<Rightarrow> resize_stop + byte list option \<times> byte list option" where
  "resizemaps calloc_ok oldmax newmax maps =
     bindE (resize_one calloc_ok oldmax newmax (fst maps)) (\<lambda>used.
     bindE (resize_one calloc_ok oldmax newmax (snd maps)) (\<lambda>dumped.
     Inr (used, dumped)))"

lemma howmany32: "x < 0xFFFFFFF9 \<Longrightarrow> unat (howmany32 x 8) = (unat x + 7) div 8"
proof -
  assume "x < 0xFFFFFFF9"
  then have "unat x + 7 < 2 ^ 32" by (simp add: word_less_nat_alt)
  then have "unat (x + 7) = unat x + 7" by (simp add: unat_word_ariths(1))
  then show ?thesis by (simp add: howmany32_def unat_div)
qed

lemma resize_one_keeps:
  assumes "length mp = (unat oldmax + 7) div 8" "oldmax \<le> newmax" "newmax < 0xFFFFFFF9" "ok (unat (howmany32 newmax 8))"
  shows "\<exists>mp'. resize_one ok oldmax newmax (Some mp) = Inr (Some mp') \<and> ino_set mp' = ino_set mp
    \<and> length mp' = (unat newmax + 7) div 8"
proof -
  have o: "unat (howmany32 oldmax 8) = length mp" using assms by (intro trans [OF howmany32]) auto
  have n: "unat (howmany32 newmax 8) = (unat newmax + 7) div 8" by (rule howmany32 [OF assms(3)])
  have le: "length mp \<le> (unat newmax + 7) div 8" using assms(1,2) by (simp add: word_le_nat_alt div_le_mono)
  let ?mp = "mp @ replicate ((unat newmax + 7) div 8 - length mp) 0"
  have "resize_one ok oldmax newmax (Some mp) = Inr (Some ?mp)"
    using le assms(4) by (simp add: resize_one_def Let_def o n)
  moreover have "ino_set ?mp = ino_set mp"
  proof -
    have "TSTINO j ?mp = TSTINO j mp" for j
    proof (cases "in_map j mp \<or> \<not> in_map j ?mp")
      case False
      then have "?mp ! ino_byte j = 0" by (auto simp: in_map_def nth_append)
      then show ?thesis using False by (simp add: TSTINO_bit)
    qed (auto simp: TSTINO_bit in_map_def nth_append)
    then show ?thesis by (simp add: ino_set_def)
  qed
  ultimately show ?thesis using le by (intro exI [of _ ?mp]) simp
qed


section \<open>Properties\<close>

text \<open>C13: Excluding an inode (\<open>do_exclude_ino\<close>) marks that inode and no other, and keeps the bound of
  the bitmap: the growth computed in 32-bit arithmetic never wraps, and the byte written is inside
  the new array.\<close>

theorem exclude_exact:
  assumes "exclude_inv bm" "do_exclude_ino ok i bm = Inr bm'"
  shows "exclude_inv bm' \<and> unat (i div 8) < length bm' \<and> (\<forall>j. exclude_ino j bm' \<longleftrightarrow> j = i \<or> exclude_ino j bm)"
  using do_exclude_ino_ok [OF assms] by (auto simp: exclude_ino_def)

theorem exclude_exact_witness:
  "exclude_ino 9 (exclude_mark 9 []) \<and> \<not> exclude_ino 10 (exclude_mark 9 [])"
proof -
  have "do_exclude_ino (\<lambda>_. True) 9 [] = Inr (exclude_mark 9 [])"
    by (simp add: do_exclude_ino_def exclude_ino_def)
  moreover have "exclude_inv []" by (simp add: exclude_inv_def)
  ultimately have "\<forall>j. exclude_ino j (exclude_mark 9 []) \<longleftrightarrow> j = 9 \<or> exclude_ino j []"
    using exclude_exact by blast
  moreover have "\<not> exclude_ino j []" for j by (simp add: exclude_ino_def)
  ultimately show ?thesis by simp
qed

text \<open>C16: When the new highest inode number is at least the old one and below \<open>2 ^ 32 - 7\<close>, \<open>resizemaps\<close> exits
  because an array cannot be allocated, or both maps keep exactly their inodes and have the size for the new number: nothing is
  copied beyond an array.\<close>

theorem resizemaps_keeps:
  assumes "length used = (unat oldmax + 7) div 8" "length dumped = (unat oldmax + 7) div 8"
    and "oldmax \<le> newmax" "newmax < 0xFFFFFFF9"
  shows "if ok ((unat newmax + 7) div 8)
    then \<exists>used' dumped'. resizemaps ok oldmax newmax (Some used, Some dumped) = Inr (Some used', Some dumped')
      \<and> ino_set used' = ino_set used \<and> ino_set dumped' = ino_set dumped
      \<and> length used' = (unat newmax + 7) div 8 \<and> length dumped' = (unat newmax + 7) div 8
    else resizemaps ok oldmax newmax (Some used, Some dumped) = Inl Errx"
proof (cases "ok ((unat newmax + 7) div 8)")
  case True
  then have c: "ok (unat (howmany32 newmax 8))" by (simp add: howmany32 [OF assms(4)])
  show ?thesis
    using resize_one_keeps [of used oldmax newmax ok] resize_one_keeps [of dumped oldmax newmax ok] assms c True
    by (auto simp: resizemaps_def)
next
  case False
  then show ?thesis by (simp add: resizemaps_def resize_one_def Let_def howmany32 [OF assms(4)])
qed

theorem resizemaps_keeps_witness:
  "\<exists>u d. resizemaps (\<lambda>_. True) 16 32 (Some [5, 0], Some [1, 2]) = Inr (Some u, Some d)
     \<and> ino_set u = ino_set [5, 0] \<and> ino_set d = ino_set [1, 2] \<and> length u = 4 \<and> length d = 4"
  using resizemaps_keeps [of "[5, 0]" 16 "[1, 2]" 32 "\<lambda>_. True"] by simp

text \<open>With a number of at least \<open>2 ^ 32 - 7\<close> in the header the size wraps to 0 and the copy overruns the new array.\<close>

lemma resizemaps_wraps:
  assumes "newmax \<ge> 0xFFFFFFF9" "0 < unat (howmany32 oldmax 8)" "ok 0"
  shows "resizemaps ok oldmax newmax (Some used, dumped) = Inl Overrun"
proof -
  have "newmax + 7 < 8"
  proof -
    have "unat newmax < 2 ^ 32" "unat newmax \<ge> 2 ^ 32 - 7"
      using assms(1) unsigned_less [of newmax] by (simp_all add: word_le_nat_alt)
    then have "unat (newmax + 7) < 8" by (simp add: unat_word_ariths(1) mod_if, arith)
    then show ?thesis by (simp add: word_less_nat_alt)
  qed
  then have "howmany32 newmax 8 = 0" by (simp add: howmany32_def div_word_less)
  then show ?thesis using assms(2,3) by (simp add: resizemaps_def resize_one_def)
qed

end
