(* ===== verification/Mapping_Pass.thy ===== *)
theory Mapping_Pass
  imports Inomap
begin

text \<open>
  Pass 1 of dump (dump/traverse.c): \<open>mapfileino\<close>, \<open>mapfiles\<close>, \<open>maponefile\<close>, \<open>mapfilesindir\<close> and
  \<open>mapfilesfromdir\<close> mark the allocated inodes, the directories and the files changed since the
  previous dump; \<open>blockest\<close> estimates what they take on the tape.  The theorems say which inodes
  a scan of the whole file system marks.
  libext2fs is outside the sources: what it returns for an inode, a directory, a path name and the
  inode scan are the fields of \<open>fsys\<close>.
\<close>

section \<open>Inodes, directory entries and the file system\<close>

record dinode =
  di_mode :: u16
  di_uid :: u16
  di_size :: u32
  di_atime :: u32
  di_ctime :: u32
  di_mtime :: u32
  di_dtime :: u32
  di_gid :: u16
  di_nlink :: u16
  di_blocks :: u32
  di_flags :: u32
  di_db :: "u32 list"
  di_ib :: "u32 list"
  di_gen :: u32
  di_file_acl :: u32
  di_dir_acl :: u32
  di_uidhigh :: u16
  di_gidhigh :: u16
  di_extraisize :: u16

text \<open>\<open>di_size_high\<close> is another name of \<open>di_dir_acl\<close>; the 64-bit file size:\<close>

definition i_size :: "dinode \<Rightarrow> nat" where
  "i_size dp = unat (di_size dp) + unat (di_dir_acl dp) * 2 ^ 32"

definition IFMT :: u16 where "IFMT = 0xF000"
definition IFIFO :: u16 where "IFIFO = 0x1000"
definition IFCHR :: u16 where "IFCHR = 0x2000"
definition IFDIR :: u16 where "IFDIR = 0x4000"
definition IFBLK :: u16 where "IFBLK = 0x6000"
definition IFREG :: u16 where "IFREG = 0x8000"
definition IFLNK :: u16 where "IFLNK = 0xA000"
definition IFSOCK :: u16 where "IFSOCK = 0xC000"

lemmas mode_consts = IFMT_def IFIFO_def IFCHR_def IFDIR_def IFBLK_def IFREG_def IFLNK_def IFSOCK_def

definition ROOTINO :: dump_ino_t where "ROOTINO = 2"
definition UF_NODUMP :: u32 where "UF_NODUMP = 0x40"
definition DIRENT_ABORT :: u32 where "DIRENT_ABORT = 2"
definition NDADDR :: nat where "NDADDR = 12"

record ext2_dir_entry =
  de_inode :: dump_ino_t
  de_name_len :: u16
  de_name :: string

text \<open>The outcomes of \<open>ext2fs_get_next_inode\<close>: a bad block in the inode table, an error, an inode.\<close>

datatype inode_scan = Scan_Bad | Scan_Err | Scan_Ino dump_ino_t dinode

record fsys =
  fs_bsize :: u32
  fs_inode :: "dump_ino_t \<Rightarrow> dinode option"
  fs_dir :: "dump_ino_t \<Rightarrow> ext2_dir_entry list \<times> u32"
  fs_namei :: "string \<Rightarrow> dump_ino_t option"
  fs_scan :: "inode_scan list option"

text \<open>The globals that the passes only read.\<close>

record map_cfg =
  ddate :: u32
  nonodump :: bool
  malloc_ok :: "nat \<Rightarrow> bool"

text \<open>The globals that they change.\<close>

record maps =
  usedinomap :: "byte list"
  dumpdirmap :: "byte list"
  dumpinomap :: "byte list"
  metainomap :: "byte list"
  iexclude :: "byte list"
  tapesize :: int
  anydirskipped :: bool
  curino :: dump_ino_t

definition file_mode :: "dinode \<Rightarrow> u16" where
  "file_mode dp = di_mode dp AND IFMT"

text \<open>\<open>getino\<close>: the inode becomes the current one; an error of the library ends the dump.\<close>

definition getino :: "fsys \<Rightarrow> dump_ino_t \<Rightarrow> maps \<Rightarrow> dump_stop + dinode \<times> maps" where
  "getino fs inum m =
     (case fs_inode fs inum of
        None \<Rightarrow> Inl (Exit X_ABORT)
      | Some dp \<Rightarrow> Inr (dp, m\<lparr>curino := inum\<rparr>))"


section \<open>The size estimate\<close>

definition howmany64 :: "nat \<Rightarrow> nat \<Rightarrow> nat" where
  "howmany64 x y = ((x + (y - 1)) mod 2 ^ 64) div y"

text \<open>
  \<open>blockest\<close>, for \<open>__linux__\<close>: \<open>blkest\<close> and \<open>sizeest\<close> are \<open>long\<close>; the block size is unsigned.
\<close>

definition blockest :: "fsys \<Rightarrow> dinode \<Rightarrow> int" where
  "blockest fs dp =
     (let bs = unat (fs_bsize fs);
          blkest = int (howmany64 (unat (di_blocks dp) * 512) bs * (bs div 1024));
          sizeest = int (howmany64 (i_size dp) bs * (bs div 1024));
          blkest = (if blkest > sizeest then sizeest else blkest);
          (blkest, sizeest) =
            (if file_mode dp = IFDIR then (c_div blkest 2, c_div sizeest 2) else (blkest, sizeest));
          blkest =
            (if i_size dp > bs * NDADDR
             then blkest + c_div (sizeest - int (NDADDR * bs div 1024) + 511) 512
             else blkest)
      in blkest + 1)"


section \<open>Pass 1\<close>

definition CSINCE :: "dinode \<Rightarrow> u32 \<Rightarrow> bool" where
  "CSINCE dp t \<longleftrightarrow> di_ctime dp \<ge> t"

definition MSINCE :: "dinode \<Rightarrow> u32 \<Rightarrow> bool" where
  "MSINCE dp t \<longleftrightarrow> di_mtime dp \<ge> t"

definition NODUMP_FLAG :: "map_cfg \<Rightarrow> dinode \<Rightarrow> bool" where
  "NODUMP_FLAG cfg dp \<longleftrightarrow> \<not> nonodump cfg \<and> di_flags dp AND UF_NODUMP = UF_NODUMP"

definition WANTTODUMP :: "map_cfg \<Rightarrow> dinode \<Rightarrow> dump_ino_t \<Rightarrow> maps \<Rightarrow> bool" where
  "WANTTODUMP cfg dp ino m \<longleftrightarrow>
     CSINCE dp (ddate cfg) \<and> \<not> NODUMP_FLAG cfg dp \<and> \<not> exclude_ino ino (iexclude m)"

text \<open>\<open>mapfileino\<close>; the inode is given, or \<open>None\<close> when it has to be fetched.\<close>

definition mapfileino_excl :: "map_cfg \<Rightarrow> dinode \<Rightarrow> dump_ino_t \<Rightarrow> maps \<Rightarrow> dump_stop + maps" where
  "mapfileino_excl cfg dp ino m =
     (if NODUMP_FLAG cfg dp
      then bindE (do_exclude_ino (malloc_ok cfg) ino (iexclude m)) (\<lambda>x. Inr (m\<lparr>iexclude := x\<rparr>))
      else Inr m)"

definition mapfileino :: "map_cfg \<Rightarrow> fsys \<Rightarrow> dump_ino_t \<Rightarrow> dinode option \<Rightarrow> maps \<Rightarrow> dump_stop + maps" where
  "mapfileino cfg fs ino dpo m =
     (if TSTINO ino (usedinomap m) then Inr m
      else bindE (case dpo of Some dp \<Rightarrow> Inr (dp, m) | None \<Rightarrow> getino fs ino m) (\<lambda>(dp, m).
        let mode = file_mode dp in
        if mode = 0 then Inr m
        else if di_nlink dp = 0 \<or> di_dtime dp \<noteq> 0 then Inr m
        else
          bindE (mapfileino_excl cfg dp ino (m\<lparr>usedinomap := SETINO ino (usedinomap m)\<rparr>)) (\<lambda>m.
          let m = (if mode = IFDIR then m\<lparr>dumpdirmap := SETINO ino (dumpdirmap m)\<rparr> else m) in
          if WANTTODUMP cfg dp ino m then
            let m = m\<lparr>dumpinomap := SETINO ino (dumpinomap m)\<rparr>;
                m = (if \<not> MSINCE dp (ddate cfg) then m\<lparr>metainomap := SETINO ino (metainomap m)\<rparr> else m)
            in Inr (m\<lparr>tapesize := tapesize m +
                 (if mode \<noteq> IFREG \<and> mode \<noteq> IFDIR \<and> mode \<noteq> IFLNK then 1 else blockest fs dp)\<rparr>)
          else if mode = IFDIR then
            let m = (if exclude_ino ino (iexclude m) then m\<lparr>usedinomap := CLRINO ino (usedinomap m)\<rparr> else m)
            in Inr (m\<lparr>anydirskipped := True\<rparr>)
          else Inr m)))"

text \<open>
  \<open>mapfiles\<close>: the loop over the inode scan, which ends with inode number 0 (the end of the list);
  \<open>None\<close> is an error of \<open>ext2fs_open_inode_scan\<close>.  The result is in \<open>anydirskipped\<close>.
\<close>

fun mapfiles_loop :: "map_cfg \<Rightarrow> fsys \<Rightarrow> inode_scan list \<Rightarrow> maps \<Rightarrow> dump_stop + maps" where
  "mapfiles_loop cfg fs [] m = Inr m"
| "mapfiles_loop cfg fs (Scan_Bad # sc) m = mapfiles_loop cfg fs sc m"
| "mapfiles_loop cfg fs (Scan_Err # sc) m = Inl (Exit X_ABORT)"
| "mapfiles_loop cfg fs (Scan_Ino ino dp # sc) m =
     (if ino = 0 then Inr m
      else bindE (mapfileino cfg fs ino (Some dp) (m\<lparr>curino := ino\<rparr>)) (mapfiles_loop cfg fs sc))"

definition mapfiles :: "map_cfg \<Rightarrow> fsys \<Rightarrow> maps \<Rightarrow> dump_stop + maps" where
  "mapfiles cfg fs m =
     (case fs_scan fs of
        None \<Rightarrow> Inl (Exit X_ABORT)
      | Some sc \<Rightarrow> bindE (mapfiles_loop cfg fs sc (m\<lparr>anydirskipped := False\<rparr>)) (\<lambda>m.
          Inr (m\<lparr>dumpinomap := SETINO ROOTINO (dumpinomap m)\<rparr>)))"

text \<open>The loop of \<open>maponefile\<close> and \<open>mapfilesfromdir\<close> over the slashes of the path.\<close>

fun mappath_loop :: "map_cfg \<Rightarrow> fsys \<Rightarrow> string \<Rightarrow> nat list \<Rightarrow> maps \<Rightarrow> dump_stop + maps" where
  "mappath_loop cfg fs directory [] m = Inr m"
| "mappath_loop cfg fs directory (i # is) m =
     (if directory ! i = CHR ''/'' then
        (case fs_namei fs (take i directory) of
           None \<Rightarrow> Inl (Exit X_ABORT)
         | Some dir_ino \<Rightarrow>
             bindE (mapfileino cfg fs dir_ino None m) (mappath_loop cfg fs directory is))
      else mappath_loop cfg fs directory is m)"

definition maponefile :: "map_cfg \<Rightarrow> fsys \<Rightarrow> string \<Rightarrow> maps \<Rightarrow> dump_stop + maps" where
  "maponefile cfg fs directory m =
     bindE (mappath_loop cfg fs directory [0..<length directory] (m\<lparr>anydirskipped := False\<rparr>)) (\<lambda>m.
     case fs_namei fs directory of
       None \<Rightarrow> Inl (Exit X_ABORT)
     | Some dir_ino \<Rightarrow>
         bindE (mapfileino cfg fs dir_ino None m) (\<lambda>m.
         bindE (mapfileino cfg fs ROOTINO None m) (\<lambda>m.
         Inr (m\<lparr>dumpdirmap := SETINO ROOTINO (dumpdirmap m)\<rparr>))))"

text \<open>The characters of an entry's name; the tests for \<open>.\<close> and \<open>..\<close>.\<close>

definition name_char :: "ext2_dir_entry \<Rightarrow> nat \<Rightarrow> char" where
  "name_char d i = (if i < length (de_name d) then de_name d ! i else CHR 0x00)"

definition name_length :: "ext2_dir_entry \<Rightarrow> nat" where
  "name_length d = unat (de_name_len d AND 0xFF)"

definition dot_entry :: "ext2_dir_entry \<Rightarrow> bool" where
  "dot_entry d \<longleftrightarrow> name_char d 0 = CHR ''.'' \<and>
     (name_length d = 1 \<or> name_char d 1 = CHR ''.'' \<and> name_length d = 2)"

text \<open>
  \<open>ext2fs_dir_iterate\<close> over the entries of a directory: the callback's result has the bit
  \<open>DIRENT_ABORT\<close> when the iteration is to stop.
\<close>

fun dir_iterate :: "('d \<Rightarrow> 's \<Rightarrow> dump_stop + u32 \<times> 's) \<Rightarrow> 'd list \<Rightarrow> 's \<Rightarrow> dump_stop + 's" where
  "dir_iterate f [] s = Inr s"
| "dir_iterate f (d # ds) s =
     bindE (f d s) (\<lambda>(ret, s). if ret AND DIRENT_ABORT \<noteq> 0 then Inr s else dir_iterate f ds s)"

text \<open>
  \<open>mapfilesindir\<close>, the callback that walks a subtree; the fuel bounds the depth of the recursion.
\<close>

fun mapfilesindir :: "nat \<Rightarrow> map_cfg \<Rightarrow> fsys \<Rightarrow> ext2_dir_entry \<Rightarrow> maps \<Rightarrow> dump_stop + u32 \<times> maps" where
  "mapfilesindir 0 cfg fs d m = Inl NoFuel"
| "mapfilesindir (Suc fuel) cfg fs d m =
     bindE (getino fs (de_inode d) m) (\<lambda>(dp, m).
     bindE (mapfileino cfg fs (de_inode d) (Some dp) m) (\<lambda>m.
     if file_mode dp = IFDIR \<and> di_nlink dp \<noteq> 0 \<and> di_dtime dp = 0 \<and> \<not> dot_entry d then
       bindE (dir_iterate (mapfilesindir fuel cfg fs) (fst (fs_dir fs (de_inode d))) m) (\<lambda>m.
       Inr (snd (fs_dir fs (de_inode d)), m))
     else Inr (0, m)))"

definition mapfilesfromdir :: "nat \<Rightarrow> map_cfg \<Rightarrow> fsys \<Rightarrow> string \<Rightarrow> maps \<Rightarrow> dump_stop + maps" where
  "mapfilesfromdir fuel cfg fs directory m =
     bindE (mappath_loop cfg fs directory [0..<length directory] (m\<lparr>anydirskipped := False\<rparr>)) (\<lambda>m.
     case fs_namei fs directory of
       None \<Rightarrow> Inl (Exit X_ABORT)
     | Some dir_ino \<Rightarrow>
         bindE (mapfileino cfg fs dir_ino None m) (\<lambda>m.
         bindE (dir_iterate (mapfilesindir fuel cfg fs) (fst (fs_dir fs dir_ino)) m) (\<lambda>m.
         if snd (fs_dir fs dir_ino) \<noteq> 0 then Inl (Exit X_ABORT)
         else
           bindE (mapfileino cfg fs ROOTINO None m) (\<lambda>m.
           Inr (m\<lparr>dumpinomap := SETINO ROOTINO (dumpinomap m)\<rparr>)))))"


section \<open>What pass 1 marks\<close>

definition allocated :: "dinode \<Rightarrow> bool" where
  "allocated dp \<longleftrightarrow> file_mode dp \<noteq> 0 \<and> di_nlink dp \<noteq> 0 \<and> di_dtime dp = 0"

definition excluded :: "map_cfg \<Rightarrow> byte list \<Rightarrow> dump_ino_t \<Rightarrow> dinode \<Rightarrow> bool" where
  "excluded cfg ex i dp \<longleftrightarrow> exclude_ino i ex \<or> NODUMP_FLAG cfg dp"

definition to_dump :: "map_cfg \<Rightarrow> byte list \<Rightarrow> dump_ino_t \<Rightarrow> dinode \<Rightarrow> bool" where
  "to_dump cfg ex i dp \<longleftrightarrow> allocated dp \<and> CSINCE dp (ddate cfg) \<and> \<not> excluded cfg ex i dp"

definition keeps_used :: "map_cfg \<Rightarrow> byte list \<Rightarrow> dump_ino_t \<Rightarrow> dinode \<Rightarrow> bool" where
  "keeps_used cfg ex i dp \<longleftrightarrow> allocated dp \<and> \<not> (file_mode dp = IFDIR \<and> excluded cfg ex i dp)"

definition maps_cover :: "maps \<Rightarrow> dump_ino_t \<Rightarrow> bool" where
  "maps_cover m i \<longleftrightarrow> in_map i (usedinomap m) \<and> in_map i (dumpdirmap m)
     \<and> in_map i (dumpinomap m) \<and> in_map i (metainomap m)"

definition maps_wf :: "maps \<Rightarrow> bool" where
  "maps_wf m \<longleftrightarrow> exclude_inv (iexclude m)"

text \<open>How one scanned inode changes each of the sets.\<close>

definition pass1_effect :: "map_cfg \<Rightarrow> dump_ino_t \<Rightarrow> dinode \<Rightarrow> maps \<Rightarrow> maps \<Rightarrow> bool" where
  "pass1_effect cfg i dp m m' \<longleftrightarrow>
     ino_set (usedinomap m') = ino_set (usedinomap m) \<union> {j. j = i \<and> keeps_used cfg (iexclude m) i dp}
   \<and> ino_set (dumpdirmap m') = ino_set (dumpdirmap m) \<union> {j. j = i \<and> allocated dp \<and> file_mode dp = IFDIR}
   \<and> ino_set (dumpinomap m') = ino_set (dumpinomap m) \<union> {j. j = i \<and> to_dump cfg (iexclude m) i dp}
   \<and> ino_set (metainomap m') = ino_set (metainomap m)
        \<union> {j. j = i \<and> to_dump cfg (iexclude m) i dp \<and> \<not> MSINCE dp (ddate cfg)}
   \<and> (\<forall>j. exclude_ino j (iexclude m') \<longleftrightarrow>
        exclude_ino j (iexclude m) \<or> j = i \<and> allocated dp \<and> NODUMP_FLAG cfg dp)
   \<and> (\<forall>j. maps_cover m' j \<longleftrightarrow> maps_cover m j) \<and> maps_wf m'"

lemma do_exclude_ino_total:
  assumes "\<forall>n. ok n" "exclude_inv bm"
  shows "\<exists>bm'. do_exclude_ino ok i bm = Inr bm' \<and> exclude_inv bm'
    \<and> (\<forall>j. exclude_ino j bm' \<longleftrightarrow> j = i \<or> exclude_ino j bm)"
proof -
  obtain bm' where b: "do_exclude_ino ok i bm = Inr bm'"
    using assms by (cases "exclude_ino i bm") (auto simp: do_exclude_ino_def)
  then show ?thesis using do_exclude_ino_ok [OF assms(2) b] by blast
qed

lemma mapfileino_excl_total:
  assumes "\<forall>n. malloc_ok cfg n" "exclude_inv (iexclude m)"
  shows "\<exists>x. mapfileino_excl cfg dp i m = Inr (m\<lparr>iexclude := x\<rparr>) \<and> exclude_inv x
    \<and> (\<forall>j. exclude_ino j x \<longleftrightarrow> exclude_ino j (iexclude m) \<or> j = i \<and> NODUMP_FLAG cfg dp)"
proof (cases "NODUMP_FLAG cfg dp")
  case True
  obtain x where "do_exclude_ino (malloc_ok cfg) i (iexclude m) = Inr x" "exclude_inv x"
    "\<forall>j. exclude_ino j x \<longleftrightarrow> j = i \<or> exclude_ino j (iexclude m)"
    using do_exclude_ino_total [OF assms] by blast
  then show ?thesis using True by (auto simp: mapfileino_excl_def)
next
  case False
  then show ?thesis using assms by (auto simp: mapfileino_excl_def intro!: exI [of _ "iexclude m"])
qed

lemma pass1_effect_none:
  "\<not> allocated dp \<Longrightarrow> maps_wf m \<Longrightarrow> pass1_effect cfg i dp m m"
  by (simp add: pass1_effect_def keeps_used_def to_dump_def)

lemma mapfileino_effect:
  assumes ok: "\<forall>n. malloc_ok cfg n" and wf: "maps_wf m" and cov: "maps_cover m i"
    and new: "i \<notin> ino_set (usedinomap m)"
  shows "\<exists>m'. mapfileino cfg fs i (Some dp) m = Inr m' \<and> pass1_effect cfg i dp m m'"
proof (cases "allocated dp")
  case False
  then have "mapfileino cfg fs i (Some dp) m = Inr m"
    by (auto simp: mapfileino_def allocated_def Let_def)
  then show ?thesis using pass1_effect_none [OF False wf] by blast
next
  case True
  have nt: "\<not> TSTINO i (usedinomap m)" using new by (simp add: ino_set_def)
  let ?m1 = "m\<lparr>usedinomap := SETINO i (usedinomap m)\<rparr>"
  obtain x where x: "mapfileino_excl cfg dp i ?m1 = Inr (?m1\<lparr>iexclude := x\<rparr>)" "exclude_inv x"
    "\<forall>j. exclude_ino j x \<longleftrightarrow> exclude_ino j (iexclude m) \<or> j = i \<and> NODUMP_FLAG cfg dp"
    using mapfileino_excl_total [OF ok, of ?m1 dp i] wf by (auto simp: maps_wf_def)
  have c: "in_map i (usedinomap m)" "in_map i (dumpdirmap m)" "in_map i (dumpinomap m)"
    "in_map i (metainomap m)" using cov by (simp_all add: maps_cover_def)
  show ?thesis
    using True nt x c
    by (simp add: mapfileino_def allocated_def Let_def WANTTODUMP_def pass1_effect_def keeps_used_def
        to_dump_def excluded_def ino_simps maps_cover_def maps_wf_def
        ino_set_def [symmetric] TSTINO_ino_set)
qed


lemma mapfileino_excl_agree:
  assumes "\<forall>j. j \<noteq> k \<longrightarrow> (exclude_ino j ex' \<longleftrightarrow> exclude_ino j ex)" and "i \<noteq> k"
  shows "keeps_used cfg ex' i dp = keeps_used cfg ex i dp" "to_dump cfg ex' i dp = to_dump cfg ex i dp"
  using assms by (simp_all add: keeps_used_def to_dump_def excluded_def)

definition scanned :: "(dump_ino_t \<times> dinode) list \<Rightarrow> (dump_ino_t \<Rightarrow> dinode \<Rightarrow> bool) \<Rightarrow> dump_ino_t set" where
  "scanned xs P = {i. \<exists>dp. (i, dp) \<in> set xs \<and> P i dp}"

lemma scanned_Nil [simp]: "scanned [] P = {}"
  by (simp add: scanned_def)

lemma scanned_Cons: "scanned ((i, dp) # xs) P = {j. j = i \<and> P i dp} \<union> scanned xs P"
  by (auto simp: scanned_def)

lemma scanned_cong:
  "(\<And>i dp. (i, dp) \<in> set xs \<Longrightarrow> P i dp = Q i dp) \<Longrightarrow> scanned xs P = scanned xs Q"
  by (auto simp: scanned_def)

lemma mapfiles_loop_marks:
  assumes "\<forall>n. malloc_ok cfg n" "maps_wf m" "distinct (map fst xs)" "0 \<notin> fst ` set xs"
    and "\<forall>i \<in> fst ` set xs. maps_cover m i \<and> i \<notin> ino_set (usedinomap m)"
  shows "\<exists>m'. mapfiles_loop cfg fs (map (\<lambda>(i, dp). Scan_Ino i dp) xs) m = Inr m'
    \<and> ino_set (usedinomap m') = ino_set (usedinomap m) \<union> scanned xs (keeps_used cfg (iexclude m))
    \<and> ino_set (dumpdirmap m') = ino_set (dumpdirmap m)
         \<union> scanned xs (\<lambda>i dp. allocated dp \<and> file_mode dp = IFDIR)
    \<and> ino_set (dumpinomap m') = ino_set (dumpinomap m) \<union> scanned xs (to_dump cfg (iexclude m))
    \<and> ino_set (metainomap m') = ino_set (metainomap m)
         \<union> scanned xs (\<lambda>i dp. to_dump cfg (iexclude m) i dp \<and> \<not> MSINCE dp (ddate cfg))
    \<and> (\<forall>j. maps_cover m' j \<longleftrightarrow> maps_cover m j)"
  using assms
proof (induction xs arbitrary: m)
  case Nil
  then show ?case by simp
next
  case (Cons x xs)
  obtain i dp where x: "x = (i, dp)" by (cases x)
  let ?m0 = "m\<lparr>curino := i\<rparr>"
  have pre: "maps_wf ?m0" "maps_cover ?m0 i" "i \<notin> ino_set (usedinomap ?m0)"
    using Cons.prems x by (auto simp: maps_wf_def maps_cover_def)
  obtain m1 where m1: "mapfileino cfg fs i (Some dp) ?m0 = Inr m1" "pass1_effect cfg i dp ?m0 m1"
    using mapfileino_effect [OF Cons.prems(1) pre] by blast
  note eff = m1(2)[unfolded pass1_effect_def, simplified]
  have new: "\<forall>k \<in> fst ` set xs. maps_cover m1 k \<and> k \<notin> ino_set (usedinomap m1)"
    using eff Cons.prems(3,5) x by (auto simp: maps_cover_def)
  have agree: "keeps_used cfg (iexclude m1) k d = keeps_used cfg (iexclude m) k d"
      "to_dump cfg (iexclude m1) k d = to_dump cfg (iexclude m) k d"
    if "(k, d) \<in> set xs" for k d
    using mapfileino_excl_agree [of i "iexclude m1" "iexclude m" k cfg d] eff that Cons.prems(3) x
    by (force simp: image_iff)+
  have sc: "scanned xs (keeps_used cfg (iexclude m1)) = scanned xs (keeps_used cfg (iexclude m))"
      "scanned xs (to_dump cfg (iexclude m1)) = scanned xs (to_dump cfg (iexclude m))"
      "scanned xs (\<lambda>i dp. to_dump cfg (iexclude m1) i dp \<and> \<not> MSINCE dp (ddate cfg))
        = scanned xs (\<lambda>i dp. to_dump cfg (iexclude m) i dp \<and> \<not> MSINCE dp (ddate cfg))"
    by (rule scanned_cong; simp add: agree)+
  have "maps_wf m1" "distinct (map fst xs)" "0 \<notin> fst ` set xs" "i \<noteq> 0"
    using eff Cons.prems(3,4) x by auto
  then show ?case
    using Cons.IH [OF Cons.prems(1) _ _ _ new] eff m1(1)
    by (simp add: x scanned_Cons sc Un_assoc) (simp add: maps_cover_def)
qed

lemma mapfiles_marks:
  assumes ok: "\<forall>n. malloc_ok cfg n" and wf: "maps_wf m" and d: "distinct (map fst xs)"
    and z: "0 \<notin> fst ` set xs" and cov: "\<forall>i \<in> fst ` set xs. maps_cover m i" "maps_cover m ROOTINO"
    and empty: "ino_set (usedinomap m) = {}" "ino_set (dumpdirmap m) = {}"
      "ino_set (dumpinomap m) = {}" "ino_set (metainomap m) = {}"
    and sc: "fs_scan fs = Some (map (\<lambda>(i, dp). Scan_Ino i dp) xs)"
  shows "\<exists>m'. mapfiles cfg fs m = Inr m'
    \<and> ino_set (usedinomap m') = scanned xs (keeps_used cfg (iexclude m))
    \<and> ino_set (dumpdirmap m') = scanned xs (\<lambda>i dp. allocated dp \<and> file_mode dp = IFDIR)
    \<and> ino_set (dumpinomap m') = insert ROOTINO (scanned xs (to_dump cfg (iexclude m)))
    \<and> ino_set (metainomap m')
         = scanned xs (\<lambda>i dp. to_dump cfg (iexclude m) i dp \<and> \<not> MSINCE dp (ddate cfg))"
proof -
  let ?m0 = "m\<lparr>anydirskipped := False\<rparr>"
  obtain m1 where m1: "mapfiles_loop cfg fs (map (\<lambda>(i, dp). Scan_Ino i dp) xs) ?m0 = Inr m1"
    "ino_set (usedinomap m1) = scanned xs (keeps_used cfg (iexclude m))"
    "ino_set (dumpdirmap m1) = scanned xs (\<lambda>i dp. allocated dp \<and> file_mode dp = IFDIR)"
    "ino_set (dumpinomap m1) = scanned xs (to_dump cfg (iexclude m))"
    "ino_set (metainomap m1) = scanned xs (\<lambda>i dp. to_dump cfg (iexclude m) i dp \<and> \<not> MSINCE dp (ddate cfg))"
    "\<forall>j. maps_cover m1 j \<longleftrightarrow> maps_cover ?m0 j"
    using mapfiles_loop_marks [OF ok, of ?m0 xs fs] wf d z cov empty
    by (auto simp: maps_wf_def maps_cover_def)
  moreover have "in_map ROOTINO (dumpinomap m1)"
    using spec [OF m1(6), of ROOTINO] cov(2) by (simp add: maps_cover_def)
  ultimately show ?thesis by (simp add: mapfiles_def sc ino_simps)
qed


section \<open>Properties\<close>

text \<open>
  A small file system for the witnesses: the root directory holds one file of inode 11, and both
  changed at time 50.
\<close>

definition sample_inode :: "u16 \<Rightarrow> dinode" where
  "sample_inode mode = \<lparr> di_mode = mode, di_uid = 0, di_size = 0, di_atime = 50, di_ctime = 50,
     di_mtime = 50, di_dtime = 0, di_gid = 0, di_nlink = 1, di_blocks = 0, di_flags = 0,
     di_db = replicate 12 0, di_ib = replicate 3 0, di_gen = 0, di_file_acl = 0, di_dir_acl = 0,
     di_uidhigh = 0, di_gidhigh = 0, di_extraisize = 0 \<rparr>"

definition sample_fs :: fsys where
  "sample_fs = \<lparr> fs_bsize = 1024,
     fs_inode = (\<lambda>i. if i = 2 then Some (sample_inode 0x41ED)
                     else if i = 11 then Some (sample_inode 0x81A4) else None),
     fs_dir = (\<lambda>i. if i = 2 then ([\<lparr> de_inode = 11, de_name_len = 1, de_name = ''a'' \<rparr>], 0) else ([], 0)),
     fs_namei = (\<lambda>p. None),
     fs_scan = Some [Scan_Ino 2 (sample_inode 0x41ED), Scan_Ino 11 (sample_inode 0x81A4)] \<rparr>"

definition empty_maps :: maps where
  "empty_maps = \<lparr> usedinomap = [0, 0], dumpdirmap = [0, 0], dumpinomap = [0, 0], metainomap = [0, 0],
     iexclude = [], tapesize = 0, anydirskipped = False, curino = 0 \<rparr>"

text \<open>C4: A scan of the whole file system (\<open>mapfiles\<close>) ends normally and marks exactly: in
  \<open>usedinomap\<close> the allocated inodes but for excluded directories, in \<open>dumpdirmap\<close> the allocated
  directories, in \<open>dumpinomap\<close> the root and the allocated inodes that changed since \<open>ddate\<close> and are
  not excluded, and in \<open>metainomap\<close> those of them whose contents did not change.\<close>

theorem pass1_exact:
  assumes "\<forall>n. malloc_ok cfg n" "maps_wf m" "distinct (map fst xs)" "0 \<notin> fst ` set xs"
    and "\<forall>i \<in> fst ` set xs. maps_cover m i" "maps_cover m ROOTINO"
    and "ino_set (usedinomap m) = {}" "ino_set (dumpdirmap m) = {}" "ino_set (dumpinomap m) = {}"
      "ino_set (metainomap m) = {}"
    and "fs_scan fs = Some (map (\<lambda>(i, dp). Scan_Ino i dp) xs)"
  shows "\<exists>m'. mapfiles cfg fs m = Inr m'
    \<and> ino_set (usedinomap m') = {i. \<exists>dp. (i, dp) \<in> set xs \<and> allocated dp
         \<and> \<not> (file_mode dp = IFDIR \<and> excluded cfg (iexclude m) i dp)}
    \<and> ino_set (dumpdirmap m') = {i. \<exists>dp. (i, dp) \<in> set xs \<and> allocated dp \<and> file_mode dp = IFDIR}
    \<and> ino_set (dumpinomap m') = insert ROOTINO {i. \<exists>dp. (i, dp) \<in> set xs \<and> allocated dp
         \<and> CSINCE dp (ddate cfg) \<and> \<not> excluded cfg (iexclude m) i dp}
    \<and> ino_set (metainomap m') = {i. \<exists>dp. (i, dp) \<in> set xs \<and> allocated dp
         \<and> CSINCE dp (ddate cfg) \<and> \<not> excluded cfg (iexclude m) i dp \<and> \<not> MSINCE dp (ddate cfg)}"
  using mapfiles_marks [OF assms]
  by (simp add: scanned_def keeps_used_def to_dump_def conj_assoc)

theorem pass1_exact_witness:
  "\<exists>m'. mapfiles \<lparr> ddate = 40, nonodump = False, malloc_ok = \<lambda>_. True \<rparr> sample_fs empty_maps = Inr m'
     \<and> ino_set (dumpdirmap m') = {2}"
proof -
  let ?cfg = "\<lparr> ddate = 40, nonodump = False, malloc_ok = \<lambda>_. True \<rparr>"
  let ?xs = "[(2, sample_inode 0x41ED), (11, sample_inode 0x81A4)] :: (dump_ino_t \<times> dinode) list"
  have z: "ino_set [0, 0] = {}"
    using TSTINO_zeros [of _ 2] by (simp add: ino_set_def numeral_2_eq_2)
  have sc: "fs_scan sample_fs = Some (map (\<lambda>(i, dp). Scan_Ino i dp) ?xs)"
    by (simp add: sample_fs_def)
  have "\<exists>m'. mapfiles ?cfg sample_fs empty_maps = Inr m' \<and> ino_set (dumpdirmap m')
      = {i. \<exists>dp. (i, dp) \<in> set ?xs \<and> allocated dp \<and> file_mode dp = IFDIR}"
    using pass1_exact [OF _ _ _ _ _ _ _ _ _ _ sc, of ?cfg empty_maps]
    by (auto simp: empty_maps_def maps_wf_def exclude_inv_def maps_cover_def in_map_def ino_byte_def
        NBBY_def ROOTINO_def z)
  moreover have "allocated (sample_inode 0x41ED)" "file_mode (sample_inode 0x41ED) = IFDIR"
    "file_mode (sample_inode 0x81A4) \<noteq> IFDIR"
    by (simp_all add: allocated_def file_mode_def mode_consts sample_inode_def)
  then have "{i. \<exists>dp. (i, dp) \<in> set ?xs \<and> allocated dp \<and> file_mode dp = IFDIR} = {2}"
    by auto
  ultimately show ?thesis by simp
qed

end
