(* ===== verification/Directory_Pass.thy ===== *)
theory Directory_Pass
  imports Mapping_Pass
begin

text \<open>
  Pass 2 of dump: \<open>searchdir\<close> and \<open>mapdirs\<close> of dump/traverse.c and the loop of main in dump/main.c
  add the directories that lead to a dumped file to the dump list and drop the directories that
  are not needed from the directory map.  The theorems: the loop ends, and when it does every
  directory of the map that holds a dumped file is itself dumped.
\<close>

section \<open>Pass 2\<close>

text \<open>
  \<open>searchdir\<close>, the callback of \<open>mapdirs\<close>; its state is the pair of flags \<open>HASDUMPEDFILE\<close> and
  \<open>HASSUBDIRS\<close> of \<open>*ret\<close> and the maps.
\<close>

definition searchdir :: "fsys \<Rightarrow> bool \<Rightarrow> ext2_dir_entry \<Rightarrow> (bool \<times> bool) \<times> maps
    \<Rightarrow> dump_stop + u32 \<times> (bool \<times> bool) \<times> maps" where
  "searchdir fs nodump d s = (case s of ((dumped, subdirs), m) \<Rightarrow>
     if de_inode d = 0 then Inr (0, ((dumped, subdirs), m))
     else if dot_entry d then Inr (0, ((dumped, subdirs), m))
     else if nodump then
       bindE (getino fs (de_inode d) m) (\<lambda>(ip, m).
       let m = (if TSTINO (de_inode d) (dumpinomap m)
                then m\<lparr>dumpinomap := CLRINO (de_inode d) (dumpinomap m), tapesize := tapesize m - blockest fs ip\<rparr>
                else m) in
       if file_mode ip = IFDIR
       then Inr (0, ((dumped, True), m\<lparr>dumpdirmap := SETINO (de_inode d) (dumpdirmap m),
              usedinomap := CLRINO (de_inode d) (usedinomap m)\<rparr>))
       else Inr (0, ((dumped, subdirs), m)))
     else
       let dumped = (dumped \<or> TSTINO (de_inode d) (dumpinomap m)) in
       if TSTINO (de_inode d) (dumpinomap m) \<and> subdirs then Inr (DIRENT_ABORT, ((dumped, subdirs), m))
       else
         let subdirs = (subdirs \<or> TSTINO (de_inode d) (dumpdirmap m)) in
         if TSTINO (de_inode d) (dumpdirmap m) \<and> dumped then Inr (DIRENT_ABORT, ((dumped, subdirs), m))
         else Inr (0, ((dumped, subdirs), m)))"

text \<open>
  The body of \<open>mapdirs\<close> for one inode of the directory map, and its loop.  \<open>isdir\<close> is the byte of
  the map as it was when the first of its eight inodes was reached, shifted right for the others.
\<close>

definition mapdirs_body :: "fsys \<Rightarrow> dump_ino_t \<Rightarrow> bool \<times> maps \<Rightarrow> dump_stop + bool \<times> maps" where
  "mapdirs_body fs ino cm = (case cm of (change, m) \<Rightarrow>
     let nodump = (\<not> TSTINO ino (usedinomap m)) in
     if TSTINO ino (dumpinomap m) \<and> \<not> nodump then Inr (change, m)
     else
       bindE (getino fs ino m) (\<lambda>(dp, m).
       bindE (dir_iterate (searchdir fs nodump) (fst (fs_dir fs ino)) ((False, False), m)) (\<lambda>((dumped, subdirs), m).
       if dumped then
         Inr (True, m\<lparr>dumpinomap := SETINO ino (dumpinomap m), tapesize := tapesize m + blockest fs dp\<rparr>)
       else if nodump then
         Inr (change \<or> subdirs, m\<lparr>dumpdirmap := CLRINO ino (dumpdirmap m)\<rparr>)
       else if \<not> subdirs then
         if \<not> TSTINO ino (dumpinomap m) then Inr (True, m\<lparr>dumpdirmap := CLRINO ino (dumpdirmap m)\<rparr>)
         else Inr (change, m)
       else Inr (change, m))))"

fun mapdirs_loop :: "fsys \<Rightarrow> nat list \<Rightarrow> byte \<Rightarrow> bool \<times> maps \<Rightarrow> dump_stop + bool \<times> maps" where
  "mapdirs_loop fs [] isdir cm = Inr cm"
| "mapdirs_loop fs (ino # inos) isdir cm =
     (let isdir = (if (ino - 1) mod NBBY = 0 then dumpdirmap (snd cm) ! ((ino - 1) div NBBY)
                   else drop_bit 1 isdir) in
      if isdir AND 1 = 0 then mapdirs_loop fs inos isdir cm
      else bindE (mapdirs_body fs (of_nat ino) cm) (mapdirs_loop fs inos isdir))"

definition mapdirs :: "fsys \<Rightarrow> dump_ino_t \<Rightarrow> maps \<Rightarrow> dump_stop + bool \<times> maps" where
  "mapdirs fs maxino m = mapdirs_loop fs [1..<unat maxino] 0 (False, m)"

text \<open>The loop of main: \<open>while (anydirskipped) anydirskipped = mapdirs(maxino, &tapesize)\<close>.\<close>

fun pass2 :: "nat \<Rightarrow> fsys \<Rightarrow> dump_ino_t \<Rightarrow> maps \<Rightarrow> dump_stop + maps" where
  "pass2 0 fs maxino m = (if anydirskipped m then Inl NoFuel else Inr m)"
| "pass2 (Suc fuel) fs maxino m =
     (if anydirskipped m
      then bindE (mapdirs fs maxino m) (\<lambda>(change, m). pass2 fuel fs maxino (m\<lparr>anydirskipped := change\<rparr>))
      else Inr m)"


section \<open>Searching one directory\<close>

definition live_entry :: "ext2_dir_entry \<Rightarrow> bool" where
  "live_entry d \<longleftrightarrow> de_inode d \<noteq> 0 \<and> \<not> dot_entry d"

definition entries_in :: "ext2_dir_entry list \<Rightarrow> dump_ino_t set \<Rightarrow> bool" where
  "entries_in ds S \<longleftrightarrow> (\<exists>d \<in> set ds. live_entry d \<and> de_inode d \<in> S)"

lemma entries_in_Nil [simp]: "\<not> entries_in [] S"
  by (simp add: entries_in_def)

lemma entries_in_Cons: "entries_in (d # ds) S \<longleftrightarrow> live_entry d \<and> de_inode d \<in> S \<or> entries_in ds S"
  by (auto simp: entries_in_def)

lemma entries_in_mono: "entries_in ds S \<Longrightarrow> S \<subseteq> T \<Longrightarrow> entries_in ds T"
  by (auto simp: entries_in_def)

lemma abort_flags [simp]: "DIRENT_ABORT AND DIRENT_ABORT \<noteq> 0" "(0 :: u32) AND DIRENT_ABORT = 0"
  by (simp_all add: DIRENT_ABORT_def)

text \<open>Without \<open>nodump\<close> the maps stay, and the flags say exactly which kinds of entries there are.\<close>

lemma searchdir_plain:
  "dir_iterate (searchdir fs False) ds ((a, b), m)
     = Inr ((a \<or> entries_in ds (ino_set (dumpinomap m)), b \<or> entries_in ds (ino_set (dumpdirmap m))), m)
   \<or> (\<exists>x y. dir_iterate (searchdir fs False) ds ((a, b), m) = Inr ((x, y), m) \<and> x \<and> y
     \<and> (a \<or> entries_in ds (ino_set (dumpinomap m))) \<and> (b \<or> entries_in ds (ino_set (dumpdirmap m))))"
proof (induction ds arbitrary: a b)
  case Nil
  then show ?case by simp
next
  case (Cons d ds)
  show ?case
  proof (cases "live_entry d")
    case False
    then have "searchdir fs False d ((a, b), m) = Inr (0, ((a, b), m))"
      by (auto simp: searchdir_def live_entry_def)
    then show ?thesis using Cons.IH [of a b] False by (simp add: entries_in_Cons)
  next
    case True
    let ?i = "TSTINO (de_inode d) (dumpinomap m)" and ?j = "TSTINO (de_inode d) (dumpdirmap m)"
    have l: "de_inode d \<noteq> 0" "\<not> dot_entry d" using True by (simp_all add: live_entry_def)
    show ?thesis
      using Cons.IH [of "a \<or> ?i" "b \<or> ?j"] l True
      by (auto simp: searchdir_def Let_def entries_in_Cons TSTINO_ino_set)
  qed
qed

lemma searchdir_plain_flags:
  "\<exists>x y. dir_iterate (searchdir fs False) ds ((False, False), m) = Inr ((x, y), m)
    \<and> (x \<longleftrightarrow> entries_in ds (ino_set (dumpinomap m))) \<and> (y \<longleftrightarrow> entries_in ds (ino_set (dumpdirmap m)))"
  using searchdir_plain [of fs ds False False m] by auto

text \<open>With \<open>nodump\<close>: no dumped file is reported, and unless a subdirectory is, only non-directories
  leave the dump list.\<close>

definition only_files_dropped :: "fsys \<Rightarrow> maps \<Rightarrow> maps \<Rightarrow> bool" where
  "only_files_dropped fs m m' \<longleftrightarrow>
     usedinomap m' = usedinomap m \<and> dumpdirmap m' = dumpdirmap m
   \<and> ino_set (dumpinomap m') \<subseteq> ino_set (dumpinomap m)
   \<and> (\<forall>j \<in> ino_set (dumpinomap m) - ino_set (dumpinomap m').
        \<forall>ip. fs_inode fs j = Some ip \<longrightarrow> file_mode ip \<noteq> IFDIR)"

lemma only_files_dropped_trans:
  "only_files_dropped fs m m1 \<Longrightarrow> only_files_dropped fs m1 m2 \<Longrightarrow> only_files_dropped fs m m2"
  unfolding only_files_dropped_def by (intro conjI; force)

lemma only_files_dropped_refl [simp]: "only_files_dropped fs m m"
  by (simp add: only_files_dropped_def)

lemma searchdir_nodump_step:
  assumes "searchdir fs True d ((a, b), m) = Inr (ret, ((x, y), m'))"
  shows "ret = 0 \<and> x = a \<and> (b \<longrightarrow> y) \<and> (\<not> y \<longrightarrow> only_files_dropped fs m m')"
  using assms
  by (auto simp: searchdir_def Let_def getino_def only_files_dropped_def ino_simps
      split: if_splits option.splits)

lemma searchdir_nodump:
  "dir_iterate (searchdir fs True) ds ((a, b), m) = Inr ((x, y), m') \<Longrightarrow>
     x = a \<and> (b \<longrightarrow> y) \<and> (\<not> y \<longrightarrow> only_files_dropped fs m m')"
proof (induction ds arbitrary: b m)
  case Nil
  then show ?case by simp
next
  case (Cons d ds)
  then obtain ret x1 y1 m1 where s: "searchdir fs True d ((a, b), m) = Inr (ret, ((x1, y1), m1))"
    by (auto simp: bindE_Inr_iff)
  note st = searchdir_nodump_step [OF s]
  then have "dir_iterate (searchdir fs True) ds ((a, y1), m1) = Inr ((x, y), m')"
    using Cons.prems s by simp
  then show ?case using Cons.IH [of y1 m1] st only_files_dropped_trans by blast
qed


section \<open>One step of the directory pass\<close>

definition dirs_ok :: "fsys \<Rightarrow> maps \<Rightarrow> bool" where
  "dirs_ok fs m \<longleftrightarrow> (\<forall>d \<in> ino_set (dumpdirmap m). \<exists>ip. fs_inode fs d = Some ip \<and> file_mode ip = IFDIR)"

lemma ino_set_SETINO_bounds: "ino_set mp \<subseteq> ino_set (SETINO i mp)" "ino_set (SETINO i mp) \<subseteq> insert i (ino_set mp)"
proof -
  have "SETINO i mp = mp" if "\<not> in_map i mp" using that by (simp add: SETINO_def in_map_def)
  then show "ino_set mp \<subseteq> ino_set (SETINO i mp)" "ino_set (SETINO i mp) \<subseteq> insert i (ino_set mp)"
    by (cases "in_map i mp"; auto simp: ino_simps)+
qed

text \<open>What a search with \<open>nodump\<close> does to the directory map.\<close>

definition dirs_grow :: "fsys \<Rightarrow> maps \<Rightarrow> maps \<Rightarrow> bool" where
  "dirs_grow fs m m' \<longleftrightarrow> ino_set (dumpdirmap m) \<subseteq> ino_set (dumpdirmap m') \<and> (dirs_ok fs m \<longrightarrow> dirs_ok fs m')"

lemma searchdir_nodump_dirs_step:
  assumes "searchdir fs True d (f, m) = Inr (ret, (f', m'))"
  shows "dirs_grow fs m m'"
proof -
  obtain a b where f: "f = (a, b)" by (cases f)
  show ?thesis
    using assms ino_set_SETINO_bounds [where mp = "dumpdirmap m" and i = "de_inode d"]
    by (auto simp: f searchdir_def Let_def getino_def dirs_grow_def dirs_ok_def
        split: if_splits option.splits)
qed

lemma dir_iterate_invariant:
  assumes "dir_iterate f ds s = Inr s'" "R s s"
    and "\<And>d s1 ret s2. d \<in> set ds \<Longrightarrow> R s s1 \<Longrightarrow> f d s1 = Inr (ret, s2) \<Longrightarrow> R s s2"
  shows "R s s'"
proof -
  have "dir_iterate f es t = Inr s' \<Longrightarrow> R s t \<Longrightarrow> set es \<subseteq> set ds \<Longrightarrow> R s s'" for es t
  proof (induction es arbitrary: t)
    case Nil
    then show ?case by simp
  next
    case (Cons e es)
    then obtain ret s2 where "f e t = Inr (ret, s2)"
      and "s' = s2 \<or> dir_iterate f es s2 = Inr s'"
      by (auto simp: bindE_Inr_iff split: if_splits)
    then show ?case using Cons assms(3) [of e t ret s2] by auto
  qed
  then show ?thesis using assms by blast
qed

lemma searchdir_nodump_dirs:
  assumes "dir_iterate (searchdir fs True) ds (f, m) = Inr (f', m')"
  shows "dirs_grow fs m m'"
proof -
  have "dirs_grow fs (snd (f, m)) (snd (f', m'))"
  proof (rule dir_iterate_invariant [OF assms, where R = "\<lambda>s t. dirs_grow fs (snd s) (snd t)"])
    show "dirs_grow fs (snd (f, m)) (snd (f, m))" by (simp add: dirs_grow_def)
    fix d s1 ret s2
    assume "dirs_grow fs (snd (f, m)) (snd s1)" "searchdir fs True d s1 = Inr (ret, s2)"
    then show "dirs_grow fs (snd (f, m)) (snd s2)"
      using searchdir_nodump_dirs_step [of fs d "fst s1" "snd s1" ret "fst s2" "snd s2"]
      by (auto simp: dirs_grow_def)
  qed
  then show ?thesis by simp
qed

definition body_effect :: "fsys \<Rightarrow> dump_ino_t \<Rightarrow> bool \<times> maps \<Rightarrow> bool \<times> maps \<Rightarrow> bool" where
  "body_effect fs ino cm cm' \<longleftrightarrow> (case (cm, cm') of ((c, m), (c', m')) \<Rightarrow>
     (c \<longrightarrow> c') \<and> ino_set (dumpdirmap m) - {ino} \<subseteq> ino_set (dumpdirmap m') \<and> dirs_ok fs m'
   \<and> (\<not> c' \<longrightarrow> usedinomap m' = usedinomap m \<and> ino_set (dumpdirmap m') \<subseteq> ino_set (dumpdirmap m)
        \<and> ino_set (dumpinomap m') \<subseteq> ino_set (dumpinomap m)
        \<and> (\<forall>j \<in> ino_set (dumpinomap m) - ino_set (dumpinomap m').
             \<forall>ip. fs_inode fs j = Some ip \<longrightarrow> file_mode ip \<noteq> IFDIR)
        \<and> (ino \<in> ino_set (usedinomap m) \<longrightarrow> ino \<in> ino_set (dumpinomap m)
             \<or> \<not> entries_in (fst (fs_dir fs ino)) (ino_set (dumpinomap m)))))"

lemma mapdirs_body_effect:
  assumes "mapdirs_body fs ino (c, m) = Inr (c', m')" "dirs_ok fs m"
  shows "body_effect fs ino (c, m) (c', m')"
proof (cases "TSTINO ino (usedinomap m)")
  case True
  let ?m = "m\<lparr>curino := ino\<rparr>"
  obtain x y where xy: "dir_iterate (searchdir fs False) (fst (fs_dir fs ino)) ((False, False), ?m)
      = Inr ((x, y), ?m)" "x \<longleftrightarrow> entries_in (fst (fs_dir fs ino)) (ino_set (dumpinomap m))"
    using searchdir_plain_flags [of fs "fst (fs_dir fs ino)" ?m] by auto
  show ?thesis
    using assms True xy
    by (auto simp: mapdirs_body_def getino_def body_effect_def dirs_ok_def ino_simps
        TSTINO_ino_set Let_def bindE_Inr_iff split: if_splits option.splits)
next
  case False
  let ?m = "m\<lparr>curino := ino\<rparr>"
  obtain x y m1 where it: "dir_iterate (searchdir fs True) (fst (fs_dir fs ino)) ((False, False), ?m)
      = Inr ((x, y), m1)"
    using assms False by (auto simp: mapdirs_body_def getino_def bindE_Inr_iff Let_def split: option.splits)
  note n = searchdir_nodump [OF it] and g = searchdir_nodump_dirs [OF it]
  have m': "c' = (c \<or> y)" "m' = m1\<lparr>dumpdirmap := CLRINO ino (dumpdirmap m1)\<rparr>"
    using assms False it n by (auto simp: mapdirs_body_def getino_def Let_def split: option.splits)
  show ?thesis
    using n g assms(2) False
    by (auto simp: m' body_effect_def only_files_dropped_def dirs_grow_def dirs_ok_def ino_simps TSTINO_ino_set)
qed


section \<open>A pass without a change\<close>

text \<open>
  \<open>cached k b mp\<close>: the byte \<open>b\<close>, as the loop holds it before inode \<open>k\<close>, has the bit of every
  later inode of the same byte that is now in the map \<open>mp\<close>.
\<close>

definition same_byte :: "nat \<Rightarrow> nat \<Rightarrow> bool" where
  "same_byte k j \<longleftrightarrow> k \<le> j \<and> (j - 1) div NBBY = (k - 1) div NBBY"

definition cached :: "nat \<Rightarrow> byte \<Rightarrow> byte list \<Rightarrow> bool" where
  "cached k b mp \<longleftrightarrow> ((k - 1) mod NBBY \<noteq> 0 \<longrightarrow>
     (\<forall>j < 2 ^ 32. same_byte k j \<and> TSTINO (of_nat j) mp \<longrightarrow> bit b (Suc (j - k))))"

definition next_byte :: "nat \<Rightarrow> byte \<Rightarrow> byte list \<Rightarrow> byte" where
  "next_byte k b mp = (if (k - 1) mod NBBY = 0 then mp ! ((k - 1) div NBBY) else drop_bit 1 b)"

lemma TSTINO_of_nat:
  assumes "0 < j" "j < 2 ^ 32"
  shows "TSTINO (of_nat j) mp \<longleftrightarrow> (j - 1) div NBBY < length mp \<and> bit (mp ! ((j - 1) div NBBY)) ((j - 1) mod NBBY)"
proof -
  have "of_nat j - 1 = (of_nat (j - 1) :: u32)" using assms by simp
  moreover have "unat (of_nat (j - 1) :: u32) = j - 1"
    using assms by (simp only: unat_of_nat) simp
  ultimately have "ino_byte (of_nat j) = (j - 1) div NBBY" "ino_bit (of_nat j) = (j - 1) mod NBBY"
    by (simp_all add: ino_byte_def ino_bit_def)
  then show ?thesis by (simp add: TSTINO_bit in_map_def)
qed

lemma same_byte_diff:
  assumes "same_byte k j" "(k - 1) mod NBBY = 0" "0 < k"
  shows "(j - 1) mod NBBY = j - k" "(j - 1) div NBBY = (k - 1) div NBBY"
proof -
  have d: "(j - 1) div NBBY = (k - 1) div NBBY" "k \<le> j" using assms(1) by (simp_all add: same_byte_def)
  then have "(j - 1) mod NBBY = (j - 1) - NBBY * ((k - 1) div NBBY)"
    by (simp add: minus_mult_div_eq_mod [symmetric])
  moreover have "NBBY * ((k - 1) div NBBY) = k - 1"
    using assms(2) by (simp add: minus_mod_eq_mult_div [symmetric])
  ultimately show "(j - 1) mod NBBY = j - k" using assms(3) d by simp
  show "(j - 1) div NBBY = (k - 1) div NBBY" by (rule d)
qed

lemma next_byte_bit:
  assumes "cached k b mp" "0 < k" "j < 2 ^ 32" "same_byte k j" "TSTINO (of_nat j) mp"
  shows "bit (next_byte k b mp) (j - k)"
proof (cases "(k - 1) mod NBBY = 0")
  case True
  have "0 < j" using assms by (simp add: same_byte_def)
  then show ?thesis
    using True assms TSTINO_of_nat [of j mp] same_byte_diff [OF assms(4) True assms(2)]
    by (simp add: next_byte_def)
next
  case False
  then show ?thesis using assms by (simp add: next_byte_def cached_def bit_drop_bit_eq)
qed

lemma cached_next:
  assumes "cached k b mp" "0 < k" "ino_set mp' \<subseteq> ino_set mp"
  shows "cached (Suc k) (next_byte k b mp) mp'"
  unfolding cached_def
proof (intro impI allI)
  fix j assume k: "(Suc k - 1) mod NBBY \<noteq> 0" and j: "(j :: nat) < 2 ^ 32"
    and a: "same_byte (Suc k) j \<and> TSTINO (of_nat j) mp'"
  have "k div NBBY = (k - 1) div NBBY"
    using k assms(2) by (cases k) (auto simp: NBBY_def div_Suc)
  then have "same_byte k j" using a by (auto simp: same_byte_def)
  then have "bit (next_byte k b mp) (j - k)"
    using next_byte_bit [OF assms(1,2) j] a assms(3) by (auto simp: ino_set_def)
  then show "bit (next_byte k b mp) (Suc (j - Suc k))"
    using a by (simp add: same_byte_def Suc_diff_Suc)
qed

lemma mapdirs_loop_Cons:
  "k < n \<Longrightarrow> mapdirs_loop fs [k..<n] b cm =
     (if next_byte k b (dumpdirmap (snd cm)) AND 1 = 0
      then mapdirs_loop fs [Suc k..<n] (next_byte k b (dumpdirmap (snd cm))) cm
      else bindE (mapdirs_body fs (of_nat k) cm)
             (mapdirs_loop fs [Suc k..<n] (next_byte k b (dumpdirmap (snd cm)))))"
  by (simp add: upt_conv_Cons next_byte_def)

lemma and_one_bit: "(b AND 1 = (0::byte)) \<longleftrightarrow> \<not> bit b 0"
  by (simp add: and_one_eq odd_iff_mod_2_eq_one bit_0 even_iff_mod_2_eq_zero)

definition settled :: "fsys \<Rightarrow> maps \<Rightarrow> dump_ino_t \<Rightarrow> bool" where
  "settled fs m d \<longleftrightarrow> (d \<in> ino_set (dumpdirmap m) \<and> d \<in> ino_set (usedinomap m) \<and>
     entries_in (fst (fs_dir fs d)) (ino_set (dumpinomap m)) \<longrightarrow> d \<in> ino_set (dumpinomap m))"

definition quiet :: "fsys \<Rightarrow> maps \<Rightarrow> maps \<Rightarrow> bool" where
  "quiet fs m m' \<longleftrightarrow> usedinomap m' = usedinomap m \<and> ino_set (dumpdirmap m') \<subseteq> ino_set (dumpdirmap m)
     \<and> ino_set (dumpinomap m') \<subseteq> ino_set (dumpinomap m)
     \<and> (\<forall>j \<in> ino_set (dumpinomap m) - ino_set (dumpinomap m').
          \<forall>ip. fs_inode fs j = Some ip \<longrightarrow> file_mode ip \<noteq> IFDIR)"

lemma quiet_trans: "quiet fs m m1 \<Longrightarrow> quiet fs m1 m2 \<Longrightarrow> quiet fs m m2"
  unfolding quiet_def by (intro conjI; force)

lemma settled_quiet:
  assumes "settled fs m d" "quiet fs m m'" "dirs_ok fs m"
  shows "settled fs m' d"
  unfolding settled_def
proof (intro impI)
  assume a: "d \<in> ino_set (dumpdirmap m') \<and> d \<in> ino_set (usedinomap m') \<and>
     entries_in (fst (fs_dir fs d)) (ino_set (dumpinomap m'))"
  then have "d \<in> ino_set (dumpinomap m)" "d \<in> ino_set (dumpdirmap m)"
    using assms by (auto simp: settled_def quiet_def intro: entries_in_mono)
  then show "d \<in> ino_set (dumpinomap m')" using assms(2,3) by (fastforce simp: quiet_def dirs_ok_def)
qed

lemma mapdirs_body_quiet:
  assumes "mapdirs_body fs ino (c, m) = Inr (False, m')" "dirs_ok fs m"
  shows "\<not> c \<and> quiet fs m m' \<and> dirs_ok fs m' \<and> settled fs m' ino"
proof -
  note e = mapdirs_body_effect [OF assms, unfolded body_effect_def, simplified]
  then have q: "quiet fs m m'" by (simp add: quiet_def)
  have "settled fs m ino" using e by (auto simp: settled_def)
  then show ?thesis using e q settled_quiet [OF _ q assms(2)] by simp
qed

lemma mapdirs_loop_change:
  "mapdirs_loop fs inos b (c, m) = Inr (c', m') \<Longrightarrow> dirs_ok fs m \<Longrightarrow> (c \<longrightarrow> c') \<and> dirs_ok fs m'"
proof (induction inos arbitrary: b c m)
  case Nil
  then show ?case by simp
next
  case (Cons ino inos)
  then show ?case
    using mapdirs_body_effect [of fs "of_nat ino" c m]
    by (fastforce simp: Let_def bindE_Inr_iff body_effect_def split: if_splits)
qed

lemma mapdirs_loop_quiet:
  assumes "mapdirs_loop fs [k..<n] b (c, m) = Inr (False, m')" "dirs_ok fs m" "n \<le> 2 ^ 32" "0 < k"
    "cached k b (dumpdirmap m)"
  shows "quiet fs m m' \<and> (\<forall>j \<in> {k..<n}. settled fs m' (of_nat j))"
  using assms
proof (induction "n - k" arbitrary: k b c m)
  case 0
  then show ?case by (simp add: quiet_def)
next
  case (Suc l)
  let ?b = "next_byte k b (dumpdirmap m)"
  have lt: "k < n" "l = n - Suc k" using Suc.hyps(2) by simp_all
  have hd: "{k..<n} = insert k {Suc k..<n}" using lt by auto
  show ?case
  proof (cases "bit ?b 0")
    case False
    then have r: "mapdirs_loop fs [Suc k..<n] ?b (c, m) = Inr (False, m')"
      using Suc.prems(1) lt by (simp add: mapdirs_loop_Cons and_one_bit)
    have "\<not> TSTINO (of_nat k) (dumpdirmap m)"
      using next_byte_bit [OF Suc.prems(5,4), of k] False lt Suc.prems(3) by (auto simp: same_byte_def)
    moreover have "quiet fs m m' \<and> (\<forall>j \<in> {Suc k..<n}. settled fs m' (of_nat j))"
      using Suc.hyps(1) [OF lt(2) r Suc.prems(2,3)] cached_next [OF Suc.prems(5,4)] by simp
    ultimately show ?thesis by (auto simp: hd settled_def quiet_def TSTINO_ino_set)
  next
    case True
    then obtain c1 m1 where b1: "mapdirs_body fs (of_nat k) (c, m) = Inr (c1, m1)"
      and r: "mapdirs_loop fs [Suc k..<n] ?b (c1, m1) = Inr (False, m')"
      using Suc.prems(1) lt by (auto simp: mapdirs_loop_Cons and_one_bit bindE_Inr_iff)
    have d1: "dirs_ok fs m1"
      using mapdirs_body_effect [OF b1 Suc.prems(2)] by (simp add: body_effect_def)
    have "\<not> c1" using mapdirs_loop_change [OF r d1] by auto
    then have q1: "quiet fs m m1" "settled fs m1 (of_nat k)"
      using mapdirs_body_quiet [of fs "of_nat k" c m m1] b1 Suc.prems(2) by auto
    have "cached (Suc k) ?b (dumpdirmap m1)"
      using cached_next [OF Suc.prems(5,4)] q1 by (simp add: quiet_def)
    then have q: "quiet fs m1 m' \<and> (\<forall>j \<in> {Suc k..<n}. settled fs m' (of_nat j))"
      using Suc.hyps(1) [OF lt(2) r d1 Suc.prems(3)] by simp
    then show ?thesis
      using quiet_trans [OF q1(1)] settled_quiet [OF q1(2) _ d1] by (auto simp: hd)
  qed
qed

lemma mapdirs_quiet:
  assumes "mapdirs fs maxino m = Inr (False, m')" "dirs_ok fs m" "d \<noteq> 0" "d < maxino"
  shows "settled fs m' d"
proof -
  have "unat maxino \<le> 2 ^ 32" using unsigned_less [of maxino, where ?'a = nat] by simp
  moreover have "cached 1 0 (dumpdirmap m)" by (simp add: cached_def)
  ultimately have "\<forall>j \<in> {1..<unat maxino}. settled fs m' (of_nat j)"
    using mapdirs_loop_quiet [of fs 1 "unat maxino" 0 False m m'] assms(1,2) by (simp add: mapdirs_def)
  moreover have "unat d \<in> {1..<unat maxino}"
    using assms(3,4) by (simp add: word_less_nat_alt Suc_le_eq unat_gt_0)
  ultimately have "settled fs m' (of_nat (unat d))" by blast
  then show ?thesis by simp
qed

lemma pass2_settled:
  assumes "pass2 fuel fs maxino m = Inr m'" "dirs_ok fs m" "anydirskipped m" "d \<noteq> 0" "d < maxino"
  shows "settled fs m' d"
  using assms
proof (induction fuel arbitrary: m)
  case 0
  then show ?case by simp
next
  case (Suc fuel)
  then obtain c m1 where m1: "mapdirs fs maxino m = Inr (c, m1)"
    and r: "pass2 fuel fs maxino (m1\<lparr>anydirskipped := c\<rparr>) = Inr m'"
    by (auto simp: bindE_Inr_iff)
  have d1: "dirs_ok fs (m1\<lparr>anydirskipped := c\<rparr>)"
    using mapdirs_loop_change [OF m1 [unfolded mapdirs_def] Suc.prems(2)] by (simp add: dirs_ok_def)
  show ?case
  proof (cases c)
    case True
    then show ?thesis using Suc.IH [OF r d1] Suc.prems by simp
  next
    case False
    then have "m' = m1\<lparr>anydirskipped := c\<rparr>" using r by (cases fuel) simp_all
    moreover have "settled fs m1 d" using mapdirs_quiet [of fs maxino m m1 d] m1 False Suc.prems by simp
    ultimately show ?thesis by (simp add: settled_def)
  qed
qed


section \<open>The directories that leave the map\<close>

text \<open>
  A directory of \<open>D\<close> that is not excluded and has left the map names no dumped inode, and no directory of the map that
  could still be dumped.
\<close>

definition left_out :: "fsys \<Rightarrow> dump_ino_t set \<Rightarrow> maps \<Rightarrow> bool" where
  "left_out fs D m \<longleftrightarrow> (\<forall>d \<in> D. d \<in> ino_set (usedinomap m) \<and> d \<notin> ino_set (dumpdirmap m) \<longrightarrow>
     \<not> entries_in (fst (fs_dir fs d)) (ino_set (dumpinomap m) \<union> ino_set (dumpdirmap m) \<inter> ino_set (usedinomap m)))"

lemma left_out_start: "D \<subseteq> ino_set (dumpdirmap m) \<Longrightarrow> left_out fs D m"
  by (auto simp: left_out_def)

text \<open>A search with \<open>nodump\<close> excludes what it adds to the directory map.\<close>

definition excluding :: "maps \<Rightarrow> maps \<Rightarrow> bool" where
  "excluding m m' \<longleftrightarrow> ino_set (usedinomap m') \<subseteq> ino_set (usedinomap m) \<and> ino_set (dumpdirmap m) \<subseteq> ino_set (dumpdirmap m')
     \<and> ino_set (dumpinomap m') \<subseteq> ino_set (dumpinomap m)
     \<and> ino_set (dumpdirmap m') \<inter> ino_set (usedinomap m') \<subseteq> ino_set (dumpdirmap m)"

lemma excluding_refl [simp]: "excluding m m"
  by (auto simp: excluding_def)

lemma excluding_trans: "excluding m m1 \<Longrightarrow> excluding m1 m2 \<Longrightarrow> excluding m m2"
  unfolding excluding_def by blast

lemma searchdir_excluding:
  assumes "searchdir fs True d (f, m) = Inr (ret, (f', m'))"
  shows "excluding m m'"
proof -
  obtain a b where f: "f = (a, b)" by (cases f)
  show ?thesis
    using assms ino_set_SETINO_bounds [where mp = "dumpdirmap m" and i = "de_inode d"]
    by (auto simp: f searchdir_def Let_def getino_def excluding_def ino_simps split: if_splits option.splits)
qed

lemma search_excluding:
  assumes "dir_iterate (searchdir fs True) ds (f, m) = Inr (f', m')"
  shows "excluding m m'"
proof -
  have "excluding (snd (f, m)) (snd (f', m'))"
  proof (rule dir_iterate_invariant [OF assms, where R = "\<lambda>s t. excluding (snd s) (snd t)"])
    fix d s1 ret s2
    assume "excluding (snd (f, m)) (snd s1)" "searchdir fs True d s1 = Inr (ret, s2)"
    then show "excluding (snd (f, m)) (snd s2)"
      using searchdir_excluding [of fs d "fst s1" "snd s1" ret "fst s2" "snd s2"] excluding_trans by simp
  qed simp
  then show ?thesis by simp
qed

lemma left_out_excluding:
  assumes "left_out fs D m" "excluding m m'"
  shows "left_out fs D m'"
  using assms unfolding left_out_def excluding_def by (blast intro: entries_in_mono)

lemma mapdirs_body_left_out:
  assumes b: "mapdirs_body fs ino (c, m) = Inr (c', m')" and l: "left_out fs D m"
    and ino: "ino \<in> ino_set (dumpdirmap m)"
  shows "left_out fs D m' \<and> ino_set (usedinomap m') \<subseteq> ino_set (usedinomap m)"
proof (cases "TSTINO ino (usedinomap m)")
  case True
  let ?m = "m\<lparr>curino := ino\<rparr>"
  obtain x y where xy: "dir_iterate (searchdir fs False) (fst (fs_dir fs ino)) ((False, False), ?m) = Inr ((x, y), ?m)"
    "x \<longleftrightarrow> entries_in (fst (fs_dir fs ino)) (ino_set (dumpinomap m))"
    "y \<longleftrightarrow> entries_in (fst (fs_dir fs ino)) (ino_set (dumpdirmap m))"
    using searchdir_plain_flags [of fs "fst (fs_dir fs ino)" ?m] by auto
  have u: "usedinomap m' = usedinomap m"
    using b True xy(1) by (auto simp: mapdirs_body_def getino_def Let_def bindE_Inr_iff split: if_splits option.splits)
  consider (same) "dumpinomap m' = dumpinomap m" "dumpdirmap m' = dumpdirmap m"
    | (dumped) "ino_set (dumpinomap m') \<subseteq> insert ino (ino_set (dumpinomap m))" "dumpdirmap m' = dumpdirmap m"
    | (dropped) "\<not> x" "\<not> y" "dumpinomap m' = dumpinomap m" "dumpdirmap m' = CLRINO ino (dumpdirmap m)"
  proof (cases "TSTINO ino (dumpinomap m)")
    case True
    then show ?thesis using b \<open>TSTINO ino (usedinomap m)\<close> by (intro that(1)) (auto simp: mapdirs_body_def)
  next
    case False
    then obtain ip where ip: "fs_inode fs ino = Some ip"
      using b True by (auto simp: mapdirs_body_def getino_def split: option.splits)
    show ?thesis
    proof (cases x)
      case x: True
      show ?thesis
        by (rule that(2)) (use b True False xy(1) ip x ino_set_SETINO_bounds(2) [of ino "dumpinomap m"]
          in \<open>auto simp: mapdirs_body_def getino_def\<close>)
    next
      case x: False
      show ?thesis
      proof (cases y)
        case y: True
        show ?thesis by (rule that(1)) (use b True False xy(1) ip x y in \<open>auto simp: mapdirs_body_def getino_def\<close>)
      next
        case y: False
        show ?thesis by (rule that(3)) (use b True False xy(1) ip x y in \<open>auto simp: mapdirs_body_def getino_def\<close>)
      qed
    qed
  qed
  then show ?thesis
  proof cases
    case same
    then show ?thesis using l u by (simp add: left_out_def)
  next
    case dumped
    have "ino \<in> ino_set (usedinomap m)" using True by (simp add: TSTINO_ino_set)
    then have "ino_set (dumpinomap m') \<union> ino_set (dumpdirmap m') \<inter> ino_set (usedinomap m')
        \<subseteq> ino_set (dumpinomap m) \<union> ino_set (dumpdirmap m) \<inter> ino_set (usedinomap m)"
      using dumped u ino by auto
    then show ?thesis using l u dumped(2) unfolding left_out_def by (auto dest: entries_in_mono)
  next
    case dropped
    have n: "\<not> entries_in (fst (fs_dir fs ino)) (ino_set (dumpinomap m) \<union> ino_set (dumpdirmap m) \<inter> ino_set (usedinomap m))"
      using dropped(1,2) xy(2,3) by (auto simp: entries_in_def)
    have s: "ino_set (dumpinomap m') \<union> ino_set (dumpdirmap m') \<inter> ino_set (usedinomap m')
        \<subseteq> ino_set (dumpinomap m) \<union> ino_set (dumpdirmap m) \<inter> ino_set (usedinomap m)"
      using dropped(3,4) u by (auto simp: ino_set_CLRINO)
    have "\<not> entries_in (fst (fs_dir fs d)) (ino_set (dumpinomap m') \<union> ino_set (dumpdirmap m') \<inter> ino_set (usedinomap m'))"
      if "d \<in> D" "d \<in> ino_set (usedinomap m')" "d \<notin> ino_set (dumpdirmap m')" for d
      using n l that entries_in_mono [OF _ s] u dropped(4) unfolding left_out_def
      by (cases "d = ino") (auto simp: ino_set_CLRINO)
    then show ?thesis using u by (simp add: left_out_def)
  qed
next
  case False
  let ?m = "m\<lparr>curino := ino\<rparr>"
  obtain x y m1 where it: "dir_iterate (searchdir fs True) (fst (fs_dir fs ino)) ((False, False), ?m) = Inr ((x, y), m1)"
    using b False by (auto simp: mapdirs_body_def getino_def bindE_Inr_iff Let_def split: option.splits)
  have m': "m' = m1\<lparr>dumpdirmap := CLRINO ino (dumpdirmap m1)\<rparr>"
    using b False it searchdir_nodump [OF it] by (auto simp: mapdirs_body_def getino_def Let_def split: option.splits)
  have e: "excluding ?m m1" by (rule search_excluding [OF it])
  have "left_out fs D ?m" using l by (simp add: left_out_def)
  then have "left_out fs D m1" using e by (rule left_out_excluding)
  moreover have "ino \<notin> ino_set (usedinomap m1)" using e False by (auto simp: excluding_def TSTINO_ino_set)
  moreover have "ino_set (dumpinomap m') \<union> ino_set (dumpdirmap m') \<inter> ino_set (usedinomap m')
      \<subseteq> ino_set (dumpinomap m1) \<union> ino_set (dumpdirmap m1) \<inter> ino_set (usedinomap m1)"
    by (auto simp: m' ino_set_CLRINO)
  ultimately have "left_out fs D m'"
    unfolding left_out_def using entries_in_mono by (auto simp: m' ino_set_CLRINO)
  then show ?thesis using e by (simp add: m' excluding_def)
qed

text \<open>The cached byte has no bit of an inode that is not in the map.\<close>

definition fresh_byte :: "nat \<Rightarrow> byte \<Rightarrow> byte list \<Rightarrow> bool" where
  "fresh_byte k b mp \<longleftrightarrow> ((k - 1) mod NBBY \<noteq> 0 \<longrightarrow>
     (\<forall>j < 2 ^ 32. same_byte k j \<and> bit b (Suc (j - k)) \<longrightarrow> TSTINO (of_nat j) mp))"

lemma next_byte_fresh:
  assumes "fresh_byte k b mp" "0 < k" "j < 2 ^ 32" "same_byte k j" "bit (next_byte k b mp) (j - k)"
    and "(k - 1) div NBBY < length mp"
  shows "TSTINO (of_nat j) mp"
proof (cases "(k - 1) mod NBBY = 0")
  case True
  have "0 < j" using assms by (simp add: same_byte_def)
  then show ?thesis
    using True assms TSTINO_of_nat [of j mp] same_byte_diff [OF assms(4) True assms(2)]
    by (simp add: next_byte_def)
next
  case False
  then show ?thesis using assms by (simp add: next_byte_def fresh_byte_def bit_drop_bit_eq)
qed

lemma fresh_next:
  assumes "fresh_byte k b mp" "0 < k" "(k - 1) div NBBY < length mp" "ino_set mp - {of_nat k} \<subseteq> ino_set mp'"
  shows "fresh_byte (Suc k) (next_byte k b mp) mp'"
  unfolding fresh_byte_def
proof (intro impI allI)
  fix j assume k: "(Suc k - 1) mod NBBY \<noteq> 0" and j: "(j :: nat) < 2 ^ 32"
    and a: "same_byte (Suc k) j \<and> bit (next_byte k b mp) (Suc (j - Suc k))"
  have "k div NBBY = (k - 1) div NBBY"
    using k assms(2) by (cases k) (auto simp: NBBY_def div_Suc)
  then have s: "same_byte k j" "k < j" using a by (auto simp: same_byte_def)
  have "Suc (j - Suc k) = j - k" using s(2) by simp
  then have "bit (next_byte k b mp) (j - k)" using a by simp
  then have "TSTINO (of_nat j) mp" by (rule next_byte_fresh [OF assms(1,2) j s(1) _ assms(3)])
  moreover have "(of_nat j :: dump_ino_t) \<noteq> of_nat k"
  proof
    assume "(of_nat j :: dump_ino_t) = of_nat k"
    then have "unat (of_nat j :: dump_ino_t) = unat (of_nat k :: dump_ino_t)" by simp
    then have "j mod 2 ^ 32 = k mod 2 ^ 32" by (simp only: unat_of_nat) simp
    then show False using j s(2) by simp
  qed
  ultimately show "TSTINO (of_nat j) mp'" using assms(4) by (auto simp: ino_set_def)
qed

lemma mapdirs_body_length:
  assumes "mapdirs_body fs ino (c, m) = Inr (c', m')"
  shows "length (dumpdirmap m') = length (dumpdirmap m)"
proof -
  have step: "length (dumpdirmap (snd s2)) = length (dumpdirmap (snd s1))"
    if "searchdir fs nd d s1 = Inr (ret, s2)" for nd d s1 s2 ret
  proof -
    obtain a b m where "s1 = ((a, b), m)" by (cases s1) auto
    then show ?thesis using that
      by (auto simp: searchdir_def Let_def getino_def split: if_splits option.splits)
  qed
  have it: "length (dumpdirmap (snd s2)) = length (dumpdirmap (snd s1))"
    if "dir_iterate (searchdir fs nd) ds s1 = Inr s2" for nd ds s1 s2
    by (rule dir_iterate_invariant [OF that, where R = "\<lambda>s t. length (dumpdirmap (snd t)) = length (dumpdirmap (snd s))"])
      (auto dest: step)
  show ?thesis using assms
    by (auto simp: mapdirs_body_def getino_def Let_def bindE_Inr_iff dest!: it split: if_splits option.splits)
qed

lemma mapdirs_loop_left_out:
  assumes "mapdirs_loop fs [k..<n] b (c, m) = Inr (c', m')" "left_out fs D m" "dirs_ok fs m"
    and "n \<le> 2 ^ 32" "0 < k" "n \<le> 8 * length (dumpdirmap m) + 1" "fresh_byte k b (dumpdirmap m)"
  shows "left_out fs D m' \<and> ino_set (usedinomap m') \<subseteq> ino_set (usedinomap m) \<and> length (dumpdirmap m') = length (dumpdirmap m)"
  using assms
proof (induction "n - k" arbitrary: k b c m)
  case 0
  then show ?case by simp
next
  case (Suc l)
  let ?b = "next_byte k b (dumpdirmap m)"
  have lt: "k < n" "l = n - Suc k" using Suc.hyps(2) by simp_all
  have len: "(k - 1) div NBBY < length (dumpdirmap m)" using lt Suc.prems(5,6) by (simp add: NBBY_def)
  show ?case
  proof (cases "bit ?b 0")
    case False
    then have r: "mapdirs_loop fs [Suc k..<n] ?b (c, m) = Inr (c', m')"
      using Suc.prems(1) lt by (simp add: mapdirs_loop_Cons and_one_bit)
    have "fresh_byte (Suc k) ?b (dumpdirmap m)" by (rule fresh_next [OF Suc.prems(7,5) len]) auto
    then show ?thesis using Suc.hyps(1) [OF lt(2) r Suc.prems(2,3,4) _ Suc.prems(6)] by simp
  next
    case True
    then obtain c1 m1 where b1: "mapdirs_body fs (of_nat k) (c, m) = Inr (c1, m1)"
      and r: "mapdirs_loop fs [Suc k..<n] ?b (c1, m1) = Inr (c', m')"
      using Suc.prems(1) lt by (auto simp: mapdirs_loop_Cons and_one_bit bindE_Inr_iff)
    have "TSTINO (of_nat k) (dumpdirmap m)"
      using next_byte_fresh [OF Suc.prems(7,5) _ _ _ len, of k] True lt Suc.prems(4) by (simp add: same_byte_def)
    then have "of_nat k \<in> ino_set (dumpdirmap m)" by (simp add: ino_set_def)
    then have l1: "left_out fs D m1" "ino_set (usedinomap m1) \<subseteq> ino_set (usedinomap m)"
      using mapdirs_body_left_out [OF b1 Suc.prems(2)] by auto
    have e: "ino_set (dumpdirmap m) - {of_nat k} \<subseteq> ino_set (dumpdirmap m1)" "dirs_ok fs m1"
      using mapdirs_body_effect [OF b1 Suc.prems(3)] by (auto simp: body_effect_def)
    have len1: "length (dumpdirmap m1) = length (dumpdirmap m)" by (rule mapdirs_body_length [OF b1])
    have "fresh_byte (Suc k) ?b (dumpdirmap m1)" by (rule fresh_next [OF Suc.prems(7,5) len e(1)])
    then show ?thesis using Suc.hyps(1) [OF lt(2) r l1(1) e(2) Suc.prems(4)] l1(2) len1 Suc.prems(6) by auto
  qed
qed

lemma pass2_left_out:
  assumes "pass2 fuel fs maxino m = Inr m'" "left_out fs D m" "dirs_ok fs m" "unat maxino \<le> 8 * length (dumpdirmap m) + 1"
  shows "left_out fs D m'"
  using assms
proof (induction fuel arbitrary: m)
  case 0
  then show ?case by (simp split: if_splits)
next
  case (Suc fuel)
  show ?case
  proof (cases "anydirskipped m")
    case True
    then obtain c m1 where m1: "mapdirs fs maxino m = Inr (c, m1)"
      and r: "pass2 fuel fs maxino (m1\<lparr>anydirskipped := c\<rparr>) = Inr m'"
      using Suc.prems(1) by (auto simp: bindE_Inr_iff)
    have "unat maxino \<le> 2 ^ 32" using unsigned_less [of maxino, where ?'a = nat] by simp
    moreover have "fresh_byte 1 0 (dumpdirmap m)" by (simp add: fresh_byte_def)
    ultimately have l: "left_out fs D m1" "length (dumpdirmap m1) = length (dumpdirmap m)"
      using mapdirs_loop_left_out [OF m1 [unfolded mapdirs_def] Suc.prems(2,3)] Suc.prems(4) by auto
    moreover have "dirs_ok fs m1" using mapdirs_loop_change [OF m1 [unfolded mapdirs_def] Suc.prems(3)] by simp
    ultimately show ?thesis using Suc.IH [OF r] Suc.prems(4) by (simp add: left_out_def dirs_ok_def)
  qed (use Suc.prems in simp)
qed


section \<open>The loop ends\<close>

text \<open>
  A weight that is larger at a directory than in all its entries together: it exists when the
  directories form a tree.  A pass that reports a change lowers the weight of the directory map or,
  keeping it, the number of directories of the map that are not dumped.
\<close>

definition tree_weight :: "fsys \<Rightarrow> (dump_ino_t \<Rightarrow> nat) \<Rightarrow> bool" where
  "tree_weight fs w \<longleftrightarrow> (\<forall>d. sum_list (map (w \<circ> de_inode) (filter live_entry (fst (fs_dir fs d)))) < w d)"

definition weight :: "(dump_ino_t \<Rightarrow> nat) \<Rightarrow> maps \<Rightarrow> nat" where
  "weight w m = sum w (ino_set (dumpdirmap m))"

definition undumped :: "maps \<Rightarrow> nat" where
  "undumped m = card (ino_set (dumpdirmap m) - ino_set (dumpinomap m))"

definition same_size :: "nat \<Rightarrow> maps \<Rightarrow> bool" where
  "same_size l m \<longleftrightarrow> length (dumpinomap m) = l \<and> length (dumpdirmap m) = l"

definition readable :: "fsys \<Rightarrow> bool" where
  "readable fs \<longleftrightarrow> (\<forall>d. \<forall>e \<in> set (fst (fs_dir fs d)). live_entry e \<longrightarrow> fs_inode fs (de_inode e) \<noteq> None)"

lemma sum_insert_le: "finite A \<Longrightarrow> sum w (insert i A) \<le> sum w A + (w i :: nat)"
  by (cases "i \<in> A") (simp_all add: insert_absorb)

lemma weight_SETINO: "weight w (m\<lparr>dumpdirmap := SETINO i (dumpdirmap m)\<rparr>) \<le> weight w m + w i"
proof -
  have "weight w (m\<lparr>dumpdirmap := SETINO i (dumpdirmap m)\<rparr>) \<le> sum w (insert i (ino_set (dumpdirmap m)))"
    using ino_set_SETINO_bounds(2) by (simp add: weight_def sum_mono2)
  then show ?thesis using sum_insert_le [of "ino_set (dumpdirmap m)" w i] by (simp add: weight_def)
qed

lemma searchdir_nodump_total:
  assumes "\<forall>d \<in> set ds. live_entry d \<longrightarrow> fs_inode fs (de_inode d) \<noteq> None" "same_size l m"
  shows "\<exists>f' m'. dir_iterate (searchdir fs True) ds (f, m) = Inr (f', m') \<and> same_size l m'
    \<and> weight w m' \<le> weight w m + sum_list (map (w \<circ> de_inode) (filter live_entry ds))"
  using assms
proof (induction ds arbitrary: f m)
  case Nil
  then show ?case by (cases f) simp
next
  case (Cons d ds)
  obtain a b where f: "f = (a, b)" by (cases f)
  show ?case
  proof (cases "live_entry d")
    case False
    then have "searchdir fs True d (f, m) = Inr (0, (f, m))"
      by (auto simp: searchdir_def live_entry_def f)
    then show ?thesis using Cons.IH [of m f] Cons.prems False by simp
  next
    case True
    then obtain ip where ip: "fs_inode fs (de_inode d) = Some ip" using Cons.prems by auto
    have "\<exists>f1 m1. searchdir fs True d (f, m) = Inr (0, (f1, m1)) \<and> same_size l m1
      \<and> weight w m1 \<le> weight w m + w (de_inode d)"
      using True ip Cons.prems(2) weight_SETINO [where w = w and m = m and i = "de_inode d"]
      by (auto simp: searchdir_def live_entry_def f Let_def getino_def same_size_def weight_def)
    then obtain f1 m1 where s: "searchdir fs True d (f, m) = Inr (0, (f1, m1))" "same_size l m1"
      "weight w m1 \<le> weight w m + w (de_inode d)" by blast
    then show ?thesis using Cons.IH [of m1 f1] Cons.prems True by fastforce
  qed
qed

definition smaller :: "(dump_ino_t \<Rightarrow> nat) \<Rightarrow> maps \<Rightarrow> maps \<Rightarrow> bool" where
  "smaller w m' m \<longleftrightarrow> weight w m' < weight w m \<or> weight w m' = weight w m \<and> undumped m' < undumped m"

definition progress :: "nat \<Rightarrow> (dump_ino_t \<Rightarrow> nat) \<Rightarrow> bool \<times> maps \<Rightarrow> bool \<times> maps \<Rightarrow> bool" where
  "progress l w cm cm' \<longleftrightarrow> (case (cm, cm') of ((c, m), (c', m')) \<Rightarrow>
     same_size l m' \<and> (smaller w m' m \<or> weight w m' = weight w m \<and> undumped m' = undumped m \<and> c' = c))"

lemma weight_CLRINO:
  assumes "i \<in> ino_set (dumpdirmap m)"
  shows "weight w (m\<lparr>dumpdirmap := CLRINO i (dumpdirmap m)\<rparr>) + w i = weight w m"
  using assms by (simp add: weight_def ino_simps sum.remove)

lemma undumped_SETINO:
  assumes "i \<in> ino_set (dumpdirmap m)" "i \<notin> ino_set (dumpinomap m)" "same_size l m"
  shows "undumped (m\<lparr>dumpinomap := SETINO i (dumpinomap m)\<rparr>) < undumped m"
proof -
  have "in_map i (dumpinomap m)"
    using assms by (simp add: ino_set_def TSTINO_bit in_map_def same_size_def)
  moreover have "ino_set (dumpdirmap m) - insert i (ino_set (dumpinomap m))
      \<subset> ino_set (dumpdirmap m) - ino_set (dumpinomap m)" using assms by blast
  ultimately show ?thesis by (simp add: undumped_def ino_simps psubset_card_mono)
qed

lemma weight_upd [simp]: "weight w (m\<lparr>dumpinomap := x\<rparr>) = weight w m"
  "weight w (m\<lparr>tapesize := t\<rparr>) = weight w m" "weight w (m\<lparr>curino := i\<rparr>) = weight w m"
  "weight w (m\<lparr>anydirskipped := a\<rparr>) = weight w m"
  "undumped (m\<lparr>tapesize := t\<rparr>) = undumped m" "undumped (m\<lparr>curino := i\<rparr>) = undumped m"
  "undumped (m\<lparr>anydirskipped := a\<rparr>) = undumped m"
  "same_size l (m\<lparr>tapesize := t\<rparr>) = same_size l m" "same_size l (m\<lparr>curino := i\<rparr>) = same_size l m"
  "same_size l (m\<lparr>anydirskipped := a\<rparr>) = same_size l m"
  by (simp_all add: weight_def undumped_def same_size_def)

lemma mapdirs_body_progress:
  assumes "dirs_ok fs m" "same_size l m" "readable fs" "tree_weight fs w" "i \<in> ino_set (dumpdirmap m)"
  shows "\<exists>c' m'. mapdirs_body fs i (c, m) = Inr (c', m') \<and> progress l w (c, m) (c', m')"
proof -
  let ?m = "m\<lparr>curino := i\<rparr>" and ?ds = "fst (fs_dir fs i)"
  obtain ip where ip: "fs_inode fs i = Some ip" using assms(1,5) by (auto simp: dirs_ok_def)
  have wi: "0 < w i" using assms(4) by (auto simp: tree_weight_def intro: le_less_trans [OF le0])
  show ?thesis
  proof (cases "TSTINO i (usedinomap m)")
    case True
    obtain x y where xy: "dir_iterate (searchdir fs False) ?ds ((False, False), ?m) = Inr ((x, y), ?m)"
      using searchdir_plain_flags [of fs ?ds ?m] by auto
    show ?thesis
    proof (cases "TSTINO i (dumpinomap m)")
      case True
      then show ?thesis using \<open>TSTINO i (usedinomap m)\<close> assms(2)
        by (simp add: mapdirs_body_def progress_def Let_def)
    next
      case False
      then show ?thesis
        using \<open>TSTINO i (usedinomap m)\<close> xy ip assms(2,5) wi weight_CLRINO [where i = i and m = ?m and w = w]
          undumped_SETINO [of i ?m l]
        by (auto simp: mapdirs_body_def progress_def Let_def getino_def TSTINO_ino_set smaller_def)
          (simp_all add: same_size_def)
    qed
  next
    case False
    obtain f' m1 where it: "dir_iterate (searchdir fs True) ?ds ((False, False), ?m) = Inr (f', m1)"
      "same_size l m1" "weight w m1 \<le> weight w ?m + sum_list (map (w \<circ> de_inode) (filter live_entry ?ds))"
      using searchdir_nodump_total [where ds = ?ds and fs = fs and m = ?m and f = "(False, False)" and w = w and l = l] assms(2,3) by (auto simp: readable_def)
    obtain x y where f': "f' = (x, y)" by (cases f')
    have x: "\<not> x" using searchdir_nodump it(1) f' by fastforce
    have i1: "i \<in> ino_set (dumpdirmap m1)"
      using searchdir_nodump_dirs [OF it(1)] assms(5) by (auto simp: dirs_grow_def)
    have "weight w m1 < weight w m + w i"
      using it(3) assms(4) by (auto simp: tree_weight_def intro: le_less_trans)
    then have "weight w (m1\<lparr>dumpdirmap := CLRINO i (dumpdirmap m1)\<rparr>) < weight w m"
      using weight_CLRINO [OF i1, where w = w] by simp
    then show ?thesis
      using False it x ip
      by (auto simp: mapdirs_body_def progress_def Let_def getino_def f' smaller_def same_size_def)
  qed
qed

lemma progress_trans: "progress l w a b \<Longrightarrow> progress l w b c \<Longrightarrow> progress l w a c"
  by (auto simp: progress_def smaller_def split: prod.splits)

lemma progress_refl: "same_size l m \<Longrightarrow> progress l w (c, m) (c, m)"
  by (simp add: progress_def)

text \<open>The cached bits of the inodes not yet visited are bits of the map.\<close>

definition cache_ok :: "nat \<Rightarrow> byte \<Rightarrow> byte list \<Rightarrow> bool" where
  "cache_ok k b mp \<longleftrightarrow> ((k - 1) mod NBBY \<noteq> 0 \<longrightarrow>
     (\<forall>j < 2 ^ 32. same_byte k j \<and> bit b (Suc (j - k)) \<longrightarrow> TSTINO (of_nat j) mp))"

lemma next_byte_ok:
  assumes "cache_ok k b mp" "0 < k" "j < 2 ^ 32" "same_byte k j" "bit (next_byte k b mp) (j - k)"
    "(k - 1) div NBBY < length mp"
  shows "TSTINO (of_nat j) mp"
proof (cases "(k - 1) mod NBBY = 0")
  case True
  have "0 < j" using assms by (simp add: same_byte_def)
  then show ?thesis
    using True assms TSTINO_of_nat [of j mp] same_byte_diff [OF assms(4) True assms(2)]
    by (simp add: next_byte_def)
next
  case False
  then show ?thesis using assms by (simp add: next_byte_def cache_ok_def bit_drop_bit_eq)
qed

lemma cache_ok_next:
  assumes "cache_ok k b mp" "0 < k" "ino_set mp - {of_nat k} \<subseteq> ino_set mp'"
    "(k - 1) div NBBY < length mp" "k < 2 ^ 32"
  shows "cache_ok (Suc k) (next_byte k b mp) mp'"
  unfolding cache_ok_def
proof (intro impI allI)
  fix j assume k: "(Suc k - 1) mod NBBY \<noteq> 0" and j: "(j :: nat) < 2 ^ 32"
    and a: "same_byte (Suc k) j \<and> bit (next_byte k b mp) (Suc (j - Suc k))"
  have "k div NBBY = (k - 1) div NBBY"
    using k assms(2) by (cases k) (auto simp: NBBY_def div_Suc)
  then have "same_byte k j" "bit (next_byte k b mp) (j - k)"
    using a by (auto simp: same_byte_def Suc_diff_Suc)
  then have t: "TSTINO (of_nat j) mp" using next_byte_ok [OF assms(1,2) j] assms(4) by simp
  have "unat (of_nat j :: u32) \<noteq> unat (of_nat k :: u32)"
    using a j assms(5) by (simp add: unat_of_nat same_byte_def)
  then have "of_nat j \<noteq> (of_nat k :: u32)" by metis
  then show "TSTINO (of_nat j) mp'" using t assms(3) by (auto simp: ino_set_def)
qed


lemma mapdirs_loop_progress:
  assumes "dirs_ok fs m" "same_size l m" "readable fs" "tree_weight fs w" "n \<le> 8 * l + 1" "n \<le> 2 ^ 32"
    "0 < k" "cache_ok k b (dumpdirmap m)"
  shows "\<exists>c' m'. mapdirs_loop fs [k..<n] b (c, m) = Inr (c', m') \<and> progress l w (c, m) (c', m')"
  using assms
proof (induction "n - k" arbitrary: k b c m)
  case 0
  then show ?case by (simp add: progress_refl)
next
  case (Suc d)
  let ?b = "next_byte k b (dumpdirmap m)"
  have lt: "k < n" "d = n - Suc k" using Suc.hyps(2) by simp_all
  have len: "(k - 1) div NBBY < length (dumpdirmap m)"
    using Suc.prems(2,5,7) lt by (auto simp: same_size_def NBBY_def)
  have k32: "k < 2 ^ 32" using lt Suc.prems(6) by linarith
  note nx = cache_ok_next [OF Suc.prems(8,7) _ len k32]
  show ?case
  proof (cases "bit ?b 0")
    case False
    then show ?thesis
      using lt Suc.hyps(1) [OF lt(2) Suc.prems(1-6) zero_less_Suc nx [OF Diff_subset], of c]
      by (simp add: mapdirs_loop_Cons and_one_bit)
  next
    case True
    have kin: "of_nat k \<in> ino_set (dumpdirmap m)"
      using next_byte_ok [OF Suc.prems(8,7) k32 _ _ len] True by (simp add: same_byte_def TSTINO_ino_set)
    obtain c1 m1 where b1: "mapdirs_body fs (of_nat k) (c, m) = Inr (c1, m1)" "progress l w (c, m) (c1, m1)"
      using mapdirs_body_progress [OF Suc.prems(1-4) kin, of c] by blast
    have e1: "dirs_ok fs m1" "ino_set (dumpdirmap m) - {of_nat k} \<subseteq> ino_set (dumpdirmap m1)"
      using mapdirs_body_effect [OF b1(1) Suc.prems(1)] by (simp_all add: body_effect_def)
    have s1: "same_size l m1" using b1(2) by (simp add: progress_def)
    obtain c2 m2 where "mapdirs_loop fs [Suc k..<n] ?b (c1, m1) = Inr (c2, m2)" "progress l w (c1, m1) (c2, m2)"
      using Suc.hyps(1) [OF lt(2) e1(1) s1 Suc.prems(3-6) zero_less_Suc nx [OF e1(2)], of c1] by blast
    then show ?thesis
      using lt b1 True progress_trans [OF b1(2)] by (simp add: mapdirs_loop_Cons and_one_bit)
  qed
qed

lemma mapdirs_progress:
  assumes "dirs_ok fs m" "same_size l m" "readable fs" "tree_weight fs w" "unat maxino \<le> 8 * l + 1"
  shows "\<exists>c m'. mapdirs fs maxino m = Inr (c, m') \<and> dirs_ok fs m' \<and> same_size l m' \<and> (c \<longrightarrow> smaller w m' m)"
proof -
  have "unat maxino \<le> 2 ^ 32" using unsigned_less [of maxino, where ?'a = nat] by simp
  moreover have "cache_ok 1 0 (dumpdirmap m)" by (simp add: cache_ok_def)
  ultimately obtain c m' where "mapdirs fs maxino m = Inr (c, m')" "progress l w (False, m) (c, m')"
    using mapdirs_loop_progress [OF assms, of 1 0 False] by (auto simp: mapdirs_def)
  moreover from this have "dirs_ok fs m'"
    using mapdirs_loop_change assms(1) by (auto simp: mapdirs_def)
  ultimately show ?thesis by (auto simp: progress_def)
qed

lemma pass2_terminates:
  assumes "dirs_ok fs m" "same_size l m" "readable fs" "tree_weight fs w" "unat maxino \<le> 8 * l + 1"
  shows "\<exists>fuel m'. pass2 fuel fs maxino m = Inr m'"
  using assms(1,2)
proof (induction m rule: wf_induct_rule [OF wf_measures [of "[weight w, undumped]"]])
  case (1 m)
  show ?case
  proof (cases "anydirskipped m")
    case False
    then have "pass2 0 fs maxino m = Inr m" by simp
    then show ?thesis by blast
  next
    case True
    obtain c m1 where m1: "mapdirs fs maxino m = Inr (c, m1)" "dirs_ok fs m1" "same_size l m1"
      "c \<longrightarrow> smaller w m1 m"
      using mapdirs_progress [OF 1(2,3) assms(3-5)] by blast
    let ?m1 = "m1\<lparr>anydirskipped := c\<rparr>"
    have "\<exists>fuel m'. pass2 fuel fs maxino ?m1 = Inr m'"
    proof (cases c)
      case False
      then have "pass2 0 fs maxino ?m1 = Inr ?m1" by simp
      then show ?thesis by blast
    next
      case True
      then have "(?m1, m) \<in> measures [weight w, undumped]" using m1 by (simp add: smaller_def)
      moreover have "dirs_ok fs ?m1" "same_size l ?m1" using m1 by (simp_all add: dirs_ok_def)
      ultimately show ?thesis using 1(1) by blast
    qed
    then obtain fuel m' where "pass2 fuel fs maxino ?m1 = Inr m'" by blast
    then have "pass2 (Suc fuel) fs maxino m = Inr m'" using True m1 by simp
    then show ?thesis by blast
  qed
qed


section \<open>Properties\<close>

text \<open>C5: When the loop of the directory pass is over, every directory that was in the map before it, is not
  excluded, and has an entry for a dumped inode is in the dump list itself: no dumped file is without the directory that
  names it, and no directory was dropped from the map too early.  The same holds for the directories that the passes have
  added to the map.\<close>

theorem pass2_closed:
  assumes "pass2 fuel fs maxino m = Inr m'" "anydirskipped m"
    and "\<forall>d \<in> ino_set (dumpdirmap m). \<exists>ip. fs_inode fs d = Some ip \<and> file_mode ip = IFDIR"
    and "unat maxino \<le> 8 * length (dumpdirmap m) + 1"
    and "d \<noteq> 0" "d < maxino" "d \<in> ino_set (dumpdirmap m) \<or> d \<in> ino_set (dumpdirmap m')" "d \<in> ino_set (usedinomap m')"
    and "e \<in> set (fst (fs_dir fs d))" "de_inode e \<noteq> 0" "\<not> dot_entry e" "de_inode e \<in> ino_set (dumpinomap m')"
  shows "d \<in> ino_set (dumpinomap m')"
proof (cases "d \<in> ino_set (dumpdirmap m')")
  case True
  then show ?thesis
    using pass2_settled [OF assms(1) _ assms(2,5,6)] assms
    by (auto simp: settled_def dirs_ok_def entries_in_def live_entry_def)
next
  case False
  have "left_out fs (ino_set (dumpdirmap m)) m'"
    by (rule pass2_left_out [OF assms(1) left_out_start _ assms(4)]) (use assms(3) in \<open>simp_all add: dirs_ok_def\<close>)
  then have "\<not> entries_in (fst (fs_dir fs d)) (ino_set (dumpinomap m'))"
    using False assms(7,8) unfolding left_out_def by (blast intro: entries_in_mono)
  then show ?thesis using assms(9-12) by (auto simp: entries_in_def live_entry_def)
qed

definition sample_maps :: maps where
  "sample_maps = \<lparr> usedinomap = [2, 4], dumpdirmap = [2, 0], dumpinomap = [0, 4], metainomap = [0, 0],
     iexclude = [], tapesize = 0, anydirskipped = True, curino = 0 \<rparr>"

lemma sample_dirs: "ino_set [2, 0] = {2}"
proof -
  have "[2, 0] = SETINO 2 [0, 0]" by (simp add: SETINO_def ino_byte_def ino_bit_def NBBY_def)
  moreover have "ino_set [0, 0] = {}"
    using TSTINO_zeros [of _ 2] by (simp add: ino_set_def numeral_2_eq_2)
  ultimately show ?thesis by (simp add: ino_simps in_map_def ino_byte_def NBBY_def)
qed

lemma sample_dirs_ok: "dirs_ok sample_fs sample_maps"
  by (simp add: dirs_ok_def sample_maps_def sample_dirs sample_fs_def file_mode_def sample_inode_def
      mode_consts)

text \<open>C6: The loop \<open>while (anydirskipped) mapdirs\<close> of main ends, without an error, when the inodes it
  looks at can be read and the directories form a tree: every pass that reports a change makes the
  measure smaller.\<close>

theorem pass2_ends:
  assumes "\<forall>d \<in> ino_set (dumpdirmap m). \<exists>ip. fs_inode fs d = Some ip \<and> file_mode ip = IFDIR"
    and "length (dumpinomap m) = length (dumpdirmap m)" "unat maxino \<le> 8 * length (dumpdirmap m) + 1"
    and "\<forall>d. \<forall>e \<in> set (fst (fs_dir fs d)). live_entry e \<longrightarrow> fs_inode fs (de_inode e) \<noteq> None"
    and "\<forall>d. sum_list (map ((w :: dump_ino_t \<Rightarrow> nat) \<circ> de_inode) (filter live_entry (fst (fs_dir fs d)))) < w d"
  shows "\<exists>fuel m'. pass2 fuel fs maxino m = Inr m'"
  using pass2_terminates [of fs m "length (dumpdirmap m)" w maxino] assms
  by (simp add: dirs_ok_def same_size_def readable_def tree_weight_def)

theorem pass2_ends_witness: "\<exists>fuel m'. pass2 fuel sample_fs 16 sample_maps = Inr m'"
proof (rule pass2_ends [where w = "\<lambda>d. if d = 2 then 2 else 1"])
  show "\<forall>d \<in> ino_set (dumpdirmap sample_maps). \<exists>ip. fs_inode sample_fs d = Some ip \<and> file_mode ip = IFDIR"
    using sample_dirs_ok by (simp add: dirs_ok_def)
qed (simp_all add: sample_maps_def sample_fs_def)

lemma sample_pass2:
  "\<exists>m'. pass2 2 sample_fs 3 sample_maps = Inr m' \<and> dumpinomap m' = [2, 4] \<and> dumpdirmap m' = [2, 0]
     \<and> usedinomap m' = [2, 4]"
proof -
  have u: "[Suc 0..<3] = [1, 2]" by (simp add: upt_conv_Cons)
  have f: "fs_inode sample_fs 2 = Some (sample_inode 0x41ED)"
    "fst (fs_dir sample_fs 2) = [\<lparr> de_inode = 11, de_name_len = 1, de_name = ''a'' \<rparr>]"
    by (simp_all add: sample_fs_def)
  have e: "\<not> dot_entry \<lparr> de_inode = 11, de_name_len = 1, de_name = ''a'' \<rparr>"
    by (simp add: dot_entry_def name_char_def)
  note bits = TSTINO_def SETINO_def in_map_def ino_byte_def ino_bit_def NBBY_def
  obtain t where "mapdirs sample_fs 3 sample_maps = Inr (True,
      sample_maps\<lparr>dumpinomap := [2, 4], tapesize := t, curino := 2\<rparr>)"
    by (simp add: mapdirs_def u mapdirs_body_def searchdir_def getino_def f e sample_maps_def bits)
  moreover have "mapdirs sample_fs 3 (sample_maps\<lparr>dumpinomap := [2, 4], tapesize := t, curino := 2\<rparr>)
      = Inr (False, sample_maps\<lparr>dumpinomap := [2, 4], tapesize := t, curino := 2\<rparr>)"
    by (simp add: mapdirs_def u mapdirs_body_def sample_maps_def bits)
  ultimately show ?thesis by (simp add: numeral_2_eq_2) (simp add: sample_maps_def)
qed

theorem pass2_closed_witness:
  "\<exists>m'. pass2 2 sample_fs 3 sample_maps = Inr m' \<and> 2 \<in> ino_set (dumpinomap m')"
proof -
  obtain m' where r: "pass2 2 sample_fs 3 sample_maps = Inr m'" and
    m': "dumpinomap m' = [2, 4]" "dumpdirmap m' = [2, 0]" "usedinomap m' = [2, 4]"
    using sample_pass2 by blast
  have a: "anydirskipped sample_maps" by (simp add: sample_maps_def)
  let ?e = "\<lparr> de_inode = 11, de_name_len = 1, de_name = ''a'' \<rparr>"
  have e: "?e \<in> set (fst (fs_dir sample_fs 2))" "de_inode ?e \<noteq> 0" "\<not> dot_entry ?e"
    by (simp_all add: sample_fs_def dot_entry_def name_char_def)
  have t: "2 \<in> ino_set (usedinomap m')" "de_inode ?e \<in> ino_set (dumpinomap m')" "2 \<in> ino_set (dumpdirmap m')"
    by (simp_all add: m' sample_dirs)
      (simp_all add: ino_set_def TSTINO_def in_map_def ino_byte_def ino_bit_def NBBY_def)
  show ?thesis
    using pass2_closed [OF r a sample_dirs_ok [unfolded dirs_ok_def] _ _ _ _ t(1) e t(2)] t(3) r
    by (simp add: sample_maps_def)
qed

end
