(* ===== verification/C_String.thy ===== *)
theory C_String
  imports Prelude
begin

text \<open>
  The C library's character and number functions that the sources use, on strings without their
  terminating NUL: \<open>isspace\<close>, \<open>isdigit\<close>, \<open>strtol\<close> and \<open>atoi\<close> in base ten, \<open>printf\<close> of decimals,
  \<open>fgets\<close>; and the lemmas that \<open>atoi\<close> reads back what \<open>printf\<close> wrote.
\<close>

section \<open>Characters\<close>

definition c_isdigit :: "char \<Rightarrow> bool" where
  "c_isdigit c \<longleftrightarrow> 48 \<le> (of_char c :: nat) \<and> (of_char c :: nat) \<le> 57"

definition c_isspace :: "char \<Rightarrow> bool" where
  "c_isspace c \<longleftrightarrow> (of_char c :: nat) = 32 \<or> 9 \<le> (of_char c :: nat) \<and> (of_char c :: nat) \<le> 13"

text \<open>The character at an index of a buffer that holds a string and is NUL after it.\<close>

definition char_at :: "string \<Rightarrow> nat \<Rightarrow> char" where
  "char_at s i = (if i < length s then s ! i else CHR 0x00)"

text \<open>The size of the buffers of stdio and the longest path name.\<close>

definition BUFSIZ :: nat where "BUFSIZ = 8192"
definition MAXPATHLEN :: nat where "MAXPATHLEN = 4096"

text \<open>The C string that starts at an index of such a buffer.\<close>

definition c_str_from :: "string \<Rightarrow> nat \<Rightarrow> string" where
  "c_str_from s i = takeWhile (\<lambda>c. c \<noteq> CHR 0x00) (drop i s)"


section \<open>Decimal numbers\<close>

definition digit_char :: "nat \<Rightarrow> char" where
  "digit_char d = char_of (48 + d)"

fun dec_nat :: "nat \<Rightarrow> string" where
  "dec_nat n = (if n < 10 then [digit_char n] else dec_nat (n div 10) @ [digit_char (n mod 10)])"

declare dec_nat.simps [simp del]

definition dec_int :: "int \<Rightarrow> string" where
  "dec_int i = (if i < 0 then CHR ''-'' # dec_nat (nat (- i)) else dec_nat (nat i))"

text \<open>At least two digits, as \<open>%2.2d\<close> prints a number that is not negative.\<close>

definition dec2 :: "nat \<Rightarrow> string" where
  "dec2 n = (if n < 10 then CHR ''0'' # dec_nat n else dec_nat n)"

fun digits_value :: "nat \<Rightarrow> string \<Rightarrow> nat" where
  "digits_value acc [] = acc"
| "digits_value acc (c # s) = (if c_isdigit c then digits_value (10 * acc + (of_char c - 48)) s else acc)"

definition strtol10 :: "string \<Rightarrow> int" where
  "strtol10 s =
     (let s = dropWhile c_isspace s;
          v = (case s of
                 c # t \<Rightarrow> (if c = CHR ''-'' then - int (digits_value 0 t)
                           else if c = CHR ''+'' then int (digits_value 0 t)
                           else int (digits_value 0 s))
               | [] \<Rightarrow> 0)
      in max (- (2 ^ 63)) (min (2 ^ 63 - 1) v))"

text \<open>\<open>atoi\<close> converts the result of \<open>strtol\<close> to \<open>int\<close>.\<close>

definition atoi :: "string \<Rightarrow> int" where
  "atoi s = signed_take_bit 31 (strtol10 s)"

lemma digit_char [simp]: "d < 10 \<Longrightarrow> c_isdigit (digit_char d)" "d < 10 \<Longrightarrow> of_char (digit_char d) = 48 + d"
  by (simp_all add: digit_char_def c_isdigit_def)

lemma digits_value_append:
  "list_all c_isdigit ds \<Longrightarrow> digits_value acc (ds @ rest) = digits_value (digits_value acc ds) rest"
  by (induction ds arbitrary: acc) simp_all

lemma dec_nat_digits: "list_all c_isdigit (dec_nat n)"
proof (induction n rule: dec_nat.induct)
  case (1 n)
  then show ?case by (simp add: dec_nat.simps [of n])
qed

lemma length_dec_nat_le: "n < 10 ^ Suc k \<Longrightarrow> length (dec_nat n) \<le> Suc k"
proof (induction k arbitrary: n)
  case 0
  then show ?case by (simp add: dec_nat.simps [of n])
next
  case (Suc k)
  have "n div 10 < 10 ^ Suc k" using Suc.prems by (simp add: less_mult_imp_div_less)
  then show ?case using Suc.IH [of "n div 10"] by (simp add: dec_nat.simps [of n])
qed

lemma digits_value_dec_nat: "digits_value 0 (dec_nat n) = n"
proof (induction n rule: dec_nat.induct)
  case (1 n)
  show ?case
  proof (cases "n < 10")
    case True
    then show ?thesis by (simp add: dec_nat.simps [of n])
  next
    case False
    then show ?thesis
      using 1 by (simp add: dec_nat.simps [of n] digits_value_append dec_nat_digits)
  qed
qed

definition no_digit :: "string \<Rightarrow> bool" where
  "no_digit s \<longleftrightarrow> (case s of [] \<Rightarrow> True | c # _ \<Rightarrow> \<not> c_isdigit c)"

lemma digits_value_stop: "no_digit s \<Longrightarrow> digits_value acc s = acc"
  by (cases s) (simp_all add: no_digit_def)

lemma digits_value_dec: "no_digit rest \<Longrightarrow> digits_value 0 (dec_nat n @ rest) = n"
  by (simp add: digits_value_append dec_nat_digits digits_value_dec_nat digits_value_stop)

lemma c_isdigit_space: "c_isdigit c \<Longrightarrow> \<not> c_isspace c" "c_isdigit c \<Longrightarrow> c \<noteq> CHR ''-''" "c_isdigit c \<Longrightarrow> c \<noteq> CHR ''+''"
  "c_isdigit c \<Longrightarrow> c \<noteq> CHR 0x00" "c_isdigit c \<Longrightarrow> c \<noteq> CHR '' ''" "c_isdigit c \<Longrightarrow> c \<noteq> CHR 0x0A"
  by (auto simp: c_isdigit_def c_isspace_def)

lemma dec_nat_Cons: "\<exists>c cs. dec_nat n = c # cs \<and> c_isdigit c"
  using dec_nat_digits [of n] by (cases "dec_nat n") (auto simp: dec_nat.simps [of n] split: if_splits)

lemma strtol10_digits:
  assumes "list_all c_isdigit ds" "ds \<noteq> []" "digits_value 0 ds < 2 ^ 63" "no_digit rest"
  shows "strtol10 (ds @ rest) = int (digits_value 0 ds)"
    and "strtol10 (CHR ''-'' # ds @ rest) = - int (digits_value 0 ds)"
    and "strtol10 (CHR ''+'' # ds @ rest) = int (digits_value 0 ds)"
    and "strtol10 (CHR '' '' # ds @ rest) = int (digits_value 0 ds)"
proof -
  obtain c cs where c: "ds = c # cs" "c_isdigit c" using assms by (cases ds) auto
  have v: "digits_value 0 (ds @ rest) = digits_value 0 ds"
    using assms by (simp add: digits_value_append digits_value_stop)
  have "strtol10 (x @ ds @ rest) = strtol10 (ds @ rest)" if "x = '' ''" for x
    using c c_isdigit_space [OF c(2)] that by (simp add: strtol10_def c_isspace_def)
  moreover show *: "strtol10 (ds @ rest) = int (digits_value 0 ds)"
    using c c_isdigit_space [OF c(2)] v assms(3) by (simp add: strtol10_def Let_def)
  ultimately show "strtol10 (CHR '' '' # ds @ rest) = int (digits_value 0 ds)" by simp
  show "strtol10 (CHR ''-'' # ds @ rest) = - int (digits_value 0 ds)"
    "strtol10 (CHR ''+'' # ds @ rest) = int (digits_value 0 ds)"
    using v assms(3) by (simp_all add: strtol10_def Let_def c_isspace_def)
qed

lemma signed_take_bit_small: "- (2 ^ 31) \<le> i \<Longrightarrow> i < 2 ^ 31 \<Longrightarrow> signed_take_bit 31 i = (i :: int)"
  by (rule signed_take_bit_int_eq_self) auto

lemma atoi_dec_int:
  assumes "- (2 ^ 31) \<le> i" "i < 2 ^ 31" "no_digit rest"
  shows "atoi (dec_int i @ rest) = i"
proof -
  have ne: "dec_nat n \<noteq> []" for n using dec_nat_Cons [of n] by auto
  have "strtol10 (dec_int i @ rest) = i"
    using strtol10_digits [OF dec_nat_digits ne _ assms(3), of "nat i"]
      strtol10_digits [OF dec_nat_digits ne _ assms(3), of "nat (- i)"] assms(1,2)
    by (auto simp: dec_int_def digits_value_dec_nat)
  then show ?thesis by (simp add: atoi_def signed_take_bit_small [OF assms(1,2)])
qed

lemma dec2_digits: "list_all c_isdigit (dec2 n)" "dec2 n \<noteq> []" "digits_value 0 (dec2 n) = n"
  using dec_nat_Cons [of n]
  by (auto simp: dec2_def dec_nat_digits digits_value_dec_nat c_isdigit_def)

lemma length_dec2: "n < 100 \<Longrightarrow> length (dec2 n) = 2"
  by (auto simp: dec2_def dec_nat.simps [of n] dec_nat.simps [of "n div 10"])


section \<open>Lines\<close>

text \<open>
  \<open>fgets\<close> with a buffer of \<open>bufsz\<close> bytes: up to \<open>bufsz - 1\<close> characters, ending with the first
  newline; \<open>None\<close> at the end of the file.
\<close>

fun fgets_take :: "nat \<Rightarrow> string \<Rightarrow> string \<times> string" where
  "fgets_take 0 s = ([], s)"
| "fgets_take (Suc n) [] = ([], [])"
| "fgets_take (Suc n) (c # s) =
     (if c = CHR 0x0A then ([c], s) else (case fgets_take n s of (l, r) \<Rightarrow> (c # l, r)))"

definition fgets :: "nat \<Rightarrow> string \<Rightarrow> (string \<times> string) option" where
  "fgets bufsz s = (if s = [] then None else Some (fgets_take (bufsz - 1) s))"

lemma fgets_take_append: "fgets_take n s = (l, r) \<Longrightarrow> s = l @ r"
  by (induction n s arbitrary: l r rule: fgets_take.induct) (auto split: if_splits prod.splits)

lemma fgets_shorter: "fgets bufsz s = Some (l, r) \<Longrightarrow> 1 < bufsz \<Longrightarrow> length r < length s"
proof -
  assume a: "fgets bufsz s = Some (l, r)" "1 < bufsz"
  then obtain n where n: "bufsz - 1 = Suc n" by (cases "bufsz - 1") auto
  have s: "s \<noteq> []" "fgets_take (Suc n) s = (l, r)" using a n by (auto simp: fgets_def split: if_splits)
  then have "s = l @ r" "l \<noteq> []"
    using fgets_take_append by (cases s; auto split: if_splits prod.splits)+
  then show ?thesis by simp
qed

lemma fgets_take_line:
  "CHR 0x0A \<notin> set l \<Longrightarrow> length l < n \<Longrightarrow> fgets_take n (l @ CHR 0x0A # r) = (l @ [CHR 0x0A], r)"
proof (induction l arbitrary: n)
  case Nil
  then show ?case by (cases n) simp_all
next
  case (Cons c l)
  moreover from this have "c \<noteq> CHR 0x0A" by auto
  ultimately show ?case by (cases n) simp_all
qed

end
