(* ===== verification/Swab.thy ===== *)
theory Swab
  imports C_String
begin

text \<open>
  Byte order: storing and reading integers on a machine of either byte order, and the byte-swapping
  routines of restore/tape.c (\<open>swab16\<close>, \<open>swab32\<close>, \<open>swab64\<close>, the format interpreter \<open>swabst\<close> and
  \<open>swabi\<close>).  A routine that advances a pointer returns the bytes it has passed and the bytes from
  the returned pointer on; \<open>None\<close> is an access past the end of the buffer.
\<close>

section \<open>Integers in memory\<close>

datatype endian = LE | BE

definition put :: "endian \<Rightarrow> nat \<Rightarrow> 'a::len word \<Rightarrow> byte list" where
  "put e n w = (case e of LE \<Rightarrow> le_bytes n w | BE \<Rightarrow> rev (le_bytes n w))"

definition get :: "endian \<Rightarrow> byte list \<Rightarrow> 'a::len word" where
  "get e bs = le_word (case e of LE \<Rightarrow> bs | BE \<Rightarrow> rev bs)"

lemma length_put [simp]: "length (put e n w) = n"
  by (simp add: put_def split: endian.splits)

lemma get_put: "LENGTH('a::len) \<le> 8 * n \<Longrightarrow> (get e (put e n w) :: 'a word) = w"
  by (simp add: get_def put_def le_word_le_bytes split: endian.splits)

lemma put_get: "LENGTH('a::len) = 8 * length bs \<Longrightarrow> put e (length bs) (get e bs :: 'a word) = bs"
  using le_bytes_le_word [where bs = bs and 'a = 'a] le_bytes_le_word [where bs = "rev bs" and 'a = 'a]
  by (cases e) (simp_all add: get_def put_def)

lemma put_inject:
  "LENGTH('a::len) \<le> 8 * n \<Longrightarrow> put e n (v :: 'a word) = put e n w \<longleftrightarrow> v = w"
  by (metis get_put)

text \<open>The 32-bit integers that a machine reads from a buffer.\<close>

fun int_words :: "endian \<Rightarrow> byte list \<Rightarrow> u32 list" where
  "int_words e (a # b # c # d # bs) = get e [a, b, c, d] # int_words e bs"
| "int_words e _ = []"

lemma put4_cases: "\<exists>a b c d. put e 4 (w :: u32) = [a, b, c, d]"
proof -
  have "length (put e 4 w) = Suc (Suc (Suc (Suc 0)))" by simp
  then show ?thesis by (auto simp only: length_Suc_conv length_0_conv)
qed

lemma int_words_put: "int_words e (put e 4 w @ bs) = w # int_words e bs"
proof -
  obtain a b c d where p: "put e 4 w = [a, b, c, d]" using put4_cases by blast
  have "get e [a, b, c, d] = w" using get_put [of 4 e w] by (simp add: p)
  then show ?thesis by (simp add: p)
qed

lemma int_words_puts: "int_words e (concat (map (put e 4) ws) @ bs) = ws @ int_words e bs"
  by (induction ws) (simp_all add: int_words_put)

lemma length_int_words: "length (int_words e bs) = length bs div 4"
  by (induction e bs rule: int_words.induct) simp_all


section \<open>The swapping routines\<close>

fun swab16 :: "byte list \<Rightarrow> nat \<Rightarrow> (byte list \<times> byte list) option" where
  "swab16 sp 0 = Some ([], sp)"
| "swab16 (a # b # sp) (Suc n) = map_option (\<lambda>(w, r). (b # a # w, r)) (swab16 sp n)"
| "swab16 _ _ = None"

fun swab32 :: "byte list \<Rightarrow> nat \<Rightarrow> (byte list \<times> byte list) option" where
  "swab32 sp 0 = Some ([], sp)"
| "swab32 (a # b # c # d # sp) (Suc n) =
     map_option (\<lambda>(w, r). (d # c # b # a # w, r)) (swab32 sp n)"
| "swab32 _ _ = None"

fun swab64 :: "byte list \<Rightarrow> nat \<Rightarrow> (byte list \<times> byte list) option" where
  "swab64 sp 0 = Some ([], sp)"
| "swab64 (a # b # c # d # e # f # g # h # sp) (Suc n) =
     map_option (\<lambda>(w, r). (h # g # f # e # d # c # b # a # w, r)) (swab64 sp n)"
| "swab64 _ _ = None"

text \<open>One conversion letter of the format, with its repeat count.\<close>

definition swab_op :: "char \<Rightarrow> nat \<Rightarrow> byte list \<Rightarrow> (byte list \<times> byte list) option" where
  "swab_op c n sp =
     (let n = (if n = 0 then 1 else n) in
      if c = CHR ''s'' \<or> c = CHR ''w'' \<or> c = CHR ''h'' then swab16 sp n
      else if c = CHR ''i'' then swab32 sp n
      else if c = CHR ''l'' then swab64 sp n
      else if n \<le> length sp then Some (take n sp, drop n sp) else None)"

text \<open>
  \<open>swabst_loop cp n sp\<close> is the \<open>while (*cp)\<close> loop with the count read so far; it returns the bytes
  from \<open>sp\<close> on as the loop leaves them.
\<close>

fun swabst_loop :: "char list \<Rightarrow> nat \<Rightarrow> byte list \<Rightarrow> byte list option" where
  "swabst_loop [] n sp = Some sp"
| "swabst_loop (c # cp) n sp =
     (if c_isdigit c then swabst_loop cp (n * 10 + (of_char c - 48)) sp
      else case swab_op c n sp of
             None \<Rightarrow> None
           | Some (w, r) \<Rightarrow> map_option ((@) w) (swabst_loop cp 0 r))"

definition swabst :: "char list \<Rightarrow> byte list \<Rightarrow> byte list option" where
  "swabst cp sp = swabst_loop cp 0 sp"

text \<open>\<open>swabi\<close> swaps the four bytes of a register; restore runs on a little-endian machine here.\<close>

definition swabi :: "u32 \<Rightarrow> u32" where
  "swabi x = (case swabst ''i'' (le_bytes 4 x) of Some bs \<Rightarrow> le_word bs | None \<Rightarrow> 0)"


section \<open>Swapping what was stored\<close>

lemma swab32_puts:
  "swab32 (concat (map (put BE 4) ws) @ r) (length ws) = Some (concat (map (put LE 4) (ws :: u32 list)), r)"
proof (induction ws)
  case Nil
  then show ?case by simp
next
  case (Cons w ws)
  obtain a b c d where p: "put LE 4 w = [a, b, c, d]" using put4_cases by blast
  then have "put BE 4 w = [d, c, b, a]" by (simp add: put_def)
  then show ?case using Cons.IH by (simp add: p)
qed

lemma put2_cases: "\<exists>a b. put e 2 (w :: u16) = [a, b]"
proof -
  have "length (put e 2 w) = Suc (Suc 0)" by simp
  then show ?thesis by (auto simp only: length_Suc_conv length_0_conv)
qed

lemma swab16_puts:
  "swab16 (concat (map (put BE 2) ws) @ r) (length ws) = Some (concat (map (put LE 2) (ws :: u16 list)), r)"
proof (induction ws)
  case Nil
  then show ?case by simp
next
  case (Cons w ws)
  obtain a b where p: "put LE 2 w = [a, b]" using put2_cases by blast
  then have "put BE 2 w = [b, a]" by (simp add: put_def)
  then show ?case using Cons.IH by (simp add: p)
qed

lemma put8_cases: "\<exists>a b c d f g h i. put e 8 (w :: u64) = [a, b, c, d, f, g, h, i]"
proof -
  have "length (put e 8 w) = Suc (Suc (Suc (Suc (Suc (Suc (Suc (Suc 0)))))))" by simp
  then show ?thesis by (simp only: length_Suc_conv length_0_conv) blast
qed

lemma swab64_put:
  "swab64 (put BE 8 w @ r) 1 = Some (put LE 8 (w :: u64), r)"
proof -
  obtain a b c d f g h i where p: "put LE 8 w = [a, b, c, d, f, g, h, i]" using put8_cases by blast
  then have "put BE 8 w = [i, h, g, f, d, c, b, a]" by (simp add: put_def)
  then show ?thesis by (simp add: p)
qed

lemma swabi_get: "swabi (get LE bs) = get BE bs" if "length bs = 4"
proof -
  have "length bs = Suc (Suc (Suc (Suc 0)))" using that by simp
  then obtain a b c d where bs: "bs = [a, b, c, d]"
    by (auto simp only: length_Suc_conv length_0_conv)
  have "le_bytes 4 (get LE bs :: u32) = bs"
    using put_get [where e = LE and bs = bs and 'a = 32] that by (simp add: put_def)
  moreover have "\<not> c_isdigit (CHR ''i'')" by (simp add: c_isdigit_def)
  ultimately show ?thesis
    by (simp add: swabi_def swabst_def swab_op_def bs get_def)
qed

lemma swabi_int_words: "map swabi (int_words LE bs) = int_words BE bs"
  by (induction LE bs rule: int_words.induct) (simp_all add: swabi_get)

end
