(* ===== verification/Spcl.thy ===== *)
theory Spcl
  imports Swab
begin

text \<open>
  The 1024-byte tape header: \<open>union u_spcl\<close> of compat/include/protocols/dumprestore.h as a record,
  with its byte layout on a machine of either byte order, the constants of the format, and the
  checksum code of both sides (\<open>mkchecksum\<close> of dump/traverse.c, \<open>checksum\<close> of restore/tape.c).
\<close>

section \<open>Constants of the tape format\<close>

definition TP_BSIZE :: nat where "TP_BSIZE = 1024"
definition NTREC :: nat where "NTREC = 10"
definition HIGHDENSITYTREC :: nat where "HIGHDENSITYTREC = 32"
definition TP_NINDIR :: nat where "TP_NINDIR = 512"
definition TP_NINOS :: nat where "TP_NINOS = 128"
definition LBLSIZE :: nat where "LBLSIZE = 16"
definition NAMELEN :: nat where "NAMELEN = 64"
definition OFS_MAGIC :: u32 where "OFS_MAGIC = 60011"
definition NFS_MAGIC :: u32 where "NFS_MAGIC = 60012"
definition FS_UFS2_MAGIC :: u32 where "FS_UFS2_MAGIC = 0x19540119"
definition CHECKSUM :: u32 where "CHECKSUM = 84446"

definition TS_TAPE :: u32 where "TS_TAPE = 1"
definition TS_INODE :: u32 where "TS_INODE = 2"
definition TS_BITS :: u32 where "TS_BITS = 3"
definition TS_ADDR :: u32 where "TS_ADDR = 4"
definition TS_END :: u32 where "TS_END = 5"
definition TS_CLRI :: u32 where "TS_CLRI = 6"

definition DR_NEWHEADER :: u32 where "DR_NEWHEADER = 0x0001"
definition DR_NEWINODEFMT :: u32 where "DR_NEWINODEFMT = 0x0002"
definition DR_COMPRESSED :: u32 where "DR_COMPRESSED = 0x0080"
definition DR_METAONLY :: u32 where "DR_METAONLY = 0x0100"
definition DR_INODEINFO :: u32 where "DR_INODEINFO = 0x0002"
definition DR_EXTATTRIBUTES :: u32 where "DR_EXTATTRIBUTES = 0x8000"

definition EXT_MACOSFNDRINFO :: u32 where "EXT_MACOSFNDRINFO = 1"
definition EXT_MACOSRESFORK :: u32 where "EXT_MACOSRESFORK = 2"
definition EXT_XATTR :: u32 where "EXT_XATTR = 3"

lemmas spcl_consts = TP_BSIZE_def NTREC_def HIGHDENSITYTREC_def TP_NINDIR_def TP_NINOS_def
  LBLSIZE_def NAMELEN_def OFS_MAGIC_def NFS_MAGIC_def FS_UFS2_MAGIC_def CHECKSUM_def
lemmas ts_consts = TS_TAPE_def TS_INODE_def TS_BITS_def TS_ADDR_def TS_END_def TS_CLRI_def
lemmas dr_consts = DR_NEWHEADER_def DR_NEWINODEFMT_def DR_COMPRESSED_def DR_METAONLY_def
  DR_INODEINFO_def DR_EXTATTRIBUTES_def


section \<open>The header record\<close>

text \<open>
  \<open>struct new_bsd_inode\<close> (compat/include/bsdcompat.h); the prefix is the name \<open>nbi\<close> that the code
  gives its variable of this type.  Signed fields are kept as their 32-bit patterns.
\<close>

record new_bsd_inode =
  nbi_mode :: u16
  nbi_nlink :: u16
  nbi_ouid :: u16
  nbi_ogid :: u16
  nbi_size :: u64
  nbi_atime :: u32
  nbi_atime_usec :: u32
  nbi_mtime :: u32
  nbi_mtime_usec :: u32
  nbi_ctime :: u32
  nbi_ctime_usec :: u32
  nbi_db :: "u32 list"
  nbi_ib :: "u32 list"
  nbi_flags :: u32
  nbi_blocks :: u32
  nbi_gen :: u32
  nbi_uid :: u32
  nbi_gid :: u32
  nbi_spare :: "u32 list"

text \<open>\<open>c_data\<close> is the union of the bytes \<open>s_addrs\<close> (\<open>c_addr\<close>) and the integers \<open>s_inos\<close>.\<close>

record s_spcl =
  c_type :: u32
  c_date :: u32
  c_ddate :: u32
  c_volume :: u32
  c_tapea :: u32
  c_inumber :: u32
  c_magic :: u32
  c_checksum :: u32
  c_dinode :: new_bsd_inode
  c_count :: u32
  c_data :: "byte list"
  c_label :: "byte list"
  c_level :: u32
  c_filesys :: "byte list"
  c_dev :: "byte list"
  c_host :: "byte list"
  c_flags :: u32
  c_firstrec :: u32
  c_ntrec :: u32
  c_extattributes :: u32
  c_spare :: "u32 list"

definition wf_nbi :: "new_bsd_inode \<Rightarrow> bool" where
  "wf_nbi d \<longleftrightarrow> length (nbi_db d) = 12 \<and> length (nbi_ib d) = 3 \<and> length (nbi_spare d) = 2"

definition wf_spcl :: "s_spcl \<Rightarrow> bool" where
  "wf_spcl s \<longleftrightarrow> wf_nbi (c_dinode s) \<and> length (c_data s) = TP_NINDIR \<and> length (c_label s) = LBLSIZE
     \<and> length (c_filesys s) = NAMELEN \<and> length (c_dev s) = NAMELEN \<and> length (c_host s) = NAMELEN
     \<and> length (c_spare s) = 30"

text \<open>The integers of the header before and after the union, in the order of the struct.\<close>

definition spcl_head :: "s_spcl \<Rightarrow> u32 list" where
  "spcl_head s = [c_type s, c_date s, c_ddate s, c_volume s, c_tapea s, c_inumber s, c_magic s]"

definition nbi_shorts :: "new_bsd_inode \<Rightarrow> u16 list" where
  "nbi_shorts d = [nbi_mode d, nbi_nlink d, nbi_ouid d, nbi_ogid d]"

definition nbi_ints :: "new_bsd_inode \<Rightarrow> u32 list" where
  "nbi_ints d = [nbi_atime d, nbi_atime_usec d, nbi_mtime d, nbi_mtime_usec d, nbi_ctime d,
     nbi_ctime_usec d] @ nbi_db d @ nbi_ib d @ [nbi_flags d, nbi_blocks d, nbi_gen d, nbi_uid d,
     nbi_gid d] @ nbi_spare d"

definition spcl_tail :: "s_spcl \<Rightarrow> u32 list" where
  "spcl_tail s = [c_flags s, c_firstrec s, c_ntrec s, c_extattributes s]"

abbreviation puts32 :: "endian \<Rightarrow> u32 list \<Rightarrow> byte list" where
  "puts32 e ws \<equiv> concat (map (put e 4) ws)"

abbreviation puts16 :: "endian \<Rightarrow> u16 list \<Rightarrow> byte list" where
  "puts16 e ws \<equiv> concat (map (put e 2) ws)"

definition encode_rest :: "endian \<Rightarrow> s_spcl \<Rightarrow> byte list" where
  "encode_rest e s =
     puts16 e (nbi_shorts (c_dinode s)) @ put e 8 (nbi_size (c_dinode s))
     @ puts32 e (nbi_ints (c_dinode s) @ [c_count s])
     @ c_data s @ c_label s @ put e 4 (c_level s) @ c_filesys s @ c_dev s @ c_host s
     @ puts32 e (spcl_tail s) @ puts32 e (c_spare s)"

definition encode_spcl :: "endian \<Rightarrow> s_spcl \<Rightarrow> byte list" where
  "encode_spcl e s = puts32 e (spcl_head s) @ put e 4 (c_checksum s) @ encode_rest e s"

lemma length_puts32 [simp]: "length (puts32 e ws) = 4 * length ws"
  by (induction ws) simp_all

lemma length_puts16 [simp]: "length (puts16 e ws) = 2 * length ws"
  by (induction ws) simp_all

lemma length_spcl_lists [simp]:
  "length (spcl_head s) = 7" "length (nbi_shorts d) = 4" "length (spcl_tail s) = 4"
  by (simp_all add: spcl_head_def nbi_shorts_def spcl_tail_def)

lemma length_nbi_ints [simp]: "wf_nbi d \<Longrightarrow> length (nbi_ints d) = 28"
  by (simp add: nbi_ints_def wf_nbi_def)

lemma length_encode_rest: "wf_spcl s \<Longrightarrow> length (encode_rest e s) = 992"
  by (simp add: encode_rest_def wf_spcl_def spcl_consts)

lemma length_encode_spcl: "wf_spcl s \<Longrightarrow> length (encode_spcl e s) = TP_BSIZE"
  by (simp add: encode_spcl_def length_encode_rest spcl_consts)


section \<open>Reading a header back\<close>

fun gets32 :: "endian \<Rightarrow> nat \<Rightarrow> byte list \<Rightarrow> u32 list" where
  "gets32 e 0 bs = []"
| "gets32 e (Suc n) bs = get e (take 4 bs) # gets32 e n (drop 4 bs)"

lemma gets32_puts32: "length ws = n \<Longrightarrow> gets32 e n (puts32 e ws @ r) = ws"
  by (induction ws arbitrary: n) (auto simp: get_put)

definition at :: "byte list \<Rightarrow> nat \<Rightarrow> nat \<Rightarrow> byte list" where
  "at bs off n = take n (drop off bs)"

definition decode_nbi :: "endian \<Rightarrow> byte list \<Rightarrow> new_bsd_inode" where
  "decode_nbi e bs = \<lparr> nbi_mode = get e (at bs 0 2), nbi_nlink = get e (at bs 2 2),
     nbi_ouid = get e (at bs 4 2), nbi_ogid = get e (at bs 6 2), nbi_size = get e (at bs 8 8),
     nbi_atime = get e (at bs 16 4), nbi_atime_usec = get e (at bs 20 4),
     nbi_mtime = get e (at bs 24 4), nbi_mtime_usec = get e (at bs 28 4),
     nbi_ctime = get e (at bs 32 4), nbi_ctime_usec = get e (at bs 36 4),
     nbi_db = gets32 e 12 (at bs 40 48), nbi_ib = gets32 e 3 (at bs 88 12),
     nbi_flags = get e (at bs 100 4), nbi_blocks = get e (at bs 104 4),
     nbi_gen = get e (at bs 108 4), nbi_uid = get e (at bs 112 4), nbi_gid = get e (at bs 116 4),
     nbi_spare = gets32 e 2 (at bs 120 8) \<rparr>"

definition decode_spcl :: "endian \<Rightarrow> byte list \<Rightarrow> s_spcl" where
  "decode_spcl e bs = \<lparr> c_type = get e (at bs 0 4), c_date = get e (at bs 4 4),
     c_ddate = get e (at bs 8 4), c_volume = get e (at bs 12 4), c_tapea = get e (at bs 16 4),
     c_inumber = get e (at bs 20 4), c_magic = get e (at bs 24 4), c_checksum = get e (at bs 28 4),
     c_dinode = decode_nbi e (at bs 32 128), c_count = get e (at bs 160 4),
     c_data = at bs 164 512, c_label = at bs 676 16, c_level = get e (at bs 692 4),
     c_filesys = at bs 696 64, c_dev = at bs 760 64, c_host = at bs 824 64,
     c_flags = get e (at bs 888 4), c_firstrec = get e (at bs 892 4), c_ntrec = get e (at bs 896 4),
     c_extattributes = get e (at bs 900 4), c_spare = gets32 e 30 (at bs 904 120) \<rparr>"

text \<open>Skipping and taking whole segments of a concatenation.\<close>

lemma at_skip: "length xs \<le> off \<Longrightarrow> at (xs @ ys) off n = at ys (off - length xs) n"
  by (simp add: at_def)

lemma at_here: "length xs = n \<Longrightarrow> at (xs @ ys) 0 n = xs"
  by (simp add: at_def)

lemma at_all: "length xs = n \<Longrightarrow> at xs 0 n = xs"
  by (simp add: at_def)

definition encode_nbi :: "endian \<Rightarrow> new_bsd_inode \<Rightarrow> byte list" where
  "encode_nbi e d = puts16 e (nbi_shorts d) @ put e 8 (nbi_size d) @ puts32 e (nbi_ints d)"

lemma length_encode_nbi: "wf_nbi d \<Longrightarrow> length (encode_nbi e d) = 128"
  by (simp add: encode_nbi_def)

lemmas at_segments = at_skip at_here at_all get_put

lemma decode_encode_nbi: "wf_nbi d \<Longrightarrow> decode_nbi e (encode_nbi e d) = d"
  by (simp add: decode_nbi_def encode_nbi_def nbi_shorts_def nbi_ints_def wf_nbi_def at_segments
      gets32_puts32 gets32_puts32 [where r = "[]", simplified])

lemma encode_spcl_segments:
  "encode_spcl e s = puts32 e (spcl_head s) @ put e 4 (c_checksum s) @ encode_nbi e (c_dinode s)
     @ put e 4 (c_count s) @ c_data s @ c_label s @ put e 4 (c_level s) @ c_filesys s @ c_dev s
     @ c_host s @ puts32 e (spcl_tail s) @ puts32 e (c_spare s)"
  by (simp add: encode_spcl_def encode_rest_def encode_nbi_def)

lemma decode_encode_spcl: "wf_spcl s \<Longrightarrow> decode_spcl e (encode_spcl e s) = s"
  by (simp add: decode_spcl_def encode_spcl_segments wf_spcl_def spcl_consts at_segments
      length_encode_nbi decode_encode_nbi spcl_head_def spcl_tail_def
      gets32_puts32 [where r = "[]", simplified])


section \<open>Checksums\<close>

text \<open>
  \<open>mkchecksum\<close>: \<open>cnt\<close> rounds, each adding the next four integers of the header, which the machine
  of byte order \<open>e\<close> reads from its memory image.  The arithmetic is that of 32-bit words.
\<close>

fun mk_sum :: "nat \<Rightarrow> u32 list \<Rightarrow> u32 \<Rightarrow> u32" where
  "mk_sum (Suc cnt) (a # b # c # d # lp) acc = mk_sum cnt lp (acc + a + b + c + d)"
| "mk_sum _ _ acc = acc"

definition mkchecksum :: "endian \<Rightarrow> s_spcl \<Rightarrow> s_spcl" where
  "mkchecksum e s =
     (let s = s\<lparr>c_checksum := 0\<rparr>;
          acc = mk_sum (TP_BSIZE div (4 * 4)) (int_words e (encode_spcl e s)) 0
      in s\<lparr>c_checksum := CHECKSUM - acc\<rparr>)"

text \<open>
  \<open>checksum\<close> of restore: the sum of all the integers of the buffer, each byte-swapped when \<open>Bcvt\<close>
  is set, compared with \<open>CHECKSUM\<close>; \<open>True\<close> is \<open>GOOD\<close>.
\<close>

fun ck_sum :: "bool \<Rightarrow> u32 list \<Rightarrow> u32 \<Rightarrow> u32" where
  "ck_sum bcvt [] i = i"
| "ck_sum bcvt (w # buf) i = ck_sum bcvt buf (i + (if bcvt then swabi w else w))"

definition checksum :: "bool \<Rightarrow> byte list \<Rightarrow> bool" where
  "checksum bcvt buf \<longleftrightarrow> ck_sum bcvt (take (TP_BSIZE div 4) (int_words LE buf)) 0 = CHECKSUM"

lemma mk_sum_eq: "length lp = 4 * cnt \<Longrightarrow> mk_sum cnt lp acc = acc + sum_list lp"
proof (induction cnt lp acc rule: mk_sum.induct)
  case (1 cnt a b c d lp acc)
  then show ?case by (simp add: algebra_simps)
qed (simp, simp, (drule arg_cong [where f = "\<lambda>n. n mod 4"], simp)+)

lemma ck_sum_eq: "ck_sum bcvt ws i = i + sum_list (if bcvt then map swabi ws else ws)"
  by (induction ws arbitrary: i) (auto simp: algebra_simps)

lemma encode_rest_checksum [simp]: "encode_rest e (s\<lparr>c_checksum := x\<rparr>) = encode_rest e s"
  by (simp add: encode_rest_def spcl_tail_def)

lemma spcl_head_checksum [simp]: "spcl_head (s\<lparr>c_checksum := x\<rparr>) = spcl_head s"
  by (simp add: spcl_head_def)

lemma wf_spcl_checksum [simp]: "wf_spcl (s\<lparr>c_checksum := x\<rparr>) = wf_spcl s"
  by (simp add: wf_spcl_def)

lemma spcl_words:
  "int_words e (encode_spcl e s) = spcl_head s @ c_checksum s # int_words e (encode_rest e s)"
  using int_words_puts [of e "spcl_head s @ [c_checksum s]" "encode_rest e s"]
  by (simp add: encode_spcl_def)

lemma mkchecksum_sum:
  assumes "wf_spcl s"
  shows "sum_list (int_words e (encode_spcl e (mkchecksum e s))) = CHECKSUM"
proof -
  let ?z = "s\<lparr>c_checksum := 0\<rparr>"
  have "length (int_words e (encode_spcl e ?z)) = 4 * (TP_BSIZE div (4 * 4))"
    using assms by (simp add: length_int_words length_encode_spcl spcl_consts)
  then have "mk_sum (TP_BSIZE div (4 * 4)) (int_words e (encode_spcl e ?z)) 0
      = sum_list (spcl_head s) + sum_list (int_words e (encode_rest e s))"
    by (simp add: mk_sum_eq spcl_words)
  then show ?thesis
    by (simp add: mkchecksum_def Let_def spcl_words algebra_simps)
qed

lemma wf_spcl_mkchecksum [simp]: "wf_spcl (mkchecksum e s) = wf_spcl s"
  by (simp add: mkchecksum_def Let_def)

lemma checksum_eq:
  "length buf = TP_BSIZE \<Longrightarrow> checksum bcvt buf \<longleftrightarrow>
     sum_list (int_words (if bcvt then BE else LE) buf) = CHECKSUM"
  by (simp add: checksum_def ck_sum_eq length_int_words swabi_int_words)



section \<open>Swapping a foreign header\<close>

text \<open>The format that restore gives to \<open>swabst\<close> for a header.\<close>

definition header_format :: "char list" where
  "header_format = ''8i4s1l29i528bi192b4i''"

definition foreign_rest :: "s_spcl \<Rightarrow> byte list" where
  "foreign_rest s = puts32 BE (c_spare s)"

lemma swab_op_i: "swab_op CHR ''i'' (length ws) (puts32 BE ws @ r) = Some (puts32 LE ws, r)"
  if "ws \<noteq> []"
  using that by (auto simp: swab_op_def swab32_puts)

lemma swab_op_s: "swab_op CHR ''s'' (length ws) (puts16 BE ws @ r) = Some (puts16 LE ws, r)"
  if "ws \<noteq> []"
  using that by (auto simp: swab_op_def swab16_puts)

lemma swab_op_l: "swab_op CHR ''l'' 1 (put BE 8 (w :: u64) @ r) = Some (put LE 8 w, r)"
  using swab64_put [of w r] by (simp add: swab_op_def)

lemma swab_op_b: "swab_op CHR ''b'' n (bs @ r) = Some (bs, r)" if "length bs = n" "0 < n"
  using that by (simp add: swab_op_def)

lemma swab_op_i1: "swab_op CHR ''i'' 0 (put BE 4 (w :: u32) @ r) = Some (put LE 4 w, r)"
  using swab32_puts [of "[w]" r] by (simp add: swab_op_def)

text \<open>One step of the interpreter: a count of at most three digits and a letter.\<close>

lemma header_format_eq: "swabst_loop header_format 0 bs =
   (case swab_op CHR ''i'' 8 bs of None \<Rightarrow> None | Some (w1, b1) \<Rightarrow> map_option ((@) w1)
   (case swab_op CHR ''s'' 4 b1 of None \<Rightarrow> None | Some (w2, b2) \<Rightarrow> map_option ((@) w2)
   (case swab_op CHR ''l'' 1 b2 of None \<Rightarrow> None | Some (w3, b3) \<Rightarrow> map_option ((@) w3)
   (case swab_op CHR ''i'' 29 b3 of None \<Rightarrow> None | Some (w4, b4) \<Rightarrow> map_option ((@) w4)
   (case swab_op CHR ''b'' 528 b4 of None \<Rightarrow> None | Some (w5, b5) \<Rightarrow> map_option ((@) w5)
   (case swab_op CHR ''i'' 0 b5 of None \<Rightarrow> None | Some (w6, b6) \<Rightarrow> map_option ((@) w6)
   (case swab_op CHR ''b'' 192 b6 of None \<Rightarrow> None | Some (w7, b7) \<Rightarrow> map_option ((@) w7)
   (case swab_op CHR ''i'' 4 b7 of None \<Rightarrow> None | Some (w8, b8) \<Rightarrow> Some (w8 @ b8)))))))))"
  by (simp add: header_format_def c_isdigit_def split: option.splits)

lemma swabst_header:
  assumes wf: "wf_spcl s"
  shows "swabst header_format (encode_spcl BE s) =
    Some (take 904 (encode_spcl LE s) @ foreign_rest s)"
proof -
  let ?d = "c_dinode s"
  have wd: "wf_nbi ?d" using wf by (simp add: wf_spcl_def)
  let ?h = "spcl_head s @ [c_checksum s]" and ?n = "nbi_ints ?d @ [c_count s]"
  have len: "length ?h = 8" "length ?n = 29" "length (c_data s @ c_label s) = 528"
    "length (c_filesys s @ c_dev s @ c_host s) = 192" "length (c_data s) = 512"
    "length (c_label s) = 16" "length (c_filesys s) = 64" "length (c_dev s) = 64" "length (c_host s) = 64"
    using wf wd by (simp_all add: wf_spcl_def spcl_consts)
  have o1: "swab_op CHR ''i'' 8 (puts32 BE ?h @ r) = Some (puts32 LE ?h, r)" for r
    using swab_op_i [of ?h r] len by simp
  have o2: "swab_op CHR ''s'' 4 (puts16 BE (nbi_shorts ?d) @ r) = Some (puts16 LE (nbi_shorts ?d), r)" for r
  proof -
    have "nbi_shorts ?d \<noteq> []" by (simp add: nbi_shorts_def)
    from swab_op_s [OF this, of r] show ?thesis by simp
  qed
  have o4: "swab_op CHR ''i'' 29 (puts32 BE ?n @ r) = Some (puts32 LE ?n, r)" for r
    using swab_op_i [of ?n r] len by simp
  have o5: "swab_op CHR ''b'' 528 ((c_data s @ c_label s) @ r) = Some (c_data s @ c_label s, r)" for r
    by (rule swab_op_b) (simp_all add: len)
  have o7: "swab_op CHR ''b'' 192 ((c_filesys s @ c_dev s @ c_host s) @ r)
      = Some (c_filesys s @ c_dev s @ c_host s, r)" for r
    by (rule swab_op_b) (simp_all add: len)
  have o8: "swab_op CHR ''i'' 4 (puts32 BE (spcl_tail s) @ r) = Some (puts32 LE (spcl_tail s), r)" for r
  proof -
    have "spcl_tail s \<noteq> []" by (simp add: spcl_tail_def)
    from swab_op_i [OF this, of r] show ?thesis by simp
  qed
  define big where "big = puts32 BE ?h @ puts16 BE (nbi_shorts ?d) @ put BE 8 (nbi_size ?d)
    @ puts32 BE ?n @ (c_data s @ c_label s) @ put BE 4 (c_level s) @ (c_filesys s @ c_dev s @ c_host s)
    @ puts32 BE (spcl_tail s) @ foreign_rest s"
  define lit where "lit = puts32 LE ?h @ puts16 LE (nbi_shorts ?d) @ put LE 8 (nbi_size ?d)
    @ puts32 LE ?n @ (c_data s @ c_label s) @ put LE 4 (c_level s) @ (c_filesys s @ c_dev s @ c_host s)
    @ puts32 LE (spcl_tail s)"
  have big: "encode_spcl BE s = big"
    by (simp add: big_def encode_spcl_def encode_rest_def foreign_rest_def)
  have lit: "encode_spcl LE s = lit @ puts32 LE (c_spare s)" and "length lit = 904"
    using len wd by (simp_all add: lit_def encode_spcl_def encode_rest_def)
  have "swabst header_format big = Some (lit @ foreign_rest s)"
    unfolding swabst_def header_format_eq
    by (simp only: big_def o1 o2 swab_op_l o4 o5 [unfolded append_assoc] swab_op_i1 o7 [unfolded append_assoc] o8 option.case prod.case
        option.map lit_def append_assoc)
  then show ?thesis by (simp add: big lit \<open>length lit = 904\<close>)
qed


lemma puts32_swabi: "puts32 LE (map swabi ws) = puts32 BE ws"
proof (induction ws)
  case Nil
  then show ?case by simp
next
  case (Cons w ws)
  have "swabi w = get BE (put LE 4 w)" using swabi_get [of "put LE 4 w"] by (simp add: get_put)
  also have "\<dots> = get LE (put BE 4 w)" by (simp add: get_def put_def)
  finally have "put LE 4 (swabi w) = put BE 4 w"
    using put_get [where bs = "put BE 4 w" and e = LE and 'a = 32] by simp
  then show ?case using Cons by simp
qed

lemma int_words_append: "4 dvd length xs \<Longrightarrow> int_words e (xs @ ys) = int_words e xs @ int_words e ys"
proof (induction e xs rule: int_words.induct)
  case (1 e a b c d bs)
  have "length (a # b # c # d # bs) = length bs + 4" by simp
  then have "4 dvd length bs" using "1.prems" by (metis dvd_add_triv_right_iff)
  then show ?case using "1.IH" by simp
qed (auto dest: dvd_imp_le)

lemma get_inject:
  assumes "length bs = 4" "length bs' = 4"
  shows "(get e bs :: u32) = get e bs' \<longleftrightarrow> bs = bs'"
proof
  assume g: "(get e bs :: u32) = get e bs'"
  have "bs = put e 4 (get e bs :: u32)" using put_get [where e = e and bs = bs and 'a = 32] assms by simp
  also have "\<dots> = bs'" using put_get [where e = e and bs = bs' and 'a = 32] assms by (simp add: g)
  finally show "bs = bs'" .
qed simp


section \<open>Properties\<close>

definition zero_nbi :: new_bsd_inode where
  "zero_nbi = \<lparr> nbi_mode = 0, nbi_nlink = 0, nbi_ouid = 0, nbi_ogid = 0, nbi_size = 0, nbi_atime = 0,
     nbi_atime_usec = 0, nbi_mtime = 0, nbi_mtime_usec = 0, nbi_ctime = 0, nbi_ctime_usec = 0,
     nbi_db = replicate 12 0, nbi_ib = replicate 3 0, nbi_flags = 0, nbi_blocks = 0, nbi_gen = 0,
     nbi_uid = 0, nbi_gid = 0, nbi_spare = replicate 2 0 \<rparr>"

definition zero_spcl :: s_spcl where
  "zero_spcl = \<lparr> c_type = 0, c_date = 0, c_ddate = 0, c_volume = 0, c_tapea = 0, c_inumber = 0,
     c_magic = 0, c_checksum = 0, c_dinode = zero_nbi, c_count = 0, c_data = replicate TP_NINDIR 0,
     c_label = replicate LBLSIZE 0, c_level = 0, c_filesys = replicate NAMELEN 0,
     c_dev = replicate NAMELEN 0, c_host = replicate NAMELEN 0, c_flags = 0, c_firstrec = 0,
     c_ntrec = 0, c_extattributes = 0, c_spare = replicate 30 0 \<rparr>"

lemma wf_zero_spcl [simp]: "wf_spcl zero_spcl"
  by (simp add: wf_spcl_def zero_spcl_def wf_nbi_def zero_nbi_def)

text \<open>C10: A header that \<open>mkchecksum\<close> of dump has completed passes \<open>checksum\<close> of restore, on a dump
  of the same byte order and, with \<open>Bcvt\<close> set, on one of the other.\<close>

theorem header_checksum:
  "wf_spcl s \<Longrightarrow> checksum (e = BE) (encode_spcl e (mkchecksum e s))"
  using mkchecksum_sum [of s e] length_encode_spcl [of "mkchecksum e s" e]
  by (cases e) (simp_all add: checksum_eq)

theorem header_checksum_witness:
  "checksum True (encode_spcl BE (mkchecksum BE zero_spcl))"
  using header_checksum [OF wf_zero_spcl, of BE] by simp

text \<open>C11: Any change confined to one of the 256 words of a good header is detected by \<open>checksum\<close>.\<close>

theorem checksum_detects:
  assumes "checksum bcvt (xs @ w @ ys)" "length (xs @ w @ ys) = TP_BSIZE" "4 dvd length xs"
    and "length w = 4" "length w' = 4" "w' \<noteq> w"
  shows "\<not> checksum bcvt (xs @ w' @ ys)"
proof -
  define e where "e = (if bcvt then BE else LE)"
  have "int_words e (xs @ v @ ys) = int_words e xs @ get e v # int_words e ys" if "length v = 4" for v
  proof -
    have "length v = Suc (Suc (Suc (Suc 0)))" using that by simp
    then have "int_words e (v @ ys) = get e v # int_words e ys"
      by (auto simp only: length_Suc_conv length_0_conv append.simps int_words.simps)
    then show ?thesis using assms(3) by (simp add: int_words_append)
  qed
  then have "sum_list (int_words e (xs @ v @ ys))
      = sum_list (int_words e xs) + get e v + sum_list (int_words e ys)" if "length v = 4" for v
    using that by (simp add: algebra_simps)
  then have "sum_list (int_words e (xs @ w' @ ys)) \<noteq> sum_list (int_words e (xs @ w @ ys))"
    using assms(4,5,6) get_inject [OF assms(5,4), of e] by simp
  then show ?thesis using assms by (simp add: checksum_eq e_def)
qed

theorem checksum_detects_witness:
  "\<not> checksum False (encode_spcl LE ((mkchecksum LE zero_spcl)\<lparr>c_type := 1\<rparr>))"
proof -
  let ?s = "mkchecksum LE zero_spcl"
  define ys where "ys = puts32 LE (tl (spcl_head ?s)) @ put LE 4 (c_checksum ?s) @ encode_rest LE ?s"
  have old: "encode_spcl LE ?s = [] @ put LE 4 (c_type ?s) @ ys"
    and new: "encode_spcl LE (?s\<lparr>c_type := 1\<rparr>) = [] @ put LE 4 (1 :: u32) @ ys"
    by (simp_all add: encode_spcl_def spcl_head_def ys_def encode_rest_def spcl_tail_def)
  have g: "checksum False (encode_spcl LE ?s)"
    using header_checksum [OF wf_zero_spcl, of LE] by simp
  have l: "length (encode_spcl LE ?s) = TP_BSIZE" by (simp add: length_encode_spcl)
  have ne: "put LE 4 (1 :: u32) \<noteq> put LE 4 (c_type ?s)"
    by (simp add: put_inject mkchecksum_def Let_def zero_spcl_def)
  show ?thesis
    unfolding new by (rule checksum_detects [OF g [unfolded old] l [unfolded old] _ _ _ ne]) simp_all
qed

text \<open>C12: A header written on a machine of the other byte order, passed through \<open>swabst\<close> with the
  format of \<open>gethead\<close>, reads as the header that was written; only the spare words, which the format
  does not reach, come out swapped.\<close>

theorem foreign_header:
  assumes "wf_spcl s"
  shows "\<exists>bs. swabst header_format (encode_spcl BE s) = Some bs \<and>
    decode_spcl LE bs = s\<lparr>c_spare := map swabi (c_spare s)\<rparr>"
proof -
  let ?t = "s\<lparr>c_spare := map swabi (c_spare s)\<rparr>"
  have wt: "wf_spcl ?t" using assms by (simp add: wf_spcl_def)
  have len: "length (puts32 LE (c_spare s)) = 120" using assms by (simp add: wf_spcl_def)
  have common: "\<exists>p. encode_spcl LE s = p @ puts32 LE (c_spare s)
      \<and> encode_spcl LE ?t = p @ puts32 LE (map swabi (c_spare s))"
    by (simp add: encode_spcl_segments spcl_head_def spcl_tail_def)
  then obtain p where p: "encode_spcl LE s = p @ puts32 LE (c_spare s)"
    "encode_spcl LE ?t = p @ puts32 LE (map swabi (c_spare s))" by blast
  have "length p = 904" using p(1) len length_encode_spcl [OF assms, of LE] by (simp add: spcl_consts)
  then have "take 904 (encode_spcl LE s) @ foreign_rest s = encode_spcl LE ?t"
    unfolding p foreign_rest_def puts32_swabi by simp
  then show ?thesis using swabst_header [OF assms] decode_encode_spcl [OF wt, of LE] by simp
qed

theorem foreign_header_witness:
  "\<exists>bs. swabst header_format (encode_spcl BE zero_spcl) = Some bs \<and>
     decode_spcl LE bs = zero_spcl\<lparr>c_spare := map swabi (c_spare zero_spcl)\<rparr>"
  by (rule foreign_header [OF wf_zero_spcl])

end
