(* ===== verification/Tapeout.thy ===== *)
theory Tapeout
  imports Mapping_Pass Spcl
begin

text \<open>
  The writing side of dump/tape.c: the master process collects records (\<open>writerec\<close>) and requests
  for disk blocks (\<open>dumpblock\<close>) into the buffer of the current slave, sends a full buffer to it
  (\<open>flushtape\<close>), reads back the result of the next slave, keeps the account of the volume and
  changes the volume when it is full (\<open>close_rewind\<close>, \<open>startnewtape\<close>); a slave turns the requests
  into the records it writes (the loop of \<open>doslave\<close>, with \<open>bread\<close> of dump/traverse.c).
  The theorems say that the records reach the tape in the order in which they were submitted,
  whatever the blocking factor, in blocks of exactly \<open>ntrec\<close> records, and that every header carries
  its own address.
\<close>

section \<open>Slaves, requests and the state of the writer\<close>

text \<open>\<open>struct req\<close>; a zero \<open>dblk\<close> stands for a record that comes with the request.\<close>

record req =
  dblk :: nat
  req_count :: nat

text \<open>
  \<open>struct slave\<close>: \<open>sreq\<close> are the requests in the order of the array (an entry of count \<open>n\<close> is
  followed by the next one \<open>n\<close> places later), \<open>tblock\<close> the records stored so far.
\<close>

record slave =
  tblock :: "byte list list"
  sreq :: "req list"
  s_count :: int
  s_tapea :: int
  s_firstrec :: int
  s_inode :: dump_ino_t
  sent :: bool

definition SLAVES :: nat where "SLAVES = 3"

text \<open>What a slave answers for a block: the sizes before and after compression.\<close>

record slave_results =
  unclen :: int
  clen :: int

text \<open>A block as it was sent: volume, slave, requests and records.\<close>

record command =
  cmd_volume :: nat
  cmd_slave :: nat
  cmd_req :: "req list"
  cmd_tblock :: "byte list list"

text \<open>
  The settings that the writer reads.  \<open>results\<close> is the sequence of the slaves' answers (\<open>None\<close>: the
  pipe broke), \<open>mounted\<close> whether the operator (or the end-of-tape script) lets a volume begin,
  \<open>rewrite\<close> and \<open>go_on\<close> the operator's answers after a write error, and \<open>nested\<close> bounds the volume
  changes inside one \<open>flushtape\<close>.
\<close>

record tcfg =
  byte_order :: endian
  ntrec :: nat
  tenths :: int
  density :: int
  tsize :: int
  blocksperfiles :: "int list option"
  unlimited :: bool
  pipeout :: bool
  compressed :: bool
  results :: "nat \<Rightarrow> slave_results option"
  mounted :: "nat \<Rightarrow> bool"
  rewrite :: "nat \<Rightarrow> bool"
  go_on :: "nat \<Rightarrow> bool"
  nested :: nat

definition writesize :: "tcfg \<Rightarrow> int" where
  "writesize cfg = int (ntrec cfg * TP_BSIZE)"

text \<open>The globals of dump/tape.c with \<open>spcl\<close>; \<open>nread\<close> counts the answers read.\<close>

record writer =
  spcl :: s_spcl
  lastspclrec :: int
  trecno :: nat
  slaves :: "slave list"
  slp :: nat
  commands :: "command list"
  nread :: nat
  blockswritten :: int
  blocksthisvol :: int
  bytes_written :: int
  tapea_bytes :: int
  asize :: int
  uncomprblks :: int
  tapeno :: nat
  newtape :: bool
  blocksperfiles_current :: nat
  volinfo :: "u32 list"
  cur_inode :: dump_ino_t

text \<open>How the writing can stop; \<open>Rollforward\<close> is the early end of a volume, whose last blocks are
  replayed on the next one (\<open>rollforward\<close> is not modelled).\<close>

datatype tape_stop = Quit dump_exit | Nested | Rollforward

definition cur_slave :: "writer \<Rightarrow> slave" where
  "cur_slave w = slaves w ! slp w"

definition set_slave :: "(slave \<Rightarrow> slave) \<Rightarrow> writer \<Rightarrow> writer" where
  "set_slave f w = w\<lparr>slaves := (slaves w)[slp w := f (slaves w ! slp w)]\<rparr>"


section \<open>Sending a block and reading an answer\<close>

definition send_block :: "writer \<Rightarrow> writer" where
  "send_block w =
     (let c = \<lparr> cmd_volume = tapeno w, cmd_slave = slp w, cmd_req = sreq (cur_slave w),
                cmd_tblock = tblock (cur_slave w) \<rparr>;
          w = set_slave (\<lambda>s. s\<lparr>sent := True\<rparr>) (w\<lparr>commands := commands w @ [c]\<rparr>)
      in w\<lparr>slp := (if slp w + 1 \<ge> SLAVES then 0 else slp w + 1)\<rparr>)"

text \<open>\<open>tperror\<close>: after a write error the volume is rewritten, left for the next one, or the dump ends.\<close>

definition tperror :: "tcfg \<Rightarrow> writer \<Rightarrow> tape_stop + unit" where
  "tperror cfg w =
     (if pipeout cfg then Inl (Quit X_ABORT)
      else if rewrite cfg (tapeno w) then Inl (Quit X_REWRITE)
      else if go_on cfg (tapeno w) then Inr ()
      else Inl (Quit X_ABORT))"

text \<open>Reading the answer of a slave that was sent a block, with its part of the account.\<close>

definition read_result :: "tcfg \<Rightarrow> writer \<Rightarrow> tape_stop + slave_results \<times> writer" where
  "read_result cfg w =
     (case results cfg (nread w) of
        None \<Rightarrow> Inl (Quit X_ABORT)
      | Some r \<Rightarrow> Inr (r, w\<lparr>nread := nread w + 1, bytes_written := bytes_written w + clen r,
                           uncomprblks := uncomprblks w + (if unclen r = clen r then 1 else 0)\<rparr>))"

definition next_result :: "tcfg \<Rightarrow> writer \<Rightarrow> tape_stop + slave_results \<times> writer" where
  "next_result cfg w =
     (if sent (cur_slave w) then
        bindE (read_result cfg w) (\<lambda>(r, w).
          let w = set_slave (\<lambda>s. s\<lparr>sent := False\<rparr>) w
          in if unclen r < 0 then bindE (tperror cfg w) (\<lambda>_. Inl Rollforward)
             else if unclen r = 0 then Inl Rollforward
             else Inr (r, w))
      else Inr (\<lparr> unclen = writesize cfg, clen = writesize cfg \<rparr>, w))"


section \<open>The account of a block\<close>

text \<open>
  The bytes of \<open>spcl\<close> from \<open>c_addr\<close> on, as \<open>c_addr[i]\<close> reads them for any \<open>i\<close>.
\<close>

definition c_addr_mem :: "endian \<Rightarrow> s_spcl \<Rightarrow> byte list" where
  "c_addr_mem e s = drop 164 (encode_spcl e s)"

definition data_blocks :: "endian \<Rightarrow> s_spcl \<Rightarrow> nat" where
  "data_blocks e s =
     (if c_type s = TS_CLRI \<or> c_type s = TS_BITS then nat (sint (c_count s))
      else if c_type s \<noteq> TS_END
           then length (filter (\<lambda>b. b \<noteq> 0) (take (nat (sint (c_count s))) (c_addr_mem e s)))
           else 0)"

definition account :: "tcfg \<Rightarrow> slave_results \<Rightarrow> int \<Rightarrow> writer \<Rightarrow> writer" where
  "account cfg ret lastfirstrec w =
     (let n = lastspclrec w + int (data_blocks (byte_order cfg) (spcl w)) + 1
              - sint (c_tapea (spcl w));
          w = set_slave (\<lambda>s. s\<lparr>s_count := n, s_tapea := sint (c_tapea (spcl w)),
                s_firstrec := lastfirstrec + int (ntrec cfg), s_inode := cur_inode w,
                tblock := [], sreq := []\<rparr>) w
      in w\<lparr>trecno := 0, asize := asize w + tenths cfg + c_div (clen ret) (density cfg),
           blockswritten := blockswritten w + int (ntrec cfg),
           blocksthisvol := blocksthisvol w + int (ntrec cfg)\<rparr>)"

text \<open>
  Whether the volume is full: by the sizes given with \<open>-B\<close> (element 0 is their number), or by the
  estimated length of tape.  \<open>sizeof(struct tapebuf)\<close> is 4.
\<close>

definition volume_full :: "tcfg \<Rightarrow> writer \<Rightarrow> bool" where
  "volume_full cfg w \<longleftrightarrow> \<not> pipeout cfg \<and> \<not> unlimited cfg \<and>
     (case blocksperfiles cfg of
        Some bpf \<Rightarrow>
          if bpf ! blocksperfiles_current w \<noteq> 0 then
            (if compressed cfg
             then bytes_written w - tapea_bytes w + int SLAVES * (writesize cfg + 4)
                    \<ge> bpf ! blocksperfiles_current w * 1024
             else blocksthisvol w \<ge> bpf ! blocksperfiles_current w)
          else asize w > tsize cfg
      | None \<Rightarrow> asize w > tsize cfg)"


section \<open>Changing the volume\<close>

text \<open>\<open>trewind\<close>: the answers still owed are read, in the order of the slaves.\<close>

fun trewind :: "tcfg \<Rightarrow> nat list \<Rightarrow> writer \<Rightarrow> tape_stop + writer" where
  "trewind cfg [] w = Inr w"
| "trewind cfg (f # fs) w =
     (if sent (slaves w ! f) then
        bindE (read_result cfg w) (\<lambda>(r, w).
          let w = w\<lparr>slaves := (slaves w)[f := (slaves w ! f)\<lparr>sent := False\<rparr>]\<rparr>
          in bindE (if unclen r < 0 then tperror cfg w else Inr ()) (\<lambda>_.
             if unclen r = 0 then Inl (Quit X_ABORT) else trewind cfg fs w))
      else trewind cfg fs w)"

definition close_rewind :: "tcfg \<Rightarrow> writer \<Rightarrow> tape_stop + writer" where
  "close_rewind cfg w =
     bindE (trewind cfg [0..<SLAVES] w) (\<lambda>w.
       if mounted cfg (tapeno w + 1) then Inr w else Inl (Quit X_ABORT))"

text \<open>
  \<open>writerec\<close> with the flush that it calls as an argument, for the recursion through the volume
  header that \<open>startnewtape\<close> writes; \<open>isspcl\<close> notes the address of a header.
\<close>

definition queue_record :: "byte list \<Rightarrow> bool \<Rightarrow> writer \<Rightarrow> writer" where
  "queue_record dp isspcl w =
     (let w = set_slave (\<lambda>s. s\<lparr>sreq := sreq s @ [\<lparr> dblk = 0, req_count = 1 \<rparr>],
                              tblock := tblock s @ [dp]\<rparr>) w;
          w = (if isspcl then w\<lparr>lastspclrec := sint (c_tapea (spcl w))\<rparr> else w)
      in w\<lparr>trecno := trecno w + 1, spcl := (spcl w)\<lparr>c_tapea := c_tapea (spcl w) + 1\<rparr>\<rparr>)"

definition flush_if_full :: "tcfg \<Rightarrow> (writer \<Rightarrow> tape_stop + writer) \<Rightarrow> writer \<Rightarrow> tape_stop + writer" where
  "flush_if_full cfg flush w = (if trecno w \<ge> ntrec cfg then flush w else Inr w)"

definition writerec_with :: "tcfg \<Rightarrow> (writer \<Rightarrow> tape_stop + writer) \<Rightarrow> byte list \<Rightarrow> bool \<Rightarrow> writer
    \<Rightarrow> tape_stop + writer" where
  "writerec_with cfg flush dp isspcl w = flush_if_full cfg flush (queue_record dp isspcl w)"

definition writeheader_with :: "tcfg \<Rightarrow> (writer \<Rightarrow> tape_stop + writer) \<Rightarrow> dump_ino_t \<Rightarrow> writer
    \<Rightarrow> tape_stop + writer" where
  "writeheader_with cfg flush ino w =
     (let w = w\<lparr>spcl := mkchecksum (byte_order cfg)
                  ((spcl w)\<lparr>c_inumber := ino, c_magic := NFS_MAGIC\<rparr>)\<rparr>
      in writerec_with cfg flush (encode_spcl (byte_order cfg) (spcl w)) True w)"

text \<open>
  \<open>startnewtape\<close> in the child process that goes on with the dump, once the output is open: the
  slaves are started afresh and the volume header is written.
\<close>

definition new_volume :: "tcfg \<Rightarrow> bool \<Rightarrow> writer \<Rightarrow> writer" where
  "new_volume cfg top_vol w =
     (let w = w\<lparr>tapea_bytes := bytes_written w, tapeno := tapeno w + 1\<rparr>;
          w = w\<lparr>blocksperfiles_current :=
                 (case blocksperfiles cfg of
                    Some bpf \<Rightarrow> if int (blocksperfiles_current w) < bpf ! 0
                                then blocksperfiles_current w + 1 else blocksperfiles_current w
                  | None \<Rightarrow> blocksperfiles_current w)\<rparr>;
          w = w\<lparr>slaves := map (\<lambda>s. s\<lparr>sent := False\<rparr>) (slaves w), asize := 0, blocksthisvol := 0,
                newtape := (newtape w \<or> top_vol)\<rparr>
      in w\<lparr>spcl := (spcl w)\<lparr>c_count := word_of_int (s_count (cur_slave w)),
             c_firstrec := word_of_int (s_firstrec (cur_slave w)),
             c_volume := c_volume (spcl w) + 1, c_type := TS_TAPE,
             c_flags := (c_flags (spcl w) OR DR_NEWHEADER)
                        OR (if compressed cfg then DR_COMPRESSED else 0),
             c_ntrec := of_nat (ntrec cfg)\<rparr>\<rparr>)"

definition volume_started :: "writer \<Rightarrow> writer" where
  "volume_started w =
     (let w = w\<lparr>spcl := (spcl w)\<lparr>c_flags := c_flags (spcl w) AND NOT DR_NEWHEADER\<rparr>\<rparr>
      in if tapeno w < TP_NINOS
         then w\<lparr>volinfo := (volinfo w)[tapeno w := s_inode (cur_slave w)]\<rparr> else w)"

definition startnewtape_with :: "tcfg \<Rightarrow> (writer \<Rightarrow> tape_stop + writer) \<Rightarrow> bool \<Rightarrow> writer
    \<Rightarrow> tape_stop + writer" where
  "startnewtape_with cfg flush top_vol w =
     (let w = new_volume cfg top_vol w
      in bindE (writeheader_with cfg flush (s_inode (cur_slave w)) w) (\<lambda>w. Inr (volume_started w)))"

primrec flushtape_fuel :: "tcfg \<Rightarrow> nat \<Rightarrow> writer \<Rightarrow> tape_stop + writer" where
  "flushtape_fuel cfg 0 w =
     bindE (next_result cfg (send_block w)) (\<lambda>(ret, w').
       let w' = account cfg ret (s_firstrec (cur_slave w)) w'
       in if volume_full cfg w' then Inl Nested else Inr w')"
| "flushtape_fuel cfg (Suc n) w =
     bindE (next_result cfg (send_block w)) (\<lambda>(ret, w').
       let w' = account cfg ret (s_firstrec (cur_slave w)) w'
       in if volume_full cfg w'
          then bindE (close_rewind cfg w') (startnewtape_with cfg (flushtape_fuel cfg n) False)
          else Inr w')"

definition flushtape :: "tcfg \<Rightarrow> writer \<Rightarrow> tape_stop + writer" where
  "flushtape cfg = flushtape_fuel cfg (nested cfg)"

definition writerec :: "tcfg \<Rightarrow> byte list \<Rightarrow> bool \<Rightarrow> writer \<Rightarrow> tape_stop + writer" where
  "writerec cfg = writerec_with cfg (flushtape cfg)"

definition writeheader :: "tcfg \<Rightarrow> dump_ino_t \<Rightarrow> writer \<Rightarrow> tape_stop + writer" where
  "writeheader cfg = writeheader_with cfg (flushtape cfg)"

definition startnewtape :: "tcfg \<Rightarrow> bool \<Rightarrow> writer \<Rightarrow> tape_stop + writer" where
  "startnewtape cfg = startnewtape_with cfg (flushtape cfg)"


section \<open>Requests for disk blocks\<close>

text \<open>
  The loop of \<open>dumpblock\<close>: as many records as fit into the current block go into one request; a
  record is two sectors.
\<close>

definition queue_request :: "nat \<Rightarrow> nat \<Rightarrow> writer \<Rightarrow> writer" where
  "queue_request dblkno avail w =
     (let w = set_slave (\<lambda>s. s\<lparr>sreq := sreq s @ [\<lparr> dblk = dblkno, req_count = avail \<rparr>]\<rparr>) w
      in w\<lparr>trecno := trecno w + avail,
           spcl := (spcl w)\<lparr>c_tapea := c_tapea (spcl w) + of_nat avail\<rparr>\<rparr>)"

function dumpblock_loop :: "tcfg \<Rightarrow> nat \<Rightarrow> nat \<Rightarrow> writer \<Rightarrow> tape_stop + writer" where
  "dumpblock_loop cfg dblkno tpblks w =
     (let avail = min tpblks (ntrec cfg - trecno w)
      in if avail > 0 then
           bindE (flush_if_full cfg (flushtape cfg) (queue_request dblkno avail w))
             (dumpblock_loop cfg (dblkno + avail * 2) (tpblks - avail))
         else Inr w)"
  by pat_completeness auto
termination by (relation "measure (\<lambda>(cfg, dblkno, tpblks, w). tpblks)") auto

definition fsbtodb :: "nat \<Rightarrow> nat \<Rightarrow> nat" where
  "fsbtodb bsize b = b * bsize div 512"

definition dumpblock :: "tcfg \<Rightarrow> nat \<Rightarrow> nat \<Rightarrow> nat \<Rightarrow> writer \<Rightarrow> tape_stop + writer" where
  "dumpblock cfg bsize blkno sz = dumpblock_loop cfg (fsbtodb bsize blkno) (sz div TP_BSIZE)"


section \<open>The work of a slave\<close>

text \<open>
  The disk as the slave sees it: \<open>rd_disk off n\<close> are the bytes that \<open>read\<close> delivers at a byte
  offset (\<open>None\<close> is an error), \<open>disk_end\<close> is \<open>fsbtodb(fs_size)\<close>, \<open>breademax\<close> the number of errors
  after which the operator is asked, and \<open>continue_errors\<close> his answer.
\<close>

record disk =
  rd_disk :: "nat \<Rightarrow> nat \<Rightarrow> byte list option"
  disk_end :: nat
  breademax :: nat
  continue_errors :: bool

definition overlay :: "byte list \<Rightarrow> nat \<Rightarrow> byte list \<Rightarrow> byte list" where
  "overlay buf off bs = take off buf @ bs @ drop (off + length bs) buf"

text \<open>Reading each sector of the zeroed buffer separately; what cannot be read stays zero.\<close>

fun bread_sectors :: "disk \<Rightarrow> nat \<Rightarrow> nat \<Rightarrow> byte list" where
  "bread_sectors d blkno 0 = []"
| "bread_sectors d blkno (Suc n) =
     overlay (replicate 512 0) 0 (case rd_disk d (blkno * 512) 512 of Some bs \<Rightarrow> bs | None \<Rightarrow> [])
     @ bread_sectors d (blkno + 1) n"

text \<open>
  \<open>bread\<close>: \<open>buf\<close> is the buffer before and after, \<open>errs\<close> the global \<open>breaderrors\<close>, \<open>n\<close> the size in
  sectors.  A read past the end of the file system is tried again one sector shorter.
\<close>

fun bread :: "disk \<Rightarrow> nat \<Rightarrow> nat \<Rightarrow> byte list \<times> nat \<Rightarrow> tape_stop + byte list \<times> nat" where
  "bread d blkno 0 (buf, errs) = Inr (buf, errs)"
| "bread d blkno (Suc n) (buf, errs) =
     (let got = rd_disk d (blkno * 512) (Suc n * 512);
          buf' = (case got of Some bs \<Rightarrow> overlay buf 0 bs | None \<Rightarrow> buf)
      in if (case got of Some bs \<Rightarrow> length bs = Suc n * 512 | None \<Rightarrow> False) then Inr (buf', errs)
         else if blkno + Suc n > disk_end d then bread d blkno n (buf', errs)
         else
           let errs = (if breademax d \<noteq> 0 then errs + 1 else errs)
           in if breademax d \<noteq> 0 \<and> errs > breademax d \<and> \<not> continue_errors d
              then Inl (Quit X_ABORT)
              else Inr (overlay buf' 0 (bread_sectors d blkno (Suc n)),
                        if breademax d \<noteq> 0 \<and> errs > breademax d then 0 else errs))"

text \<open>
  The loop of \<open>doslave\<close> over the requests of a block: \<open>buf\<close> is its tape buffer, which still holds
  the previous block, \<open>data\<close> the records that come through the pipe.
\<close>

fun slave_fill :: "tcfg \<Rightarrow> disk \<Rightarrow> req list \<Rightarrow> byte list list \<Rightarrow> nat \<Rightarrow> byte list \<times> nat
    \<Rightarrow> tape_stop + byte list \<times> nat" where
  "slave_fill cfg d [] data k (buf, errs) =
     (if k < ntrec cfg then Inl (Quit X_ABORT) else Inr (buf, errs))"
| "slave_fill cfg d (p # ps) data k (buf, errs) =
     (if k < ntrec cfg then
        (if dblk p \<noteq> 0 then
           bindE (bread d (dblk p) (req_count p * 2) (at buf (k * TP_BSIZE) (req_count p * TP_BSIZE), errs))
             (\<lambda>(bs, errs). slave_fill cfg d ps data (k + req_count p)
                             (overlay buf (k * TP_BSIZE) bs, errs))
         else
           (case data of
              [] \<Rightarrow> Inl (Quit X_ABORT)
            | r # rs \<Rightarrow> if req_count p \<noteq> 1 then Inl (Quit X_ABORT)
                        else slave_fill cfg d ps rs (k + req_count p)
                               (overlay buf (k * TP_BSIZE) r, errs)))
      else Inr (buf, errs))"

text \<open>The outcomes of one \<open>write\<close> to the tape: bytes written, no space, or an error number.\<close>

datatype write_result = Wrote nat | No_Space | Failed nat

text \<open>
  The writing of a block: at most ten ends of tape, then the sizes that go back to the master.
  The result pairs them with the number of bytes that reached the tape.
\<close>

fun write_loop :: "write_result list \<Rightarrow> nat \<Rightarrow> nat \<Rightarrow> nat \<Rightarrow> (nat \<times> nat \<times> write_result) option" where
  "write_loop ws bsize pos eots =
     (if eots < 10 \<and> pos < bsize then
        (case ws of
           [] \<Rightarrow> None
         | Failed e # _ \<Rightarrow> Some (pos, eots, Failed e)
         | No_Space # ws \<Rightarrow>
             (if eots + 1 < 10 then write_loop ws bsize pos (eots + 1) else Some (pos, eots + 1, No_Space))
         | Wrote n # ws \<Rightarrow>
             (let eots = (if n = 0 then eots + 1 else eots)
              in if eots < 10 \<and> pos + n < bsize then write_loop ws bsize (pos + n) eots
                 else Some (pos + n, eots, Wrote n)))
      else Some (pos, eots, Wrote 0))"

definition slave_write :: "write_result list \<Rightarrow> slave_results \<Rightarrow> nat \<Rightarrow> (slave_results \<times> nat) option" where
  "slave_write ws returns bsize =
     map_option (\<lambda>(pos, eots, wrote).
       let eots = (if wrote = No_Space then eots + 1 else eots);
           returns = (if eots > 0 then \<lparr> unclen = 0, clen = 0 \<rparr> else returns);
           returns = (case wrote of Failed e \<Rightarrow> returns\<lparr>unclen := - int e\<rparr> | _ \<Rightarrow> returns)
       in (returns, pos)) (write_loop ws bsize 0 0)"

text \<open>
  The word in front of a block of a compressed dump (\<open>struct tapebuf\<close>, its bit fields allocated
  from the low end), and the bytes to write with the sizes to report.  \<open>compress\<close> stands for the
  transformation (\<open>None\<close> when it fails); the first block of a slave is never compressed.
\<close>

definition tapebuf_word :: "bool \<Rightarrow> nat \<Rightarrow> nat \<Rightarrow> u32" where
  "tapebuf_word c fl n = of_bool c OR push_bit 1 (take_bit 3 (of_nat fl)) OR push_bit 4 (of_nat n)"

definition slave_buffer :: "tcfg \<Rightarrow> nat \<Rightarrow> (byte list \<Rightarrow> byte list option) \<Rightarrow> bool \<Rightarrow> byte list
    \<Rightarrow> byte list \<times> slave_results" where
  "slave_buffer cfg fl compress do_compress blk =
     (let n = ntrec cfg * TP_BSIZE
      in if compressed cfg \<and> do_compress then
           (case compress blk of
              Some z \<Rightarrow>
                if int (length z) \<le> int n - 16
                then (put (byte_order cfg) 4 (tapebuf_word True fl (length z)) @ z,
                      \<lparr> unclen = int n, clen = int (length z) + 4 \<rparr>)
                else (put (byte_order cfg) 4 (tapebuf_word False fl n) @ blk,
                      \<lparr> unclen = int n + 4, clen = int n + 4 \<rparr>)
            | None \<Rightarrow> (put (byte_order cfg) 4 (tapebuf_word False fl n) @ blk,
                      \<lparr> unclen = int n + 4, clen = int n + 4 \<rparr>))
         else (blk, \<lparr> unclen = int n, clen = int n \<rparr>))"


section \<open>Well-formed writers\<close>

text \<open>
  The requests of a block and its records agree, and the requests cover \<open>k\<close> places of the block.
\<close>

definition reqs_ok :: "req list \<Rightarrow> byte list list \<Rightarrow> nat \<Rightarrow> bool" where
  "reqs_ok rq tb k \<longleftrightarrow> length (filter (\<lambda>p. dblk p = 0) rq) = length tb
     \<and> (\<forall>p \<in> set rq. 0 < req_count p \<and> (dblk p = 0 \<longrightarrow> req_count p = 1))
     \<and> sum_list (map req_count rq) = k"

definition blocks_ok :: "tcfg \<Rightarrow> writer \<Rightarrow> bool" where
  "blocks_ok cfg w \<longleftrightarrow>
     0 < ntrec cfg \<and> slp w < SLAVES \<and> length (slaves w) = SLAVES \<and> wf_spcl (spcl w)
     \<and> reqs_ok (sreq (cur_slave w)) (tblock (cur_slave w)) (trecno w)
     \<and> (\<forall>c \<in> set (commands w). reqs_ok (cmd_req c) (cmd_tblock c) (ntrec cfg))
     \<and> c_tapea (spcl w) = of_nat (ntrec cfg * length (commands w) + trecno w)
     \<and> s_firstrec (cur_slave w) = int (ntrec cfg * length (commands w))"

text \<open>Between two operations the current block still has room.\<close>

definition winv :: "tcfg \<Rightarrow> writer \<Rightarrow> bool" where
  "winv cfg w \<longleftrightarrow> blocks_ok cfg w \<and> trecno w < ntrec cfg"

named_theorems writer_simps \<open>components of the writer after an update\<close>

lemma set_slave_fields [writer_simps]:
  "spcl (set_slave f w) = spcl w" "lastspclrec (set_slave f w) = lastspclrec w"
  "trecno (set_slave f w) = trecno w" "slp (set_slave f w) = slp w"
  "commands (set_slave f w) = commands w" "nread (set_slave f w) = nread w"
  "bytes_written (set_slave f w) = bytes_written w" "tapeno (set_slave f w) = tapeno w"
  "newtape (set_slave f w) = newtape w" "cur_inode (set_slave f w) = cur_inode w"
  "length (slaves (set_slave f w)) = length (slaves w)"
  "asize (set_slave f w) = asize w" "blocksthisvol (set_slave f w) = blocksthisvol w"
  "blockswritten (set_slave f w) = blockswritten w" "volinfo (set_slave f w) = volinfo w"
  "blocksperfiles_current (set_slave f w) = blocksperfiles_current w"
  "tapea_bytes (set_slave f w) = tapea_bytes w" "uncomprblks (set_slave f w) = uncomprblks w"
  by (simp_all add: set_slave_def)

lemma cur_set_slave [writer_simps]:
  "slp w < length (slaves w) \<Longrightarrow> cur_slave (set_slave f w) = f (cur_slave w)"
  by (simp add: set_slave_def cur_slave_def)

lemma cur_slave_updates [writer_simps]:
  "cur_slave (w\<lparr>spcl := a\<rparr>) = cur_slave w" "cur_slave (w\<lparr>trecno := b\<rparr>) = cur_slave w"
  "cur_slave (w\<lparr>lastspclrec := c\<rparr>) = cur_slave w" "cur_slave (w\<lparr>nread := d\<rparr>) = cur_slave w"
  "cur_slave (w\<lparr>bytes_written := e\<rparr>) = cur_slave w" "cur_slave (w\<lparr>uncomprblks := e\<rparr>) = cur_slave w"
  "cur_slave (w\<lparr>asize := e\<rparr>) = cur_slave w" "cur_slave (w\<lparr>blockswritten := e\<rparr>) = cur_slave w"
  "cur_slave (w\<lparr>blocksthisvol := e\<rparr>) = cur_slave w" "cur_slave (w\<lparr>tapea_bytes := e\<rparr>) = cur_slave w"
  "cur_slave (w\<lparr>tapeno := b\<rparr>) = cur_slave w" "cur_slave (w\<lparr>volinfo := v\<rparr>) = cur_slave w"
  "cur_slave (w\<lparr>commands := cs\<rparr>) = cur_slave w" "cur_slave (w\<lparr>newtape := nt\<rparr>) = cur_slave w"
  "cur_slave (w\<lparr>blocksperfiles_current := b\<rparr>) = cur_slave w"
  "cur_slave (w\<lparr>cur_inode := i\<rparr>) = cur_slave w"
  by (simp_all add: cur_slave_def)

lemma wf_spcl_fields [simp]:
  "wf_spcl (s\<lparr>c_tapea := a\<rparr>) = wf_spcl s" "wf_spcl (s\<lparr>c_count := a\<rparr>) = wf_spcl s"
  "wf_spcl (s\<lparr>c_firstrec := a\<rparr>) = wf_spcl s" "wf_spcl (s\<lparr>c_volume := a\<rparr>) = wf_spcl s"
  "wf_spcl (s\<lparr>c_type := a\<rparr>) = wf_spcl s" "wf_spcl (s\<lparr>c_flags := a\<rparr>) = wf_spcl s"
  "wf_spcl (s\<lparr>c_ntrec := a\<rparr>) = wf_spcl s" "wf_spcl (s\<lparr>c_inumber := a\<rparr>) = wf_spcl s"
  "wf_spcl (s\<lparr>c_magic := a\<rparr>) = wf_spcl s" "wf_spcl (s\<lparr>c_extattributes := a\<rparr>) = wf_spcl s"
  by (simp_all add: wf_spcl_def)

lemma reqs_ok_Nil: "reqs_ok [] [] 0"
  by (simp add: reqs_ok_def)

lemma reqs_ok_rec: "reqs_ok rq tb k \<Longrightarrow> reqs_ok (rq @ [\<lparr> dblk = 0, req_count = 1 \<rparr>]) (tb @ [r]) (Suc k)"
  by (auto simp: reqs_ok_def)

lemma reqs_ok_disk:
  "reqs_ok rq tb k \<Longrightarrow> b \<noteq> 0 \<Longrightarrow> 0 < n \<Longrightarrow> reqs_ok (rq @ [\<lparr> dblk = b, req_count = n \<rparr>]) tb (n + k)"
  by (auto simp: reqs_ok_def)

text \<open>What sending and accounting do to a well-formed writer with a full block.\<close>

definition same_vol :: "writer \<Rightarrow> writer \<Rightarrow> bool" where
  "same_vol w w' \<longleftrightarrow> spcl w' = spcl w \<and> lastspclrec w' = lastspclrec w \<and> tapeno w' = tapeno w
     \<and> newtape w' = newtape w \<and> cur_inode w' = cur_inode w"

definition sent_block :: "writer \<Rightarrow> command" where
  "sent_block w = \<lparr> cmd_volume = tapeno w, cmd_slave = slp w, cmd_req = sreq (cur_slave w),
     cmd_tblock = tblock (cur_slave w) \<rparr>"

lemma send_block_props:
  assumes "blocks_ok cfg w"
  shows "slp (send_block w) < SLAVES" "length (slaves (send_block w)) = SLAVES"
    "commands (send_block w) = commands w @ [sent_block w]" "same_vol w (send_block w)"
  using assms by (auto simp: send_block_def Let_def blocks_ok_def SLAVES_def same_vol_def writer_simps
      sent_block_def)

lemma read_result_props:
  "read_result cfg w = Inr (r, w') \<Longrightarrow> results cfg (nread w) = Some r
     \<and> same_vol w w' \<and> slaves w' = slaves w \<and> slp w' = slp w \<and> commands w' = commands w"
  by (auto simp: read_result_def same_vol_def split: option.splits)

lemma next_result_props:
  assumes "next_result cfg w = Inr (r, w')"
  shows "same_vol w w' \<and> length (slaves w') = length (slaves w) \<and> slp w' = slp w
    \<and> commands w' = commands w"
  using assms
  by (auto simp: next_result_def Let_def bindE_Inr_iff writer_simps same_vol_def
      dest!: read_result_props split: if_splits)

lemma account_props:
  assumes "slp w < SLAVES" "length (slaves w) = SLAVES"
  shows "same_vol w (account cfg r l w)" "slp (account cfg r l w) = slp w"
    "length (slaves (account cfg r l w)) = SLAVES" "commands (account cfg r l w) = commands w"
    "trecno (account cfg r l w) = 0" "sreq (cur_slave (account cfg r l w)) = []"
    "tblock (cur_slave (account cfg r l w)) = []"
    "s_firstrec (cur_slave (account cfg r l w)) = l + int (ntrec cfg)"
    "s_inode (cur_slave (account cfg r l w)) = cur_inode w"
    "s_count (cur_slave (account cfg r l w)) = lastspclrec w
       + int (data_blocks (byte_order cfg) (spcl w)) + 1 - sint (c_tapea (spcl w))"
  using assms by (simp_all add: account_def Let_def writer_simps same_vol_def)

lemma flush_step:
  assumes ok: "blocks_ok cfg w" and full: "trecno w = ntrec cfg"
    and nr: "next_result cfg (send_block w) = Inr (r, w1)"
  shows "winv cfg (account cfg r (s_firstrec (cur_slave w)) w1)"
    and "trecno (account cfg r (s_firstrec (cur_slave w)) w1) = 0"
    and "commands (account cfg r (s_firstrec (cur_slave w)) w1) = commands w @ [sent_block w]"
    and "same_vol w (account cfg r (s_firstrec (cur_slave w)) w1)"
proof -
  note sb = send_block_props [OF ok] and np = next_result_props [OF nr]
  have l: "slp w1 < SLAVES" "length (slaves w1) = SLAVES" using sb np by auto
  note ac = account_props [OF l, of cfg r "s_firstrec (cur_slave w)"]
  show cm: "commands (account cfg r (s_firstrec (cur_slave w)) w1) = commands w @ [sent_block w]"
    using ac np sb by simp
  show sv: "same_vol w (account cfg r (s_firstrec (cur_slave w)) w1)"
    using ac(1) np sb(4) by (simp add: same_vol_def)
  show "trecno (account cfg r (s_firstrec (cur_slave w)) w1) = 0" by (rule ac(5))
  define a where "a = account cfg r (s_firstrec (cur_slave w)) w1"
  have "reqs_ok (cmd_req (sent_block w)) (cmd_tblock (sent_block w)) (ntrec cfg)"
    using ok full by (simp add: sent_block_def blocks_ok_def)
  moreover have "commands a = commands w @ [sent_block w]" "slp a = slp w1" "length (slaves a) = SLAVES"
    "trecno a = 0" "sreq (cur_slave a) = []" "tblock (cur_slave a) = []" "spcl a = spcl w"
    "s_firstrec (cur_slave a) = s_firstrec (cur_slave w) + int (ntrec cfg)"
    using cm ac sv unfolding a_def by (simp_all add: same_vol_def)
  ultimately have "winv cfg a"
    using ok full l(1) by (simp add: winv_def blocks_ok_def reqs_ok_Nil algebra_simps)
  then show "winv cfg (account cfg r (s_firstrec (cur_slave w)) w1)" by (simp add: a_def)
qed


text \<open>Closing a volume reads answers only; the buffers stay as they are.\<close>

definition unsent :: "slave \<Rightarrow> slave" where
  "unsent s = s\<lparr>sent := False\<rparr>"

lemma unsent_fields [simp]:
  "tblock (unsent s) = tblock s" "sreq (unsent s) = sreq s" "s_count (unsent s) = s_count s"
  "s_firstrec (unsent s) = s_firstrec s" "s_inode (unsent s) = s_inode s" "unsent (unsent s) = unsent s"
  "unsent (s\<lparr>sent := b\<rparr>) = unsent s"
  by (simp_all add: unsent_def)

definition closing :: "writer \<Rightarrow> writer \<Rightarrow> bool" where
  "closing w w' \<longleftrightarrow> same_vol w w' \<and> slp w' = slp w \<and> commands w' = commands w \<and> trecno w' = trecno w
     \<and> map unsent (slaves w') = map unsent (slaves w)"

lemma closing_refl: "closing w w"
  by (simp add: closing_def same_vol_def)

lemma closing_trans: "closing a b \<Longrightarrow> closing b c \<Longrightarrow> closing a c"
  by (simp add: closing_def same_vol_def)

lemma read_result_closing: "read_result cfg w = Inr (r, w') \<Longrightarrow> closing w w'"
  by (auto simp: read_result_def closing_def same_vol_def split: option.splits)

lemma map_unsent_update: "map unsent (ss[f := (ss ! f)\<lparr>sent := b\<rparr>]) = map unsent ss"
  by (cases "f < length ss") (simp_all add: map_update list_update_same_conv)

lemma trewind_closing: "trewind cfg fs w = Inr w' \<Longrightarrow> closing w w'"
proof (induction fs arbitrary: w)
  case Nil
  then show ?case by (simp add: closing_refl)
next
  case (Cons f fs)
  show ?case
  proof (cases "sent (slaves w ! f)")
    case False
    then show ?thesis using Cons by simp
  next
    case True
    then obtain r w1 where r: "read_result cfg w = Inr (r, w1)"
      and t: "trewind cfg fs (w1\<lparr>slaves := (slaves w1)[f := (slaves w1 ! f)\<lparr>sent := False\<rparr>]\<rparr>) = Inr w'"
      using Cons.prems by (auto simp: bindE_Inr_iff Let_def split: if_splits)
    have "closing w1 (w1\<lparr>slaves := (slaves w1)[f := (slaves w1 ! f)\<lparr>sent := False\<rparr>]\<rparr>)"
      by (simp add: closing_def same_vol_def map_unsent_update)
    then show ?thesis
      using Cons.IH [OF t] read_result_closing [OF r] by (blast intro: closing_trans)
  qed
qed

lemma close_rewind_closing: "close_rewind cfg w = Inr w' \<Longrightarrow> closing w w'"
  by (auto simp: close_rewind_def bindE_Inr_iff dest: trewind_closing split: if_splits)

lemma closing_cur:
  assumes "closing w w'" "slp w < length (slaves w)"
  shows "length (slaves w') = length (slaves w)" "unsent (cur_slave w') = unsent (cur_slave w)"
proof -
  show l: "length (slaves w') = length (slaves w)"
    using assms(1) by (metis closing_def length_map)
  show "unsent (cur_slave w') = unsent (cur_slave w)"
    using assms l by (metis closing_def cur_slave_def nth_map)
qed

lemma unsent_eqD:
  "unsent s = unsent t \<Longrightarrow> sreq s = sreq t \<and> tblock s = tblock t \<and> s_firstrec s = s_firstrec t
     \<and> s_count s = s_count t \<and> s_inode s = s_inode t"
  by (metis unsent_fields)

lemma closing_blocks_ok:
  assumes "closing w w'" "blocks_ok cfg w"
  shows "blocks_ok cfg w'"
  using assms closing_cur [OF assms(1)] unsent_eqD [OF closing_cur(2) [OF assms(1)]]
  by (auto simp: blocks_ok_def closing_def same_vol_def)


text \<open>Queueing keeps the writer well-formed, but may fill the block.\<close>

lemma queue_record_ok:
  assumes "winv cfg w"
  shows "blocks_ok cfg (queue_record dp isspcl w)" "trecno (queue_record dp isspcl w) \<le> ntrec cfg"
    "commands (queue_record dp isspcl w) = commands w"
  using assms
  by (auto simp: queue_record_def Let_def winv_def blocks_ok_def writer_simps reqs_ok_rec [simplified]
      algebra_simps)

lemma queue_request_ok:
  assumes "winv cfg w" "dblkno \<noteq> 0" "0 < avail" "avail \<le> ntrec cfg - trecno w"
  shows "blocks_ok cfg (queue_request dblkno avail w)" "trecno (queue_request dblkno avail w) \<le> ntrec cfg"
    "commands (queue_request dblkno avail w) = commands w"
  using assms
  by (auto simp: queue_request_def Let_def winv_def blocks_ok_def writer_simps reqs_ok_disk
      algebra_simps)


section \<open>The contract of a flush\<close>

text \<open>
  What the rest of the writer relies on: a flush that returns has sent the full block first and
  leaves a well-formed writer with room.
\<close>

locale block_flush =
  fixes cfg :: tcfg and flush :: "writer \<Rightarrow> tape_stop + writer"
  assumes flush_winv:
      "blocks_ok cfg w \<Longrightarrow> trecno w = ntrec cfg \<Longrightarrow> flush w = Inr w' \<Longrightarrow> winv cfg w'"
    and flush_sends:
      "blocks_ok cfg w \<Longrightarrow> trecno w = ntrec cfg \<Longrightarrow> flush w = Inr w' \<Longrightarrow>
         \<exists>cs. commands w' = commands w @ sent_block w # cs"
begin

lemma flush_if_full_keeps:
  assumes "blocks_ok cfg w" "trecno w \<le> ntrec cfg" "flush_if_full cfg flush w = Inr w'"
  shows "winv cfg w'" "\<exists>cs. commands w' = commands w @ cs"
  using assms flush_winv [of w w'] flush_sends [of w w']
  by (auto simp: winv_def flush_if_full_def split: if_splits)

lemma writerec_keeps:
  assumes w: "winv cfg w" and r: "writerec_with cfg flush dp isspcl w = Inr w'"
  shows "winv cfg w'" "\<exists>cs. commands w' = commands w @ cs"
  using flush_if_full_keeps [of "queue_record dp isspcl w" w'] queue_record_ok [OF w, of dp isspcl] r
  by (simp_all add: writerec_with_def)

lemma writeheader_keeps:
  assumes w: "winv cfg w" and r: "writeheader_with cfg flush ino w = Inr w'"
  shows "winv cfg w'" "\<exists>cs. commands w' = commands w @ cs"
proof -
  let ?w1 = "w\<lparr>spcl := mkchecksum (byte_order cfg) ((spcl w)\<lparr>c_inumber := ino, c_magic := NFS_MAGIC\<rparr>)\<rparr>"
  have "c_tapea (mkchecksum e s) = c_tapea s" for e s by (simp add: mkchecksum_def Let_def)
  then have "winv cfg ?w1" using w by (simp add: winv_def blocks_ok_def writer_simps)
  then show "winv cfg w'" "\<exists>cs. commands w' = commands w @ cs"
    using writerec_keeps [of ?w1 _ True w'] r by (simp_all add: writeheader_with_def Let_def)
qed


lemma new_volume_keeps:
  assumes w: "winv cfg w"
  shows "winv cfg (new_volume cfg top_vol w)" "commands (new_volume cfg top_vol w) = commands w"
    "cur_slave (new_volume cfg top_vol w) = unsent (cur_slave w)"
proof -
  have l: "slp w < length (slaves w)" using w by (simp add: winv_def blocks_ok_def)
  show c: "cur_slave (new_volume cfg top_vol w) = unsent (cur_slave w)"
    using l by (simp add: new_volume_def Let_def cur_slave_def unsent_def)
  show "commands (new_volume cfg top_vol w) = commands w"
    by (simp add: new_volume_def Let_def)
  show "winv cfg (new_volume cfg top_vol w)"
    using w c unfolding winv_def blocks_ok_def
    by (simp add: new_volume_def Let_def)
qed

lemma volume_started_keeps:
  "winv cfg (volume_started w) = winv cfg w" "commands (volume_started w) = commands w"
  by (simp_all add: volume_started_def Let_def winv_def blocks_ok_def writer_simps)

lemma startnewtape_keeps:
  assumes w: "winv cfg w" and r: "startnewtape_with cfg flush top_vol w = Inr w'"
  shows "winv cfg w'" "\<exists>cs. commands w' = commands w @ cs"
proof -
  obtain w2 where h: "writeheader_with cfg flush (s_inode (cur_slave (new_volume cfg top_vol w)))
        (new_volume cfg top_vol w) = Inr w2" and w': "w' = volume_started w2"
    using r by (auto simp: startnewtape_with_def Let_def bindE_Inr_iff)
  note nv = new_volume_keeps [OF w, of top_vol]
  show "winv cfg w'" "\<exists>cs. commands w' = commands w @ cs"
    using writeheader_keeps [OF nv(1) h] nv(2) w' by (simp_all add: volume_started_keeps)
qed

end

lemma flushtape_fuel_contract: "block_flush cfg (flushtape_fuel cfg n)"
proof (induction n)
  case 0
  show ?case
  proof
    fix w w'
    assume ok: "blocks_ok cfg w" "trecno w = ntrec cfg" and f: "flushtape_fuel cfg 0 w = Inr w'"
    then obtain r w1 where nr: "next_result cfg (send_block w) = Inr (r, w1)"
      and w': "w' = account cfg r (s_firstrec (cur_slave w)) w1"
      by (auto simp: bindE_Inr_iff Let_def split: if_splits)
    show "winv cfg w'" "\<exists>cs. commands w' = commands w @ sent_block w # cs"
      using flush_step [OF ok nr] w' by simp_all
  qed
next
  case (Suc n)
  show ?case
  proof
    fix w w'
    assume ok: "blocks_ok cfg w" "trecno w = ntrec cfg" and f: "flushtape_fuel cfg (Suc n) w = Inr w'"
    then obtain r w1 where nr: "next_result cfg (send_block w) = Inr (r, w1)"
      and w': "(let w2 = account cfg r (s_firstrec (cur_slave w)) w1
                in if volume_full cfg w2
                   then bindE (close_rewind cfg w2) (startnewtape_with cfg (flushtape_fuel cfg n) False)
                   else Inr w2) = Inr w'"
      by (auto simp: bindE_Inr_iff)
    define w2 where "w2 = account cfg r (s_firstrec (cur_slave w)) w1"
    note fs = flush_step [OF ok nr, folded w2_def]
    show "winv cfg w'" "\<exists>cs. commands w' = commands w @ sent_block w # cs"
    proof (atomize (full), cases "volume_full cfg w2")
      case False
      then show "winv cfg w' \<and> (\<exists>cs. commands w' = commands w @ sent_block w # cs)"
        using w' fs by (simp add: Let_def flip: w2_def)
    next
      case True
      then obtain w3 where c: "close_rewind cfg w2 = Inr w3"
        and s: "startnewtape_with cfg (flushtape_fuel cfg n) False w3 = Inr w'"
        using w' by (auto simp: Let_def bindE_Inr_iff simp flip: w2_def)
      note cl = close_rewind_closing [OF c]
      have "winv cfg w3"
        using closing_blocks_ok [OF cl, of cfg] fs cl by (simp add: winv_def closing_def)
      from block_flush.startnewtape_keeps [OF Suc.IH this s]
      show "winv cfg w' \<and> (\<exists>cs. commands w' = commands w @ sent_block w # cs)"
        using fs(3) cl by (auto simp: closing_def)
    qed
  qed
qed

interpretation tape: block_flush cfg "flushtape cfg" for cfg
  unfolding flushtape_def by (rule flushtape_fuel_contract)

lemma dumpblock_loop_step:
  "dumpblock_loop cfg dblkno n w =
     (if n = 0 \<or> ntrec cfg \<le> trecno w then Inr w
      else bindE (flush_if_full cfg (flushtape cfg)
                    (queue_request dblkno (min n (ntrec cfg - trecno w)) w))
             (dumpblock_loop cfg (dblkno + min n (ntrec cfg - trecno w) * 2)
                (n - min n (ntrec cfg - trecno w))))"
  by (subst dumpblock_loop.simps) (auto simp: Let_def simp del: dumpblock_loop.simps)

declare dumpblock_loop.simps [simp del]

lemma dumpblock_loop_keeps:
  "winv cfg w \<Longrightarrow> dblkno \<noteq> 0 \<Longrightarrow> dumpblock_loop cfg dblkno n w = Inr w' \<Longrightarrow>
     winv cfg w' \<and> (\<exists>cs. commands w' = commands w @ cs)"
proof (induction n arbitrary: dblkno w rule: less_induct)
  case (less n)
  let ?a = "min n (ntrec cfg - trecno w)"
  show ?case
  proof (cases "n = 0")
    case True
    then show ?thesis using less.prems by (simp add: dumpblock_loop_step)
  next
    case False
    then have a: "0 < ?a" "n - ?a < n" using less.prems(1) by (auto simp: winv_def)
    obtain w3 where w3: "flush_if_full cfg (flushtape cfg) (queue_request dblkno ?a w) = Inr w3"
      and rest: "dumpblock_loop cfg (dblkno + ?a * 2) (n - ?a) w3 = Inr w'"
      using less.prems False
      by (subst (asm) dumpblock_loop_step) (auto simp: bindE_Inr_iff winv_def)
    note q = queue_request_ok [OF less.prems(1,2) a(1), simplified]
    note f = tape.flush_if_full_keeps [OF q(1,2) w3]
    show ?thesis using less.IH [OF a(2) f(1) _ rest] f(2) q(3) less.prems(2) by auto
  qed
qed


section \<open>The stream of records\<close>

text \<open>
  \<open>block_recs img rq tb\<close> are the records that a slave makes of the requests \<open>rq\<close> and the records
  \<open>tb\<close> when the disk holds the bytes \<open>img\<close>; \<open>stream\<close> is everything submitted so far: the blocks sent
  and the pending one.
\<close>

definition disk_recs :: "byte list \<Rightarrow> nat \<Rightarrow> nat \<Rightarrow> byte list list" where
  "disk_recs img b n = map (\<lambda>i. at img (b * 512 + i * TP_BSIZE) TP_BSIZE) [0..<n]"

fun block_recs :: "byte list \<Rightarrow> req list \<Rightarrow> byte list list \<Rightarrow> byte list list" where
  "block_recs img [] tb = []"
| "block_recs img (p # ps) tb =
     (if dblk p \<noteq> 0 then disk_recs img (dblk p) (req_count p) @ block_recs img ps tb
      else (case tb of [] \<Rightarrow> [] | r # rs \<Rightarrow> r # block_recs img ps rs))"

definition stream :: "byte list \<Rightarrow> writer \<Rightarrow> byte list list" where
  "stream img w = concat (map (\<lambda>c. block_recs img (cmd_req c) (cmd_tblock c)) (commands w))
     @ block_recs img (sreq (cur_slave w)) (tblock (cur_slave w))"

lemma block_recs_append:
  "length (filter (\<lambda>p. dblk p = 0) rq) = length tb \<Longrightarrow>
     block_recs img (rq @ rq') (tb @ tb') = block_recs img rq tb @ block_recs img rq' tb'"
proof (induction rq arbitrary: tb)
  case (Cons p rq)
  then show ?case using Cons.IH [of tb] Cons.IH [of "tl tb"] by (cases tb) (auto split: if_splits)
qed simp

lemma length_block_recs: "reqs_ok rq tb k \<Longrightarrow> length (block_recs img rq tb) = k"
proof (induction rq arbitrary: tb k)
  case Nil
  then show ?case by (simp add: reqs_ok_def)
next
  case (Cons p rq)
  show ?case
  proof (cases "dblk p = 0")
    case False
    then have "reqs_ok rq tb (k - req_count p)" "req_count p \<le> k"
      using Cons.prems by (auto simp: reqs_ok_def)
    then show ?thesis using Cons.IH False by (simp add: disk_recs_def)
  next
    case True
    then obtain r rs where "tb = r # rs" using Cons.prems by (cases tb) (auto simp: reqs_ok_def)
    then have "reqs_ok rq rs (k - 1)" "0 < k" using Cons.prems True by (auto simp: reqs_ok_def)
    then show ?thesis using Cons.IH True \<open>tb = r # rs\<close> by simp
  qed
qed

lemma length_stream:
  assumes "blocks_ok cfg w"
  shows "length (stream img w) = ntrec cfg * length (commands w) + trecno w"
proof -
  have l: "length (concat (map (\<lambda>c. block_recs img (cmd_req c) (cmd_tblock c)) cs)) = ntrec cfg * length cs"
    if "\<forall>c \<in> set cs. reqs_ok (cmd_req c) (cmd_tblock c) (ntrec cfg)" for cs
    using that by (induction cs) (auto simp: length_block_recs)
  show ?thesis
    using assms l [of "commands w"] length_block_recs [of "sreq (cur_slave w)" "tblock (cur_slave w)"]
    by (simp add: stream_def blocks_ok_def)
qed

text \<open>
  A volume that never fills, on slaves that answer every block with success.
\<close>

definition steady :: "tcfg \<Rightarrow> bool" where
  "steady cfg \<longleftrightarrow> (pipeout cfg \<or> unlimited cfg) \<and> (\<forall>k. \<exists>r. results cfg k = Some r \<and> 0 < unclen r)"

lemma next_result_steady: "steady cfg \<Longrightarrow> \<exists>r w'. next_result cfg w = Inr (r, w')"
  by (cases "results cfg (nread w)")
     (auto simp: next_result_def read_result_def steady_def Let_def bindE_Inr_iff dest: spec [of _ "nread w"])

lemma flushtape_steady:
  assumes "steady cfg" "blocks_ok cfg w" "trecno w = ntrec cfg"
  obtains w' where "flushtape cfg w = Inr w'" "winv cfg w'" "same_vol w w'"
    "stream img w' = stream img w"
proof -
  obtain r w1 where nr: "next_result cfg (send_block w) = Inr (r, w1)"
    using next_result_steady [OF assms(1)] by blast
  define a where "a = account cfg r (s_firstrec (cur_slave w)) w1"
  note fs = flush_step [OF assms(2,3) nr, folded a_def]
  have full: "\<not> volume_full cfg a" using assms(1) by (auto simp: volume_full_def steady_def)
  have fl: "flushtape cfg w = Inr a"
    using nr full by (cases "nested cfg") (simp_all add: flushtape_def Let_def flip: a_def)
  have l: "slp w1 < SLAVES" "length (slaves w1) = SLAVES"
    using next_result_props [OF nr] send_block_props [OF assms(2)] by auto
  have e: "sreq (cur_slave a) = []" using account_props(6) [OF l] by (simp add: a_def)
  have "stream img a = stream img w"
    using fs(3) e by (simp add: stream_def sent_block_def)
  then show ?thesis using fl fs that by blast
qed

text \<open>What an operation adds to the tape: the records \<open>recs\<close>, and nothing else but the address.\<close>

definition wrote :: "tcfg \<Rightarrow> byte list \<Rightarrow> byte list list \<Rightarrow> writer \<Rightarrow> writer \<Rightarrow> bool" where
  "wrote cfg img recs w w' \<longleftrightarrow> winv cfg w' \<and> stream img w' = stream img w @ recs
     \<and> spcl w' = (spcl w)\<lparr>c_tapea := c_tapea (spcl w) + of_nat (length recs)\<rparr>
     \<and> tapeno w' = tapeno w \<and> newtape w' = newtape w \<and> cur_inode w' = cur_inode w"

lemma wrote_trans: "wrote cfg img r1 w1 w2 \<Longrightarrow> wrote cfg img r2 w2 w3 \<Longrightarrow> wrote cfg img (r1 @ r2) w1 w3"
  by (simp add: wrote_def algebra_simps)

lemma wrote_refl: "winv cfg w \<Longrightarrow> wrote cfg img [] w w"
  by (simp add: wrote_def)

lemma flush_if_full_steady:
  assumes "steady cfg" "blocks_ok cfg w" "trecno w \<le> ntrec cfg"
  obtains w' where "flush_if_full cfg (flushtape cfg) w = Inr w'" "winv cfg w'" "same_vol w w'"
    "stream img w' = stream img w"
proof (cases "trecno w < ntrec cfg")
  case True
  then show ?thesis using assms that [of w] by (simp add: flush_if_full_def winv_def same_vol_def)
next
  case False
  then show ?thesis using assms that flushtape_steady [OF assms(1,2), of img]
    by (auto simp: flush_if_full_def)
qed

lemma stream_queue_record:
  assumes "winv cfg w"
  shows "stream img (queue_record dp isspcl w) = stream img w @ [dp]"
proof -
  have "length (filter (\<lambda>p. dblk p = 0) (sreq (cur_slave w))) = length (tblock (cur_slave w))"
    "slp w < length (slaves w)"
    using assms by (auto simp: winv_def blocks_ok_def reqs_ok_def)
  then show ?thesis
    using block_recs_append [of "sreq (cur_slave w)" "tblock (cur_slave w)" img "[\<lparr> dblk = 0, req_count = 1 \<rparr>]" "[dp]"]
    by (auto simp: stream_def queue_record_def Let_def writer_simps)
qed

lemma stream_queue_request:
  assumes "winv cfg w" "b \<noteq> 0"
  shows "stream img (queue_request b n w) = stream img w @ disk_recs img b n"
proof -
  have "length (filter (\<lambda>p. dblk p = 0) (sreq (cur_slave w))) = length (tblock (cur_slave w))"
    "slp w < length (slaves w)"
    using assms by (auto simp: winv_def blocks_ok_def reqs_ok_def)
  then show ?thesis
    using block_recs_append [of "sreq (cur_slave w)" "tblock (cur_slave w)" img "[\<lparr> dblk = b, req_count = n \<rparr>]" "[]"] assms(2)
    by (auto simp: stream_def queue_request_def Let_def writer_simps)
qed

lemma writerec_wrote:
  assumes "steady cfg" "winv cfg w"
  obtains w' where "writerec cfg dp isspcl w = Inr w'" "wrote cfg img [dp] w w'"
proof -
  note q = queue_record_ok [OF assms(2), of dp isspcl]
  obtain w' where f: "flush_if_full cfg (flushtape cfg) (queue_record dp isspcl w) = Inr w'"
    "winv cfg w'" "same_vol (queue_record dp isspcl w) w'"
    "stream img w' = stream img (queue_record dp isspcl w)"
    using flush_if_full_steady [OF assms(1) q(1,2), of img] by blast
  then have "wrote cfg img [dp] w w'"
    using stream_queue_record [OF assms(2)]
    by (auto simp: wrote_def same_vol_def queue_record_def Let_def writer_simps)
  then show ?thesis using that f(1) by (simp add: writerec_def writerec_with_def)
qed

lemma disk_recs_split: "k \<le> n \<Longrightarrow> disk_recs img b n = disk_recs img b k @ disk_recs img (b + k * 2) (n - k)"
proof (rule nth_equalityI)
  fix i assume k: "k \<le> n" and "i < length (disk_recs img b n)"
  then have i: "i < n" by (simp add: disk_recs_def)
  have "(b + k * 2) * 512 + (i - k) * TP_BSIZE = b * 512 + i * TP_BSIZE" if "\<not> i < k"
  proof -
    have "(b + k * 2) * 512 + (i - k) * TP_BSIZE = b * 512 + (k + (i - k)) * TP_BSIZE"
      by (simp only: TP_BSIZE_def distrib_left distrib_right)
    then show ?thesis using that by simp
  qed
  then show "disk_recs img b n ! i = (disk_recs img b k @ disk_recs img (b + k * 2) (n - k)) ! i"
    using i k by (cases "i < k") (simp_all add: disk_recs_def nth_append not_less add.assoc)
qed (simp add: disk_recs_def)

lemma dumpblock_loop_wrote:
  assumes "steady cfg"
  shows "winv cfg w \<Longrightarrow> b \<noteq> 0 \<Longrightarrow>
    \<exists>w'. dumpblock_loop cfg b n w = Inr w' \<and> wrote cfg img (disk_recs img b n) w w'"
proof (induction n arbitrary: b w rule: less_induct)
  case (less n)
  let ?a = "min n (ntrec cfg - trecno w)"
  show ?case
  proof (cases "n = 0")
    case True
    then show ?thesis using less.prems by (simp add: dumpblock_loop_step disk_recs_def wrote_refl)
  next
    case False
    then have a: "0 < ?a" "n - ?a < n" using less.prems(1) by (auto simp: winv_def)
    note q = queue_request_ok [OF less.prems(1,2) a(1), simplified]
    obtain w1 where f: "flush_if_full cfg (flushtape cfg) (queue_request b ?a w) = Inr w1"
      "winv cfg w1" "same_vol (queue_request b ?a w) w1"
      "stream img w1 = stream img (queue_request b ?a w)"
      using flush_if_full_steady [OF assms q(1,2), of img] by blast
    have w1: "wrote cfg img (disk_recs img b ?a) w w1"
      using f stream_queue_request [OF less.prems(1,2)]
      by (auto simp: wrote_def same_vol_def queue_request_def Let_def writer_simps disk_recs_def)
    have "b + ?a * 2 \<noteq> 0" using less.prems(2) by simp
    from less.IH [OF a(2) f(2) this] obtain w2 where
      w2: "dumpblock_loop cfg (b + ?a * 2) (n - ?a) w1 = Inr w2"
      "wrote cfg img (disk_recs img (b + ?a * 2) (n - ?a)) w1 w2" by blast
    have "dumpblock_loop cfg b n w = Inr w2"
      using f(1) w2(1) False less.prems(1) by (subst dumpblock_loop_step) (simp add: winv_def)
    moreover have "wrote cfg img (disk_recs img b n) w w2"
      using wrote_trans [OF w1 w2(2)] disk_recs_split [of ?a n img b] by simp
    ultimately show ?thesis by blast
  qed
qed


text \<open>The records of \<open>n\<close> times \<open>TP_BSIZE\<close> bytes of a file-system block.\<close>

definition fs_recs :: "byte list \<Rightarrow> nat \<Rightarrow> nat \<Rightarrow> nat \<Rightarrow> byte list list" where
  "fs_recs img bsize b n = map (\<lambda>i. at img (b * bsize + i * TP_BSIZE) TP_BSIZE) [0..<n]"

lemma length_fs_recs [simp]: "length (fs_recs img bsize b n) = n"
  by (simp add: fs_recs_def)

lemma dumpblock_wrote:
  assumes "steady cfg" "winv cfg w" "b \<noteq> 0" "512 dvd bsize" "0 < bsize"
  obtains w' where "dumpblock cfg bsize b sz w = Inr w'"
    "wrote cfg img (fs_recs img bsize b (sz div TP_BSIZE)) w w'"
proof -
  have m: "fsbtodb bsize b * 512 = b * bsize" using assms(4) by (simp add: fsbtodb_def)
  then have "fsbtodb bsize b \<noteq> 0" using assms(3,5) by (metis mult_eq_0_iff not_gr_zero)
  moreover have "disk_recs img (fsbtodb bsize b) n = fs_recs img bsize b n" for n
    by (simp add: disk_recs_def fs_recs_def m)
  ultimately show ?thesis
    using that dumpblock_loop_wrote [OF assms(1,2), of "fsbtodb bsize b" "sz div TP_BSIZE" img]
    by (auto simp: dumpblock_def)
qed


section \<open>What a slave makes of a block\<close>

definition readable_disk :: "disk \<Rightarrow> byte list \<Rightarrow> bool" where
  "readable_disk d img \<longleftrightarrow> (\<forall>off n. off + n \<le> length img \<longrightarrow> rd_disk d off n = Some (at img off n))"

lemma overlay_same: "length bs = length buf \<Longrightarrow> overlay buf 0 bs = bs"
  by (simp add: overlay_def)

lemma bread_readable:
  assumes "readable_disk d img" "b * 512 + n * 512 \<le> length img" "length buf = n * 512"
  shows "bread d b n (buf, errs) = Inr (at img (b * 512) (n * 512), errs)"
proof (cases n)
  case 0
  then show ?thesis using assms by (simp add: at_def)
next
  case (Suc m)
  have "length (at img (b * 512) (n * 512)) = n * 512" using assms(2) by (simp add: at_def)
  moreover have "rd_disk d (b * 512) (n * 512) = Some (at img (b * 512) (n * 512))"
    using assms(1,2) by (simp add: readable_disk_def)
  ultimately show ?thesis using assms(3) Suc by (simp add: overlay_same)
qed

lemma at_concat_recs:
  "b * 512 + n * 1024 \<le> length img \<Longrightarrow> at img (b * 512) (n * 2 * 512) = concat (disk_recs img b n)"
proof (induction n)
  case 0
  then show ?case by (simp add: at_def disk_recs_def)
next
  case (Suc n)
  have "at img (b * 512) (Suc n * 2 * 512)
      = at img (b * 512) (n * 2 * 512) @ at img (b * 512 + n * 1024) 1024"
  proof -
    have e: "Suc n * 2 * 512 = n * 2 * 512 + 1024" "b * 512 + n * 1024 = n * 2 * 512 + b * 512" by simp_all
    show ?thesis unfolding at_def e take_add drop_drop ..
  qed
  then show ?case using Suc by (simp add: disk_recs_def TP_BSIZE_def)
qed

lemma slave_fill_recs:
  assumes d: "readable_disk d img"
  shows "\<lbrakk>reqs_ok rq tb j; k + j = ntrec cfg; length buf = ntrec cfg * TP_BSIZE;
     \<forall>p \<in> set rq. dblk p \<noteq> 0 \<longrightarrow> dblk p * 512 + req_count p * 1024 \<le> length img;
     \<forall>r \<in> set tb. length r = TP_BSIZE\<rbrakk> \<Longrightarrow>
     slave_fill cfg d rq tb k (buf, errs)
       = Inr (take (k * TP_BSIZE) buf @ concat (block_recs img rq tb), errs)"
proof (induction rq arbitrary: tb j k buf)
  case Nil
  then show ?case by (simp add: reqs_ok_def)
next
  case (Cons p rq)
  have p: "0 < req_count p" "req_count p \<le> j" "k < ntrec cfg"
    using Cons.prems(1,2) by (auto simp: reqs_ok_def)
  have take_over: "take ((k + n) * TP_BSIZE) (overlay buf (k * TP_BSIZE) bs) = take (k * TP_BSIZE) buf @ bs"
    and len_over: "length (overlay buf (k * TP_BSIZE) bs) = ntrec cfg * TP_BSIZE"
    if "length bs = n * TP_BSIZE" "n \<le> j" for bs n
  proof -
    have "k * TP_BSIZE \<le> length buf" "k * TP_BSIZE + n * TP_BSIZE \<le> length buf"
      using Cons.prems(2,3) that(2) by (simp_all add: TP_BSIZE_def)
    then show "take ((k + n) * TP_BSIZE) (overlay buf (k * TP_BSIZE) bs) = take (k * TP_BSIZE) buf @ bs"
      "length (overlay buf (k * TP_BSIZE) bs) = ntrec cfg * TP_BSIZE"
      using Cons.prems(3) that(1) by (simp_all add: overlay_def distrib_right)
  qed
  show ?case
  proof (cases "dblk p = 0")
    case False
    let ?bs = "concat (disk_recs img (dblk p) (req_count p))"
    have r: "dblk p * 512 + req_count p * 1024 \<le> length img" using Cons.prems(4) False by simp
    have "length (at buf (k * TP_BSIZE) (req_count p * TP_BSIZE)) = req_count p * 2 * 512"
      using Cons.prems(2,3) p(2) by (simp add: at_def TP_BSIZE_def)
    then have b: "bread d (dblk p) (req_count p * 2) (at buf (k * TP_BSIZE) (req_count p * TP_BSIZE), errs)
        = Inr (?bs, errs)"
      using bread_readable [OF d, of "dblk p" "req_count p * 2"] r at_concat_recs [OF r] by simp
    have l: "length ?bs = req_count p * TP_BSIZE"
      using r unfolding at_concat_recs [OF r, symmetric] by (simp add: at_def TP_BSIZE_def)
    have "reqs_ok rq tb (j - req_count p)" using Cons.prems(1) False by (auto simp: reqs_ok_def)
    then show ?thesis
      using Cons.IH [of tb "j - req_count p" "k + req_count p" "overlay buf (k * TP_BSIZE) ?bs"]
        Cons.prems p b False take_over [OF l p(2)] len_over [OF l p(2)] by simp
  next
    case True
    then obtain r rs where tb: "tb = r # rs" "reqs_ok rq rs (j - 1)" "req_count p = 1"
      using Cons.prems(1) by (cases tb) (auto simp: reqs_ok_def)
    have l: "length r = 1 * TP_BSIZE" using Cons.prems(5) tb(1) by simp
    have j: "1 \<le> j" using p by simp
    show ?thesis
      using Cons.IH [OF tb(2), of "k + 1" "overlay buf (k * TP_BSIZE) r"] Cons.prems p True tb
        take_over [OF l j] len_over [OF l j] by simp
  qed
qed


section \<open>The start of a dump\<close>

text \<open>
  \<open>alloctape\<close>: the overhead per block and the density it settles, and the slaves with empty
  buffers, the first one at record 0.  The memory itself is not modelled.
\<close>

definition tape_overhead :: "bool \<Rightarrow> int \<Rightarrow> int list option \<Rightarrow> bool \<Rightarrow> int \<times> int" where
  "tape_overhead cartridge dens bpf unlim =
     (if bpf = None \<and> \<not> unlim
      then (if cartridge then 16 else if dens = 625 then 5 else 8, dens)
      else (0, 1))"

definition alloctape :: "writer \<Rightarrow> writer" where
  "alloctape w =
     (let empty = \<lparr> tblock = [], sreq = [], s_count = 0, s_tapea = 0, s_firstrec = 0, s_inode = 0,
                    sent = False \<rparr>
      in w\<lparr>slaves := empty\<lparr>s_count := 1\<rparr> # replicate (SLAVES - 1) empty, slp := 0\<rparr>)"

text \<open>The globals as the program starts; the header record is the given one.\<close>

definition initial_writer :: "s_spcl \<Rightarrow> writer" where
  "initial_writer s = \<lparr> spcl = s, lastspclrec = -1, trecno = 0, slaves = [], slp = 0, commands = [],
     nread = 0, blockswritten = 0, blocksthisvol = 0, bytes_written = 0, tapea_bytes = 0, asize = 0,
     uncomprblks = 0, tapeno = 0, newtape = False, blocksperfiles_current = 0,
     volinfo = replicate TP_NINOS 0, cur_inode = 0 \<rparr>"

lemma winv_alloctape:
  "wf_spcl s \<Longrightarrow> c_tapea s = 0 \<Longrightarrow> 0 < ntrec cfg \<Longrightarrow> winv cfg (alloctape (initial_writer s))"
  by (simp add: winv_def blocks_ok_def alloctape_def initial_writer_def SLAVES_def cur_slave_def
      reqs_ok_Nil Let_def)


section \<open>A new volume and a written block\<close>

lemma mkchecksum_fields [simp]:
  "c_type (mkchecksum e s) = c_type s" "c_date (mkchecksum e s) = c_date s"
  "c_ddate (mkchecksum e s) = c_ddate s" "c_volume (mkchecksum e s) = c_volume s"
  "c_tapea (mkchecksum e s) = c_tapea s" "c_inumber (mkchecksum e s) = c_inumber s"
  "c_magic (mkchecksum e s) = c_magic s" "c_dinode (mkchecksum e s) = c_dinode s"
  "c_count (mkchecksum e s) = c_count s" "c_data (mkchecksum e s) = c_data s"
  "c_flags (mkchecksum e s) = c_flags s" "c_firstrec (mkchecksum e s) = c_firstrec s"
  "c_ntrec (mkchecksum e s) = c_ntrec s" "c_extattributes (mkchecksum e s) = c_extattributes s"
  by (simp_all add: mkchecksum_def Let_def)

lemma startnewtape_pending:
  fixes top_vol :: bool
  assumes w: "winv cfg w" "trecno w = 0" "2 \<le> ntrec cfg"
  defines "n \<equiv> new_volume cfg top_vol w"
  defines "h \<equiv> mkchecksum (byte_order cfg) ((spcl n)\<lparr>c_inumber := s_inode (cur_slave w), c_magic := NFS_MAGIC\<rparr>)"
  obtains w' where "startnewtape cfg top_vol w = Inr w'" "winv cfg w'" "trecno w' = 1"
    "tblock (cur_slave w') = [encode_spcl (byte_order cfg) h]" "commands w' = commands w"
    "tapeno w' = tapeno w + 1" "lastspclrec w' = sint (c_tapea (spcl w))"
proof -
  note nv = tape.new_volume_keeps [OF w(1), of top_vol, folded n_def]
  define m where "m = queue_record (encode_spcl (byte_order cfg) h) True (n\<lparr>spcl := h\<rparr>)"
  have l: "slp n < length (slaves n)" using nv(1) by (simp add: winv_def blocks_ok_def)
  have n: "trecno n = 0" "c_tapea (spcl n) = c_tapea (spcl w)" "tapeno n = tapeno w + 1"
    using w(2) by (simp_all add: n_def new_volume_def Let_def)
  have tb: "tblock (cur_slave w) = []"
  proof -
    have "sreq (cur_slave w) = []"
      using w(1,2) by (cases "sreq (cur_slave w)") (auto simp: winv_def blocks_ok_def reqs_ok_def)
    then show ?thesis using w(1) by (simp add: winv_def blocks_ok_def reqs_ok_def)
  qed
  have m: "trecno m = 1" "tblock (cur_slave m) = [encode_spcl (byte_order cfg) h]" "commands m = commands w"
    "tapeno m = tapeno w + 1" "lastspclrec m = sint (c_tapea (spcl w))"
    using l n nv tb by (simp_all add: m_def queue_record_def Let_def writer_simps h_def)
  have "startnewtape cfg top_vol w = Inr (volume_started m)"
    using nv(3) m(1) w(3)
    by (simp add: startnewtape_def startnewtape_with_def writeheader_with_def writerec_with_def Let_def
        flush_if_full_def h_def m_def flip: n_def)
  moreover have "winv cfg (volume_started m)"
    using tape.startnewtape_keeps(1) [OF w(1), of top_vol] calculation by (simp add: startnewtape_def)
  ultimately show ?thesis
    using that m by (simp add: volume_started_def Let_def writer_simps)
qed

text \<open>A block that the slave reports as written is wholly on the tape.\<close>

lemma write_loop_bound:
  "write_loop ws bsize pos eots = Some (p, e, w) \<Longrightarrow>
    (\<exists>x. w = Failed x) \<or> w = No_Space \<or> e \<ge> 10 \<or> p \<ge> bsize"
proof (induction ws bsize pos eots rule: write_loop.induct)
  case (1 ws bsize pos eots)
  then show ?case
    by (subst (asm) (3) write_loop.simps)
       (auto simp: Let_def simp del: write_loop.simps split: if_splits list.splits write_result.splits)
qed

section \<open>Properties\<close>

text \<open>A writer of two-record blocks for the witnesses.\<close>

definition sample_tcfg :: tcfg where
  "sample_tcfg = \<lparr> byte_order = LE, ntrec = 2, tenths = 0, density = 1, tsize = 0,
     blocksperfiles = None, unlimited = True, pipeout = False, compressed = False,
     results = (\<lambda>k. Some \<lparr> unclen = 2048, clen = 2048 \<rparr>), mounted = (\<lambda>_. True),
     rewrite = (\<lambda>_. False), go_on = (\<lambda>_. True), nested = 1 \<rparr>"

definition sample_writer :: writer where
  "sample_writer = alloctape (initial_writer zero_spcl)"

lemma steady_sample: "steady sample_tcfg"
  by (simp add: steady_def sample_tcfg_def)

lemma winv_sample: "winv sample_tcfg sample_writer"
  unfolding sample_writer_def
  by (rule winv_alloctape [OF wf_zero_spcl]) (simp_all add: zero_spcl_def sample_tcfg_def)

text \<open>C27: Across volume changes too, writing a header leaves every block that was sent with exactly
  \<open>ntrec\<close> records, keeps the blocks sent before, and keeps \<open>c_tapea\<close> equal to the number of records
  submitted so far, so that each header carries its own address.\<close>

theorem blocks_are_full:
  assumes "winv cfg w" "writeheader cfg ino w = Inr w'"
  shows "winv cfg w' \<and> (\<exists>cs. commands w' = commands w @ cs)
    \<and> (\<forall>c \<in> set (commands w'). length (block_recs img (cmd_req c) (cmd_tblock c)) = ntrec cfg)
    \<and> c_tapea (spcl w') = of_nat (length (stream img w'))"
proof -
  note k = tape.writeheader_keeps [OF assms(1) assms(2) [unfolded writeheader_def]]
  have b: "blocks_ok cfg w'" using k(1) by (simp add: winv_def)
  show ?thesis
    using k b length_stream [OF b] length_block_recs by (auto simp: blocks_ok_def)
qed

theorem blocks_are_full_witness:
  "\<exists>w'. writeheader sample_tcfg 2 sample_writer = Inr w' \<and> winv sample_tcfg w'"
proof -
  obtain w' where "writeheader sample_tcfg 2 sample_writer = Inr w'"
    by (simp add: writeheader_def writeheader_with_def Let_def writerec_with_def flush_if_full_def
        queue_record_def sample_tcfg_def set_slave_def sample_writer_def alloctape_def initial_writer_def)
  then show ?thesis using blocks_are_full [OF winv_sample] by blast
qed


text \<open>C28: A volume that begins at a block boundary (of blocks of at least two records) starts with a
  header of type \<open>TS_TAPE\<close> that names the next volume number, the address of this very record as
  \<open>c_tapea\<close> and the number of records on the earlier volumes as \<open>c_firstrec\<close>, and passes the
  checksum; nothing already sent changes.\<close>

theorem volume_header:
  assumes "winv cfg w" "trecno w = 0" "2 \<le> ntrec cfg"
  shows "\<exists>w' h. startnewtape cfg top_vol w = Inr w' \<and> winv cfg w' \<and> commands w' = commands w
    \<and> tblock (cur_slave w') = [encode_spcl (byte_order cfg) h]
    \<and> tapeno w' = tapeno w + 1 \<and> c_type h = TS_TAPE \<and> c_magic h = NFS_MAGIC
    \<and> c_volume h = c_volume (spcl w) + 1 \<and> c_tapea h = c_tapea (spcl w)
    \<and> c_firstrec h = of_nat (ntrec cfg * length (commands w)) \<and> c_ntrec h = of_nat (ntrec cfg)
    \<and> c_inumber h = s_inode (cur_slave w)
    \<and> sum_list (int_words (byte_order cfg) (encode_spcl (byte_order cfg) h)) = CHECKSUM"
proof -
  let ?n = "new_volume cfg top_vol w"
  let ?s = "(spcl ?n)\<lparr>c_inumber := s_inode (cur_slave w), c_magic := NFS_MAGIC\<rparr>"
  obtain w' where w': "startnewtape cfg top_vol w = Inr w'" "winv cfg w'" "commands w' = commands w"
    "tblock (cur_slave w') = [encode_spcl (byte_order cfg) (mkchecksum (byte_order cfg) ?s)]"
    "tapeno w' = tapeno w + 1"
    using startnewtape_pending [OF assms, of top_vol] by blast
  have nv: "winv cfg ?n" "cur_slave ?n = unsent (cur_slave w)"
    using tape.new_volume_keeps [OF assms(1)] by auto
  then have "wf_spcl ?s" by (simp add: winv_def blocks_ok_def)
  from mkchecksum_sum [OF this, of "byte_order cfg"]
  have "sum_list (int_words (byte_order cfg) (encode_spcl (byte_order cfg) (mkchecksum (byte_order cfg) ?s)))
      = CHECKSUM" .
  moreover have "s_firstrec (cur_slave w) = int (ntrec cfg * length (commands w))"
    using assms(1) by (simp add: winv_def blocks_ok_def)
  moreover have "c_type ?s = TS_TAPE" "c_volume ?s = c_volume (spcl w) + 1" "c_tapea ?s = c_tapea (spcl w)"
    "c_firstrec ?s = word_of_int (s_firstrec (unsent (cur_slave w)))" "c_ntrec ?s = of_nat (ntrec cfg)"
    using nv(2) by (simp_all add: new_volume_def Let_def cur_slave_def)
  ultimately show ?thesis
    using w' by (intro exI [of _ w'] exI [of _ "mkchecksum (byte_order cfg) ?s"]) simp
qed

theorem volume_header_witness:
  "\<exists>w' h. startnewtape sample_tcfg True sample_writer = Inr w'
     \<and> tblock (cur_slave w') = [encode_spcl LE h] \<and> c_type h = TS_TAPE \<and> c_volume h = 1"
proof -
  have "trecno sample_writer = 0" "2 \<le> ntrec sample_tcfg" "c_volume (spcl sample_writer) = 0"
    "byte_order sample_tcfg = LE"
    by (simp_all add: sample_writer_def alloctape_def initial_writer_def Let_def sample_tcfg_def zero_spcl_def)
  then show ?thesis
    using volume_header [OF winv_sample, of True] by auto
qed




text \<open>C30: On a readable disk a slave turns the requests of a block into exactly the records that the
  master meant: those sent with the requests and those read from the disk, in the order of the
  requests, whatever its buffer held before.\<close>

theorem slave_makes_records:
  assumes "readable_disk d img" "reqs_ok rq tb (ntrec cfg)" "length buf = ntrec cfg * TP_BSIZE"
    and "\<forall>p \<in> set rq. dblk p \<noteq> 0 \<longrightarrow> dblk p * 512 + req_count p * 1024 \<le> length img"
    and "\<forall>r \<in> set tb. length r = TP_BSIZE"
  shows "slave_fill cfg d rq tb 0 (buf, errs) = Inr (concat (block_recs img rq tb), errs)"
  using slave_fill_recs [OF assms(1,2) _ assms(3-5), of 0] by simp

theorem slave_makes_records_witness:
  "slave_fill sample_tcfg \<lparr> rd_disk = (\<lambda>off n. Some (at (replicate 2048 7) off n)), disk_end = 4,
       breademax = 32, continue_errors = False \<rparr>
     [\<lparr> dblk = 0, req_count = 1 \<rparr>, \<lparr> dblk = 1, req_count = 1 \<rparr>] [replicate 1024 1]
     0 (replicate 2048 0, 0) = Inr (replicate 1024 1 @ replicate 1024 7, 0)"
proof -
  let ?d = "\<lparr> rd_disk = (\<lambda>off n. Some (at (replicate 2048 7) off n)), disk_end = 4,
       breademax = 32, continue_errors = False \<rparr>"
  let ?rq = "[\<lparr> dblk = 0, req_count = 1 \<rparr>, \<lparr> dblk = 1, req_count = 1 \<rparr>]"
  have "slave_fill sample_tcfg ?d ?rq [replicate 1024 1] 0 (replicate 2048 0, 0)
      = Inr (concat (block_recs (replicate 2048 7) ?rq [replicate 1024 1]), 0)"
    by (rule slave_makes_records)
       (simp_all add: readable_disk_def reqs_ok_def sample_tcfg_def TP_BSIZE_def)
  then show ?thesis by (simp add: disk_recs_def at_def TP_BSIZE_def)
qed

end
