(* ===== verification/Dump_Inode.thy ===== *)
theory Dump_Inode
  imports Tapeout
begin

text \<open>
  Passes 3 and 4 of dump (dump/traverse.c): \<open>dumpino\<close> and \<open>dumpdirino\<close> put an inode on the tape,
  \<open>blksout\<close> its blocks with the headers that say which are there, \<open>dumponeblock\<close> the blocks that
  libext2fs delivers, \<open>convert_dir\<close> the entries of a directory in the BSD format, \<open>dump_xattr\<close> the
  extended attributes and \<open>dumpmap\<close> an inode map.
\<close>

section \<open>The file system as passes 3 and 4 read it\<close>

text \<open>
  \<open>fs_blocks\<close> are the calls that \<open>ext2fs_block_iterate2\<close> makes of its callback (logical block,
  disk block), \<open>fs_inode_full\<close> the raw inode; \<open>stack_junk\<close> stands for the bytes of memory that the
  code copies without having written them.
\<close>

record ext2fs = fsys +
  fs_fsize :: nat
  frags_per_block :: nat
  fs_blocks :: "dump_ino_t \<Rightarrow> (nat \<times> nat) list"
  fs_inode_size :: nat
  fs_inode_full :: "dump_ino_t \<Rightarrow> byte list option"
  stack_junk :: "byte list"

abbreviation bsize_of :: "'a ext2fs_scheme \<Rightarrow> nat" where
  "bsize_of fs \<equiv> unat (fs_bsize fs)"

definition EXT2_GOOD_OLD_INODE_SIZE :: nat where "EXT2_GOOD_OLD_INODE_SIZE = 128"
definition EXT2_XATTR_MAGIC :: u32 where "EXT2_XATTR_MAGIC = 0xEA020000"
definition EXT2_XATTR_MAGIC2 :: u32 where "EXT2_XATTR_MAGIC2 = 0xEA020001"
definition FAST_LINK_BYTES :: nat where "FAST_LINK_BYTES = 15 * 4"

definition set_spcl :: "(s_spcl \<Rightarrow> s_spcl) \<Rightarrow> writer \<Rightarrow> writer" where
  "set_spcl f w = w\<lparr>spcl := f (spcl w)\<rparr>"


section \<open>The blocks of a file\<close>

text \<open>\<open>spcl.c_addr[0..]\<close> overwritten from the front; the rest keeps its old contents.\<close>

definition set_c_addr :: "byte list \<Rightarrow> s_spcl \<Rightarrow> s_spcl" where
  "set_c_addr bs s = s\<lparr>c_data := overlay (c_data s) 0 bs\<rparr>"

text \<open>
  \<open>blksout_data\<close> is the inner loop that requests the data of the records \<open>j \<dots> count - 1\<close>; its list
  is \<open>blkp\<close> from the block of record \<open>j\<close> on.
\<close>

fun blksout_data :: "tcfg \<Rightarrow> nat \<Rightarrow> nat \<Rightarrow> nat list \<Rightarrow> nat \<Rightarrow> writer \<Rightarrow> tape_stop + writer" where
  "blksout_data cfg bsize count [] j w = Inr w"
| "blksout_data cfg bsize count (b # bs) j w =
     (if j < count then
        bindE (if b \<noteq> 0 then
                 dumpblock cfg bsize b (if j + bsize div TP_BSIZE \<le> count then bsize
                                        else (count - j) * TP_BSIZE) w
               else Inr w)
          (blksout_data cfg bsize count bs (j + bsize div TP_BSIZE))
      else Inr w)"

definition addr_flags :: "nat \<Rightarrow> nat list \<Rightarrow> nat \<Rightarrow> nat \<Rightarrow> byte list" where
  "addr_flags tbperdb blkp i count =
     map (\<lambda>j. if blkp ! (j div tbperdb) \<noteq> 0 then 1 else 0) [i..<count]"

function blksout_loop :: "tcfg \<Rightarrow> nat \<Rightarrow> nat \<Rightarrow> nat list \<Rightarrow> dump_ino_t \<Rightarrow> nat \<Rightarrow> writer
    \<Rightarrow> tape_stop + writer" where
  "blksout_loop cfg bsize blks blkp ino i w =
     (if i < blks then
        let count = (if i + TP_NINDIR > blks then blks else i + TP_NINDIR);
            tbperdb = bsize div TP_BSIZE;
            w = set_spcl (set_c_addr (addr_flags tbperdb blkp i count)) w;
            w = set_spcl (\<lambda>s. s\<lparr>c_count := of_nat (count - i)\<rparr>) w
        in bindE (writeheader cfg ino w) (\<lambda>w.
           bindE (blksout_data cfg bsize count (drop (i div tbperdb) blkp) i w) (\<lambda>w.
           blksout_loop cfg bsize blks blkp ino (i + TP_NINDIR)
             (set_spcl (\<lambda>s. s\<lparr>c_type := TS_ADDR\<rparr>) w)))
      else Inr w)"
  by pat_completeness auto
termination
  by (relation "measure (\<lambda>(cfg, bsize, blks, blkp, ino, i, w). blks - i)") (auto simp: TP_NINDIR_def)

definition blksout :: "tcfg \<Rightarrow> ext2fs \<Rightarrow> nat list \<Rightarrow> nat \<Rightarrow> dump_ino_t \<Rightarrow> writer \<Rightarrow> tape_stop + writer" where
  "blksout cfg fs blkp frags ino =
     blksout_loop cfg (bsize_of fs) (howmany (frags * fs_fsize fs) TP_BSIZE) blkp ino 0"

text \<open>
  A block number goes into the buffer of \<open>max\<close> entries, which \<open>blksout\<close> empties when it is full
  (\<open>p->buf[p->cnt++] = \<dots>\<close> and the test after it); \<open>dumponeblock\<close> fills holes with zeros first.
\<close>

definition push_block :: "tcfg \<Rightarrow> ext2fs \<Rightarrow> nat \<Rightarrow> dump_ino_t \<Rightarrow> nat \<Rightarrow> nat list \<times> writer
    \<Rightarrow> tape_stop + nat list \<times> writer" where
  "push_block cfg fs bmax ino b = (\<lambda>(buf, w).
     let buf = buf @ [b]
     in if length buf = bmax
        then bindE (blksout cfg fs buf (length buf) ino w) (\<lambda>w. Inr ([], w))
        else Inr (buf, w))"

fun push_holes :: "tcfg \<Rightarrow> ext2fs \<Rightarrow> nat \<Rightarrow> dump_ino_t \<Rightarrow> nat \<Rightarrow> nat list \<times> writer
    \<Rightarrow> tape_stop + nat list \<times> writer" where
  "push_holes cfg fs bmax ino 0 bw = Inr bw"
| "push_holes cfg fs bmax ino (Suc n) bw =
     bindE (push_block cfg fs bmax ino 0 bw) (push_holes cfg fs bmax ino n)"

definition dumponeblock :: "tcfg \<Rightarrow> ext2fs \<Rightarrow> nat \<Rightarrow> dump_ino_t \<Rightarrow> nat \<times> nat
    \<Rightarrow> nat \<times> nat list \<times> writer \<Rightarrow> tape_stop + nat \<times> nat list \<times> writer" where
  "dumponeblock cfg fs bmax ino = (\<lambda>(blockcnt, blocknr) (next_block, bw).
     bindE (push_holes cfg fs bmax ino (blockcnt - next_block) bw) (\<lambda>bw.
     bindE (push_block cfg fs bmax ino blocknr bw) (\<lambda>bw.
     Inr (blockcnt + 1, bw))))"

fun block_iterate :: "('b \<Rightarrow> 's \<Rightarrow> tape_stop + 's) \<Rightarrow> 'b list \<Rightarrow> 's \<Rightarrow> tape_stop + 's" where
  "block_iterate f [] s = Inr s"
| "block_iterate f (b # bs) s = bindE (f b s) (block_iterate f bs)"


section \<open>Maps\<close>

text \<open>
  The loop of \<open>dumpmap\<close> and of \<open>dump_xattr\<close> over the records of a buffer; its bound is
  \<open>spcl.c_count\<close> as it stands at each round.
\<close>

function write_buffer :: "tcfg \<Rightarrow> byte list \<Rightarrow> nat \<Rightarrow> writer \<Rightarrow> tape_stop + writer" where
  "write_buffer cfg buf i w =
     (if int i < sint (c_count (spcl w))
      then bindE (writerec cfg (at buf (i * TP_BSIZE) TP_BSIZE) False w) (write_buffer cfg buf (i + 1))
      else Inr w)"
  by pat_completeness auto
termination
proof (relation "measure (\<lambda>(cfg, buf, i, w). 2 ^ 31 - i)")
  fix i :: nat and w :: writer
  have "sint (c_count (spcl w)) < 2 ^ 31" using sint_lt [of "c_count (spcl w)"] by simp
  then show "int i < sint (c_count (spcl w)) \<Longrightarrow>
      ((cfg, buf, i + 1, x), cfg, buf, i, w) \<in> measure (\<lambda>(cfg, buf, i, w). 2 ^ 31 - i)"
    for cfg :: tcfg and buf :: "byte list" and x :: writer by simp
qed simp

definition dumpmap :: "tcfg \<Rightarrow> byte list \<Rightarrow> u32 \<Rightarrow> dump_ino_t \<Rightarrow> writer \<Rightarrow> tape_stop + writer" where
  "dumpmap cfg bm ty ino w =
     (let w = set_spcl (\<lambda>s. s\<lparr>c_type := ty, c_count := of_nat (howmany (length bm) TP_BSIZE),
                c_dinode := (c_dinode s)\<lparr>nbi_size := of_nat (length bm)\<rparr>\<rparr>) w
      in bindE (writeheader cfg ino w) (write_buffer cfg bm 0))"


section \<open>Extended attributes\<close>

text \<open>
  \<open>dump_xattr\<close>: the attributes in the inode, from a buffer of the inode's size of which whole
  records are copied, and those in a block of their own.
\<close>

definition xattr_in_inode :: "tcfg \<Rightarrow> ext2fs \<Rightarrow> dump_ino_t \<Rightarrow> dinode \<Rightarrow> writer \<Rightarrow> tape_stop + writer" where
  "xattr_in_inode cfg fs ino dp w =
     (if di_extraisize dp = 0 then Inr w
      else case fs_inode_full fs ino of
        None \<Rightarrow> Inl (Quit X_ABORT)
      | Some inode \<Rightarrow>
          let off = EXT2_GOOD_OLD_INODE_SIZE + unat (di_extraisize dp);
              isz = fs_inode_size fs
          in if get (byte_order cfg) (at inode off 4) = EXT2_XATTR_MAGIC then
               let xattr = overlay (replicate isz 0) 0 (at inode off (isz - off));
                   xattr = overlay xattr 0 (put (byte_order cfg) 4 EXT2_XATTR_MAGIC2);
                   n = howmany isz TP_BSIZE;
                   w = set_spcl (\<lambda>s. s\<lparr>c_type := TS_INODE,
                         c_dinode := (c_dinode s)\<lparr>nbi_size := of_nat isz\<rparr>,
                         c_flags := c_flags s OR DR_EXTATTRIBUTES, c_extattributes := EXT_XATTR,
                         c_count := of_nat n\<rparr>) w;
                   w = set_spcl (set_c_addr (replicate n 1)) w
               in bindE (writeheader cfg ino w) (\<lambda>w.
                  bindE (write_buffer cfg (xattr @ stack_junk fs) 0 w) (\<lambda>w.
                  Inr (set_spcl (\<lambda>s. s\<lparr>c_flags := c_flags s AND NOT DR_EXTATTRIBUTES,
                                     c_extattributes := 0\<rparr>) w)))
             else Inr w)"

definition xattr_in_block :: "tcfg \<Rightarrow> ext2fs \<Rightarrow> dump_ino_t \<Rightarrow> dinode \<Rightarrow> writer \<Rightarrow> tape_stop + writer" where
  "xattr_in_block cfg fs ino dp w =
     (if di_file_acl dp = 0 then Inr w
      else
        let w = set_spcl (\<lambda>s. s\<lparr>c_type := TS_INODE,
                  c_dinode := (c_dinode s)\<lparr>nbi_size := of_nat (bsize_of fs)\<rparr>,
                  c_flags := c_flags s OR DR_EXTATTRIBUTES, c_extattributes := EXT_XATTR\<rparr>) w
        in bindE (blksout cfg fs [unat (di_file_acl dp)] (frags_per_block fs) ino w) (\<lambda>w.
           Inr (set_spcl (\<lambda>s. s\<lparr>c_flags := c_flags s AND NOT DR_EXTATTRIBUTES,
                              c_extattributes := 0\<rparr>) w)))"

definition dump_xattr :: "tcfg \<Rightarrow> ext2fs \<Rightarrow> dump_ino_t \<Rightarrow> dinode \<Rightarrow> writer \<Rightarrow> tape_stop + writer" where
  "dump_xattr cfg fs ino dp w =
     bindE (xattr_in_inode cfg fs ino dp w) (xattr_in_block cfg fs ino dp)"


section \<open>Files\<close>

text \<open>The inode as the header carries it.\<close>

definition bsd_inode :: "dinode \<Rightarrow> nat \<Rightarrow> new_bsd_inode" where
  "bsd_inode dp sz = \<lparr> nbi_mode = di_mode dp, nbi_nlink = di_nlink dp, nbi_ouid = di_uid dp,
     nbi_ogid = di_gid dp, nbi_size = of_nat sz, nbi_atime = di_atime dp, nbi_atime_usec = 0,
     nbi_mtime = di_mtime dp, nbi_mtime_usec = 0, nbi_ctime = di_ctime dp, nbi_ctime_usec = 0,
     nbi_db = di_db dp, nbi_ib = di_ib dp, nbi_flags = di_flags dp, nbi_blocks = di_blocks dp,
     nbi_gen = di_gen dp,
     nbi_uid = push_bit 16 (ucast (di_uidhigh dp)) OR ucast (di_uid dp),
     nbi_gid = push_bit 16 (ucast (di_gidhigh dp)) OR ucast (di_gid dp), nbi_spare = [0, 0] \<rparr>"

text \<open>
  The prologue that \<open>dumpino\<close> and \<open>dumpdirino\<close> share: on a new tape the map of what is still to be
  dumped comes first; then the inode leaves the map.
\<close>

definition begin_inode :: "tcfg \<Rightarrow> dump_ino_t \<Rightarrow> maps \<times> writer \<Rightarrow> tape_stop + maps \<times> writer" where
  "begin_inode cfg ino = (\<lambda>(m, w).
     bindE (if newtape w then dumpmap cfg (dumpinomap m) TS_BITS ino (w\<lparr>newtape := False\<rparr>) else Inr w)
       (\<lambda>w. Inr (m\<lparr>dumpinomap := CLRINO ino (dumpinomap m)\<rparr>, w)))"

definition inode_header :: "new_bsd_inode \<Rightarrow> writer \<Rightarrow> writer" where
  "inode_header nbi = set_spcl (\<lambda>s. s\<lparr>c_dinode := nbi, c_type := TS_INODE, c_count := 0\<rparr>)"

text \<open>The target of a short symbolic link lies in the block numbers of the inode.\<close>

definition fast_link :: "tcfg \<Rightarrow> ext2fs \<Rightarrow> dinode \<Rightarrow> byte list" where
  "fast_link cfg fs dp =
     overlay (take TP_BSIZE (stack_junk fs)) 0
       (take (unat (di_size dp)) (puts32 (byte_order cfg) (di_db dp @ di_ib dp)) @ [0])"

definition dump_blocks :: "tcfg \<Rightarrow> ext2fs \<Rightarrow> dump_ino_t \<Rightarrow> nat \<Rightarrow> writer \<Rightarrow> tape_stop + writer" where
  "dump_blocks cfg fs ino isize w =
     (let bmax = bsize_of fs div 4 * frags_per_block fs
      in bindE (block_iterate (dumponeblock cfg fs bmax ino) (fs_blocks fs ino) (0, [], w))
           (\<lambda>(next_block, bw).
         bindE (if isize > next_block * fs_fsize fs
                then push_holes cfg fs bmax ino
                       (howmany (isize - next_block * fs_fsize fs) (fs_fsize fs)) bw
                else Inr bw) (\<lambda>(buf, w).
         if length buf > 0 then blksout cfg fs buf (length buf) ino w else Inr w)))"

definition dumpino :: "tcfg \<Rightarrow> ext2fs \<Rightarrow> dinode \<Rightarrow> dump_ino_t \<Rightarrow> bool \<Rightarrow> maps \<times> writer
    \<Rightarrow> tape_stop + maps \<times> writer" where
  "dumpino cfg fs dp ino metaonly mw =
     (let isize = (if metaonly then 0 else i_size dp)
      in bindE (begin_inode cfg ino mw) (\<lambda>(m, w).
         let w = inode_header (bsd_inode dp isize) w;
             ret = (\<lambda>r. bindE r (\<lambda>w. Inr (m, w)))
         in if metaonly \<and> file_mode dp \<noteq> 0 then
              ret (bindE (writeheader cfg ino
                     (set_spcl (\<lambda>s. s\<lparr>c_flags := c_flags s OR DR_METAONLY, c_count := 0\<rparr>) w)) (\<lambda>w.
                   dump_xattr cfg fs ino dp
                     (set_spcl (\<lambda>s. s\<lparr>c_flags := c_flags s AND NOT DR_METAONLY\<rparr>) w)))
            else if file_mode dp = 0 \<or> file_mode dp = IFDIR then Inr (m, w)
            else if file_mode dp = IFLNK \<and> isize > 0 \<and> isize < FAST_LINK_BYTES then
              ret (bindE (writeheader cfg ino
                     (set_spcl (\<lambda>s. (set_c_addr [1] s)\<lparr>c_count := 1\<rparr>) w)) (\<lambda>w.
                   bindE (writerec cfg (fast_link cfg fs dp) False w) (dump_xattr cfg fs ino dp)))
            else if (file_mode dp = IFLNK \<or> file_mode dp = IFREG) \<and> isize \<noteq> 0 then
              ret (bindE (dump_blocks cfg fs ino isize w) (dump_xattr cfg fs ino dp))
            else if file_mode dp \<in> {IFLNK, IFREG, IFIFO, IFSOCK, IFCHR, IFBLK} then
              ret (bindE (writeheader cfg ino w) (dump_xattr cfg fs ino dp))
            else Inr (m, w)))"


section \<open>Directories\<close>

text \<open>\<open>EXT2_DIR_REC_LEN\<close> and the types of directory entries in the two formats.\<close>

definition DIR_REC_LEN :: "nat \<Rightarrow> nat" where
  "DIR_REC_LEN n = (n + 8 + 3) div 4 * 4"

definition DIRBLKSIZ_DUMP :: nat where "DIRBLKSIZ_DUMP = 512"

definition dirent_type :: "u16 \<Rightarrow> byte" where
  "dirent_type name_len =
     (let t = drop_bit 8 (name_len AND 0xFF00)
      in if t = 1 then 8 else if t = 2 then 4 else if t = 3 then 2 else if t = 4 then 6
         else if t = 5 then 1 else if t = 6 then 12 else if t = 7 then 10 else 0)"

text \<open>
  \<open>struct convert_dir_context\<close>.  \<open>set_reclen\<close> adds to the \<open>d_reclen\<close> of the entry at an offset.
\<close>

record convert_dir_context =
  cd_buf :: "byte list"
  cd_prev_offset :: nat
  cd_offset :: nat
  cd_bs :: nat

definition add_reclen :: "endian \<Rightarrow> nat \<Rightarrow> nat \<Rightarrow> byte list \<Rightarrow> byte list" where
  "add_reclen e off n buf = overlay buf (off + 4) (put e 2 (get e (at buf (off + 4) 2) + of_nat n :: u16))"

definition pad_dirblk :: "endian \<Rightarrow> convert_dir_context \<Rightarrow> convert_dir_context" where
  "pad_dirblk e p =
     (let n = cd_bs p - cd_offset p mod cd_bs p
      in p\<lparr>cd_buf := add_reclen e (cd_prev_offset p) n (cd_buf p), cd_offset := cd_offset p + n\<rparr>)"

definition strncpy_bytes :: "nat \<Rightarrow> string \<Rightarrow> byte list" where
  "strncpy_bytes n s =
     (let t = map of_char (takeWhile (\<lambda>c. c \<noteq> CHR 0x00) (take n s)) in t @ replicate (n - length t) 0)"

definition convert_dir :: "endian \<Rightarrow> byte list \<Rightarrow> ext2_dir_entry \<Rightarrow> convert_dir_context
    \<Rightarrow> convert_dir_context" where
  "convert_dir e excl d p =
     (if exclude_ino (de_inode d) excl then p
      else
        let n = name_length d;
            reclen = DIR_REC_LEN (n + 1);
            p = (if (cd_offset p + reclen - 1) div cd_bs p \<noteq> cd_offset p div cd_bs p
                 then pad_dirblk e p else p);
            ent = put e 4 (de_inode d) @ put e 2 (of_nat reclen :: u16)
                  @ [dirent_type (de_name_len d), of_nat n] @ strncpy_bytes n (de_name d) @ [0]
        in p\<lparr>cd_buf := overlay (cd_buf p) (cd_offset p) ent, cd_prev_offset := cd_offset p,
             cd_offset := cd_offset p + reclen\<rparr>)"

text \<open>The conversion of a whole directory; the buffer of twice its size starts with arbitrary bytes.\<close>

definition convert_entries :: "endian \<Rightarrow> byte list \<Rightarrow> ext2_dir_entry list \<Rightarrow> byte list
    \<Rightarrow> convert_dir_context" where
  "convert_entries e excl ds buf =
     (let p = fold (convert_dir e excl) ds
                \<lparr> cd_buf = buf, cd_prev_offset = 0, cd_offset = 0, cd_bs = min DIRBLKSIZ_DUMP TP_BSIZE \<rparr>
      in if cd_offset p mod cd_bs p \<noteq> 0 then pad_dirblk e p else p)"

text \<open>The loop of \<open>dumpdirino\<close>: each record of the directory has a header of its own.\<close>

function dirino_loop :: "tcfg \<Rightarrow> dump_ino_t \<Rightarrow> byte list \<Rightarrow> nat \<Rightarrow> nat \<Rightarrow> writer \<Rightarrow> tape_stop + writer" where
  "dirino_loop cfg ino buf dir_size sz w =
     (if sz < dir_size then
        bindE (writeheader cfg ino (set_spcl (\<lambda>s. (set_c_addr [1] s)\<lparr>c_count := 1\<rparr>) w)) (\<lambda>w.
        bindE (writerec cfg (at buf sz TP_BSIZE) False w) (\<lambda>w.
        dirino_loop cfg ino buf dir_size (sz + TP_BSIZE) (set_spcl (\<lambda>s. s\<lparr>c_type := TS_ADDR\<rparr>) w)))
      else Inr w)"
  by pat_completeness auto
termination
  by (relation "measure (\<lambda>(cfg, ino, buf, dir_size, sz, w). dir_size - sz)") (auto simp: TP_BSIZE_def)

definition dumpdirino :: "tcfg \<Rightarrow> ext2fs \<Rightarrow> dinode \<Rightarrow> dump_ino_t \<Rightarrow> maps \<times> writer
    \<Rightarrow> tape_stop + maps \<times> writer" where
  "dumpdirino cfg fs dp ino mw =
     bindE (begin_inode cfg ino mw) (\<lambda>(m, w).
       if snd (fs_dir fs ino) \<noteq> 0 then Inl (Quit X_ABORT)
       else
         let cdc = convert_entries (byte_order cfg) (iexclude m) (fst (fs_dir fs ino))
                     (take ((2 * unat (di_size dp)) mod 2 ^ 32) (stack_junk fs));
             dir_size = cd_offset cdc;
             w = inode_header (bsd_inode dp dir_size) w
         in if file_mode dp = IFDIR \<and> dir_size > 0 then
              bindE (dirino_loop cfg ino (cd_buf cdc) dir_size 0 w) (\<lambda>w.
              bindE (dump_xattr cfg fs ino dp w) (\<lambda>w. Inr (m, w)))
            else Inr (m, w))"


section \<open>A file on the tape\<close>

text \<open>
  A file is a list of records, \<open>None\<close> for one that is not allocated.  \<open>file_recs\<close> says that the
  records \<open>out\<close> are the file, cut into the given segments: each has a header that satisfies \<open>P\<close> and
  tells by \<open>c_addr\<close> which of its records follow, and all headers but the first are continuations.
\<close>

definition somes :: "'a option list \<Rightarrow> 'a list" where
  "somes xs = concat (map (\<lambda>x. case x of None \<Rightarrow> [] | Some r \<Rightarrow> [r]) xs)"

lemma somes_simps [simp]:
  "somes [] = []" "somes (None # xs) = somes xs" "somes (Some r # xs) = r # somes xs"
  "somes (xs @ ys) = somes xs @ somes ys" "somes (replicate n None) = []" "somes (map Some rs) = rs"
  by (simp_all add: somes_def comp_def)

definition segment_header :: "(s_spcl \<Rightarrow> bool) \<Rightarrow> u32 \<Rightarrow> byte list option list \<Rightarrow> s_spcl \<Rightarrow> bool" where
  "segment_header P ty c s \<longleftrightarrow> wf_spcl s \<and> P s \<and> c_type s = ty \<and> c_magic s = NFS_MAGIC
     \<and> c_count s = of_nat (length c) \<and> length c \<le> TP_NINDIR
     \<and> (\<forall>i < length c. (c_data s ! i \<noteq> 0) = (c ! i \<noteq> None))"

fun file_recs :: "endian \<Rightarrow> (s_spcl \<Rightarrow> bool) \<Rightarrow> u32 \<Rightarrow> byte list option list list \<Rightarrow> byte list list \<Rightarrow> bool" where
  "file_recs e P ty [] out \<longleftrightarrow> out = []"
| "file_recs e P ty (c # cs) out \<longleftrightarrow>
     (\<exists>s rest. segment_header P ty c s \<and> out = encode_spcl e (mkchecksum e s) # somes c @ rest
        \<and> file_recs e P TS_ADDR cs rest)"

lemma file_recs_append:
  "file_recs e P ty xs o1 \<Longrightarrow> file_recs e P (if xs = [] then ty else TS_ADDR) ys o2 \<Longrightarrow>
     file_recs e P ty (xs @ ys) (o1 @ o2)"
proof (induction xs arbitrary: ty o1)
  case (Cons c cs)
  then obtain s rest where s: "segment_header P ty c s"
    "o1 = encode_spcl e (mkchecksum e s) # somes c @ rest" "file_recs e P TS_ADDR cs rest" by auto
  have "file_recs e P TS_ADDR (cs @ ys) (rest @ o2)" using Cons.IH [OF s(3)] Cons.prems(2) by simp
  then show ?case using s(1,2) by auto
qed simp

text \<open>The records of a list of disk blocks, a zero standing for a hole.\<close>

definition block_records :: "byte list \<Rightarrow> nat \<Rightarrow> nat \<Rightarrow> byte list option list" where
  "block_records img bsize b =
     (if b = 0 then replicate (bsize div TP_BSIZE) None
      else map Some (fs_recs img bsize b (bsize div TP_BSIZE)))"

definition blocks_records :: "byte list \<Rightarrow> nat \<Rightarrow> nat list \<Rightarrow> byte list option list" where
  "blocks_records img bsize bs = concat (map (block_records img bsize) bs)"

lemma length_block_records [simp]: "length (block_records img bsize b) = bsize div TP_BSIZE"
  by (simp add: block_records_def)

lemma blocks_records_simps [simp]:
  "blocks_records img bsize [] = []"
  "blocks_records img bsize (b # bs) = block_records img bsize b @ blocks_records img bsize bs"
  "blocks_records img bsize (xs @ ys) = blocks_records img bsize xs @ blocks_records img bsize ys"
  by (simp_all add: blocks_records_def)

lemma length_blocks_records [simp]:
  "length (blocks_records img bsize bs) = bsize div TP_BSIZE * length bs"
  by (induction bs) simp_all

lemma nth_blocks_records:
  assumes "0 < bsize div TP_BSIZE"
  shows "j < bsize div TP_BSIZE * length bs \<Longrightarrow>
    (blocks_records img bsize bs ! j = None) = (bs ! (j div (bsize div TP_BSIZE)) = 0)"
proof (induction bs arbitrary: j)
  case (Cons b bs)
  let ?t = "bsize div TP_BSIZE"
  show ?case
  proof (cases "j < ?t")
    case True
    then show ?thesis by (simp add: nth_append block_records_def)
  next
    case False
    then have "j div ?t = Suc ((j - ?t) div ?t)" using assms by (simp add: le_div_geq)
    moreover have "j - ?t < ?t * length bs" using Cons.prems False by simp
    ultimately show ?thesis using False Cons.IH by (simp add: nth_append)
  qed
qed simp

lemma drop_blocks_records:
  "drop (bsize div TP_BSIZE * k) (blocks_records img bsize bs) = blocks_records img bsize (drop k bs)"
proof (induction k arbitrary: bs)
  case (Suc k)
  then show ?case by (cases bs) simp_all
qed simp

text \<open>What an emission keeps of the header record, and what it does to the writer.\<close>

definition same_file :: "s_spcl \<Rightarrow> s_spcl \<Rightarrow> bool" where
  "same_file s s' \<longleftrightarrow> c_dinode s' = c_dinode s \<and> c_date s' = c_date s \<and> c_ddate s' = c_ddate s
     \<and> c_volume s' = c_volume s \<and> c_flags s' = c_flags s \<and> c_extattributes s' = c_extattributes s"

lemma same_file_refl: "same_file s s"
  by (simp add: same_file_def)

lemma same_file_trans: "same_file a b \<Longrightarrow> same_file b c \<Longrightarrow> same_file a c"
  by (simp add: same_file_def)

definition emits :: "tcfg \<Rightarrow> byte list \<Rightarrow> byte list list \<Rightarrow> writer \<Rightarrow> writer \<Rightarrow> bool" where
  "emits cfg img out w w' \<longleftrightarrow> winv cfg w' \<and> stream img w' = stream img w @ out
     \<and> same_file (spcl w) (spcl w') \<and> newtape w' = newtape w \<and> cur_inode w' = cur_inode w
     \<and> tapeno w' = tapeno w"

lemma emits_trans: "emits cfg img o1 w1 w2 \<Longrightarrow> emits cfg img o2 w2 w3 \<Longrightarrow> emits cfg img (o1 @ o2) w1 w3"
  by (auto simp: emits_def intro: same_file_trans)

lemma emits_refl: "winv cfg w \<Longrightarrow> emits cfg img [] w w"
  by (simp add: emits_def same_file_refl)

lemma wrote_emits: "wrote cfg img out w w' \<Longrightarrow> emits cfg img out w w'"
  by (simp add: wrote_def emits_def same_file_def)

text \<open>Changes of \<open>spcl\<close> between two records touch nothing else.\<close>

lemma set_spcl_fields [writer_simps]:
  "spcl (set_spcl f w) = f (spcl w)" "cur_slave (set_spcl f w) = cur_slave w"
  "commands (set_spcl f w) = commands w" "newtape (set_spcl f w) = newtape w"
  "cur_inode (set_spcl f w) = cur_inode w" "tapeno (set_spcl f w) = tapeno w"
  "trecno (set_spcl f w) = trecno w"
  by (simp_all add: set_spcl_def writer_simps)

lemma winv_set_spcl:
  "winv cfg w \<Longrightarrow> wf_spcl (f (spcl w)) \<Longrightarrow> c_tapea (f (spcl w)) = c_tapea (spcl w) \<Longrightarrow> winv cfg (set_spcl f w)"
  by (simp add: winv_def blocks_ok_def set_spcl_def writer_simps)

lemma stream_set_spcl [writer_simps]: "stream img (set_spcl f w) = stream img w"
  by (simp add: stream_def writer_simps)

lemma emits_set_spcl:
  assumes "emits cfg img out w w'" "same_file (spcl w') (f (spcl w'))" "wf_spcl (f (spcl w'))"
    "c_tapea (f (spcl w')) = c_tapea (spcl w')"
  shows "emits cfg img out w (set_spcl f w')"
  using assms winv_set_spcl [of cfg w' f] by (auto simp: emits_def writer_simps intro: same_file_trans)

lemma winv_wf: "winv cfg w \<Longrightarrow> wf_spcl (spcl w)"
  by (simp add: winv_def blocks_ok_def)

lemma set_c_addr_fields [simp]:
  "c_type (set_c_addr bs s) = c_type s" "c_tapea (set_c_addr bs s) = c_tapea s"
  "c_dinode (set_c_addr bs s) = c_dinode s" "c_count (set_c_addr bs s) = c_count s"
  "c_flags (set_c_addr bs s) = c_flags s" "c_date (set_c_addr bs s) = c_date s"
  "c_ddate (set_c_addr bs s) = c_ddate s" "c_volume (set_c_addr bs s) = c_volume s"
  "c_extattributes (set_c_addr bs s) = c_extattributes s"
  "c_data (set_c_addr bs s) = overlay (c_data s) 0 bs"
  by (simp_all add: set_c_addr_def)

lemma length_overlay: "off + length bs \<le> length buf \<Longrightarrow> length (overlay buf off bs) = length buf"
  by (simp add: overlay_def)

lemma wf_set_c_addr: "wf_spcl s \<Longrightarrow> length bs \<le> TP_NINDIR \<Longrightarrow> wf_spcl (set_c_addr bs s)"
  by (simp add: wf_spcl_def set_c_addr_def length_overlay)

lemma nth_overlay0: "i < length bs \<Longrightarrow> overlay buf 0 bs ! i = bs ! i"
  by (simp add: overlay_def nth_append)


section \<open>Writing a header and the blocks behind it\<close>

lemma writeheader_emits:
  fixes ino :: dump_ino_t
  assumes "steady cfg" "winv cfg w"
  defines "s \<equiv> (spcl w)\<lparr>c_inumber := ino, c_magic := NFS_MAGIC\<rparr>"
  obtains w' where "writeheader cfg ino w = Inr w'"
    "emits cfg img [encode_spcl (byte_order cfg) (mkchecksum (byte_order cfg) s)] w w'"
    "c_type (spcl w') = c_type (spcl w)" "c_count (spcl w') = c_count (spcl w)"
proof -
  let ?f = "\<lambda>_. mkchecksum (byte_order cfg) s"
  have i: "winv cfg (set_spcl ?f w)"
    using winv_set_spcl [OF assms(2), of ?f] winv_wf [OF assms(2)] by (simp add: s_def)
  obtain w' where "writerec cfg (encode_spcl (byte_order cfg) (mkchecksum (byte_order cfg) s)) True
      (set_spcl ?f w) = Inr w'"
    "wrote cfg img [encode_spcl (byte_order cfg) (mkchecksum (byte_order cfg) s)] (set_spcl ?f w) w'"
    using writerec_wrote [OF assms(1) i, of "encode_spcl (byte_order cfg) (mkchecksum (byte_order cfg) s)" True img]
    by blast
  moreover have "writeheader cfg ino w = writerec cfg (encode_spcl (byte_order cfg) (mkchecksum (byte_order cfg) s)) True (set_spcl ?f w)"
    by (simp add: writeheader_def writeheader_with_def writerec_def Let_def set_spcl_def s_def)
  ultimately show ?thesis
    using that by (simp add: wrote_def emits_def writer_simps same_file_def s_def)
qed

lemma somes_take_append:
  "somes (take n (xs @ ys)) = somes (take n xs) @ somes (take (n - length xs) ys)"
  by simp

lemma take_upt_min: "take n [0..<m] = [0..<min n m]"
  by (metis add_0 min_def nat_le_linear take_all length_upt minus_nat.diff_0 take_upt)

lemma blksout_data_emits:
  assumes st: "steady cfg" and b: "TP_BSIZE dvd bsize" "0 < bsize"
  shows "winv cfg w \<Longrightarrow> \<exists>w'. blksout_data cfg bsize count bs j w = Inr w'
    \<and> wrote cfg img (somes (take (count - j) (blocks_records img bsize bs))) w w'"
proof (induction bs arbitrary: j w)
  case Nil
  then show ?case by (simp add: wrote_refl)
next
  case (Cons a bs)
  let ?t = "bsize div TP_BSIZE"
  obtain q where q: "bsize = 1024 * q" using b(1) by (auto simp: TP_BSIZE_def elim!: dvdE)
  have "bsize = 512 * (2 * q)" using q by simp
  then have t: "0 < ?t" "512 dvd bsize" "?t * TP_BSIZE = bsize"
    using b(2) q by (simp_all add: TP_BSIZE_def)
  show ?case
  proof (cases "j < count")
    case False
    then show ?thesis using Cons.prems by (simp add: wrote_refl)
  next
    case True
    define sz where "sz = (if j + ?t \<le> count then bsize else (count - j) * TP_BSIZE)"
    have sz: "sz div TP_BSIZE = min ?t (count - j)" by (auto simp: sz_def TP_BSIZE_def)
    have take_fs: "map Some (fs_recs img bsize a (min ?t (count - j)))
        = take (count - j) (map Some (fs_recs img bsize a ?t))"
      by (simp add: fs_recs_def take_map take_upt_min min.commute)
    obtain w1 where w1: "(if a \<noteq> 0 then dumpblock cfg bsize a sz w else Inr w) = Inr w1"
      "wrote cfg img (somes (take (count - j) (block_records img bsize a))) w w1"
    proof (cases "a = 0")
      case True
      then show ?thesis using that [of w] Cons.prems wrote_refl [OF Cons.prems, of img]
        by (simp add: block_records_def)
    next
      case False
      then show ?thesis
        using that dumpblock_wrote [OF st Cons.prems False t(2) b(2), of sz img] sz
        by (metis (no_types, lifting) block_records_def somes_simps(6) take_fs)
    qed
    have "winv cfg w1" using w1(2) by (simp add: wrote_def)
    from Cons.IH [OF this, of "j + ?t"] obtain w2 where
      w2: "blksout_data cfg bsize count bs (j + ?t) w1 = Inr w2"
      "wrote cfg img (somes (take (count - (j + ?t)) (blocks_records img bsize bs))) w1 w2" by blast
    have "wrote cfg img (somes (take (count - j) (blocks_records img bsize (a # bs)))) w w2"
      using wrote_trans [OF w1(2) w2(2)] by (simp add: diff_diff_left)
    moreover have "blksout_data cfg bsize count (a # bs) j w = Inr w2"
      using True by (simp only: blksout_data.simps if_True w1(1) w2(1) bindE.simps flip: sz_def)
    ultimately show ?thesis by blast
  qed
qed


lemma file_recs_mono:
  assumes "\<And>s. P s \<Longrightarrow> Q s"
  shows "file_recs e P ty segs out \<Longrightarrow> file_recs e Q ty segs out"
proof (induction segs arbitrary: ty out)
  case (Cons c segs)
  then obtain s rest where "segment_header P ty c s"
    "out = encode_spcl e (mkchecksum e s) # somes c @ rest" "file_recs e P TS_ADDR segs rest" by auto
  moreover from this have "segment_header Q ty c s" using assms by (simp add: segment_header_def)
  ultimately show ?case using Cons.IH by auto
qed simp

declare blksout_loop.simps [simp del] dirino_loop.simps [simp del] write_buffer.simps [simp del]

text \<open>
  An emission of segments: what \<open>blksout\<close> and its callers do, from a header of type \<open>c_type\<close> on.
\<close>

definition of_inode :: "s_spcl \<Rightarrow> dump_ino_t \<Rightarrow> s_spcl \<Rightarrow> bool" where
  "of_inode s0 ino s \<longleftrightarrow> same_file s0 s \<and> c_inumber s = ino"

definition emits_file :: "tcfg \<Rightarrow> byte list \<Rightarrow> nat \<Rightarrow> dump_ino_t \<Rightarrow> byte list option list \<Rightarrow> writer \<Rightarrow> writer \<Rightarrow> bool" where
  "emits_file cfg img k ino recs w w' \<longleftrightarrow>
     (\<exists>segs out. emits cfg img out w w' \<and> concat segs = recs \<and> [] \<notin> set segs
        \<and> (\<forall>c \<in> set segs. k dvd length c)
        \<and> file_recs (byte_order cfg) (of_inode (spcl w) ino) (c_type (spcl w)) segs out
        \<and> c_type (spcl w') = (if recs = [] then c_type (spcl w) else TS_ADDR))"

lemma emits_file_refl: "winv cfg w \<Longrightarrow> emits_file cfg img k ino [] w w"
  unfolding emits_file_def by (rule exI [of _ "[]"], rule exI [of _ "[]"]) (simp add: emits_refl)

lemma of_inode_trans: "same_file a b \<Longrightarrow> of_inode b ino s \<Longrightarrow> of_inode a ino s"
  by (auto simp: of_inode_def intro: same_file_trans)

lemma emits_file_trans:
  assumes "emits_file cfg img k ino r1 w1 w2" "emits_file cfg img k ino r2 w2 w3"
  shows "emits_file cfg img k ino (r1 @ r2) w1 w3"
proof -
  obtain s1 o1 where 1: "emits cfg img o1 w1 w2" "concat s1 = r1" "[] \<notin> set s1"
    "file_recs (byte_order cfg) (of_inode (spcl w1) ino) (c_type (spcl w1)) s1 o1"
    "c_type (spcl w2) = (if r1 = [] then c_type (spcl w1) else TS_ADDR)"
    "\<forall>c \<in> set s1. k dvd length c"
    using assms(1) by (auto simp: emits_file_def)
  obtain s2 o2 where 2: "emits cfg img o2 w2 w3" "concat s2 = r2" "[] \<notin> set s2"
    "file_recs (byte_order cfg) (of_inode (spcl w2) ino) (c_type (spcl w2)) s2 o2"
    "c_type (spcl w3) = (if r2 = [] then c_type (spcl w2) else TS_ADDR)"
    "\<forall>c \<in> set s2. k dvd length c"
    using assms(2) by (auto simp: emits_file_def)
  have e: "r1 = [] \<longleftrightarrow> s1 = []" using 1(2,3) by (cases s1) auto
  have "file_recs (byte_order cfg) (of_inode (spcl w1) ino) (c_type (spcl w2)) s2 o2"
    by (rule file_recs_mono [OF _ 2(4)]) (use 1(1) in \<open>auto simp: emits_def intro: of_inode_trans\<close>)
  then have "file_recs (byte_order cfg) (of_inode (spcl w1) ino) (c_type (spcl w1)) (s1 @ s2) (o1 @ o2)"
    using file_recs_append [OF 1(4)] 1(5) e by simp
  then show ?thesis
    unfolding emits_file_def using 1 2 emits_trans [OF 1(1) 2(1)]
    by (intro exI [of _ "s1 @ s2"] exI [of _ "o1 @ o2"]) auto
qed

lemma emits_file_winv: "emits_file cfg img k ino recs w w' \<Longrightarrow> winv cfg w'"
  by (auto simp: emits_file_def emits_def)

lemma concat_segment: "c \<noteq> [] \<Longrightarrow> concat [c] = c \<and> [] \<notin> set [c]"
  by simp

lemma blksout_loop_emits:
  assumes st: "steady cfg" and b: "TP_BSIZE dvd bsize" "0 < bsize" "bsize div TP_BSIZE dvd TP_NINDIR"
    and len: "blks \<le> bsize div TP_BSIZE * length blkp" "bsize div TP_BSIZE dvd blks"
  shows "winv cfg w \<Longrightarrow> TP_NINDIR dvd i \<Longrightarrow>
    \<exists>w'. blksout_loop cfg bsize blks blkp ino i w = Inr w'
      \<and> emits_file cfg img (bsize div TP_BSIZE) ino (drop i (take blks (blocks_records img bsize blkp))) w w'"
proof (induction "blks - i" arbitrary: i w rule: less_induct)
  case less
  let ?t = "bsize div TP_BSIZE" and ?R = "blocks_records img bsize blkp"
  show ?case
  proof (cases "i < blks")
    case False
    then show ?thesis using less.prems emits_file_refl by (simp add: blksout_loop.simps)
  next
    case True
    define count where "count = min blks (i + TP_NINDIR)"
    have cnt: "(if i + TP_NINDIR > blks then blks else i + TP_NINDIR) = count" "i < count"
      "count \<le> blks" "count - i \<le> TP_NINDIR"
      using True by (auto simp: count_def TP_NINDIR_def)
    define c where "c = drop i (take count ?R)"
    have t: "0 < ?t" using b by (auto simp: TP_BSIZE_def elim!: dvdE)
    have lc: "length c = count - i" using cnt len(1) by (simp add: c_def)
    have "TP_NINDIR dvd i" by (rule less.prems(2))
    then have "?t dvd i" using b(3) by (meson dvd_trans)
    moreover from this have "?t dvd count" using len(2) b(3) by (auto simp: count_def min_def)
    ultimately have dc: "?t dvd length c" using lc by (simp add: dvd_diff_nat)
    let ?fl = "addr_flags ?t blkp i count"
    let ?f = "\<lambda>s. (set_c_addr ?fl s)\<lparr>c_count := of_nat (count - i)\<rparr>"
    have lf: "length ?fl = count - i" by (simp add: addr_flags_def)
    have wf: "wf_spcl (?f (spcl w))"
      using wf_set_c_addr [OF winv_wf [OF less.prems(1)], of ?fl] lf cnt(4) by simp
    have i1: "winv cfg (set_spcl ?f w)" using winv_set_spcl [OF less.prems(1), of ?f] wf by simp
    let ?s = "(?f (spcl w))\<lparr>c_inumber := ino, c_magic := NFS_MAGIC\<rparr>"
    obtain w1 where w1: "writeheader cfg ino (set_spcl ?f w) = Inr w1"
      "emits cfg img [encode_spcl (byte_order cfg) (mkchecksum (byte_order cfg) ?s)] (set_spcl ?f w) w1"
      using writeheader_emits [OF st i1, of ino img] by (auto simp: writer_simps)
    have "(c_data ?s ! k \<noteq> 0) = (c ! k \<noteq> None)" if k: "k < length c" for k
    proof -
      have "i + k < ?t * length blkp" "i + k < count" using k lc cnt len(1) by auto
      then show ?thesis
        using nth_blocks_records [OF t, of "i + k" blkp img] k lc lf
        by (simp add: nth_overlay0 addr_flags_def c_def)
    qed
    then have hdr: "segment_header (of_inode (spcl w) ino) (c_type (spcl w)) c ?s"
      using wf lc cnt(4) by (simp add: segment_header_def of_inode_def same_file_def)
    have "TP_NINDIR dvd i" by (rule less.prems(2))
    then have ti: "?t * (i div ?t) = i" using b(3) by (meson dvd_mult_div_cancel dvd_trans)
    have data: "somes (take (count - i) (blocks_records img bsize (drop (i div ?t) blkp))) = somes c"
      using drop_blocks_records [of bsize "i div ?t" img blkp] ti by (simp add: c_def drop_take)
    have "winv cfg w1" using w1(2) by (simp add: emits_def)
    from blksout_data_emits [OF st b(1,2) this, of count "drop (i div ?t) blkp" i img] data
    obtain w2 where w2: "blksout_data cfg bsize count (drop (i div ?t) blkp) i w1 = Inr w2"
      "wrote cfg img (somes c) w1 w2" by auto
    let ?g = "\<lambda>s. s\<lparr>c_type := TS_ADDR\<rparr>"
    have e2: "emits cfg img (encode_spcl (byte_order cfg) (mkchecksum (byte_order cfg) ?s) # somes c) (set_spcl ?f w) w2"
      using emits_trans [OF w1(2) wrote_emits [OF w2(2)]] by simp
    have "emits cfg img (encode_spcl (byte_order cfg) (mkchecksum (byte_order cfg) ?s) # somes c) w (set_spcl ?g w2)"
      using e2 winv_wf [of cfg w2] winv_set_spcl [of cfg w2 ?g]
      by (simp add: emits_def writer_simps same_file_def)
    then have e3: "emits_file cfg img (bsize div TP_BSIZE) ino c w (set_spcl ?g w2)"
      unfolding emits_file_def
      using hdr lc cnt(2) dc by (intro exI [of _ "[c]"] exI conjI) (auto simp: writer_simps)
    have "winv cfg (set_spcl ?g w2)" by (rule emits_file_winv [OF e3])
    moreover have "TP_NINDIR dvd i + TP_NINDIR" using less.prems(2) by simp
    moreover have "blks - (i + TP_NINDIR) < blks - i" using True by (simp add: TP_NINDIR_def)
    ultimately obtain w3 where
      w3: "blksout_loop cfg bsize blks blkp ino (i + TP_NINDIR) (set_spcl ?g w2) = Inr w3"
      "emits_file cfg img (bsize div TP_BSIZE) ino (drop (i + TP_NINDIR) (take blks ?R)) (set_spcl ?g w2) w3"
      using less.hyps by blast
    have "c @ drop (i + TP_NINDIR) (take blks ?R) = drop i (take blks ?R)"
    proof (cases "i + TP_NINDIR \<le> blks")
      case True
      then have "c = take TP_NINDIR (drop i (take blks ?R))"
        by (simp only: c_def count_def take_drop take_take min.absorb1 min.absorb2 add.commute)
      then show ?thesis by (metis add.commute append_take_drop_id drop_drop)
    next
      case False
      then show ?thesis by (simp add: c_def count_def min_def)
    qed
    then have "emits_file cfg img (bsize div TP_BSIZE) ino (drop i (take blks ?R)) w w3"
      using emits_file_trans [OF e3 w3(2)] by simp
    moreover have "blksout_loop cfg bsize blks blkp ino i w = Inr w3"
    proof -
      have "set_spcl (\<lambda>s. s\<lparr>c_count := of_nat (count - i)\<rparr>) (set_spcl (set_c_addr ?fl) w) = set_spcl ?f w"
        by (simp add: set_spcl_def)
      then show ?thesis
        using True by (subst blksout_loop.simps)
          (simp only: Let_def cnt(1) if_True w1(1) w2(1) w3(1) bindE.simps)
    qed
    ultimately show ?thesis by blast
  qed
qed


section \<open>From the blocks of an inode to its records\<close>

text \<open>
  A file system whose fragments are its blocks, of a size that divides the records of a header.
\<close>

definition good_fs :: "ext2fs \<Rightarrow> bool" where
  "good_fs fs \<longleftrightarrow> TP_BSIZE dvd bsize_of fs \<and> 0 < bsize_of fs \<and> bsize_of fs div TP_BSIZE dvd TP_NINDIR
     \<and> fs_fsize fs = bsize_of fs \<and> frags_per_block fs = 1"

lemma howmany_exact: "TP_BSIZE dvd b \<Longrightarrow> howmany (n * b) TP_BSIZE = b div TP_BSIZE * n"
proof -
  assume "TP_BSIZE dvd b"
  then obtain q where "b = TP_BSIZE * q" by auto
  then have "n * b + (TP_BSIZE - 1) = (TP_BSIZE - 1) + (n * q) * TP_BSIZE" by simp
  moreover have "((TP_BSIZE - 1) + (n * q) * TP_BSIZE) div TP_BSIZE = n * q"
    using div_mult_self1 [of TP_BSIZE "TP_BSIZE - 1" "n * q"] by (simp add: TP_BSIZE_def)
  ultimately have "howmany (n * b) TP_BSIZE = n * q"
    unfolding howmany_def by (simp only:)
  then show ?thesis using \<open>b = TP_BSIZE * q\<close> by (simp add: TP_BSIZE_def)
qed

lemma blksout_emits:
  assumes "steady cfg" "good_fs fs" "winv cfg w"
  shows "\<exists>w'. blksout cfg fs blkp (length blkp) ino w = Inr w'
    \<and> emits_file cfg img (bsize_of fs div TP_BSIZE) ino (blocks_records img (bsize_of fs) blkp) w w'"
  using blksout_loop_emits [OF assms(1), of "bsize_of fs" "bsize_of fs div TP_BSIZE * length blkp" blkp w 0 ino img]
    assms by (simp add: blksout_def good_fs_def howmany_exact)

text \<open>
  The state of the iteration: of the blocks \<open>bs\<close> seen so far, all but the last \<open>buf\<close> are out.
\<close>

definition pending :: "tcfg \<Rightarrow> ext2fs \<Rightarrow> byte list \<Rightarrow> dump_ino_t \<Rightarrow> nat \<Rightarrow> writer \<Rightarrow> nat list \<Rightarrow> nat list \<times> writer \<Rightarrow> bool" where
  "pending cfg fs img ino bmax w0 bs = (\<lambda>(buf, w). length buf < bmax \<and>
     (\<exists>done. bs = done @ buf \<and> emits_file cfg img (bsize_of fs div TP_BSIZE) ino (blocks_records img (bsize_of fs) done) w0 w))"

lemma push_block_pending:
  assumes st: "steady cfg" "good_fs fs" and p: "pending cfg fs img ino bmax w0 bs (buf, w)"
  shows "\<exists>bw. push_block cfg fs bmax ino b (buf, w) = Inr bw \<and> pending cfg fs img ino bmax w0 (bs @ [b]) bw"
proof -
  obtain ds where ds: "length buf < bmax" "bs = ds @ buf"
    "emits_file cfg img (bsize_of fs div TP_BSIZE) ino (blocks_records img (bsize_of fs) ds) w0 w"
    using p by (auto simp: pending_def)
  show ?thesis
  proof (cases "length (buf @ [b]) = bmax")
    case False
    then show ?thesis using ds by (auto simp: push_block_def Let_def pending_def)
  next
    case True
    obtain w' where w': "blksout cfg fs (buf @ [b]) (length (buf @ [b])) ino w = Inr w'"
      "emits_file cfg img (bsize_of fs div TP_BSIZE) ino (blocks_records img (bsize_of fs) (buf @ [b])) w w'"
      using blksout_emits [OF st emits_file_winv [OF ds(3)], of "buf @ [b]" ino img] by blast
    have "emits_file cfg img (bsize_of fs div TP_BSIZE) ino (blocks_records img (bsize_of fs) (bs @ [b])) w0 w'"
      using emits_file_trans [OF ds(3) w'(2)] ds(2) by simp
    moreover have "push_block cfg fs bmax ino b (buf, w) = Inr ([], w')"
      using True w'(1) by (simp add: push_block_def Let_def)
    ultimately show ?thesis using ds(1) by (auto simp: pending_def)
  qed
qed

lemma push_holes_pending:
  assumes "steady cfg" "good_fs fs"
  shows "pending cfg fs img ino bmax w0 bs bw \<Longrightarrow>
    \<exists>bw'. push_holes cfg fs bmax ino n bw = Inr bw' \<and> pending cfg fs img ino bmax w0 (bs @ replicate n 0) bw'"
proof (induction n arbitrary: bs bw)
  case (Suc n)
  obtain buf w where bw: "bw = (buf, w)" by (cases bw)
  obtain b1 where b1: "push_block cfg fs bmax ino 0 bw = Inr b1"
    "pending cfg fs img ino bmax w0 (bs @ [0]) b1"
    using push_block_pending [OF assms] Suc.prems bw by blast
  from Suc.IH [OF b1(2)] b1(1) show ?case by (simp add: replicate_append_same)
qed simp

text \<open>
  The blocks that the calls describe: the block of logical number \<open>i\<close>, zero where there is none.
\<close>

definition logical_blocks :: "(nat \<times> nat) list \<Rightarrow> nat \<Rightarrow> nat list" where
  "logical_blocks calls n = map (\<lambda>i. case map_of calls i of Some b \<Rightarrow> b | None \<Rightarrow> 0) [0..<n]"

definition calls_end :: "nat \<Rightarrow> (nat \<times> nat) list \<Rightarrow> nat" where
  "calls_end n calls = (if calls = [] then n else Suc (fst (last calls)))"

fun call_blocks :: "nat \<Rightarrow> (nat \<times> nat) list \<Rightarrow> nat list" where
  "call_blocks n [] = []"
| "call_blocks n ((i, b) # calls) = replicate (i - n) 0 @ b # call_blocks (Suc i) calls"

lemma calls_end_Cons [simp]: "calls_end n ((i, b) # calls) = calls_end (Suc i) calls" "calls_end n [] = n"
  by (simp_all add: calls_end_def)

lemma iterate_pending:
  assumes "steady cfg" "good_fs fs"
  shows "pending cfg fs img ino bmax w0 bs bw \<Longrightarrow>
    \<exists>bw'. block_iterate (dumponeblock cfg fs bmax ino) calls (n, bw) = Inr (calls_end n calls, bw')
      \<and> pending cfg fs img ino bmax w0 (bs @ call_blocks n calls) bw'"
proof (induction calls arbitrary: bs bw n)
  case Nil
  then show ?case by simp
next
  case (Cons c calls)
  obtain i b where c: "c = (i, b)" by (cases c)
  obtain b1 where b1: "push_holes cfg fs bmax ino (i - n) bw = Inr b1"
    "pending cfg fs img ino bmax w0 (bs @ replicate (i - n) 0) b1"
    using push_holes_pending [OF assms Cons.prems] by blast
  obtain b2 where b2: "push_block cfg fs bmax ino b b1 = Inr b2"
    "pending cfg fs img ino bmax w0 ((bs @ replicate (i - n) 0) @ [b]) b2"
    using push_block_pending [OF assms] b1(2) by (cases b1) blast
  have "dumponeblock cfg fs bmax ino (i, b) (n, bw) = Inr (Suc i, b2)"
    using b1(1) b2(1) by (simp add: dumponeblock_def)
  moreover obtain b3 where
    "block_iterate (dumponeblock cfg fs bmax ino) calls (Suc i, b2) = Inr (calls_end (Suc i) calls, b3)"
    "pending cfg fs img ino bmax w0 (((bs @ replicate (i - n) 0) @ [b]) @ call_blocks (Suc i) calls) b3"
    using Cons.IH [OF b2(2)] by blast
  ultimately show ?case using c by simp
qed

lemma calls_end_ge:
  "sorted_wrt (<) (map fst calls) \<Longrightarrow> \<forall>x \<in> fst ` set calls. n \<le> x \<Longrightarrow> n \<le> calls_end n calls"
  by (cases calls rule: rev_cases) (auto simp: calls_end_def)

lemma call_blocks_map:
  "sorted_wrt (<) (map fst calls) \<Longrightarrow> \<forall>x \<in> fst ` set calls. n \<le> x \<Longrightarrow>
     call_blocks n calls = map (\<lambda>i. case map_of calls i of Some b \<Rightarrow> b | None \<Rightarrow> 0) [n..<calls_end n calls]"
proof (induction calls arbitrary: n)
  case (Cons c calls)
  obtain i b where c: "c = (i, b)" by (cases c)
  let ?l = "\<lambda>cs j. case map_of cs j of Some b \<Rightarrow> b | None \<Rightarrow> (0 :: nat)"
  have s: "sorted_wrt (<) (map fst calls)" and ge: "\<forall>x \<in> fst ` set calls. Suc i \<le> x" and n: "n \<le> i"
    using Cons.prems c by (auto simp: Suc_le_eq)
  note e = calls_end_ge [OF s ge]
  have "map_of (c # calls) j = None" if "j < i" for j
    using that ge c by (force simp: map_of_eq_None_iff)
  then have h: "map (?l (c # calls)) [n..<i] = replicate (i - n) 0"
    by (intro nth_equalityI) (simp_all del: map_of.simps)
  have t: "map (?l (c # calls)) [Suc i..<calls_end (Suc i) calls] = call_blocks (Suc i) calls"
    unfolding Cons.IH [OF s ge] using c by (intro map_cong) auto
  have "[n..<calls_end (Suc i) calls] = [n..<i] @ i # [Suc i..<calls_end (Suc i) calls]"
    using e n by (metis Suc_le_lessD le_add_diff_inverse less_imp_le_nat upt_add_eq_append upt_conv_Cons)
  then show ?case using h t c by simp
qed simp

lemma call_blocks_logical:
  "sorted_wrt (<) (map fst calls) \<Longrightarrow> call_blocks 0 calls = logical_blocks calls (calls_end 0 calls)"
  by (simp add: call_blocks_map logical_blocks_def)

lemma logical_blocks_beyond:
  assumes "sorted_wrt (<) (map fst calls)"
  shows "logical_blocks calls (calls_end 0 calls + k) = logical_blocks calls (calls_end 0 calls) @ replicate k 0"
proof -
  have "map_of calls j = None" if "calls_end 0 calls \<le> j" for j
  proof -
    have "x < Suc (fst (last calls))" if x: "x \<in> fst ` set calls" for x
      using assms x by (cases calls rule: rev_cases) (auto simp: sorted_wrt_append)
    then show ?thesis using that by (fastforce simp: calls_end_def map_of_eq_None_iff split: if_splits)
  qed
  then have "map (\<lambda>i. case map_of calls i of Some b \<Rightarrow> b | None \<Rightarrow> 0)
      [calls_end 0 calls..<calls_end 0 calls + k] = replicate k 0"
    by (intro nth_equalityI) simp_all
  then show ?thesis unfolding logical_blocks_def upt_add_eq_append [OF le0] map_append by simp
qed

text \<open>
  The number of blocks on the tape: those of the calls, or as many as the size needs.
\<close>

definition file_blocks :: "ext2fs \<Rightarrow> dump_ino_t \<Rightarrow> nat \<Rightarrow> nat list" where
  "file_blocks fs ino isize =
     logical_blocks (fs_blocks fs ino) (max (calls_end 0 (fs_blocks fs ino)) (howmany isize (bsize_of fs)))"

lemma howmany_minus:
  assumes "n * b < isize" "0 < b"
  shows "n + howmany (isize - n * b) b = howmany isize b" "n < howmany isize b"
proof -
  have "isize + (b - 1) = (isize - n * b + (b - 1)) + n * b" using assms(1) by simp
  then have "howmany isize b = n + howmany (isize - n * b) b"
    unfolding howmany_def using assms(2) by (metis add.commute div_mult_self1 less_numeral_extra(3) mult.commute)
  then show "n + howmany (isize - n * b) b = howmany isize b" by simp
  moreover have "0 < howmany (isize - n * b) b"
    using assms by (simp add: howmany_def div_greater_zero_iff)
  ultimately show "n < howmany isize b" by simp
qed

lemma howmany_le: "isize \<le> n * b \<Longrightarrow> 0 < b \<Longrightarrow> howmany isize b \<le> n"
  unfolding howmany_def by (simp add: div_less_iff_less_mult less_Suc_eq_le [symmetric])

lemma dump_blocks_emits:
  assumes st: "steady cfg" "good_fs fs" and w: "winv cfg w"
    and calls: "sorted_wrt (<) (map fst (fs_blocks fs ino))"
  shows "\<exists>w'. dump_blocks cfg fs ino isize w = Inr w'
    \<and> emits_file cfg img (bsize_of fs div TP_BSIZE) ino (blocks_records img (bsize_of fs) (file_blocks fs ino isize)) w w'"
proof -
  let ?bm = "bsize_of fs div 4 * frags_per_block fs" and ?c = "fs_blocks fs ino"
  let ?n = "calls_end 0 ?c" and ?b = "bsize_of fs"
  have b: "0 < ?b" "fs_fsize fs = ?b" using st(2) by (auto simp: good_fs_def)
  have "TP_BSIZE \<le> ?b" using st(2) by (auto simp: good_fs_def dest: dvd_imp_le)
  then have bm: "0 < ?bm" using st(2) by (simp add: good_fs_def TP_BSIZE_def)
  have "pending cfg fs img ino ?bm w [] ([], w)"
    using bm emits_file_refl [OF w] by (simp add: pending_def)
  from iterate_pending [OF st this, of ?c 0] obtain b1 where
    b1: "block_iterate (dumponeblock cfg fs ?bm ino) ?c (0, [], w) = Inr (?n, b1)"
    "pending cfg fs img ino ?bm w (logical_blocks ?c ?n) b1"
    by (auto simp: call_blocks_logical [OF calls])
  let ?k = "howmany (isize - ?n * ?b) ?b"
  obtain buf w2 where b2: "(if isize > ?n * fs_fsize fs
        then push_holes cfg fs ?bm ino (howmany (isize - ?n * fs_fsize fs) (fs_fsize fs)) b1
        else Inr b1) = Inr (buf, w2)"
    "pending cfg fs img ino ?bm w (file_blocks fs ino isize) (buf, w2)"
  proof (cases "isize > ?n * ?b")
    case True
    obtain bw where "push_holes cfg fs ?bm ino ?k b1 = Inr bw"
      "pending cfg fs img ino ?bm w (logical_blocks ?c ?n @ replicate ?k 0) bw"
      using push_holes_pending [OF st b1(2)] by blast
    moreover have "file_blocks fs ino isize = logical_blocks ?c ?n @ replicate ?k 0"
      using howmany_minus [OF True b(1)] logical_blocks_beyond [OF calls, of ?k]
      by (simp add: file_blocks_def max_def)
    ultimately show ?thesis using that True b(2) by (cases bw) simp
  next
    case False
    then have "file_blocks fs ino isize = logical_blocks ?c ?n"
      using howmany_le [of isize ?n ?b] b(1) by (simp add: file_blocks_def max_def)
    then show ?thesis using that b1(2) False b(2) by (cases b1) simp
  qed
  then obtain ds where ds: "file_blocks fs ino isize = ds @ buf"
    "emits_file cfg img (bsize_of fs div TP_BSIZE) ino (blocks_records img ?b ds) w w2"
    by (auto simp: pending_def)
  obtain w3 where "(if length buf > 0 then blksout cfg fs buf (length buf) ino w2 else Inr w2) = Inr w3"
    "emits_file cfg img (bsize_of fs div TP_BSIZE) ino (blocks_records img ?b buf) w2 w3"
    using blksout_emits [OF st emits_file_winv [OF ds(2)], of buf ino img]
      emits_file_refl [OF emits_file_winv [OF ds(2)], of img "bsize_of fs div TP_BSIZE" ino] by (cases buf) auto
  then show ?thesis
    using b1(1) b2(1) ds emits_file_trans [OF ds(2)] by (auto simp: dump_blocks_def Let_def)
qed

end
