(* ===== verification/Tapein.thy ===== *)
theory Tapein
  imports Dump_Inode
begin

text \<open>
  Reading a file back (restore/tape.c): \<open>converthead\<close> and \<open>gethead\<close> recognise a header, \<open>getfile\<close>
  passes the records of a file to a pair of handlers, \<open>findinode\<close> finds the next file, and the
  handlers \<open>xtrfile\<close>, \<open>xtrskip\<close>, \<open>xtrlnkfile\<close>, \<open>xtrmap\<close> and \<open>xtrxattr\<close> make files, links, maps and
  attributes of them.  The records come from \<open>readtape\<close>, here a list.  The theorems say when a file
  dumped by \<open>dumpino\<close> is restored byte for byte.
\<close>

section \<open>The state of restore\<close>

text \<open>
  How restore stops: \<open>panic\<close> when the operator lets it abort, an error exit, the end of the input;
  or it goes on for ever (a loop that makes no progress, or more than the fuel of a model), or it
  follows a null pointer.
\<close>

datatype restore_stop = Panicked | Exit_1 | Exit_2 | End_Of_Input | No_Return | Crash

datatype action = USING | SKIP | UNKNOWN

text \<open>
  Constants of a run: options, the date of the dump, the size of the inode maps' range, the
  transfer size \<open>fssize\<close>, and whether \<open>panic\<close> returns (with \<open>-y\<close>, or by the operator's choice).
\<close>

record rcfg =
  cvtflag :: bool
  panic_returns :: bool
  Nflag :: bool
  dumpdate :: u32
  r_maxino :: dump_ino_t
  fssize :: nat

record rstate =
  tape :: "byte list list"
  r_spcl :: s_spcl
  Bcvt :: bool
  Qcvt :: bool
  oldinofmt :: bool
  ufs2flag :: bool
  readmapflag :: bool
  readingmaps :: bool
  r_volinfo :: "u32 list"
  blksread :: nat
  cur_action :: action
  cur_dip :: "new_bsd_inode option"
  cur_ino :: dump_ino_t

definition panic :: "rcfg \<Rightarrow> restore_stop + unit" where
  "panic cfg = (if panic_returns cfg then Inr () else Inl Panicked)"

definition readtape :: "rstate \<Rightarrow> restore_stop + byte list \<times> rstate" where
  "readtape r =
     (case tape r of
        [] \<Rightarrow> Inl End_Of_Input
      | b # bs \<Rightarrow> Inr (b, r\<lparr>tape := bs, blksread := blksread r + 1\<rparr>))"


section \<open>Recognising a header\<close>

text \<open>The header of a 4.1BSD dump, converted as with \<open>-c\<close>; \<open>s0\<close> is the all-zero header.\<close>

definition blank_header :: s_spcl where
  "blank_header = decode_spcl LE (replicate TP_BSIZE 0)"

definition convert_ospcl :: "byte list \<Rightarrow> s_spcl" where
  "convert_ospcl b =
     (let z = c_dinode blank_header;
          d = z\<lparr>nbi_mode := get LE (at b 32 2), nbi_nlink := get LE (at b 34 2),
                nbi_uid := ucast (get LE (at b 36 2) :: u16), nbi_gid := ucast (get LE (at b 38 2) :: u16),
                nbi_size := scast (get LE (at b 40 4) :: u32), nbi_db := (nbi_db z)[0 := get LE (at b 44 4)],
                nbi_atime := get LE (at b 84 4), nbi_mtime := get LE (at b 88 4),
                nbi_ctime := get LE (at b 92 4)\<rparr>
      in blank_header\<lparr>c_type := get LE (at b 0 4), c_date := get LE (at b 4 4),
           c_ddate := get LE (at b 8 4), c_volume := get LE (at b 12 4), c_tapea := get LE (at b 16 4),
           c_inumber := ucast (get LE (at b 20 2) :: u16), c_checksum := get LE (at b 28 4),
           c_magic := get LE (at b 24 4), c_dinode := d, c_count := get LE (at b 96 4),
           c_data := overlay (c_data blank_header) 0 (at b 100 256)\<rparr>)"

definition convert_ufs2 :: "byte list \<Rightarrow> s_spcl \<Rightarrow> s_spcl" where
  "convert_ufs2 b s = s\<lparr>c_date := get LE (at b 896 4), c_ddate := get LE (at b 904 4),
     c_tapea := get LE (at b 912 4), c_firstrec := get LE (at b 920 4), c_ntrec := 0,
     c_extattributes := 0, c_flags := c_flags s OR DR_NEWINODEFMT\<rparr>"

text \<open>
  The first half of \<open>converthead\<close>: magic number, checksum and byte order; \<open>None\<close> is \<open>FAIL\<close>.
\<close>

definition header_of_bytes :: "rcfg \<Rightarrow> byte list \<Rightarrow> rstate \<Rightarrow> s_spcl option \<times> rstate" where
  "header_of_bytes cfg b r =
     (if \<not> cvtflag cfg then
        let magic = (get LE (at b 24 4) :: u32)
        in if magic \<noteq> NFS_MAGIC \<and> swabi magic \<noteq> NFS_MAGIC then (None, r)
           else
             let r = (if magic \<noteq> NFS_MAGIC then r\<lparr>Bcvt := True\<rparr> else r)
             in if \<not> checksum (Bcvt r) b then (None, r)
                else if Bcvt r then (map_option (decode_spcl LE) (swabst header_format b), r)
                else (Some (decode_spcl LE b), r)
      else if \<not> checksum (Bcvt r) b then (None, r)
      else
        let magic = (get LE (at b 24 4) :: u32)
        in if magic = OFS_MAGIC then (Some ((convert_ospcl b)\<lparr>c_magic := NFS_MAGIC\<rparr>), r)
           else if magic = FS_UFS2_MAGIC
                then (Some ((convert_ufs2 b (decode_spcl LE b))\<lparr>c_magic := NFS_MAGIC\<rparr>), r\<lparr>ufs2flag := True\<rparr>)
                else (None, r))"

text \<open>Swapping the halves of the size, for dumps of machines that store them the other way round.\<close>

definition swap_halves :: "u64 \<Rightarrow> u64" where
  "swap_halves q = push_bit 32 q OR drop_bit 32 q"

definition quad_fix :: "s_spcl \<Rightarrow> rstate \<Rightarrow> s_spcl \<times> rstate" where
  "quad_fix s r =
     (let d = c_dinode s;
          r = (if (nbi_size d = 0 \<or> nbi_size d > 0xfffffff) \<and> nbi_mode d AND IFMT = IFDIR \<and> \<not> Qcvt r
                  \<and> nbi_size d \<noteq> 0
               then r\<lparr>Qcvt := True\<rparr> else r)
      in (if Qcvt r then s\<lparr>c_dinode := d\<lparr>nbi_size := swap_halves (nbi_size d)\<rparr>\<rparr> else s, r))"

text \<open>The patches by header type; an unknown type is a \<open>panic\<close>.\<close>

definition patch_header :: "rcfg \<Rightarrow> s_spcl \<Rightarrow> rstate \<Rightarrow> restore_stop + s_spcl \<times> rstate" where
  "patch_header cfg s r =
     (let r = r\<lparr>readmapflag := False\<rparr>
      in if c_type s = TS_CLRI \<or> c_type s = TS_BITS then
           let s = s\<lparr>c_inumber := 0, c_dinode := (c_dinode s)\<lparr>nbi_size := scast (c_count s * 1024)\<rparr>\<rparr>
           in if sint (c_count s) > int TP_NINDIR then Inr (s, r\<lparr>readmapflag := True\<rparr>)
              else Inr (s\<lparr>c_data := overlay (c_data s) 0
                                     (map (\<lambda>b. b + 1) (take (nat (sint (c_count s))) (c_data s)))\<rparr>, r)
         else if c_type s = TS_TAPE \<or> c_type s = TS_END then
           let r = (if c_type s = TS_TAPE \<and> c_flags s AND DR_NEWINODEFMT = 0 then r\<lparr>oldinofmt := True\<rparr> else r);
               r = (if c_flags s AND DR_INODEINFO \<noteq> 0
                    then r\<lparr>r_volinfo := map (if Bcvt r then swabi else id) (int_words LE (c_data s))\<rparr> else r)
           in Inr (s\<lparr>c_inumber := 0\<rparr>, r)
         else if c_type s = TS_INODE \<or> c_type s = TS_ADDR then Inr (s, r)
         else bindE (panic cfg) (\<lambda>_. Inr (s, r)))"

definition old_ids :: "s_spcl \<Rightarrow> rstate \<Rightarrow> s_spcl" where
  "old_ids s r =
     (if oldinofmt r
      then s\<lparr>c_dinode := (c_dinode s)\<lparr>nbi_uid := ucast (nbi_ouid (c_dinode s)),
                                       nbi_gid := ucast (nbi_ogid (c_dinode s))\<rparr>\<rparr>
      else s)"

definition converthead :: "rcfg \<Rightarrow> byte list \<Rightarrow> rstate \<Rightarrow> restore_stop + s_spcl option \<times> rstate" where
  "converthead cfg b r =
     (case header_of_bytes cfg b r of
        (None, r) \<Rightarrow> Inr (None, r)
      | (Some s, r) \<Rightarrow>
          (case quad_fix s r of (s, r) \<Rightarrow>
             bindE (patch_header cfg s r) (\<lambda>(s, r). Inr (Some (old_ids s r), r))))"

text \<open>\<open>gethead(&spcl)\<close>: \<open>True\<close> is \<open>GOOD\<close>; on \<open>FAIL\<close> the header holds the record that was read.\<close>

definition gethead :: "rcfg \<Rightarrow> rstate \<Rightarrow> restore_stop + bool \<times> rstate" where
  "gethead cfg r =
     bindE (readtape r) (\<lambda>(b, r).
     bindE (converthead cfg b r) (\<lambda>(h, r).
     Inr (case h of Some s \<Rightarrow> (True, r\<lparr>r_spcl := s\<rparr>) | None \<Rightarrow> (False, r\<lparr>r_spcl := decode_spcl LE b\<rparr>))))"

lemma header_of_bytes_tape: "header_of_bytes cfg b r = (h, r') \<Longrightarrow> tape r' = tape r"
  by (auto simp: header_of_bytes_def Let_def split: if_splits)

lemma quad_fix_tape: "quad_fix s r = (s', r') \<Longrightarrow> tape r' = tape r"
  by (auto simp: quad_fix_def Let_def split: if_splits)

lemma patch_header_tape: "patch_header cfg s r = Inr (s', r') \<Longrightarrow> tape r' = tape r"
  by (auto simp: patch_header_def panic_def Let_def bindE_Inr_iff split: if_splits)

lemma converthead_tape: "converthead cfg b r = Inr (h, r') \<Longrightarrow> tape r' = tape r"
  unfolding converthead_def
  by (auto simp: bindE_Inr_iff split: prod.splits option.splits
      dest!: header_of_bytes_tape quad_fix_tape patch_header_tape)

lemma gethead_tape: "gethead cfg r = Inr (g, r') \<Longrightarrow> length (tape r') < length (tape r)"
  by (auto simp: gethead_def readtape_def bindE_Inr_iff dest!: converthead_tape
      split: list.splits option.splits)

text \<open>The loops that read until a header is found, at any date or at that of the dump.\<close>

function next_head :: "rcfg \<Rightarrow> (s_spcl \<Rightarrow> bool) \<Rightarrow> rstate \<Rightarrow> restore_stop + rstate" where
  "next_head cfg ok r =
     (case gethead cfg r of
        Inl x \<Rightarrow> Inl x
      | Inr (g, r') \<Rightarrow> if g \<and> ok (r_spcl r') then Inr r' else next_head cfg ok r')"
  by pat_completeness auto
termination
  by (relation "measure (\<lambda>(cfg, ok, r). length (tape r))") (auto dest: gethead_tape)

declare next_head.simps [simp del]

lemma next_head_tape: "next_head cfg ok r = Inr r' \<Longrightarrow> length (tape r') < length (tape r)"
proof (induction cfg ok r rule: next_head.induct)
  case (1 cfg ok r)
  from "1.prems" obtain g r1 where g: "gethead cfg r = Inr (g, r1)"
    and r: "(if g \<and> ok (r_spcl r1) then Inr r1 else next_head cfg ok r1) = Inr r'"
    by (subst (asm) next_head.simps) (auto split: sum.splits prod.splits)
  show ?case
    using "1.IH" [OF g refl] gethead_tape [OF g] r by (cases "g \<and> ok (r_spcl r1)") auto
qed


section \<open>Extracting a file\<close>

text \<open>
  The handlers of \<open>getfile\<close>: \<open>fill\<close> for a buffer of data, \<open>skip\<close> for a hole of a given size, and
  the \<open>ftruncate\<close> of the output file at the end.  They work on a state of their own.
\<close>

record 'o handlers =
  fill :: "byte list \<Rightarrow> 'o \<Rightarrow> restore_stop + 'o"
  skip :: "nat \<Rightarrow> 'o \<Rightarrow> restore_stop + 'o"
  trunc :: "nat \<Rightarrow> 'o \<Rightarrow> 'o"

text \<open>
  The variables of \<open>getfile\<close>: the records in its buffer (\<open>curblk\<close> of them), the bytes still to come,
  whether the last write was a hole, and the output.
\<close>

record 'o getstate =
  pend :: "byte list list"
  left :: int
  last_hole :: bool
  outp :: 'o

text \<open>
  \<open>c_addr[i]\<close> for the records of the current header, or \<open>readmapflag\<close>.
\<close>

definition addr_present :: "rstate \<Rightarrow> bool list" where
  "addr_present r =
     (let a = c_addr_mem LE (r_spcl r)
      in map (\<lambda>i. readmapflag r \<or> i < length a \<and> a ! i \<noteq> 0) [0..<nat (sint (c_count (r_spcl r)))])"

text \<open>The bytes that a flush of the pending records passes to \<open>fill\<close>.\<close>

definition pend_bytes :: "nat \<Rightarrow> 'o getstate \<Rightarrow> byte list" where
  "pend_bytes full g =
     take (if left g > 1024 then full else nat ((int (length (pend g)) - 1) * 1024 + left g))
       (concat (pend g))"

definition get_record :: "rcfg \<Rightarrow> 'o handlers \<Rightarrow> bool \<Rightarrow> 'o getstate \<times> rstate
    \<Rightarrow> restore_stop + 'o getstate \<times> rstate" where
  "get_record cfg h present = (\<lambda>(g, r).
     if present then
       bindE (readtape r) (\<lambda>(b, r).
         let g = g\<lparr>pend := pend g @ [b]\<rparr>
         in if length (pend g) = fssize cfg div TP_BSIZE then
              bindE (fill h (pend_bytes (fssize cfg) g) (outp g)) (\<lambda>out.
              Inr (g\<lparr>pend := [], last_hole := False, outp := out\<rparr>, r))
            else Inr (g, r))
     else
       bindE (if pend g \<noteq> [] then fill h (pend_bytes (length (pend g) * TP_BSIZE) g) (outp g)
              else Inr (outp g)) (\<lambda>out.
       bindE (skip h (nat (if left g > 1024 then 1024 else left g)) out) (\<lambda>out.
       Inr (g\<lparr>pend := [], last_hole := True, outp := out\<rparr>, r))))"

fun read_junk :: "bool list \<Rightarrow> rstate \<Rightarrow> restore_stop + rstate" where
  "read_junk [] r = Inr r"
| "read_junk (p # ps) r = bindE (if p then map_sum id snd (readtape r) else Inr r) (read_junk ps)"

fun get_records :: "rcfg \<Rightarrow> 'o handlers \<Rightarrow> bool list \<Rightarrow> 'o getstate \<times> rstate
    \<Rightarrow> restore_stop + 'o getstate \<times> rstate" where
  "get_records cfg h [] gr = Inr gr"
| "get_records cfg h (p # ps) gr =
     bindE (get_record cfg h p gr) (\<lambda>(g, r).
       let g = g\<lparr>left := left g - 1024\<rparr>
       in if left g \<le> 0 then bindE (read_junk ps r) (\<lambda>r. Inr (g, r))
          else get_records cfg h ps (g, r))"

lemma readtape_tape: "readtape r = Inr (b, r') \<Longrightarrow> length (tape r') \<le> length (tape r)"
  by (auto simp: readtape_def split: list.splits)

lemma get_record_tape:
  "get_record cfg h p (g, r) = Inr (g', r') \<Longrightarrow> length (tape r') \<le> length (tape r)"
  by (auto simp: get_record_def bindE_Inr_iff Let_def split: if_splits dest: readtape_tape)

lemma read_junk_tape: "read_junk ps r = Inr r' \<Longrightarrow> length (tape r') \<le> length (tape r)"
proof (induction ps arbitrary: r)
  case (Cons p ps)
  then obtain r1 where "(if p then map_sum id snd (readtape r) else Inr r) = Inr r1" "read_junk ps r1 = Inr r'"
    by (auto simp: bindE_Inr_iff)
  moreover from this(1) have "length (tape r1) \<le> length (tape r)"
    by (cases "readtape r") (auto dest: readtape_tape split: if_splits)
  ultimately show ?case using Cons.IH by fastforce
qed simp

lemma get_records_tape:
  "get_records cfg h ps (g, r) = Inr (g', r') \<Longrightarrow> length (tape r') \<le> length (tape r)"
proof (induction ps arbitrary: g r)
  case (Cons p ps)
  then obtain g1 r1 where "get_record cfg h p (g, r) = Inr (g1, r1)"
    and "(let g = g1\<lparr>left := left g1 - 1024\<rparr>
       in if left g \<le> 0 then bindE (read_junk ps r1) (\<lambda>r. Inr (g, r))
          else get_records cfg h ps (g, r1)) = Inr (g', r')"
    by (auto simp: bindE_Inr_iff)
  then show ?case
    using Cons.IH get_record_tape [of cfg h p g r g1 r1] read_junk_tape [of ps r1]
    by (fastforce simp: Let_def bindE_Inr_iff split: if_splits)
qed simp

text \<open>
  The outer loop: records, the next header (which must be one), and again as long as bytes are
  missing and the header is a continuation.
\<close>

function get_loop :: "rcfg \<Rightarrow> 'o handlers \<Rightarrow> 'o getstate \<Rightarrow> rstate \<Rightarrow> restore_stop + 'o getstate \<times> rstate" where
  "get_loop cfg h g r =
     (case get_records cfg h (addr_present r) (g, r) of
        Inl x \<Rightarrow> Inl x
      | Inr (g', r') \<Rightarrow>
          (case next_head cfg (\<lambda>_. True) r' of
             Inl x \<Rightarrow> Inl x
           | Inr r'' \<Rightarrow> if left g' > 0 \<and> c_type (r_spcl r'') = TS_ADDR then get_loop cfg h g' r''
                        else Inr (g', r'')))"
  by pat_completeness auto
termination
  by (relation "measure (\<lambda>(cfg, h, g, r). length (tape r))")
     (auto dest!: get_records_tape next_head_tape)

declare get_loop.simps [simp del]

fun skip_rest :: "'o handlers \<Rightarrow> nat \<Rightarrow> 'o \<Rightarrow> restore_stop + 'o" where
  "skip_rest h n out =
     (if n = 0 then Inr out
      else if n > 1024 then bindE (skip h 1024 out) (skip_rest h (n - 1024))
      else skip h n out)"

declare skip_rest.simps [simp del]

text \<open>
  \<open>findinode\<close>: continuation headers are skipped with their records; a header of another type
  describes the next file.  The test at the end of the loop looks at the type of the header that is
  then current, which after a continuation header is already the next one.
\<close>

definition no_file :: "rstate \<Rightarrow> rstate" where
  "no_file r = r\<lparr>cur_action := UNKNOWN, cur_dip := None, cur_ino := 0\<rparr>"

function findinode_loop :: "rcfg \<Rightarrow> rstate \<Rightarrow> restore_stop + rstate" where
  "findinode_loop cfg r =
     (case (if c_magic (r_spcl r) \<noteq> NFS_MAGIC
            then next_head cfg (\<lambda>s. c_date s = dumpdate cfg) r else Inr r) of
        Inl x \<Rightarrow> Inl x
      | Inr r1 \<Rightarrow>
          let s = r_spcl r1; ty = c_type s
          in if ty = TS_ADDR then
               (case read_junk (map (\<lambda>b. b \<noteq> 0) (take (nat (sint (c_count s))) (c_addr_mem LE s))) r1 of
                  Inl x \<Rightarrow> Inl x
                | Inr r2 \<Rightarrow>
                    (case next_head cfg (\<lambda>s. c_date s = dumpdate cfg) r2 of
                       Inl x \<Rightarrow> Inl x
                     | Inr r3 \<Rightarrow> if c_type (r_spcl r3) = TS_ADDR then findinode_loop cfg r3
                                 else Inr r3))
             else if ty = TS_INODE then Inr (r1\<lparr>cur_dip := Some (c_dinode s), cur_ino := c_inumber s\<rparr>)
             else if ty = TS_END then Inr (r1\<lparr>cur_ino := r_maxino cfg\<rparr>)
             else if ty = TS_CLRI \<or> ty = TS_BITS then Inr r1
             else bindE (panic cfg) (\<lambda>_. Inr r1))"
  by pat_completeness auto
termination
  by (relation "measure (\<lambda>(cfg, r). length (tape r))")
     (auto dest!: read_junk_tape next_head_tape split: if_splits)


definition findinode :: "rcfg \<Rightarrow> rstate \<Rightarrow> restore_stop + rstate" where
  "findinode cfg r = findinode_loop cfg (no_file r)"

declare findinode_loop.simps [simp del]

text \<open>\<open>getfile\<close> as a whole.\<close>

definition finish_file :: "'o handlers \<Rightarrow> nat \<Rightarrow> 'o getstate \<Rightarrow> restore_stop + 'o" where
  "finish_file h origsize g =
     bindE (if pend g \<noteq> []
            then map_sum id (\<lambda>out. g\<lparr>last_hole := False, outp := out\<rparr>)
                   (fill h (take (nat (int (length (pend g)) * 1024 + left g)) (concat (pend g))) (outp g))
            else Inr g) (\<lambda>g.
     bindE (if left g > 0
            then map_sum id (\<lambda>out. g\<lparr>last_hole := True, outp := out\<rparr>) (skip_rest h (nat (left g)) (outp g))
            else Inr g) (\<lambda>g.
     Inr (if last_hole g then trunc h origsize (outp g) else outp g)))"

definition getfile :: "rcfg \<Rightarrow> 'o handlers \<Rightarrow> 'o \<Rightarrow> rstate \<Rightarrow> restore_stop + 'o \<times> rstate" where
  "getfile cfg h out r =
     bindE (if c_type (r_spcl r) = TS_END then panic cfg else Inr ()) (\<lambda>_.
     bindE (if c_magic (r_spcl r) \<noteq> NFS_MAGIC then panic cfg else Inr ()) (\<lambda>_.
     let origsize = nbi_size (c_dinode (r_spcl r))
     in bindE (get_loop cfg h \<lparr> pend = [], left = sint origsize, last_hole = False, outp = out \<rparr> r) (\<lambda>(g, r).
        bindE (finish_file h (unat origsize) g) (\<lambda>out.
        bindE (if readingmaps r then Inr r else findinode cfg r) (\<lambda>r.
        Inr (out, r))))))"


section \<open>What is done with the data\<close>

text \<open>An output file: its bytes and the offset of the descriptor.\<close>

record ofile =
  of_bytes :: "byte list"
  of_pos :: nat

definition zero_pad :: "nat \<Rightarrow> byte list \<Rightarrow> byte list" where
  "zero_pad n bs = bs @ replicate (n - length bs) 0"

definition write_file :: "byte list \<Rightarrow> ofile \<Rightarrow> ofile" where
  "write_file bs f =
     (let old = zero_pad (of_pos f) (of_bytes f)
      in f\<lparr>of_bytes := overlay old (of_pos f) bs, of_pos := of_pos f + length bs\<rparr>)"

definition ftruncate :: "nat \<Rightarrow> ofile \<Rightarrow> ofile" where
  "ftruncate n f = f\<lparr>of_bytes := zero_pad n (take n (of_bytes f))\<rparr>"

text \<open>\<open>xtrfile\<close> and \<open>xtrskip\<close>; with \<open>-N\<close> nothing is written.\<close>

definition xtrfile :: "rcfg \<Rightarrow> byte list \<Rightarrow> ofile \<Rightarrow> restore_stop + ofile" where
  "xtrfile cfg buf f = Inr (if Nflag cfg then f else write_file buf f)"

definition xtrskip :: "nat \<Rightarrow> ofile \<Rightarrow> restore_stop + ofile" where
  "xtrskip n f = Inr (f\<lparr>of_pos := of_pos f + n\<rparr>)"

definition file_handlers :: "rcfg \<Rightarrow> ofile handlers" where
  "file_handlers cfg = \<lparr> fill = xtrfile cfg, skip = xtrskip, trunc = ftruncate \<rparr>"

text \<open>
  \<open>xtrlnkfile\<close>: \<open>lnkbuf\<close> with \<open>pathlen\<close>; \<open>strcat\<close> stops at a NUL of the data.
\<close>

definition xtrlnkfile :: "byte list \<Rightarrow> byte list \<times> nat \<Rightarrow> restore_stop + byte list \<times> nat" where
  "xtrlnkfile buf = (\<lambda>(lnkbuf, pathlen).
     let pathlen = pathlen + length buf
     in if pathlen > MAXPATHLEN then Inl Exit_1
        else Inr (take pathlen (lnkbuf @ takeWhile (\<lambda>b. b \<noteq> 0) buf), pathlen))"

definition xtrlnkskip :: "nat \<Rightarrow> 'o \<Rightarrow> restore_stop + 'o" where
  "xtrlnkskip n out = Inl Exit_1"

text \<open>\<open>xtrmap\<close>: the map filled from the front (the bytes stored so far).\<close>

definition xtrmap :: "byte list \<Rightarrow> byte list \<Rightarrow> restore_stop + byte list" where
  "xtrmap buf mp = Inr (mp @ buf)"

definition xtrmapskip :: "rcfg \<Rightarrow> nat \<Rightarrow> byte list \<Rightarrow> restore_stop + byte list" where
  "xtrmapskip cfg n mp = bindE (panic cfg) (\<lambda>_. Inr (mp @ replicate n 0))"

definition xtrnull :: "'x \<Rightarrow> 'o \<Rightarrow> restore_stop + 'o" where
  "xtrnull x out = Inr out"

definition XATTR_MAXSIZE :: nat where "XATTR_MAXSIZE = 4096"

definition xtrxattr :: "byte list \<Rightarrow> byte list \<Rightarrow> restore_stop + byte list" where
  "xtrxattr buf xb = Inr (if length xb + length buf > XATTR_MAXSIZE then xb else xb @ buf)"

text \<open>
  Comparing on the fly: \<open>xtrcmpfile\<close> and \<open>xtrcmpskip\<close> read the file on disk; the state is what is left
  of it and \<open>cmperror\<close>.
\<close>

definition xtrcmpfile :: "byte list \<Rightarrow> byte list \<times> bool \<Rightarrow> restore_stop + byte list \<times> bool" where
  "xtrcmpfile buf = (\<lambda>(ifile, cmperror).
     if cmperror then Inr (ifile, cmperror)
     else if length (take (length buf) ifile) \<noteq> length buf then Inr (drop (length buf) ifile, True)
     else Inr (drop (length buf) ifile, take (length buf) ifile \<noteq> buf))"

definition xtrcmpskip :: "nat \<Rightarrow> byte list \<times> bool \<Rightarrow> restore_stop + byte list \<times> bool" where
  "xtrcmpskip n = (\<lambda>(ifile, cmperror).
     if cmperror then Inr (ifile, cmperror)
     else if length (take n ifile) \<noteq> n then Inr (drop n ifile, True)
     else Inr (drop n ifile, \<exists>b \<in> set (take n ifile). b \<noteq> 0))"

text \<open>\<open>skipfile\<close>, \<open>skipmaps\<close> and \<open>skipxattr\<close>; the loops are bounded by the records left.\<close>

definition null_handlers :: "unit handlers" where
  "null_handlers = \<lparr> fill = xtrnull, skip = xtrnull, trunc = (\<lambda>n out. out) \<rparr>"

definition skipfile :: "rcfg \<Rightarrow> rstate \<Rightarrow> restore_stop + rstate" where
  "skipfile cfg r = bindE (getfile cfg null_handlers () (r\<lparr>cur_action := SKIP\<rparr>)) (\<lambda>(_, r). Inr r)"

fun skip_while :: "nat \<Rightarrow> rcfg \<Rightarrow> (s_spcl \<Rightarrow> bool) \<Rightarrow> rstate \<Rightarrow> restore_stop + rstate" where
  "skip_while 0 cfg p r = (if p (r_spcl r) then Inl End_Of_Input else Inr r)"
| "skip_while (Suc n) cfg p r =
     (if p (r_spcl r) then bindE (skipfile cfg r) (skip_while n cfg p) else Inr r)"

definition skipmaps :: "rcfg \<Rightarrow> rstate \<Rightarrow> restore_stop + rstate" where
  "skipmaps cfg r = skip_while (length (tape r)) cfg (\<lambda>s. c_type s = TS_BITS \<or> c_type s = TS_CLRI) r"

definition skipxattr :: "rcfg \<Rightarrow> rstate \<Rightarrow> restore_stop + rstate" where
  "skipxattr cfg r = skip_while (length (tape r)) cfg (\<lambda>s. c_flags s AND DR_EXTATTRIBUTES \<noteq> 0) r"


text \<open>
  \<open>readxattr\<close>: all records of the header are taken, whatever \<open>c_addr\<close> says; \<open>None\<close> is \<open>FAIL\<close>.
\<close>

definition xattr_handlers :: "byte list handlers" where
  "xattr_handlers = \<lparr> fill = xtrxattr, skip = xtrnull, trunc = (\<lambda>n out. out) \<rparr>"

definition readxattr :: "rcfg \<Rightarrow> rstate \<Rightarrow> restore_stop + byte list option \<times> rstate" where
  "readxattr cfg r =
     (if nbi_size (c_dinode (r_spcl r)) > of_nat XATTR_MAXSIZE
      then bindE (skipfile cfg r) (\<lambda>r. Inr (None, r))
      else bindE (getfile cfg xattr_handlers [] (r\<lparr>readmapflag := True\<rparr>)) (\<lambda>(xb, r).
           Inr (Some (zero_pad XATTR_MAXSIZE xb), r\<lparr>readmapflag := False\<rparr>)))"


section \<open>Headers of a native dump\<close>

definition native :: "rcfg \<Rightarrow> rstate \<Rightarrow> bool" where
  "native cfg r \<longleftrightarrow> \<not> cvtflag cfg \<and> \<not> Bcvt r \<and> \<not> Qcvt r \<and> \<not> oldinofmt r"

text \<open>A header of dump that \<open>converthead\<close> leaves as it is.\<close>

definition plain_header :: "s_spcl \<Rightarrow> bool" where
  "plain_header s \<longleftrightarrow> wf_spcl s \<and> c_magic s = NFS_MAGIC \<and> (c_type s = TS_INODE \<or> c_type s = TS_ADDR)
     \<and> \<not> (nbi_mode (c_dinode s) AND IFMT = IFDIR \<and> nbi_size (c_dinode s) > 0xfffffff)"

lemma magic_of_encode:
  assumes "wf_spcl s"
  shows "get LE (at (encode_spcl LE s) 24 4) = c_magic s"
proof -
  have "c_magic (decode_spcl LE (encode_spcl LE s)) = c_magic s"
    using decode_encode_spcl [OF assms] by simp
  then show ?thesis by (simp add: decode_spcl_def)
qed

lemma converthead_plain:
  assumes "native cfg r" "plain_header s"
  shows "converthead cfg (encode_spcl LE (mkchecksum LE s)) r = Inr (Some (mkchecksum LE s), r\<lparr>readmapflag := False\<rparr>)"
proof -
  let ?m = "mkchecksum LE s"
  have wf: "wf_spcl ?m" using assms(2) by (simp add: plain_header_def)
  have "checksum False (encode_spcl LE ?m)"
    using assms(2) mkchecksum_sum [of s LE] checksum_eq [of "encode_spcl LE ?m" False] length_encode_spcl [OF wf]
    by (simp add: plain_header_def)
  then have h: "header_of_bytes cfg (encode_spcl LE ?m) r = (Some ?m, r)"
    using assms magic_of_encode [OF wf] decode_encode_spcl [OF wf]
    by (simp add: header_of_bytes_def native_def plain_header_def Let_def)
  have q: "quad_fix ?m r = (?m, r)"
    using assms by (auto simp: quad_fix_def native_def plain_header_def Let_def)
  have "patch_header cfg ?m r = Inr (?m, r\<lparr>readmapflag := False\<rparr>)"
  proof -
    have "c_type ?m = TS_INODE \<or> c_type ?m = TS_ADDR" using assms(2) by (simp add: plain_header_def)
    then show ?thesis by (elim disjE) (simp_all only: patch_header_def Let_def, simp_all add: ts_consts)
  qed
  moreover have "\<not> oldinofmt r" using assms(1) by (simp add: native_def)
  ultimately show ?thesis by (simp add: converthead_def h q old_ids_def)
qed

text \<open>The reader after some records have gone by: only the input and the count of blocks change.\<close>

definition advanced :: "rstate \<Rightarrow> byte list list \<Rightarrow> rstate \<Rightarrow> bool" where
  "advanced r T r' \<longleftrightarrow> (\<exists>b. r' = r\<lparr>tape := T, blksread := b\<rparr>)"

lemma advanced_refl: "advanced r (tape r) r"
  unfolding advanced_def by (rule exI [of _ "blksread r"]) simp

lemma advanced_trans: "advanced r T r1 \<Longrightarrow> advanced r1 T' r2 \<Longrightarrow> advanced r T' r2"
  by (auto simp: advanced_def)

lemma readtape_advanced: "tape r = b # T \<Longrightarrow> \<exists>r'. readtape r = Inr (b, r') \<and> advanced r T r'"
  by (auto simp: readtape_def advanced_def)

definition at_header :: "rstate \<Rightarrow> s_spcl \<Rightarrow> byte list list \<Rightarrow> rstate \<Rightarrow> bool" where
  "at_header r s T r' \<longleftrightarrow> (\<exists>b. r' = r\<lparr>tape := T, blksread := b, readmapflag := False, r_spcl := mkchecksum LE s\<rparr>)"

lemma native_kept:
  "advanced r T r' \<Longrightarrow> native cfg r' = native cfg r" "at_header r s T r' \<Longrightarrow> native cfg r' = native cfg r"
  unfolding advanced_def at_header_def by (elim exE; simp add: native_def)+

lemma next_head_plain:
  assumes "native cfg r" "plain_header s" "tape r = encode_spcl LE (mkchecksum LE s) # T"
    and "ok (mkchecksum LE s)"
  shows "\<exists>r'. next_head cfg ok r = Inr r' \<and> at_header r s T r'"
proof -
  let ?r1 = "r\<lparr>tape := T, blksread := blksread r + 1\<rparr>"
  have "native cfg ?r1" using assms(1) by (simp add: native_def)
  then have "gethead cfg r = Inr (True, ?r1\<lparr>readmapflag := False, r_spcl := mkchecksum LE s\<rparr>)"
    using converthead_plain [OF _ assms(2)] assms(3) by (simp add: gethead_def readtape_def)
  then have "next_head cfg ok r = Inr (?r1\<lparr>readmapflag := False, r_spcl := mkchecksum LE s\<rparr>)"
    using assms(4) by (subst next_head.simps) simp
  then show ?thesis by (auto simp: at_header_def)
qed


section \<open>The contents of a restored file\<close>

definition rec_bytes :: "byte list option \<Rightarrow> byte list" where
  "rec_bytes x = (case x of None \<Rightarrow> replicate TP_BSIZE 0 | Some b \<Rightarrow> b)"

definition contents :: "byte list option list \<Rightarrow> byte list" where
  "contents recs = concat (map rec_bytes recs)"

definition full_recs :: "byte list option list \<Rightarrow> bool" where
  "full_recs recs \<longleftrightarrow> (\<forall>x \<in> set recs. length (rec_bytes x) = TP_BSIZE)"

text \<open>
  The number of data records at the end of a list; what is pending in \<open>getfile\<close> before a record is
  that number modulo the size of its buffer.  The records are handled exactly unless the last one is
  a hole of less than \<open>TP_BSIZE\<close> bytes that comes while data are pending.
\<close>

definition data_run :: "byte list option list \<Rightarrow> nat" where
  "data_run recs = length (takeWhile (\<lambda>x. x \<noteq> None) (rev recs))"

definition hole_safe :: "nat \<Rightarrow> byte list option list \<Rightarrow> nat \<Rightarrow> bool" where
  "hole_safe F recs n \<longleftrightarrow>
     (let l = (n - 1) div TP_BSIZE
      in TP_BSIZE dvd n \<or> recs ! l \<noteq> None \<or> data_run (take l recs) mod F = 0)"

lemma data_run_snoc [simp]:
  "data_run (xs @ [None]) = 0" "data_run (xs @ [Some b]) = Suc (data_run xs)" "data_run [] = 0"
  by (simp_all add: data_run_def)

lemma contents_simps [simp]:
  "contents [] = []" "contents (x # xs) = rec_bytes x @ contents xs"
  "contents (xs @ ys) = contents xs @ contents ys"
  by (simp_all add: contents_def)

lemma length_contents: "full_recs recs \<Longrightarrow> length (contents recs) = TP_BSIZE * length recs"
  by (induction recs) (auto simp: full_recs_def)

lemma take_contents: "full_recs recs \<Longrightarrow> k \<le> length recs \<Longrightarrow> take (TP_BSIZE * k) (contents recs) = contents (take k recs)"
proof (induction recs arbitrary: k)
  case (Cons x recs)
  then show ?case by (cases k) (auto simp: full_recs_def)
qed simp

lemma drop_contents: "full_recs recs \<Longrightarrow> k \<le> length recs \<Longrightarrow> drop (TP_BSIZE * k) (contents recs) = contents (drop k recs)"
proof (induction recs arbitrary: k)
  case (Cons x recs)
  then show ?case by (cases k) (auto simp: full_recs_def)
qed simp

text \<open>
  The file so far: everything below the offset is there, though a trailing hole may not have been
  written yet.
\<close>

definition file_upto :: "byte list \<Rightarrow> nat \<Rightarrow> ofile \<Rightarrow> bool" where
  "file_upto cont p f \<longleftrightarrow> of_pos f = p \<and> p \<le> length cont \<and> length (of_bytes f) \<le> p
     \<and> zero_pad p (of_bytes f) = take p cont"

lemma length_zero_pad: "length (zero_pad n bs) = max n (length bs)"
  by (simp add: zero_pad_def max_def)

lemma write_file_upto:
  assumes "file_upto cont p f" "p + m \<le> length cont"
  shows "file_upto cont (p + m) (write_file (take m (drop p cont)) f)"
    "length (of_bytes (write_file (take m (drop p cont)) f)) = p + m"
proof -
  have z: "zero_pad p (of_bytes f) = take p cont" "of_pos f = p" using assms(1) by (simp_all add: file_upto_def)
  have "of_bytes (write_file (take m (drop p cont)) f) = take (p + m) cont"
    using assms(2) z by (simp add: write_file_def Let_def overlay_def take_add)
  moreover have "of_pos (write_file (take m (drop p cont)) f) = p + m"
    using assms(2) z by (simp add: write_file_def)
  ultimately show "file_upto cont (p + m) (write_file (take m (drop p cont)) f)"
    "length (of_bytes (write_file (take m (drop p cont)) f)) = p + m"
    using assms(2) by (simp_all add: file_upto_def zero_pad_def)
qed

lemma skip_file_upto:
  assumes "file_upto cont p f" "p + m \<le> length cont" "take m (drop p cont) = replicate m 0"
  shows "file_upto cont (p + m) (f\<lparr>of_pos := of_pos f + m\<rparr>)"
proof -
  have "zero_pad (p + m) (of_bytes f) = zero_pad p (of_bytes f) @ replicate m 0"
  proof -
    have "replicate (p + m - length (of_bytes f)) (0 :: byte) = replicate (p - length (of_bytes f)) 0 @ replicate m 0"
      using assms(1) by (simp add: file_upto_def flip: replicate_add)
    then show ?thesis by (simp add: zero_pad_def)
  qed
  then show ?thesis using assms by (simp add: file_upto_def take_add)
qed

end
