(* ===== verification/Segments.thy ===== *)
theory Segments
  imports Tapein
begin

text \<open>
  How \<open>getfile\<close> of restore goes through the records of a file, whatever is done with them: an
  interface for the receiver of the records, with an invariant that every record preserves, and the
  loop over the segments with their continuation headers, proved once for all receivers.
\<close>

section \<open>Records and headers of a segment\<close>

lemma read_junk_somes:
  "tape r = somes c @ T \<Longrightarrow> \<exists>r'. read_junk (map (\<lambda>x. x \<noteq> None) c) r = Inr r' \<and> advanced r T r'"
proof (induction c arbitrary: r)
  case Nil
  then show ?case using advanced_refl [of r] by simp
next
  case (Cons x c)
  show ?case
  proof (cases x)
    case None
    then show ?thesis using Cons by simp
  next
    case (Some b)
    then obtain r1 where r1: "readtape r = Inr (b, r1)" "advanced r (somes c @ T) r1"
      using readtape_advanced [of r b "somes c @ T"] Cons.prems by auto
    then have "tape r1 = somes c @ T" by (auto simp: advanced_def)
    from Cons.IH [OF this] obtain r2 where r2: "read_junk (map (\<lambda>x. x \<noteq> None) c) r1 = Inr r2"
      "advanced r1 T r2" by blast
    show ?thesis using Some r1(1) r2(1) advanced_trans [OF r1(2) r2(2)] by auto
  qed
qed

lemma sint_of_nat_small: "n < 2 ^ 31 \<Longrightarrow> sint (of_nat n :: u32) = int n"
  by (simp add: signed_of_nat signed_take_bit_int_eq_self)

lemma c_addr_mem_nth:
  assumes "wf_spcl s" "i < TP_NINDIR"
  shows "c_addr_mem e s ! i = c_data s ! i" "i < length (c_addr_mem e s)"
proof -
  define pre where "pre = puts32 e (spcl_head s) @ put e 4 (c_checksum s) @ encode_nbi e (c_dinode s) @ put e 4 (c_count s)"
  obtain post where e: "encode_spcl e s = pre @ c_data s @ post"
    by (simp add: encode_spcl_segments pre_def)
  have "wf_nbi (c_dinode s)" using assms(1) by (simp add: wf_spcl_def)
  then have "length pre = 164" using length_encode_nbi [of "c_dinode s" e] by (simp add: pre_def)
  then have "c_addr_mem e s = c_data s @ post" using e by (simp add: c_addr_mem_def)
  then show "c_addr_mem e s ! i = c_data s ! i" "i < length (c_addr_mem e s)"
    using assms by (simp_all add: wf_spcl_def nth_append)
qed

lemma addr_present_segment:
  assumes "segment_header P ty c s" "r_spcl r = mkchecksum LE s" "\<not> readmapflag r"
  shows "addr_present r = map (\<lambda>x. x \<noteq> None) c"
proof -
  have wf: "wf_spcl (mkchecksum LE s)" and l: "length c \<le> TP_NINDIR" and cc: "c_count s = of_nat (length c)"
    using assms(1) by (simp_all add: segment_header_def)
  have "sint (of_nat (length c) :: u32) = int (length c)"
    using l by (intro sint_of_nat_small) (simp add: TP_NINDIR_def)
  then show ?thesis
    using assms l cc c_addr_mem_nth [OF wf, of _ LE]
    by (intro nth_equalityI) (auto simp: addr_present_def Let_def segment_header_def)
qed

text \<open>Headers of files that restore takes as they are.\<close>

definition plain_file :: "(s_spcl \<Rightarrow> bool) \<Rightarrow> bool" where
  "plain_file P \<longleftrightarrow> (\<forall>s. P s \<longrightarrow> \<not> (nbi_mode (c_dinode s) AND IFMT = IFDIR \<and> nbi_size (c_dinode s) > 0xfffffff))"

lemma plain_segment:
  "plain_file P \<Longrightarrow> segment_header P ty c s \<Longrightarrow> ty = TS_INODE \<or> ty = TS_ADDR \<Longrightarrow> plain_header s"
  by (auto simp: plain_file_def segment_header_def plain_header_def)


section \<open>The receiver of the records\<close>

text \<open>
  \<open>I k g\<close>: the variables of \<open>getfile\<close> after \<open>k\<close> records of a file of \<open>n\<close> bytes.
\<close>

locale file_receiver =
  fixes cfg :: rcfg and h :: "'o handlers" and recs :: "byte list option list" and n :: nat
    and I :: "nat \<Rightarrow> 'o getstate \<Rightarrow> bool"
  assumes left_after: "I k g \<Longrightarrow> left g = int n - int (TP_BSIZE * k)"
    and enough: "I k g \<Longrightarrow> n \<le> TP_BSIZE * length recs"
    and data_record: "I k g \<Longrightarrow> TP_BSIZE * k < n \<Longrightarrow> recs ! k = Some b \<Longrightarrow> tape r = b # T \<Longrightarrow>
        \<exists>g' r'. get_record cfg h True (g, r) = Inr (g', r') \<and> advanced r T r'
          \<and> I (Suc k) (g'\<lparr>left := left g' - 1024\<rparr>)"
    and hole_record: "I k g \<Longrightarrow> TP_BSIZE * k < n \<Longrightarrow> recs ! k = None \<Longrightarrow>
        \<exists>g'. get_record cfg h False (g, r) = Inr (g', r) \<and> I (Suc k) (g'\<lparr>left := left g' - 1024\<rparr>)"
begin

text \<open>A segment: up to its end, or to the last record that the size asks for.\<close>

lemma get_records_segment:
  shows "\<lbrakk>I k g; TP_BSIZE * k < n; drop k recs = c @ after; c \<noteq> []; tape r = somes c @ T\<rbrakk> \<Longrightarrow>
    \<exists>g' r'. get_records cfg h (map (\<lambda>x. x \<noteq> None) c) (g, r) = Inr (g', r')
      \<and> advanced r T r' \<and> I (min (k + length c) (howmany n TP_BSIZE)) g'"
proof (induction c arbitrary: k g r)
  case (Cons x c)
  have kl: "k < length recs" using Cons.prems(2) enough [OF Cons.prems(1)] by (simp add: TP_BSIZE_def)
  have x: "recs ! k = x" "drop (Suc k) recs = c @ after"
    using Cons.prems(3) kl by (simp_all add: Cons_nth_drop_Suc [symmetric])
  obtain g1 r1 where 1: "get_record cfg h (x \<noteq> None) (g, r) = Inr (g1, r1)"
    "advanced r (somes c @ T) r1" "I (Suc k) (g1\<lparr>left := left g1 - 1024\<rparr>)"
  proof (cases x)
    case None
    then show ?thesis
      using that hole_record [OF Cons.prems(1,2), of r] x(1) advanced_refl [of r] Cons.prems(5) by auto
  next
    case (Some b)
    then show ?thesis
      using that data_record [OF Cons.prems(1,2), of b r "somes c @ T"] x(1) Cons.prems(5) by auto
  qed
  let ?g1 = "g1\<lparr>left := left g1 - 1024\<rparr>"
  have lf: "left ?g1 = int n - int (TP_BSIZE * Suc k)" using left_after [OF 1(3)] .
  have t1: "tape r1 = somes c @ T" using 1(2) by (auto simp: advanced_def)
  have hm: "k < howmany n TP_BSIZE" using Cons.prems(2) by (simp add: howmany_def TP_BSIZE_def)
  show ?case
  proof (cases "left ?g1 \<le> 0")
    case True
    then have "howmany n TP_BSIZE = Suc k" using lf Cons.prems(2) by (simp add: howmany_def TP_BSIZE_def)
    moreover obtain r2 where "read_junk (map (\<lambda>x. x \<noteq> None) c) r1 = Inr r2" "advanced r1 T r2"
      using read_junk_somes [OF t1] by blast
    ultimately show ?thesis using 1 True advanced_trans [OF 1(2)] by (auto simp: Let_def)
  next
    case False
    then have "int (TP_BSIZE * Suc k) < int n" using lf by linarith
    then have lt: "TP_BSIZE * Suc k < n" by (simp only: of_nat_less_iff)
    show ?thesis
    proof (cases "c = []")
      case True
      moreover have "Suc k \<le> howmany n TP_BSIZE" using hm by simp
      ultimately show ?thesis using 1 False t1 by (auto simp: Let_def min_absorb1)
    next
      case ne: False
      from Cons.IH [OF 1(3) lt x(2) ne t1] obtain g2 r2 where
        2: "get_records cfg h (map (\<lambda>x. x \<noteq> None) c) (?g1, r1) = Inr (g2, r2)"
        "advanced r1 T r2" "I (min (Suc k + length c) (howmany n TP_BSIZE)) g2" by blast
      then show ?thesis using 1(1) False advanced_trans [OF 1(2) 2(2)] by (auto simp: Let_def)
    qed
  qed
qed simp

lemma get_loop_segments:
  assumes P: "plain_file P" and nx: "plain_header nx"
  shows "\<lbrakk>I k g; TP_BSIZE * (k + length (concat (butlast (c # cs)))) < n;
     drop k recs = concat (c # cs); [] \<notin> set (c # cs); native cfg r; \<not> readmapflag r;
     r_spcl r = mkchecksum LE s; segment_header P ty c s;
     tape r = somes c @ rest @ encode_spcl LE (mkchecksum LE nx) # T; file_recs LE P TS_ADDR cs rest\<rbrakk> \<Longrightarrow>
    \<exists>g' r'. get_loop cfg h g r = Inr (g', r') \<and> at_header r nx T r'
      \<and> I (howmany n TP_BSIZE) g'"
proof (induction cs arbitrary: c k g r s ty rest)
  case Nil
  have len: "length recs = k + length c"
    using Nil.prems(3,2) enough [OF Nil.prems(1)] by (metis append_Nil2 concat.simps length_drop le_add_diff_inverse less_imp_le_nat
        linorder_not_less nat_mult_le_cancel_disj order_less_le_trans butlast.simps(2) list.size(3) add_0_right)
  have hn: "howmany n TP_BSIZE \<le> k + length c"
    using howmany_le [of n "length recs" TP_BSIZE] enough [OF Nil.prems(1)] len by (simp add: TP_BSIZE_def mult.commute)
  obtain g1 r1 where 1: "get_records cfg h (map (\<lambda>x. x \<noteq> None) c) (g, r) = Inr (g1, r1)"
    "advanced r (encode_spcl LE (mkchecksum LE nx) # T) r1" "I (howmany n TP_BSIZE) g1"
    using get_records_segment [OF Nil.prems(1), of c "[]" r "encode_spcl LE (mkchecksum LE nx) # T"]
      Nil.prems hn by (auto simp: min_absorb2)
  have "native cfg r1" using native_kept(1) [OF 1(2)] Nil.prems(5) by simp
  moreover have "tape r1 = encode_spcl LE (mkchecksum LE nx) # T" using 1(2) by (auto simp: advanced_def)
  ultimately obtain r2 where 2: "next_head cfg (\<lambda>_. True) r1 = Inr r2" "at_header r1 nx T r2"
    using next_head_plain [OF _ nx, of cfg r1 T "\<lambda>_. True"] by blast
  have "n \<le> TP_BSIZE * howmany n TP_BSIZE" using howmany_mult_ge [of TP_BSIZE n]
    by (simp add: TP_BSIZE_def mult.commute)
  then have "int n \<le> int (TP_BSIZE * howmany n TP_BSIZE)" by (simp only: of_nat_le_iff)
  then have "left g1 \<le> 0" using left_after [OF 1(3)] by linarith
  then have "get_loop cfg h g r = Inr (g1, r2)"
    using 1(1) 2(1) addr_present_segment [OF Nil.prems(8,7,6)] by (subst get_loop.simps) simp
  moreover have "at_header r nx T r2" using 1(2) 2(2) by (auto simp: advanced_def at_header_def)
  ultimately show ?case using 1(3) by blast
next
  case (Cons d ds)
  obtain s2 rest2 where s2: "segment_header P TS_ADDR d s2"
    "rest = encode_spcl LE (mkchecksum LE s2) # somes d @ rest2" "file_recs LE P TS_ADDR ds rest2"
    using Cons.prems(10) by auto
  let ?T = "somes d @ rest2 @ encode_spcl LE (mkchecksum LE nx) # T"
  have lt: "TP_BSIZE * (k + length c) < n" using Cons.prems(2) by (simp add: TP_BSIZE_def)
  then have kn: "TP_BSIZE * k < n" and hn: "k + length c < howmany n TP_BSIZE"
    by (simp_all add: TP_BSIZE_def howmany_def)
  obtain g1 r1 where 1: "get_records cfg h (map (\<lambda>x. x \<noteq> None) c) (g, r) = Inr (g1, r1)"
    "advanced r (encode_spcl LE (mkchecksum LE s2) # ?T) r1" "I (k + length c) g1"
    using get_records_segment [OF Cons.prems(1) kn, of c "concat (d # ds)" r
        "encode_spcl LE (mkchecksum LE s2) # ?T"] Cons.prems(3,4,9) s2(2) hn by (auto simp: min_absorb1)
  have "native cfg r1" using native_kept(1) [OF 1(2)] Cons.prems(5) by simp
  moreover have "tape r1 = encode_spcl LE (mkchecksum LE s2) # ?T" using 1(2) by (auto simp: advanced_def)
  ultimately obtain r2 where 2: "next_head cfg (\<lambda>_. True) r1 = Inr r2" "at_header r1 s2 ?T r2"
    using next_head_plain [OF _ plain_segment [OF P s2(1)], of cfg r1 ?T "\<lambda>_. True"] by blast
  have "int (TP_BSIZE * (k + length c)) < int n" using lt by (simp only: of_nat_less_iff)
  then have "left g1 > 0" using left_after [OF 1(3)] by linarith
  moreover have "c_type (r_spcl r2) = TS_ADDR" using 2(2) s2(1) by (auto simp: at_header_def segment_header_def)
  ultimately have step: "get_loop cfg h g r = get_loop cfg h g1 r2"
    using 1(1) 2(1) addr_present_segment [OF Cons.prems(8,7,6)] by (subst get_loop.simps) simp
  have dr: "drop (k + length c) recs = concat (d # ds)"
    using Cons.prems(3) by (metis add.commute append_eq_conv_conj concat.simps(2) drop_drop)
  have sz: "TP_BSIZE * (k + length c + length (concat (butlast (d # ds)))) < n"
    using Cons.prems(2) by (simp add: add.assoc)
  have "native cfg r2" using native_kept(2) [OF 2(2)] \<open>native cfg r1\<close> by simp
  moreover have "\<not> readmapflag r2" "r_spcl r2 = mkchecksum LE s2" "tape r2 = ?T"
    using 2(2) by (auto simp: at_header_def)
  ultimately obtain g3 r3 where 3: "get_loop cfg h g1 r2 = Inr (g3, r3)" "at_header r2 nx T r3"
    "I (howmany n TP_BSIZE) g3"
    using Cons.IH [OF 1(3) sz dr, of r2 s2 TS_ADDR rest2] Cons.prems(4) s2(1,3) by auto
  have "at_header r nx T r3" using 1(2) 2(2) 3(2) by (auto simp: advanced_def at_header_def)
  then show ?case using step 3 by auto
qed

text \<open>\<open>getfile\<close> on a file of the tape, followed by the header of another.\<close>

lemma getfile_received:
  assumes I0: "I 0 \<lparr> pend = [], left = int n, last_hole = False, outp = out \<rparr>"
    and fin: "\<And>g. I (howmany n TP_BSIZE) g \<Longrightarrow> \<exists>x. finish_file h n g = Inr x \<and> Q x"
    and n: "0 < n" "n < 2 ^ 63" and P: "plain_file P" and sz: "\<And>s. P s \<Longrightarrow> nbi_size (c_dinode s) = of_nat n"
    and segs: "recs = concat (c # cs)" "[] \<notin> set (c # cs)" "TP_BSIZE * length (concat (butlast (c # cs))) < n"
    and hdr: "segment_header P TS_INODE c s" "file_recs LE P TS_ADDR cs rest"
    and r: "native cfg r" "\<not> readmapflag r" "\<not> readingmaps r" "r_spcl r = mkchecksum LE s"
      "tape r = somes c @ rest @ encode_spcl LE (mkchecksum LE nx) # T"
    and nx: "plain_header nx" "c_type nx = TS_INODE"
  shows "\<exists>x r'. getfile cfg h out r = Inr (x, r') \<and> Q x \<and> r_spcl r' = mkchecksum LE nx \<and> tape r' = T
    \<and> cur_dip r' = Some (c_dinode nx) \<and> cur_ino r' = c_inumber nx \<and> native cfg r'
    \<and> \<not> readmapflag r' \<and> \<not> readingmaps r'"
proof -
  have s: "c_type s = TS_INODE" "c_magic s = NFS_MAGIC" "nbi_size (c_dinode s) = of_nat n"
    using hdr(1) sz by (auto simp: segment_header_def)
  have un: "unat (of_nat n :: u64) = n" using n(2) by (simp only: unat_of_nat) simp
  have sn: "sint (of_nat n :: u64) = int n"
    using n(2) by (simp add: signed_of_nat signed_take_bit_int_eq_self)
  let ?g0 = "\<lparr> pend = [], left = int n, last_hole = False, outp = out \<rparr>"
  obtain g r1 where g: "get_loop cfg h ?g0 r = Inr (g, r1)" "at_header r nx T r1" "I (howmany n TP_BSIZE) g"
    using get_loop_segments [OF P nx(1) I0, of c cs r s TS_INODE rest T] n(1) segs hdr r by auto
  obtain x where x: "finish_file h n g = Inr x" "Q x" using fin [OF g(3)] by blast
  have r1: "r_spcl r1 = mkchecksum LE nx" "\<not> readingmaps r1"
    using g(2) r(3) by (auto simp: at_header_def)
  let ?r2 = "(no_file r1)\<lparr>cur_dip := Some (c_dinode nx), cur_ino := c_inumber nx\<rparr>"
  have fi: "findinode cfg r1 = Inr ?r2"
    using r1(1) nx unfolding findinode_def
    by (subst findinode_loop.simps) (simp add: no_file_def plain_header_def Let_def ts_consts)
  have "getfile cfg h out r = Inr (x, ?r2)"
    using s r(4) un sn g(1) x(1) r1(2) fi by (simp add: getfile_def Let_def TS_END_def TS_INODE_def)
  then show ?thesis
    using x(2) g(2) r by (auto simp: at_header_def no_file_def native_def)
qed

end

end
