(* ===== verification/File_Roundtrip.thy ===== *)
theory File_Roundtrip
  imports Segments
begin

text \<open>
  The bytes that \<open>getfile\<close> of restore extracts: the invariant of its loop over the records of a file,
  the segments with their continuation headers, and the composition with \<open>dumpino\<close>: a dumped file
  comes back byte for byte.  The last section shows the two cases outside the hypotheses in which
  restore loses data.
\<close>

section \<open>The invariant of getfile\<close>

text \<open>
  After \<open>k\<close> records of a file of \<open>n\<close> bytes: the last ones are pending, the bytes of the others are in
  the output, up to \<open>n\<close>.
\<close>

definition get_inv :: "nat \<Rightarrow> byte list option list \<Rightarrow> nat \<Rightarrow> nat \<Rightarrow> ofile getstate \<Rightarrow> bool" where
  "get_inv F recs n k g \<longleftrightarrow>
     (let p = length (pend g)
      in k \<le> length recs \<and> TP_BSIZE * k < n + TP_BSIZE \<and> left g = int n - int (TP_BSIZE * k)
         \<and> p = data_run (take k recs) mod F \<and> p \<le> k \<and> concat (pend g) = contents (drop (k - p) (take k recs))
         \<and> file_upto (take n (contents recs)) (min (TP_BSIZE * (k - p)) n) (outp g)
         \<and> (\<not> last_hole g \<and> p = 0 \<longrightarrow> length (of_bytes (outp g)) = min (TP_BSIZE * k) n))"

lemma get_invD:
  assumes "get_inv F recs n k g"
  shows "k \<le> length recs" "TP_BSIZE * k < n + TP_BSIZE" "left g = int n - int (TP_BSIZE * k)"
    "data_run (take k recs) mod F = length (pend g)" "length (pend g) \<le> k"
    "concat (pend g) = contents (drop (k - length (pend g)) (take k recs))"
    "file_upto (take n (contents recs)) (min (TP_BSIZE * (k - length (pend g))) n) (outp g)"
    "\<not> last_hole g \<Longrightarrow> length (pend g) = 0 \<Longrightarrow> length (of_bytes (outp g)) = min (TP_BSIZE * k) n"
  using assms unfolding get_inv_def Let_def by metis+

lemma get_invI:
  assumes "length (pend g) = p" "k \<le> length recs" "TP_BSIZE * k < n + TP_BSIZE"
    "left g = int n - int (TP_BSIZE * k)" "data_run (take k recs) mod F = p" "p \<le> k"
    "concat (pend g) = contents (drop (k - p) (take k recs))"
    "file_upto (take n (contents recs)) (min (TP_BSIZE * (k - p)) n) (outp g)"
    "\<not> last_hole g \<Longrightarrow> p = 0 \<Longrightarrow> length (of_bytes (outp g)) = min (TP_BSIZE * k) n"
  shows "get_inv F recs n k g"
  using assms by (simp add: get_inv_def)

lemma take_drop_take: "a + m \<le> n \<Longrightarrow> take m (drop a (take n xs)) = take m (drop a xs)"
  by (simp add: drop_take min_def)

lemma pend_slice:
  assumes "full_recs recs" "j \<le> k" "k \<le> length recs" "TP_BSIZE * j + m \<le> n" "m \<le> TP_BSIZE * (k - j)"
  shows "take m (contents (drop j (take k recs))) = take m (drop (TP_BSIZE * j) (take n (contents recs)))"
proof -
  have f: "full_recs (take k recs)" using assms(1) by (auto simp: full_recs_def dest: in_set_takeD)
  have "contents (drop j (take k recs)) = drop (TP_BSIZE * j) (take (TP_BSIZE * k) (contents recs))"
    using drop_contents [OF f, of j] take_contents [OF assms(1,3)] assms(2,3) by simp
  moreover have "TP_BSIZE * j + m \<le> TP_BSIZE * k"
    using assms(2,5) by (metis add_le_cancel_left distrib_left le_add_diff_inverse)
  ultimately show ?thesis using assms(4) by (simp add: take_drop_take)
qed

text \<open>Writing the pending records, as many of their bytes as the file has.\<close>

lemma flush_pend:
  assumes full: "full_recs recs" and n: "n \<le> TP_BSIZE * length recs"
    and k: "p \<le> k" "k \<le> length recs" "TP_BSIZE * (k - p) \<le> n"
    and c: "concat (pend g) = contents (drop (k - p) (take k recs))"
    and f: "file_upto (take n (contents recs)) (TP_BSIZE * (k - p)) (outp g)"
    and m: "m = min (TP_BSIZE * k) n - TP_BSIZE * (k - p)"
  shows "file_upto (take n (contents recs)) (min (TP_BSIZE * k) n) (write_file (take m (concat (pend g))) (outp g))"
    "length (of_bytes (write_file (take m (concat (pend g))) (outp g))) = min (TP_BSIZE * k) n"
proof -
  have e: "TP_BSIZE * (k - p) + m = min (TP_BSIZE * k) n" using m k(3) by (simp add: diff_mult_distrib2)
  have "take m (concat (pend g)) = take m (drop (TP_BSIZE * (k - p)) (take n (contents recs)))"
    unfolding c using m k by (intro pend_slice [OF full]) (auto simp: diff_mult_distrib2)
  then show "file_upto (take n (contents recs)) (min (TP_BSIZE * k) n) (write_file (take m (concat (pend g))) (outp g))"
    "length (of_bytes (write_file (take m (concat (pend g))) (outp g))) = min (TP_BSIZE * k) n"
    using write_file_upto [OF f, of m] e length_contents [OF full] n by simp_all
qed

lemma data_run_take_Suc:
  "k < length recs \<Longrightarrow> data_run (take (Suc k) recs) = (if recs ! k = None then 0 else Suc (data_run (take k recs)))"
  by (cases "recs ! k") (simp_all add: take_Suc_conv_app_nth)

lemma data_run_le: "data_run xs \<le> length xs"
  using length_takeWhile_le [of "\<lambda>x. x \<noteq> None" "rev xs"] by (simp add: data_run_def)

lemma contents_drop_Suc:
  "j \<le> k \<Longrightarrow> k < length recs \<Longrightarrow>
     contents (drop j (take (Suc k) recs)) = contents (drop j (take k recs)) @ rec_bytes (recs ! k)"
  by (simp add: take_Suc_conv_app_nth)

lemma get_record_data:
  assumes full: "full_recs recs" and n: "n \<le> TP_BSIZE * length recs" and F: "fssize cfg = F * TP_BSIZE" "0 < F"
    and N: "\<not> Nflag cfg"
    and i: "get_inv F recs n k g" and k: "TP_BSIZE * k < n" "recs ! k = Some b" and t: "tape r = b # T"
  shows "\<exists>g' r'. get_record cfg (file_handlers cfg) True (g, r) = Inr (g', r') \<and> advanced r T r'
    \<and> get_inv F recs n (Suc k) (g'\<lparr>left := left g' - 1024\<rparr>)"
proof -
  obtain r' where r': "readtape r = Inr (b, r')" "advanced r T r'" using readtape_advanced [OF t] by blast
  define p where "p = length (pend g)"
  note inv = get_invD [OF i, folded p_def]
  have kl: "k < length recs" using k(1) n by (simp add: TP_BSIZE_def)
  let ?g = "g\<lparr>pend := pend g @ [b]\<rparr>"
  have jj: "Suc k - Suc p = k - p" by simp
  have c: "concat (pend ?g) = contents (drop (Suc k - Suc p) (take (Suc k) recs))"
    unfolding jj using inv(6) kl k(2) contents_drop_Suc [of "k - p" k recs] by (simp add: rec_bytes_def)
  have pk: "TP_BSIZE * (k - p) \<le> n" using k(1) by (simp add: TP_BSIZE_def)
  have f: "file_upto (take n (contents recs)) (TP_BSIZE * (Suc k - Suc p)) (outp ?g)"
    unfolding jj using inv(7) pk by (simp add: min_absorb1)
  have run: "data_run (take (Suc k) recs) mod F = Suc p mod F"
    using data_run_take_Suc [OF kl] k(2) inv(4) by (metis mod_Suc_eq option.distinct(1))
  have lt: "TP_BSIZE * Suc k < n + TP_BSIZE" "left g - 1024 = int n - int (TP_BSIZE * Suc k)"
    using k(1) inv(3) by (simp_all add: TP_BSIZE_def)
  show ?thesis
  proof (cases "Suc p = F")
    case False
    have "p < F" using inv(4) F(2) by (metis mod_less_divisor)
    then have p': "data_run (take (Suc k) recs) mod F = Suc p" using run False by simp
    have "get_record cfg (file_handlers cfg) True (g, r) = Inr (?g, r')"
      using r'(1) False F by (simp add: get_record_def Let_def TP_BSIZE_def flip: p_def)
    moreover have "get_inv F recs n (Suc k) (?g\<lparr>left := left ?g - 1024\<rparr>)"
      using kl lt p' inv(5) c f pk by (intro get_invI [where p = "Suc p"]) (simp_all add: p_def min_absorb1)
    ultimately show ?thesis using r'(2) by blast
  next
    case True
    define m where "m = (if left ?g > 1024 then fssize cfg else nat ((int (length (pend ?g)) - 1) * 1024 + left ?g))"
    have "m = min (TP_BSIZE * Suc k) n - TP_BSIZE * (Suc k - Suc p)"
    proof (cases "left g > 1024")
      case big: True
      then have "TP_BSIZE * Suc k \<le> n" using inv(3) by (simp add: TP_BSIZE_def)
      then have "min (TP_BSIZE * Suc k) n - TP_BSIZE * (Suc k - Suc p) = TP_BSIZE * (Suc k - (Suc k - Suc p))"
        by (simp only: min_absorb1 diff_mult_distrib2)
      also have "Suc k - (Suc k - Suc p) = Suc p" using inv(5) by simp
      finally show ?thesis using big F True by (simp add: m_def mult.commute)
    next
      case False
      then have "min (TP_BSIZE * Suc k) n = n" using inv(3) by (simp add: TP_BSIZE_def)
      moreover have "int p * 1024 + left g = int (n - TP_BSIZE * (k - p))"
        using inv(3,5) pk by (simp add: TP_BSIZE_def of_nat_diff)
      ultimately show ?thesis using False by (simp add: m_def flip: p_def del: of_nat_diff)
    qed
    note w = flush_pend [OF full n _ _ _ c f this]
    have w': "file_upto (take n (contents recs)) (min (TP_BSIZE * Suc k) n) (write_file (take m (concat (pend ?g))) (outp g))"
      "length (of_bytes (write_file (take m (concat (pend ?g))) (outp g))) = min (TP_BSIZE * Suc k) n"
      using w inv(5) kl pk by simp_all
    have pb: "pend_bytes (fssize cfg) ?g = take m (concat (pend ?g))" by (simp add: pend_bytes_def m_def)
    let ?g' = "?g\<lparr>pend := [], last_hole := False, outp := write_file (take m (concat (pend ?g))) (outp g)\<rparr>"
    have "get_record cfg (file_handlers cfg) True (g, r) = Inr (?g', r')"
    proof -
      have "length (pend ?g) = fssize cfg div TP_BSIZE" using True F by (simp add: TP_BSIZE_def flip: p_def)
      then show ?thesis
        using r'(1) N pb by (simp add: get_record_def Let_def file_handlers_def xtrfile_def)
    qed
    moreover have "get_inv F recs n (Suc k) (?g'\<lparr>left := left ?g' - 1024\<rparr>)"
      using kl lt True run w' by (intro get_invI [where p = 0]) simp_all
    ultimately show ?thesis using r'(2) by blast
  qed
qed

lemma get_record_hole:
  assumes full: "full_recs recs" and n: "n \<le> TP_BSIZE * length recs"
    and F: "0 < F" and N: "\<not> Nflag cfg"
    and i: "get_inv F recs n k g" and k: "TP_BSIZE * k < n" "recs ! k = None"
    and safe: "left g \<ge> 1024 \<or> pend g = []"
  shows "\<exists>g'. get_record cfg (file_handlers cfg) False (g, r) = Inr (g', r)
    \<and> get_inv F recs n (Suc k) (g'\<lparr>left := left g' - 1024\<rparr>)"
proof -
  define p where "p = length (pend g)"
  define cont where "cont = take n (contents recs)"
  note inv = get_invD [OF i, folded p_def cont_def]
  have kl: "k < length recs" using k(1) n by (simp add: TP_BSIZE_def)
  have pk: "TP_BSIZE * (k - p) \<le> n" using k(1) by (simp add: TP_BSIZE_def)
  have f: "file_upto cont (TP_BSIZE * (k - p)) (outp g)" using inv(7) pk by (simp add: min_absorb1)
  obtain out where out: "(if pend g \<noteq> [] then fill (file_handlers cfg) (pend_bytes (p * TP_BSIZE) g) (outp g)
        else Inr (outp g)) = Inr out" "file_upto cont (TP_BSIZE * k) out"
  proof (cases "pend g = []")
    case True
    then show ?thesis using that f by (simp add: p_def)
  next
    case False
    have "(if left g > 1024 then p * TP_BSIZE else nat ((int p - 1) * 1024 + left g)) = p * TP_BSIZE"
      using safe False by (auto simp: TP_BSIZE_def nat_mult_distrib)
    moreover have "p * TP_BSIZE = min (TP_BSIZE * k) n - TP_BSIZE * (k - p)"
      using inv(5) k(1) by (simp add: min_absorb1 mult.commute flip: diff_mult_distrib2)
    ultimately have pb: "pend_bytes (p * TP_BSIZE) g = take (min (TP_BSIZE * k) n - TP_BSIZE * (k - p)) (concat (pend g))"
      unfolding pend_bytes_def p_def [symmetric] by simp
    have "file_upto cont (min (TP_BSIZE * k) n) (write_file (pend_bytes (p * TP_BSIZE) g) (outp g))"
      unfolding pb cont_def
      by (rule flush_pend(1) [OF full n inv(5) _ pk inv(6) f [unfolded cont_def] refl]) (use kl in simp)
    then show ?thesis using that False N k(1) by (simp add: file_handlers_def xtrfile_def min_absorb1)
  qed
  define m where "m = nat (if left g > 1024 then 1024 else left g)"
  have m: "TP_BSIZE * k + m = min (TP_BSIZE * Suc k) n" using inv(3) k(1) by (auto simp: m_def TP_BSIZE_def)
  have "take m (drop (TP_BSIZE * k) cont) = take m (contents (drop k (take (Suc k) recs)))"
    unfolding cont_def using kl m
    by (intro pend_slice [OF full, symmetric]) (auto simp: m_def TP_BSIZE_def)
  also have "\<dots> = replicate m 0"
    using kl k(2) contents_drop_Suc [of k k recs] by (auto simp: rec_bytes_def m_def TP_BSIZE_def)
  finally have z: "take m (drop (TP_BSIZE * k) cont) = replicate m 0" .
  have "TP_BSIZE * k + m \<le> length cont" using m n length_contents [OF full] by (simp add: cont_def)
  from skip_file_upto [OF out(2) this z]
  have s: "file_upto cont (min (TP_BSIZE * Suc k) n) (out\<lparr>of_pos := of_pos out + m\<rparr>)" using m by simp
  let ?g' = "g\<lparr>pend := [], last_hole := True, outp := out\<lparr>of_pos := of_pos out + m\<rparr>\<rparr>"
  have "get_record cfg (file_handlers cfg) False (g, r) = Inr (?g', r)"
  proof -
    have "(if pend g \<noteq> [] then fill (file_handlers cfg) (pend_bytes (length (pend g) * TP_BSIZE) g) (outp g)
        else Inr (outp g)) = Inr out" using out(1) unfolding p_def .
    moreover have "skip (file_handlers cfg) (nat (if left g > 1024 then 1024 else left g)) out
        = Inr (out\<lparr>of_pos := of_pos out + m\<rparr>)" by (simp add: file_handlers_def xtrskip_def m_def)
    ultimately show ?thesis by (simp only: get_record_def prod.case if_False bindE.simps)
  qed
  moreover have "get_inv F recs n (Suc k) (?g'\<lparr>left := left ?g' - 1024\<rparr>)"
    using s kl k(1) inv(3) data_run_take_Suc [OF kl] k(2)
    by (intro get_invI [where p = 0]) (simp_all add: cont_def TP_BSIZE_def)
  ultimately show ?thesis by blast
qed

text \<open>Only the last record can be a hole of less than \<open>TP_BSIZE\<close> bytes.\<close>

lemma hole_safe_step:
  assumes "hole_safe F recs n" "get_inv F recs n k g" "TP_BSIZE * k < n" "recs ! k = None"
  shows "left g \<ge> 1024 \<or> pend g = []"
proof (cases "left g \<ge> 1024")
  case False
  have inv: "left g = int n - int (TP_BSIZE * k)" "length (pend g) = data_run (take k recs) mod F"
    using get_invD(3,4) [OF assms(2)] by simp_all
  then have "(n - 1) div TP_BSIZE = k" "\<not> TP_BSIZE dvd n"
    using False assms(3) by (auto simp: TP_BSIZE_def intro!: div_nat_eqI)
  then show ?thesis using assms(1,4) inv(2) by (simp add: hole_safe_def Let_def)
qed simp

text \<open>The file as a receiver of records, for a file and a transfer size that keep its holes safe.\<close>

definition good_get :: "rcfg \<Rightarrow> byte list option list \<Rightarrow> nat \<Rightarrow> nat \<Rightarrow> nat \<Rightarrow> ofile getstate \<Rightarrow> bool" where
  "good_get cfg recs n F k g \<longleftrightarrow> full_recs recs \<and> n \<le> TP_BSIZE * length recs \<and> fssize cfg = F * TP_BSIZE
     \<and> 0 < F \<and> \<not> Nflag cfg \<and> hole_safe F recs n \<and> get_inv F recs n k g"

interpretation getf: file_receiver cfg "file_handlers cfg" recs n "good_get cfg recs n F" for cfg recs n F
proof unfold_locales
  fix k g b and r :: rstate and T
  assume g: "good_get cfg recs n F k g"
  then have i: "full_recs recs" "n \<le> TP_BSIZE * length recs" "fssize cfg = F * TP_BSIZE" "0 < F" "\<not> Nflag cfg"
    "hole_safe F recs n" "get_inv F recs n k g"
    by (simp_all add: good_get_def)
  show "left g = int n - int (TP_BSIZE * k)" by (rule get_invD(3) [OF i(7)])
  show "n \<le> TP_BSIZE * length recs" by (rule i(2))
  show "\<exists>g' r'. get_record cfg (file_handlers cfg) True (g, r) = Inr (g', r') \<and> advanced r T r'
      \<and> good_get cfg recs n F (Suc k) (g'\<lparr>left := left g' - 1024\<rparr>)"
    if "TP_BSIZE * k < n" "recs ! k = Some b" "tape r = b # T"
    using get_record_data [OF i(1-5,7) that] i(1-6) unfolding good_get_def by blast
  show "\<exists>g'. get_record cfg (file_handlers cfg) False (g, r) = Inr (g', r)
      \<and> good_get cfg recs n F (Suc k) (g'\<lparr>left := left g' - 1024\<rparr>)"
    if "TP_BSIZE * k < n" "recs ! k = None"
    using get_record_hole [OF i(1,2,4,5,7) that hole_safe_step [OF i(6,7) that]] i(1-6)
    unfolding good_get_def by blast
qed

lemma finish_file_contents:
  assumes full: "full_recs recs" and n: "n \<le> TP_BSIZE * length recs" and N: "\<not> Nflag cfg" and n0: "0 < n"
    and i: "get_inv F recs n (howmany n TP_BSIZE) g"
  shows "\<exists>f. finish_file (file_handlers cfg) n g = Inr f \<and> of_bytes f = take n (contents recs)"
proof -
  let ?L = "howmany n TP_BSIZE" and ?p = "length (pend g)" and ?cont = "take n (contents recs)"
  note inv = get_invD [OF i]
  have L: "n \<le> TP_BSIZE * ?L" using howmany_mult_ge [of TP_BSIZE n] by (simp add: TP_BSIZE_def mult.commute)
  have "int n \<le> int (TP_BSIZE * ?L)" using L by (simp only: of_nat_le_iff)
  then have left: "left g = int n - int (TP_BSIZE * ?L)" "left g \<le> 0" using inv(3) by simp_all
  have len: "length ?cont = n" using n length_contents [OF full] by simp
  have upto: "zero_pad n (take n (of_bytes f)) = ?cont" "length (of_bytes f) = n \<Longrightarrow> of_bytes f = ?cont"
    if "file_upto ?cont n f" for f
    using that by (simp_all add: file_upto_def zero_pad_def)
  show ?thesis
  proof (cases "pend g = []")
    case True
    then have f: "file_upto ?cont n (outp g)" and l: "\<not> last_hole g \<Longrightarrow> length (of_bytes (outp g)) = n"
      using inv L by (simp_all add: min_absorb2)
    show ?thesis
    proof (cases "last_hole g")
      case True
      then show ?thesis using upto(1) [OF f] left \<open>pend g = []\<close>
        by (simp add: finish_file_def file_handlers_def ftruncate_def)
    next
      case False
      then show ?thesis using upto(2) [OF f l] left \<open>pend g = []\<close> by (simp add: finish_file_def)
    qed
  next
    case False
    then have p: "0 < ?p" "?p \<le> ?L" using inv by auto
    have pk: "TP_BSIZE * (?L - ?p) \<le> n"
    proof -
      have "TP_BSIZE * (?L - ?p) \<le> TP_BSIZE * (?L - 1)" using p(1) by (intro mult_le_mono2 diff_le_mono2) linarith
      also have "\<dots> \<le> n" using n0 by (simp add: howmany_def TP_BSIZE_def)
      finally show ?thesis .
    qed
    have m: "nat (int ?p * 1024 + left g) = min (TP_BSIZE * ?L) n - TP_BSIZE * (?L - ?p)"
      using left L p pk by (simp add: TP_BSIZE_def min_absorb2 of_nat_diff nat_diff_distrib')
    have f: "file_upto ?cont (TP_BSIZE * (?L - ?p)) (outp g)" using inv pk by (simp add: min_absorb1)
    have pl: "?L \<le> length recs" and c: "concat (pend g) = contents (drop (?L - ?p) (take ?L recs))"
      using inv by simp_all
    note w = flush_pend [OF full n p(2) pl pk c f refl]
    let ?f = "write_file (take (nat (int ?p * 1024 + left g)) (concat (pend g))) (outp g)"
    have "of_bytes ?f = ?cont" using upto(2) [of ?f] w L unfolding m by (simp add: min_absorb2)
    moreover have "finish_file (file_handlers cfg) n g = Inr ?f"
      using False left N by (simp add: finish_file_def file_handlers_def xtrfile_def)
    ultimately show ?thesis by blast
  qed
qed

definition empty_file :: ofile where
  "empty_file = \<lparr> of_bytes = [], of_pos = 0 \<rparr>"

lemma getfile_segments:
  assumes full: "full_recs recs" and n: "0 < n" "n \<le> TP_BSIZE * length recs" "n < 2 ^ 63"
    and F: "fssize cfg = F * TP_BSIZE" "0 < F" and N: "\<not> Nflag cfg" and safe: "hole_safe F recs n"
    and P: "plain_file P" and sz: "\<And>s. P s \<Longrightarrow> nbi_size (c_dinode s) = of_nat n"
    and segs: "recs = concat (c # cs)" "[] \<notin> set (c # cs)" "TP_BSIZE * length (concat (butlast (c # cs))) < n"
    and hdr: "segment_header P TS_INODE c s" "file_recs LE P TS_ADDR cs rest"
    and r: "native cfg r" "\<not> readmapflag r" "\<not> readingmaps r" "r_spcl r = mkchecksum LE s"
      "tape r = somes c @ rest @ encode_spcl LE (mkchecksum LE nx) # T"
    and nx: "plain_header nx" "c_type nx = TS_INODE"
  shows "\<exists>f r'. getfile cfg (file_handlers cfg) empty_file r = Inr (f, r')
    \<and> of_bytes f = take n (contents recs) \<and> r_spcl r' = mkchecksum LE nx \<and> tape r' = T
    \<and> cur_dip r' = Some (c_dinode nx) \<and> cur_ino r' = c_inumber nx \<and> native cfg r'
    \<and> \<not> readmapflag r' \<and> \<not> readingmaps r'"
proof -
  have I0: "good_get cfg recs n F 0 \<lparr> pend = [], left = int n, last_hole = False, outp = empty_file \<rparr>"
    using full n F N safe
    by (auto simp: good_get_def empty_file_def file_upto_def zero_pad_def TP_BSIZE_def intro: get_invI [where p = 0])
  have fin: "\<exists>f. finish_file (file_handlers cfg) n g = Inr f \<and> of_bytes f = take n (contents recs)"
    if "good_get cfg recs n F (howmany n TP_BSIZE) g" for g
    using that finish_file_contents n(1) by (auto simp: good_get_def)
  show ?thesis
    using getf.getfile_received [where Q = "\<lambda>f. of_bytes f = take n (contents recs)",
        OF I0 fin n(1,3) P sz segs hdr r nx] by simp
qed


section \<open>Files of dump\<close>

lemma data_run_append:
  "data_run (xs @ map Some rs) = length rs + data_run xs" "0 < n \<Longrightarrow> data_run (xs @ replicate n None) = 0"
proof -
  show "data_run (xs @ map Some rs) = length rs + data_run xs"
    by (induction rs rule: rev_induct) (simp_all flip: append_assoc)
  show "0 < n \<Longrightarrow> data_run (xs @ replicate n None) = 0"
  proof -
    assume "0 < n"
    then have "rev (xs @ replicate n None) = None # replicate (n - 1) None @ rev xs"
      by (cases n) (simp_all add: replicate_append_same)
    then show ?thesis by (simp only: data_run_def takeWhile.simps simp_thms if_False list.size)
  qed
qed

lemma data_run_blocks: "0 < bsize div TP_BSIZE \<Longrightarrow> bsize div TP_BSIZE dvd data_run (blocks_records img bsize bs)"
  by (induction bs rule: rev_induct) (auto simp: block_records_def data_run_append)

lemma data_run_None: "0 < l \<Longrightarrow> l \<le> length xs \<Longrightarrow> xs ! (l - 1) = None \<Longrightarrow> data_run (take l xs) = 0"
  by (cases l) (simp_all add: take_Suc_conv_app_nth)

text \<open>With a transfer size that divides the blocks of the dumped file system nothing can go wrong.\<close>

lemma hole_safe_blocks:
  assumes "F dvd bsize div TP_BSIZE" "0 < bsize div TP_BSIZE" "0 < n"
    "n \<le> TP_BSIZE * length (blocks_records img bsize bs)"
  shows "hole_safe F (blocks_records img bsize bs) n"
proof -
  let ?R = "blocks_records img bsize bs" and ?t = "bsize div TP_BSIZE" and ?l = "(n - 1) div TP_BSIZE"
  have l: "?l < length ?R" using assms(3,4) by (simp add: TP_BSIZE_def div_less_iff_less_mult mult.commute)
  show ?thesis
  proof (cases "?R ! ?l = None")
    case True
    have "data_run (take ?l ?R) mod F = 0"
    proof (cases "?l mod ?t = 0")
      case True
      then have "?l = ?t * (?l div ?t)" by (metis add_0_right mult_div_mod_eq)
      then have "take ?l ?R = blocks_records img bsize (take (?l div ?t) bs)"
        using drop_blocks_records [of bsize "?l div ?t" img bs]
          blocks_records_simps(3) [of img bsize "take (?l div ?t) bs" "drop (?l div ?t) bs"] l
        by (metis append_eq_append_conv append_take_drop_id length_drop)
      then show ?thesis using data_run_blocks [OF assms(2)] assms(1) by (metis dvd_imp_mod_0 dvd_trans)
    next
      case False
      then have l0: "0 < ?l" by (metis gr0I mod_0)
      have "(?l - 1) div ?t = ?l div ?t"
        using False l0 div_Suc [of "?l - 1" ?t] by simp
      then have "?R ! (?l - 1) = None"
        using nth_blocks_records [OF assms(2), of ?l bs img] nth_blocks_records [OF assms(2), of "?l - 1" bs img]
          l True by simp
      then show ?thesis using data_run_None [OF l0] l by simp
    qed
    then show ?thesis by (simp add: hole_safe_def Let_def)
  qed (simp add: hole_safe_def Let_def)
qed

text \<open>The bytes of a block as the file has them.\<close>

definition block_bytes :: "byte list \<Rightarrow> nat \<Rightarrow> nat \<Rightarrow> byte list" where
  "block_bytes img bsize b = (if b = 0 then replicate bsize 0 else at img (b * bsize) bsize)"

lemma contents_fs_recs:
  "contents (map Some (map (\<lambda>i. at img (a + i * TP_BSIZE) TP_BSIZE) [0..<n])) = at img a (n * TP_BSIZE)"
proof (induction n)
  case (Suc n)
  have "Suc n * TP_BSIZE = n * TP_BSIZE + TP_BSIZE" by simp
  then have "at img a (Suc n * TP_BSIZE) = at img a (n * TP_BSIZE) @ at img (a + n * TP_BSIZE) TP_BSIZE"
    unfolding at_def by (simp only: take_add drop_drop add.commute [of a])
  then show ?case using Suc by (simp add: rec_bytes_def)
qed (simp add: at_def)

lemma contents_holes: "contents (replicate n None) = replicate (n * TP_BSIZE) 0"
  by (induction n) (simp_all add: rec_bytes_def replicate_add)

lemma contents_blocks:
  assumes "TP_BSIZE dvd bsize"
  shows "contents (blocks_records img bsize bs) = concat (map (block_bytes img bsize) bs)"
  using assms by (induction bs)
    (simp_all add: block_records_def block_bytes_def contents_holes fs_recs_def
       contents_fs_recs [unfolded map_map])

lemma full_blocks:
  assumes "TP_BSIZE dvd bsize" "\<forall>b \<in> set bs. b \<noteq> 0 \<longrightarrow> b * bsize + bsize \<le> length img"
  shows "full_recs (blocks_records img bsize bs)"
proof -
  have "length (at img (b * bsize + i * TP_BSIZE) TP_BSIZE) = TP_BSIZE"
    if "b * bsize + bsize \<le> length img" "i < bsize div TP_BSIZE" for b i
  proof -
    have "Suc i * TP_BSIZE \<le> bsize div TP_BSIZE * TP_BSIZE" using that(2) by (intro mult_le_mono1) simp
    then have "i * TP_BSIZE + TP_BSIZE \<le> bsize" using assms(1) by simp
    then show ?thesis using that(1) by (simp add: at_def)
  qed
  then show ?thesis
    using assms(2) by (induction bs) (auto simp: full_recs_def block_records_def rec_bytes_def fs_recs_def)
qed

lemma emits_inode_header:
  assumes "winv cfg w" "wf_nbi nbi"
  shows "winv cfg (inode_header nbi w)" "stream img (inode_header nbi w) = stream img w"
    "c_type (spcl (inode_header nbi w)) = TS_INODE" "c_dinode (spcl (inode_header nbi w)) = nbi"
    "c_date (spcl (inode_header nbi w)) = c_date (spcl w)"
    "c_flags (spcl (inode_header nbi w)) = c_flags (spcl w)"
proof -
  have "wf_spcl ((spcl w)\<lparr>c_dinode := nbi, c_type := TS_INODE, c_count := 0\<rparr>)"
    using winv_wf [OF assms(1)] assms(2) by (simp add: wf_spcl_def)
  then show "winv cfg (inode_header nbi w)"
    unfolding inode_header_def by (intro winv_set_spcl [OF assms(1)]) simp_all
qed (simp_all add: inode_header_def writer_simps)

definition plain_inode :: "dinode \<Rightarrow> bool" where
  "plain_inode dp \<longleftrightarrow> length (di_db dp) = 12 \<and> length (di_ib dp) = 3 \<and> di_extraisize dp = 0 \<and> di_file_acl dp = 0"

lemma wf_bsd_inode: "plain_inode dp \<Longrightarrow> wf_nbi (bsd_inode dp n)"
  by (simp add: plain_inode_def wf_nbi_def bsd_inode_def)

text \<open>The headers of a dumped file.\<close>

definition dumped_header :: "dinode \<Rightarrow> nat \<Rightarrow> dump_ino_t \<Rightarrow> s_spcl \<Rightarrow> s_spcl \<Rightarrow> bool" where
  "dumped_header dp n ino s0 s \<longleftrightarrow> c_dinode s = bsd_inode dp n \<and> c_inumber s = ino
     \<and> c_date s = c_date s0 \<and> c_flags s = c_flags s0"

lemma dumpino_emits:
  assumes st: "steady cfg" "good_fs fs" and w: "winv cfg w" "\<not> newtape w"
    and dp: "plain_inode dp" "file_mode dp = IFREG" "0 < i_size dp"
    and calls: "sorted_wrt (<) (map fst (fs_blocks fs ino))"
  shows "\<exists>w' segs out. dumpino cfg fs dp ino False (m, w) = Inr (m\<lparr>dumpinomap := CLRINO ino (dumpinomap m)\<rparr>, w')
    \<and> winv cfg w' \<and> stream img w' = stream img w @ out
    \<and> concat segs = blocks_records img (bsize_of fs) (file_blocks fs ino (i_size dp))
    \<and> [] \<notin> set segs \<and> (\<forall>c \<in> set segs. bsize_of fs div TP_BSIZE dvd length c)
    \<and> file_recs (byte_order cfg) (dumped_header dp (i_size dp) ino (spcl w)) TS_INODE segs out"
proof -
  let ?n = "i_size dp"
  define w1 where "w1 = inode_header (bsd_inode dp ?n) w"
  note h = emits_inode_header [OF w(1) wf_bsd_inode [OF dp(1), of ?n], folded w1_def]
  obtain w2 where w2: "dump_blocks cfg fs ino ?n w1 = Inr w2"
    "emits_file cfg img (bsize_of fs div TP_BSIZE) ino (blocks_records img (bsize_of fs) (file_blocks fs ino ?n)) w1 w2"
    using dump_blocks_emits [OF st h(1) calls] by blast
  then obtain segs out where so: "emits cfg img out w1 w2"
    "concat segs = blocks_records img (bsize_of fs) (file_blocks fs ino ?n)" "[] \<notin> set segs"
    "\<forall>c \<in> set segs. bsize_of fs div TP_BSIZE dvd length c"
    "file_recs (byte_order cfg) (of_inode (spcl w1) ino) (c_type (spcl w1)) segs out"
    by (auto simp: emits_file_def)
  have "file_recs (byte_order cfg) (dumped_header dp ?n ino (spcl w)) TS_INODE segs out"
    by (rule file_recs_mono [OF _ so(5) [unfolded h(3)]])
       (use h in \<open>auto simp: of_inode_def same_file_def dumped_header_def\<close>)
  moreover have "dumpino cfg fs dp ino False (m, w) = Inr (m\<lparr>dumpinomap := CLRINO ino (dumpinomap m)\<rparr>, w2)"
    using w(2) dp w2(1)
    by (simp add: dumpino_def begin_inode_def Let_def dump_xattr_def xattr_in_inode_def xattr_in_block_def
        plain_inode_def mode_consts flip: w1_def)
  moreover have "winv cfg w2" "stream img w2 = stream img w @ out"
    using so(1) h(2) by (simp_all add: emits_def)
  ultimately show ?thesis using so by blast
qed

text \<open>A file whose blocks lie within its size and on the disk.\<close>

definition good_blocks :: "ext2fs \<Rightarrow> dump_ino_t \<Rightarrow> nat \<Rightarrow> byte list \<Rightarrow> bool" where
  "good_blocks fs ino n img \<longleftrightarrow> sorted_wrt (<) (map fst (fs_blocks fs ino))
     \<and> (\<forall>(i, b) \<in> set (fs_blocks fs ino). i < howmany n (bsize_of fs) \<and> b * bsize_of fs + bsize_of fs \<le> length img)"

definition file_contents :: "ext2fs \<Rightarrow> dump_ino_t \<Rightarrow> nat \<Rightarrow> byte list \<Rightarrow> byte list" where
  "file_contents fs ino n img =
     take n (concat (map (block_bytes img (bsize_of fs)) (logical_blocks (fs_blocks fs ino) (howmany n (bsize_of fs)))))"

lemma file_blocks_good:
  assumes "good_blocks fs ino n img"
  shows "file_blocks fs ino n = logical_blocks (fs_blocks fs ino) (howmany n (bsize_of fs))"
    "\<forall>b \<in> set (file_blocks fs ino n). b \<noteq> 0 \<longrightarrow> b * bsize_of fs + bsize_of fs \<le> length img"
proof -
  have "calls_end 0 (fs_blocks fs ino) \<le> howmany n (bsize_of fs)"
  proof (cases "fs_blocks fs ino = []")
    case False
    obtain i b where l: "last (fs_blocks fs ino) = (i, b)" by (cases "last (fs_blocks fs ino)")
    then have "(i, b) \<in> set (fs_blocks fs ino)" using False last_in_set by metis
    then show ?thesis using assms False l by (auto simp: good_blocks_def calls_end_def Suc_le_eq)
  qed simp
  then show e: "file_blocks fs ino n = logical_blocks (fs_blocks fs ino) (howmany n (bsize_of fs))"
    by (simp add: file_blocks_def max_def)
  show "\<forall>b \<in> set (file_blocks fs ino n). b \<noteq> 0 \<longrightarrow> b * bsize_of fs + bsize_of fs \<le> length img"
    unfolding e using assms
    by (auto simp: logical_blocks_def good_blocks_def dest!: map_of_SomeD split: option.splits)
qed

lemma last_segment:
  assumes "\<forall>c \<in> set segs. t dvd length c" "[] \<notin> set segs" "length (concat segs) = t * N"
    "t * TP_BSIZE = b" "N = howmany n b" "0 < n" "0 < b"
  shows "segs \<noteq> []" "TP_BSIZE * length (concat (butlast segs)) < n"
proof -
  have N0: "0 < N" using assms(5-7) by (simp add: howmany_def div_greater_zero_iff)
  have "\<not> n \<le> (N - 1) * b" using howmany_le [of n "N - 1" b] assms(5,7) N0 by auto
  then have N: "0 < N" "b * (N - 1) < n" using N0 by (simp_all add: mult.commute)
  have t: "0 < t" using assms(4,7) by (cases t) auto
  show ne: "segs \<noteq> []" using assms(3) N(1) t by auto
  have "last segs \<noteq> []" "t dvd length (last segs)" using ne assms(1,2) by (auto dest: last_in_set)
  then have "t \<le> length (last segs)" by (auto intro: dvd_imp_le)
  moreover have "length (concat segs) = length (concat (butlast segs)) + length (last segs)"
    using ne by (metis append_butlast_last_id concat.simps(1) concat.simps(2) concat_append length_append append_Nil2)
  ultimately have "length (concat (butlast segs)) \<le> t * (N - 1)" using assms(3) by (simp add: diff_mult_distrib2)
  then have "TP_BSIZE * length (concat (butlast segs)) \<le> b * (N - 1)"
    using assms(4) by (metis mult.assoc mult.commute mult_le_mono2)
  then show "TP_BSIZE * length (concat (butlast segs)) < n" using N(2) by simp
qed

section \<open>Properties\<close>

text \<open>The reader of restore in front of a file, on a native dump.\<close>

definition ready_reader :: "rcfg \<Rightarrow> rstate \<Rightarrow> bool" where
  "ready_reader rc r \<longleftrightarrow> native rc r \<and> \<not> readmapflag r \<and> \<not> readingmaps r"

text \<open>
  What restore makes of the records \<open>out\<close> when the header of the file \<open>nx\<close> follows: it recognises a
  file header, extracts a file of the given bytes and stands in front of \<open>nx\<close>.
\<close>

definition restores_as :: "rcfg \<Rightarrow> byte list list \<Rightarrow> dump_ino_t \<Rightarrow> s_spcl \<Rightarrow> byte list \<Rightarrow> bool" where
  "restores_as rc out ino nx bytes \<longleftrightarrow>
     (\<forall>r T. ready_reader rc r \<and> tape r = out @ encode_spcl LE (mkchecksum LE nx) # T \<longrightarrow>
       (\<exists>r1 f r2. next_head rc (\<lambda>_. True) r = Inr r1 \<and> c_inumber (r_spcl r1) = ino
          \<and> getfile rc (file_handlers rc) empty_file r1 = Inr (f, r2) \<and> of_bytes f = bytes
          \<and> cur_ino r2 = c_inumber nx \<and> cur_dip r2 = Some (c_dinode nx) \<and> tape r2 = T \<and> ready_reader rc r2))"

text \<open>C1: The round trip of a file.  \<open>dumpino\<close> of a regular file without extended attributes, in steady
  operation and whatever the blocking factor, puts records on the tape from which \<open>getfile\<close> extracts
  exactly the bytes of the file, holes as zeros and cut to its size, and finds the next file: provided
  that restore's transfer size divides the block size of the dumped file system, and that no block
  lies beyond the end of the file.\<close>

theorem dump_restore_file:
  assumes st: "steady cfg" "byte_order cfg = LE" "good_fs fs" and w: "winv cfg w" "\<not> newtape w"
    and dp: "plain_inode dp" "file_mode dp = IFREG" "0 < i_size dp" "i_size dp < 2 ^ 63"
    and blocks: "good_blocks fs ino (i_size dp) img"
    and rc: "fssize rc = F * TP_BSIZE" "0 < F" "F dvd bsize_of fs div TP_BSIZE" "\<not> Nflag rc"
    and nx: "plain_header nx" "c_type nx = TS_INODE"
  shows "\<exists>w' out. dumpino cfg fs dp ino False (m, w) = Inr (m\<lparr>dumpinomap := CLRINO ino (dumpinomap m)\<rparr>, w')
    \<and> stream img w' = stream img w @ out
    \<and> restores_as rc out ino nx (file_contents fs ino (i_size dp) img)"
proof -
  let ?n = "i_size dp" and ?b = "bsize_of fs" and ?t = "bsize_of fs div TP_BSIZE"
  let ?R = "blocks_records img ?b (file_blocks fs ino ?n)" and ?P = "dumped_header dp ?n ino (spcl w)"
  have fs: "TP_BSIZE dvd ?b" "0 < ?b" "0 < ?t" "?t * TP_BSIZE = ?b"
    using st(3) by (auto simp: good_fs_def elim!: dvdE)
  obtain w' segs out where d: "dumpino cfg fs dp ino False (m, w) = Inr (m\<lparr>dumpinomap := CLRINO ino (dumpinomap m)\<rparr>, w')"
    "stream img w' = stream img w @ out" "concat segs = ?R" "[] \<notin> set segs" "\<forall>c \<in> set segs. ?t dvd length c"
    "file_recs LE ?P TS_INODE segs out"
    using dumpino_emits [OF st(1,3) w dp(1-3), of ino m img] blocks st(2) by (auto simp: good_blocks_def)
  have N: "length (concat segs) = ?t * howmany ?n ?b"
    using d(3) file_blocks_good(1) [OF blocks] by (simp add: logical_blocks_def)
  note seg = last_segment [OF d(5,4) N fs(4) refl dp(3) fs(2)]
  then obtain c cs where cs: "segs = c # cs" by (cases segs) auto
  obtain s rest where s: "segment_header ?P TS_INODE c s"
    "out = encode_spcl LE (mkchecksum LE s) # somes c @ rest" "file_recs LE ?P TS_ADDR cs rest"
    using d(6) cs by auto
  have full: "full_recs ?R" using full_blocks [OF fs(1) file_blocks_good(2) [OF blocks]] .
  have "?b * howmany ?n ?b \<ge> ?n" using howmany_mult_ge [OF fs(2), of ?n] by (simp add: mult.commute)
  also have "?b * howmany ?n ?b = TP_BSIZE * length ?R"
  proof -
    have "TP_BSIZE * length ?R = (?t * TP_BSIZE) * howmany ?n ?b" using N unfolding d(3) by simp
    then show ?thesis by (simp only: fs(4))
  qed
  finally have len: "?n \<le> TP_BSIZE * length ?R" .
  have safe: "hole_safe F ?R ?n" by (rule hole_safe_blocks [OF rc(3) fs(3) dp(3) len])
  have P: "plain_file ?P" using dp(2)
    by (auto simp: plain_file_def dumped_header_def bsd_inode_def file_mode_def mode_consts)
  have cont: "take ?n (contents ?R) = file_contents fs ino ?n img"
    unfolding file_contents_def contents_blocks [OF fs(1)] file_blocks_good(1) [OF blocks] ..
  have "restores_as rc out ino nx (file_contents fs ino ?n img)"
    unfolding restores_as_def
  proof (intro allI impI, elim conjE)
    fix r T assume r: "ready_reader rc r" "tape r = out @ encode_spcl LE (mkchecksum LE nx) # T"
    have sh: "plain_header s" by (rule plain_segment [OF P s(1)]) simp
    have "tape r = encode_spcl LE (mkchecksum LE s) # (somes c @ rest @ encode_spcl LE (mkchecksum LE nx) # T)"
      using r(2) s(2) by simp
    then obtain r1 where r1: "next_head rc (\<lambda>_. True) r = Inr r1"
      "at_header r s (somes c @ rest @ encode_spcl LE (mkchecksum LE nx) # T) r1"
      using next_head_plain [OF _ sh, of rc r _ "\<lambda>_. True"] r(1) by (auto simp: ready_reader_def)
    have a: "native rc r1" "\<not> readmapflag r1" "\<not> readingmaps r1" "r_spcl r1 = mkchecksum LE s"
      "tape r1 = somes c @ rest @ encode_spcl LE (mkchecksum LE nx) # T"
      using r1(2) r(1) native_kept(2) [OF r1(2)] by (auto simp: at_header_def ready_reader_def)
    have sz: "nbi_size (c_dinode s') = of_nat ?n" if "?P s'" for s'
      using that by (simp add: dumped_header_def bsd_inode_def)
    obtain f r2 where f: "getfile rc (file_handlers rc) empty_file r1 = Inr (f, r2)"
      "of_bytes f = take ?n (contents ?R)" "cur_dip r2 = Some (c_dinode nx)" "cur_ino r2 = c_inumber nx"
      "tape r2 = T" "native rc r2" "\<not> readmapflag r2" "\<not> readingmaps r2"
      using getfile_segments [OF full dp(3) len dp(4) rc(1,2,4) safe P sz d(3) [unfolded cs, symmetric]
          d(4) [unfolded cs] seg(2) [unfolded cs] s(1,3) a nx] by blast
    have "c_inumber (r_spcl r1) = ino" using a(4) s(1) by (simp add: segment_header_def dumped_header_def)
    then show "\<exists>r1 f r2. next_head rc (\<lambda>_. True) r = Inr r1 \<and> c_inumber (r_spcl r1) = ino
          \<and> getfile rc (file_handlers rc) empty_file r1 = Inr (f, r2) \<and> of_bytes f = file_contents fs ino ?n img
          \<and> cur_ino r2 = c_inumber nx \<and> cur_dip r2 = Some (c_dinode nx) \<and> tape r2 = T \<and> ready_reader rc r2"
      using r1(1) f cont by (auto simp: ready_reader_def)
  qed
  then show ?thesis using d(1,2) by blast
qed

text \<open>A file system with one file of five bytes in block 1, for the witnesses.\<close>

definition sample_ext2 :: ext2fs where
  "sample_ext2 = \<lparr> fs_bsize = 1024, fs_inode = (\<lambda>i. None), fs_dir = (\<lambda>i. ([], 0)), fs_namei = (\<lambda>p. None),
     fs_scan = None, fs_fsize = 1024, frags_per_block = 1, fs_blocks = (\<lambda>i. [(0, 1)]),
     fs_inode_size = 128, fs_inode_full = (\<lambda>i. None), stack_junk = [] \<rparr>"

definition sample_file :: dinode where
  "sample_file = (sample_inode 0x81A4)\<lparr>di_size := 5\<rparr>"

definition sample_rcfg :: rcfg where
  "sample_rcfg = \<lparr> cvtflag = False, panic_returns = False, Nflag = False, dumpdate = 0, r_maxino = 100,
     fssize = 1024 \<rparr>"

definition sample_next :: s_spcl where
  "sample_next = zero_spcl\<lparr>c_type := TS_INODE, c_magic := NFS_MAGIC\<rparr>"

lemma plain_sample_next: "plain_header sample_next" "c_type sample_next = TS_INODE"
proof -
  have "nbi_size (c_dinode zero_spcl) = 0" by (simp add: zero_spcl_def zero_nbi_def)
  then show "plain_header sample_next" "c_type sample_next = TS_INODE"
    using wf_zero_spcl by (simp_all add: sample_next_def plain_header_def)
qed

theorem dump_restore_file_witness:
  "\<exists>w' out. dumpino sample_tcfg sample_ext2 sample_file 11 False (empty_maps, sample_writer)
       = Inr (empty_maps\<lparr>dumpinomap := CLRINO 11 [0, 0]\<rparr>, w')
     \<and> stream (replicate 2048 7) w' = stream (replicate 2048 7) sample_writer @ out
     \<and> restores_as sample_rcfg out 11 sample_next (replicate 5 7)"
proof -
  have m: "file_mode sample_file = IFREG" "i_size sample_file = 5" "plain_inode sample_file"
    by (simp_all add: sample_file_def sample_inode_def file_mode_def mode_consts i_size_def plain_inode_def)
  have b: "bsize_of sample_ext2 = 1024" "good_fs sample_ext2"
    by (simp_all add: sample_ext2_def good_fs_def TP_BSIZE_def)
  have g: "good_blocks sample_ext2 11 5 (replicate 2048 7)"
    by (simp add: good_blocks_def b(1)) (simp add: sample_ext2_def howmany_def)
  have c: "file_contents sample_ext2 11 5 (replicate 2048 7) = replicate 5 7"
    by (simp add: file_contents_def b(1))
       (simp add: sample_ext2_def howmany_def logical_blocks_def block_bytes_def at_def)
  have w: "winv sample_tcfg sample_writer" "\<not> newtape sample_writer" "byte_order sample_tcfg = LE"
    using winv_sample by (simp_all add: sample_writer_def alloctape_def initial_writer_def Let_def sample_tcfg_def)
  have r: "fssize sample_rcfg = 1 * TP_BSIZE" "\<not> Nflag sample_rcfg"
    by (simp_all add: sample_rcfg_def TP_BSIZE_def)
  have e: "dumpinomap empty_maps = [0, 0]" by (simp add: empty_maps_def)
  show ?thesis
    using dump_restore_file [OF steady_sample w(3) b(2) w(1,2) m(3,1), of 11 "replicate 2048 7" sample_rcfg 1
        sample_next empty_maps] m(2) g c r plain_sample_next e
    by simp
qed


section \<open>Where restore loses data\<close>

text \<open>
  The exception in \<open>hole_safe\<close> is real: when data are pending and the last record is a hole of
  \<open>n - 1024\<close> bytes, \<open>getfile\<close> writes only that many bytes of the pending record and the rest of
  the record becomes zeros.
\<close>

theorem pending_data_lost:
  assumes "fssize cfg = F * TP_BSIZE" "2 \<le> F" "\<not> Nflag cfg" "length d = TP_BSIZE" "1024 < n" "n < 2048"
    and "tape r = d # T"
  shows "\<exists>g r' f. get_records cfg (file_handlers cfg) [True, False]
      (\<lparr> pend = [], left = int n, last_hole = False, outp = empty_file \<rparr>, r) = Inr (g, r')
    \<and> finish_file (file_handlers cfg) n g = Inr f \<and> of_bytes f = take (n - 1024) d @ replicate 1024 0"
proof -
  obtain r' where r': "readtape r = Inr (d, r')" using readtape_advanced [OF assms(7)] by blast
  let ?g0 = "\<lparr> pend = [], left = int n, last_hole = False, outp = empty_file \<rparr>"
  have 1: "get_record cfg (file_handlers cfg) True (?g0, r) = Inr (?g0\<lparr>pend := [d]\<rparr>, r')"
    using r' assms(1,2) by (simp add: get_record_def Let_def TP_BSIZE_def)
  let ?f = "write_file (take (n - 1024) d) empty_file"
  let ?g1 = "\<lparr> pend = [d], left = int n - 1024, last_hole = False, outp = empty_file \<rparr>"
  let ?g2 = "\<lparr> pend = [], left = int n - 1024, last_hole = True, outp = ?f\<lparr>of_pos := of_pos ?f + (n - 1024)\<rparr> \<rparr>"
  have m: "nat (int n - 1024) = n - 1024" by simp
  have "get_record cfg (file_handlers cfg) False (?g1, r') = Inr (?g2, r')"
    using assms(3,5,6) m
    by (simp add: get_record_def file_handlers_def xtrfile_def xtrskip_def pend_bytes_def)
  then have "get_records cfg (file_handlers cfg) [True, False] (?g0, r) = Inr (?g2\<lparr>left := int n - 2048\<rparr>, r')"
    using 1 assms(5,6) by (simp add: Let_def)
  moreover have "finish_file (file_handlers cfg) n (?g2\<lparr>left := int n - 2048\<rparr>)
      = Inr (ftruncate n (?f\<lparr>of_pos := of_pos ?f + (n - 1024)\<rparr>))"
    using assms(6) by (simp add: finish_file_def file_handlers_def)
  moreover have "of_bytes (ftruncate n (?f\<lparr>of_pos := of_pos ?f + (n - 1024)\<rparr>)) = take (n - 1024) d @ replicate 1024 0"
    using assms(4-6) by (simp add: ftruncate_def write_file_def empty_file_def zero_pad_def overlay_def TP_BSIZE_def)
  ultimately show ?thesis by blast
qed

text \<open>
  A continuation header that is left over (a file with blocks beyond its end has them) makes
  \<open>findinode\<close> stop at the header of the next file without entering it: \<open>curfile\<close> names no file.
\<close>

lemma present_of_segment:
  assumes "segment_header P ty c s"
  shows "map (\<lambda>b. b \<noteq> 0) (take (nat (sint (c_count (mkchecksum LE s)))) (c_addr_mem LE (mkchecksum LE s)))
    = map (\<lambda>x. x \<noteq> None) c"
proof -
  have wf: "wf_spcl (mkchecksum LE s)" and l: "length c \<le> TP_NINDIR" and cc: "c_count s = of_nat (length c)"
    using assms by (simp_all add: segment_header_def)
  have "nat (sint (of_nat (length c) :: u32)) = length c"
    using l sint_of_nat_small [of "length c"] by (simp add: TP_NINDIR_def)
  moreover have "length c \<le> length (c_addr_mem LE (mkchecksum LE s))"
    using l length_encode_spcl [OF wf, of LE] by (simp add: c_addr_mem_def TP_NINDIR_def TP_BSIZE_def)
  ultimately show ?thesis
    using assms cc c_addr_mem_nth [OF wf, of _ LE] l
    by (intro nth_equalityI) (auto simp: segment_header_def)
qed

theorem next_file_forgotten:
  assumes "native cfg r" "r_spcl r = mkchecksum LE s" "segment_header P TS_ADDR c s"
    and "plain_header nx" "c_type nx = TS_INODE" "c_date nx = dumpdate cfg"
    and "tape r = somes c @ encode_spcl LE (mkchecksum LE nx) # T"
  shows "\<exists>r'. findinode cfg r = Inr r' \<and> r_spcl r' = mkchecksum LE nx \<and> cur_ino r' = 0 \<and> cur_dip r' = None"
proof -
  let ?r0 = "no_file r"
  have t0: "tape ?r0 = somes c @ encode_spcl LE (mkchecksum LE nx) # T" using assms(7) by (simp add: no_file_def)
  obtain r1 where r1: "read_junk (map (\<lambda>x. x \<noteq> None) c) ?r0 = Inr r1"
    "advanced ?r0 (encode_spcl LE (mkchecksum LE nx) # T) r1"
    using read_junk_somes [OF t0] by blast
  have "native cfg ?r0" using assms(1) by (simp add: native_def no_file_def)
  then have "native cfg r1" using native_kept(1) [OF r1(2)] by simp
  moreover have "tape r1 = encode_spcl LE (mkchecksum LE nx) # T" using r1(2) by (auto simp: advanced_def)
  ultimately obtain r2 where r2: "next_head cfg (\<lambda>s. c_date s = dumpdate cfg) r1 = Inr r2" "at_header r1 nx T r2"
    using next_head_plain [OF _ assms(4), of cfg r1 T "\<lambda>s. c_date s = dumpdate cfg"] assms(6) by auto
  have s: "c_magic s = NFS_MAGIC" "c_type s = TS_ADDR" using assms(3) by (simp_all add: segment_header_def)
  have f: "r_spcl r2 = mkchecksum LE nx" "cur_ino r2 = 0" "cur_dip r2 = None"
    using r1(2) r2(2) by (auto simp: advanced_def at_header_def no_file_def)
  have "r_spcl ?r0 = mkchecksum LE s" using assms(2) by (simp add: no_file_def)
  then have "findinode cfg r = Inr r2"
    unfolding findinode_def
    using r1(1) r2(1) s f(1) assms(5) present_of_segment [OF assms(3)]
    by (subst findinode_loop.simps) (simp add: Let_def TS_ADDR_def TS_INODE_def)
  then show ?thesis using f by blast
qed

end
