(* ===== verification/Dump_Main.thy ===== *)
theory Dump_Main
  imports Directory_Pass File_Roundtrip
begin

text \<open>
  The second half of \<open>main\<close> of dump (dump/main.c): the volume is opened, the map of the used inodes is
  written, the passes III and IV run over their bitmaps, and trailer blocks end the tape.
\<close>

section \<open>The passes\<close>

text \<open>\<open>getino\<close> in these passes; an error of the library ends the dump.\<close>

definition tape_getino :: "ext2fs \<Rightarrow> dump_ino_t \<Rightarrow> maps \<Rightarrow> tape_stop + dinode \<times> maps" where
  "tape_getino fs inum m =
     (case fs_inode fs inum of
        None \<Rightarrow> Inl (Quit X_ABORT)
      | Some dp \<Rightarrow> Inr (dp, m\<lparr>curino := inum\<rparr>))"

text \<open>
  The loop over a bitmap: a byte is read when its first inode is reached and shifted from then on
  (\<open>dirty\<close>, of which only the lowest bit is looked at, eight times per byte read).
\<close>

fun map_loop :: "(maps \<Rightarrow> byte list) \<Rightarrow> (dump_ino_t \<Rightarrow> maps \<times> writer \<Rightarrow> tape_stop + maps \<times> writer)
    \<Rightarrow> nat list \<Rightarrow> byte \<Rightarrow> maps \<times> writer \<Rightarrow> tape_stop + maps \<times> writer" where
  "map_loop sel body [] dirty mw = Inr mw"
| "map_loop sel body (ino # inos) dirty mw =
     (let dirty = (if (ino - 1) mod NBBY = 0 then sel (fst mw) ! ((ino - 1) div NBBY) else drop_bit 1 dirty) in
      if dirty AND 1 = 0 then map_loop sel body inos dirty mw
      else bindE (body (of_nat ino) mw) (map_loop sel body inos dirty))"

text \<open>Pass III skips what is not a directory any more, and directories that have been deleted.\<close>

definition pass3_body :: "tcfg \<Rightarrow> ext2fs \<Rightarrow> dump_ino_t \<Rightarrow> maps \<times> writer \<Rightarrow> tape_stop + maps \<times> writer" where
  "pass3_body cfg fs ino = (\<lambda>(m, w).
     bindE (tape_getino fs ino m) (\<lambda>(dp, m).
       if file_mode dp \<noteq> IFDIR then Inr (m, w)
       else if di_nlink dp = 0 \<or> di_dtime dp \<noteq> 0 then Inr (m, w)
       else dumpdirino cfg fs dp ino (m, w)))"

definition pass3 :: "tcfg \<Rightarrow> ext2fs \<Rightarrow> dump_ino_t \<Rightarrow> maps \<times> writer \<Rightarrow> tape_stop + maps \<times> writer" where
  "pass3 cfg fs maxino = map_loop dumpdirmap (pass3_body cfg fs) [1..<unat maxino] 0"

text \<open>Pass IV skips what has become a directory; \<open>mflag\<close> is the option of the metadata-only dumps.\<close>

definition pass4_body :: "tcfg \<Rightarrow> ext2fs \<Rightarrow> bool \<Rightarrow> dump_ino_t \<Rightarrow> maps \<times> writer \<Rightarrow> tape_stop + maps \<times> writer" where
  "pass4_body cfg fs mflag ino = (\<lambda>(m, w).
     bindE (tape_getino fs ino m) (\<lambda>(dp, m).
       if file_mode dp = IFDIR then Inr (m, w)
       else dumpino cfg fs dp ino (mflag \<and> TSTINO ino (metainomap m)) (m, w)))"

definition pass4 :: "tcfg \<Rightarrow> ext2fs \<Rightarrow> bool \<Rightarrow> dump_ino_t \<Rightarrow> maps \<times> writer \<Rightarrow> tape_stop + maps \<times> writer" where
  "pass4 cfg fs mflag maxino = map_loop dumpinomap (pass4_body cfg fs mflag) [1..<unat maxino] 0"


section \<open>The end of the tape\<close>

text \<open>
  The trailer blocks fill the last block up, or make a block of their own; \<open>afile\<close> tells whether an
  archive file is written, for which the last headers carry the inodes at the starts of the volumes.
\<close>

definition ROOT_INODE :: u32 where "ROOT_INODE = 2"

fun trailers :: "tcfg \<Rightarrow> dump_ino_t \<Rightarrow> nat \<Rightarrow> writer \<Rightarrow> tape_stop + writer" where
  "trailers cfg ino 0 w = Inr w"
| "trailers cfg ino (Suc i) w = bindE (writeheader cfg ino w) (trailers cfg ino i)"

definition end_tape :: "tcfg \<Rightarrow> bool \<Rightarrow> dump_ino_t \<Rightarrow> writer \<Rightarrow> tape_stop + writer" where
  "end_tape cfg afile maxino w =
     (let w = set_spcl (\<lambda>s. s\<lparr>c_type := TS_END\<rparr>) w;
          w = (if afile then w\<lparr>volinfo := (volinfo w)[1 := ROOT_INODE]\<rparr> else w);
          w = (if afile then set_spcl (\<lambda>s. s\<lparr>c_data := puts32 (byte_order cfg) (volinfo w),
                                          c_flags := c_flags s OR DR_INODEINFO\<rparr>) w else w)
      in trailers cfg (maxino - 1) (ntrec cfg - unat (c_tapea (spcl w)) mod ntrec cfg) w)"

text \<open>The whole second half, up to the rewinding of the last tape.\<close>

definition write_dump :: "tcfg \<Rightarrow> ext2fs \<Rightarrow> bool \<Rightarrow> bool \<Rightarrow> dump_ino_t \<Rightarrow> maps \<times> writer
    \<Rightarrow> tape_stop + maps \<times> writer" where
  "write_dump cfg fs mflag afile maxino = (\<lambda>(m, w).
     bindE (startnewtape cfg True w) (\<lambda>w.
     bindE (dumpmap cfg (usedinomap m) TS_CLRI (maxino - 1) w) (\<lambda>w.
     bindE (pass3 cfg fs maxino (m, w)) (\<lambda>mw.
     bindE (pass4 cfg fs mflag maxino mw) (\<lambda>(m, w).
     bindE (end_tape cfg afile maxino w) (\<lambda>w.
     bindE (trewind cfg [0..<SLAVES] w) (\<lambda>w. Inr (m, w))))))))"


section \<open>The bytes of a map\<close>

text \<open>
  \<open>byte_left k b mp\<close>: the byte \<open>b\<close>, as the loop holds it before inode \<open>k\<close>, has exactly the bits that
  the later inodes of the same byte have in the map \<open>mp\<close>.
\<close>

definition byte_left :: "nat \<Rightarrow> byte \<Rightarrow> byte list \<Rightarrow> bool" where
  "byte_left k b mp \<longleftrightarrow> ((k - 1) mod NBBY \<noteq> 0 \<longrightarrow>
     (\<forall>j < 2 ^ 32. same_byte k j \<longrightarrow> bit b (Suc (j - k)) = TSTINO (of_nat j) mp))"

lemma byte_left_bit:
  assumes "byte_left k b mp" "0 < k" "j < 2 ^ 32" "same_byte k j" "(j - 1) div NBBY < length mp"
  shows "bit (next_byte k b mp) (j - k) = TSTINO (of_nat j) mp"
proof (cases "(k - 1) mod NBBY = 0")
  case True
  have "0 < j" using assms by (simp add: same_byte_def)
  then show ?thesis
    using True assms TSTINO_of_nat [of j mp] same_byte_diff [OF assms(4) True assms(2)]
    by (simp add: next_byte_def)
next
  case False
  then show ?thesis using assms by (simp add: next_byte_def byte_left_def bit_drop_bit_eq)
qed

lemma byte_left_next:
  assumes "byte_left k b mp" "0 < k" "\<And>j. k < j \<Longrightarrow> j < 2 ^ 32 \<Longrightarrow> TSTINO (of_nat j) mp' = TSTINO (of_nat j) mp"
    "(k - 1) div NBBY < length mp"
  shows "byte_left (Suc k) (next_byte k b mp) mp'"
  unfolding byte_left_def
proof (intro impI allI)
  fix j assume k: "(Suc k - 1) mod NBBY \<noteq> 0" and j: "(j :: nat) < 2 ^ 32" and a: "same_byte (Suc k) j"
  have "k div NBBY = (k - 1) div NBBY"
    using k assms(2) by (cases k) (auto simp: NBBY_def div_Suc)
  then have s: "same_byte k j" using a by (auto simp: same_byte_def)
  moreover have "(j - 1) div NBBY = (k - 1) div NBBY" using s by (simp add: same_byte_def)
  ultimately have "bit (next_byte k b mp) (j - k) = TSTINO (of_nat j) mp"
    using byte_left_bit [OF assms(1,2) j] assms(4) by simp
  moreover have "Suc (j - Suc k) = j - k" "TSTINO (of_nat j) mp' = TSTINO (of_nat j) mp"
    using a assms(3) [of j] j unfolding same_byte_def by (linarith, simp)
  ultimately show "bit (next_byte k b mp) (Suc (j - Suc k)) = TSTINO (of_nat j) mp'" by simp
qed

text \<open>A pass over a map whose body touches at most the bit of the inode it is at.\<close>

fun visit :: "('i \<Rightarrow> 's \<Rightarrow> 'e + 's) \<Rightarrow> 'i list \<Rightarrow> 's \<Rightarrow> 'e + 's" where
  "visit body [] s = Inr s"
| "visit body (i # is) s = bindE (body i s) (visit body is)"

lemma visit_append: "visit body (xs @ ys) s = bindE (visit body xs s) (visit body ys)"
proof (induction xs arbitrary: s)
  case (Cons x xs)
  then show ?case by (cases "body x s") simp_all
qed simp

definition marked_inodes :: "dump_ino_t \<Rightarrow> byte list \<Rightarrow> dump_ino_t list" where
  "marked_inodes maxino mp = filter (\<lambda>i. TSTINO i mp) (map of_nat [1..<unat maxino])"

lemma map_loop_Cons:
  "map_loop sel body (k # ks) b mw =
     (if next_byte k b (sel (fst mw)) AND 1 = 0 then map_loop sel body ks (next_byte k b (sel (fst mw))) mw
      else bindE (body (of_nat k) mw) (map_loop sel body ks (next_byte k b (sel (fst mw)))))"
  by (simp add: next_byte_def Let_def)

declare map_loop.simps(2) [simp del]

lemma ino_of_nat_eq: "of_nat j = (of_nat k :: dump_ino_t) \<Longrightarrow> j < 2 ^ 32 \<Longrightarrow> k < 2 ^ 32 \<Longrightarrow> j = k"
proof -
  assume a: "of_nat j = (of_nat k :: dump_ino_t)" "j < 2 ^ 32" "k < 2 ^ 32"
  have "unat (of_nat j :: dump_ino_t) = unat (of_nat k :: dump_ino_t)" using a(1) by (rule arg_cong)
  then show ?thesis using a(2,3) by (simp add: unsigned_of_nat take_bit_nat_eq_self)
qed

locale map_pass =
  fixes sel :: "maps \<Rightarrow> byte list" and body :: "dump_ino_t \<Rightarrow> maps \<times> writer \<Rightarrow> tape_stop + maps \<times> writer"
  assumes keeps_length: "body i mw = Inr mw' \<Longrightarrow> length (sel (fst mw')) = length (sel (fst mw))"
    and keeps_others: "body i mw = Inr mw' \<Longrightarrow> j \<noteq> i \<Longrightarrow> TSTINO j (sel (fst mw')) = TSTINO j (sel (fst mw))"
begin

lemma map_loop_visits:
  "0 < k \<Longrightarrow> n \<le> 2 ^ 32 \<Longrightarrow> n \<le> 8 * length (sel (fst mw)) + 1 \<Longrightarrow> byte_left k b (sel (fst mw)) \<Longrightarrow>
     map_loop sel body [k..<n] b mw = visit body (filter (\<lambda>i. TSTINO i (sel (fst mw))) (map of_nat [k..<n])) mw"
proof (induction "n - k" arbitrary: k b mw)
  case 0
  then show ?case by simp
next
  case (Suc l)
  then have kn: "k < n" "[k..<n] = k # [Suc k..<n]" by (simp_all add: upt_conv_Cons)
  let ?mp = "sel (fst mw)" and ?b = "next_byte k b (sel (fst mw))" and ?i = "of_nat k :: dump_ino_t"
  have kl: "(k - 1) div NBBY < length ?mp" using kn(1) Suc.prems(1,3) by (simp add: NBBY_def)
  have "bit ?b (k - k) = TSTINO ?i ?mp"
    by (rule byte_left_bit [OF Suc.prems(4,1) _ _ kl]) (use kn(1) Suc.prems(2) in \<open>auto simp: same_byte_def\<close>)
  then have t: "(?b AND 1 = 0) = (\<not> TSTINO ?i ?mp)" by (auto simp: and_one_eq bit_0 even_iff_mod_2_eq_zero [symmetric])
  have left: "byte_left (Suc k) ?b mp'" if "\<And>j. j \<noteq> ?i \<Longrightarrow> TSTINO j mp' = TSTINO j ?mp" for mp'
  proof (rule byte_left_next [OF Suc.prems(4,1) _ kl])
    fix j :: nat assume "k < j" "j < 2 ^ 32"
    then have "(of_nat j :: dump_ino_t) \<noteq> ?i" using ino_of_nat_eq [of j k] by auto
    then show "TSTINO (of_nat j) mp' = TSTINO (of_nat j) ?mp" by (rule that)
  qed
  have l: "l = n - Suc k" using Suc.hyps(2) by simp
  show ?case
  proof (cases "TSTINO ?i ?mp")
    case False
    then show ?thesis
      using Suc.hyps(1) [OF l _ Suc.prems(2,3) left] t unfolding kn(2) by (simp add: map_loop_Cons)
  next
    case True
    have rest: "map_loop sel body [Suc k..<n] ?b mw' = visit body (filter (\<lambda>i. TSTINO i ?mp) (map of_nat [Suc k..<n])) mw'"
      if e: "body ?i mw = Inr mw'" for mw'
    proof -
      have o: "j \<noteq> ?i \<Longrightarrow> TSTINO j (sel (fst mw')) = TSTINO j ?mp" for j by (rule keeps_others [OF e])
      have "filter (\<lambda>i. TSTINO i (sel (fst mw'))) (map of_nat [Suc k..<n]) = filter (\<lambda>i. TSTINO i ?mp) (map of_nat [Suc k..<n])"
      proof (rule filter_cong [OF refl])
        fix i :: dump_ino_t assume "i \<in> set (map of_nat [Suc k..<n])"
        then obtain j where "i = of_nat j" "k < j" "j < n" by auto
        then have "i \<noteq> ?i" using Suc.prems(2) ino_of_nat_eq [of j k] by auto
        then show "TSTINO i (sel (fst mw')) = TSTINO i ?mp" by (rule o)
      qed
      then show ?thesis
        using Suc.hyps(1) [OF l _ Suc.prems(2) _ left [OF o]] Suc.prems(3) keeps_length [OF e] by simp
    qed
    show ?thesis
      using True t rest unfolding kn(2) by (cases "body ?i mw") (simp_all add: map_loop_Cons)
  qed
qed

lemma map_loop_all:
  assumes "unat (maxino :: dump_ino_t) \<le> 8 * length (sel (fst mw)) + 1"
  shows "map_loop sel body [1..<unat maxino] b mw = visit body (marked_inodes maxino (sel (fst mw))) mw"
proof -
  have "unat maxino \<le> 2 ^ 32" using unsigned_less [of maxino, where 'a = nat] by simp
  then show ?thesis unfolding marked_inodes_def
    by (intro map_loop_visits assms) (simp_all add: byte_left_def)
qed

end

section \<open>The passes visit the marked inodes\<close>

lemma begin_inode_maps:
  "begin_inode cfg ino (m, w) = Inr (m', w') \<Longrightarrow> m' = m\<lparr>dumpinomap := CLRINO ino (dumpinomap m)\<rparr>"
  by (auto simp: begin_inode_def bindE_Inr_iff)

lemma dumpino_maps:
  "dumpino cfg fs dp ino meta (m, w) = Inr (m', w') \<Longrightarrow> m' = m\<lparr>dumpinomap := CLRINO ino (dumpinomap m)\<rparr>"
  by (auto simp: dumpino_def Let_def bindE_Inr_iff dest!: begin_inode_maps split: if_splits)

lemma dumpdirino_maps:
  "dumpdirino cfg fs dp ino (m, w) = Inr (m', w') \<Longrightarrow> m' = m\<lparr>dumpinomap := CLRINO ino (dumpinomap m)\<rparr>"
  by (auto simp: dumpdirino_def Let_def bindE_Inr_iff dest!: begin_inode_maps split: if_splits)

lemma pass3_body_maps:
  assumes "pass3_body cfg fs ino (m, w) = Inr (m', w')"
  shows "dumpdirmap m' = dumpdirmap m \<and> iexclude m' = iexclude m \<and> metainomap m' = metainomap m
    \<and> length (dumpinomap m') = length (dumpinomap m) \<and> (\<forall>j. j \<noteq> ino \<longrightarrow> TSTINO j (dumpinomap m') = TSTINO j (dumpinomap m))"
  using assms
  by (auto simp: pass3_body_def tape_getino_def bindE_Inr_iff TSTINO_CLRINO
      dest!: dumpdirino_maps split: option.splits if_splits)

lemma pass4_body_maps:
  assumes "pass4_body cfg fs mflag ino (m, w) = Inr (m', w')"
  shows "dumpdirmap m' = dumpdirmap m \<and> iexclude m' = iexclude m \<and> metainomap m' = metainomap m
    \<and> length (dumpinomap m') = length (dumpinomap m) \<and> (\<forall>j. j \<noteq> ino \<longrightarrow> TSTINO j (dumpinomap m') = TSTINO j (dumpinomap m))"
  using assms
  by (auto simp: pass4_body_def tape_getino_def bindE_Inr_iff TSTINO_CLRINO
      dest!: dumpino_maps split: option.splits if_splits)

interpretation dir_pass: map_pass dumpdirmap "pass3_body cfg fs" for cfg fs
  by unfold_locales (auto dest: pass3_body_maps)

interpretation file_pass: map_pass dumpinomap "pass4_body cfg fs mflag" for cfg fs mflag
  by unfold_locales (auto dest: pass4_body_maps)

section \<open>Trailer blocks\<close>

lemma trailers_emits:
  assumes st: "steady cfg"
  shows "winv cfg w \<Longrightarrow> \<exists>w' hs. trailers cfg ino n w = Inr w' \<and> emits cfg img hs w w' \<and> length hs = n
    \<and> (\<forall>h \<in> set hs. \<exists>s. wf_spcl s \<and> h = encode_spcl (byte_order cfg) (mkchecksum (byte_order cfg) s)
          \<and> c_type s = c_type (spcl w) \<and> c_inumber s = ino \<and> c_magic s = NFS_MAGIC)"
proof (induction n arbitrary: w)
  case 0
  then show ?case by (intro exI [of _ w] exI [of _ "[]"]) (simp add: emits_refl)
next
  case (Suc n)
  let ?s = "(spcl w)\<lparr>c_inumber := ino, c_magic := NFS_MAGIC\<rparr>" and ?e = "byte_order cfg"
  obtain w1 where w1: "writeheader cfg ino w = Inr w1" "emits cfg img [encode_spcl ?e (mkchecksum ?e ?s)] w w1"
    "c_type (spcl w1) = c_type (spcl w)"
    using writeheader_emits [OF st Suc.prems, of ino img] by blast
  have "winv cfg w1" using w1(2) by (simp add: emits_def)
  then obtain w' hs where w': "trailers cfg ino n w1 = Inr w'" "emits cfg img hs w1 w'" "length hs = n"
    "\<forall>h \<in> set hs. \<exists>s. wf_spcl s \<and> h = encode_spcl ?e (mkchecksum ?e s)
          \<and> c_type s = c_type (spcl w1) \<and> c_inumber s = ino \<and> c_magic s = NFS_MAGIC"
    using Suc.IH by blast
  have "wf_spcl ?s" using winv_wf [OF Suc.prems] by simp
  then have "\<exists>s. wf_spcl s \<and> encode_spcl ?e (mkchecksum ?e ?s) = encode_spcl ?e (mkchecksum ?e s)
          \<and> c_type s = c_type (spcl w) \<and> c_inumber s = ino \<and> c_magic s = NFS_MAGIC"
    by (intro exI [of _ ?s]) simp
  moreover have "trailers cfg ino (Suc n) w = Inr w'" using w1(1) w'(1) by simp
  ultimately show ?case
    using emits_trans [OF w1(2) w'(2)] w'(3,4) w1(3)
    by (intro exI [of _ w'] exI [of _ "encode_spcl ?e (mkchecksum ?e ?s) # hs"]) simp
qed

text \<open>The writer as \<open>end_tape\<close> leaves it to the trailer blocks.\<close>

definition end_header :: "tcfg \<Rightarrow> bool \<Rightarrow> writer \<Rightarrow> writer" where
  "end_header cfg afile w =
     (let w = set_spcl (\<lambda>s. s\<lparr>c_type := TS_END\<rparr>) w;
          w = (if afile then w\<lparr>volinfo := (volinfo w)[1 := ROOT_INODE]\<rparr> else w)
      in if afile then set_spcl (\<lambda>s. s\<lparr>c_data := puts32 (byte_order cfg) (volinfo w),
                                       c_flags := c_flags s OR DR_INODEINFO\<rparr>) w else w)"

lemma end_tape_header:
  "end_tape cfg afile maxino w =
     trailers cfg (maxino - 1) (ntrec cfg - unat (c_tapea (spcl w)) mod ntrec cfg) (end_header cfg afile w)"
  by (simp add: end_tape_def end_header_def Let_def set_spcl_fields)

lemma winv_volinfo: "winv cfg (w\<lparr>volinfo := v\<rparr>) = winv cfg w"
  by (simp add: winv_def blocks_ok_def writer_simps)

lemma end_header_winv:
  assumes w: "winv cfg w" "length (volinfo w) = TP_NINOS"
  shows "winv cfg (end_header cfg afile w)" "stream img (end_header cfg afile w) = stream img w"
    "c_type (spcl (end_header cfg afile w)) = TS_END" "commands (end_header cfg afile w) = commands w"
    "trecno (end_header cfg afile w) = trecno w"
proof -
  let ?v = "(volinfo w)[1 := ROOT_INODE]"
  let ?f = "\<lambda>s. s\<lparr>c_type := TS_END\<rparr>"
  let ?g = "\<lambda>s. s\<lparr>c_data := puts32 (byte_order cfg) ?v, c_flags := c_flags s OR DR_INODEINFO\<rparr>"
  have wf: "wf_spcl (?f (spcl w))" "wf_spcl (?g (?f (spcl w)))"
    using winv_wf [OF w(1)] w(2) by (simp_all add: wf_spcl_def TP_NINOS_def TP_NINDIR_def)
  have 1: "winv cfg (set_spcl ?f w)" by (rule winv_set_spcl [OF w(1)]) (use wf in simp_all)
  then have 2: "winv cfg (set_spcl ?g ((set_spcl ?f w)\<lparr>volinfo := ?v\<rparr>))"
    by (intro winv_set_spcl) (use wf in \<open>simp_all add: winv_volinfo set_spcl_fields set_spcl_def\<close>)
  have e: "end_header cfg afile w = (if afile then set_spcl ?g ((set_spcl ?f w)\<lparr>volinfo := ?v\<rparr>) else set_spcl ?f w)"
    by (simp add: end_header_def set_spcl_def)
  show "winv cfg (end_header cfg afile w)" unfolding e using 1 2 by simp
  show "stream img (end_header cfg afile w) = stream img w" "c_type (spcl (end_header cfg afile w)) = TS_END"
    "commands (end_header cfg afile w) = commands w" "trecno (end_header cfg afile w) = trecno w"
    unfolding e by (simp_all add: set_spcl_def stream_def writer_simps cur_slave_def)
qed

text \<open>C8: The trailer blocks of the dump push everything to the tape: in steady operation, and as long
  as the record numbers have not wrapped, at least one and at most \<open>ntrec\<close> end headers are written,
  and afterwards no record is left in the block that is being filled: all records are in the blocks
  that have been sent to the slaves.\<close>

theorem trailers_flush:
  assumes "steady cfg" "winv cfg w" "length (volinfo w) = TP_NINOS"
    and small: "ntrec cfg * length (commands w) + trecno w < 2 ^ 32"
  shows "\<exists>w' hs. end_tape cfg afile maxino w = Inr w' \<and> trecno w' = 0
    \<and> concat (map (\<lambda>c. block_recs img (cmd_req c) (cmd_tblock c)) (commands w')) = stream img w @ hs
    \<and> 1 \<le> length hs \<and> length hs \<le> ntrec cfg
    \<and> (\<forall>h \<in> set hs. \<exists>s. h = encode_spcl (byte_order cfg) (mkchecksum (byte_order cfg) s) \<and> c_type s = TS_END
          \<and> c_inumber s = maxino - 1 \<and> c_magic s = NFS_MAGIC)"
proof -
  let ?w = "end_header cfg afile w" and ?n = "ntrec cfg - unat (c_tapea (spcl w)) mod ntrec cfg"
  note h = end_header_winv [OF assms(2,3), where afile = afile]
  have b: "blocks_ok cfg w" "trecno w < ntrec cfg" using assms(2) by (simp_all add: winv_def)
  then have "c_tapea (spcl w) = of_nat (ntrec cfg * length (commands w) + trecno w)" by (simp add: blocks_ok_def)
  then have "unat (c_tapea (spcl w)) = ntrec cfg * length (commands w) + trecno w"
    using small by (simp only: unsigned_of_nat) (simp add: take_bit_nat_eq_self)
  then have n: "?n = ntrec cfg - trecno w" using b(2) by simp
  obtain w' hs where w': "trailers cfg (maxino - 1) ?n ?w = Inr w'" "emits cfg img hs ?w w'" "length hs = ?n"
    "\<forall>h \<in> set hs. \<exists>s. wf_spcl s \<and> h = encode_spcl (byte_order cfg) (mkchecksum (byte_order cfg) s)
          \<and> c_type s = c_type (spcl ?w) \<and> c_inumber s = maxino - 1 \<and> c_magic s = NFS_MAGIC"
    using trailers_emits [OF assms(1) h(1)] by blast
  have b': "blocks_ok cfg w'" "trecno w' < ntrec cfg" and s: "stream img w' = stream img w @ hs"
    using w'(2) h(2) by (simp_all add: emits_def winv_def)
  have "length (stream img w') = length (stream img w) + ?n" using s w'(3) by simp
  then have "ntrec cfg * length (commands w') + trecno w' = ntrec cfg * length (commands w) + ntrec cfg"
    using length_stream [OF b'(1), of img] length_stream [OF b(1), of img] n b(2) by simp
  then have "(trecno w' + ntrec cfg * length (commands w')) mod ntrec cfg = (ntrec cfg * Suc (length (commands w))) mod ntrec cfg"
    by (simp add: add.commute)
  then have t: "trecno w' = 0" using b'(2) by (simp only: mod_mult_self2 mod_mult_self1_is_0) simp
  have "length (block_recs img (sreq (cur_slave w')) (tblock (cur_slave w'))) = 0"
    using length_block_recs [of "sreq (cur_slave w')" "tblock (cur_slave w')" "trecno w'" img] b'(1) t
    by (simp add: blocks_ok_def)
  then have "concat (map (\<lambda>c. block_recs img (cmd_req c) (cmd_tblock c)) (commands w')) = stream img w'"
    by (simp add: stream_def)
  moreover have "1 \<le> ?n" "?n \<le> ntrec cfg" using n b(2) by simp_all
  ultimately show ?thesis
    using w' s t h(3) end_tape_header [of cfg afile maxino w] by (intro exI [of _ w'] exI [of _ hs]) auto
qed


theorem trailers_flush_witness:
  "\<exists>w' hs. end_tape sample_tcfg True 100 sample_writer = Inr w' \<and> trecno w' = 0
     \<and> concat (map (\<lambda>c. block_recs [] (cmd_req c) (cmd_tblock c)) (commands w')) = stream [] sample_writer @ hs
     \<and> 1 \<le> length hs \<and> length hs \<le> 2"
proof -
  have w: "length (volinfo sample_writer) = TP_NINOS" "commands sample_writer = []" "trecno sample_writer = 0"
    by (simp_all add: sample_writer_def alloctape_def initial_writer_def Let_def)
  have n: "ntrec sample_tcfg = 2" by (simp add: sample_tcfg_def)
  show ?thesis using trailers_flush [OF steady_sample winv_sample w(1), of True 100 "[]"] w(2,3) n by fastforce
qed

section \<open>What pass IV leaves\<close>

lemma visit_step:
  assumes "visit f (i # is) s = Inr s'"
  obtains s1 where "f i s = Inr s1" "visit f is s1 = Inr s'"
  using assms by (auto simp: bindE_Inr_iff)

definition is_file :: "ext2fs \<Rightarrow> dump_ino_t \<Rightarrow> bool" where
  "is_file fs i \<longleftrightarrow> (\<exists>dp. fs_inode fs i = Some dp \<and> file_mode dp \<noteq> IFDIR)"

lemma pass4_body_dumps:
  "pass4_body cfg fs mflag i (m, w) = Inr (m', w') \<Longrightarrow>
     ino_set (dumpinomap m') = ino_set (dumpinomap m) - (if is_file fs i then {i} else {})"
  by (auto simp: pass4_body_def tape_getino_def bindE_Inr_iff is_file_def ino_set_CLRINO
      dest!: dumpino_maps split: option.splits if_splits)

lemma visit_pass4_dumps:
  "visit (pass4_body cfg fs mflag) is (m, w) = Inr (m', w') \<Longrightarrow>
     ino_set (dumpinomap m') = ino_set (dumpinomap m) - {i \<in> set is. is_file fs i}"
proof (induction "is" arbitrary: m w)
  case (Cons i "is")
  obtain m1 w1 where b: "pass4_body cfg fs mflag i (m, w) = Inr (m1, w1)"
    "visit (pass4_body cfg fs mflag) is (m1, w1) = Inr (m', w')"
    using visit_step [OF Cons.prems] by (metis surj_pair)
  show ?case
    unfolding Cons.IH [OF b(2)] pass4_body_dumps [OF b(1)] by auto
qed simp

lemma set_marked: "set (marked_inodes maxino mp) = {i. 1 \<le> i \<and> i < maxino \<and> TSTINO i mp}"
proof -
  have "i \<in> set (map of_nat [1..<unat maxino]) \<longleftrightarrow> 1 \<le> i \<and> i < maxino" for i :: dump_ino_t
  proof
    assume "i \<in> set (map of_nat [1..<unat maxino])"
    then obtain j where j: "i = of_nat j" "1 \<le> j" "j < unat maxino" by auto
    moreover have "j < 2 ^ 32" using j(3) unsigned_less [of maxino, where 'a = nat] by simp
    ultimately have "unat i = j" by (simp add: unsigned_of_nat take_bit_nat_eq_self)
    then show "1 \<le> i \<and> i < maxino" using j by (simp add: word_le_nat_alt word_less_nat_alt)
  next
    assume "1 \<le> i \<and> i < maxino"
    then have "1 \<le> unat i" "unat i < unat maxino" by (simp_all add: word_le_nat_alt word_less_nat_alt)
    then show "i \<in> set (map of_nat [1..<unat maxino])" by (auto intro!: image_eqI [of _ _ "unat i"])
  qed
  then show ?thesis by (auto simp: marked_inodes_def)
qed

text \<open>C7: Pass IV visits the inodes of \<open>dumpinomap\<close> in ascending order, although it reads the bytes of
  the map while \<open>dumpino\<close> clears bits in them; and when it ends normally, exactly the marked inodes
  that are files (not directories) have left the map.\<close>

theorem pass4_visits:
  assumes "unat maxino \<le> 8 * length (dumpinomap m) + 1"
  shows "pass4 cfg fs mflag maxino (m, w)
      = visit (pass4_body cfg fs mflag) (marked_inodes maxino (dumpinomap m)) (m, w)
    \<and> (\<forall>m' w'. pass4 cfg fs mflag maxino (m, w) = Inr (m', w') \<longrightarrow>
         ino_set (dumpinomap m') = ino_set (dumpinomap m) - {i. 1 \<le> i \<and> i < maxino \<and> is_file fs i})"
proof -
  have p: "pass4 cfg fs mflag maxino (m, w)
      = visit (pass4_body cfg fs mflag) (marked_inodes maxino (dumpinomap m)) (m, w)"
    using file_pass.map_loop_all [of maxino "(m, w)"] assms by (simp add: pass4_def)
  have "ino_set (dumpinomap m') = ino_set (dumpinomap m) - {i. 1 \<le> i \<and> i < maxino \<and> is_file fs i}"
    if "visit (pass4_body cfg fs mflag) (marked_inodes maxino (dumpinomap m)) (m, w) = Inr (m', w')" for m' w'
    unfolding visit_pass4_dumps [OF that] set_marked TSTINO_ino_set by blast
  then show ?thesis unfolding p by blast
qed

text \<open>A disk with one file, inode 11, in the map.\<close>

definition file_ext2 :: ext2fs where
  "file_ext2 = sample_ext2\<lparr>fs_inode := (\<lambda>i. Some sample_file)\<rparr>"

definition file_maps :: maps where
  "file_maps = empty_maps\<lparr>dumpinomap := [0, 4]\<rparr>"

lemma file_marked: "marked_inodes 12 [0, 4] = [11]"
proof -
  have u: "[1..<unat (12 :: dump_ino_t)] = [1, 2, 3, 4, 5, 6, 7, 8, 9, 10, 11]" by (simp add: upt_rec)
  show ?thesis unfolding marked_inodes_def u
    by (simp add: TSTINO_bit in_map_def ino_byte_def ino_bit_def NBBY_def bit_numeral_rec)
qed

lemma file_inode: "fs_inode file_ext2 i = Some sample_file" "file_mode sample_file = IFREG" "plain_inode sample_file"
    "0 < i_size sample_file" "good_fs file_ext2"
  by (simp_all add: file_ext2_def sample_ext2_def sample_file_def sample_inode_def file_mode_def mode_consts i_size_def
      plain_inode_def good_fs_def TP_BSIZE_def)

theorem pass4_visits_witness:
  "\<exists>m' w'. pass4 sample_tcfg file_ext2 False 12 (file_maps, sample_writer) = Inr (m', w')
     \<and> visit (pass4_body sample_tcfg file_ext2 False) [11] (file_maps, sample_writer) = Inr (m', w')
     \<and> ino_set (dumpinomap m') = {}"
proof -
  have w: "winv sample_tcfg sample_writer" "\<not> newtape sample_writer"
    using winv_sample by (simp_all add: sample_writer_def alloctape_def initial_writer_def Let_def)
  have m: "dumpinomap file_maps = [0, 4]" "metainomap file_maps = [0, 0]" by (simp_all add: file_maps_def empty_maps_def)
  have s: "sorted_wrt (<) (map fst (fs_blocks file_ext2 11))" by (simp add: file_ext2_def sample_ext2_def)
  obtain m1 w' where d: "dumpino sample_tcfg file_ext2 sample_file 11 False (file_maps\<lparr>curino := 11\<rparr>, sample_writer) = Inr (m1, w')"
    using dumpino_emits [OF steady_sample file_inode(5) w file_inode(3,2,4) s] by blast
  have v: "visit (pass4_body sample_tcfg file_ext2 False) [11] (file_maps, sample_writer) = Inr (m1, w')"
    using d file_inode(2) by (simp add: pass4_body_def tape_getino_def file_inode(1) mode_consts)
  have b: "unat (12 :: dump_ino_t) \<le> 8 * length (dumpinomap file_maps) + 1" by (simp add: m)
  have f: "is_file file_ext2 i" for i using file_inode(1,2) by (simp add: is_file_def mode_consts)
  have i: "ino_set [0, 4] - {i. 1 \<le> i \<and> i < (12 :: dump_ino_t)} = {}"
  proof -
    have "[0, 4] = SETINO 11 [0, 0]" by (simp add: SETINO_def ino_byte_def ino_bit_def NBBY_def)
    moreover have "in_map 11 [0, 0]" by (simp add: in_map_def ino_byte_def NBBY_def)
    moreover have "ino_set [0, 0] = {}" using TSTINO_zeros [of _ 2] by (auto simp: ino_set_def numeral_2_eq_2)
    ultimately show ?thesis by (simp add: ino_set_SETINO)
  qed
  show ?thesis
    using pass4_visits [of 12 file_maps sample_tcfg file_ext2 False sample_writer] b v f i
    unfolding m file_marked by (intro exI [of _ m1] exI [of _ w']) simp
qed

end
