(* ===== verification/Dirs.thy ===== *)
theory Dirs
  imports Segments
begin

text \<open>
  The directories that restore keeps in a file of its own (restore/dirs.c): \<open>putdir\<close>, \<open>putent\<close> and
  \<open>flushent\<close> write the entries of the directories on the tape, \<open>allocinotab\<close> and \<open>inotablookup\<close> keep
  the place of each, \<open>extractdirs\<close> does this for all of them, \<open>rst_seekdir\<close>, \<open>rst_readdir\<close> and
  \<open>rst_telldir\<close> read them again, and \<open>searchdir\<close>, \<open>pathsearch\<close> and \<open>treescan\<close> look names up.
\<close>

section \<open>Directory entries\<close>

text \<open>
  \<open>struct direct\<close> (compat/include/bsdcompat.h).  A pointer to one points into a buffer; \<open>d_name\<close> is
  the memory from the name on, however much of it belongs to the entry.
\<close>

record direct =
  d_ino :: u32
  d_reclen :: u16
  d_type :: byte
  d_namlen :: byte
  d_name :: "byte list"

definition DT_UNKNOWN :: byte where "DT_UNKNOWN = 0"
definition DT_DIR :: byte where "DT_DIR = 4"

definition DIRBLKSIZ :: nat where "DIRBLKSIZ = 1024"

definition DIRSIZ :: "direct \<Rightarrow> nat" where
  "DIRSIZ dp = DIR_REC_LEN (unat (d_namlen dp) + 1)"

definition read_direct :: "byte list \<Rightarrow> direct" where
  "read_direct mem = \<lparr> d_ino = get LE (at mem 0 4), d_reclen = get LE (at mem 4 2),
     d_type = get LE (at mem 6 1), d_namlen = get LE (at mem 7 1), d_name = drop 8 mem \<rparr>"

definition direct_bytes :: "direct \<Rightarrow> byte list" where
  "direct_bytes dp = put LE 4 (d_ino dp) @ put LE 2 (d_reclen dp) @ [d_type dp, d_namlen dp] @ d_name dp"

text \<open>A C string in memory, and comparisons of one with the name of an entry.\<close>

definition c_str :: "byte list \<Rightarrow> byte list" where
  "c_str = takeWhile (\<lambda>b. b \<noteq> 0)"

definition dot_name :: "byte list" where "dot_name = [0x2E]"
definition slash :: byte where "slash = 0x2F"


section \<open>The table of directories\<close>

text \<open>\<open>inotab\<close>: a hash table of chains.  The new entry is the first of its chain.\<close>

definition HASHSIZE :: nat where "HASHSIZE = 1000"

definition INOHASH :: "dump_ino_t \<Rightarrow> nat" where
  "INOHASH ino = unat ino mod HASHSIZE"

record inotab =
  t_ino :: dump_ino_t
  t_seekpt :: nat
  t_size :: nat

type_synonym inotabs = "inotab list list"

definition no_inotab :: inotabs where "no_inotab = replicate HASHSIZE []"

definition allocinotab :: "dump_ino_t \<Rightarrow> nat \<Rightarrow> inotabs \<Rightarrow> inotabs" where
  "allocinotab ino seekpt tab =
     tab[INOHASH ino := \<lparr> t_ino = ino, t_seekpt = seekpt, t_size = 0 \<rparr> # tab ! INOHASH ino]"

definition inotablookup :: "dump_ino_t \<Rightarrow> inotabs \<Rightarrow> inotab option" where
  "inotablookup ino tab = find (\<lambda>itp. t_ino itp = ino) (tab ! INOHASH ino)"

text \<open>\<open>itp->t_size = ...\<close> for the entry that \<open>allocinotab\<close> has just returned.\<close>

definition set_t_size :: "dump_ino_t \<Rightarrow> nat \<Rightarrow> inotabs \<Rightarrow> inotabs" where
  "set_t_size ino sz tab =
     (case tab ! INOHASH ino of
        [] \<Rightarrow> tab
      | itp # chain \<Rightarrow> tab[INOHASH ino := itp\<lparr>t_size := sz\<rparr> # chain])"

text \<open>\<open>inodetype\<close>: \<open>True\<close> is \<open>NODE\<close>, \<open>False\<close> is \<open>LEAF\<close>.\<close>

definition inodetype :: "dump_ino_t \<Rightarrow> inotabs \<Rightarrow> bool" where
  "inodetype ino tab \<longleftrightarrow> inotablookup ino tab \<noteq> None"


section \<open>Writing the directory file\<close>

text \<open>\<open>struct modeinfo\<close>, with the attributes that follow it in the file.\<close>

record modeinfo =
  mi_ino :: dump_ino_t
  mi_atime :: "u32 \<times> u32"
  mi_mtime :: "u32 \<times> u32"
  mi_mode :: u16
  mi_uid :: u32
  mi_gid :: u32
  mi_flags :: u32
  mi_xattr :: "byte list option"

text \<open>
  The static variables of the file: the bytes written to \<open>df\<close>, the block being filled with
  \<open>dirloc\<close> and \<open>prev\<close>, \<open>seekpt\<close>, the table, and the records written to \<open>mf\<close> (\<open>None\<close> when it is not
  open).  \<open>df_room\<close> is the size at which the file system of \<open>df\<close> is full.
\<close>

record dirs =
  df :: "byte list"
  df_room :: nat
  dirbuf :: "byte list"
  dirloc :: nat
  prev :: nat
  seekpt :: nat
  inotab_tbl :: inotabs
  mf :: "modeinfo list option"

text \<open>\<open>fwrite\<close>; a failure is an exit, here or at the latest at \<open>fclose\<close>.\<close>

definition df_write :: "byte list \<Rightarrow> dirs \<Rightarrow> restore_stop + dirs" where
  "df_write bs ds =
     (if length (df ds) + length bs > df_room ds then Inl Exit_1 else Inr (ds\<lparr>df := df ds @ bs\<rparr>))"

text \<open>The last entry of a block is extended to the end of the block.\<close>

definition extend_prev :: "dirs \<Rightarrow> dirs" where
  "extend_prev ds =
     ds\<lparr>dirbuf := overlay (dirbuf ds) (prev ds + 4) (put LE 2 (of_nat (DIRBLKSIZ - prev ds) :: u16))\<rparr>"

definition putent :: "direct \<Rightarrow> dirs \<Rightarrow> restore_stop + dirs" where
  "putent dp ds =
     (let n = DIRSIZ dp; dp = dp\<lparr>d_reclen := of_nat n\<rparr>
      in bindE (if dirloc ds + n > DIRBLKSIZ
                then let ds = extend_prev ds
                     in bindE (df_write (take DIRBLKSIZ (dirbuf ds)) ds) (\<lambda>ds. Inr (ds\<lparr>dirloc := 0\<rparr>))
                else Inr ds) (\<lambda>ds.
         Inr (ds\<lparr>dirbuf := overlay (dirbuf ds) (dirloc ds) (take n (direct_bytes dp)),
                 prev := dirloc ds, dirloc := dirloc ds + n\<rparr>)))"

text \<open>\<open>fwrite\<close> of no bytes at all does not return 1.\<close>

definition flushent :: "dirs \<Rightarrow> restore_stop + dirs" where
  "flushent ds =
     (let ds = extend_prev ds
      in if dirloc ds = 0 then Inl Exit_1
         else bindE (df_write (take (dirloc ds) (dirbuf ds)) ds) (\<lambda>ds.
              Inr (ds\<lparr>seekpt := length (df ds), dirloc := 0\<rparr>)))"

text \<open>Directories of the old format: 16 bytes for each entry.\<close>

definition ODIRSIZ :: nat where "ODIRSIZ = 14"

definition dcvt :: "byte list \<Rightarrow> direct" where
  "dcvt odp =
     (let name = c_str (at odp 2 ODIRSIZ);
          ndp = \<lparr> d_ino = ucast (get LE (at odp 0 2) :: u16), d_reclen = 0, d_type = DT_UNKNOWN,
                  d_namlen = of_nat (length name), d_name = name @ replicate (256 - length name) 0 \<rparr>
      in ndp\<lparr>d_reclen := of_nat (DIRSIZ ndp)\<rparr>)"

fun odirects :: "nat \<Rightarrow> byte list \<Rightarrow> direct list" where
  "odirects 0 mem = []"
| "odirects (Suc n) mem =
     (let dp = dcvt mem; dps = odirects n (drop 16 mem)
      in if (get LE (at mem 0 2) :: u16) \<noteq> 0 then dp # dps else dps)"

fun putents :: "direct list \<Rightarrow> dirs \<Rightarrow> restore_stop + dirs" where
  "putents [] ds = Inr ds"
| "putents (dp # dps) ds = bindE (putent dp ds) (putents dps)"

text \<open>The changes that \<open>putdir\<close> makes to the entry at the head of the memory.\<close>

definition fix_direct :: "rstate \<Rightarrow> byte list \<Rightarrow> byte list" where
  "fix_direct r mem =
     (let mem = (if Bcvt r then (case swabst ''is'' mem of Some m \<Rightarrow> m | None \<Rightarrow> mem) else mem);
          dp = read_direct mem
      in if oldinofmt r \<and> d_ino dp \<noteq> 0 then
           let n = (if \<not> Bcvt r then d_type dp else d_namlen dp);
               n = (if n = 0 \<and> d_type dp \<noteq> 0 then d_type dp else n)
           in direct_bytes (dp\<lparr>d_namlen := n, d_type := DT_UNKNOWN\<rparr>)
         else mem)"

definition mangled :: "nat \<Rightarrow> direct \<Rightarrow> bool" where
  "mangled loc dp \<longleftrightarrow> unat (d_reclen dp) mod 4 \<noteq> 0 \<or> unat (d_reclen dp) > DIRBLKSIZ - loc mod DIRBLKSIZ
     \<or> unat (d_reclen dp) < DIRSIZ dp"

lemma DIRSIZ_pos: "12 \<le> DIRSIZ dp"
  by (simp add: DIRSIZ_def DIR_REC_LEN_def)

lemma reclen_pos: "\<not> mangled loc dp \<Longrightarrow> 0 < unat (d_reclen dp)"
  using DIRSIZ_pos [of dp] by (simp add: mangled_def)

function putdir_loop :: "rstate \<Rightarrow> nat \<Rightarrow> nat \<Rightarrow> byte list \<Rightarrow> dirs \<Rightarrow> restore_stop + dirs" where
  "putdir_loop r n loc mem ds =
     (if loc < n then
        let mem = take loc mem @ fix_direct r (drop loc mem);
            dp = read_direct (drop loc mem)
        in if mangled loc dp then putdir_loop r n (loc + (DIRBLKSIZ - loc mod DIRBLKSIZ)) mem ds
           else (case (if d_ino dp \<noteq> 0 then putent dp ds else Inr ds) of
                   Inl x \<Rightarrow> Inl x
                 | Inr ds \<Rightarrow> putdir_loop r n (loc + unat (d_reclen dp)) mem ds)
      else Inr ds)"
  by pat_completeness auto
termination
  by (relation "measure (\<lambda>(r, n, loc, mem, ds). n - loc)")
     (simp_all add: reclen_pos DIRBLKSIZ_def diff_less_mono2)

declare putdir_loop.simps [simp del]

text \<open>
  \<open>putdir\<close>; \<open>past\<close> is what follows the data in the buffer of \<open>getfile\<close>, where the last entry of a
  damaged directory may end.
\<close>

definition putdir :: "rcfg \<Rightarrow> rstate \<Rightarrow> byte list \<Rightarrow> byte list \<Rightarrow> dirs \<Rightarrow> restore_stop + dirs" where
  "putdir cfg r past buf ds =
     (if cvtflag cfg \<and> \<not> ufs2flag r then putents (odirects (howmany (length buf) 16) (buf @ past)) ds
      else putdir_loop r (length buf) 0 (buf @ past) ds)"

definition savemodeinfo :: "dump_ino_t \<Rightarrow> new_bsd_inode \<Rightarrow> byte list option \<Rightarrow> dirs \<Rightarrow> dirs" where
  "savemodeinfo ino dip xattr ds =
     (case mf ds of
        None \<Rightarrow> ds
      | Some ms \<Rightarrow> ds\<lparr>mf := Some (ms @
          [\<lparr> mi_ino = ino, mi_atime = (nbi_atime dip, nbi_atime_usec dip),
             mi_mtime = (nbi_mtime dip, nbi_mtime_usec dip), mi_mode = nbi_mode dip,
             mi_uid = nbi_uid dip, mi_gid = nbi_gid dip, mi_flags = nbi_flags dip,
             mi_xattr = xattr \<rparr>])\<rparr>)"

section \<open>Reading the directory file\<close>

text \<open>
  \<open>RST_DIR\<close>: the offset of the descriptor \<open>dd_fd\<close> in the directory file and the block that was read.
\<close>

record rst_dir =
  dd_cur :: nat
  dd_loc :: nat
  dd_size :: nat
  dd_buf :: "byte list"

definition opendirfile :: "byte list \<Rightarrow> rst_dir" where
  "opendirfile junk = \<lparr> dd_cur = 0, dd_loc = 0, dd_size = 0, dd_buf = junk \<rparr>"

definition rst_telldir :: "rst_dir \<Rightarrow> int" where
  "rst_telldir d = int (dd_cur d) - int (dd_size d) + int (dd_loc d)"

text \<open>\<open>read\<close> of a block: as many bytes as there are.\<close>

definition read_block :: "byte list \<Rightarrow> rst_dir \<Rightarrow> rst_dir" where
  "read_block fd d =
     (let bs = at fd (dd_cur d) DIRBLKSIZ
      in d\<lparr>dd_size := length bs, dd_buf := overlay (dd_buf d) 0 bs, dd_cur := dd_cur d + length bs\<rparr>)"

definition rst_seekdir :: "byte list \<Rightarrow> int \<Rightarrow> int \<Rightarrow> rst_dir \<Rightarrow> rst_dir" where
  "rst_seekdir fd loc base d =
     (if loc = rst_telldir d then d
      else
        let loc = loc - base;
            pos = base + loc div int DIRBLKSIZ * int DIRBLKSIZ;
            d = (if pos < 0 then d else d\<lparr>dd_cur := nat pos\<rparr>);
            d = d\<lparr>dd_loc := nat (loc mod int DIRBLKSIZ)\<rparr>
        in if dd_loc d \<noteq> 0 then read_block fd d else d)"

text \<open>
  \<open>rst_readdir\<close>: the next entry, or \<open>None\<close> at the end of the directory, of the file, or at an entry
  with a bad length.  Entries with an inode number beyond \<open>maxino\<close> are passed over.
\<close>

definition cur_block :: "byte list \<Rightarrow> rst_dir \<Rightarrow> rst_dir" where
  "cur_block fd d = (if dd_loc d = 0 then read_block fd d else d)"

function rst_readdir :: "dump_ino_t \<Rightarrow> byte list \<Rightarrow> rst_dir \<Rightarrow> direct option \<times> rst_dir" where
  "rst_readdir maxino fd d0 =
     (let d = cur_block fd d0
      in if dd_loc d = 0 \<and> dd_size d = 0 then (None, d)
         else if dd_loc d \<ge> dd_size d then rst_readdir maxino fd (d\<lparr>dd_loc := 0\<rparr>)
         else
           let dp = read_direct (drop (dd_loc d) (dd_buf d))
           in if d_reclen dp = 0 \<or> unat (d_reclen dp) + dd_loc d > DIRBLKSIZ + 1 then (None, d)
              else
                let d = d\<lparr>dd_loc := dd_loc d + unat (d_reclen dp)\<rparr>
                in if d_ino dp = 0 \<and> c_str (d_name dp) = [slash] then (None, d)
                   else if d_ino dp \<ge> maxino then rst_readdir maxino fd d
                   else (Some dp, d))"
  by pat_completeness auto

text \<open>Every round reads a block or gets further in the one at hand.\<close>

definition unread :: "byte list \<Rightarrow> rst_dir \<Rightarrow> nat" where
  "unread fd d = (length fd - dd_cur d) * 2048 + (if dd_loc d = 0 then 0 else 1026 - dd_loc d + 1)"

lemma read_block_unread:
  assumes "dd_loc d = 0" "dd_size (read_block fd d) \<noteq> 0"
  shows "(length fd - dd_cur (read_block fd d)) * 2048 + 2048 \<le> (length fd - dd_cur d) * 2048"
proof -
  have "dd_cur (read_block fd d) = dd_cur d + dd_size (read_block fd d)"
    by (simp add: read_block_def Let_def)
  moreover have "dd_size (read_block fd d) \<le> length fd - dd_cur d"
    by (simp add: read_block_def Let_def at_def)
  ultimately have "Suc (length fd - dd_cur (read_block fd d)) \<le> length fd - dd_cur d"
    using assms(2) by linarith
  then have "Suc (length fd - dd_cur (read_block fd d)) * 2048 \<le> (length fd - dd_cur d) * 2048"
    by (rule mult_le_mono1)
  then show ?thesis by simp
qed

lemma read_block_loc [simp]: "dd_loc (read_block fd d) = dd_loc d"
  by (simp add: read_block_def Let_def)

lemma cur_block_loc [simp]: "dd_loc (cur_block fd d) = dd_loc d"
  by (simp add: cur_block_def)

lemma unread_step:
  assumes "\<not> (dd_loc d0 = 0 \<and> dd_size (cur_block fd d0) = 0)" "0 < k" "dd_loc d0 + k \<le> DIRBLKSIZ + 1"
  shows "unread fd ((cur_block fd d0)\<lparr>dd_loc := dd_loc d0 + k\<rparr>) < unread fd d0"
  using assms read_block_unread [of d0 fd] by (auto simp: unread_def cur_block_def DIRBLKSIZ_def)

lemma unread_again: "dd_loc d0 \<noteq> 0 \<Longrightarrow> unread fd ((cur_block fd d0)\<lparr>dd_loc := 0\<rparr>) < unread fd d0"
  by (simp add: unread_def cur_block_def)

termination rst_readdir
proof (relation "measure (\<lambda>(maxino, fd, d). unread fd d)", goal_cases)
  case (2 maxino fd d0 d)
  then show ?case using unread_again [of d0 fd] by (cases "dd_loc d0 = 0") simp_all
next
  case (3 maxino fd d0 d dp d1)
  then have "0 < unat (d_reclen dp)" "dd_loc d0 + unat (d_reclen dp) \<le> DIRBLKSIZ + 1"
    by (simp_all add: unat_gt_0)
  then show ?case using unread_step [of d0 fd "unat (d_reclen dp)"] 3 by simp
qed simp

declare rst_readdir.simps [simp del]

lemma rst_readdir_unread: "rst_readdir maxino fd d = (Some dp, d') \<Longrightarrow> unread fd d' < unread fd d"
proof (induction maxino fd d rule: rst_readdir.induct)
  case (1 maxino fd d0)
  define d where "d = cur_block fd d0"
  define e where "e = read_direct (drop (dd_loc d) (dd_buf d))"
  define d1 where "d1 = d\<lparr>dd_loc := dd_loc d + unat (d_reclen e)\<rparr>"
  note IH = "1.IH" [OF d_def, folded e_def, folded d1_def]
  note p = "1.prems" [unfolded rst_readdir.simps [of maxino fd d0] Let_def, folded d_def, folded e_def, folded d1_def]
  have a: "\<not> (dd_loc d = 0 \<and> dd_size d = 0)" using p by (auto split: if_splits)
  then have a0: "\<not> (dd_loc d0 = 0 \<and> dd_size (cur_block fd d0) = 0)" by (simp add: d_def)
  show ?case
  proof (cases "dd_loc d \<ge> dd_size d")
    case True
    then have "rst_readdir maxino fd (d\<lparr>dd_loc := 0\<rparr>) = (Some dp, d')" using p a by simp
    from IH(1) [OF a True this] have "unread fd d' < unread fd (d\<lparr>dd_loc := 0\<rparr>)" .
    moreover have "dd_loc d0 \<noteq> 0" using True a by (auto simp: d_def)
    ultimately show ?thesis using unread_again [of d0 fd] by (simp add: d_def)
  next
    case False
    have b: "\<not> (d_reclen e = 0 \<or> unat (d_reclen e) + dd_loc d > DIRBLKSIZ + 1)"
      using p a False by (auto split: if_splits)
    then have lt: "unread fd d1 < unread fd d0"
      using unread_step [OF a0, of "unat (d_reclen e)"] by (simp add: unat_gt_0 d1_def d_def)
    have c: "\<not> (d_ino e = 0 \<and> c_str (d_name e) = [slash])"
      using p a False b by (auto split: if_splits)
    show ?thesis
    proof (cases "d_ino e \<ge> maxino")
      case True
      then have "rst_readdir maxino fd d1 = (Some dp, d')" using p a False b c by (simp split: if_splits)
      then show ?thesis using IH(2) [OF a False refl b d1_def c True] lt by simp
    next
      case False2: False
      then show ?thesis using p a False b c lt by (simp split: if_splits)
    qed
  qed
qed


section \<open>Looking up names\<close>

text \<open>
  \<open>searchdir\<close>.  The state is the descriptor \<open>dirp\<close>; \<open>tab\<close> and \<open>fd\<close> are what \<open>extractdirs\<close> has left.
\<close>

definition name_matches :: "byte list \<Rightarrow> direct \<Rightarrow> bool" where
  "name_matches name dp \<longleftrightarrow> unat (d_namlen dp) = length name \<and> take (length name) (d_name dp) = name"

function search_loop :: "dump_ino_t \<Rightarrow> byte list \<Rightarrow> byte list \<Rightarrow> rst_dir \<Rightarrow> direct option \<times> rst_dir" where
  "search_loop maxino fd name d =
     (case rst_readdir maxino fd d of
        (None, d') \<Rightarrow> (None, d')
      | (Some dp, d') \<Rightarrow> if name_matches name dp then (Some dp, d') else search_loop maxino fd name d')"
  by pat_completeness auto
termination search_loop
  by (relation "measure (\<lambda>(maxino, fd, name, d). unread fd d)") (auto dest: rst_readdir_unread [OF sym])

declare search_loop.simps [simp del]

definition searchdir :: "dump_ino_t \<Rightarrow> byte list \<Rightarrow> inotabs \<Rightarrow> dump_ino_t \<Rightarrow> byte list \<Rightarrow> rst_dir
    \<Rightarrow> direct option \<times> rst_dir" where
  "searchdir maxino fd tab inum name d =
     (case inotablookup inum tab of
        None \<Rightarrow> (None, d)
      | Some itp \<Rightarrow> search_loop maxino fd name (rst_seekdir fd (int (t_seekpt itp)) (int (t_seekpt itp)) d))"

text \<open>
  \<open>pathsearch\<close>: the components are cut off by \<open>strsep\<close>; an empty one ends the search.
\<close>

fun strsep_all :: "byte list \<Rightarrow> byte list list" where
  "strsep_all [] = [[]]"
| "strsep_all (b # bs) =
     (if b = slash then [] # strsep_all bs
      else case strsep_all bs of [] \<Rightarrow> [[b]] | n # ns \<Rightarrow> (b # n) # ns)"

lemma strsep_all_append: "slash \<notin> set n \<Longrightarrow> strsep_all (n @ slash # s) = n # strsep_all s"
  by (induction n) auto

lemma strsep_all_name: "slash \<notin> set n \<Longrightarrow> strsep_all n = [n]"
  by (induction n) auto

fun path_loop :: "dump_ino_t \<Rightarrow> byte list \<Rightarrow> inotabs \<Rightarrow> byte list list \<Rightarrow> dump_ino_t \<Rightarrow> direct option
    \<Rightarrow> rst_dir \<Rightarrow> direct option \<times> rst_dir" where
  "path_loop maxino fd tab [] ino dp d = (dp, d)"
| "path_loop maxino fd tab (name # names) ino dp d =
     (if name = [] then (dp, d)
      else case searchdir maxino fd tab ino name d of
             (None, d) \<Rightarrow> (None, d)
           | (Some dp, d) \<Rightarrow> path_loop maxino fd tab names (d_ino dp) (Some dp) d)"

definition ROOTINO :: dump_ino_t where "ROOTINO = 2"

definition pathsearch :: "dump_ino_t \<Rightarrow> byte list \<Rightarrow> inotabs \<Rightarrow> byte list \<Rightarrow> rst_dir
    \<Rightarrow> direct option \<times> rst_dir" where
  "pathsearch maxino fd tab pathname d =
     path_loop maxino fd tab (strsep_all (dropWhile (\<lambda>b. b = slash) pathname)) ROOTINO None d"

text \<open>\<open>dirlookup\<close> (restore/utilities.c): 0 when there is no such name.\<close>

definition dirlookup :: "dump_ino_t \<Rightarrow> byte list \<Rightarrow> inotabs \<Rightarrow> byte list \<Rightarrow> rst_dir \<Rightarrow> dump_ino_t \<times> rst_dir" where
  "dirlookup maxino fd tab name d =
     (case pathsearch maxino fd tab name d of
        (None, d) \<Rightarrow> (0, d)
      | (Some dp, d) \<Rightarrow> (d_ino dp, d))"

text \<open>\<open>rst_opendir\<close>: a descriptor of its own, at the start of the directory (\<open>None\<close> when there is none).\<close>

definition rst_opendir :: "dump_ino_t \<Rightarrow> byte list \<Rightarrow> inotabs \<Rightarrow> byte list \<Rightarrow> byte list \<Rightarrow> rst_dir
    \<Rightarrow> rst_dir option \<times> rst_dir" where
  "rst_opendir maxino fd tab junk name d =
     (case dirlookup maxino fd tab name d of (ino, d) \<Rightarrow>
        (if ino > 0 then
           map_option (\<lambda>itp. rst_seekdir fd (int (t_seekpt itp)) (int (t_seekpt itp)) (opendirfile junk))
             (inotablookup ino tab)
         else None, d))"

text \<open>
  \<open>treescan\<close>: \<open>todo\<close> is called with the name, the inode number and whether the file is a directory
  (\<open>NODE\<close>); its result is \<open>GOOD\<close> or not.  The fuel bounds the depth and the entries of a directory.
\<close>

type_synonym 's todo = "byte list \<Rightarrow> dump_ino_t \<Rightarrow> bool \<Rightarrow> 's \<Rightarrow> restore_stop + bool \<times> 's"

definition skip_dot :: "dump_ino_t \<Rightarrow> byte list \<Rightarrow> byte list \<Rightarrow> direct option \<times> rst_dir
    \<Rightarrow> direct option \<times> rst_dir" where
  "skip_dot maxino fd name = (\<lambda>(dp, d).
     case dp of
       Some e \<Rightarrow> if c_str (d_name e) = name then rst_readdir maxino fd d else (dp, d)
     | None \<Rightarrow> (None, d))"

fun treescan :: "nat \<Rightarrow> 's todo \<Rightarrow> dump_ino_t \<Rightarrow> byte list \<Rightarrow> inotabs \<Rightarrow> byte list \<Rightarrow> dump_ino_t
    \<Rightarrow> rst_dir \<times> 's \<Rightarrow> restore_stop + rst_dir \<times> 's"
  and scan_loop :: "nat \<Rightarrow> 's todo \<Rightarrow> dump_ino_t \<Rightarrow> byte list \<Rightarrow> inotabs \<Rightarrow> byte list \<Rightarrow> int
    \<Rightarrow> direct option \<times> rst_dir \<Rightarrow> 's \<Rightarrow> restore_stop + rst_dir \<times> 's" where
  "treescan 0 todo maxino fd tab pname ino ds = Inl No_Return"
| "treescan (Suc n) todo maxino fd tab pname ino ds =
     (case inotablookup ino tab of
        None \<Rightarrow> map_sum id (\<lambda>(ok, s). (fst ds, s)) (todo pname ino False (snd ds))
      | Some itp \<Rightarrow>
          bindE (todo pname ino True (snd ds)) (\<lambda>(ok, s).
          if \<not> ok then Inr (fst ds, s)
          else
            let base = int (t_seekpt itp);
                r = rst_readdir maxino fd (rst_seekdir fd base base (fst ds));
                r = skip_dot maxino fd [0x2E, 0x2E] (skip_dot maxino fd [0x2E] r)
            in scan_loop n todo maxino fd tab (take MAXPATHLEN (pname @ [slash])) base r s))"
| "scan_loop 0 todo maxino fd tab locname base r s = Inl No_Return"
| "scan_loop (Suc n) todo maxino fd tab locname base r s =
     (case fst r of
        None \<Rightarrow> Inr (snd r, s)
      | Some dp \<Rightarrow>
          bindE (if length locname + unat (d_namlen dp) \<ge> MAXPATHLEN + 1 then Inr (snd r, s)
                 else bindE (treescan n todo maxino fd tab
                               (locname @ c_str (take (unat (d_namlen dp)) (d_name dp))) (d_ino dp) (snd r, s))
                        (\<lambda>(d, s). Inr (rst_seekdir fd (rst_telldir (snd r)) base d, s))) (\<lambda>(d, s).
          scan_loop n todo maxino fd tab locname base (rst_readdir maxino fd d) s))"

text \<open>
  \<open>genliteraldir\<close>: the directory is copied through a duplicate of the descriptor, which shares its
  offset; a short \<open>read\<close> leaves the rest of the buffer as it was.  \<open>None\<close> as output is a file that
  cannot be created (\<open>FAIL\<close>).
\<close>

function copy_dir :: "byte list \<Rightarrow> nat \<Rightarrow> byte list \<Rightarrow> byte list \<times> rst_dir \<Rightarrow> byte list \<times> rst_dir" where
  "copy_dir fd i buf od =
     (if i > 0 then
        let n = min i BUFSIZ; bs = at fd (dd_cur (snd od)) n; buf = overlay buf 0 bs
        in copy_dir fd (i - BUFSIZ) buf (fst od @ take n buf, (snd od)\<lparr>dd_cur := dd_cur (snd od) + length bs\<rparr>)
      else od)"
  by pat_completeness auto
termination copy_dir
  by (relation "measure (\<lambda>(fd, i, buf, od). i)") (simp_all add: BUFSIZ_def)

declare copy_dir.simps [simp del]

definition genliteraldir :: "rcfg \<Rightarrow> byte list \<Rightarrow> inotabs \<Rightarrow> bool \<Rightarrow> byte list \<Rightarrow> dump_ino_t \<Rightarrow> rst_dir
    \<Rightarrow> restore_stop + byte list option \<times> rst_dir" where
  "genliteraldir cfg fd tab open_ok junk ino d =
     (case inotablookup ino tab of
        None \<Rightarrow> bindE (panic cfg) (\<lambda>_. if open_ok then Inl Crash else Inr (None, d))
      | Some itp \<Rightarrow>
          if \<not> open_ok then Inr (None, d)
          else case copy_dir fd (t_size itp) junk
                      ([], rst_seekdir fd (int (t_seekpt itp)) (int (t_seekpt itp)) d) of
                 (out, d) \<Rightarrow> Inr (Some (if Nflag cfg then [] else out), d))"


section \<open>Extracting all directories\<close>

lemma get_loop_tape: "get_loop cfg h g r = Inr (g', r') \<Longrightarrow> length (tape r') < length (tape r)"
proof (induction cfg h g r rule: get_loop.induct)
  case (1 cfg h g r)
  from "1.prems" obtain g1 r1 r2 where a: "get_records cfg h (addr_present r) (g, r) = Inr (g1, r1)"
    and b: "next_head cfg (\<lambda>_. True) r1 = Inr r2"
    and c: "(if left g1 > 0 \<and> c_type (r_spcl r2) = TS_ADDR then get_loop cfg h g1 r2 else Inr (g1, r2)) = Inr (g', r')"
    by (subst (asm) get_loop.simps) (auto split: sum.splits prod.splits)
  have "length (tape r2) < length (tape r)" using get_records_tape [OF a] next_head_tape [OF b] by simp
  then show ?case using "1.IH" [OF a refl b] c by (auto split: if_splits)
qed

lemma findinode_loop_tape: "findinode_loop cfg r = Inr r' \<Longrightarrow> length (tape r') \<le> length (tape r)"
proof (induction cfg r rule: findinode_loop.induct)
  case (1 cfg r)
  from "1.prems" obtain r1 where r1: "(if c_magic (r_spcl r) \<noteq> NFS_MAGIC
      then next_head cfg (\<lambda>s. c_date s = dumpdate cfg) r else Inr r) = Inr r1"
    by (subst (asm) findinode_loop.simps) (auto split: sum.splits)
  have l1: "length (tape r1) \<le> length (tape r)"
    using r1 by (auto split: if_splits dest: next_head_tape)
  show ?case
  proof (cases "c_type (r_spcl r1) = TS_ADDR")
    case True
    let ?l = "map (\<lambda>b. b \<noteq> 0) (take (nat (sint (c_count (r_spcl r1)))) (c_addr_mem LE (r_spcl r1)))"
    obtain r2 r3 where r2: "read_junk ?l r1 = Inr r2"
      and r3: "next_head cfg (\<lambda>s. c_date s = dumpdate cfg) r2 = Inr r3"
      and e: "(if c_type (r_spcl r3) = TS_ADDR then findinode_loop cfg r3 else Inr r3) = Inr r'"
      using "1.prems" r1 True
      by (subst (asm) findinode_loop.simps) (auto simp: Let_def split: sum.splits)
    have "length (tape r3) < length (tape r)" using l1 read_junk_tape [OF r2] next_head_tape [OF r3] by simp
    then show ?thesis
      using "1.IH" [OF r1 refl refl True r2 r3] e by (auto split: if_splits)
  next
    case False
    then have "tape r' = tape r1"
      using "1.prems" r1
      by (subst (asm) findinode_loop.simps) (auto simp: Let_def bindE_Inr_iff split: sum.splits if_splits)
    then show ?thesis using l1 by simp
  qed
qed

lemma findinode_tape: "findinode cfg r = Inr r' \<Longrightarrow> length (tape r') \<le> length (tape r)"
  using findinode_loop_tape [of cfg "no_file r" r'] by (simp add: findinode_def no_file_def)

lemma getfile_tape: "getfile cfg h out r = Inr (out', r') \<Longrightarrow> length (tape r') < length (tape r)"
  by (auto simp: getfile_def Let_def bindE_Inr_iff split: if_splits dest!: get_loop_tape findinode_tape)

lemma skipfile_tape: "skipfile cfg r = Inr r' \<Longrightarrow> length (tape r') < length (tape r)"
  by (auto simp: skipfile_def bindE_Inr_iff dest: getfile_tape)

lemma readxattr_tape: "readxattr cfg r = Inr (x, r') \<Longrightarrow> length (tape r') < length (tape r)"
  by (auto simp: readxattr_def bindE_Inr_iff split: if_splits dest!: getfile_tape skipfile_tape)

text \<open>
  The loop over the attributes that follow a directory.  Nothing moves on for an attribute of an
  unknown type: the loop does not end.
\<close>

function dir_xattrs :: "rcfg \<Rightarrow> byte list option \<Rightarrow> rstate \<Rightarrow> restore_stop + byte list option \<times> rstate" where
  "dir_xattrs cfg x r =
     (if c_flags (r_spcl r) AND DR_EXTATTRIBUTES \<noteq> 0 then
        let t = c_extattributes (r_spcl r)
        in if t = EXT_MACOSFNDRINFO \<or> t = EXT_MACOSRESFORK then
             (case skipfile cfg r of Inl e \<Rightarrow> Inl e | Inr r' \<Rightarrow> dir_xattrs cfg x r')
           else if t = EXT_XATTR then
             (case readxattr cfg r of
                Inl e \<Rightarrow> Inl e
              | Inr (b, r') \<Rightarrow> dir_xattrs cfg (if b \<noteq> None then b else x) r')
           else Inl No_Return
      else Inr (x, r))"
  by pat_completeness auto
termination dir_xattrs
  by (relation "measure (\<lambda>(cfg, x, r). length (tape r))") (auto dest: skipfile_tape readxattr_tape)

declare dir_xattrs.simps [simp del]

lemma dir_xattrs_tape: "dir_xattrs cfg x r = Inr (x', r') \<Longrightarrow> length (tape r') \<le> length (tape r)"
proof (induction cfg x r rule: dir_xattrs.induct)
  case (1 cfg x r)
  then show ?case
    by (subst (asm) (3) dir_xattrs.simps)
       (fastforce simp: Let_def split: if_splits sum.splits prod.splits dest: skipfile_tape readxattr_tape)
qed

text \<open>
  Memory of the process that the directory file may get to see: what follows the data in the buffer
  of \<open>getfile\<close>, the bytes of the stack behind the name of \<open>nulldir\<close>, and the buffers before they
  are filled.
\<close>

record dirs_mem =
  past_data :: "byte list"
  stack_bytes :: "byte list"
  heap_bytes :: "byte list"

definition nulldir :: "byte list \<Rightarrow> direct" where
  "nulldir junk = \<lparr> d_ino = 0, d_reclen = 12, d_type = DT_DIR, d_namlen = 1, d_name = slash # 0 # junk \<rparr>"

definition dir_handlers :: "rcfg \<Rightarrow> rstate \<Rightarrow> dirs_mem \<Rightarrow> dirs handlers" where
  "dir_handlers cfg r mem =
     \<lparr> fill = putdir cfg r (past_data mem), skip = xtrnull, trunc = (\<lambda>n ds. ds) \<rparr>"

text \<open>One directory: its entries, its attributes, its end, and its size in the table.\<close>

definition finish_dir :: "dirs_mem \<Rightarrow> dump_ino_t \<Rightarrow> new_bsd_inode \<Rightarrow> nat \<Rightarrow> byte list option \<Rightarrow> dirs
    \<Rightarrow> restore_stop + dirs" where
  "finish_dir mem ino ip start xattr ds =
     bindE (putent (nulldir (stack_bytes mem)) (savemodeinfo ino ip xattr ds)) (\<lambda>ds.
     bindE (flushent ds) (\<lambda>ds.
     Inr (ds\<lparr>inotab_tbl := set_t_size ino (seekpt ds - start) (inotab_tbl ds)\<rparr>)))"

definition extract_dir :: "rcfg \<Rightarrow> dirs_mem \<Rightarrow> new_bsd_inode \<Rightarrow> rstate \<times> dirs
    \<Rightarrow> restore_stop + rstate \<times> dirs" where
  "extract_dir cfg mem ip = (\<lambda>(r, ds).
     let ino = cur_ino r; start = seekpt ds; r = r\<lparr>cur_action := USING\<rparr>;
         ds = ds\<lparr>inotab_tbl := allocinotab ino start (inotab_tbl ds)\<rparr>
     in bindE (getfile cfg (dir_handlers cfg r mem) ds r) (\<lambda>(ds, r).
        bindE (dir_xattrs cfg None r) (\<lambda>(xattr, r).
        bindE (finish_dir mem ino ip start xattr ds) (\<lambda>ds. Inr (r, ds)))))"

lemma extract_dir_tape: "extract_dir cfg mem ip (r, ds) = Inr (r', ds') \<Longrightarrow> length (tape r') < length (tape r)"
  by (auto simp: extract_dir_def Let_def bindE_Inr_iff dest!: getfile_tape dir_xattrs_tape)

function extract_loop :: "rcfg \<Rightarrow> dirs_mem \<Rightarrow> rstate \<Rightarrow> dirs \<Rightarrow> restore_stop + rstate \<times> dirs" where
  "extract_loop cfg mem r ds =
     (case cur_dip r of
        None \<Rightarrow> Inr (r, ds)
      | Some ip \<Rightarrow>
          if nbi_mode ip AND IFMT \<noteq> IFDIR then Inr (r, ds)
          else case extract_dir cfg mem ip (r, ds) of
                 Inl x \<Rightarrow> Inl x
               | Inr (r, ds) \<Rightarrow> extract_loop cfg mem r ds)"
  by pat_completeness auto
termination extract_loop
  by (relation "measure (\<lambda>(cfg, mem, r, ds). length (tape r))") (auto dest: extract_dir_tape)

declare extract_loop.simps [simp del]

text \<open>
  \<open>extractdirs\<close>, from the opened files on: \<open>opens\<close> tells whether \<open>dirfile\<close> and \<open>modefile\<close> could be
  created.  At the end the file is opened for reading and must have a root directory.
\<close>

definition no_dirs :: "bool \<Rightarrow> nat \<Rightarrow> dirs" where
  "no_dirs genmode room = \<lparr> df = [], df_room = room, dirbuf = replicate DIRBLKSIZ 0, dirloc = 0, prev = 0,
     seekpt = 0, inotab_tbl = no_inotab, mf = (if genmode then Some [] else None) \<rparr>"

definition extractdirs :: "rcfg \<Rightarrow> dirs_mem \<Rightarrow> bool \<times> bool \<Rightarrow> nat \<Rightarrow> bool \<Rightarrow> rstate
    \<Rightarrow> restore_stop + rstate \<times> dirs \<times> rst_dir" where
  "extractdirs cfg mem opens room genmode r =
     (if \<not> fst opens \<or> genmode \<and> \<not> snd opens then Inl Exit_1
      else
        bindE (extract_loop cfg mem r (no_dirs genmode room)) (\<lambda>(r, ds).
          case dirlookup (r_maxino cfg) (df ds) (inotab_tbl ds) [0x2E] (opendirfile (heap_bytes mem)) of
            (i, d) \<Rightarrow> bindE (if i = 0 then panic cfg else Inr ()) (\<lambda>_.
                      Inr (r\<lparr>cur_action := USING\<rparr>, ds, d))))"

function skipdirs :: "rcfg \<Rightarrow> rstate \<Rightarrow> restore_stop + rstate" where
  "skipdirs cfg r =
     (case cur_dip r of
        None \<Rightarrow> Inr r
      | Some ip \<Rightarrow>
          if nbi_mode ip AND IFMT \<noteq> IFDIR then Inr r
          else case skipfile cfg r of Inl x \<Rightarrow> Inl x | Inr r' \<Rightarrow> skipdirs cfg r')"
  by pat_completeness auto
termination skipdirs
  by (relation "measure (\<lambda>(cfg, r). length (tape r))") (auto dest: skipfile_tape)

declare skipdirs.simps [simp del]

end
