(* ===== verification/Dir_File.thy ===== *)
theory Dir_File
  imports Dirs
begin

text \<open>
  The directory file of restore is read as it was written: the layout of the entries in blocks, the
  invariant of \<open>putent\<close> and \<open>flushent\<close>, the steps of \<open>rst_readdir\<close> over the entries, and the names that
  \<open>searchdir\<close> and \<open>pathsearch\<close> find.
\<close>

section \<open>Entries in a block\<close>

text \<open>
  The entry \<open>e\<close> at an offset of a block, with the record length \<open>rl\<close>: the fixed fields and the bytes
  of the name up to \<open>DIRSIZ\<close>.  \<open>chain\<close>: the entries from an offset on, of which all bytes are below
  \<open>lim\<close>; the last one ends at \<open>fin\<close>.
\<close>

definition stored :: "byte list \<Rightarrow> nat \<Rightarrow> nat \<Rightarrow> direct \<Rightarrow> bool" where
  "stored buf off rl e \<longleftrightarrow>
     at buf off (DIRSIZ e) = take (DIRSIZ e) (direct_bytes (e\<lparr>d_reclen := of_nat rl\<rparr>))"

definition good_entry :: "direct \<Rightarrow> bool" where
  "good_entry e \<longleftrightarrow> DIRSIZ e \<le> 8 + length (d_name e)"

fun chain :: "byte list \<Rightarrow> nat \<Rightarrow> nat \<Rightarrow> direct list \<Rightarrow> nat \<Rightarrow> bool" where
  "chain buf lim off [] fin \<longleftrightarrow> off = fin"
| "chain buf lim off (e # es) fin \<longleftrightarrow>
     (\<exists>rl. stored buf off rl e \<and> good_entry e \<and> off + DIRSIZ e \<le> lim \<and> DIRSIZ e \<le> rl
        \<and> off + rl \<le> DIRBLKSIZ \<and> chain buf lim (off + rl) es fin)"

text \<open>What a reader gets to see of an entry.\<close>

definition same_entry :: "direct \<Rightarrow> direct \<Rightarrow> bool" where
  "same_entry dp e \<longleftrightarrow> d_ino dp = d_ino e \<and> d_type dp = d_type e \<and> d_namlen dp = d_namlen e
     \<and> take (DIRSIZ e - 8) (d_name dp) = take (DIRSIZ e - 8) (d_name e)"

lemma DIRSIZ_bounds: "unat (d_namlen e) + 9 \<le> DIRSIZ e" "DIRSIZ e \<le> 264"
proof -
  have "unat (d_namlen e) < 256" using unsigned_less [of "d_namlen e"] by simp
  then show "DIRSIZ e \<le> 264" by (simp add: DIRSIZ_def DIR_REC_LEN_def)
  show "unat (d_namlen e) + 9 \<le> DIRSIZ e" by (simp add: DIRSIZ_def DIR_REC_LEN_def)
qed

lemma DIRSIZ_reclen [simp]: "DIRSIZ (e\<lparr>d_reclen := x\<rparr>) = DIRSIZ e"
  by (simp add: DIRSIZ_def)

lemma length_direct_bytes [simp]: "length (direct_bytes dp) = 8 + length (d_name dp)"
  by (simp add: direct_bytes_def)

lemma get_byte: "get LE [b] = (b :: byte)"
  by (simp add: get_def)

lemma at_prefix: "at bs off m = at bs' off m \<Longrightarrow> i + n \<le> m \<Longrightarrow> at (drop off bs) i n = at (drop off bs') i n"
proof -
  assume a: "at bs off m = at bs' off m" "i + n \<le> m"
  have "at (drop off xs) i n = take n (drop i (at xs off m))" for xs
    using a(2) by (simp add: at_def drop_take min_def)
  then show ?thesis using a(1) by simp
qed

lemma read_direct_bytes: "read_direct (direct_bytes dp) = dp"
  by (simp add: read_direct_def direct_bytes_def at_def get_put get_byte)

lemma read_direct_take:
  assumes "take n mem = take n mem'" "8 \<le> n"
  shows "d_ino (read_direct mem) = d_ino (read_direct mem')" "d_reclen (read_direct mem) = d_reclen (read_direct mem')"
    "d_type (read_direct mem) = d_type (read_direct mem')" "d_namlen (read_direct mem) = d_namlen (read_direct mem')"
    "take (n - 8) (d_name (read_direct mem)) = take (n - 8) (d_name (read_direct mem'))"
proof -
  have a: "at mem i k = at mem' i k" if "i + k \<le> 8" for i k
    using at_prefix [of mem 0 n mem' i k] assms that by (simp add: at_def)
  show "d_ino (read_direct mem) = d_ino (read_direct mem')" "d_reclen (read_direct mem) = d_reclen (read_direct mem')"
    "d_type (read_direct mem) = d_type (read_direct mem')" "d_namlen (read_direct mem) = d_namlen (read_direct mem')"
    using a by (simp_all add: read_direct_def)
  have "take (n - 8) (drop 8 m) = drop 8 (take n m)" for m :: "byte list" by (simp add: drop_take)
  then show "take (n - 8) (d_name (read_direct mem)) = take (n - 8) (d_name (read_direct mem'))"
    using assms(1) by (simp add: read_direct_def)
qed

lemma stored_read:
  assumes "stored buf off rl e" "rl < 2 ^ 16"
  shows "same_entry (read_direct (drop off buf)) e" "unat (d_reclen (read_direct (drop off buf))) = rl"
proof -
  have "take (DIRSIZ e) (drop off buf) = take (DIRSIZ e) (direct_bytes (e\<lparr>d_reclen := of_nat rl\<rparr>))"
    using assms(1) by (simp add: stored_def at_def)
  moreover have "8 \<le> DIRSIZ e" using DIRSIZ_pos [of e] by simp
  ultimately have a: "same_entry (read_direct (drop off buf)) e" "d_reclen (read_direct (drop off buf)) = of_nat rl"
    using read_direct_take [of "DIRSIZ e" "drop off buf" "direct_bytes (e\<lparr>d_reclen := of_nat rl\<rparr>)"]
    by (simp_all add: read_direct_bytes same_entry_def)
  then show "same_entry (read_direct (drop off buf)) e" by simp
  have "unat (of_nat rl :: u16) = rl" using assms(2) by (simp only: unat_of_nat) simp
  then show "unat (d_reclen (read_direct (drop off buf))) = rl" using a(2) by simp
qed

lemma at_take: "off + n \<le> k \<Longrightarrow> at (take k xs) off n = at xs off n"
  by (simp add: at_def drop_take min_def)

lemma chain_local: "take lim buf' = take lim buf \<Longrightarrow> chain buf lim off es fin \<Longrightarrow> chain buf' lim off es fin"
proof (induction es arbitrary: off)
  case (Cons e es)
  then obtain rl where rl: "stored buf off rl e" "good_entry e" "off + DIRSIZ e \<le> lim" "DIRSIZ e \<le> rl"
    "off + rl \<le> DIRBLKSIZ" "chain buf lim (off + rl) es fin" by auto
  have "at buf' off (DIRSIZ e) = at buf off (DIRSIZ e)"
    using at_take [OF rl(3), of buf] at_take [OF rl(3), of buf'] Cons.prems(1) by simp
  then have "stored buf' off rl e" using rl(1) by (simp add: stored_def)
  then show ?case
    unfolding chain.simps using rl Cons.IH [OF Cons.prems(1) rl(6)] by (intro exI [of _ rl]) simp
qed simp

lemma chain_mono: "chain buf lim off es fin \<Longrightarrow> lim \<le> lim' \<Longrightarrow> chain buf lim' off es fin"
proof (induction es arbitrary: off)
  case (Cons e es)
  then obtain rl where rl: "stored buf off rl e" "good_entry e" "off + DIRSIZ e \<le> lim" "DIRSIZ e \<le> rl"
    "off + rl \<le> DIRBLKSIZ" "chain buf lim (off + rl) es fin" by auto
  show ?case
    unfolding chain.simps using rl Cons.IH [OF rl(6) Cons.prems(2)] Cons.prems(2)
    by (intro exI [of _ rl]) simp
qed simp

lemma chain_append:
  "chain buf lim off (xs @ ys) fin \<longleftrightarrow> (\<exists>m. chain buf lim off xs m \<and> chain buf lim m ys fin)"
proof (induction xs arbitrary: off)
  case (Cons a xs)
  show ?case unfolding append_Cons chain.simps Cons.IH by blast
qed simp

lemma chain_le: "chain buf lim off es fin \<Longrightarrow> off \<le> fin"
proof (induction es arbitrary: off)
  case (Cons e es)
  then show ?case by (auto dest: Cons.IH)
qed simp

lemma chain_fin: "chain buf lim off es fin \<Longrightarrow> es \<noteq> [] \<Longrightarrow> off + 12 \<le> fin \<and> fin \<le> DIRBLKSIZ"
proof (induction es arbitrary: off)
  case (Cons e es)
  then obtain rl where rl: "DIRSIZ e \<le> rl" "off + rl \<le> DIRBLKSIZ" "chain buf lim (off + rl) es fin" by auto
  then show ?case using Cons.IH [OF rl(3)] DIRSIZ_pos [of e] chain_le [OF rl(3)] by (cases "es = []") auto
qed simp

lemma chain_good: "chain buf lim off es fin \<Longrightarrow> list_all good_entry es"
  by (induction es arbitrary: off) auto


section \<open>Directories in the file\<close>

text \<open>
  A directory at the start of \<open>bs\<close>: full blocks, and a last one that may be cut off behind its last
  entry.
\<close>

fun dir_at :: "byte list \<Rightarrow> direct list list \<Rightarrow> bool" where
  "dir_at bs [] \<longleftrightarrow> True"
| "dir_at bs (es # ess) \<longleftrightarrow> es \<noteq> [] \<and> length bs > 0 \<and>
     chain bs (min DIRBLKSIZ (length bs)) 0 es DIRBLKSIZ \<and>
     (ess \<noteq> [] \<longrightarrow> DIRBLKSIZ \<le> length bs \<and> dir_at (drop DIRBLKSIZ bs) ess)"

lemma dir_at_append: "dir_at bs ess \<Longrightarrow> dir_at (bs @ junk) ess"
proof (induction ess arbitrary: bs)
  case (Cons es ess)
  let ?l = "min DIRBLKSIZ (length bs)"
  have "take ?l (bs @ junk) = take ?l bs" by simp
  then have "chain (bs @ junk) ?l 0 es DIRBLKSIZ" using chain_local [of ?l "bs @ junk" bs] Cons.prems by simp
  then have "chain (bs @ junk) (min DIRBLKSIZ (length (bs @ junk))) 0 es DIRBLKSIZ" by (rule chain_mono) simp
  then show ?case using Cons by auto
qed simp

text \<open>
  The writer: \<open>es\<close> are the entries put since the file ended at \<open>base\<close>; \<open>ess\<close> those in blocks already
  written and \<open>cur\<close> those in \<open>dirbuf\<close>, the last one at \<open>prev\<close>.
\<close>

definition buffered :: "dirs \<Rightarrow> direct list \<Rightarrow> bool" where
  "buffered ds cur \<longleftrightarrow> length (dirbuf ds) = DIRBLKSIZ \<and> chain (dirbuf ds) (dirloc ds) 0 cur (dirloc ds)
     \<and> (cur \<noteq> [] \<longrightarrow> chain (dirbuf ds) (prev ds) 0 (butlast cur) (prev ds)
          \<and> stored (dirbuf ds) (prev ds) (DIRSIZ (last cur)) (last cur)
          \<and> dirloc ds = prev ds + DIRSIZ (last cur))"

definition writing :: "nat \<Rightarrow> direct list \<Rightarrow> dirs \<Rightarrow> bool" where
  "writing base es ds \<longleftrightarrow> (\<exists>ess cur. es = concat ess @ cur \<and> base \<le> length (df ds)
     \<and> dir_at (drop base (df ds)) ess \<and> length (df ds) = base + DIRBLKSIZ * length ess
     \<and> (cur = [] \<longrightarrow> ess = []) \<and> buffered ds cur)"

section \<open>Writing the entries\<close>

lemma put_take: "take 8 (direct_bytes e) = put LE 4 (d_ino e) @ put LE 2 (d_reclen e) @ [d_type e, d_namlen e]"
  by (simp add: direct_bytes_def)

lemma at_overlay_here: "off \<le> length buf \<Longrightarrow> at (overlay buf off bs) off (length bs) = bs"
  by (simp add: at_def overlay_def min_def)

lemma take_overlay: "n \<le> off \<Longrightarrow> off \<le> length buf \<Longrightarrow> take n (overlay buf off bs) = take n buf"
  by (simp add: overlay_def min_def)

lemma take_splice:
  "6 \<le> n \<Longrightarrow> n \<le> length m \<Longrightarrow> length w = 2 \<Longrightarrow>
     take n (take 4 m @ w @ drop 6 m) = take 4 (take n m) @ w @ drop 6 (take n m)"
  by (simp add: drop_take min_def)

text \<open>Writing the record length again changes nothing else.\<close>

lemma extend_stored:
  assumes "stored buf off rl e" "off + DIRSIZ e \<le> length buf" "good_entry e"
  shows "stored (overlay buf (off + 4) (put LE 2 (of_nat rl' :: u16))) off rl' e"
proof -
  let ?w = "put LE 2 (of_nat rl' :: u16)" and ?n = "DIRSIZ e"
  have n: "12 \<le> ?n" by (rule DIRSIZ_pos)
  let ?b = "\<lambda>rl. direct_bytes (e\<lparr>d_reclen := of_nat rl\<rparr>)"
  have b: "take ?n (drop off buf) = take ?n (?b rl)" using assms(1) by (simp add: stored_def at_def)
  have d: "drop off (overlay buf (off + 4) ?w) = take 4 (drop off buf) @ ?w @ drop 6 (drop off buf)"
    using assms(2) n by (simp add: overlay_def drop_take min_def add.commute)
  have l: "?n \<le> length (drop off buf)" "?n \<le> length (?b rl)" using assms(2,3) by (simp_all add: good_entry_def)
  have n6: "6 \<le> ?n" and w: "length ?w = 2" using n by simp_all
  have "take ?n (drop off (overlay buf (off + 4) ?w)) = take 4 (take ?n (?b rl)) @ ?w @ drop 6 (take ?n (?b rl))"
    unfolding d take_splice [OF n6 l(1) w] b ..
  also have "\<dots> = take ?n (take 4 (?b rl) @ ?w @ drop 6 (?b rl))" by (rule take_splice [OF n6 l(2) w, symmetric])
  also have "take 4 (?b rl) @ ?w @ drop 6 (?b rl) = ?b rl'" by (simp add: direct_bytes_def)
  finally show ?thesis by (simp add: stored_def at_def)
qed

lemma buffered_bounds:
  assumes "buffered ds cur"
  shows "length (dirbuf ds) = DIRBLKSIZ" "dirloc ds \<le> DIRBLKSIZ" "cur \<noteq> [] \<Longrightarrow> prev ds + 12 \<le> dirloc ds"
    "cur = [] \<Longrightarrow> dirloc ds = 0" "cur \<noteq> [] \<Longrightarrow> 0 < dirloc ds" "cur \<noteq> [] \<Longrightarrow> good_entry (last cur)"
proof -
  note b = assms [unfolded buffered_def]
  show "length (dirbuf ds) = DIRBLKSIZ" using b by simp
  show "dirloc ds \<le> DIRBLKSIZ"
    using b chain_fin [of "dirbuf ds" "dirloc ds" 0 cur "dirloc ds"] by (cases "cur = []") auto
  show "prev ds + 12 \<le> dirloc ds" if "cur \<noteq> []" using b that DIRSIZ_pos [of "last cur"] by simp
  then show "cur \<noteq> [] \<Longrightarrow> 0 < dirloc ds" by simp
  show "cur = [] \<Longrightarrow> dirloc ds = 0" using b by simp
  show "good_entry (last cur)" if "cur \<noteq> []"
  proof -
    have "list_all good_entry cur" using b chain_good [of "dirbuf ds" "dirloc ds" 0 cur "dirloc ds"] by simp
    then show ?thesis using that by (simp add: list_all_iff)
  qed
qed

text \<open>The block with its last entry extended holds its entries, whatever is behind them.\<close>

lemma extend_prev_chain:
  assumes b: "buffered ds cur" "cur \<noteq> []"
  shows "chain (dirbuf (extend_prev ds)) (dirloc ds) 0 cur DIRBLKSIZ" "length (dirbuf (extend_prev ds)) = DIRBLKSIZ"
    "df (extend_prev ds) = df ds" "dirloc (extend_prev ds) = dirloc ds" "df_room (extend_prev ds) = df_room ds"
    "inotab_tbl (extend_prev ds) = inotab_tbl ds" "mf (extend_prev ds) = mf ds" "seekpt (extend_prev ds) = seekpt ds"
proof -
  note bb = buffered_bounds [OF b(1)]
  let ?e = "last cur" and ?rl = "DIRBLKSIZ - prev ds"
  let ?buf = "dirbuf (extend_prev ds)"
  have buf: "?buf = overlay (dirbuf ds) (prev ds + 4) (put LE 2 (of_nat ?rl :: u16))"
    by (simp add: extend_prev_def)
  have p: "prev ds + 12 \<le> dirloc ds" "dirloc ds \<le> DIRBLKSIZ" "dirloc ds = prev ds + DIRSIZ ?e"
    using bb b by (auto simp: buffered_def)
  show "length ?buf = DIRBLKSIZ" using bb(1) p by (simp add: buf length_overlay)
  have "take (prev ds) ?buf = take (prev ds) (dirbuf ds)" using bb(1) p by (simp add: buf take_overlay)
  then have "chain ?buf (prev ds) 0 (butlast cur) (prev ds)"
    using b chain_local by (fastforce simp: buffered_def)
  then have 1: "chain ?buf (dirloc ds) 0 (butlast cur) (prev ds)" by (rule chain_mono) (use p in simp)
  have "stored ?buf (prev ds) ?rl ?e"
    unfolding buf using b bb(1) p bb(6) by (intro extend_stored) (auto simp: buffered_def)
  then have 2: "chain ?buf (dirloc ds) (prev ds) [?e] DIRBLKSIZ" using p bb(6) b(2) by auto
  have "butlast cur @ [?e] = cur" using b(2) by simp
  then show "chain ?buf (dirloc ds) 0 cur DIRBLKSIZ" using 1 2 chain_append [of ?buf "dirloc ds" 0 "butlast cur" "[?e]"] by auto
qed (simp_all add: extend_prev_def)

text \<open>An entry behind those of the block, and the first of a block.\<close>

lemma append_buffered:
  assumes b: "buffered ds cur" and e: "good_entry e" "dirloc ds + DIRSIZ e \<le> DIRBLKSIZ"
  shows "buffered (ds\<lparr>dirbuf := overlay (dirbuf ds) (dirloc ds)
            (take (DIRSIZ e) (direct_bytes (e\<lparr>d_reclen := of_nat (DIRSIZ e)\<rparr>))),
          prev := dirloc ds, dirloc := dirloc ds + DIRSIZ e\<rparr>) (cur @ [e])"
proof -
  let ?bs = "take (DIRSIZ e) (direct_bytes (e\<lparr>d_reclen := of_nat (DIRSIZ e)\<rparr>))"
  let ?buf = "overlay (dirbuf ds) (dirloc ds) ?bs"
  note bb = buffered_bounds [OF b]
  have l: "length ?bs = DIRSIZ e" using e(1) by (simp add: good_entry_def)
  have len: "length ?buf = DIRBLKSIZ" using bb(1) e(2) l by (simp add: length_overlay)
  have t: "take (dirloc ds) ?buf = take (dirloc ds) (dirbuf ds)" using bb(1,2) by (simp add: take_overlay)
  have c: "chain ?buf (dirloc ds) 0 cur (dirloc ds)"
    using b chain_local [OF t] by (simp add: buffered_def)
  have s: "stored ?buf (dirloc ds) (DIRSIZ e) e"
    using at_overlay_here [of "dirloc ds" "dirbuf ds" ?bs] bb(1,2) l by (simp add: stored_def)
  have "chain ?buf (dirloc ds + DIRSIZ e) 0 (cur @ [e]) (dirloc ds + DIRSIZ e)"
    unfolding chain_append using chain_mono [OF c, of "dirloc ds + DIRSIZ e"] s e by auto
  then show ?thesis using len c s by (simp add: buffered_def)
qed

lemma empty_buffered: "length (dirbuf ds) = DIRBLKSIZ \<Longrightarrow> buffered (ds\<lparr>dirloc := 0\<rparr>) []"
  by (simp add: buffered_def)

text \<open>Space in the file system for \<open>n\<close> more entries.\<close>

definition dir_space :: "nat \<Rightarrow> dirs \<Rightarrow> bool" where
  "dir_space n ds \<longleftrightarrow> length (df ds) + DIRBLKSIZ * (n + 1) \<le> df_room ds"

definition same_table :: "dirs \<Rightarrow> dirs \<Rightarrow> bool" where
  "same_table ds ds' \<longleftrightarrow> inotab_tbl ds' = inotab_tbl ds \<and> mf ds' = mf ds \<and> seekpt ds' = seekpt ds
     \<and> df_room ds' = df_room ds \<and> take (length (df ds)) (df ds') = df ds"

lemma dir_at_snoc:
  "dir_at bs ess \<Longrightarrow> length bs = DIRBLKSIZ * length ess \<Longrightarrow> es \<noteq> [] \<Longrightarrow> 0 < lim \<Longrightarrow> lim \<le> DIRBLKSIZ \<Longrightarrow>
     chain blk lim 0 es DIRBLKSIZ \<Longrightarrow> lim \<le> length blk \<Longrightarrow> dir_at (bs @ take lim blk) (ess @ [es])"
proof (induction ess arbitrary: bs)
  case Nil
  have "chain (take lim blk) lim 0 es DIRBLKSIZ"
    by (rule chain_local [OF _ Nil(6)]) simp
  moreover have "bs = []" "length (take lim blk) = lim" "min DIRBLKSIZ lim = lim" using Nil by simp_all
  ultimately show ?case using Nil(3,4) by simp
next
  case (Cons c ess)
  let ?x = "take lim blk"
  have l: "DIRBLKSIZ \<le> length bs" using Cons.prems(2) by simp
  have "dir_at (drop DIRBLKSIZ bs) ess" using Cons.prems by (cases "ess = []") auto
  then have "dir_at (drop DIRBLKSIZ bs @ ?x) (ess @ [es])" using Cons.IH [of "drop DIRBLKSIZ bs"] Cons.prems by simp
  moreover have "dir_at (bs @ ?x) [c]" using dir_at_append [of bs "[c]" ?x] Cons.prems by simp
  ultimately show ?case using l by simp
qed

lemma putent_writing:
  assumes w: "writing base es ds" and e: "good_entry e" and room: "dir_space (Suc n) ds"
  shows "\<exists>ds'. putent e ds = Inr ds' \<and> writing base (es @ [e]) ds' \<and> same_table ds ds' \<and> dir_space n ds'"
proof -
  obtain ess cur where s: "es = concat ess @ cur" "base \<le> length (df ds)" "dir_at (drop base (df ds)) ess"
    "length (df ds) = base + DIRBLKSIZ * length ess" "cur = [] \<longrightarrow> ess = []" "buffered ds cur"
    using w by (auto simp: writing_def)
  note bb = buffered_bounds [OF s(6)]
  have e2: "DIRSIZ e \<le> 264" by (rule DIRSIZ_bounds)
  show ?thesis
  proof (cases "dirloc ds + DIRSIZ e > DIRBLKSIZ")
    case False
    then have b': "buffered (ds\<lparr>dirbuf := overlay (dirbuf ds) (dirloc ds)
            (take (DIRSIZ e) (direct_bytes (e\<lparr>d_reclen := of_nat (DIRSIZ e)\<rparr>))),
          prev := dirloc ds, dirloc := dirloc ds + DIRSIZ e\<rparr>) (cur @ [e])" (is "buffered ?ds' _")
      using append_buffered [OF s(6) e] by simp
    have "putent e ds = Inr ?ds'" using False by (simp add: putent_def Let_def)
    moreover have "writing base (es @ [e]) ?ds'"
      unfolding writing_def using s b' by (intro exI [of _ ess] exI [of _ "cur @ [e]"]) simp
    moreover have "same_table ds ?ds'" "dir_space n ?ds'" using room by (simp_all add: same_table_def dir_space_def)
    ultimately show ?thesis by blast
  next
    case True
    then have ne: "cur \<noteq> []" using bb(4) e2 by (auto simp: DIRBLKSIZ_def)
    let ?d1 = "extend_prev ds"
    note x = extend_prev_chain [OF s(6) ne]
    let ?d2 = "?d1\<lparr>df := df ds @ dirbuf ?d1\<rparr>\<lparr>dirloc := 0\<rparr>"
    have b2: "buffered ?d2 []" using x(2) by (simp add: buffered_def)
    have b': "buffered (?d2\<lparr>dirbuf := overlay (dirbuf ?d2) 0
            (take (DIRSIZ e) (direct_bytes (e\<lparr>d_reclen := of_nat (DIRSIZ e)\<rparr>))),
          prev := 0, dirloc := DIRSIZ e\<rparr>) [e]" (is "buffered ?ds' _")
      using append_buffered [OF b2 e] e2 by (simp add: DIRBLKSIZ_def)
    have ok: "df_write (take DIRBLKSIZ (dirbuf ?d1)) ?d1 = Inr (?d1\<lparr>df := df ds @ dirbuf ?d1\<rparr>)"
      using x room by (simp add: df_write_def dir_space_def)
    have "putent e ds = Inr ?ds'" using True ok by (simp add: putent_def Let_def)
    moreover have "writing base (es @ [e]) ?ds'"
    proof -
      have "dir_at (drop base (df ds) @ take DIRBLKSIZ (dirbuf ?d1)) (ess @ [cur])"
        using s(2-4) ne x(2) bb(2) chain_mono [OF x(1), of DIRBLKSIZ]
        by (intro dir_at_snoc) (simp_all add: DIRBLKSIZ_def)
      then have "dir_at (drop base (df ?ds')) (ess @ [cur])" using s(2) x(2) by simp
      then show ?thesis
        unfolding writing_def using s(1,2,4) x(2) b' ne
        by (intro exI [of _ "ess @ [cur]"] exI [of _ "[e]"]) simp
    qed
    moreover have "same_table ds ?ds'" "dir_space n ?ds'"
      using room x by (simp_all add: same_table_def dir_space_def)
    ultimately show ?thesis by blast
  qed
qed

lemma same_table_trans: "same_table a b \<Longrightarrow> same_table b c \<Longrightarrow> same_table a c"
  unfolding same_table_def
  by (metis (no_types, lifting) min.absorb1 nle_le take_all take_take)

lemma putents_writing:
  "writing base es ds \<Longrightarrow> list_all good_entry new \<Longrightarrow> dir_space (length new + n) ds \<Longrightarrow>
     \<exists>ds'. putents new ds = Inr ds' \<and> writing base (es @ new) ds' \<and> same_table ds ds' \<and> dir_space n ds'"
proof (induction new arbitrary: es ds)
  case Nil
  then show ?case by (auto simp: same_table_def)
next
  case (Cons e new)
  obtain d1 where d1: "putent e ds = Inr d1" "writing base (es @ [e]) d1" "same_table ds d1"
    "dir_space (length new + n) d1"
    using putent_writing [OF Cons.prems(1), of e "length new + n"] Cons.prems by auto
  obtain ds' where d2: "putents new d1 = Inr ds'" "writing base ((es @ [e]) @ new) ds'" "same_table d1 ds'"
    "dir_space n ds'"
    using Cons.IH [OF d1(2) _ d1(4)] Cons.prems(2) by auto
  then show ?case using d1 same_table_trans [OF d1(3) d2(3)] by auto
qed

lemma flushent_writing:
  assumes w: "writing base es ds" "es \<noteq> []" and room: "dir_space n ds"
  shows "\<exists>ds' ess. flushent ds = Inr ds' \<and> concat ess = es \<and> dir_at (drop base (df ds')) ess
    \<and> inotab_tbl ds' = inotab_tbl ds \<and> mf ds' = mf ds \<and> df_room ds' = df_room ds
    \<and> take (length (df ds)) (df ds') = df ds \<and> seekpt ds' = length (df ds') \<and> base < seekpt ds'
    \<and> writing (seekpt ds') [] ds' \<and> length (df ds') \<le> length (df ds) + DIRBLKSIZ"
proof -
  obtain ess cur where s: "es = concat ess @ cur" "base \<le> length (df ds)" "dir_at (drop base (df ds)) ess"
    "length (df ds) = base + DIRBLKSIZ * length ess" "cur = [] \<longrightarrow> ess = []" "buffered ds cur"
    using w by (auto simp: writing_def)
  have ne: "cur \<noteq> []" using s w(2) by auto
  note x = extend_prev_chain [OF s(6) ne] and bb = buffered_bounds [OF s(6)]
  let ?d1 = "extend_prev ds"
  let ?out = "take (dirloc ds) (dirbuf ?d1)"
  let ?ds' = "?d1\<lparr>df := df ds @ ?out\<rparr>\<lparr>seekpt := length (df ds @ ?out), dirloc := 0\<rparr>"
  have l: "length ?out = dirloc ds" using x(2) bb(2) by simp
  have "df_write ?out ?d1 = Inr (?d1\<lparr>df := df ds @ ?out\<rparr>)"
    using x bb(2) room by (simp add: df_write_def dir_space_def)
  then have f: "flushent ds = Inr ?ds'" using bb(5) [OF ne] x by (simp add: flushent_def Let_def)
  have "dir_at (drop base (df ds) @ ?out) (ess @ [cur])"
    using s(2-4) ne x bb(2) bb(5) [OF ne] by (intro dir_at_snoc) simp_all
  then have "dir_at (drop base (df ?ds')) (ess @ [cur])" using s(2) by simp
  moreover have "writing (seekpt ?ds') [] ?ds'"
    unfolding writing_def using x(2) by (intro exI [of _ "[]"]) (simp add: buffered_def)
  ultimately show ?thesis
    using f s bb(2) bb(5) [OF ne] x l by (intro exI [of _ ?ds'] exI [of _ "ess @ [cur]"]) simp
qed

section \<open>Reading the entries back\<close>

text \<open>
  The entries that follow an offset \<open>p\<close> of the directory at \<open>base\<close>, and a descriptor that is there:
  it has yet to read the block, or has the block in its buffer.
\<close>

definition block_at :: "byte list \<Rightarrow> nat \<Rightarrow> nat \<Rightarrow> byte list" where
  "block_at fd base k = at fd (base + DIRBLKSIZ * k) DIRBLKSIZ"

definition at_pos :: "byte list \<Rightarrow> nat \<Rightarrow> nat \<Rightarrow> direct list \<Rightarrow> bool" where
  "at_pos fd base p es \<longleftrightarrow> (\<exists>c ess. es = c @ concat ess \<and>
     (if p mod DIRBLKSIZ = 0 then c = [] \<and> dir_at (drop (base + p) fd) ess
      else let bs = block_at fd base (p div DIRBLKSIZ)
           in chain bs (length bs) (p mod DIRBLKSIZ) c DIRBLKSIZ
              \<and> (ess \<noteq> [] \<longrightarrow> dir_at (drop (base + DIRBLKSIZ * Suc (p div DIRBLKSIZ)) fd) ess)))"

definition loaded :: "byte list \<Rightarrow> nat \<Rightarrow> nat \<Rightarrow> rst_dir \<Rightarrow> bool" where
  "loaded fd base k d \<longleftrightarrow> dd_size d = length (block_at fd base k)
     \<and> take (dd_size d) (dd_buf d) = block_at fd base k \<and> dd_cur d = base + DIRBLKSIZ * k + dd_size d"

definition stands :: "byte list \<Rightarrow> nat \<Rightarrow> rst_dir \<Rightarrow> nat \<Rightarrow> bool" where
  "stands fd base d p \<longleftrightarrow> length (dd_buf d) = DIRBLKSIZ
     \<and> (\<exists>k. p = DIRBLKSIZ * k + dd_loc d \<and> 0 < dd_loc d \<and> dd_loc d \<le> DIRBLKSIZ \<and> loaded fd base k d)"

definition dpos :: "byte list \<Rightarrow> nat \<Rightarrow> rst_dir \<Rightarrow> nat \<Rightarrow> bool" where
  "dpos fd base d p \<longleftrightarrow> length (dd_buf d) = DIRBLKSIZ \<and>
     ((dd_loc d = 0 \<or> dd_size d \<le> dd_loc d) \<and> dd_cur d = base + p \<and> p mod DIRBLKSIZ = 0
      \<or> stands fd base d p)"

definition terminator :: "direct \<Rightarrow> bool" where
  "terminator e \<longleftrightarrow> d_ino e = 0 \<and> d_namlen e = 1 \<and> take 2 (d_name e) = [slash, 0]"

lemma loaded_loc [simp]: "loaded fd base k (d\<lparr>dd_loc := x\<rparr>) = loaded fd base k d"
  by (simp add: loaded_def)

lemma length_block_at: "length (block_at fd base k) \<le> DIRBLKSIZ"
  by (simp add: block_at_def at_def)

text \<open>The next entry of a block in the buffer.\<close>

lemma readdir_in_block:
  assumes d: "cur_block fd d0 = d" and c: "chain buf lim (dd_loc d) (e # es) DIRBLKSIZ"
    and b: "take lim (dd_buf d) = take lim buf" "lim \<le> dd_size d"
  shows "\<exists>dp rl. same_entry dp e \<and> 0 < rl \<and> chain buf lim (dd_loc d + rl) es DIRBLKSIZ
    \<and> dd_loc d + rl \<le> DIRBLKSIZ
    \<and> rst_readdir maxino fd d0 =
        (let d' = d\<lparr>dd_loc := dd_loc d + rl\<rparr>
         in if d_ino e = 0 \<and> c_str (d_name dp) = [slash] then (None, d')
            else if d_ino e \<ge> maxino then rst_readdir maxino fd d' else (Some dp, d'))"
proof -
  obtain rl where rl: "stored buf (dd_loc d) rl e" "good_entry e" "dd_loc d + DIRSIZ e \<le> lim"
    "DIRSIZ e \<le> rl" "dd_loc d + rl \<le> DIRBLKSIZ" "chain buf lim (dd_loc d + rl) es DIRBLKSIZ"
    using c by auto
  have "at (dd_buf d) (dd_loc d) (DIRSIZ e) = at buf (dd_loc d) (DIRSIZ e)"
    using at_take [OF rl(3), of buf] at_take [OF rl(3), of "dd_buf d"] b(1) by simp
  then have st: "stored (dd_buf d) (dd_loc d) rl e" using rl(1) by (simp add: stored_def)
  let ?dp = "read_direct (drop (dd_loc d) (dd_buf d))"
  have "rl < 2 ^ 16" using rl(5) by (simp add: DIRBLKSIZ_def)
  note s = stored_read [OF st this]
  have n: "12 \<le> DIRSIZ e" by (rule DIRSIZ_pos)
  have nz: "d_reclen ?dp \<noteq> 0" using s(2) rl(4) n by (metis le_zero_eq not_numeral_le_zero order_trans unat_0)
  have i: "d_ino ?dp = d_ino e" using s(1) by (simp add: same_entry_def)
  have "\<not> dd_size d \<le> dd_loc d" "\<not> unat (d_reclen ?dp) + dd_loc d > DIRBLKSIZ + 1"
    using rl n s(2) b(2) by linarith+
  then have "rst_readdir maxino fd d0 =
        (let d' = d\<lparr>dd_loc := dd_loc d + rl\<rparr>
         in if d_ino e = 0 \<and> c_str (d_name ?dp) = [slash] then (None, d')
            else if d_ino e \<ge> maxino then rst_readdir maxino fd d' else (Some ?dp, d'))"
    using d nz i s(2) by (subst rst_readdir.simps) (simp add: Let_def)
  then show ?thesis using s(1) rl(4-6) n by (intro exI [of _ ?dp] exI [of _ rl]) simp
qed

lemma load_block:
  assumes "length (dd_buf d) = DIRBLKSIZ" "dd_loc d = 0" "dd_cur d = base + DIRBLKSIZ * k"
  shows "loaded fd base k (cur_block fd d)" "length (dd_buf (cur_block fd d)) = DIRBLKSIZ"
proof -
  have l: "length (at fd (dd_cur d) DIRBLKSIZ) \<le> DIRBLKSIZ" by (simp add: at_def)
  show "length (dd_buf (cur_block fd d)) = DIRBLKSIZ"
    using assms(1,2) l by (simp add: cur_block_def read_block_def Let_def length_overlay)
  show "loaded fd base k (cur_block fd d)"
    using assms l by (simp add: loaded_def cur_block_def read_block_def Let_def block_at_def overlay_def)
qed

lemma take_prefix: "take (length (take n xs)) (take n (xs @ ys)) = take n xs"
  by (cases "n \<le> length xs") auto

lemma block_prefix:
  assumes "loaded (fd0 @ junk) base k d"
  shows "take (length (block_at fd0 base k)) (dd_buf d) = block_at fd0 base k"
    "length (block_at fd0 base k) \<le> dd_size d"
proof -
  let ?full = "block_at (fd0 @ junk) base k" and ?part = "block_at fd0 base k"
  have l: "dd_size d = length ?full" "take (dd_size d) (dd_buf d) = ?full" using assms unfolding loaded_def by blast+
  have p: "take (length ?part) ?full = ?part" "length ?part \<le> length ?full"
    unfolding block_at_def at_def drop_append take_prefix by simp_all
  have "take (length ?part) (take (dd_size d) (dd_buf d)) = take (length ?part) (dd_buf d)"
    using p(2) unfolding l(1) by (simp add: min_def)
  then show "take (length ?part) (dd_buf d) = ?part" unfolding l(2) using p(1) by simp
  show "length ?part \<le> dd_size d" unfolding l(1) by (rule p(2))
qed

lemma at_pos_block:
  assumes "dir_at (drop (base + DIRBLKSIZ * k) fd) (c # ess)"
  shows "chain (block_at fd base k) (length (block_at fd base k)) 0 c DIRBLKSIZ" "c \<noteq> []"
    "ess \<noteq> [] \<Longrightarrow> dir_at (drop (base + DIRBLKSIZ * Suc k) fd) ess" "base + DIRBLKSIZ * k < length fd"
    "ess \<noteq> [] \<Longrightarrow> length (block_at fd base k) = DIRBLKSIZ"
proof -
  let ?bs = "drop (base + DIRBLKSIZ * k) fd"
  have b: "block_at fd base k = take (min DIRBLKSIZ (length ?bs)) ?bs"
    by (metis at_def block_at_def nle_le min_def take_all)
  have "take (min DIRBLKSIZ (length ?bs)) (block_at fd base k) = take (min DIRBLKSIZ (length ?bs)) ?bs"
    unfolding b by simp
  then have "chain (block_at fd base k) (min DIRBLKSIZ (length ?bs)) 0 c DIRBLKSIZ"
    using chain_local [of "min DIRBLKSIZ (length ?bs)" "block_at fd base k" ?bs] assms by simp
  moreover have "length (block_at fd base k) = min DIRBLKSIZ (length ?bs)" unfolding b by simp
  ultimately show "chain (block_at fd base k) (length (block_at fd base k)) 0 c DIRBLKSIZ" by simp
  show "c \<noteq> []" "base + DIRBLKSIZ * k < length fd" using assms by auto
  have e: "base + DIRBLKSIZ * Suc k = DIRBLKSIZ + (base + DIRBLKSIZ * k)" by simp
  show "dir_at (drop (base + DIRBLKSIZ * Suc k) fd) ess" if "ess \<noteq> []"
    unfolding e using assms that by simp
  show "length (block_at fd base k) = DIRBLKSIZ" if "ess \<noteq> []" using assms that unfolding b by simp
qed

text \<open>
  One call of \<open>rst_readdir\<close> up to the entry that it looks at first; the directory is in the first part
  \<open>fd0\<close> of the file.
\<close>

definition next_step :: "dump_ino_t \<Rightarrow> byte list \<Rightarrow> byte list \<Rightarrow> nat \<Rightarrow> rst_dir \<Rightarrow> nat \<Rightarrow> direct \<Rightarrow> direct list \<Rightarrow> bool" where
  "next_step maxino fd fd0 base d p e es \<longleftrightarrow> (\<exists>dp d' p'. same_entry dp e \<and> stands fd base d' p' \<and> at_pos fd0 base p' es \<and> p < p'
     \<and> rst_readdir maxino fd d =
         (if d_ino e = 0 \<and> c_str (d_name dp) = [slash] then (None, d')
          else if d_ino e \<ge> maxino then rst_readdir maxino fd d' else (Some dp, d')))"

lemma stands_telldir: "stands fd base d p \<Longrightarrow> rst_telldir d = int (base + p)"
  by (auto simp: stands_def loaded_def rst_telldir_def)

lemma stands_dpos: "stands fd base d p \<Longrightarrow> dpos fd base d p"
  by (auto simp: dpos_def stands_def)

lemma next_step_block:
  assumes d: "cur_block fd d0 = d" "rst_readdir maxino fd d00 = rst_readdir maxino fd d0" and fd: "fd = fd0 @ junk"
    and l: "loaded fd base k d" "length (dd_buf d) = DIRBLKSIZ"
    and c: "chain (block_at fd0 base k) (length (block_at fd0 base k)) (dd_loc d) (e # es) DIRBLKSIZ"
    and ess: "ess \<noteq> [] \<Longrightarrow> dir_at (drop (base + DIRBLKSIZ * Suc k) fd0) ess"
  shows "next_step maxino fd fd0 base d00 (DIRBLKSIZ * k + dd_loc d) e (es @ concat ess)"
proof -
  let ?b = "block_at fd0 base k"
  note pre = block_prefix [OF l(1) [unfolded fd]]
  have "take (length ?b) (dd_buf d) = take (length ?b) ?b" using pre(1) by simp
  then obtain dp rl where r: "same_entry dp e" "0 < rl" "chain ?b (length ?b) (dd_loc d + rl) es DIRBLKSIZ"
    "dd_loc d + rl \<le> DIRBLKSIZ"
    "rst_readdir maxino fd d0 = (let d' = d\<lparr>dd_loc := dd_loc d + rl\<rparr>
         in if d_ino e = 0 \<and> c_str (d_name dp) = [slash] then (None, d')
            else if d_ino e \<ge> maxino then rst_readdir maxino fd d' else (Some dp, d'))"
    using readdir_in_block [OF d(1) c _ pre(2)] by blast
  let ?d' = "d\<lparr>dd_loc := dd_loc d + rl\<rparr>" and ?p = "DIRBLKSIZ * k + (dd_loc d + rl)"
  have l': "loaded fd base k ?d'" using l(1) by simp
  have "at_pos fd0 base ?p (es @ concat ess)"
  proof (cases "dd_loc d + rl = DIRBLKSIZ")
    case True
    then have "es = []" using r(3) chain_fin [of ?b "length ?b" DIRBLKSIZ es DIRBLKSIZ] by auto
    moreover have m: "?p mod DIRBLKSIZ = 0" and b: "base + ?p = base + DIRBLKSIZ * Suc k" using True by simp_all
    moreover have "dir_at (drop (base + DIRBLKSIZ * Suc k) fd0) ess" using ess by (cases "ess = []") simp_all
    ultimately show ?thesis
      unfolding at_pos_def if_P [OF m] b by (intro exI [of _ "[]"] exI [of _ ess] conjI) simp_all
  next
    case False
    then have lt: "dd_loc d + rl < DIRBLKSIZ" using r(4) by simp
    have p: "?p mod DIRBLKSIZ = dd_loc d + rl" "?p div DIRBLKSIZ = k"
      using lt mod_mult_self4 [of DIRBLKSIZ k "dd_loc d + rl"] by simp_all
    show ?thesis
      unfolding at_pos_def Let_def p using ess r(2,3) by (intro exI [of _ es] exI [of _ ess]) simp
  qed
  moreover have "stands fd base ?d' ?p" using l' l(2) r(2,4) by (auto simp: stands_def)
  ultimately show ?thesis
    unfolding next_step_def d(2) using r
    by (intro exI [of _ dp] exI [of _ ?d'] exI [of _ ?p]) (auto simp: Let_def)
qed

lemma readdir_next:
  assumes fd: "fd = fd0 @ junk" and d: "dpos fd base d p" and e: "at_pos fd0 base p (e # es)"
  shows "next_step maxino fd fd0 base d p e es"
proof (cases "p mod DIRBLKSIZ = 0")
  case True
  then obtain k where k: "p = DIRBLKSIZ * k" by (auto elim: dvdE simp: mod_eq_0_iff_dvd)
  obtain ess where ess: "e # es = concat ess" "dir_at (drop (base + DIRBLKSIZ * k) fd0) ess"
    using e k by (auto simp: at_pos_def)
  then obtain c ess' where c: "ess = c # ess'" by (cases ess) auto
  note b = at_pos_block [OF ess(2) [unfolded c]]
  obtain c' where c': "c = e # c'" "es = c' @ concat ess'" using ess(1) b(2) c by (cases c) auto
  have buf: "length (dd_buf d) = DIRBLKSIZ" and cur: "dd_cur d = base + DIRBLKSIZ * k"
    and loc: "dd_loc d = 0 \<or> dd_size d \<le> dd_loc d"
  proof -
    show "length (dd_buf d) = DIRBLKSIZ" using d by (simp add: dpos_def)
    have "(dd_loc d = 0 \<or> dd_size d \<le> dd_loc d) \<and> dd_cur d = base + DIRBLKSIZ * k"
      using d unfolding dpos_def stands_def k
    proof (elim conjE disjE exE)
      fix k' assume a: "DIRBLKSIZ * k = DIRBLKSIZ * k' + dd_loc d" "0 < dd_loc d" "dd_loc d \<le> DIRBLKSIZ"
        "loaded fd base k' d"
      have "dd_loc d = DIRBLKSIZ" using a(1-3)
        by (metis dvd_add_right_iff dvd_imp_le dvd_triv_left le_antisym)
      then have "k = Suc k'" using a(1) by (simp add: DIRBLKSIZ_def)
      then have "base + DIRBLKSIZ * k' + DIRBLKSIZ < length fd" using b(4) fd by simp
      then have "length (block_at fd base k') = DIRBLKSIZ" by (simp add: block_at_def at_def)
      then show ?thesis using a(4) \<open>k = Suc k'\<close> \<open>dd_loc d = DIRBLKSIZ\<close> by (simp add: loaded_def)
    qed auto
    then show "dd_loc d = 0 \<or> dd_size d \<le> dd_loc d" "dd_cur d = base + DIRBLKSIZ * k" by auto
  qed
  let ?d0 = "d\<lparr>dd_loc := 0\<rparr>"
  have again: "rst_readdir maxino fd d = rst_readdir maxino fd ?d0"
  proof (cases "dd_loc d = 0")
    case True
    then have "?d0 = d" by simp
    then show ?thesis by simp
  next
    case False
    then show ?thesis using loc by (subst rst_readdir.simps) (simp add: cur_block_def Let_def)
  qed
  have l: "loaded fd base k (cur_block fd ?d0)" "length (dd_buf (cur_block fd ?d0)) = DIRBLKSIZ"
    using load_block [of ?d0 base k fd] buf cur by simp_all
  have "next_step maxino fd fd0 base d (DIRBLKSIZ * k + dd_loc (cur_block fd ?d0)) e (c' @ concat ess')"
    using b(1,3) c' by (intro next_step_block [OF refl again fd l]) simp_all
  then show ?thesis using k c' by simp
next
  case False
  let ?k = "p div DIRBLKSIZ"
  let ?bs = "block_at fd0 base ?k"
  obtain c ess where c: "e # es = c @ concat ess" "chain ?bs (length ?bs) (p mod DIRBLKSIZ) c DIRBLKSIZ"
    "ess \<noteq> [] \<longrightarrow> dir_at (drop (base + DIRBLKSIZ * Suc ?k) fd0) ess"
    using e False by (auto simp: at_pos_def Let_def)
  have "c \<noteq> []" using c(2) by (auto simp: DIRBLKSIZ_def)
  then obtain c' where c': "c = e # c'" "es = c' @ concat ess" using c(1) by (cases c) auto
  obtain k where k: "p = DIRBLKSIZ * k + dd_loc d" "0 < dd_loc d" "dd_loc d \<le> DIRBLKSIZ" "loaded fd base k d"
    "length (dd_buf d) = DIRBLKSIZ"
    using d False by (auto simp: dpos_def stands_def)
  have "dd_loc d \<noteq> DIRBLKSIZ" using k(1) False by auto
  then have m: "p mod DIRBLKSIZ = dd_loc d" "?k = k" using k by simp_all
  have d1: "cur_block fd d = d" using k(2) by (simp add: cur_block_def)
  have "next_step maxino fd fd0 base d (DIRBLKSIZ * k + dd_loc d) e (c' @ concat ess)"
    using c c' m by (intro next_step_block [OF d1 refl fd k(4,5)]) simp_all
  then show ?thesis using k(1) c' by simp
qed

text \<open>The end, and the entries that are passed over or delivered.\<close>

lemma terminator_name:
  assumes "same_entry dp e" "terminator e"
  shows "c_str (d_name dp) = [slash]"
proof -
  have "DIRSIZ e - 8 = 4" using assms(2) by (simp add: DIRSIZ_def terminator_def DIR_REC_LEN_def)
  then have "take 4 (d_name dp) = take 4 (d_name e)" using assms(1) by (simp add: same_entry_def)
  then have "take 2 (take 4 (d_name dp)) = take 2 (take 4 (d_name e))" by simp
  then have "take 2 (d_name dp) = [slash, 0]" using assms(2) by (simp add: terminator_def)
  then obtain rest where "d_name dp = slash # 0 # rest" by (metis append_Cons append_Nil append_take_drop_id)
  then show ?thesis by (simp add: c_str_def slash_def)
qed

lemma at_pos_inside: "at_pos fd base p (e # es) \<Longrightarrow> base + p < length fd"
proof (cases "p mod DIRBLKSIZ = 0")
  case True
  assume "at_pos fd base p (e # es)"
  then obtain ess where "e # es = concat ess" "dir_at (drop (base + p) fd) ess" using True by (auto simp: at_pos_def)
  then show ?thesis by (cases ess) auto
next
  case False
  let ?k = "p div DIRBLKSIZ" and ?o = "p mod DIRBLKSIZ"
  let ?bs = "block_at fd base ?k"
  assume "at_pos fd base p (e # es)"
  then obtain c ess where c: "e # es = c @ concat ess" "chain ?bs (length ?bs) ?o c DIRBLKSIZ"
    using False by (auto simp: at_pos_def Let_def)
  have "c \<noteq> []" using c(2) by (auto simp: DIRBLKSIZ_def)
  then have "?o < length ?bs" using c(2) DIRSIZ_pos [of "hd c"] by (cases c) auto
  then have "?o < length fd - (base + DIRBLKSIZ * ?k)" by (simp add: block_at_def at_def)
  moreover have "DIRBLKSIZ * ?k + ?o = p" by (rule mult_div_mod_eq)
  ultimately show ?thesis by linarith
qed

lemma at_pos_end: "at_pos fd base p [] \<Longrightarrow> p mod DIRBLKSIZ = 0"
  by (auto simp: at_pos_def Let_def DIRBLKSIZ_def split: if_splits)

lemma same_entry_matches: "same_entry dp e \<Longrightarrow> name_matches name dp = name_matches name e"
proof -
  assume a: "same_entry dp e"
  then have n: "d_namlen dp = d_namlen e" and t: "take (DIRSIZ e - 8) (d_name dp) = take (DIRSIZ e - 8) (d_name e)"
    by (simp_all add: same_entry_def)
  have "take k (d_name dp) = take k (d_name e)" if "k \<le> DIRSIZ e - 8" for k
    using t that by (metis min.absorb1 take_take)
  moreover have "unat (d_namlen e) \<le> DIRSIZ e - 8" using DIRSIZ_bounds(1) [of e] by simp
  ultimately show ?thesis using n by (auto simp: name_matches_def)
qed

text \<open>The entries that a search can find, and where it leaves the descriptor.\<close>

definition visible :: "dump_ino_t \<Rightarrow> direct list \<Rightarrow> direct list" where
  "visible maxino es = filter (\<lambda>e. d_ino e < maxino) es"

lemma search_loop_finds:
  assumes fd: "fd = fd0 @ junk" and t: "terminator t"
  shows "dpos fd base d p \<Longrightarrow> at_pos fd0 base p (live @ [t]) \<Longrightarrow> list_all (\<lambda>e. d_ino e \<noteq> 0) live \<Longrightarrow>
    \<exists>dp d' p'. search_loop maxino fd name d = (dp, d') \<and> stands fd base d' p' \<and> p < p' \<and>
      (case find (name_matches name) (visible maxino live) of
         None \<Rightarrow> dp = None \<and> p' mod DIRBLKSIZ = 0
       | Some e \<Rightarrow> base + p' < length fd0 \<and> (\<exists>x. dp = Some x \<and> same_entry x e))"
proof (induction live arbitrary: d p)
  case Nil
  obtain dp d' p' where s: "same_entry dp t" "stands fd base d' p'" "at_pos fd0 base p' []" "p < p'"
    "rst_readdir maxino fd d =
         (if d_ino t = 0 \<and> c_str (d_name dp) = [slash] then (None, d')
          else if d_ino t \<ge> maxino then rst_readdir maxino fd d' else (Some dp, d'))"
    using readdir_next [OF fd Nil(1), of t "[]" maxino] Nil(2) unfolding next_step_def append_Nil by blast
  have "rst_readdir maxino fd d = (None, d')"
    using s(5) terminator_name [OF s(1) t] t by (simp add: terminator_def)
  then have "search_loop maxino fd name d = (None, d')" by (subst search_loop.simps) simp
  then show ?case using s at_pos_end [OF s(3)] by (auto simp: visible_def)
next
  case (Cons e live)
  obtain dp d' p' where s: "same_entry dp e" "stands fd base d' p'" "at_pos fd0 base p' (live @ [t])" "p < p'"
    "rst_readdir maxino fd d =
         (if d_ino e = 0 \<and> c_str (d_name dp) = [slash] then (None, d')
          else if d_ino e \<ge> maxino then rst_readdir maxino fd d' else (Some dp, d'))"
    using readdir_next [OF fd Cons.prems(1), of e "live @ [t]" maxino] Cons.prems(2)
    unfolding next_step_def append_Cons by blast
  have nz: "d_ino e \<noteq> 0" using Cons.prems(3) by simp
  note IH = Cons.IH [OF stands_dpos [OF s(2)] s(3)]
  show ?case
  proof (cases "d_ino e < maxino")
    case False
    then have "rst_readdir maxino fd d = rst_readdir maxino fd d'" using s(5) nz by (simp add: not_less)
    then have "search_loop maxino fd name d = search_loop maxino fd name d'"
      by (subst (1 2) search_loop.simps) simp
    moreover have "visible maxino (e # live) = visible maxino live" using False by (simp add: visible_def)
    ultimately show ?thesis using IH Cons.prems(3) s(4) by (auto intro: less_trans)
  next
    case True
    then have "\<not> maxino \<le> d_ino e" by (simp add: not_le)
    then have r: "rst_readdir maxino fd d = (Some dp, d')" using s(5) nz by simp
    have v: "visible maxino (e # live) = e # visible maxino live" using True by (simp add: visible_def)
    show ?thesis
    proof (cases "name_matches name e")
      case m: True
      then have "search_loop maxino fd name d = (Some dp, d')"
        using r same_entry_matches [OF s(1)] by (subst search_loop.simps) simp
      moreover have "base + p' < length fd0" using s(3) at_pos_inside by (cases live) auto
      ultimately show ?thesis using s v m by auto
    next
      case m: False
      then have "search_loop maxino fd name d = search_loop maxino fd name d'"
        using r same_entry_matches [OF s(1)] by (subst search_loop.simps) simp
      then show ?thesis using IH Cons.prems(3) s(4) v m by (auto intro: less_trans)
    qed
  qed
qed


section \<open>The directories of the table\<close>

text \<open>
  A file with a table of directories: each has an extent of its own, with its entries and the
  terminator.  A descriptor is parked when the early return of \<open>rst_seekdir\<close> is harmless for the
  start of each of them.
\<close>

definition dir_in :: "byte list \<Rightarrow> nat \<Rightarrow> nat \<Rightarrow> direct list \<Rightarrow> bool" where
  "dir_in fd base n live \<longleftrightarrow> base + n \<le> length fd \<and> list_all (\<lambda>e. d_ino e \<noteq> 0) live \<and>
     (\<exists>ess t. concat ess = live @ [t] \<and> terminator t \<and> dir_at (take n (drop base fd)) ess)"

definition extents_ok :: "byte list \<Rightarrow> inotabs \<Rightarrow> bool" where
  "extents_ok fd tab \<longleftrightarrow> (\<forall>i x. inotablookup i tab = Some x \<longrightarrow> t_seekpt x + t_size x \<le> length fd \<and> 0 < t_size x) \<and>
     (\<forall>i j x y. inotablookup i tab = Some x \<and> inotablookup j tab = Some y \<longrightarrow>
        \<not> (t_seekpt x < t_seekpt y \<and> t_seekpt y < t_seekpt x + t_size x))"

definition dir_table :: "byte list \<Rightarrow> inotabs \<Rightarrow> (dump_ino_t \<Rightarrow> direct list option) \<Rightarrow> bool" where
  "dir_table fd tab D \<longleftrightarrow> extents_ok fd tab \<and>
     (\<forall>i. case inotablookup i tab of
            None \<Rightarrow> D i = None
          | Some x \<Rightarrow> (\<exists>live. D i = Some live \<and> dir_in fd (t_seekpt x) (t_size x) live))"

definition parked :: "byte list \<Rightarrow> inotabs \<Rightarrow> rst_dir \<Rightarrow> bool" where
  "parked fd tab d \<longleftrightarrow> length (dd_buf d) = DIRBLKSIZ \<and>
     (\<forall>i x. inotablookup i tab = Some x \<and> rst_telldir d = int (t_seekpt x) \<longrightarrow> dpos fd (t_seekpt x) d 0)"

lemma seek_start:
  assumes "parked fd tab d" "inotablookup i tab = Some x"
  shows "dpos fd (t_seekpt x) (rst_seekdir fd (int (t_seekpt x)) (int (t_seekpt x)) d) 0"
  using assms by (auto simp: rst_seekdir_def parked_def dpos_def Let_def)

lemma stands_parked:
  assumes s: "stands fd (t_seekpt x) d p" "0 < p" and e: "extents_ok fd tab" and x: "inotablookup i tab = Some x"
    and p: "p < t_size x \<or> p mod DIRBLKSIZ = 0"
  shows "parked fd tab d"
  unfolding parked_def
proof (intro conjI allI impI)
  show "length (dd_buf d) = DIRBLKSIZ" using s(1) by (simp add: stands_def)
  fix j y assume y: "inotablookup j tab = Some y \<and> rst_telldir d = int (t_seekpt y)"
  then have b: "t_seekpt y = t_seekpt x + p" using stands_telldir [OF s(1)] by simp
  have "\<not> p < t_size x" using e x y b s(2) unfolding extents_ok_def by (metis less_add_same_cancel1 nat_add_left_cancel_less)
  then have m: "p mod DIRBLKSIZ = 0" using p by simp
  obtain k where k: "p = DIRBLKSIZ * k + dd_loc d" "0 < dd_loc d" "dd_loc d \<le> DIRBLKSIZ" "loaded fd (t_seekpt x) k d"
    using s(1) by (auto simp: stands_def)
  have l: "dd_loc d = DIRBLKSIZ"
    using k(1-3) m by (metis dvd_add_right_iff dvd_imp_le dvd_triv_left le_antisym mod_eq_0_iff_dvd)
  have "t_seekpt y < length fd" using e y unfolding extents_ok_def by (metis add_lessD1 less_add_same_cancel1 order_less_le_trans)
  then have "length (block_at fd (t_seekpt x) k) = DIRBLKSIZ" using b k(1) l by (simp add: block_at_def at_def)
  then have "dd_size d = DIRBLKSIZ" "dd_cur d = t_seekpt y" using k(1,4) l b by (simp_all add: loaded_def)
  then show "dpos fd (t_seekpt y) d 0" using l s(1) by (simp add: dpos_def stands_def)
qed

lemma dir_tableD:
  assumes "dir_table fd tab D"
  shows "inotablookup i tab = None \<Longrightarrow> D i = None"
    "inotablookup i tab = Some x \<Longrightarrow> \<exists>live. D i = Some live \<and> dir_in fd (t_seekpt x) (t_size x) live"
proof -
  have a: "case inotablookup i tab of None \<Rightarrow> D i = None
      | Some x \<Rightarrow> \<exists>live. D i = Some live \<and> dir_in fd (t_seekpt x) (t_size x) live"
    using assms unfolding dir_table_def by blast
  show "inotablookup i tab = None \<Longrightarrow> D i = None"
    "inotablookup i tab = Some x \<Longrightarrow> \<exists>live. D i = Some live \<and> dir_in fd (t_seekpt x) (t_size x) live"
    using a by simp_all
qed

lemma searchdir_table:
  assumes t: "dir_table fd tab D" and d: "parked fd tab d"
  shows "\<exists>dp d'. searchdir maxino fd tab i name d = (dp, d') \<and> parked fd tab d' \<and>
    (case D i of
       None \<Rightarrow> dp = None
     | Some live \<Rightarrow> (case find (name_matches name) (visible maxino live) of
           None \<Rightarrow> dp = None
         | Some e \<Rightarrow> \<exists>x. dp = Some x \<and> same_entry x e))"
proof (cases "inotablookup i tab")
  case None
  then have "D i = None" by (rule dir_tableD [OF t])
  then show ?thesis using None d by (simp add: searchdir_def)
next
  case (Some x)
  then obtain live where live: "D i = Some live" "dir_in fd (t_seekpt x) (t_size x) live"
    using dir_tableD(2) [OF t] by blast
  let ?b = "t_seekpt x" and ?n = "t_size x"
  obtain ess u where ess: "concat ess = live @ [u]" "terminator u" "dir_at (take ?n (drop ?b fd)) ess"
    "?b + ?n \<le> length fd" "list_all (\<lambda>e. d_ino e \<noteq> 0) live"
    using live(2) by (auto simp: dir_in_def)
  let ?fd0 = "take (?b + ?n) fd"
  have fd: "fd = ?fd0 @ drop (?b + ?n) fd" by simp
  have a: "at_pos ?fd0 ?b 0 (live @ [u])"
    unfolding at_pos_def using ess by (intro exI [of _ "[]"] exI [of _ ess]) (simp add: drop_take)
  obtain dp d' p where s: "search_loop maxino fd name (rst_seekdir fd (int ?b) (int ?b) d) = (dp, d')"
    "stands fd ?b d' p" "0 < p"
    "case find (name_matches name) (visible maxino live) of
         None \<Rightarrow> dp = None \<and> p mod DIRBLKSIZ = 0
       | Some e \<Rightarrow> ?b + p < length ?fd0 \<and> (\<exists>x. dp = Some x \<and> same_entry x e)"
    using search_loop_finds [OF fd ess(2) seek_start [OF d Some] a ess(5), of maxino name] by blast
  have "p < ?n \<or> p mod DIRBLKSIZ = 0" using s(4) ess(4) by (auto split: option.splits)
  then have "parked fd tab d'" using stands_parked [OF s(2,3) _ Some] t by (simp add: dir_table_def)
  then show ?thesis using s(1,4) Some live(1) by (auto simp: searchdir_def split: option.splits)
qed

text \<open>A path of names, as a walk from directory to directory.\<close>

fun walk :: "dump_ino_t \<Rightarrow> (dump_ino_t \<Rightarrow> direct list option) \<Rightarrow> byte list list \<Rightarrow> dump_ino_t \<Rightarrow> dump_ino_t option" where
  "walk maxino D [] i = Some i"
| "walk maxino D (name # names) i =
     (case D i of
        None \<Rightarrow> None
      | Some live \<Rightarrow> (case find (name_matches name) (visible maxino live) of
            None \<Rightarrow> None
          | Some e \<Rightarrow> walk maxino D names (d_ino e)))"

lemma path_loop_walk:
  assumes t: "dir_table fd tab D"
  shows "parked fd tab d \<Longrightarrow> [] \<notin> set names \<Longrightarrow>
    \<exists>r d'. path_loop maxino fd tab names i dp d = (r, d') \<and> parked fd tab d' \<and>
      (if names = [] then r = dp else map_option d_ino r = walk maxino D names i)"
proof (induction names arbitrary: i dp d)
  case (Cons name names)
  obtain x d1 where s: "searchdir maxino fd tab i name d = (x, d1)" "parked fd tab d1"
    "case D i of None \<Rightarrow> x = None
     | Some live \<Rightarrow> (case find (name_matches name) (visible maxino live) of
           None \<Rightarrow> x = None
         | Some e \<Rightarrow> \<exists>y. x = Some y \<and> same_entry y e)"
    using searchdir_table [OF t Cons.prems(1)] by blast
  have "name \<noteq> []" using Cons.prems(2) by auto
  show ?case
  proof (cases x)
    case None
    then have "walk maxino D (name # names) i = None" using s(3) by (auto split: option.splits)
    then show ?thesis using None s(1,2) \<open>name \<noteq> []\<close> by simp
  next
    case (Some y)
    then obtain live e where e: "D i = Some live" "find (name_matches name) (visible maxino live) = Some e"
      "same_entry y e"
      using s(3) by (auto split: option.splits)
    then have i: "d_ino y = d_ino e" by (simp add: same_entry_def)
    obtain r d' where "path_loop maxino fd tab names (d_ino y) (Some y) d1 = (r, d')" "parked fd tab d'"
      "if names = [] then r = Some y else map_option d_ino r = walk maxino D names (d_ino y)"
      using Cons.IH [OF s(2), of "d_ino y" "Some y"] Cons.prems(2) by auto
    then show ?thesis using Some s(1) e i \<open>name \<noteq> []\<close> by (cases "names = []") simp_all
  qed
qed simp

section \<open>The table as an index\<close>

text \<open>
  What the users of the table rely on: a directory is entered with its start, its size is set before
  another one is entered, and a lookup finds the last entry made for an inode.
\<close>

locale dir_index =
  fixes lookup :: "dump_ino_t \<Rightarrow> 't \<Rightarrow> inotab option"
    and enter :: "dump_ino_t \<Rightarrow> nat \<Rightarrow> 't \<Rightarrow> 't"
    and set_size :: "dump_ino_t \<Rightarrow> nat \<Rightarrow> 't \<Rightarrow> 't"
    and valid :: "'t \<Rightarrow> bool"
  assumes valid_enter: "valid tab \<Longrightarrow> valid (enter i p tab)"
    and valid_size: "valid tab \<Longrightarrow> valid (set_size i n (enter i p tab))"
    and lookup_enter: "valid tab \<Longrightarrow> lookup j (enter i p tab) =
        (if j = i then Some \<lparr> t_ino = i, t_seekpt = p, t_size = 0 \<rparr> else lookup j tab)"
    and lookup_size: "valid tab \<Longrightarrow> lookup j (set_size i n (enter i p tab)) =
        (if j = i then Some \<lparr> t_ino = i, t_seekpt = p, t_size = n \<rparr> else lookup j tab)"
begin

text \<open>Directories entered one behind the other keep apart.\<close>

definition spaced :: "nat \<Rightarrow> 't \<Rightarrow> bool" where
  "spaced n tab \<longleftrightarrow> (\<forall>i x. lookup i tab = Some x \<longrightarrow> t_seekpt x + t_size x \<le> n \<and> 0 < t_size x) \<and>
     (\<forall>i j x y. lookup i tab = Some x \<and> lookup j tab = Some y \<longrightarrow>
        \<not> (t_seekpt x < t_seekpt y \<and> t_seekpt y < t_seekpt x + t_size x))"

lemma spaced_enter:
  assumes "valid tab" "spaced n tab" "0 < k"
  shows "spaced (n + k) (set_size i k (enter i n tab))"
  unfolding spaced_def lookup_size [OF assms(1)]
proof (intro conjI allI impI)
  fix j x assume "(if j = i then Some \<lparr> t_ino = i, t_seekpt = n, t_size = k \<rparr> else lookup j tab) = Some x"
  then show "t_seekpt x + t_size x \<le> n + k" "0 < t_size x"
    using assms(2,3) unfolding spaced_def by (fastforce split: if_splits)+
next
  fix j l x y
  assume a: "(if j = i then Some \<lparr> t_ino = i, t_seekpt = n, t_size = k \<rparr> else lookup j tab) = Some x \<and>
      (if l = i then Some \<lparr> t_ino = i, t_seekpt = n, t_size = k \<rparr> else lookup l tab) = Some y"
  have old: "t_seekpt z + t_size z \<le> n \<and> 0 < t_size z" if "lookup m tab = Some z" for m z
    using that assms(2) unfolding spaced_def by blast
  show "\<not> (t_seekpt x < t_seekpt y \<and> t_seekpt y < t_seekpt x + t_size x)"
  proof (cases "j = i"; cases "l = i")
    assume "j \<noteq> i" "l \<noteq> i"
    then show ?thesis using a assms(2) unfolding spaced_def by auto
  qed (use a old in \<open>fastforce split: if_splits\<close>)+
qed

end

lemma INOHASH_less: "INOHASH i < HASHSIZE"
  by (simp add: INOHASH_def HASHSIZE_def)

interpretation dirs_index: dir_index inotablookup allocinotab set_t_size "\<lambda>tab. length tab = HASHSIZE"
  by unfold_locales
     (auto simp: inotablookup_def allocinotab_def set_t_size_def INOHASH_less nth_list_update)

lemma extents_spaced: "extents_ok fd tab = dirs_index.spaced (length fd) tab"
  by (simp add: extents_ok_def dirs_index.spaced_def)


section \<open>Entering a directory\<close>

lemma dir_in_grows:
  assumes "dir_in fd b n live" "take (length fd) fd' = fd"
  shows "dir_in fd' b n live"
proof -
  have l: "length fd \<le> length fd'" using assms(2) by (metis length_take min.cobounded2 min.commute)
  have "take n (drop b fd') = take n (drop b fd)"
  proof -
    have "take n (drop b fd) = take n (drop b (take (length fd) fd'))" using assms(2) by simp
    also have "\<dots> = take n (drop b fd')" using le_diff_conv2 [of b "length fd" n] assms(1)
      by (simp add: drop_take dir_in_def min_absorb1)
    finally show ?thesis by simp
  qed
  then show ?thesis using assms(1) l unfolding dir_in_def by simp
qed

lemma dir_table_enter:
  assumes t: "dir_table fd tab D" "length tab = HASHSIZE" and fd': "take (length fd) fd' = fd" "length fd < length fd'"
    and new: "dir_in fd' (length fd) (length fd' - length fd) live"
  shows "dir_table fd' (set_t_size i (length fd' - length fd) (allocinotab i (length fd) tab)) (D(i \<mapsto> live))"
proof -
  let ?n = "length fd' - length fd"
  let ?tab = "set_t_size i ?n (allocinotab i (length fd) tab)"
  have "dirs_index.spaced (length fd) tab" using t(1) by (simp add: dir_table_def extents_spaced)
  then have "dirs_index.spaced (length fd + ?n) ?tab"
    by (rule dirs_index.spaced_enter [OF t(2)]) (use fd'(2) in simp)
  then have e: "extents_ok fd' ?tab" using fd'(2) by (simp add: extents_spaced)
  have "case inotablookup j ?tab of None \<Rightarrow> (D(i \<mapsto> live)) j = None
      | Some x \<Rightarrow> \<exists>live'. (D(i \<mapsto> live)) j = Some live' \<and> dir_in fd' (t_seekpt x) (t_size x) live'" for j
    using new dir_tableD [OF t(1), of j] dir_in_grows [OF _ fd'(1)]
    unfolding dirs_index.lookup_size [OF t(2)] by (fastforce split: option.splits)
  then show ?thesis using e unfolding dir_table_def by blast
qed

text \<open>The terminator of a directory.\<close>

lemma nulldir_terminator: "terminator (nulldir junk)" "DIRSIZ (nulldir junk) = 12"
  by (simp_all add: terminator_def nulldir_def DIRSIZ_def DIR_REC_LEN_def)

lemma nulldir_good: "2 \<le> length junk \<Longrightarrow> good_entry (nulldir junk)"
  using nulldir_terminator(2) [of junk] by (simp add: good_entry_def nulldir_def)

text \<open>
  What \<open>extract_dir\<close> does to the files and the table once the entries have been read.
\<close>

definition dirs_ready :: "(dump_ino_t \<Rightarrow> direct list option) \<Rightarrow> dirs \<Rightarrow> bool" where
  "dirs_ready D ds \<longleftrightarrow> dir_table (df ds) (inotab_tbl ds) D \<and> length (inotab_tbl ds) = HASHSIZE
     \<and> seekpt ds = length (df ds) \<and> writing (length (df ds)) [] ds"

lemma writing_cong: "dirbuf ds' = dirbuf ds \<Longrightarrow> dirloc ds' = dirloc ds \<Longrightarrow> prev ds' = prev ds \<Longrightarrow> df ds' = df ds \<Longrightarrow>
    writing base es ds' = writing base es ds"
  by (simp add: writing_def buffered_def)

lemma savemodeinfo_fields [simp]:
  "dirbuf (savemodeinfo i ip x ds) = dirbuf ds" "dirloc (savemodeinfo i ip x ds) = dirloc ds"
  "prev (savemodeinfo i ip x ds) = prev ds" "df (savemodeinfo i ip x ds) = df ds"
  "seekpt (savemodeinfo i ip x ds) = seekpt ds" "inotab_tbl (savemodeinfo i ip x ds) = inotab_tbl ds"
  "df_room (savemodeinfo i ip x ds) = df_room ds"
  by (simp_all add: savemodeinfo_def split: option.splits)

lemma finish_dir_ready:
  assumes d: "dirs_ready D ds" and w: "writing (length (df ds)) es ds1" "same_table (ds\<lparr>inotab_tbl :=
      allocinotab i (length (df ds)) (inotab_tbl ds)\<rparr>) ds1" "dir_space 1 ds1"
    and es: "list_all (\<lambda>e. d_ino e \<noteq> 0) es" and junk: "2 \<le> length (stack_bytes mem)"
  shows "\<exists>ds'. finish_dir mem i ip (length (df ds)) x ds1 = Inr ds' \<and> dirs_ready (D(i \<mapsto> es)) ds'
    \<and> length (df ds') \<le> length (df ds1) + 2 * DIRBLKSIZ \<and> df_room ds' = df_room ds"
proof -
  let ?nul = "nulldir (stack_bytes mem)"
  let ?s = "savemodeinfo i ip x ds1"
  have ws: "writing (length (df ds)) es ?s" using w(1) writing_cong [of ?s ds1] by simp
  have rs: "dir_space (Suc 0) ?s" using w(3) by (simp add: dir_space_def)
  obtain d2 where d2: "putent ?nul ?s = Inr d2" "writing (length (df ds)) (es @ [?nul]) d2" "same_table ?s d2"
    "dir_space 0 d2"
    using putent_writing [OF ws nulldir_good [OF junk] rs] by blast
  obtain d3 ess where d3: "flushent d2 = Inr d3" "concat ess = es @ [?nul]" "dir_at (drop (length (df ds)) (df d3)) ess"
    "inotab_tbl d3 = inotab_tbl d2" "df_room d3 = df_room d2" "take (length (df d2)) (df d3) = df d2"
    "seekpt d3 = length (df d3)" "length (df ds) < seekpt d3" "writing (seekpt d3) [] d3"
    "length (df d3) \<le> length (df d2) + DIRBLKSIZ"
    using flushent_writing [OF d2(2) _ d2(4)] by auto
  let ?ds' = "d3\<lparr>inotab_tbl := set_t_size i (seekpt d3 - length (df ds)) (inotab_tbl d3)\<rparr>"
  have f: "finish_dir mem i ip (length (df ds)) x ds1 = Inr ?ds'"
    using d2(1) d3(1) by (simp add: finish_dir_def)
  have tab: "inotab_tbl d3 = allocinotab i (length (df ds)) (inotab_tbl ds)"
    using d3(4) d2(3) w(2) by (simp add: same_table_def)
  have p1: "take (length (df ds)) (df ds1) = df ds" using w(2) by (simp add: same_table_def)
  have p2: "take (length (df ds1)) (df d2) = df ds1" using d2(3) by (simp add: same_table_def)
  have pre: "take (length (df ds)) (df d3) = df ds"
  proof -
    have l: "length (df ds) \<le> length (df ds1)" "length (df ds1) \<le> length (df d2)"
      using p1 p2 by (metis length_take min.cobounded1 min.commute)+
    have "take (length (df ds)) (df d3) = take (length (df ds)) (take (length (df d2)) (df d3))"
      using l by (simp add: min_def)
    also have "\<dots> = take (length (df ds)) (take (length (df ds1)) (df d2))" unfolding d3(6) using l by (simp add: min_def)
    also have "\<dots> = df ds" unfolding p2 by (rule p1)
    finally show ?thesis .
  qed
  have new: "dir_in (df d3) (length (df ds)) (length (df d3) - length (df ds)) es"
    unfolding dir_in_def using d3(2,3,7,8) es nulldir_terminator(1) [of "stack_bytes mem"]
    by (intro conjI exI [of _ ess] exI [of _ ?nul]) simp_all
  have t: "dir_table (df ds) (inotab_tbl ds) D" "length (inotab_tbl ds) = HASHSIZE"
    using d by (simp_all add: dirs_ready_def)
  have "dir_table (df d3) (inotab_tbl ?ds') (D(i \<mapsto> es))"
    using dir_table_enter [OF t pre _ new] d3(7,8) tab by simp
  moreover have "length (inotab_tbl ?ds') = HASHSIZE"
    using dirs_index.valid_size [OF t(2)] tab by simp
  moreover have "writing (length (df ?ds')) [] ?ds'" using d3(7,9) writing_cong [of ?ds' d3] by simp
  ultimately have "dirs_ready (D(i \<mapsto> es)) ?ds'" using d3(7) by (simp add: dirs_ready_def)
  moreover have "length (df d2) \<le> length (df ds1) + DIRBLKSIZ"
  proof -
    have "d2 = d2" ..
    show ?thesis using d2(1)
      by (auto simp: putent_def Let_def bindE_Inr_iff df_write_def extend_prev_def DIRBLKSIZ_def split: if_splits)
  qed
  moreover have "df_room d3 = df_room ds" using d3(5) d2(3) w(2) by (simp add: same_table_def)
  ultimately show ?thesis using f d3(10) by (intro exI [of _ ?ds']) simp
qed

section \<open>Bounds of the block\<close>

text \<open>
  The static buffer of \<open>putent\<close> stays within its bounds whatever the tape holds.
\<close>

definition dirbuf_ok :: "dirs \<Rightarrow> bool" where
  "dirbuf_ok ds \<longleftrightarrow> length (dirbuf ds) = DIRBLKSIZ \<and> dirloc ds \<le> DIRBLKSIZ \<and> prev ds + 12 \<le> DIRBLKSIZ"

definition grows :: "dirs \<Rightarrow> dirs \<Rightarrow> bool" where
  "grows ds ds' \<longleftrightarrow> dirbuf_ok ds' \<and> (\<exists>new. df ds' = df ds @ new \<and> DIRBLKSIZ dvd length new)
     \<and> inotab_tbl ds' = inotab_tbl ds \<and> seekpt ds' = seekpt ds"

lemma grows_refl: "dirbuf_ok ds \<Longrightarrow> grows ds ds"
  by (simp add: grows_def)

lemma grows_trans: "grows a b \<Longrightarrow> grows b c \<Longrightarrow> grows a c"
  by (auto simp: grows_def)

lemma DIRSIZ_le: "DIRSIZ dp \<le> 264"
proof -
  have "unat (d_namlen dp) < 256" using unsigned_less [of "d_namlen dp", where 'a = nat] by simp
  then show ?thesis by (simp add: DIRSIZ_def DIR_REC_LEN_def)
qed

lemma putent_grows:
  assumes "dirbuf_ok ds" "putent dp ds = Inr ds'"
  shows "grows ds ds'"
proof -
  let ?n = "DIRSIZ dp" and ?bs = "take (DIRSIZ dp) (direct_bytes (dp\<lparr>d_reclen := of_nat (DIRSIZ dp)\<rparr>))"
  have n: "12 \<le> ?n" "?n \<le> 264" "length ?bs \<le> ?n" using DIRSIZ_pos [of dp] DIRSIZ_le [of dp] by simp_all
  have put: "dirbuf_ok (d\<lparr>dirbuf := overlay (dirbuf d) (dirloc d) ?bs, prev := dirloc d, dirloc := dirloc d + ?n\<rparr>)"
    if "length (dirbuf d) = DIRBLKSIZ" "dirloc d + ?n \<le> DIRBLKSIZ" for d :: dirs
    using that n by (simp add: dirbuf_ok_def length_overlay)
  show ?thesis
  proof (cases "dirloc ds + ?n > DIRBLKSIZ")
    case False
    then show ?thesis using assms put [of ds] by (auto simp: putent_def Let_def grows_def dirbuf_ok_def)
  next
    case True
    have l: "length (dirbuf (extend_prev ds)) = DIRBLKSIZ"
      using assms(1) by (simp add: extend_prev_def dirbuf_ok_def length_overlay)
    obtain d where d: "df_write (take DIRBLKSIZ (dirbuf (extend_prev ds))) (extend_prev ds) = Inr d"
      "ds' = d\<lparr>dirbuf := overlay (dirbuf d) 0 ?bs, prev := 0, dirloc := ?n\<rparr>"
      using True assms(2) by (auto simp: putent_def Let_def bindE_Inr_iff)
    have e: "d = (extend_prev ds)\<lparr>df := df ds @ dirbuf (extend_prev ds)\<rparr>"
      using d(1) l by (auto simp: df_write_def extend_prev_def split: if_splits)
    have "dirbuf_ok ds'" using put [of "d\<lparr>dirloc := 0\<rparr>"] l n(2) unfolding d(2) e by (simp add: DIRBLKSIZ_def)
    then show ?thesis unfolding grows_def d(2) e using l by (simp add: extend_prev_def)
  qed
qed

lemma putents_grows: "dirbuf_ok ds \<Longrightarrow> putents dps ds = Inr ds' \<Longrightarrow> grows ds ds'"
proof (induction dps arbitrary: ds)
  case Nil
  then show ?case by (simp add: grows_refl)
next
  case (Cons dp dps)
  then obtain d1 where d1: "putent dp ds = Inr d1" "putents dps d1 = Inr ds'" by (auto simp: bindE_Inr_iff)
  have g: "grows ds d1" by (rule putent_grows [OF Cons.prems(1) d1(1)])
  then show ?case using Cons.IH [OF _ d1(2)] by (auto simp: grows_def)
qed

lemma putdir_loop_grows: "dirbuf_ok ds \<Longrightarrow> putdir_loop r n loc mem ds = Inr ds' \<Longrightarrow> grows ds ds'"
proof (induction r n loc mem ds rule: putdir_loop.induct)
  case (1 r n loc mem ds)
  show ?case
  proof (cases "loc < n")
    case False
    then show ?thesis using "1.prems" by (subst (asm) putdir_loop.simps) (simp add: grows_refl)
  next
    case True
    let ?mem = "take loc mem @ fix_direct r (drop loc mem)"
    let ?dp = "read_direct (drop loc ?mem)"
    show ?thesis
    proof (cases "mangled loc ?dp")
      case m: True
      then have "putdir_loop r n loc mem ds = putdir_loop r n (loc + (DIRBLKSIZ - loc mod DIRBLKSIZ)) ?mem ds"
        using True by (subst putdir_loop.simps) (simp add: Let_def)
      then show ?thesis using "1.prems" "1.IH"(1) [OF True refl refl m] by simp
    next
      case m: False
      then obtain d1 where d1: "(if d_ino ?dp \<noteq> 0 then putent ?dp ds else Inr ds) = Inr d1"
        "putdir_loop r n (loc + unat (d_reclen ?dp)) ?mem d1 = Inr ds'"
      proof -
        have "putdir_loop r n loc mem ds = (case (if d_ino ?dp \<noteq> 0 then putent ?dp ds else Inr ds) of
            Inl x \<Rightarrow> Inl x | Inr ds \<Rightarrow> putdir_loop r n (loc + unat (d_reclen ?dp)) ?mem ds)"
          using True m by (subst putdir_loop.simps) (simp add: Let_def)
        then show ?thesis using that "1.prems"(2)
          by (cases "if d_ino ?dp \<noteq> 0 then putent ?dp ds else Inr ds") simp_all
      qed
      have g: "grows ds d1" using d1(1) "1.prems"(1) putent_grows grows_refl by (auto split: if_splits)
      then have "grows d1 ds'" using "1.IH"(2) [OF True refl refl m d1(1) _ d1(2)] by (simp add: grows_def)
      then show ?thesis using g grows_trans by blast
    qed
  qed
qed

text \<open>C31: Whatever bytes the tape delivers as the data of a directory, \<open>putdir\<close> stays within the block of
  1024 bytes that it fills, and the directory file grows by whole blocks only.\<close>

theorem putdir_bounds:
  assumes "length (dirbuf ds) = DIRBLKSIZ" "dirloc ds \<le> DIRBLKSIZ" "prev ds + 12 \<le> DIRBLKSIZ"
    and "putdir cfg r past buf ds = Inr ds'"
  shows "length (dirbuf ds') = DIRBLKSIZ \<and> dirloc ds' \<le> DIRBLKSIZ \<and> prev ds' + 12 \<le> DIRBLKSIZ
    \<and> (\<exists>new. df ds' = df ds @ new \<and> DIRBLKSIZ dvd length new)"
proof -
  have "dirbuf_ok ds" using assms(1-3) by (simp add: dirbuf_ok_def)
  then have "grows ds ds'"
    using assms(4) putents_grows putdir_loop_grows by (auto simp: putdir_def split: if_splits)
  then show ?thesis by (simp add: grows_def dirbuf_ok_def)
qed

text \<open>C32: The table of directories is a map from inode numbers: entering a directory is an update, the
  size is set in the entry of its inode only, and the other entries stay.\<close>

theorem inotab_is_map:
  assumes "length tab = HASHSIZE"
  shows "(\<lambda>j. inotablookup j (allocinotab i pt tab))
      = (\<lambda>j. inotablookup j tab)(i \<mapsto> \<lparr> t_ino = i, t_seekpt = pt, t_size = 0 \<rparr>)
    \<and> (\<lambda>j. inotablookup j (set_t_size i n (allocinotab i pt tab)))
      = (\<lambda>j. inotablookup j tab)(i \<mapsto> \<lparr> t_ino = i, t_seekpt = pt, t_size = n \<rparr>)"
  using dirs_index.lookup_enter [OF assms] dirs_index.lookup_size [OF assms] by (auto simp: fun_eq_iff)


text \<open>A directory whose only entry names inode 5 \<open>a\<close>, and a reader on a native dump.\<close>

definition dirs_rcfg :: rcfg where
  "dirs_rcfg = \<lparr> cvtflag = False, panic_returns = False, Nflag = False, dumpdate = 0, r_maxino = 100, fssize = 1024 \<rparr>"

definition dirs_reader :: rstate where
  "dirs_reader = \<lparr> tape = [], r_spcl = zero_spcl, Bcvt = False, Qcvt = False, oldinofmt = False, ufs2flag = False,
     readmapflag = False, readingmaps = False, r_volinfo = [], blksread = 0, cur_action = USING, cur_dip = None,
     cur_ino = 0 \<rparr>"

definition one_entry :: "byte list" where
  "one_entry = [5, 0, 0, 0, 12, 0, 4, 1, 0x61, 0, 0, 0]"

lemma one_entry_fields: "d_ino (read_direct one_entry) = 5" "unat (d_reclen (read_direct one_entry)) = 12"
    "DIRSIZ (read_direct one_entry) = 12"
  by (simp_all add: read_direct_def one_entry_def at_def get_def DIRSIZ_def DIR_REC_LEN_def)

theorem putdir_bounds_witness:
  "\<exists>ds'. putdir dirs_rcfg dirs_reader [] one_entry (no_dirs True 2048) = Inr ds'
     \<and> length (dirbuf ds') = DIRBLKSIZ \<and> dirloc ds' = 12
     \<and> (\<exists>new. df ds' = df (no_dirs True 2048) @ new \<and> DIRBLKSIZ dvd length new)"
proof -
  let ?d = "no_dirs True 2048"
  have ok: "length (dirbuf ?d) = DIRBLKSIZ" "dirloc ?d \<le> DIRBLKSIZ" "prev ?d + 12 \<le> DIRBLKSIZ"
    by (simp_all add: no_dirs_def DIRBLKSIZ_def)
  have m: "\<not> mangled 0 (read_direct one_entry)" by (simp add: mangled_def one_entry_fields DIRBLKSIZ_def)
  have f: "fix_direct dirs_reader one_entry = one_entry" by (simp add: fix_direct_def dirs_reader_def)
  have l: "length one_entry = 12" by (simp add: one_entry_def)
  obtain d where d: "putent (read_direct one_entry) ?d = Inr d" "dirloc d = 12"
    by (simp add: putent_def Let_def one_entry_fields(3) no_dirs_def DIRBLKSIZ_def)
  have "putdir_loop dirs_reader 12 0 one_entry ?d = Inr d"
    using m d(1) by (subst putdir_loop.simps) (simp add: Let_def f one_entry_fields putdir_loop.simps [of _ 12 12])
  then have "putdir dirs_rcfg dirs_reader [] one_entry ?d = Inr d" by (simp add: putdir_def dirs_rcfg_def l)
  then show ?thesis using putdir_bounds [OF ok] d(2) by blast
qed

theorem inotab_is_map_witness:
  "inotablookup 7 (set_t_size 7 24 (allocinotab 7 100 no_inotab)) = Some \<lparr> t_ino = 7, t_seekpt = 100, t_size = 24 \<rparr>
     \<and> inotablookup 1007 (set_t_size 7 24 (allocinotab 7 100 no_inotab)) = inotablookup 1007 no_inotab"
proof -
  have l: "length no_inotab = HASHSIZE" by (simp add: no_inotab_def)
  show ?thesis using inotab_is_map [OF l, of 7 100 24] by (auto simp: fun_eq_iff)
qed

end
