(* ===== verification/Dir_Extract.thy ===== *)
theory Dir_Extract
  imports Dir_File
begin

text \<open>
  \<open>extractdirs\<close> on one directory (restore/dirs.c): the entries in the data of a directory (\<open>linked\<close>),
  what \<open>putdir\<close> makes of the pieces of it that \<open>getfile\<close> delivers, and the directory that the table
  has in the end.  The receiver \<open>streaming\<close> is an instance of \<open>file_receiver\<close>.
\<close>

section \<open>Entries in the data of a directory\<close>

text \<open>
  The entries of a directory as dump writes them: no entry crosses a block of 512 bytes.
\<close>

fun linked :: "byte list \<Rightarrow> nat \<Rightarrow> direct list \<Rightarrow> nat \<Rightarrow> bool" where
  "linked buf off [] fin \<longleftrightarrow> off = fin"
| "linked buf off (e # es) fin \<longleftrightarrow>
     (\<exists>rl. stored buf off rl e \<and> good_entry e \<and> off + DIRSIZ e \<le> length buf \<and> DIRSIZ e \<le> rl \<and> rl mod 4 = 0
        \<and> off mod DIRBLKSIZ_DUMP + rl \<le> DIRBLKSIZ_DUMP \<and> linked buf (off + rl) es fin)"

lemma linked_append_buf: "linked buf off es fin \<Longrightarrow> linked (buf @ junk) off es fin"
proof (induction es arbitrary: off)
  case (Cons e es)
  then obtain rl where rl: "stored buf off rl e" "good_entry e" "off + DIRSIZ e \<le> length buf" "DIRSIZ e \<le> rl"
    "rl mod 4 = 0" "off mod DIRBLKSIZ_DUMP + rl \<le> DIRBLKSIZ_DUMP" "linked buf (off + rl) es fin" by auto
  have "stored (buf @ junk) off rl e" using rl(1,3) by (simp add: stored_def at_def)
  then show ?case using rl Cons.IH [OF rl(7)] by auto
qed simp

lemma linked_le: "linked buf off es fin \<Longrightarrow> off \<le> fin"
proof (induction es arbitrary: off)
  case (Cons e es)
  then show ?case by (auto dest: Cons.IH)
qed simp

lemma linked_append:
  "linked buf off (xs @ ys) fin \<longleftrightarrow> (\<exists>m. linked buf off xs m \<and> linked buf m ys fin)"
proof (induction xs arbitrary: off)
  case (Cons x xs)
  show ?case unfolding append_Cons linked.simps Cons.IH 
    by (rule iffI; elim exE conjE; intro exI conjI; assumption)
qed simp

lemma linked_cut:
  "linked buf off es fin \<Longrightarrow> fin \<le> length buf \<Longrightarrow> linked (take fin buf) off es fin"
proof (induction es arbitrary: off)
  case (Cons e es)
  then obtain rl where rl: "stored buf off rl e" "good_entry e" "DIRSIZ e \<le> rl"
    "rl mod 4 = 0" "off mod DIRBLKSIZ_DUMP + rl \<le> DIRBLKSIZ_DUMP" "linked buf (off + rl) es fin" by auto
  have l: "off + DIRSIZ e \<le> fin" using rl(3) linked_le [OF rl(6)] by simp
  then have "stored (take fin buf) off rl e" using rl(1) at_take [OF l, of buf] by (simp add: stored_def)
  then show ?case using rl l Cons by auto
qed simp

lemma linked_drop:
  "linked buf (m + off) es (m + fin) \<Longrightarrow> DIRBLKSIZ_DUMP dvd m \<Longrightarrow> linked (drop m buf) off es fin"
proof (induction es arbitrary: off)
  case (Cons e es)
  then obtain rl where rl: "stored buf (m + off) rl e" "good_entry e" "m + off + DIRSIZ e \<le> length buf"
    "DIRSIZ e \<le> rl" "rl mod 4 = 0" "(m + off) mod DIRBLKSIZ_DUMP + rl \<le> DIRBLKSIZ_DUMP"
    "linked buf (m + (off + rl)) es (m + fin)" by (auto simp: add.assoc)
  have "(m + off) mod DIRBLKSIZ_DUMP = off mod DIRBLKSIZ_DUMP" using Cons.prems(2) by (auto elim!: dvdE)
  moreover have "stored (drop m buf) off rl e" using rl(1) by (simp add: stored_def at_def add.commute)
  ultimately show ?case using rl Cons.IH [OF rl(7) Cons.prems(2)] by auto
qed simp

lemma linked_split:
  "linked buf off es fin \<Longrightarrow> DIRBLKSIZ_DUMP dvd m \<Longrightarrow> off \<le> m \<Longrightarrow> m \<le> fin \<Longrightarrow>
     \<exists>es1 es2. es = es1 @ es2 \<and> linked buf off es1 m \<and> linked buf m es2 fin"
proof (induction es arbitrary: off)
  case Nil
  then show ?case by (intro exI [of _ "[]"]) simp
next
  case (Cons e es)
  show ?case
  proof (cases "off = m")
    case True
    then show ?thesis using Cons.prems by (intro exI [of _ "[]"] exI [of _ "e # es"]) auto
  next
    case False
    obtain rl where rl: "stored buf off rl e" "good_entry e" "off + DIRSIZ e \<le> length buf" "DIRSIZ e \<le> rl"
      "rl mod 4 = 0" "off mod DIRBLKSIZ_DUMP + rl \<le> DIRBLKSIZ_DUMP" "linked buf (off + rl) es fin"
      using Cons.prems(1) by auto
    have "off + rl \<le> m"
    proof -
      obtain q where q: "m = DIRBLKSIZ_DUMP * q" using Cons.prems(2) by blast
      have "off < DIRBLKSIZ_DUMP * q" using False Cons.prems(3) q by simp
      then have "off div DIRBLKSIZ_DUMP < q" by (simp add: less_mult_imp_div_less mult.commute)
      then have "DIRBLKSIZ_DUMP * Suc (off div DIRBLKSIZ_DUMP) \<le> m" unfolding q by (intro mult_le_mono2) simp
      moreover have "off = DIRBLKSIZ_DUMP * (off div DIRBLKSIZ_DUMP) + off mod DIRBLKSIZ_DUMP" by simp
      ultimately show ?thesis using rl(6) unfolding mult_Suc_right by linarith
    qed
    from Cons.IH [OF rl(7) Cons.prems(2) this Cons.prems(4)] obtain es1 es2 where
      "es = es1 @ es2" "linked buf (off + rl) es1 m" "linked buf m es2 fin" by blast
    then show ?thesis using rl by (intro exI [of _ "e # es1"] exI [of _ es2]) auto
  qed
qed

text \<open>\<open>putent\<close> takes from the memory what it would take from the entry itself.\<close>

lemma putent_same:
  assumes "same_entry dp e"
  shows "putent dp ds = putent e ds"
proof -
  have n: "DIRSIZ dp = DIRSIZ e" using assms by (simp add: same_entry_def DIRSIZ_def)
  have "take (DIRSIZ e) (direct_bytes (dp\<lparr>d_reclen := x\<rparr>)) = take (DIRSIZ e) (direct_bytes (e\<lparr>d_reclen := x\<rparr>))" for x
  proof -
    obtain k where k: "DIRSIZ e = 8 + k" using le_Suc_ex [of 8 "DIRSIZ e"] DIRSIZ_pos [of e] by auto
    then show ?thesis using assms by (simp add: same_entry_def direct_bytes_def)
  qed
  then show ?thesis by (simp add: putent_def n)
qed

lemma fix_direct_native: "native cfg r \<Longrightarrow> fix_direct r mem = mem"
  by (simp add: fix_direct_def native_def Let_def)

lemma block_room: "off mod DIRBLKSIZ_DUMP + rl \<le> DIRBLKSIZ_DUMP \<Longrightarrow> rl \<le> DIRBLKSIZ - off mod DIRBLKSIZ"
proof -
  assume a: "off mod DIRBLKSIZ_DUMP + rl \<le> DIRBLKSIZ_DUMP"
  have "off mod (DIRBLKSIZ_DUMP * 2) = DIRBLKSIZ_DUMP * (off div DIRBLKSIZ_DUMP mod 2) + off mod DIRBLKSIZ_DUMP"
    by (rule mod_mult2_eq)
  moreover have "off div DIRBLKSIZ_DUMP mod 2 = 0 \<or> off div DIRBLKSIZ_DUMP mod 2 = 1" by auto
  moreover have "DIRBLKSIZ_DUMP * 2 = DIRBLKSIZ" by (simp add: DIRBLKSIZ_def DIRBLKSIZ_DUMP_def)
  ultimately show ?thesis using a by auto
qed

lemma putdir_loop_linked:
  assumes "native cfg r"
  shows "linked mem off es n \<Longrightarrow> putdir_loop r n off mem ds = putents (filter (\<lambda>e. d_ino e \<noteq> 0) es) ds"
proof (induction es arbitrary: off ds)
  case Nil
  then show ?case by (subst putdir_loop.simps) simp
next
  case (Cons e es)
  then obtain rl where rl: "stored mem off rl e" "good_entry e" "DIRSIZ e \<le> rl"
    "rl mod 4 = 0" "off mod DIRBLKSIZ_DUMP + rl \<le> DIRBLKSIZ_DUMP" "linked mem (off + rl) es n" by auto
  let ?dp = "read_direct (drop off mem)"
  have "rl < 2 ^ 16" using rl(5) by (simp add: DIRBLKSIZ_DUMP_def)
  note s = stored_read [OF rl(1) this]
  have n: "DIRSIZ ?dp = DIRSIZ e" "d_ino ?dp = d_ino e" using s(1) by (simp_all add: same_entry_def DIRSIZ_def)
  have m: "\<not> mangled off ?dp" using rl block_room [OF rl(5)] s(2) n(1) by (simp add: mangled_def)
  have lt: "off < n" using linked_le [OF rl(6)] rl(3) DIRSIZ_pos [of e] by simp
  have "putdir_loop r n off mem ds =
      (case (if d_ino e \<noteq> 0 then putent e ds else Inr ds) of
         Inl x \<Rightarrow> Inl x
       | Inr ds \<Rightarrow> putdir_loop r n (off + rl) mem ds)"
    using lt m n(2) s(2) putent_same [OF s(1)] fix_direct_native [OF assms]
    by (subst putdir_loop.simps) (simp add: Let_def split: sum.split)
  then show ?case using Cons.IH [OF rl(6)] by (cases "putent e ds") (auto split: sum.splits)
qed

lemma putdir_linked:
  assumes "native cfg r" "linked buf 0 es (length buf)"
  shows "putdir cfg r past buf ds = putents (filter (\<lambda>e. d_ino e \<noteq> 0) es) ds"
  using putdir_loop_linked [OF assms(1) linked_append_buf [OF assms(2)]] assms(1)
  by (simp add: putdir_def native_def)

lemma putents_append: "putents (xs @ ys) ds = bindE (putents xs ds) (putents ys)"
proof (induction xs arbitrary: ds)
  case (Cons x xs)
  then show ?case by (cases "putent x ds") simp_all
qed simp


section \<open>A receiver that is called with buffers\<close>

text \<open>The data of a file without holes, in pieces of the transfer size.\<close>

fun fill_all :: "(byte list \<Rightarrow> 'o \<Rightarrow> restore_stop + 'o) \<Rightarrow> byte list list \<Rightarrow> 'o \<Rightarrow> restore_stop + 'o" where
  "fill_all f [] out = Inr out"
| "fill_all f (b # bs) out = bindE (f b out) (fill_all f bs)"

lemma bindE_Inr_right: "bindE m Inr = m"
  by (cases m) simp_all

lemma fill_all_Nil: "fill_all f [] = Inr"
  by (rule ext) simp

lemma fill_all_append: "fill_all f (xs @ ys) out = bindE (fill_all f xs out) (fill_all f ys)"
proof (induction xs arbitrary: out)
  case (Cons x xs)
  then show ?case by (cases "f x out") simp_all
qed simp

definition piece :: "nat \<Rightarrow> byte list \<Rightarrow> nat \<Rightarrow> byte list" where
  "piece c bs i = take c (drop (c * i) bs)"

definition pieces :: "nat \<Rightarrow> byte list \<Rightarrow> nat \<Rightarrow> byte list list" where
  "pieces c bs k = map (piece c bs) [0..<k]"

lemma pieces_Suc: "pieces c bs (Suc k) = pieces c bs k @ [piece c bs k]"
  by (simp add: pieces_def)

text \<open>The directory in pieces is the directory.\<close>

lemma fill_all_putdir:
  assumes r: "native cfg r" and c: "DIRBLKSIZ_DUMP dvd c" "0 < c" and bs: "DIRBLKSIZ_DUMP dvd length bs"
  shows "linked bs 0 es (length bs) \<Longrightarrow> k * c \<le> length bs + c \<Longrightarrow>
    \<exists>es1 es2. es = es1 @ es2 \<and> linked bs 0 es1 (min (c * k) (length bs)) \<and> linked bs (min (c * k) (length bs)) es2 (length bs)
      \<and> fill_all (putdir cfg r past) (pieces c bs k) ds = putents (filter (\<lambda>e. d_ino e \<noteq> 0) es1) ds"
proof (induction k)
  case 0
  then show ?case by (intro exI [of _ "[]"] exI [of _ es]) (simp add: pieces_def)
next
  case (Suc k)
  let ?m = "min (c * k) (length bs)" and ?m' = "min (c * Suc k) (length bs)"
  obtain es1 es2 where e: "es = es1 @ es2" "linked bs 0 es1 ?m" "linked bs ?m es2 (length bs)"
    "fill_all (putdir cfg r past) (pieces c bs k) ds = putents (filter (\<lambda>e. d_ino e \<noteq> 0) es1) ds"
    using Suc by auto
  have m: "?m = c * k" using Suc.prems(2) c(2) by (simp add: mult.commute min_def)
  have d: "DIRBLKSIZ_DUMP dvd ?m'" using c(1) bs by (simp add: min_def)
  have le: "?m \<le> ?m'" "?m' \<le> length bs" by simp_all
  obtain es3 es4 where f: "es2 = es3 @ es4" "linked bs ?m es3 ?m'" "linked bs ?m' es4 (length bs)"
    using linked_split [OF e(3) d le] by blast
  have p: "piece c bs k = take (?m' - ?m) (drop ?m bs)" unfolding m piece_def by (simp add: min_def)
  have "linked (drop ?m bs) 0 es3 (?m' - ?m)"
    using linked_drop [of bs ?m 0 es3 "?m' - ?m"] f(2) c(1) m by simp
  then have "linked (piece c bs k) 0 es3 (?m' - ?m)" unfolding p by (rule linked_cut) simp
  moreover have "length (piece c bs k) = ?m' - ?m" unfolding p by simp
  ultimately have "putdir cfg r past (piece c bs k) x = putents (filter (\<lambda>e. d_ino e \<noteq> 0) es3) x" for x
    using putdir_linked [OF r] by simp
  then have "fill_all (putdir cfg r past) [piece c bs k] = putents (filter (\<lambda>e. d_ino e \<noteq> 0) es3)"
    by (intro ext) (simp add: fill_all_Nil bindE_Inr_right del: fill_all.simps(1))
  then have "fill_all (putdir cfg r past) (pieces c bs (Suc k)) ds = putents (filter (\<lambda>e. d_ino e \<noteq> 0) (es1 @ es3)) ds"
    using e(4) by (simp only: pieces_Suc fill_all_append putents_append filter_append)
  moreover have "linked bs 0 (es1 @ es3) ?m'" using e(2) f(2) by (auto simp: linked_append)
  ultimately show ?case using e(1) f(1,3) by (intro exI [of _ "es1 @ es3"] exI [of _ es4]) simp
qed

definition streaming :: "rcfg \<Rightarrow> 'o handlers \<Rightarrow> byte list option list \<Rightarrow> nat \<Rightarrow> nat \<Rightarrow> 'o \<Rightarrow> nat \<Rightarrow> 'o getstate \<Rightarrow> bool" where
  "streaming cfg h recs n F out0 k g \<longleftrightarrow>
     (let c = F * TP_BSIZE; bs = take n (contents recs)
      in None \<notin> set recs \<and> full_recs recs \<and> n \<le> TP_BSIZE * length recs \<and> fssize cfg = c \<and> 0 < F
         \<and> (\<exists>x. fill_all (fill h) (pieces c bs (howmany n c)) out0 = Inr x)
         \<and> k \<le> howmany n TP_BSIZE \<and> left g = int n - int (TP_BSIZE * k) \<and> \<not> last_hole g
         \<and> length (pend g) = k mod F
         \<and> concat (pend g) = take (TP_BSIZE * (k mod F)) (drop (c * (k div F)) (contents recs))
         \<and> fill_all (fill h) (pieces c bs (k div F)) out0 = Inr (outp g))"

lemma streamingD:
  assumes "streaming cfg h recs n F out0 k g"
  shows "None \<notin> set recs" "full_recs recs" "n \<le> TP_BSIZE * length recs" "fssize cfg = F * TP_BSIZE" "0 < F"
    "\<exists>x. fill_all (fill h) (pieces (F * TP_BSIZE) (take n (contents recs)) (howmany n (F * TP_BSIZE))) out0 = Inr x"
    "k \<le> howmany n TP_BSIZE" "left g = int n - int (TP_BSIZE * k)" "\<not> last_hole g" "length (pend g) = k mod F"
    "concat (pend g) = take (TP_BSIZE * (k mod F)) (drop (F * TP_BSIZE * (k div F)) (contents recs))"
    "fill_all (fill h) (pieces (F * TP_BSIZE) (take n (contents recs)) (k div F)) out0 = Inr (outp g)"
  using assms unfolding streaming_def Let_def by blast+

lemma streamingI:
  assumes "None \<notin> set recs" "full_recs recs" "n \<le> TP_BSIZE * length recs" "fssize cfg = F * TP_BSIZE" "0 < F"
    "\<exists>x. fill_all (fill h) (pieces (F * TP_BSIZE) (take n (contents recs)) (howmany n (F * TP_BSIZE))) out0 = Inr x"
    "k \<le> howmany n TP_BSIZE" "left g = int n - int (TP_BSIZE * k)" "\<not> last_hole g" "length (pend g) = k mod F"
    "concat (pend g) = take (TP_BSIZE * (k mod F)) (drop (F * TP_BSIZE * (k div F)) (contents recs))"
    "fill_all (fill h) (pieces (F * TP_BSIZE) (take n (contents recs)) (k div F)) out0 = Inr (outp g)"
  shows "streaming cfg h recs n F out0 k g"
  using assms unfolding streaming_def Let_def by blast

lemma blocks_of: "F * TP_BSIZE * (k div F) + TP_BSIZE * (k mod F) = TP_BSIZE * k"
proof -
  have "F * TP_BSIZE * (k div F) + TP_BSIZE * (k mod F) = TP_BSIZE * (F * (k div F) + k mod F)"
    by (simp only: distrib_left mult.assoc mult.left_commute)
  then show ?thesis by (simp only: mult_div_mod_eq)
qed

lemma pieces_prefix:
  assumes "fill_all f (pieces c bs k) out = Inr x" "j \<le> k"
  shows "\<exists>y. fill_all f (pieces c bs j) out = Inr y"
proof -
  have "pieces c bs k = pieces c bs j @ map (piece c bs) [j..<k]"
    using upt_add_eq_append [of 0 j "k - j"] assms(2) by (simp add: pieces_def)
  then show ?thesis using assms(1) by (auto simp: fill_all_append bindE_Inr_iff)
qed

lemma howmany_eqI: "c * q < n \<Longrightarrow> n \<le> c * Suc q \<Longrightarrow> howmany n c = Suc q"
  unfolding howmany_def by (rule div_nat_eqI) (auto simp: mult.commute)

lemma howmany_gt:
  assumes "c * q < n" "0 < c"
  shows "Suc q \<le> howmany n c"
proof (cases c)
  case (Suc d)
  have "Suc q * c \<le> n + (c - 1)" using assms Suc by (simp add: mult.commute)
  then have "Suc q * c div c \<le> howmany n c" unfolding howmany_def by (rule div_le_mono)
  moreover have "Suc q * c div c = Suc q" using Suc by (simp only: nonzero_mult_div_cancel_right nat.distinct not_False_eq_True)
  ultimately show ?thesis by simp
qed (use assms in simp)

lemma nat_int_diff: "nat (int n - int m) = n - m"
  by simp

lemma record_contents:
  assumes "full_recs recs" "k < length recs" "recs ! k = Some b"
  shows "take TP_BSIZE (drop (TP_BSIZE * k) (contents recs)) = b"
proof -
  have "contents (drop k recs) = drop (TP_BSIZE * k) (contents recs)"
    using drop_contents [OF assms(1)] assms(2) by simp
  moreover have "drop k recs = Some b # drop (Suc k) recs" using assms(2,3) by (simp add: Cons_nth_drop_Suc [symmetric])
  moreover have "length b = TP_BSIZE"
    using bspec [OF assms(1) [unfolded full_recs_def] nth_mem [OF assms(2)]] assms(3) by (simp add: rec_bytes_def)
  ultimately show ?thesis by (metis contents_simps(2) rec_bytes_def option.simps(5) append_eq_conv_conj)
qed

lemma streaming_data:
  assumes s: "streaming cfg h recs n F out0 k g" and k: "TP_BSIZE * k < n" "recs ! k = Some b" and t: "tape r = b # T"
  shows "\<exists>g' r'. get_record cfg h True (g, r) = Inr (g', r') \<and> advanced r T r'
    \<and> streaming cfg h recs n F out0 (Suc k) (g'\<lparr>left := left g' - 1024\<rparr>)"
proof -
  note i = streamingD [OF s]
  let ?c = "F * TP_BSIZE" and ?q = "k div F" and ?p = "k mod F" and ?cont = "contents recs"
  let ?X = "drop (?c * ?q) ?cont"
  obtain r' where r': "readtape r = Inr (b, r')" "advanced r T r'" using readtape_advanced [OF t] by blast
  have kl: "k < length recs" using k(1) i(3) by (simp add: TP_BSIZE_def)
  have kh: "Suc k \<le> howmany n TP_BSIZE" using k(1) by (simp add: howmany_def TP_BSIZE_def)
  let ?g = "g\<lparr>pend := pend g @ [b]\<rparr>"
  have cat: "concat (pend ?g) = take (TP_BSIZE * Suc ?p) ?X"
  proof -
    have "b = take TP_BSIZE (drop (TP_BSIZE * ?p) ?X)"
      using record_contents [OF i(2) kl k(2)] blocks_of [of F k] by (simp add: add.commute)
    then have "concat (pend ?g) = take (TP_BSIZE * ?p) ?X @ take TP_BSIZE (drop (TP_BSIZE * ?p) ?X)"
      using i(11) by simp
    also have "\<dots> = take (TP_BSIZE * ?p + TP_BSIZE) ?X" by (rule take_add [symmetric])
    finally show ?thesis by (simp add: add.commute)
  qed
  have lf: "left g - 1024 = int n - int (TP_BSIZE * Suc k)" using i(8) by (simp add: TP_BSIZE_def)
  show ?thesis
  proof (cases "Suc ?p = F")
    case False
    then have m: "Suc k mod F = Suc ?p" "Suc k div F = ?q" using i(5) by (simp_all add: mod_Suc div_Suc)
    have "get_record cfg h True (g, r) = Inr (?g, r')"
      using r'(1) False i(4,10) by (simp add: get_record_def Let_def TP_BSIZE_def)
    moreover have "streaming cfg h recs n F out0 (Suc k) (?g\<lparr>left := left ?g - 1024\<rparr>)"
      by (rule streamingI [OF i(1-6) kh]; (unfold m)?) (use lf cat i(9,10,12) in simp_all)
    ultimately show ?thesis using r'(2) by blast
  next
    case True
    then have m: "Suc k mod F = 0" "Suc k div F = Suc ?q" by (simp_all add: mod_Suc div_Suc)
    have ck: "?c * ?q + TP_BSIZE * ?p = TP_BSIZE * k" by (rule blocks_of)
    have cF: "TP_BSIZE * Suc ?p = ?c" using True by (metis mult.commute)
    have pb: "pend_bytes (fssize cfg) ?g = piece ?c (take n ?cont) ?q"
    proof (cases "left g > 1024")
      case big: True
      then have "int (TP_BSIZE * Suc k) < int n" using lf by linarith
      then have "TP_BSIZE * Suc k < n" by (simp only: of_nat_less_iff)
      moreover have "TP_BSIZE * Suc k = ?c * ?q + ?c" using ck cF unfolding mult_Suc_right by linarith
      ultimately have "?c \<le> n - ?c * ?q" by linarith
      then show ?thesis
        using big cat cF i(4) by (simp add: pend_bytes_def piece_def drop_take min_def)
    next
      case small: False
      have l: "left g = int n - int (?c * ?q) - int (TP_BSIZE * ?p)" using i(8) ck by linarith
      then have e: "nat ((int (length (pend ?g)) - 1) * 1024 + left g) = n - ?c * ?q"
      proof -
        have "(int (length (pend ?g)) - 1) * 1024 = int (TP_BSIZE * ?p)" using i(10) by (simp add: TP_BSIZE_def)
        then have "(int (length (pend ?g)) - 1) * 1024 + left g = int n - int (?c * ?q)" using l by linarith
        then show ?thesis by (simp only: nat_int_diff)
      qed
      have "int ?c = int TP_BSIZE + int (TP_BSIZE * ?p)" using cF by (metis mult_Suc_right of_nat_add)
      moreover have "int TP_BSIZE = 1024" by (simp add: TP_BSIZE_def)
      ultimately have "int n \<le> int (?c * ?q) + int ?c" using small l by linarith
      then have "n - ?c * ?q \<le> ?c" by (simp only: of_nat_add [symmetric] of_nat_le_iff le_diff_conv add.commute)
      then show ?thesis
        using small cat cF e by (simp add: pend_bytes_def piece_def drop_take min_def)
    qed
    have "?c * ?q < n" using k(1) ck by linarith
    then have "Suc ?q \<le> howmany n ?c" using i(5) by (intro howmany_gt) (simp_all add: TP_BSIZE_def)
    with i(6) obtain y where y: "fill_all (fill h) (pieces ?c (take n ?cont) (Suc ?q)) out0 = Inr y"
      by (auto dest: pieces_prefix)
    then have f: "fill h (piece ?c (take n ?cont) ?q) (outp g) = Inr y"
      using i(12) by (simp add: pieces_Suc fill_all_append fill_all_Nil bindE_Inr_right del: fill_all.simps(1))
    let ?g' = "?g\<lparr>pend := [], last_hole := False, outp := y\<rparr>"
    have "get_record cfg h True (g, r) = Inr (?g', r')"
      using r'(1) True i(4,10) pb f by (simp add: get_record_def Let_def TP_BSIZE_def)
    moreover have "streaming cfg h recs n F out0 (Suc k) (?g'\<lparr>left := left ?g' - 1024\<rparr>)"
      by (rule streamingI [OF i(1-6) kh]; (unfold m)?) (use lf y in simp_all)
    ultimately show ?thesis using r'(2) by blast
  qed
qed

interpretation stream: file_receiver cfg h recs n "streaming cfg h recs n F out0" for cfg h recs n F out0
proof unfold_locales
  fix k g b and r :: rstate and T
  assume s: "streaming cfg h recs n F out0 k g"
  show "left g = int n - int (TP_BSIZE * k)" "n \<le> TP_BSIZE * length recs" by (rule streamingD [OF s])+
  show "\<exists>g' r'. get_record cfg h True (g, r) = Inr (g', r') \<and> advanced r T r'
      \<and> streaming cfg h recs n F out0 (Suc k) (g'\<lparr>left := left g' - 1024\<rparr>)"
    if "TP_BSIZE * k < n" "recs ! k = Some b" "tape r = b # T"
    by (rule streaming_data [OF s that])
  show "\<exists>g'. get_record cfg h False (g, r) = Inr (g', r)
      \<and> streaming cfg h recs n F out0 (Suc k) (g'\<lparr>left := left g' - 1024\<rparr>)"
    if "TP_BSIZE * k < n" "recs ! k = None"
  proof -
    have "k < length recs" using that(1) streamingD(3) [OF s] by (simp add: TP_BSIZE_def)
    then have "None \<in> set recs" using that(2) by (metis nth_mem)
    then show ?thesis using streamingD(1) [OF s] by simp
  qed
qed

lemma streaming_finish:
  assumes s: "streaming cfg h recs n F out0 (howmany n TP_BSIZE) g" and n: "0 < n"
    and all: "fill_all (fill h) (pieces (F * TP_BSIZE) (take n (contents recs)) (howmany n (F * TP_BSIZE))) out0 = Inr x"
  shows "finish_file h m g = Inr x"
proof -
  note i = streamingD [OF s]
  let ?L = "howmany n TP_BSIZE"
  let ?c = "F * TP_BSIZE" and ?q = "?L div F" and ?p = "?L mod F" and ?cont = "contents recs"
  have L: "n \<le> TP_BSIZE * ?L" "TP_BSIZE * (?L - 1) < n"
    using n by (simp_all add: howmany_def TP_BSIZE_def)
  have ck: "?c * ?q + TP_BSIZE * ?p = TP_BSIZE * ?L" by (rule blocks_of)
  have c0: "0 < ?c" using i(5) by (simp add: TP_BSIZE_def)
  have "int n \<le> int (TP_BSIZE * ?L)" using L(1) by (simp only: of_nat_le_iff)
  then have left: "left g \<le> 0" using i(8) by linarith
  show ?thesis
  proof (cases "?p = 0")
    case True
    then have pend: "pend g = []" using i(10) by simp
    have "?q \<noteq> 0" using True L(1) n ck by (metis add_0 mult_0_right not_less)
    then obtain q where q: "?q = Suc q" by (cases ?q) auto
    have "TP_BSIZE \<le> ?c" using i(5) by simp
    moreover have "TP_BSIZE * (?L - 1) = TP_BSIZE * ?L - TP_BSIZE" by (simp add: diff_mult_distrib2)
    moreover have "TP_BSIZE * ?L = ?c * q + ?c" using ck True q by simp
    ultimately have "?c * q < n" "n \<le> ?c * Suc q" using L unfolding mult_Suc_right by linarith+
    then have "howmany n ?c = ?q" using howmany_eqI q by simp
    then have "outp g = x" using all i(12) by simp
    then show ?thesis using pend left i(9) by (simp add: finish_file_def)
  next
    case False
    then have pend: "pend g \<noteq> []" using i(10) by auto
    have l: "int (length (pend g)) * 1024 + left g = int n - int (?c * ?q)"
    proof -
      have "left g = int n - int (?c * ?q) - int (TP_BSIZE * ?p)" using i(8) ck by linarith
      then show ?thesis using i(10) by (simp add: TP_BSIZE_def)
    qed
    have pF: "TP_BSIZE * ?p < ?c" using i(5) by (simp add: TP_BSIZE_def)
    have "?c * ?q < n"
    proof -
      have "TP_BSIZE * (?L - 1) = TP_BSIZE * ?L - TP_BSIZE" by (simp add: diff_mult_distrib2)
      moreover have "TP_BSIZE \<le> TP_BSIZE * ?p" using False by simp
      ultimately show ?thesis using L(2) ck by linarith
    qed
    moreover have "n \<le> ?c * Suc ?q" using L(1) ck pF unfolding mult_Suc_right by linarith
    ultimately have q: "howmany n ?c = Suc ?q" by (rule howmany_eqI)
    have pc: "take (nat (int (length (pend g)) * 1024 + left g)) (concat (pend g)) = piece ?c (take n ?cont) ?q"
    proof -
      have a: "n - ?c * ?q \<le> TP_BSIZE * ?p" using L(1) ck by linarith
      then have b: "n - ?c * ?q \<le> ?c" using pF by linarith
      show ?thesis
        unfolding l i(11) nat_int_diff piece_def drop_take take_take min_absorb1 [OF a] min_absorb2 [OF b] ..
    qed
    have "fill h (piece ?c (take n ?cont) ?q) (outp g) = Inr x"
      using all i(12) unfolding q
      by (simp add: pieces_Suc fill_all_append fill_all_Nil bindE_Inr_right del: fill_all.simps(1))
    then show ?thesis using pend left pc i(9) by (simp add: finish_file_def)
  qed
qed

section \<open>Extracting a directory\<close>

lemma linked_good: "linked buf off es fin \<Longrightarrow> list_all good_entry es"
  by (induction es arbitrary: off) auto

lemma linked_done: "linked buf fin es fin \<Longrightarrow> es = []"
proof (cases es)
  case (Cons e es')
  assume "linked buf fin es fin"
  then obtain rl where "DIRSIZ e \<le> rl" "linked buf (fin + rl) es' fin" using Cons by auto
  then have "fin + rl \<le> fin" "0 < rl" using linked_le DIRSIZ_pos [of e] by fastforce+
  then show ?thesis by simp
qed

definition live_entries :: "direct list \<Rightarrow> direct list" where
  "live_entries es = filter (\<lambda>e. d_ino e \<noteq> 0) es"

lemma fill_directory:
  assumes r: "native cfg r" and c: "DIRBLKSIZ_DUMP dvd c" "0 < c"
    and bs: "DIRBLKSIZ_DUMP dvd length bs" "linked bs 0 es (length bs)" "0 < length bs"
  shows "fill_all (putdir cfg r past) (pieces c bs (howmany (length bs) c)) ds = putents (live_entries es) ds"
proof -
  let ?k = "howmany (length bs) c"
  have "?k * c \<le> length bs + (c - 1)" unfolding howmany_def by (rule div_times_less_eq_dividend)
  then have "?k * c \<le> length bs + c" by linarith
  moreover have "length bs \<le> c * ?k" using howmany_mult_ge [OF c(2), of "length bs"] by (simp add: mult.commute)
  then have m: "min (c * ?k) (length bs) = length bs" by simp
  ultimately obtain es1 es2 where e: "es = es1 @ es2" "linked bs (min (c * ?k) (length bs)) es2 (length bs)"
    "fill_all (putdir cfg r past) (pieces c bs ?k) ds = putents (filter (\<lambda>e. d_ino e \<noteq> 0) es1) ds"
    using fill_all_putdir [OF r c bs(1,2), of ?k past ds] by blast
  have "es2 = []" using e(2) linked_done unfolding m by blast
  then show ?thesis using e by (simp add: live_entries_def)
qed

definition all_data :: "byte list option list \<Rightarrow> bool" where
  "all_data recs \<longleftrightarrow> None \<notin> set recs \<and> full_recs recs"

lemma dvd_c: "DIRBLKSIZ_DUMP dvd F * TP_BSIZE"
proof -
  have "DIRBLKSIZ_DUMP dvd TP_BSIZE" by (simp add: DIRBLKSIZ_DUMP_def TP_BSIZE_def)
  then show ?thesis by simp
qed

lemma extract_dir_segments:
  assumes recs: "all_data recs" "n \<le> TP_BSIZE * length recs" "0 < n" "n < 2 ^ 63" "DIRBLKSIZ_DUMP dvd n"
      "linked (take n (contents recs)) 0 es n"
    and F: "fssize cfg = F * TP_BSIZE" "0 < F" and P: "plain_file P" and sz: "\<And>s. P s \<Longrightarrow> nbi_size (c_dinode s) = of_nat n"
    and r: "native cfg r" "\<not> readmapflag r" "\<not> readingmaps r" "r_spcl r = mkchecksum LE s"
      "tape r = somes c @ rest @ encode_spcl LE (mkchecksum LE nx) # T"
    and segs: "recs = concat (c # cs)" "[] \<notin> set (c # cs)" "TP_BSIZE * length (concat (butlast (c # cs))) < n"
    and hdr: "segment_header P TS_INODE c s" "file_recs LE P TS_ADDR cs rest"
    and nx: "plain_header nx" "c_type nx = TS_INODE" "c_flags nx AND DR_EXTATTRIBUTES = 0"
    and d: "dirs_ready D ds" "dir_space (length es + 2 + k) ds" and junk: "2 \<le> length (stack_bytes mem)"
  shows "\<exists>r' ds'. extract_dir cfg mem ip (r, ds) = Inr (r', ds') \<and> dirs_ready (D(cur_ino r \<mapsto> live_entries es)) ds'
    \<and> r_spcl r' = mkchecksum LE nx \<and> tape r' = T \<and> cur_dip r' = Some (c_dinode nx) \<and> cur_ino r' = c_inumber nx
    \<and> native cfg r' \<and> \<not> readmapflag r' \<and> \<not> readingmaps r' \<and> dir_space k ds'"
proof -
  let ?ru = "r\<lparr>cur_action := USING\<rparr>" and ?bs = "take n (contents recs)" and ?c = "F * TP_BSIZE"
  let ?ino = "cur_ino r" and ?n0 = "length (df ds)"
  let ?ds0 = "ds\<lparr>inotab_tbl := allocinotab ?ino ?n0 (inotab_tbl ds)\<rparr>"
  let ?h = "dir_handlers cfg ?ru mem"
  have nat: "native cfg ?ru" using r(1) by (simp add: native_def)
  have sp: "seekpt ds = ?n0" "writing ?n0 [] ds" using d(1) by (simp_all add: dirs_ready_def)
  have w0: "writing ?n0 [] ?ds0" using sp(2) writing_cong [of ?ds0 ds] by simp
  have good: "list_all good_entry (live_entries es)"
    using linked_good [OF recs(6)] by (auto simp: live_entries_def list_all_iff)
  have room: "dir_space (length (live_entries es) + (2 + k)) ?ds0"
  proof -
    have same: "df ?ds0 = df ds" "df_room ?ds0 = df_room ds" by simp_all
    have "length (live_entries es) \<le> length es" by (simp add: live_entries_def)
    then have "DIRBLKSIZ * (length (live_entries es) + (2 + k) + 1) \<le> DIRBLKSIZ * (length es + 2 + k + 1)"
      by (intro mult_le_mono2) simp
    then show ?thesis using d(2) unfolding dir_space_def same by linarith
  qed
  obtain ds1 where ds1: "putents (live_entries es) ?ds0 = Inr ds1" "writing ?n0 (live_entries es) ds1"
    "same_table ?ds0 ds1" "dir_space (2 + k) ds1"
    using putents_writing [OF w0 good room] by auto
  have len: "length ?bs = n" using recs(1,2) length_contents by (simp add: all_data_def)
  have c0: "0 < ?c" using F(2) by (simp add: TP_BSIZE_def)
  have fill: "fill_all (fill ?h) (pieces ?c ?bs (howmany n ?c)) ?ds0 = Inr ds1"
  proof -
    have f: "DIRBLKSIZ_DUMP dvd length ?bs" "linked ?bs 0 es (length ?bs)" "0 < length ?bs"
      unfolding len by (rule recs)+
    show ?thesis
      using fill_directory [OF nat dvd_c c0 f, of "past_data mem" ?ds0, unfolded len] ds1(1)
      by (simp add: dir_handlers_def)
  qed
  have I0: "streaming cfg ?h recs n F ?ds0 0 \<lparr> pend = [], left = int n, last_hole = False, outp = ?ds0 \<rparr>"
    by (rule streamingI) (use recs(1,2) F fill in \<open>simp_all add: all_data_def pieces_def\<close>)
  have fin: "\<exists>x. finish_file ?h n g = Inr x \<and> x = ds1"
    if "streaming cfg ?h recs n F ?ds0 (howmany n TP_BSIZE) g" for g
    using streaming_finish [OF that recs(3) fill] by blast
  have ru: "\<not> readmapflag ?ru" "\<not> readingmaps ?ru" "r_spcl ?ru = mkchecksum LE s"
    "tape ?ru = somes c @ rest @ encode_spcl LE (mkchecksum LE nx) # T"
    using r by simp_all
  obtain r1 where r1: "getfile cfg ?h ?ds0 ?ru = Inr (ds1, r1)" "r_spcl r1 = mkchecksum LE nx" "tape r1 = T"
    "cur_dip r1 = Some (c_dinode nx)" "cur_ino r1 = c_inumber nx" "native cfg r1" "\<not> readmapflag r1" "\<not> readingmaps r1"
    using stream.getfile_received [where Q = "\<lambda>x. x = ds1", OF I0 fin recs(3,4) P sz segs hdr nat ru nx(1,2)] by blast
  have "c_flags (r_spcl r1) AND DR_EXTATTRIBUTES = 0" using r1(2) nx(3) by simp
  then have x: "dir_xattrs cfg None r1 = Inr (None, r1)" by (subst dir_xattrs.simps) simp
  have live: "list_all (\<lambda>e. d_ino e \<noteq> 0) (live_entries es)" by (simp add: live_entries_def list_all_iff)
  have r1k: "dir_space 1 ds1" using ds1(4) by (simp add: dir_space_def DIRBLKSIZ_def)
  obtain ds' where ds': "finish_dir mem ?ino ip ?n0 None ds1 = Inr ds'" "dirs_ready (D(?ino \<mapsto> live_entries es)) ds'"
    "length (df ds') \<le> length (df ds1) + 2 * DIRBLKSIZ" "df_room ds' = df_room ds"
    using finish_dir_ready [OF d(1) ds1(2) ds1(3) r1k live junk, of ip None] by blast
  have "df_room ds1 = df_room ds" using ds1(3) by (simp add: same_table_def)
  then have sp': "dir_space k ds'" using ds1(4) ds'(3,4) by (simp add: dir_space_def DIRBLKSIZ_def)
  then have "extract_dir cfg mem ip (r, ds) = Inr (r1, ds')"
    using r1(1) x sp(1) ds'(1) by (simp add: extract_dir_def Let_def)
  then show ?thesis using r1 ds'(2) sp' by blast
qed

end
