(* ===== verification/Dir_Convert.thy ===== *)
theory Dir_Convert
  imports Dir_Extract
begin

text \<open>
  The directories of dump (\<open>convert_dir\<close> in dump/traverse.c) are directories that restore reads:
  \<open>converted\<close> is the invariant of the conversion, and the whole of a directory is \<open>linked\<close>.
\<close>

section \<open>Directories that dump has converted\<close>

text \<open>What an entry of the dumped directory becomes.\<close>

definition entry_name :: "ext2_dir_entry \<Rightarrow> byte list" where
  "entry_name d = strncpy_bytes (name_length d) (de_name d)"

definition entry_like :: "ext2_dir_entry \<Rightarrow> direct \<Rightarrow> bool" where
  "entry_like d e \<longleftrightarrow> d_ino e = de_inode d \<and> d_type e = dirent_type (de_name_len d)
     \<and> unat (d_namlen e) = name_length d \<and> take (name_length d + 1) (d_name e) = entry_name d @ [0]"

lemma length_entry_name [simp]: "length (entry_name d) = name_length d"
proof -
  have "length (takeWhile P (take n xs)) \<le> n" for P :: "char \<Rightarrow> bool" and n xs
    using length_takeWhile_le [of P "take n xs"] by simp
  then show ?thesis by (simp add: entry_name_def strncpy_bytes_def Let_def)
qed

lemma name_length_less: "name_length d < 256"
proof -
  have "unat (de_name_len d AND 0xFF) \<le> unat (0xFF :: u16)"
    by (simp only: word_le_nat_alt [symmetric] word_and_le1)
  then show ?thesis by (simp add: name_length_def)
qed

lemma at_drop: "at mem i n @ drop (i + n) mem = drop i mem"
  by (metis add.commute append_take_drop_id at_def drop_drop)

lemma direct_read:
  assumes "8 \<le> length mem"
  shows "direct_bytes (read_direct mem) = mem"
proof -
  have b: "[get LE (at mem i 1)] = at mem i 1" if "i < length mem" for i
    using that by (cases "drop i mem") (simp_all add: at_def get_byte)
  have "put LE 4 (get LE (at mem 0 4) :: u32) = at mem 0 4" "put LE 2 (get LE (at mem 4 2) :: u16) = at mem 4 2"
    using put_get [where bs = "at mem 0 4" and 'a = 32] put_get [where bs = "at mem 4 2" and 'a = 16] assms
    by (simp_all add: at_def)
  moreover have "[get LE (at mem 6 1)] = at mem 6 1" "[get LE (at mem 7 1)] = at mem 7 1"
    by (rule b; use assms in simp)+
  ultimately have "direct_bytes (read_direct mem) = at mem 0 4 @ at mem 4 2 @ at mem 6 1 @ at mem 7 1 @ drop 8 mem"
    by (simp add: direct_bytes_def read_direct_def flip: append_Cons append.simps(1))
  also have "\<dots> = mem"
    using at_drop [of mem 0 4] at_drop [of mem 4 2] at_drop [of mem 6 1] at_drop [of mem 7 1] by simp
  finally show ?thesis .
qed

text \<open>
  The conversion after some entries: the last one reaches up to the offset, so that padding extends it.
\<close>

definition converted :: "direct list \<Rightarrow> convert_dir_context \<Rightarrow> bool" where
  "converted es p \<longleftrightarrow> cd_bs p = DIRBLKSIZ_DUMP \<and> linked (cd_buf p) 0 es (cd_offset p) \<and>
     (if es = [] then cd_offset p = 0
      else linked (cd_buf p) 0 (butlast es) (cd_prev_offset p) \<and> cd_prev_offset p < cd_offset p
        \<and> stored (cd_buf p) (cd_prev_offset p) (cd_offset p - cd_prev_offset p) (last es)
        \<and> cd_prev_offset p + DIRSIZ (last es) \<le> length (cd_buf p) \<and> cd_prev_offset p + DIRSIZ (last es) \<le> cd_offset p
        \<and> good_entry (last es) \<and> (cd_offset p - cd_prev_offset p) mod 4 = 0 \<and> cd_offset p mod 4 = 0
        \<and> cd_prev_offset p mod DIRBLKSIZ_DUMP + (cd_offset p - cd_prev_offset p) \<le> DIRBLKSIZ_DUMP)"

lemma linked_local:
  "linked buf off es fin \<Longrightarrow> take fin buf' = take fin buf \<Longrightarrow> length buf' = length buf \<Longrightarrow> fin \<le> length buf \<Longrightarrow>
     linked buf' off es fin"
proof (induction es arbitrary: off)
  case (Cons e es)
  then obtain rl where rl: "stored buf off rl e" "good_entry e" "off + DIRSIZ e \<le> length buf" "DIRSIZ e \<le> rl"
    "rl mod 4 = 0" "off mod DIRBLKSIZ_DUMP + rl \<le> DIRBLKSIZ_DUMP" "linked buf (off + rl) es fin" by auto
  have l: "off + DIRSIZ e \<le> fin" using rl(4) linked_le [OF rl(7)] by simp
  have "stored buf' off rl e"
    using rl(1) at_take [OF l, of buf] at_take [OF l, of buf'] Cons.prems(2) by (simp add: stored_def)
  then show ?case using rl Cons.IH [OF rl(7) Cons.prems(2-4)] Cons.prems(3) by auto
qed simp

lemma dvd_of_mod: "(a::nat) mod 4 = 0 \<Longrightarrow> b mod 4 = 0 \<Longrightarrow> b \<le> a \<Longrightarrow> (a - b) mod 4 = 0"
  by presburger

lemma linked_single:
  "stored buf off rl e \<Longrightarrow> good_entry e \<Longrightarrow> off + DIRSIZ e \<le> length buf \<Longrightarrow> DIRSIZ e \<le> rl \<Longrightarrow> rl mod 4 = 0 \<Longrightarrow>
     off mod DIRBLKSIZ_DUMP + rl \<le> DIRBLKSIZ_DUMP \<Longrightarrow> fin = off + rl \<Longrightarrow> linked buf off [e] fin"
  by auto

lemma pad_converted:
  assumes c: "converted es p" "es \<noteq> []" and n: "cd_offset p mod DIRBLKSIZ_DUMP \<noteq> 0"
    and room: "cd_offset p \<le> length (cd_buf p)"
  shows "converted es (pad_dirblk LE p)" "length (cd_buf (pad_dirblk LE p)) = length (cd_buf p)"
    "DIRBLKSIZ_DUMP dvd cd_offset (pad_dirblk LE p)" "cd_offset p \<le> cd_offset (pad_dirblk LE p)"
proof -
  let ?o = "cd_offset p" and ?v = "cd_prev_offset p" and ?b = "DIRBLKSIZ_DUMP" and ?e = "last es"
  let ?k = "?b - ?o mod ?b" and ?rl = "?o - ?v"
  have bs: "cd_bs p = ?b" and lk: "linked (cd_buf p) 0 (butlast es) ?v" "?v < ?o" "stored (cd_buf p) ?v ?rl ?e"
    "?v + DIRSIZ ?e \<le> length (cd_buf p)" "?v + DIRSIZ ?e \<le> ?o" "good_entry ?e" "?rl mod 4 = 0" "?o mod 4 = 0"
    "?v mod ?b + ?rl \<le> ?b"
    using c by (auto simp: converted_def)
  have n12: "12 \<le> DIRSIZ ?e" by (rule DIRSIZ_pos)
  have rl: "?rl \<le> ?b" using lk(9) by simp
  have g: "get LE (at (cd_buf p) (?v + 4) 2) = (of_nat ?rl :: u16)"
  proof -
    have "?rl < 2 ^ 16" using rl by (simp add: DIRBLKSIZ_DUMP_def)
    from stored_read(2) [OF lk(3) this] have "d_reclen (read_direct (drop ?v (cd_buf p))) = of_nat ?rl"
      by (metis of_nat_unat ucast_id)
    then show ?thesis by (simp add: read_direct_def at_def add.commute)
  qed
  have p': "pad_dirblk LE p = p\<lparr>cd_buf := overlay (cd_buf p) (?v + 4) (put LE 2 (of_nat (?rl + ?k) :: u16)), cd_offset := ?o + ?k\<rparr>"
    by (simp add: pad_dirblk_def add_reclen_def Let_def bs g)
  let ?buf = "cd_buf (pad_dirblk LE p)"
  have buf: "?buf = overlay (cd_buf p) (?v + 4) (put LE 2 (of_nat (?rl + ?k) :: u16))" by (simp add: p')
  show len: "length ?buf = length (cd_buf p)" using lk(4) n12 by (simp add: buf length_overlay)
  show "cd_offset p \<le> cd_offset (pad_dirblk LE p)" by (simp add: p')
  have b4: "?b mod 4 = 0" and b0: "0 < ?b" by (simp_all add: DIRBLKSIZ_DUMP_def)
  have lt: "?o mod ?b < ?b" using b0 by simp
  have "?o + ?k = ?o - ?o mod ?b + ?b" using lt mod_less_eq_dividend [of ?o ?b] by linarith
  also have "\<dots> = ?b * (?o div ?b) + ?b" by (simp add: minus_mod_eq_mult_div)
  finally have ok: "?o + ?k = ?b * (?o div ?b) + ?b" .
  then show dv: "?b dvd cd_offset (pad_dirblk LE p)" by (simp add: p')
  have same_block: "?v div ?b = ?o div ?b"
  proof (rule div_nat_eqI [symmetric])
    have v: "?v = ?b * (?v div ?b) + ?v mod ?b" by simp
    have "?o \<le> ?b * (?v div ?b) + ?b" using lk(2,9) v by linarith
    moreover have "?o \<noteq> ?b * (?v div ?b) + ?b"
    proof
      assume e: "?o = ?b * (?v div ?b) + ?b"
      have "(?b * (?v div ?b) + ?b) mod ?b = 0" by simp
      then show False using n unfolding e [symmetric] by simp
    qed
    ultimately show "?o < ?b * Suc (?v div ?b)" unfolding mult_Suc_right by linarith
    show "?b * (?v div ?b) \<le> ?o" using lk(2) v by linarith
  qed
  have "?b * (?o div ?b) + ?v mod ?b = ?v" using mult_div_mod_eq [of ?b ?v] unfolding same_block .
  then have "?v mod ?b + (?o + ?k - ?v) = ?b" using ok lk(2) by linarith
  then have fit: "?v mod ?b + (?o + ?k - ?v) \<le> ?b" by simp
  have tk: "take ?v ?buf = take ?v (cd_buf p)" unfolding buf by (rule take_overlay) (use lk(4) n12 in simp_all)
  have vl: "?v \<le> length (cd_buf p)" using lk(4) by simp
  have lk1: "linked ?buf 0 (butlast es) ?v" by (rule linked_local [OF lk(1) tk len vl])
  have e: "?rl + ?k = ?o + ?k - ?v" using lk(2) by simp
  have st: "stored ?buf ?v (?o + ?k - ?v) ?e"
    unfolding buf e by (rule extend_stored [OF lk(3,4,6)])
  have m4: "(?o + ?k) mod 4 = 0"
  proof -
    have "4 dvd ?b" using b4 by auto
    then show ?thesis unfolding ok by auto
  qed
  have v4: "?v mod 4 = 0" using lk(2,7,8) by presburger
  have r4: "(?o + ?k - ?v) mod 4 = 0" by (rule dvd_of_mod [OF m4 v4]) (use lk(2) in simp)
  have "linked ?buf ?v [?e] (?o + ?k)"
    by (rule linked_single [OF st lk(6)]) (use lk(2,4,5) len fit r4 in linarith)+
  then have "linked ?buf 0 (butlast es @ [?e]) (?o + ?k)" using lk1 unfolding linked_append by blast
  moreover have "butlast es @ [?e] = es" using c(2) by simp
  ultimately have "linked ?buf 0 es (cd_offset (pad_dirblk LE p))" by (simp add: p')
  moreover have "cd_bs (pad_dirblk LE p) = ?b" "cd_prev_offset (pad_dirblk LE p) = ?v" "cd_offset (pad_dirblk LE p) = ?o + ?k"
    using bs by (simp_all add: p')
  ultimately show "converted es (pad_dirblk LE p)"
    unfolding converted_def using c(2) lk1 st lk(2,4-6) len fit r4 m4 by (simp only: if_False) (intro conjI TrueI refl; linarith)
qed

lemma reclen_bounds:
  "12 \<le> DIR_REC_LEN (name_length d + 1)" "DIR_REC_LEN (name_length d + 1) \<le> 264" "DIR_REC_LEN n mod 4 = 0"
  "n + 8 \<le> DIR_REC_LEN n"
  using name_length_less [of d] by (simp_all add: DIR_REC_LEN_def)

lemma length_converted_entry:
  "length (put LE 4 (i :: u32) @ put LE 2 (r :: u16) @ [t, l] @ xs @ [0]) = length xs + 9"
  by simp

lemma entry_room: "length (entry_name d) + 9 \<le> DIR_REC_LEN (name_length d + 1)"
  using reclen_bounds(4) [of "name_length d + 1"] by simp

lemma dtype_name_read:
  assumes "at mem 0 (9 + length xs) = put LE 4 (i :: u32) @ put LE 2 (r :: u16) @ [t, l] @ xs @ [0]"
  shows "d_ino (read_direct mem) = i" "d_reclen (read_direct mem) = r" "d_type (read_direct mem) = t"
    "d_namlen (read_direct mem) = l" "take (length xs + 1) (d_name (read_direct mem)) = xs @ [0]"
proof -
  let ?m = "put LE 4 i @ put LE 2 r @ [t, l] @ xs @ [0]"
  have tk: "take (9 + length xs) mem = take (9 + length xs) ?m" using assms by (simp add: at_def)
  have n: "8 \<le> 9 + length xs" by simp
  have m: "d_ino (read_direct ?m) = i" "d_reclen (read_direct ?m) = r" "d_type (read_direct ?m) = t"
    "d_namlen (read_direct ?m) = l" "d_name (read_direct ?m) = xs @ [0]"
    by (simp_all add: read_direct_def at_def get_put get_byte)
  note rt = read_direct_take [OF tk n, unfolded m]
  show "d_ino (read_direct mem) = i" "d_reclen (read_direct mem) = r" "d_type (read_direct mem) = t"
    "d_namlen (read_direct mem) = l"
    by (rule rt)+
  show "take (length xs + 1) (d_name (read_direct mem)) = xs @ [0]" using rt(5) by simp
qed

text \<open>An entry of dump at an offset is one that restore reads.\<close>

lemma entry_converted:
  assumes b: "off + DIR_REC_LEN (name_length d + 1) \<le> length buf"
      "ent = put LE 4 (de_inode d) @ put LE 2 (of_nat (DIR_REC_LEN (name_length d + 1)) :: u16)
           @ [dirent_type (de_name_len d), of_nat (name_length d)] @ entry_name d @ [0]"
  shows "\<exists>e. entry_like d e \<and> good_entry e \<and> DIRSIZ e = DIR_REC_LEN (name_length d + 1)
    \<and> stored (overlay buf off ent) off (DIR_REC_LEN (name_length d + 1)) e"
proof -
  let ?rl = "DIR_REC_LEN (name_length d + 1)" and ?buf = "overlay buf off ent"
  let ?e = "read_direct (drop off ?buf)"
  have le: "length ent = name_length d + 9" using b(2) by simp
  have l: "length ?buf = length buf" using b(1) le entry_room [of d] by (simp add: length_overlay)
  have at: "at (drop off ?buf) 0 (9 + length (entry_name d)) = ent"
    using at_overlay_here [of off buf ent] b(1) le by (simp add: at_def add.commute)
  note rd = dtype_name_read [OF at [unfolded b(2)], folded b(2)]
  have nl: "unat (d_namlen ?e) = name_length d"
    using name_length_less [of d] by (simp add: rd(4) unat_of_nat)
  have lk: "entry_like d ?e" using rd(1,3,5) nl by (simp add: entry_like_def)
  have sz: "DIRSIZ ?e = ?rl" using nl by (simp add: DIRSIZ_def DIR_REC_LEN_def)
  have m8: "8 \<le> length (drop off ?buf)" using b(1) l reclen_bounds(1) [of d] by simp
  have db: "direct_bytes ?e = drop off ?buf" by (rule direct_read [OF m8])
  have "length (d_name ?e) = length ?buf - off - 8" by (simp add: read_direct_def)
  then have g: "good_entry ?e" using sz b(1) l reclen_bounds(1) [of d] by (simp add: good_entry_def)
  have "?e\<lparr>d_reclen := of_nat ?rl\<rparr> = ?e" using rd(2) by simp
  then have "stored ?buf off ?rl ?e" unfolding stored_def sz by (simp only: db at_def)
  then show ?thesis using lk g sz by blast
qed

lemma add_converted:
  assumes c: "converted es p" and fit: "cd_offset p mod DIRBLKSIZ_DUMP + DIR_REC_LEN (name_length d + 1) \<le> DIRBLKSIZ_DUMP"
    and room: "cd_offset p + DIR_REC_LEN (name_length d + 1) \<le> length (cd_buf p)"
    and ent: "ent = put LE 4 (de_inode d) @ put LE 2 (of_nat (DIR_REC_LEN (name_length d + 1)) :: u16)
           @ [dirent_type (de_name_len d), of_nat (name_length d)] @ entry_name d @ [0]"
    and p': "p' = p\<lparr>cd_buf := overlay (cd_buf p) (cd_offset p) ent, cd_prev_offset := cd_offset p,
             cd_offset := cd_offset p + DIR_REC_LEN (name_length d + 1)\<rparr>"
  shows "\<exists>e. entry_like d e \<and> converted (es @ [e]) p' \<and> length (cd_buf p') = length (cd_buf p)"
proof -
  let ?rl = "DIR_REC_LEN (name_length d + 1)" and ?o = "cd_offset p"
  obtain e where e: "entry_like d e" "good_entry e" "DIRSIZ e = ?rl" "stored (cd_buf p') ?o ?rl e"
    using entry_converted [OF room ent] by (auto simp: p')
  have ol: "?o \<le> length (cd_buf p)" using room by simp
  have le: "length ent = name_length d + 9" using ent by simp
  have len: "length (cd_buf p') = length (cd_buf p)" using room le entry_room [of d] by (simp add: p' length_overlay)
  have "take ?o (cd_buf p') = take ?o (cd_buf p)" using ol by (simp add: p' take_overlay)
  then have lk: "linked (cd_buf p') 0 es ?o"
    using c ol len linked_local [of "cd_buf p" 0 es ?o "cd_buf p'"] by (simp add: converted_def)
  have o4: "?o mod 4 = 0" using c by (auto simp: converted_def split: if_splits)
  have r: "12 \<le> ?rl" "?rl mod 4 = 0" by (rule reclen_bounds)+
  have f: "cd_offset p' = ?o + ?rl" "cd_prev_offset p' = ?o" "cd_bs p' = DIRBLKSIZ_DUMP"
    using c by (simp_all add: p' converted_def)
  have m: "(?o + ?rl) mod 4 = 0" using o4 r(2) by presburger
  have "linked (cd_buf p') ?o [e] (?o + ?rl)" using e r(2) fit room len by simp
  then have "linked (cd_buf p') 0 (es @ [e]) (?o + ?rl)" unfolding linked_append using lk by blast
  then have "converted (es @ [e]) p'"
    unfolding converted_def f using lk e r m fit room len by simp
  then show ?thesis using e(1) len by blast
qed

lemma cross_block:
  assumes "0 < r" "r \<le> (b :: nat)"
  shows "((off + r - 1) div b \<noteq> off div b) = (b < off mod b + r)"
proof -
  let ?m = "off mod b"
  have b: "0 < b" using assms by simp
  have "off + r - 1 = b * (off div b) + (?m + r - 1)" using assms(1) mult_div_mod_eq [of b off] by linarith
  then have "(off + r - 1) div b = off div b + (?m + r - 1) div b" using b by simp
  then have "((off + r - 1) div b \<noteq> off div b) = ((?m + r - 1) div b \<noteq> 0)" by simp
  also have "\<dots> = (b \<le> ?m + r - 1)" using b by (simp add: div_eq_0_iff not_less)
  also have "\<dots> = (b < ?m + r)" using assms(1) by linarith
  finally show ?thesis .
qed

lemma pad_offset: "cd_offset p \<le> cd_offset (pad_dirblk e p)"
  by (simp add: pad_dirblk_def Let_def)

lemma convert_offset: "cd_offset p \<le> cd_offset (convert_dir e excl d p)"
  using pad_offset [of p e] by (auto simp: convert_dir_def Let_def intro: order_trans)

lemma converts_offset: "cd_offset p \<le> cd_offset (fold (convert_dir e excl) ds p)"
  by (induction ds arbitrary: p) (auto intro: order_trans convert_offset)

lemma convert_dir_converted:
  assumes c: "converted es p" and x: "\<not> exclude_ino (de_inode d) excl"
    and room: "cd_offset (convert_dir LE excl d p) \<le> length (cd_buf p)"
  shows "\<exists>e. entry_like d e \<and> converted (es @ [e]) (convert_dir LE excl d p)
    \<and> length (cd_buf (convert_dir LE excl d p)) = length (cd_buf p)"
proof -
  let ?rl = "DIR_REC_LEN (name_length d + 1)" and ?b = DIRBLKSIZ_DUMP
  let ?ent = "put LE 4 (de_inode d) @ put LE 2 (of_nat ?rl :: u16)
           @ [dirent_type (de_name_len d), of_nat (name_length d)] @ entry_name d @ [0]"
  let ?put = "\<lambda>q. q\<lparr>cd_buf := overlay (cd_buf q) (cd_offset q) ?ent, cd_prev_offset := cd_offset q,
             cd_offset := cd_offset q + ?rl\<rparr>"
  have bs: "cd_bs p = ?b" and bn: "?b = 512" using c by (simp_all add: converted_def DIRBLKSIZ_DUMP_def)
  have r: "12 \<le> ?rl" "?rl \<le> 264" by (rule reclen_bounds)+
  have cr: "((cd_offset p + ?rl - 1) div cd_bs p \<noteq> cd_offset p div cd_bs p) = (?b < cd_offset p mod ?b + ?rl)"
    unfolding bs by (rule cross_block) (use r bn in simp_all)
  show ?thesis
  proof (cases "?b < cd_offset p mod ?b + ?rl")
    case False
    then have "convert_dir LE excl d p = ?put p"
      using x cr by (simp add: convert_dir_def Let_def entry_name_def)
    then show ?thesis using add_converted [OF c _ _ refl refl, of d] False room by simp
  next
    case True
    let ?q = "pad_dirblk LE p"
    have cd: "convert_dir LE excl d p = ?put ?q"
      using x cr True by (simp add: convert_dir_def Let_def entry_name_def)
    have n: "cd_offset p mod ?b \<noteq> 0" using True r bn by simp
    then have ne: "es \<noteq> []" using c by (auto simp: converted_def)
    have q: "cd_offset ?q + ?rl \<le> length (cd_buf p)" using room unfolding cd by simp
    have ol: "cd_offset p \<le> length (cd_buf p)" using q pad_offset [of p LE] by simp
    note pad = pad_converted [OF c ne n ol]
    have "cd_offset ?q mod ?b = 0" using pad(3) by simp
    then have fit: "cd_offset ?q mod ?b + ?rl \<le> ?b" using r bn by simp
    show ?thesis using add_converted [OF pad(1) fit _ refl refl] q pad(2) unfolding cd by simp
  qed
qed

lemma converts_converted:
  "converted es p \<Longrightarrow> cd_offset (fold (convert_dir LE excl) ds p) \<le> length (cd_buf p) \<Longrightarrow>
     \<exists>es'. list_all2 entry_like (filter (\<lambda>d. \<not> exclude_ino (de_inode d) excl) ds) es'
       \<and> converted (es @ es') (fold (convert_dir LE excl) ds p)
       \<and> length (cd_buf (fold (convert_dir LE excl) ds p)) = length (cd_buf p)"
proof (induction ds arbitrary: es p)
  case (Cons d ds)
  let ?p = "convert_dir LE excl d p"
  have fo: "cd_offset (fold (convert_dir LE excl) ds ?p) \<le> length (cd_buf p)" using Cons.prems(2) by simp
  show ?case
  proof (cases "exclude_ino (de_inode d) excl")
    case True
    then have "?p = p" by (simp add: convert_dir_def)
    then show ?thesis using Cons.IH [OF Cons.prems(1)] fo True by simp
  next
    case False
    have "cd_offset ?p \<le> length (cd_buf p)" using fo converts_offset [of ?p] by (rule order_trans [rotated])
    then obtain e where e: "entry_like d e" "converted (es @ [e]) ?p" "length (cd_buf ?p) = length (cd_buf p)"
      using convert_dir_converted [OF Cons.prems(1) False] by blast
    obtain es' where es': "list_all2 entry_like (filter (\<lambda>d. \<not> exclude_ino (de_inode d) excl) ds) es'"
      "converted ((es @ [e]) @ es') (fold (convert_dir LE excl) ds ?p)"
      "length (cd_buf (fold (convert_dir LE excl) ds ?p)) = length (cd_buf ?p)"
      using Cons.IH [OF e(2)] fo e(3) by auto
    then show ?thesis using e False by (intro exI [of _ "e # es'"]) simp
  qed
qed (auto intro: exI [of _ "[]"])

text \<open>The whole directory.\<close>

lemma convert_entries_linked:
  assumes "cd_offset (convert_entries LE excl ds buf) \<le> length buf"
  shows "\<exists>es. list_all2 entry_like (filter (\<lambda>d. \<not> exclude_ino (de_inode d) excl) ds) es
    \<and> linked (cd_buf (convert_entries LE excl ds buf)) 0 es (cd_offset (convert_entries LE excl ds buf))
    \<and> length (cd_buf (convert_entries LE excl ds buf)) = length buf
    \<and> DIRBLKSIZ_DUMP dvd cd_offset (convert_entries LE excl ds buf)"
proof -
  let ?q = "\<lparr> cd_buf = buf, cd_prev_offset = 0, cd_offset = 0, cd_bs = min DIRBLKSIZ_DUMP TP_BSIZE \<rparr>"
  let ?p = "fold (convert_dir LE excl) ds ?q"
  have i: "converted [] ?q" by (simp add: converted_def DIRBLKSIZ_DUMP_def TP_BSIZE_def)
  have "cd_offset ?p \<le> cd_offset (convert_entries LE excl ds buf)"
    by (simp add: convert_entries_def Let_def pad_offset)
  then have ol: "cd_offset ?p \<le> length buf" using assms by simp
  obtain es where es: "list_all2 entry_like (filter (\<lambda>d. \<not> exclude_ino (de_inode d) excl) ds) es" "converted es ?p"
    "length (cd_buf ?p) = length buf"
    using converts_converted [OF i, of excl ds] ol by auto
  have bs: "cd_bs ?p = DIRBLKSIZ_DUMP" and lk: "linked (cd_buf ?p) 0 es (cd_offset ?p)"
    using es(2) unfolding converted_def by blast+
  show ?thesis
  proof (cases "cd_offset ?p mod DIRBLKSIZ_DUMP = 0")
    case True
    then have "convert_entries LE excl ds buf = ?p" by (simp add: convert_entries_def bs)
    then show ?thesis using es lk True by (intro exI [of _ es]) auto
  next
    case False
    then have c: "convert_entries LE excl ds buf = pad_dirblk LE ?p" by (simp add: convert_entries_def bs)
    have ne: "es \<noteq> []" using es(2) False by (auto simp: converted_def)
    note pad = pad_converted [OF es(2) ne False, unfolded es(3), OF ol]
    have "linked (cd_buf (pad_dirblk LE ?p)) 0 es (cd_offset (pad_dirblk LE ?p))"
      using pad(1) by (simp add: converted_def)
    then show ?thesis unfolding c using es(1) pad(2,3) by blast
  qed
qed

end
