(* ===== verification/Dir_Roundtrip.thy ===== *)
theory Dir_Roundtrip
  imports Dir_Convert File_Roundtrip
begin

text \<open>
  A directory that \<open>dumpdirino\<close> puts on the tape, and what \<open>extract_dir\<close> makes of it: the records of the
  emission, and the entries under the names that restore looks up.
\<close>

section \<open>The records of a directory\<close>

definition dir_records :: "byte list \<Rightarrow> nat \<Rightarrow> nat \<Rightarrow> byte list list" where
  "dir_records buf n sz = map (\<lambda>i. at buf (sz + i * TP_BSIZE) TP_BSIZE) [0..<howmany (n - sz) TP_BSIZE]"

lemma dir_records_done: "n \<le> sz \<Longrightarrow> dir_records buf n sz = []"
  by (simp add: dir_records_def howmany_def TP_BSIZE_def)

lemma dir_records_step:
  assumes "sz < n"
  shows "dir_records buf n sz = at buf sz TP_BSIZE # dir_records buf n (sz + TP_BSIZE)"
proof -
  have "howmany (n - sz) TP_BSIZE = Suc (howmany (n - (sz + TP_BSIZE)) TP_BSIZE)"
  proof (cases "sz + TP_BSIZE \<le> n")
    case True
    then obtain q where "n = sz + TP_BSIZE + q" by (auto simp: le_iff_add)
    then show ?thesis by (simp add: howmany_def TP_BSIZE_def)
  next
    case False
    then have q: "0 < n - sz" "n - sz < 1024" "n - (sz + TP_BSIZE) = 0" using assms by (simp_all add: TP_BSIZE_def)
    define k where "k = n - sz"
    have "(k + 1023) div 1024 = Suc 0" using q(1,2) by (simp add: k_def [symmetric] div_nat_eqI)
    then show ?thesis unfolding q(3) k_def [symmetric] by (simp add: howmany_def TP_BSIZE_def)
  qed
  then have "[0..<howmany (n - sz) TP_BSIZE] = 0 # map Suc [0..<howmany (n - (sz + TP_BSIZE)) TP_BSIZE]"
    by (simp only: map_Suc_upt) (simp add: upt_conv_Cons)
  then show ?thesis by (simp add: dir_records_def comp_def add.assoc)
qed

lemma single_segment:
  fixes ino :: dump_ino_t and w :: writer
  assumes "wf_spcl (spcl w)"
  defines "s \<equiv> ((set_c_addr [1] (spcl w))\<lparr>c_count := 1\<rparr>)\<lparr>c_inumber := ino, c_magic := NFS_MAGIC\<rparr>"
  shows "segment_header (of_inode (spcl w) ino) (c_type (spcl w)) [Some r] s"
proof -
  have "wf_spcl s" using wf_set_c_addr [OF assms(1), of "[1]"] by (simp add: s_def TP_NINDIR_def)
  moreover have "c_data s ! 0 = 1" using nth_overlay0 [of 0 "[1]" "c_data (spcl w)"] by (simp add: s_def)
  ultimately show ?thesis by (simp add: segment_header_def of_inode_def same_file_def TP_NINDIR_def) (simp add: s_def)
qed

lemma dirino_loop_emits:
  assumes st: "steady cfg"
  shows "winv cfg w \<Longrightarrow> \<exists>w' out. dirino_loop cfg ino buf n sz w = Inr w' \<and> emits cfg img out w w'
    \<and> file_recs (byte_order cfg) (of_inode (spcl w) ino) (c_type (spcl w))
        (map (\<lambda>r. [Some r]) (dir_records buf n sz)) out"
proof (induction "n - sz" arbitrary: sz w rule: less_induct)
  case less
  show ?case
  proof (cases "sz < n")
    case False
    then show ?thesis
      using emits_refl [OF less.prems, of img]
      by (intro exI [of _ w] exI [of _ "[]"]) (simp add: dirino_loop.simps dir_records_done)
  next
    case True
    let ?f = "\<lambda>s. (set_c_addr [1] s)\<lparr>c_count := 1\<rparr>" and ?g = "\<lambda>s. s\<lparr>c_type := TS_ADDR\<rparr>"
    let ?r = "at buf sz TP_BSIZE" and ?e = "byte_order cfg"
    let ?s = "(?f (spcl w))\<lparr>c_inumber := ino, c_magic := NFS_MAGIC\<rparr>"
    have hdr: "segment_header (of_inode (spcl w) ino) (c_type (spcl w)) [Some ?r] ?s"
      by (rule single_segment [OF winv_wf [OF less.prems]])
    have wf: "wf_spcl (?f (spcl w))"
      using wf_set_c_addr [OF winv_wf [OF less.prems], of "[1]"] by (simp add: TP_NINDIR_def)
    have i1: "winv cfg (set_spcl ?f w)" using winv_set_spcl [OF less.prems, of ?f] wf by simp
    obtain w1 where w1: "writeheader cfg ino (set_spcl ?f w) = Inr w1"
      "emits cfg img [encode_spcl ?e (mkchecksum ?e ?s)] (set_spcl ?f w) w1"
      using writeheader_emits [OF st i1, of ino img] by (auto simp: writer_simps)
    have "winv cfg w1" using w1(2) by (simp add: emits_def)
    then obtain w2 where w2: "writerec cfg ?r False w1 = Inr w2" "wrote cfg img [?r] w1 w2"
      using writerec_wrote [OF st] by blast
    let ?out = "[encode_spcl ?e (mkchecksum ?e ?s), ?r]"
    have "emits cfg img ?out (set_spcl ?f w) w2" using emits_trans [OF w1(2) wrote_emits [OF w2(2)]] by simp
    then have e: "emits cfg img ?out w (set_spcl ?g w2)"
      using winv_wf [of cfg w2] winv_set_spcl [of cfg w2 ?g] by (simp add: emits_def writer_simps same_file_def)
    then have i3: "winv cfg (set_spcl ?g w2)" by (simp add: emits_def)
    have "n - (sz + TP_BSIZE) < n - sz" using True by (simp add: TP_BSIZE_def)
    then obtain w' out where w': "dirino_loop cfg ino buf n (sz + TP_BSIZE) (set_spcl ?g w2) = Inr w'"
      "emits cfg img out (set_spcl ?g w2) w'"
      "file_recs ?e (of_inode (spcl (set_spcl ?g w2)) ino) TS_ADDR
         (map (\<lambda>r. [Some r]) (dir_records buf n (sz + TP_BSIZE))) out"
      using less.hyps [of "sz + TP_BSIZE", OF _ i3] by (auto simp: writer_simps)
    have "file_recs ?e (of_inode (spcl w) ino) TS_ADDR (map (\<lambda>r. [Some r]) (dir_records buf n (sz + TP_BSIZE))) out"
      by (rule file_recs_mono [OF _ w'(3)]) (use e in \<open>auto simp: emits_def intro: of_inode_trans\<close>)
    then have "file_recs ?e (of_inode (spcl w) ino) (c_type (spcl w))
        (map (\<lambda>r. [Some r]) (dir_records buf n sz)) (?out @ out)"
      using hdr unfolding dir_records_step [OF True] by auto
    moreover have "dirino_loop cfg ino buf n sz w = Inr w'"
      using True w1(1) w2(1) w'(1) by (subst dirino_loop.simps) simp
    ultimately show ?thesis using emits_trans [OF e w'(2)] by blast
  qed
qed

lemma dumpdirino_plain:
  assumes "\<not> newtape w" "plain_inode dp" "file_mode dp = IFDIR" "snd (fs_dir fs ino) = 0"
    "convert_entries (byte_order cfg) (iexclude m) (fst (fs_dir fs ino))
       (take ((2 * unat (di_size dp)) mod 2 ^ 32) (stack_junk fs)) = cdc" "0 < cd_offset cdc"
    "dirino_loop cfg ino (cd_buf cdc) (cd_offset cdc) 0 (inode_header (bsd_inode dp (cd_offset cdc)) w) = Inr w'"
  shows "dumpdirino cfg fs dp ino (m, w) = Inr (m\<lparr>dumpinomap := CLRINO ino (dumpinomap m)\<rparr>, w')"
  using assms
  by (simp add: dumpdirino_def begin_inode_def Let_def dump_xattr_def xattr_in_inode_def xattr_in_block_def plain_inode_def)

lemma dumpdirino_emits:
  fixes fs :: ext2fs and m :: maps and ino :: dump_ino_t and dp :: dinode
  defines "cdc \<equiv> convert_entries LE (iexclude m) (fst (fs_dir fs ino)) (take ((2 * unat (di_size dp)) mod 2 ^ 32) (stack_junk fs))"
  assumes st: "steady cfg" "byte_order cfg = LE" and w: "winv cfg w" "\<not> newtape w"
    and dp: "plain_inode dp" "file_mode dp = IFDIR" "snd (fs_dir fs ino) = 0" "0 < cd_offset cdc"
  shows "\<exists>w' out. dumpdirino cfg fs dp ino (m, w) = Inr (m\<lparr>dumpinomap := CLRINO ino (dumpinomap m)\<rparr>, w')
    \<and> winv cfg w' \<and> stream img w' = stream img w @ out
    \<and> newtape w' = newtape w \<and> c_flags (spcl w') = c_flags (spcl w)
    \<and> file_recs LE (dumped_header dp (cd_offset cdc) ino (spcl w)) TS_INODE
        (map (\<lambda>r. [Some r]) (dir_records (cd_buf cdc) (cd_offset cdc) 0)) out"
proof -
  let ?n = "cd_offset cdc"
  define w1 where "w1 = inode_header (bsd_inode dp ?n) w"
  note h = emits_inode_header [OF w(1) wf_bsd_inode [OF dp(1), of ?n], folded w1_def]
  obtain w2 out where w2: "dirino_loop cfg ino (cd_buf cdc) ?n 0 w1 = Inr w2" "emits cfg img out w1 w2"
    "file_recs LE (of_inode (spcl w1) ino) (c_type (spcl w1)) (map (\<lambda>r. [Some r]) (dir_records (cd_buf cdc) ?n 0)) out"
    using dirino_loop_emits [OF st(1) h(1), of ino "cd_buf cdc" ?n 0 img] st(2) by auto
  have "file_recs LE (dumped_header dp ?n ino (spcl w)) TS_INODE (map (\<lambda>r. [Some r]) (dir_records (cd_buf cdc) ?n 0)) out"
    by (rule file_recs_mono [OF _ w2(3) [unfolded h(3)]])
       (use h in \<open>auto simp: of_inode_def same_file_def dumped_header_def\<close>)
  moreover have "dumpdirino cfg fs dp ino (m, w) = Inr (m\<lparr>dumpinomap := CLRINO ino (dumpinomap m)\<rparr>, w2)"
    by (rule dumpdirino_plain [OF w(2) dp(1-3) _ dp(4)]) (use w2(1) st(2) in \<open>simp_all only: cdc_def w1_def\<close>)
  moreover have "winv cfg w2" "stream img w2 = stream img w @ out" "c_flags (spcl w2) = c_flags (spcl w)"
    using w2(2) h(2,6) by (simp_all add: emits_def same_file_def)
  moreover have "newtape w2 = newtape w"
    using w2(2) by (simp add: emits_def w1_def inode_header_def writer_simps)
  ultimately show ?thesis by blast
qed

lemma dir_records_contents:
  assumes "n \<le> length buf" "TP_BSIZE dvd length buf"
  shows "all_data (map Some (dir_records buf n 0))" "n \<le> TP_BSIZE * length (dir_records buf n 0)"
    "take n (contents (map Some (dir_records buf n 0))) = take n buf"
proof -
  let ?k = "howmany n TP_BSIZE"
  have t0: "0 < TP_BSIZE" by (simp add: TP_BSIZE_def)
  obtain q where q: "length buf = TP_BSIZE * q" using assms(2) by (auto elim: dvdE)
  have "?k \<le> q" by (rule howmany_le) (use assms(1) q t0 in \<open>simp_all add: mult.commute\<close>)
  then have kq: "?k * TP_BSIZE \<le> length buf" unfolding q by simp
  have full: "i * TP_BSIZE + TP_BSIZE \<le> length buf" if "i < ?k" for i
  proof -
    have "Suc i * TP_BSIZE \<le> ?k * TP_BSIZE" using that by (intro mult_le_mono1) simp
    then show ?thesis using kq by simp
  qed
  have "min (length buf - i * TP_BSIZE) TP_BSIZE = TP_BSIZE" if "i < ?k" for i using full [OF that] by simp
  then show "all_data (map Some (dir_records buf n 0))"
    by (auto simp: all_data_def full_recs_def dir_records_def at_def rec_bytes_def)
  show "n \<le> TP_BSIZE * length (dir_records buf n 0)"
    using howmany_mult_ge [OF t0, of n] by (simp add: dir_records_def mult.commute)
  have c: "contents (map Some (map (\<lambda>i. at buf (i * TP_BSIZE) TP_BSIZE) [0..<k])) = take (k * TP_BSIZE) buf"
    if "k \<le> ?k" for k
    using that
  proof (induction k)
    case (Suc k)
    have "take (Suc k * TP_BSIZE) buf = take (k * TP_BSIZE) buf @ at buf (k * TP_BSIZE) TP_BSIZE"
      unfolding at_def take_add [symmetric] by (simp add: add.commute)
    then show ?case using Suc by (simp add: contents_def rec_bytes_def)
  qed (simp add: contents_def)
  have "n \<le> ?k * TP_BSIZE" by (rule howmany_mult_ge [OF t0])
  then show "take n (contents (map Some (dir_records buf n 0))) = take n buf"
    using c [of ?k] by (simp add: dir_records_def min_def)
qed

lemma concat_singletons: "concat (map (\<lambda>r. [Some r]) rs) = map Some rs"
  by (induction rs) simp_all

lemma last_record:
  assumes "0 < n"
  shows "TP_BSIZE * length (concat (butlast (map (\<lambda>r. [Some r]) (dir_records buf n 0)))) < n"
    "dir_records buf n 0 \<noteq> []"
proof -
  have "TP_BSIZE * (howmany n TP_BSIZE - 1) < n" using assms by (simp add: howmany_def TP_BSIZE_def)
  then show "TP_BSIZE * length (concat (butlast (map (\<lambda>r. [Some r]) (dir_records buf n 0)))) < n"
    unfolding map_butlast [symmetric] concat_singletons by (simp add: dir_records_def)
  show "dir_records buf n 0 \<noteq> []" using dir_records_step [OF assms, of buf] by simp
qed

section \<open>Looking up what was dumped\<close>

definition dumped_entries :: "ext2fs \<Rightarrow> byte list \<Rightarrow> dump_ino_t \<Rightarrow> ext2_dir_entry list" where
  "dumped_entries fs excl ino = filter (\<lambda>d. \<not> exclude_ino (de_inode d) excl) (fst (fs_dir fs ino))"

lemma entry_like_matches: "entry_like d e \<Longrightarrow> name_matches name e = (entry_name d = name)"
proof -
  assume a: "entry_like d e"
  have "take (name_length d) (d_name e) = take (name_length d) (take (name_length d + 1) (d_name e))" by simp
  also have "\<dots> = entry_name d" using a by (simp add: entry_like_def)
  finally have t: "take (name_length d) (d_name e) = entry_name d" .
  show ?thesis
  proof (cases "length name = name_length d")
    case True
    then show ?thesis using a t by (simp add: name_matches_def entry_like_def)
  next
    case False
    then show ?thesis using a by (auto simp: name_matches_def entry_like_def)
  qed
qed

lemma find_entry_like:
  "list_all2 entry_like ds es \<Longrightarrow>
     map_option d_ino (find (name_matches name) (visible maxino (live_entries es)))
       = map_option de_inode (find (\<lambda>d. entry_name d = name) (filter (\<lambda>d. de_inode d \<noteq> 0 \<and> de_inode d < maxino) ds))"
proof (induction rule: list_all2_induct)
  case (Cons d ds e es)
  then show ?case using entry_like_matches [OF Cons(1), of name]
    by (auto simp: visible_def live_entries_def entry_like_def)
qed (simp add: visible_def live_entries_def)

lemma parked_open: "length junk = DIRBLKSIZ \<Longrightarrow> parked fd tab (opendirfile junk)"
  by (simp add: parked_def opendirfile_def rst_telldir_def dpos_def)

section \<open>A directory on the tape\<close>

text \<open>
  The reader in front of a file: \<open>findinode\<close> has read its header.  \<open>dir_on_tape\<close> says of a header and
  the records behind it that they are the directory of an inode with the given entries: whatever
  directories restore has already and whatever header of a file without extended attributes follows,
  \<open>extract_dir\<close> enters the directory into the table, with entries that are those of the dumped one,
  and stands in front of the next file.
\<close>

definition stands_before :: "rcfg \<Rightarrow> s_spcl \<Rightarrow> byte list list \<Rightarrow> rstate \<Rightarrow> bool" where
  "stands_before rc s T r \<longleftrightarrow> ready_reader rc r \<and> r_spcl r = mkchecksum LE s \<and> tape r = T
     \<and> cur_dip r = Some (c_dinode s) \<and> cur_ino r = c_inumber s"

definition next_file :: "s_spcl \<Rightarrow> bool" where
  "next_file nx \<longleftrightarrow> plain_header nx \<and> c_type nx = TS_INODE \<and> c_flags nx AND DR_EXTATTRIBUTES = 0"

definition dir_on_tape :: "rcfg \<Rightarrow> dump_ino_t \<Rightarrow> ext2_dir_entry list \<Rightarrow> s_spcl \<Rightarrow> byte list list \<Rightarrow> bool" where
  "dir_on_tape rc ino ents s out \<longleftrightarrow> next_file s \<and> c_inumber s = ino \<and> nbi_mode (c_dinode s) AND IFMT = IFDIR \<and>
     (\<forall>r nx T mem ip D ds k. next_file nx \<and> stands_before rc s (out @ encode_spcl LE (mkchecksum LE nx) # T) r
         \<and> dirs_ready D ds \<and> dir_space (length ents + 2 + k) ds \<and> 2 \<le> length (stack_bytes mem) \<longrightarrow>
       (\<exists>r' ds' es. extract_dir rc mem ip (r, ds) = Inr (r', ds') \<and> list_all2 entry_like ents es
          \<and> dirs_ready (D(ino \<mapsto> live_entries es)) ds' \<and> stands_before rc nx T r' \<and> dir_space k ds'))"

definition dir_fits :: "ext2fs \<Rightarrow> byte list \<Rightarrow> dinode \<Rightarrow> dump_ino_t \<Rightarrow> bool" where
  "dir_fits fs excl dp ino \<longleftrightarrow>
     (let buf = take ((2 * unat (di_size dp)) mod 2 ^ 32) (stack_junk fs);
          n = cd_offset (convert_entries LE excl (fst (fs_dir fs ino)) buf)
      in plain_inode dp \<and> file_mode dp = IFDIR \<and> snd (fs_dir fs ino) = 0 \<and> 0 < n \<and> n \<le> length buf
         \<and> TP_BSIZE dvd length buf \<and> n \<le> 0xfffffff)"

lemma dir_fitsD:
  assumes "dir_fits fs excl dp ino"
  defines "buf \<equiv> take ((2 * unat (di_size dp)) mod 2 ^ 32) (stack_junk fs)"
  defines "n \<equiv> cd_offset (convert_entries LE excl (fst (fs_dir fs ino)) buf)"
  shows "plain_inode dp" "file_mode dp = IFDIR" "snd (fs_dir fs ino) = 0" "0 < n" "n \<le> length buf"
    "TP_BSIZE dvd length buf" "n \<le> 0xfffffff"
  using assms(1) by (simp_all add: dir_fits_def Let_def n_def buf_def)

lemma dumped_dir_header:
  assumes "n \<le> 0xfffffff"
  shows "plain_file (dumped_header dp n ino s0)"
proof -
  have "unat (of_nat n :: u64) \<le> 0xfffffff" using assms by (simp add: unat_of_nat)
  then have "\<not> (of_nat n :: u64) > 0xfffffff" by (simp add: word_less_nat_alt)
  then show ?thesis by (auto simp: plain_file_def dumped_header_def bsd_inode_def)
qed

lemma dumpdirino_on_tape:
  assumes st: "steady cfg" "byte_order cfg = LE" and w: "winv cfg w" "\<not> newtape w"
      "c_flags (spcl w) AND DR_EXTATTRIBUTES = 0"
    and d: "dir_fits fs (iexclude m) dp ino" and rc: "fssize rc = F * TP_BSIZE" "0 < F"
  shows "\<exists>w' s out. dumpdirino cfg fs dp ino (m, w) = Inr (m\<lparr>dumpinomap := CLRINO ino (dumpinomap m)\<rparr>, w')
    \<and> winv cfg w' \<and> stream img w' = stream img w @ encode_spcl LE (mkchecksum LE s) # out
    \<and> dir_on_tape rc ino (dumped_entries fs (iexclude m) ino) s out
    \<and> newtape w' = newtape w \<and> c_flags (spcl w') = c_flags (spcl w)"
proof -
  let ?buf = "take ((2 * unat (di_size dp)) mod 2 ^ 32) (stack_junk fs)"
  define cdc where "cdc = convert_entries LE (iexclude m) (fst (fs_dir fs ino)) ?buf"
  let ?n = "cd_offset cdc" and ?ents = "dumped_entries fs (iexclude m) ino"
  let ?P = "dumped_header dp ?n ino (spcl w)" and ?recs = "dir_records (cd_buf cdc) ?n 0"
  note f = dir_fitsD [OF d, folded cdc_def]
  obtain w' out where w': "dumpdirino cfg fs dp ino (m, w) = Inr (m\<lparr>dumpinomap := CLRINO ino (dumpinomap m)\<rparr>, w')"
    "winv cfg w'" "stream img w' = stream img w @ out" "newtape w' = newtape w" "c_flags (spcl w') = c_flags (spcl w)"
    "file_recs LE ?P TS_INODE (map (\<lambda>r. [Some r]) ?recs) out"
    using dumpdirino_emits [OF st w(1,2) f(1-3), where m = m and img = img, folded cdc_def, OF f(4)] by blast
  obtain es where es: "list_all2 entry_like ?ents es" "linked (cd_buf cdc) 0 es ?n" "length (cd_buf cdc) = length ?buf"
    "DIRBLKSIZ_DUMP dvd ?n"
    using convert_entries_linked [of "iexclude m" "fst (fs_dir fs ino)" ?buf, folded cdc_def, OF f(5)]
    by (auto simp: dumped_entries_def)
  have nb: "?n \<le> length (cd_buf cdc)" "TP_BSIZE dvd length (cd_buf cdc)" using f(5,6) es(3) by simp_all
  note rec = dir_records_contents [OF nb]
  have lk: "linked (take ?n (contents (map Some ?recs))) 0 es ?n"
    unfolding rec(3) by (rule linked_cut [OF es(2) nb(1)])
  note last = last_record [OF f(4), of "cd_buf cdc"]
  then obtain q qs where q: "?recs = q # qs" by (cases ?recs) auto
  obtain s rest where s: "segment_header ?P TS_INODE [Some q] s"
    "out = encode_spcl LE (mkchecksum LE s) # somes [Some q] @ rest"
    "file_recs LE ?P TS_ADDR (map (\<lambda>r. [Some r]) qs) rest"
    using w'(6) q by auto
  have P: "plain_file ?P" by (rule dumped_dir_header [OF f(7)])
  have Ps: "?P s" using s(1) by (simp add: segment_header_def)
  have sz: "nbi_size (c_dinode s') = of_nat ?n" if "?P s'" for s'
    using that by (simp add: dumped_header_def bsd_inode_def)
  have hs: "next_file s"
    using plain_segment [OF P s(1)] s(1) Ps w(3) by (simp add: next_file_def segment_header_def dumped_header_def)
  have md: "nbi_mode (c_dinode s) AND IFMT = IFDIR"
    using Ps f(2) by (simp add: dumped_header_def bsd_inode_def file_mode_def)
  have "dir_on_tape rc ino ?ents s (somes [Some q] @ rest)"
    unfolding dir_on_tape_def
  proof (intro conjI allI impI, rule hs)
    show "c_inumber s = ino" using Ps by (simp add: dumped_header_def)
    show "nbi_mode (c_dinode s) AND IFMT = IFDIR" by (rule md)
    fix r nx T ip D ds k and mem :: dirs_mem
    assume a: "next_file nx \<and> stands_before rc s ((somes [Some q] @ rest) @ encode_spcl LE (mkchecksum LE nx) # T) r
         \<and> dirs_ready D ds \<and> dir_space (length ?ents + 2 + k) ds \<and> 2 \<le> length (stack_bytes mem)"
    have r: "native rc r" "\<not> readmapflag r" "\<not> readingmaps r" "r_spcl r = mkchecksum LE s"
      "tape r = somes [Some q] @ rest @ encode_spcl LE (mkchecksum LE nx) # T" "cur_ino r = ino"
      using a Ps by (auto simp: stands_before_def ready_reader_def dumped_header_def)
    have sp: "dir_space (length es + 2 + k) ds" using a list_all2_lengthD [OF es(1)] by simp
    have len: "?n \<le> TP_BSIZE * length (map Some ?recs)" using rec(2) by simp
    have cc: "map Some ?recs = concat ([Some q] # map (\<lambda>r. [Some r]) qs)" unfolding q by (simp add: concat_singletons)
    have lt: "TP_BSIZE * length (concat (butlast ([Some q] # map (\<lambda>r. [Some r]) qs))) < ?n"
      using last(1) unfolding q by simp
    obtain r' ds' where "extract_dir rc mem ip (r, ds) = Inr (r', ds')" "dirs_ready (D(cur_ino r \<mapsto> live_entries es)) ds'"
      "r_spcl r' = mkchecksum LE nx" "tape r' = T" "cur_dip r' = Some (c_dinode nx)" "cur_ino r' = c_inumber nx"
      "native rc r'" "\<not> readmapflag r'" "\<not> readingmaps r'" "dir_space k ds'"
      using extract_dir_segments [OF rec(1) len f(4) _ es(4) lk rc P sz r(1-5) cc _ lt s(1,3), of D ds k mem ip]
        a sp f(7) by (auto simp: next_file_def)
    then show "\<exists>r' ds' es. extract_dir rc mem ip (r, ds) = Inr (r', ds') \<and> list_all2 entry_like ?ents es
          \<and> dirs_ready (D(ino \<mapsto> live_entries es)) ds' \<and> stands_before rc nx T r' \<and> dir_space k ds'"
      using es(1) r(6) by (intro exI [of _ r'] exI [of _ ds'] exI [of _ es]) (simp add: stands_before_def ready_reader_def)
  qed
  then show ?thesis using w'(1-5) s(2) by blast
qed

end
