(* ===== verification/Tree_Roundtrip.thy ===== *)
theory Tree_Roundtrip
  imports Dump_Main Dir_Roundtrip
begin

text \<open>
  Pass III of dump against \<open>extractdirs\<close> and \<open>pathsearch\<close> of restore: the directories on the tape one
  after the other, and the paths of the dumped tree.
\<close>

section \<open>Directories one after the other\<close>

fun dirs_tape :: "rcfg \<Rightarrow> (dump_ino_t \<times> ext2_dir_entry list) list \<Rightarrow> byte list list \<Rightarrow> bool" where
  "dirs_tape rc [] out \<longleftrightarrow> out = []"
| "dirs_tape rc ((i, ents) # ds) out \<longleftrightarrow>
     (\<exists>s o1 o2. out = encode_spcl LE (mkchecksum LE s) # o1 @ o2 \<and> dir_on_tape rc i ents s o1 \<and> dirs_tape rc ds o2)"

text \<open>The directories of restore are those of dump: \<open>E\<close> gives the entries of the dumped ones.\<close>

definition table_like :: "(dump_ino_t \<Rightarrow> ext2_dir_entry list option) \<Rightarrow> (dump_ino_t \<Rightarrow> direct list option) \<Rightarrow> bool" where
  "table_like E D \<longleftrightarrow> (\<forall>i. case E i of
       None \<Rightarrow> D i = None
     | Some ents \<Rightarrow> (\<exists>es. list_all2 entry_like ents es \<and> D i = Some (live_entries es)))"

lemma table_like_enter:
  "table_like E D \<Longrightarrow> list_all2 entry_like ents es \<Longrightarrow> table_like (E(i \<mapsto> ents)) (D(i \<mapsto> live_entries es))"
proof -
  assume a: "table_like E D" "list_all2 entry_like ents es"
  have "case (E(i \<mapsto> ents)) j of None \<Rightarrow> (D(i \<mapsto> live_entries es)) j = None
     | Some en \<Rightarrow> \<exists>el. list_all2 entry_like en el \<and> (D(i \<mapsto> live_entries es)) j = Some (live_entries el)" for j
    using a(2) spec [OF a(1) [unfolded table_like_def], of j] by (cases "j = i") (auto split: option.splits)
  then show ?thesis unfolding table_like_def by blast
qed

text \<open>A walk from directory to directory along names, over the entries of the dumped directories.\<close>

fun dumped_walk :: "dump_ino_t \<Rightarrow> (dump_ino_t \<Rightarrow> ext2_dir_entry list option) \<Rightarrow> byte list list \<Rightarrow> dump_ino_t
    \<Rightarrow> dump_ino_t option" where
  "dumped_walk maxino E [] i = Some i"
| "dumped_walk maxino E (name # names) i =
     (case E i of
        None \<Rightarrow> None
      | Some ents \<Rightarrow>
          (case find (\<lambda>d. entry_name d = name) (filter (\<lambda>d. de_inode d \<noteq> 0 \<and> de_inode d < maxino) ents) of
             None \<Rightarrow> None
           | Some d \<Rightarrow> dumped_walk maxino E names (de_inode d)))"

lemma walk_dumped: "table_like E D \<Longrightarrow> walk maxino D names i = dumped_walk maxino E names i"
proof (induction names arbitrary: i)
  case (Cons name names)
  show ?case
  proof (cases "E i")
    case None
    then have "D i = None" using Cons.prems by (auto simp: table_like_def dest: spec [of _ i])
    then show ?thesis using None by simp
  next
    case (Some ents)
    then obtain es where es: "list_all2 entry_like ents es" "D i = Some (live_entries es)"
      using Cons.prems by (auto simp: table_like_def dest!: spec [of _ i])
    let ?f = "find (\<lambda>d. entry_name d = name) (filter (\<lambda>d. de_inode d \<noteq> 0 \<and> de_inode d < maxino) ents)"
    have "map_option d_ino (find (name_matches name) (visible maxino (live_entries es))) = map_option de_inode ?f"
      by (rule find_entry_like [OF es(1)])
    then show ?thesis using Some es(2) Cons.IH [OF Cons.prems]
      by (cases ?f; cases "find (name_matches name) (visible maxino (live_entries es))") simp_all
  qed
qed simp

abbreviation dir_count :: "(dump_ino_t \<times> ext2_dir_entry list) list \<Rightarrow> nat" where
  "dir_count ds \<equiv> sum_list (map (\<lambda>(i, ents). length ents + 2) ds)"

abbreviation enter_all :: "(dump_ino_t \<times> ext2_dir_entry list) list \<Rightarrow> (dump_ino_t \<Rightarrow> ext2_dir_entry list option)
    \<Rightarrow> (dump_ino_t \<Rightarrow> ext2_dir_entry list option)" where
  "enter_all ds \<equiv> fold (\<lambda>(i, ents) E. E(i \<mapsto> ents)) ds"

definition reads_dirs :: "rcfg \<Rightarrow> (dump_ino_t \<times> ext2_dir_entry list) list \<Rightarrow> s_spcl \<Rightarrow> s_spcl \<Rightarrow> byte list list \<Rightarrow> bool" where
  "reads_dirs rc ds nx s rest \<longleftrightarrow> (\<forall>r T mem D E st k. stands_before rc s (rest @ T) r \<and> dirs_ready D st \<and> table_like E D
        \<and> dir_space (dir_count ds + k) st \<and> 2 \<le> length (stack_bytes mem) \<longrightarrow>
      (\<exists>r' st' D'. extract_loop rc mem r st = Inr (r', st') \<and> stands_before rc nx T r' \<and> dirs_ready D' st'
         \<and> table_like (enter_all ds E) D'))"

lemma reads_dirsD:
  assumes "reads_dirs rc ds nx s rest" "stands_before rc s (rest @ T) r" "dirs_ready D st" "table_like E D"
    "dir_space (dir_count ds + k) st" "2 \<le> length (stack_bytes mem)"
  shows "\<exists>r' st' D'. extract_loop rc mem r st = Inr (r', st') \<and> stands_before rc nx T r' \<and> dirs_ready D' st'
         \<and> table_like (enter_all ds E) D'"
  using assms unfolding reads_dirs_def by blast

lemma extract_dirs_tape:
  assumes nx: "next_file nx" "nbi_mode (c_dinode nx) AND IFMT \<noteq> IFDIR"
  shows "dirs_tape rc ds out \<Longrightarrow> \<exists>s rest. out @ [encode_spcl LE (mkchecksum LE nx)] = encode_spcl LE (mkchecksum LE s) # rest
    \<and> next_file s \<and> reads_dirs rc ds nx s rest"
proof (induction ds arbitrary: out)
  case Nil
  have "extract_loop rc mem r st = Inr (r, st)" if "stands_before rc nx T r" for r T mem st
    using that nx(2) by (subst extract_loop.simps) (simp add: stands_before_def)
  then have "reads_dirs rc [] nx nx []" by (auto simp: reads_dirs_def)
  then show ?case using Nil nx(1) by (intro exI [of _ nx] exI [of _ "[]"]) simp
next
  case (Cons d ds)
  obtain i ents where d: "d = (i, ents)" by (cases d)
  obtain s o1 o2 where s: "out = encode_spcl LE (mkchecksum LE s) # o1 @ o2" "dir_on_tape rc i ents s o1" "dirs_tape rc ds o2"
    using Cons.prems d by auto
  obtain s2 rest where r2: "o2 @ [encode_spcl LE (mkchecksum LE nx)] = encode_spcl LE (mkchecksum LE s2) # rest"
    "next_file s2" "reads_dirs rc ds nx s2 rest"
    using Cons.IH [OF s(3)] by blast
  let ?rest = "o1 @ encode_spcl LE (mkchecksum LE s2) # rest"
  have dot: "next_file s" "nbi_mode (c_dinode s) AND IFMT = IFDIR" using s(2) by (simp_all add: dir_on_tape_def)
  have "reads_dirs rc (d # ds) nx s ?rest"
    unfolding reads_dirs_def
  proof (intro allI impI, elim conjE)
    fix r T D E st k and mem :: dirs_mem
    assume a: "stands_before rc s (?rest @ T) r" "dirs_ready D st" "table_like E D"
      "dir_space (dir_count (d # ds) + k) st" "2 \<le> length (stack_bytes mem)"
    have sp: "dir_space (length ents + 2 + (dir_count ds + k)) st" using a(4) d by (simp add: add.assoc)
    have cd: "cur_dip r = Some (c_dinode s)" using a(1) by (simp add: stands_before_def)
    have a1: "stands_before rc s (o1 @ encode_spcl LE (mkchecksum LE s2) # (rest @ T)) r" using a(1) by simp
    obtain r1 st1 es where e: "extract_dir rc mem (c_dinode s) (r, st) = Inr (r1, st1)" "list_all2 entry_like ents es"
      "dirs_ready (D(i \<mapsto> live_entries es)) st1" "stands_before rc s2 (rest @ T) r1" "dir_space (dir_count ds + k) st1"
      using s(2) a1 a(2,5) r2(2) sp unfolding dir_on_tape_def by blast
    obtain r' st' D' where l: "extract_loop rc mem r1 st1 = Inr (r', st')" "stands_before rc nx T r'" "dirs_ready D' st'"
      "table_like (enter_all ds (E(i \<mapsto> ents))) D'"
      using reads_dirsD [OF r2(3) e(4,3) table_like_enter [OF a(3) e(2)] e(5) a(5)] by blast
    have "extract_loop rc mem r st = extract_loop rc mem r1 st1"
      using e(1) cd dot(2) by (subst extract_loop.simps) simp
    moreover have "enter_all (d # ds) E = enter_all ds (E(i \<mapsto> ents))" by (simp add: d)
    ultimately show "\<exists>r' st' D'. extract_loop rc mem r st = Inr (r', st') \<and> stands_before rc nx T r'
         \<and> dirs_ready D' st' \<and> table_like (enter_all (d # ds) E) D'"
      using l by metis
  qed
  moreover have "out @ [encode_spcl LE (mkchecksum LE nx)] = encode_spcl LE (mkchecksum LE s) # ?rest"
    unfolding s(1) append_Cons append_assoc r2(1) ..
  ultimately show ?case using dot(1) by blast
qed

section \<open>Pass III\<close>

definition is_live_dir :: "ext2fs \<Rightarrow> dump_ino_t \<Rightarrow> bool" where
  "is_live_dir fs i \<longleftrightarrow> (case fs_inode fs i of
     None \<Rightarrow> False
   | Some dp \<Rightarrow> file_mode dp = IFDIR \<and> di_nlink dp \<noteq> 0 \<and> di_dtime dp = 0)"

text \<open>The inode can be read, and if it is a directory that is dumped, it fits the buffer of dump.\<close>

definition dumpable :: "ext2fs \<Rightarrow> byte list \<Rightarrow> dump_ino_t \<Rightarrow> bool" where
  "dumpable fs excl i \<longleftrightarrow> (\<exists>dp. fs_inode fs i = Some dp \<and> (is_live_dir fs i \<longrightarrow> dir_fits fs excl dp i))"

definition dir_entries :: "ext2fs \<Rightarrow> byte list \<Rightarrow> dump_ino_t \<Rightarrow> dump_ino_t \<times> ext2_dir_entry list" where
  "dir_entries fs excl i = (i, dumped_entries fs excl i)"

lemma visit_pass3_tape:
  assumes st: "steady cfg" "byte_order cfg = LE" and rc: "fssize rc = F * TP_BSIZE" "0 < F"
  shows "winv cfg w \<Longrightarrow> \<not> newtape w \<Longrightarrow> c_flags (spcl w) AND DR_EXTATTRIBUTES = 0 \<Longrightarrow> list_all (dumpable fs (iexclude m)) is \<Longrightarrow>
    \<exists>m' w' out. visit (pass3_body cfg fs) is (m, w) = Inr (m', w') \<and> winv cfg w' \<and> stream img w' = stream img w @ out
      \<and> dirs_tape rc (map (dir_entries fs (iexclude m)) (filter (is_live_dir fs) is)) out"
proof (induction "is" arbitrary: m w)
  case Nil
  then show ?case by (intro exI [of _ m] exI [of _ w] exI [of _ "[]"]) simp
next
  case (Cons i "is")
  let ?m = "m\<lparr>curino := i\<rparr>"
  obtain dp where dp: "fs_inode fs i = Some dp" "is_live_dir fs i \<longrightarrow> dir_fits fs (iexclude m) dp i"
    using Cons.prems(4) by (auto simp: dumpable_def)
  have all: "list_all (dumpable fs (iexclude m)) is" using Cons.prems(4) by simp
  show ?case
  proof (cases "is_live_dir fs i")
    case False
    then have b: "pass3_body cfg fs i (m, w) = Inr (?m, w)"
      using dp(1) by (auto simp: pass3_body_def tape_getino_def is_live_dir_def)
    show ?thesis using Cons.IH [OF Cons.prems(1-3), of ?m] all b False by simp
  next
    case True
    then have f: "dir_fits fs (iexclude ?m) dp i" using dp(2) by simp
    obtain w1 s o1 where d: "dumpdirino cfg fs dp i (?m, w) = Inr (?m\<lparr>dumpinomap := CLRINO i (dumpinomap ?m)\<rparr>, w1)"
      "winv cfg w1" "stream img w1 = stream img w @ encode_spcl LE (mkchecksum LE s) # o1"
      "dir_on_tape rc i (dumped_entries fs (iexclude ?m) i) s o1" "newtape w1 = newtape w" "c_flags (spcl w1) = c_flags (spcl w)"
      using dumpdirino_on_tape [OF st Cons.prems(1-3) f rc, of img] by blast
    let ?m1 = "?m\<lparr>dumpinomap := CLRINO i (dumpinomap ?m)\<rparr>"
    have b: "pass3_body cfg fs i (m, w) = Inr (?m1, w1)"
      using dp(1) True d(1) by (auto simp: pass3_body_def tape_getino_def is_live_dir_def)
    obtain m' w' o2 where r: "visit (pass3_body cfg fs) is (?m1, w1) = Inr (m', w')" "winv cfg w'"
      "stream img w' = stream img w1 @ o2"
      "dirs_tape rc (map (dir_entries fs (iexclude m)) (filter (is_live_dir fs) is)) o2"
      using Cons.IH [OF d(2), of ?m1] Cons.prems(2,3) d(5,6) all by auto
    have "visit (pass3_body cfg fs) (i # is) (m, w) = Inr (m', w')" using b r(1) by simp
    moreover have "stream img w' = stream img w @ (encode_spcl LE (mkchecksum LE s) # o1 @ o2)" using d(3) r(3) by simp
    moreover have "dirs_tape rc (map (dir_entries fs (iexclude m)) (filter (is_live_dir fs) (i # is)))
        (encode_spcl LE (mkchecksum LE s) # o1 @ o2)"
      using True d(4) r(4) by (auto simp: dir_entries_def)
    ultimately show ?thesis using r(2) by blast
  qed
qed

lemma enter_all_entries:
  "enter_all (map (dir_entries fs excl) is) E = (\<lambda>i. if i \<in> set is then Some (dumped_entries fs excl i) else E i)"
  by (induction "is" arbitrary: E) (auto simp: dir_entries_def fun_eq_iff)

section \<open>The directories of a dump, restored\<close>

lemma no_inotab_lookup [simp]: "inotablookup i no_inotab = None"
  by (simp add: inotablookup_def no_inotab_def INOHASH_def HASHSIZE_def)

lemma no_dirs_ready: "dirs_ready Map.empty (no_dirs genmode room)"
  by (simp add: dirs_ready_def no_dirs_def dir_table_def extents_ok_def writing_def buffered_def no_inotab_def)
     (simp add: no_inotab_def [symmetric])

text \<open>The directories that pass III dumps.\<close>

definition dumped_dirs :: "ext2fs \<Rightarrow> maps \<Rightarrow> dump_ino_t \<Rightarrow> dump_ino_t \<Rightarrow> ext2_dir_entry list option" where
  "dumped_dirs fs m maxino i =
     (if 1 \<le> i \<and> i < maxino \<and> TSTINO i (dumpdirmap m) \<and> is_live_dir fs i
      then Some (dumped_entries fs (iexclude m) i) else None)"

definition components :: "byte list \<Rightarrow> byte list list" where
  "components path = strsep_all (dropWhile (\<lambda>b. b = slash) path)"

lemma find_in: "find P xs = Some d \<Longrightarrow> d \<in> set xs"
  by (auto simp: find_Some_iff)

lemma dumped_walk_nonzero: "dumped_walk maxino E names i = Some j \<Longrightarrow> names \<noteq> [] \<Longrightarrow> j \<noteq> 0"
proof (induction names arbitrary: i)
  case (Cons n names)
  obtain ents where e: "E i = Some ents" using Cons.prems(1) by (cases "E i") auto
  let ?l = "filter (\<lambda>d. de_inode d \<noteq> 0 \<and> de_inode d < maxino) ents"
  obtain d where d: "find (\<lambda>d. entry_name d = n) ?l = Some d" "dumped_walk maxino E names (de_inode d) = Some j"
    using Cons.prems(1) e by (cases "find (\<lambda>d. entry_name d = n) ?l") auto
  have "d \<in> set ?l" by (rule find_in [OF d(1)])
  then have "de_inode d \<noteq> 0" by simp
  then show ?case using Cons.IH [OF d(2)] d(2) by (cases "names = []") auto
qed simp

lemma pathsearch_dumped:
  assumes "dir_table fd tab D" "parked fd tab d" "table_like E D" "[] \<notin> set (components path)"
  shows "map_option d_ino (fst (pathsearch maxino fd tab path d)) = dumped_walk maxino E (components path) ROOTINO
    \<and> parked fd tab (snd (pathsearch maxino fd tab path d))"
proof -
  have ne: "components path \<noteq> []"
  proof -
    have "strsep_all xs \<noteq> []" for xs by (cases xs) (auto split: list.splits)
    then show ?thesis by (simp add: components_def)
  qed
  obtain r d' where "path_loop maxino fd tab (components path) ROOTINO None d = (r, d')" "parked fd tab d'"
    "map_option d_ino r = walk maxino D (components path) ROOTINO"
    using path_loop_walk [OF assms(1,2,4), of maxino ROOTINO None] ne by auto
  then show ?thesis using walk_dumped [OF assms(3)] by (simp add: pathsearch_def components_def)
qed


lemma dir_count_filter: "dir_count (map f (filter P xs)) \<le> dir_count (map f xs)"
  by (induction xs) (auto split: prod.splits)

text \<open>
  What restore makes of the records \<open>rest\<close> behind the header \<open>s\<close>: a reader in front of it, with room for
  the directory file, extracts the directories, stands in front of the file \<open>nx\<close>, and looks paths up as
  a walk over the directories \<open>E\<close> does.
\<close>

definition tree_restored :: "rcfg \<Rightarrow> (dump_ino_t \<Rightarrow> ext2_dir_entry list option) \<Rightarrow> nat \<Rightarrow> s_spcl \<Rightarrow> byte list list
    \<Rightarrow> s_spcl \<Rightarrow> bool" where
  "tree_restored rc E n s rest nx \<longleftrightarrow>
     (\<forall>r T mem genmode room. stands_before rc s (rest @ T) r \<and> dir_space n (no_dirs genmode room)
          \<and> 2 \<le> length (stack_bytes mem) \<and> length (heap_bytes mem) = DIRBLKSIZ \<longrightarrow>
        (\<exists>r' ds d. extractdirs rc mem (True, True) room genmode r = Inr (r', ds, d) \<and> stands_before rc nx T r'
          \<and> (\<forall>path. [] \<notin> set (components path) \<longrightarrow>
               map_option d_ino (fst (pathsearch (r_maxino rc) (df ds) (inotab_tbl ds) path d))
                 = dumped_walk (r_maxino rc) E (components path) ROOTINO)))"

lemma reads_tree_restored:
  assumes s: "reads_dirs rc ds nx s rest" and E: "enter_all ds Map.empty = E" and n: "dir_count ds \<le> n"
    and root: "dumped_walk (r_maxino rc) E [dot_name] ROOTINO \<noteq> None"
  shows "tree_restored rc E n s rest nx"
  unfolding tree_restored_def
proof (intro allI impI, elim conjE)
  fix r T genmode room and mem :: dirs_mem
  let ?max = "r_maxino rc"
  assume a: "stands_before rc s (rest @ T) r" "dir_space n (no_dirs genmode room)"
      "2 \<le> length (stack_bytes mem)" "length (heap_bytes mem) = DIRBLKSIZ"
  have sp: "dir_space (dir_count ds + 0) (no_dirs genmode room)"
    using a(2) n by (simp add: dir_space_def DIRBLKSIZ_def)
  have t0: "table_like Map.empty Map.empty" by (simp add: table_like_def)
  obtain r' st D where l: "extract_loop rc mem r (no_dirs genmode room) = Inr (r', st)" "stands_before rc nx T r'"
    "dirs_ready D st" "table_like E D"
    using reads_dirsD [OF s a(1) no_dirs_ready t0 sp a(3)] unfolding E by blast
  have t: "dir_table (df st) (inotab_tbl st) D" using l(3) by (simp add: dirs_ready_def)
  have dot: "components dot_name = [dot_name]" by (simp add: components_def dot_name_def slash_def)
  obtain rt d where rt: "pathsearch ?max (df st) (inotab_tbl st) dot_name (opendirfile (heap_bytes mem)) = (rt, d)"
    by (cases "pathsearch ?max (df st) (inotab_tbl st) dot_name (opendirfile (heap_bytes mem))")
  have "map_option d_ino rt = dumped_walk ?max E [dot_name] ROOTINO \<and> parked (df st) (inotab_tbl st) d"
    using pathsearch_dumped [OF t parked_open [OF a(4)] l(4), of dot_name ?max] rt dot by (simp add: dot_name_def)
  then obtain e where e: "rt = Some e" "d_ino e \<noteq> 0" "parked (df st) (inotab_tbl st) d"
    using root dumped_walk_nonzero [of ?max E "[dot_name]" ROOTINO] by (cases rt) auto
  have "extractdirs rc mem (True, True) room genmode r = Inr (r'\<lparr>cur_action := USING\<rparr>, st, d)"
    using l(1) rt e(1,2) by (simp add: extractdirs_def dirlookup_def dot_name_def)
  moreover have "stands_before rc nx T (r'\<lparr>cur_action := USING\<rparr>)"
    using l(2) by (simp add: stands_before_def ready_reader_def native_def)
  ultimately show "\<exists>r' ds d. extractdirs rc mem (True, True) room genmode r = Inr (r', ds, d) \<and> stands_before rc nx T r'
          \<and> (\<forall>path. [] \<notin> set (components path) \<longrightarrow>
               map_option d_ino (fst (pathsearch ?max (df ds) (inotab_tbl ds) path d))
                 = dumped_walk ?max E (components path) ROOTINO)"
    using pathsearch_dumped [OF t e(3) l(4)] by blast
qed

text \<open>C2: The round trip of the directories.  What pass III writes in steady operation, whatever the
  blocking factor, is for restore a sequence of directories: \<open>extractdirs\<close> reads them, up to the header
  of the first file, and from then on \<open>pathsearch\<close> finds for every path the inode that a walk over the
  entries of the dumped directories finds.  It is assumed that each directory fits the buffer of
  \<open>dumpdirino\<close>, that the directory file of restore has room, and that the root has an entry \<open>.\<close>.\<close>

theorem dump_restore_tree:
  assumes st: "steady cfg" "byte_order cfg = LE"
    and w: "winv cfg w" "\<not> newtape w" "c_flags (spcl w) AND DR_EXTATTRIBUTES = 0"
    and m: "unat maxino \<le> 8 * length (dumpdirmap m) + 1" "list_all (dumpable fs (iexclude m)) (marked_inodes maxino (dumpdirmap m))"
    and rc: "fssize rc = F * TP_BSIZE" "0 < F"
    and nx: "next_file nx" "nbi_mode (c_dinode nx) AND IFMT \<noteq> IFDIR"
    and root: "dumped_walk (r_maxino rc) (dumped_dirs fs m maxino) [dot_name] ROOTINO \<noteq> None"
  shows "\<exists>m' w' out s rest. pass3 cfg fs maxino (m, w) = Inr (m', w') \<and> stream img w' = stream img w @ out
    \<and> out @ [encode_spcl LE (mkchecksum LE nx)] = encode_spcl LE (mkchecksum LE s) # rest
    \<and> tree_restored rc (dumped_dirs fs m maxino)
        (dir_count (map (dir_entries fs (iexclude m)) (marked_inodes maxino (dumpdirmap m)))) s rest nx"
proof -
  let ?is = "marked_inodes maxino (dumpdirmap m)" and ?e = "dir_entries fs (iexclude m)"
  let ?ds = "map ?e (filter (is_live_dir fs) ?is)"
  have p: "pass3 cfg fs maxino (m, w) = visit (pass3_body cfg fs) ?is (m, w)"
    using dir_pass.map_loop_all [of maxino "(m, w)"] m(1) by (simp add: pass3_def)
  obtain m' w' out where v: "visit (pass3_body cfg fs) ?is (m, w) = Inr (m', w')" "stream img w' = stream img w @ out"
    "dirs_tape rc ?ds out"
    using visit_pass3_tape [OF st rc w m(2)] by blast
  obtain s rest where s: "out @ [encode_spcl LE (mkchecksum LE nx)] = encode_spcl LE (mkchecksum LE s) # rest"
    "reads_dirs rc ?ds nx s rest"
    using extract_dirs_tape [OF nx v(3)] by blast
  have E: "enter_all ?ds Map.empty = dumped_dirs fs m maxino"
    unfolding enter_all_entries by (auto simp: dumped_dirs_def set_marked fun_eq_iff)
  show ?thesis
    using reads_tree_restored [OF s(2) E dir_count_filter root] v(1,2) s(1) unfolding p by blast
qed

text \<open>A file system whose root directory has three entries.\<close>

definition named_entry :: "dump_ino_t \<Rightarrow> string \<Rightarrow> ext2_dir_entry" where
  "named_entry i name = \<lparr> de_inode = i, de_name_len = of_nat (length name), de_name = name \<rparr>"

definition sample_root :: dinode where
  "sample_root = (sample_inode 0x41ED)\<lparr>di_size := 1024\<rparr>"

definition root_ext2 :: ext2fs where
  "root_ext2 = sample_ext2\<lparr>fs_inode := (\<lambda>i. Some sample_root),
     fs_dir := (\<lambda>i. ([named_entry 2 ''.'', named_entry 2 ''..'', named_entry 12 ''a''], 0)), stack_junk := replicate 2048 0\<rparr>"

definition root_maps :: maps where
  "root_maps = empty_maps\<lparr>dumpdirmap := [2, 0]\<rparr>"

lemma root_marked: "marked_inodes 12 [2, 0] = [2]"
proof -
  have u: "[1..<unat (12 :: dump_ino_t)] = [1, 2, 3, 4, 5, 6, 7, 8, 9, 10, 11]" by (simp add: upt_rec)
  show ?thesis unfolding marked_inodes_def u
    by (simp add: TSTINO_bit in_map_def ino_byte_def ino_bit_def NBBY_def bit_numeral_rec)
qed

lemma root_offset:
  "cd_offset (convert_entries LE [] [named_entry 2 ''.'', named_entry 2 ''..'', named_entry 12 ''a''] buf) = 512"
  by (simp add: convert_entries_def convert_dir_def pad_dirblk_def Let_def exclude_ino_def named_entry_def name_length_def
      DIR_REC_LEN_def DIRBLKSIZ_DUMP_def TP_BSIZE_def)

lemma plain_root: "plain_inode sample_root"
  unfolding plain_inode_def by (simp add: sample_root_def sample_inode_def)

lemma root_inode:
  "fs_inode root_ext2 i = Some sample_root" "file_mode sample_root = IFDIR" "di_nlink sample_root = 1"
  "di_dtime sample_root = 0" "unat (di_size sample_root) = 1024"
  by (simp_all add: root_ext2_def sample_root_def sample_inode_def file_mode_def mode_consts)

lemma root_fits: "dir_fits root_ext2 [] sample_root 2"
  unfolding dir_fits_def Let_def root_inode(2,5)
  by (simp add: plain_root root_ext2_def root_offset TP_BSIZE_def)

lemma root_dumpable: "dumpable root_ext2 [] 2"
  using root_fits by (simp add: dumpable_def root_inode)

definition root_dirs :: "dump_ino_t \<Rightarrow> ext2_dir_entry list option" where
  "root_dirs = [2 \<mapsto> [named_entry 2 ''.'', named_entry 2 ''..'', named_entry 12 ''a'']]"

lemma root_dumped_dirs: "dumped_dirs root_ext2 root_maps 12 = root_dirs"
proof
  fix i :: dump_ino_t
  have "1 \<le> i \<and> i < 12 \<and> TSTINO i [2, 0] \<longleftrightarrow> i \<in> set (marked_inodes 12 [2, 0])" by (simp add: set_marked)
  then have "1 \<le> i \<and> i < 12 \<and> TSTINO i [2, 0] \<longleftrightarrow> i = 2" by (simp add: root_marked)
  moreover have "dumped_entries root_ext2 [] i = [named_entry 2 ''.'', named_entry 2 ''..'', named_entry 12 ''a'']"
    by (simp add: dumped_entries_def root_ext2_def exclude_ino_def)
  moreover have "is_live_dir root_ext2 i" by (simp add: is_live_dir_def root_inode)
  ultimately show "dumped_dirs root_ext2 root_maps 12 i = root_dirs i"
    by (auto simp: dumped_dirs_def root_dirs_def root_maps_def empty_maps_def)
qed

lemma entry_names:
  "entry_name (named_entry i ''.'') = dot_name" "entry_name (named_entry i ''..'') = [0x2E, 0x2E]" "entry_name (named_entry i ''a'') = [0x61]"
  by (simp_all add: entry_name_def named_entry_def name_length_def strncpy_bytes_def dot_name_def Let_def)

lemma root_walk: "dumped_walk 100 root_dirs [dot_name] ROOTINO = Some 2"
  by (simp add: root_dirs_def ROOTINO_def entry_names) (simp add: named_entry_def)

text \<open>The root directory of the example comes back, with its entry \<open>a\<close>.\<close>

theorem dump_restore_tree_witness:
  "(\<exists>m' w' out s rest. pass3 sample_tcfg root_ext2 12 (root_maps, sample_writer) = Inr (m', w')
     \<and> stream [] w' = stream [] sample_writer @ out
     \<and> out @ [encode_spcl LE (mkchecksum LE sample_next)] = encode_spcl LE (mkchecksum LE s) # rest
     \<and> tree_restored sample_rcfg root_dirs 5 s rest sample_next)
   \<and> dumped_walk 100 root_dirs [[0x61]] ROOTINO = Some 12"
proof -
  have m: "iexclude root_maps = []" "dumpdirmap root_maps = [2, 0]" by (simp_all add: root_maps_def empty_maps_def)
  have w: "winv sample_tcfg sample_writer" "\<not> newtape sample_writer" "byte_order sample_tcfg = LE"
    "c_flags (spcl sample_writer) AND DR_EXTATTRIBUTES = 0"
    using winv_sample
    by (simp_all add: sample_writer_def alloctape_def initial_writer_def Let_def sample_tcfg_def zero_spcl_def)
  have nx: "next_file sample_next" "nbi_mode (c_dinode sample_next) AND IFMT \<noteq> IFDIR"
    using plain_sample_next by (simp_all add: next_file_def sample_next_def zero_spcl_def zero_nbi_def mode_consts)
  have r: "fssize sample_rcfg = 1 * TP_BSIZE" "r_maxino sample_rcfg = 100" by (simp_all add: sample_rcfg_def TP_BSIZE_def)
  have n: "dir_count (map (dir_entries root_ext2 []) [2]) = 5"
    by (simp add: dir_entries_def dumped_entries_def root_ext2_def exclude_ino_def)
  have c: "unat (12 :: dump_ino_t) \<le> 8 * length (dumpdirmap root_maps) + 1"
    "list_all (dumpable root_ext2 (iexclude root_maps)) (marked_inodes 12 (dumpdirmap root_maps))"
    unfolding m root_marked using root_dumpable by simp_all
  have root: "dumped_walk (r_maxino sample_rcfg) (dumped_dirs root_ext2 root_maps 12) [dot_name] ROOTINO \<noteq> None"
    unfolding r root_dumped_dirs root_walk by simp
  have a: "dumped_walk 100 root_dirs [[0x61]] ROOTINO = Some 12"
    by (simp add: root_dirs_def ROOTINO_def entry_names dot_name_def) (simp add: named_entry_def)
  show ?thesis
    using dump_restore_tree [OF steady_sample w(3,1,2,4) c r(1) _ nx root, of "[]"] a
    unfolding m root_marked n root_dumped_dirs by simp
qed

end
