(* ===== verification/Itime.thy ===== *)
theory Itime
  imports C_String Inomap
begin

text \<open>
  The dump history: the file /etc/dumpdates of dump/itime.c (\<open>initdumptimes\<close>, \<open>readdumptimes\<close>,
  \<open>getdumptime\<close>, \<open>putdumptime\<close>, \<open>dumprecout\<close>, \<open>getrecord\<close>, \<open>makedumpdate\<close>) and the date parser of
  dump/unctime.c.  The file is its contents; the time zone enters through \<open>localtime\<close> and
  \<open>timelocal\<close>, which depend on the machine's configuration and are parameters.  The theorems: which
  date an incremental dump starts from, and that a rewritten file reads back as the updated records.
\<close>

section \<open>Calendar time\<close>

record tm =
  tm_sec :: int
  tm_min :: int
  tm_hour :: int
  tm_mday :: int
  tm_mon :: int
  tm_year :: int
  tm_wday :: int
  tm_gmtoff :: int

definition is_leap :: "int \<Rightarrow> bool" where
  "is_leap y \<longleftrightarrow> y mod 4 = 0 \<and> (y mod 100 \<noteq> 0 \<or> y mod 400 = 0)"

definition month_days :: "int list" where
  "month_days = [0, 31, 59, 90, 120, 151, 181, 212, 243, 273, 304, 334]"

text \<open>Seconds since the Epoch, by the formula of POSIX; \<open>tm_year\<close> counts from 1900.\<close>

definition timegm :: "tm \<Rightarrow> int" where
  "timegm t =
     (let y = tm_year t;
          yday = month_days ! nat (tm_mon t) + (if 1 < tm_mon t \<and> is_leap (1900 + y) then 1 else 0)
                 + tm_mday t - 1
      in tm_sec t + tm_min t * 60 + tm_hour t * 3600 + yday * 86400 + (y - 70) * 31536000
         + ((y - 69) div 4) * 86400 - ((y - 1) div 100) * 86400 + ((y + 299) div 400) * 86400)"

definition day_names :: "string list" where
  "day_names = [''Sun'', ''Mon'', ''Tue'', ''Wed'', ''Thu'', ''Fri'', ''Sat'']"

definition months :: string where
  "months = ''JanFebMarAprMayJunJulAugSepOctNovDec''"

text \<open>\<open>asctime\<close> of the C library, for a time whose fields are in range.\<close>

definition asctime :: "tm \<Rightarrow> string" where
  "asctime t = day_names ! nat (tm_wday t) @ '' '' @ take 3 (drop (3 * nat (tm_mon t)) months)
     @ (if tm_mday t < 10 then ''  '' else '' '') @ dec_int (tm_mday t)
     @ '' '' @ dec2 (nat (tm_hour t)) @ '':'' @ dec2 (nat (tm_min t)) @ '':'' @ dec2 (nat (tm_sec t))
     @ '' '' @ dec_int (1900 + tm_year t) @ [CHR 0x0A]"


section \<open>Reading a date\<close>

definition E_MONTH :: nat where "E_MONTH = 4"
definition E_DAY :: nat where "E_DAY = 8"
definition E_HOUR :: nat where "E_HOUR = 11"
definition E_MINUTE :: nat where "E_MINUTE = 14"
definition E_SECOND :: nat where "E_SECOND = 17"
definition E_YEAR :: nat where "E_YEAR = 20"
definition E_TZOFFSET :: nat where "E_TZOFFSET = 25"

lemmas E_defs = E_MONTH_def E_DAY_def E_HOUR_def E_MINUTE_def E_SECOND_def E_YEAR_def E_TZOFFSET_def

text \<open>\<open>lookup\<close>: the number of the month, -1 when there is none; \<open>k\<close> is \<open>(cp - months) / 3\<close>.\<close>

fun lookup_loop :: "string \<Rightarrow> int \<Rightarrow> string \<Rightarrow> int" where
  "lookup_loop (a # b # c # cp) k s = (if take 3 s = [a, b, c] then k else lookup_loop cp (k + 1) s)"
| "lookup_loop _ k s = -1"

definition lookup :: "string \<Rightarrow> int" where
  "lookup s = lookup_loop months 0 s"

text \<open>
  \<open>unctime\<close>: the copy in \<open>dbuf\<close> has at most 31 characters and is NUL after them; \<open>dbuf\<close> is cut
  after the month before \<open>lookup\<close>.
\<close>

definition unctime :: "(tm \<Rightarrow> int) \<Rightarrow> string \<Rightarrow> int" where
  "unctime timelocal str =
     (let dbuf = take 31 str;
          mon = lookup (drop E_MONTH (take (E_MONTH + 3) dbuf))
      in if mon < 0 then -1
         else
           let then_tm = \<lparr> tm_sec = atoi (drop E_SECOND dbuf), tm_min = atoi (drop E_MINUTE dbuf),
                 tm_hour = atoi (drop E_HOUR dbuf), tm_mday = atoi (drop E_DAY dbuf), tm_mon = mon,
                 tm_year = atoi (drop E_YEAR dbuf) - 1900, tm_wday = 0, tm_gmtoff = 0 \<rparr>
           in if length str \<ge> E_TZOFFSET + 5
              then let tzoffset = atoi (drop E_TZOFFSET dbuf)
                   in timegm then_tm - (c_div tzoffset 100 * 3600 + c_mod tzoffset 100 * 60)
              else timelocal then_tm)"


section \<open>Records of the file\<close>

text \<open>\<open>dd_fstab\<close> points into the table of file systems and takes no part here.\<close>

record dumpdates =
  dd_name :: string
  dd_level :: int
  dd_ddate :: int

definition makedumpdate :: "(tm \<Rightarrow> int) \<Rightarrow> string \<Rightarrow> dumpdates option" where
  "makedumpdate timelocal tbuf =
     (let tok = takeWhile (\<lambda>c. c \<noteq> CHR '' '') tbuf in
      if CHR '' '' \<notin> set tbuf \<or> length tok > MAXPATHLEN then None
      else
        let tbuf = dropWhile (\<lambda>c. c = CHR '' '') (drop (Suc (length tok)) tbuf);
            lev = atoi tbuf;
            tbuf = dropWhile c_isdigit tbuf;
            tbuf = dropWhile (\<lambda>c. c = CHR '' '') tbuf;
            ddate = unctime timelocal tbuf
        in if ddate < 0 then None
           else Some \<lparr> dd_name = tok, dd_level = lev, dd_ddate = ddate \<rparr>)"

text \<open>\<open>getrecord\<close>: \<open>None\<close> is the result -1, at the end of the file or at a line it cannot parse.\<close>

definition getrecord :: "(tm \<Rightarrow> int) \<Rightarrow> string \<Rightarrow> (dumpdates \<times> string) option" where
  "getrecord timelocal df =
     (case fgets BUFSIZ df of
        None \<Rightarrow> None
      | Some (tbuf, rest) \<Rightarrow> map_option (\<lambda>d. (d, rest)) (makedumpdate timelocal tbuf))"

text \<open>\<open>readdumptimes\<close>: the list is built in reverse and \<open>ddatev\<close> filled from its end: file order.\<close>

function readdumptimes :: "(tm \<Rightarrow> int) \<Rightarrow> string \<Rightarrow> dumpdates list" where
  "readdumptimes timelocal df =
     (case getrecord timelocal df of
        None \<Rightarrow> []
      | Some (d, rest) \<Rightarrow> d # readdumptimes timelocal rest)"
  by pat_completeness auto

lemma getrecord_shorter: "getrecord tz df = Some (d, rest) \<Longrightarrow> length rest < length df"
  by (auto simp: getrecord_def BUFSIZ_def split: option.splits dest: fgets_shorter)

termination readdumptimes
  by (relation "measure (\<lambda>(tz, df). length df)") (auto dest: getrecord_shorter)

declare readdumptimes.simps [simp del]

text \<open>One line of the file; \<open>quit\<close> is the exit with \<open>X_ABORT\<close>.\<close>

definition dumprecout :: "(int \<Rightarrow> tm) \<Rightarrow> dumpdates \<Rightarrow> dump_stop + string" where
  "dumprecout localtime what =
     (let tms = localtime (dd_ddate what); buf = asctime tms; off = nat \<bar>tm_gmtoff tms\<bar> in
      if char_at buf 24 \<noteq> CHR 0x0A \<or> char_at buf 25 \<noteq> CHR 0x00 then Inl (Exit X_ABORT)
      else Inr (dd_name what @ '' '' @ dec_int (dd_level what) @ '' '' @ take 24 buf @ '' ''
             @ (if tm_gmtoff tms < 0 then ''-'' else ''+'')
             @ dec2 (off div 3600) @ dec2 (off mod 3600 div 60) @ [CHR 0x0A]))"

fun dumprecs :: "(int \<Rightarrow> tm) \<Rightarrow> dumpdates list \<Rightarrow> dump_stop + string" where
  "dumprecs localtime [] = Inr []"
| "dumprecs localtime (d # ds) =
     bindE (dumprecout localtime d) (\<lambda>l. bindE (dumprecs localtime ds) (\<lambda>ls. Inr (l @ ls)))"


section \<open>Starting date and update\<close>

text \<open>What opening the file for reading yields: it does not exist, another error, its contents.\<close>

datatype ddfile = DD_Absent | DD_Error | DD_File string

record itime_cfg =
  it_disk :: string
  it_level :: string
  it_uflag :: bool
  it_create_ok :: bool
  it_lock_ok :: bool
  it_localtime :: "int \<Rightarrow> tm"
  it_timelocal :: "tm \<Rightarrow> int"

text \<open>
  \<open>initdumptimes\<close>; the result is \<open>ddatev\<close>, \<open>None\<close> for the NULL pointer it has when there is no
  file, and the file afterwards.
\<close>

definition initdumptimes :: "itime_cfg \<Rightarrow> bool \<Rightarrow> ddfile \<Rightarrow> dump_stop + dumpdates list option \<times> ddfile" where
  "initdumptimes cfg createdumpdates file =
     (case file of
        DD_Error \<Rightarrow> Inl (Exit X_ABORT)
      | DD_Absent \<Rightarrow>
          (if \<not> createdumpdates then Inr (None, file)
           else if \<not> it_create_ok cfg then Inl (Exit X_ABORT)
           else if \<not> it_lock_ok cfg then Inl (Exit X_ABORT)
           else Inr (Some (readdumptimes (it_timelocal cfg) []), DD_File []))
      | DD_File s \<Rightarrow>
          (if \<not> it_lock_ok cfg then Inl (Exit X_ABORT)
           else Inr (Some (readdumptimes (it_timelocal cfg) s), file)))"

text \<open>\<open>strncmp (disk, dd_name, sizeof (dd_name)) == 0\<close>.\<close>

definition same_disk :: "itime_cfg \<Rightarrow> dumpdates \<Rightarrow> bool" where
  "same_disk cfg d \<longleftrightarrow> take (MAXPATHLEN + 3) (it_disk cfg) = take (MAXPATHLEN + 3) (dd_name d)"

text \<open>The loop of \<open>getdumptime\<close> over \<open>ddatev\<close>; \<open>spcl.c_ddate\<close> is a signed 32-bit field.\<close>

fun getdump_loop :: "itime_cfg \<Rightarrow> dumpdates list \<Rightarrow> int \<times> string \<Rightarrow> int \<times> string" where
  "getdump_loop cfg [] s = s"
| "getdump_loop cfg (ddp # ds) (c_ddate, lastlevel) =
     (if \<not> same_disk cfg ddp then getdump_loop cfg ds (c_ddate, lastlevel)
      else if dd_level ddp \<ge> atoi (it_level cfg) then getdump_loop cfg ds (c_ddate, lastlevel)
      else if dd_ddate ddp \<le> c_ddate then getdump_loop cfg ds (c_ddate, lastlevel)
      else getdump_loop cfg ds (signed_take_bit 31 (dd_ddate ddp), take 31 (dec_int (dd_level ddp))))"

text \<open>\<open>getdumptime\<close>: \<open>lastlevel\<close> has just been cleared when it is compared with \<open>level\<close>.\<close>

definition getdumptime :: "itime_cfg \<Rightarrow> bool \<Rightarrow> ddfile \<Rightarrow> dump_stop + (int \<times> string) \<times> ddfile" where
  "getdumptime cfg createdumpdates file =
     (if it_level cfg = [] \<and> \<not> createdumpdates then Inr ((0, []), file)
      else bindE (initdumptimes cfg createdumpdates file) (\<lambda>(ddatev, file).
        case ddatev of
          None \<Rightarrow> Inr ((0, []), file)
        | Some ds \<Rightarrow> Inr (getdump_loop cfg ds (0, []), file)))"

text \<open>The record that \<open>putdumptime\<close> overwrites is the first of this disk and level.\<close>

fun put_record :: "itime_cfg \<Rightarrow> int \<Rightarrow> dumpdates list \<Rightarrow> dumpdates list" where
  "put_record cfg c_date [] =
     [\<lparr> dd_name = take (MAXPATHLEN + 3) (it_disk cfg), dd_level = atoi (it_level cfg), dd_ddate = c_date \<rparr>]"
| "put_record cfg c_date (d # ds) =
     (if same_disk cfg d \<and> dd_level d = atoi (it_level cfg)
      then \<lparr> dd_name = take (MAXPATHLEN + 3) (it_disk cfg), dd_level = atoi (it_level cfg), dd_ddate = c_date \<rparr> # ds
      else d # put_record cfg c_date ds)"

text \<open>
  \<open>putdumptime\<close>: the file is read again under a write lock, rewritten from its start and truncated
  after the last record.  Without \<open>-u\<close> nothing happens; an absent file is an error.
\<close>

definition putdumptime :: "itime_cfg \<Rightarrow> int \<Rightarrow> ddfile \<Rightarrow> dump_stop + ddfile" where
  "putdumptime cfg c_date file =
     (if \<not> it_uflag cfg then Inr file
      else case file of
        DD_File s \<Rightarrow>
          (if \<not> it_lock_ok cfg then Inl (Exit X_ABORT)
           else bindE (dumprecs (it_localtime cfg)
                         (put_record cfg c_date (readdumptimes (it_timelocal cfg) s)))
                  (\<lambda>out. Inr (DD_File out)))
      | _ \<Rightarrow> Inl (Exit X_ABORT))"


section \<open>Dates that \<open>dumprecout\<close> writes are read back\<close>

lemma dec2_two: "n < 100 \<Longrightarrow> dec2 n = [digit_char (n div 10), digit_char (n mod 10)]"
proof -
  assume "n < 100"
  then have "n div 10 < 10" by auto
  moreover have "CHR ''0'' = digit_char 0" by (simp add: digit_char_def) code_simp
  ultimately show ?thesis
    by (auto simp: dec2_def dec_nat.simps [of n] dec_nat.simps [of "n div 10"])
qed

lemma atoi_dec2: "n < 100 \<Longrightarrow> no_digit rest \<Longrightarrow> atoi (dec2 n @ rest) = int n"
  using strtol10_digits(1) [OF dec2_digits(1,2), of n rest]
  by (simp add: atoi_def dec2_digits(3) signed_take_bit_small)

lemma digits_value_dec2:
  assumes "n < 100"
  shows "digits_value acc (dec2 n) = 100 * acc + n"
proof -
  have "n div 10 < 10" using assms by auto
  moreover have "10 * (10 * acc + n div 10) + n mod 10 = 100 * acc + n" by simp
  ultimately show ?thesis using assms by (simp add: dec2_two)
qed

text \<open>The times that a line of the file can carry.\<close>

definition printable_tm :: "tm \<Rightarrow> bool" where
  "printable_tm t \<longleftrightarrow> tm_wday t \<in> {0..6} \<and> tm_mon t \<in> {0..11} \<and> tm_mday t \<in> {1..31} \<and> tm_hour t \<in> {0..23}
     \<and> tm_min t \<in> {0..59} \<and> tm_sec t \<in> {0..60} \<and> tm_year t \<in> {-900..8099}
     \<and> \<bar>tm_gmtoff t\<bar> < 360000 \<and> 60 dvd tm_gmtoff t"

lemma mon_cases: "m \<in> {0..11} \<Longrightarrow> m = (0 :: int) \<or> m = 1 \<or> m = 2 \<or> m = 3 \<or> m = 4 \<or> m = 5 \<or> m = 6
    \<or> m = 7 \<or> m = 8 \<or> m = 9 \<or> m = 10 \<or> m = 11"
  by (simp only: atLeastAtMost_iff) presburger

lemma months_length: "0 \<le> m \<Longrightarrow> m \<le> 11 \<Longrightarrow> min (length months - 3 * nat m) 3 = 3"
  by (simp add: months_def)

lemma lookup_months: "m \<in> {0..11} \<Longrightarrow> lookup (take 3 (drop (3 * nat m) months)) = m"
  by (drule mon_cases) (auto simp: lookup_def months_def)

lemma length_day_names: "w \<in> {0..6} \<Longrightarrow> length (day_names ! nat w) = 3"
proof -
  assume "w \<in> {0..6}"
  then have "w \<in> {0, 1, 2, 3, 4, 5, 6}" by auto
  then show ?thesis by (auto simp: day_names_def)
qed

lemma year_digits:
  assumes "y \<in> {1000..9999}"
  shows "length (dec_int y) = 4"
proof -
  have a: "\<not> nat y < 10" "\<not> nat y div 10 < 10" "\<not> nat y div 10 div 10 < 10" "nat y div 10 div 10 div 10 < 10"
    using assms by auto
  show ?thesis
    using assms a by (simp add: dec_int_def dec_nat.simps [of "nat y"] dec_nat.simps [of "nat y div 10"]
        dec_nat.simps [of "nat y div 10 div 10"] dec_nat.simps [of "nat y div 10 div 10 div 10"])
qed

lemma atoi_space: "atoi (CHR '' '' # s) = atoi s"
  by (simp add: atoi_def strtol10_def c_isspace_def)

definition mday_field :: "int \<Rightarrow> string" where
  "mday_field d = (if d < 10 then '' '' else []) @ dec_int d"

lemma mday_field:
  assumes "d \<in> {1..31}"
  shows "length (mday_field d) = 2" "no_digit rest \<Longrightarrow> atoi (mday_field d @ rest) = d"
proof -
  have "nat d div 10 < 10" "nat d < 10 \<longleftrightarrow> d < 10" using assms by auto
  then show "length (mday_field d) = 2"
    using assms by (simp add: mday_field_def dec_int_def dec_nat.simps [of "nat d"] dec_nat.simps [of "nat d div 10"])
  assume "no_digit rest"
  then show "atoi (mday_field d @ rest) = d"
    using assms by (simp add: mday_field_def atoi_space atoi_dec_int)
qed

lemma asctime_fields:
  "asctime t = day_names ! nat (tm_wday t) @ '' '' @ take 3 (drop (3 * nat (tm_mon t)) months)
     @ '' '' @ mday_field (tm_mday t)
     @ '' '' @ dec2 (nat (tm_hour t)) @ '':'' @ dec2 (nat (tm_min t)) @ '':'' @ dec2 (nat (tm_sec t))
     @ '' '' @ dec_int (1900 + tm_year t) @ [CHR 0x0A]"
  by (simp add: asctime_def mday_field_def)

lemma printable_small:
  "printable_tm t \<Longrightarrow> nat (tm_hour t) < 100 \<and> nat (tm_min t) < 100 \<and> nat (tm_sec t) < 100"
  by (auto simp: printable_tm_def)

lemma length_asctime: "printable_tm t \<Longrightarrow> length (asctime t) = 25"
  using printable_small [of t]
  by (simp add: asctime_fields printable_tm_def length_day_names months_length mday_field(1) length_dec2
      year_digits)

lemma drop_segment: "length xs \<le> n \<Longrightarrow> drop n (xs @ ys) = drop (n - length xs) ys"
  by simp

lemma no_digit_Cons [simp]: "no_digit (c # s) \<longleftrightarrow> \<not> c_isdigit c"
  by (simp add: no_digit_def)

lemma separators [simp]: "\<not> c_isdigit CHR '' ''" "\<not> c_isdigit CHR '':''" "\<not> c_isdigit CHR 0x0A"
  by (simp_all add: c_isdigit_def)

text \<open>The zone as it is printed, and its value.\<close>

definition zone_field :: "int \<Rightarrow> string" where
  "zone_field off = (if off < 0 then ''-'' else ''+'') @ dec2 (nat \<bar>off\<bar> div 3600)
     @ dec2 (nat \<bar>off\<bar> mod 3600 div 60)"

lemma zone_field:
  assumes "\<bar>off\<bar> < 360000" "60 dvd off"
  shows "length (zone_field off) = 5"
    and "let z = atoi (zone_field off @ [CHR 0x0A]) in c_div z 100 * 3600 + c_mod z 100 * 60 = off"
proof -
  define h m where "h = nat \<bar>off\<bar> div 3600" and "m = nat \<bar>off\<bar> mod 3600 div 60"
  have b: "h < 100" "m < 60" using assms(1) by (auto simp: h_def m_def less_mult_imp_div_less)
  have f: "zone_field off = (if off < 0 then ''-'' else ''+'') @ dec2 h @ dec2 m"
    by (simp add: zone_field_def h_def m_def)
  then show "length (zone_field off) = 5" using b by (simp add: length_dec2)
  have ds: "list_all c_isdigit (dec2 h @ dec2 m)" "dec2 h @ dec2 m \<noteq> []"
    using dec2_digits by simp_all
  have v: "digits_value 0 (dec2 h @ dec2 m) = 100 * h + m"
    using b by (simp add: digits_value_append dec2_digits digits_value_dec2)
  have lt: "digits_value 0 (dec2 h @ dec2 m) < 2 ^ 63" using b unfolding v by simp
  have z: "atoi (zone_field off @ [CHR 0x0A]) = (if off < 0 then - int (100 * h + m) else int (100 * h + m))"
    using strtol10_digits(2,3) [OF ds lt, of "[CHR 0x0A]"] b
    by (simp add: atoi_def f v signed_take_bit_small)
  have off: "\<bar>off\<bar> = int h * 3600 + int m * 60"
  proof -
    obtain c where c: "off = 60 * c" using assms(2) by (rule dvdE)
    define n where "n = nat \<bar>c\<bar>"
    have k: "\<bar>off\<bar> = 60 * int n" by (simp add: c n_def abs_mult)
    then have "nat \<bar>off\<bar> = 60 * n" by simp
    moreover have "60 * n div 3600 = n div 60" by (simp add: div_mult2_eq [of "60 * n" 60 60, simplified])
    moreover have "60 * n mod 3600 div 60 = n mod 60"
      using mult_mod_right [of 60 n 60] by simp
    ultimately have "h = n div 60" "m = n mod 60" by (simp_all add: h_def m_def)
    moreover have "int n = int (n div 60) * 60 + int (n mod 60)" by (metis div_mult_mod_eq of_nat_add of_nat_mult of_nat_numeral)
    ultimately show ?thesis using k by simp
  qed
  have p: "c_div (int (100 * h + m)) 100 = int h" "c_mod (int (100 * h + m)) 100 = int m"
    using b by (simp_all add: c_div_pos c_mod_def)
  have "c_div (- int (100 * h + m)) 100 = - int h" using p(1) by (simp only: c_div_minus)
  moreover from this have "c_mod (- int (100 * h + m)) 100 = - int m" by (simp add: c_mod_def)
  ultimately have n: "c_div (- int (100 * h + m)) 100 * 3600 + c_mod (- int (100 * h + m)) 100 * 60
      = - (int h * 3600 + int m * 60)" by simp
  show "let z = atoi (zone_field off @ [CHR 0x0A]) in c_div z 100 * 3600 + c_mod z 100 * 60 = off"
  proof (cases "off < 0")
    case True
    then show ?thesis using off n unfolding z Let_def by simp
  next
    case False
    then show ?thesis using off p unfolding z Let_def by simp
  qed
qed


text \<open>One record of the file.\<close>

definition good_record :: "itime_cfg \<Rightarrow> dumpdates \<Rightarrow> bool" where
  "good_record cfg d \<longleftrightarrow> (let t = it_localtime cfg (dd_ddate d) in
     set (dd_name d) \<inter> {CHR '' '', CHR 0x0A, CHR 0x00} = {} \<and> length (dd_name d) \<le> MAXPATHLEN
     \<and> dd_level d \<in> {0..<2 ^ 31} \<and> 0 \<le> dd_ddate d \<and> printable_tm t
     \<and> timegm t = dd_ddate d + tm_gmtoff t)"

definition date_line :: "tm \<Rightarrow> string" where
  "date_line t = take 24 (asctime t) @ '' '' @ zone_field (tm_gmtoff t) @ [CHR 0x0A]"

lemma take24_asctime:
  assumes "printable_tm t"
  shows "take 24 (asctime t) = day_names ! nat (tm_wday t) @ '' '' @ take 3 (drop (3 * nat (tm_mon t)) months)
     @ '' '' @ mday_field (tm_mday t)
     @ '' '' @ dec2 (nat (tm_hour t)) @ '':'' @ dec2 (nat (tm_min t)) @ '':'' @ dec2 (nat (tm_sec t))
     @ '' '' @ dec_int (1900 + tm_year t)"
proof -
  have "asctime t = butlast (asctime t) @ [CHR 0x0A]" by (simp add: asctime_fields butlast_append)
  moreover have "length (butlast (asctime t)) = 24" using length_asctime [OF assms] by simp
  ultimately have "take 24 (asctime t) = butlast (asctime t)"
    by (metis append_eq_conv_conj)
  then show ?thesis by (simp add: asctime_fields butlast_append)
qed

lemma length_date_line: "printable_tm t \<Longrightarrow> length (date_line t) = 31"
  by (simp add: date_line_def length_asctime printable_tm_def zone_field(1))

lemma unctime_date_line:
  assumes p: "printable_tm t"
  shows "unctime timelocal (date_line t) = timegm t - tm_gmtoff t"
proof -
  let ?L = "date_line t"
  have r: "tm_wday t \<in> {0..6}" "tm_mon t \<in> {0..11}" "tm_mday t \<in> {1..31}" "1900 + tm_year t \<in> {1000..9999}"
    "\<bar>tm_gmtoff t\<bar> < 360000" "60 dvd tm_gmtoff t" "0 \<le> tm_hour t" "0 \<le> tm_min t" "0 \<le> tm_sec t"
    "0 \<le> tm_mon t" "tm_mon t \<le> 11"
    using p by (auto simp: printable_tm_def)
  note sm = printable_small [OF p]
  have len: "length (day_names ! nat (tm_wday t)) = 3" "length (take 3 (drop (3 * nat (tm_mon t)) months)) = 3"
    "length (mday_field (tm_mday t)) = 2" "length (dec2 (nat (tm_hour t))) = 2" "length (dec2 (nat (tm_min t))) = 2"
    "length (dec2 (nat (tm_sec t))) = 2" "length (dec_int (1900 + tm_year t)) = 4"
    using r sm by (simp_all add: length_day_names months_length mday_field(1) length_dec2 year_digits)
  obtain M where M: "M = take 3 (drop (3 * nat (tm_mon t)) months)" by simp
  note len' = len [folded M]
  have L: "?L = day_names ! nat (tm_wday t) @ '' '' @ M @ '' '' @ mday_field (tm_mday t) @ '' '' @ dec2 (nat (tm_hour t))
      @ '':'' @ dec2 (nat (tm_min t)) @ '':'' @ dec2 (nat (tm_sec t)) @ '' '' @ dec_int (1900 + tm_year t) @ '' ''
      @ zone_field (tm_gmtoff t) @ [CHR 0x0A]"
    by (simp add: date_line_def take24_asctime [OF p] M)
  have dbuf: "take 31 ?L = ?L" using length_date_line [OF p] by simp
  have mon: "lookup (drop E_MONTH (take (E_MONTH + 3) ?L)) = tm_mon t"
    using lookup_months [OF r(2)] by (simp add: L E_defs len' M [symmetric])
  have f: "atoi (drop E_DAY ?L) = tm_mday t" "atoi (drop E_HOUR ?L) = tm_hour t"
      "atoi (drop E_MINUTE ?L) = tm_min t" "atoi (drop E_SECOND ?L) = tm_sec t"
      "atoi (drop E_YEAR ?L) = 1900 + tm_year t"
    using r sm by (simp_all add: L E_defs len' mday_field(2) atoi_dec2 atoi_dec_int)
  have z: "drop E_TZOFFSET ?L = zone_field (tm_gmtoff t) @ [CHR 0x0A]"
    by (simp add: L E_defs len')
  show ?thesis
    using zone_field(2) [OF r(5,6)] length_date_line [OF p] r(10)
    by (simp add: unctime_def dbuf mon f z [unfolded E_TZOFFSET_def] Let_def E_TZOFFSET_def) (simp add: timegm_def)
qed


lemma dropWhile_space: "dropWhile (\<lambda>c. c = CHR '' '') (dec_nat n @ s) = dec_nat n @ s"
  using dec_nat_Cons [of n] by (auto dest: c_isdigit_space(5))

lemma dropWhile_digits: "list_all c_isdigit ds \<Longrightarrow> no_digit s \<Longrightarrow> dropWhile c_isdigit (ds @ s) = s"
  by (induction ds) (auto simp: no_digit_def split: list.splits)

lemma date_line_Cons: "printable_tm t \<Longrightarrow> dropWhile (\<lambda>c. c = CHR '' '') (date_line t) = date_line t"
proof -
  assume p: "printable_tm t"
  then have "tm_wday t \<in> {0, 1, 2, 3, 4, 5, 6}" by (auto simp: printable_tm_def)
  then show ?thesis by (auto simp: date_line_def take24_asctime [OF p] day_names_def)
qed

lemma takeWhile_name:
  "CHR '' '' \<notin> set n \<Longrightarrow> takeWhile (\<lambda>c. c \<noteq> CHR '' '') (n @ CHR '' '' # s) = n"
  by (induction n) auto

lemma dumprecout_good:
  assumes g: "good_record cfg d" and t: "t = it_localtime cfg (dd_ddate d)"
  shows "dumprecout (it_localtime cfg) d
    = Inr (dd_name d @ '' '' @ dec_nat (nat (dd_level d)) @ '' '' @ date_line t)"
proof -
  have p: "printable_tm t" "0 \<le> dd_level d" using g by (auto simp: good_record_def t Let_def)
  have l: "length (asctime t) = 25" using p by (simp add: length_asctime)
  have "asctime t = butlast (asctime t) @ [CHR 0x0A]" by (simp add: asctime_fields butlast_append)
  moreover have "length (butlast (asctime t)) = 24" using l by simp
  ultimately have "asctime t ! 24 = CHR 0x0A" by (metis nth_append_length)
  then show ?thesis
    using p l by (simp add: dumprecout_def t [symmetric] char_at_def date_line_def zone_field_def Let_def dec_int_def)
qed

lemma makedumpdate_good:
  assumes g: "good_record cfg d" and t: "t = it_localtime cfg (dd_ddate d)"
  shows "makedumpdate tz (dd_name d @ '' '' @ dec_nat (nat (dd_level d)) @ '' '' @ date_line t) = Some d"
proof -
  have p: "printable_tm t" "0 \<le> dd_level d" "dd_level d < 2 ^ 31" "timegm t = dd_ddate d + tm_gmtoff t"
    "0 \<le> dd_ddate d" "CHR '' '' \<notin> set (dd_name d)" "length (dd_name d) \<le> MAXPATHLEN"
    using g by (auto simp: good_record_def t Let_def)
  have a: "atoi (dec_nat (nat (dd_level d)) @ CHR '' '' # s) = dd_level d" for s
    using atoi_dec_int [of "dd_level d" "CHR '' '' # s"] p by (simp add: dec_int_def)
  show ?thesis
    using p
    by (simp add: makedumpdate_def takeWhile_name dropWhile_space a dropWhile_digits dec_nat_digits
        date_line_Cons unctime_date_line Let_def)
qed

lemma list_all_digits_notin: "list_all c_isdigit ds \<Longrightarrow> CHR 0x0A \<notin> set ds"
  by (induction ds) (auto dest: c_isdigit_space(6))

definition date_text :: "tm \<Rightarrow> string" where
  "date_text t = take 24 (asctime t) @ '' '' @ zone_field (tm_gmtoff t)"

lemma date_line_text:
  assumes "printable_tm t"
  shows "date_line t = date_text t @ [CHR 0x0A]" "length (date_text t) = 30" "CHR 0x0A \<notin> set (date_text t)"
proof -
  show d: "date_line t = date_text t @ [CHR 0x0A]" by (simp add: date_line_def date_text_def)
  show "length (date_text t) = 30" using length_date_line [OF assms] by (simp add: d)
  have "tm_wday t \<in> {0, 1, 2, 3, 4, 5, 6}" "tm_mon t \<in> {0..11}" "0 \<le> tm_mday t" "0 \<le> 1900 + tm_year t"
    using assms by (auto simp: printable_tm_def)
  moreover have "CHR 0x0A \<notin> set (day_names ! nat (tm_wday t))" using calculation(1) by (auto simp: day_names_def)
  moreover have "CHR 0x0A \<notin> set months" by (simp add: months_def)
  then have "CHR 0x0A \<notin> set (take 3 (drop k months))" for k
    using in_set_takeD in_set_dropD by metis
  ultimately show "CHR 0x0A \<notin> set (date_text t)"
    using list_all_digits_notin [OF dec_nat_digits] list_all_digits_notin [OF dec2_digits(1)]
    by (auto simp: date_text_def take24_asctime [OF assms] mday_field_def dec_int_def zone_field_def)
qed

lemma getrecord_good:
  assumes g: "good_record cfg d" and t: "t = it_localtime cfg (dd_ddate d)"
  shows "getrecord tz (dd_name d @ '' '' @ dec_nat (nat (dd_level d)) @ '' '' @ date_line t @ rest) = Some (d, rest)"
proof -
  have p: "printable_tm t" "dd_level d < 2 ^ 31" "CHR 0x0A \<notin> set (dd_name d)" "length (dd_name d) \<le> 4096"
    using g by (auto simp: good_record_def t Let_def MAXPATHLEN_def)
  have "nat (dd_level d) < 10 ^ Suc 9" using p(2) by simp
  then have ll: "length (dec_nat (nat (dd_level d))) \<le> 10" using length_dec_nat_le by fastforce
  let ?l = "dd_name d @ '' '' @ dec_nat (nat (dd_level d)) @ '' '' @ date_text t"
  note dt = date_line_text [OF p(1)]
  have nl: "CHR 0x0A \<notin> set ?l" "length ?l < 8191"
    using p dt ll list_all_digits_notin [OF dec_nat_digits] by auto
  have "dd_name d @ '' '' @ dec_nat (nat (dd_level d)) @ '' '' @ date_line t @ rest = ?l @ CHR 0x0A # rest"
    by (simp add: dt(1))
  then have "fgets BUFSIZ (dd_name d @ '' '' @ dec_nat (nat (dd_level d)) @ '' '' @ date_line t @ rest)
      = Some (?l @ [CHR 0x0A], rest)"
    using fgets_take_line [OF nl, of rest] by (simp add: fgets_def BUFSIZ_def)
  moreover have "?l @ [CHR 0x0A] = dd_name d @ '' '' @ dec_nat (nat (dd_level d)) @ '' '' @ date_line t"
    by (simp add: dt(1))
  ultimately show ?thesis using makedumpdate_good [OF assms, of tz] by (simp add: getrecord_def)
qed

lemma dumprecs_good:
  "\<forall>d \<in> set ds. good_record cfg d \<Longrightarrow>
     \<exists>out. dumprecs (it_localtime cfg) ds = Inr out \<and> readdumptimes tz out = ds"
proof (induction ds)
  case Nil
  have "readdumptimes tz [] = []"
    by (simp add: readdumptimes.simps [of tz "[]"] getrecord_def fgets_def)
  then show ?case by simp
next
  case (Cons d ds)
  then obtain out where out: "dumprecs (it_localtime cfg) ds = Inr out" "readdumptimes tz out = ds" by auto
  have g: "good_record cfg d" using Cons.prems by simp
  let ?l = "dd_name d @ '' '' @ dec_nat (nat (dd_level d)) @ '' '' @ date_line (it_localtime cfg (dd_ddate d))"
  have "readdumptimes tz (?l @ out) = d # ds"
    using getrecord_good [OF g refl, of tz out] out(2)
    by (subst readdumptimes.simps) simp
  moreover have "dumprecs (it_localtime cfg) (d # ds) = Inr (?l @ out)"
    using dumprecout_good [OF g refl] out(1) by simp
  ultimately show ?case by blast
qed


section \<open>The starting date\<close>

definition lower_dumps :: "itime_cfg \<Rightarrow> dumpdates list \<Rightarrow> dumpdates list" where
  "lower_dumps cfg ds = filter (\<lambda>d. same_disk cfg d \<and> dd_level d < atoi (it_level cfg)) ds"

lemma signed_take_bit_date: "0 \<le> d \<Longrightarrow> d < 2 ^ 31 \<Longrightarrow> signed_take_bit 31 d = (d :: int)"
  by (simp add: signed_take_bit_small)

lemma getdump_loop_latest:
  assumes "\<forall>d \<in> set ds. dd_ddate d < 2 ^ 31" "0 \<le> c" "getdump_loop cfg ds (c, l) = (c', l')"
  shows "c \<le> c' \<and> (\<forall>d \<in> set (lower_dumps cfg ds). dd_ddate d \<le> c')
    \<and> (c' = c \<and> l' = l \<or> (\<exists>d \<in> set (lower_dumps cfg ds). dd_ddate d = c' \<and> l' = take 31 (dec_int (dd_level d))))"
  using assms
proof (induction ds arbitrary: c l)
  case Nil
  then show ?case by (simp add: lower_dumps_def)
next
  case (Cons d ds)
  consider (skip) "\<not> (same_disk cfg d \<and> dd_level d < atoi (it_level cfg))"
    | (old) "same_disk cfg d" "dd_level d < atoi (it_level cfg)" "dd_ddate d \<le> c"
    | (new) "same_disk cfg d" "dd_level d < atoi (it_level cfg)" "c < dd_ddate d"
    by linarith
  then show ?case
  proof cases
    case skip
    then have "getdump_loop cfg ds (c, l) = (c', l')" "lower_dumps cfg (d # ds) = lower_dumps cfg ds"
      using Cons.prems(3) by (auto simp: lower_dumps_def split: if_splits)
    then show ?thesis using Cons.IH [of c l] Cons.prems by simp
  next
    case old
    then have "getdump_loop cfg ds (c, l) = (c', l')" "lower_dumps cfg (d # ds) = d # lower_dumps cfg ds"
      using Cons.prems(3) by (auto simp: lower_dumps_def)
    then show ?thesis using Cons.IH [of c l] Cons.prems old(3) by auto
  next
    case new
    then have r: "getdump_loop cfg ds (dd_ddate d, take 31 (dec_int (dd_level d))) = (c', l')"
      "lower_dumps cfg (d # ds) = d # lower_dumps cfg ds"
      using Cons.prems by (auto simp: lower_dumps_def signed_take_bit_date)
    then show ?thesis
      using Cons.IH [of "dd_ddate d" "take 31 (dec_int (dd_level d))"] Cons.prems new(3) by auto
  qed
qed

definition is_slot :: "itime_cfg \<Rightarrow> dumpdates \<Rightarrow> bool" where
  "is_slot cfg d \<longleftrightarrow> same_disk cfg d \<and> dd_level d = atoi (it_level cfg)"

definition new_record :: "itime_cfg \<Rightarrow> int \<Rightarrow> dumpdates" where
  "new_record cfg c_date =
     \<lparr> dd_name = take (MAXPATHLEN + 3) (it_disk cfg), dd_level = atoi (it_level cfg), dd_ddate = c_date \<rparr>"

lemma put_record_set: "set (put_record cfg c ds) \<subseteq> insert (new_record cfg c) (set ds)"
  by (induction ds) (auto simp: new_record_def)

lemma put_record_in: "new_record cfg c \<in> set (put_record cfg c ds)"
  by (induction ds) (auto simp: new_record_def)

lemma is_slot_new: "is_slot cfg (new_record cfg c)"
  by (simp add: is_slot_def new_record_def same_disk_def)

lemma put_record_others:
  "filter (\<lambda>d. \<not> is_slot cfg d) (put_record cfg c ds) = filter (\<lambda>d. \<not> is_slot cfg d) ds"
  using is_slot_new [of cfg c] by (induction ds) (auto simp: new_record_def is_slot_def)

text \<open>Rewriting a file whose records are all printable.\<close>

lemma putdumptime_file:
  assumes "it_uflag cfg" "it_lock_ok cfg" "\<forall>d \<in> set (readdumptimes (it_timelocal cfg) s). good_record cfg d"
    "good_record cfg (new_record cfg c)"
  shows "\<exists>out. putdumptime cfg c (DD_File s) = Inr (DD_File out)
    \<and> (\<forall>tz. readdumptimes tz out = put_record cfg c (readdumptimes (it_timelocal cfg) s))"
proof -
  let ?ds = "put_record cfg c (readdumptimes (it_timelocal cfg) s)"
  have "\<forall>d \<in> set ?ds. good_record cfg d"
    using put_record_set [of cfg c] assms(3,4) by blast
  then obtain out where "dumprecs (it_localtime cfg) ?ds = Inr out" "\<forall>tz. readdumptimes tz out = ?ds"
    using dumprecs_good [of ?ds cfg] by (metis sum.inject(2))
  then show ?thesis using assms(1,2) by (auto simp: putdumptime_def)
qed


section \<open>Properties\<close>

text \<open>A machine in UTC for the witnesses, which knows the first minute of 1970.\<close>

definition utc_tm :: "int \<Rightarrow> tm" where
  "utc_tm d = \<lparr> tm_sec = d, tm_min = 0, tm_hour = 0, tm_mday = 1, tm_mon = 0, tm_year = 70, tm_wday = 4,
     tm_gmtoff = 0 \<rparr>"

definition utc_cfg :: "string \<Rightarrow> itime_cfg" where
  "utc_cfg lev = \<lparr> it_disk = ''/dev/sda1'', it_level = lev, it_uflag = True, it_create_ok = True,
     it_lock_ok = True, it_localtime = utc_tm, it_timelocal = timegm \<rparr>"

definition utc_rec :: "int \<Rightarrow> int \<Rightarrow> dumpdates" where
  "utc_rec lev d = \<lparr> dd_name = ''/dev/sda1'', dd_level = lev, dd_ddate = d \<rparr>"

lemma utc_good: "d \<in> {0..59} \<Longrightarrow> l \<in> {0..9} \<Longrightarrow> good_record (utc_cfg lev) (utc_rec l d)"
  by (simp add: good_record_def utc_cfg_def utc_rec_def utc_tm_def printable_tm_def Let_def MAXPATHLEN_def
      timegm_def month_days_def)

lemma atoi_digit: "d < 10 \<Longrightarrow> atoi [digit_char d] = int d"
  using atoi_dec_int [of "int d" "[]"] by (simp add: dec_int_def dec_nat.simps [of d] no_digit_def)

lemma utc_new: "d < 10 \<Longrightarrow> new_record (utc_cfg [digit_char d]) c = utc_rec (int d) c"
  by (simp add: new_record_def utc_cfg_def utc_rec_def MAXPATHLEN_def atoi_digit)

text \<open>C20: The records that \<open>dumprecout\<close> prints are the records that \<open>readdumptimes\<close> reads, in the same
  order, with the same names, levels and dates, whatever time zone the reader is in.\<close>

theorem dumpdates_roundtrip:
  assumes "\<forall>d \<in> set ds. good_record cfg d"
  shows "\<exists>out. dumprecs (it_localtime cfg) ds = Inr out \<and> (\<forall>tz. readdumptimes tz out = ds)"
  using dumprecs_good [OF assms] by (metis sum.inject(2))

theorem dumpdates_roundtrip_witness:
  "\<exists>out. dumprecs utc_tm [utc_rec 0 5, utc_rec 1 40] = Inr out
     \<and> readdumptimes (\<lambda>_. 7) out = [utc_rec 0 5, utc_rec 1 40]"
proof -
  have "\<forall>d \<in> set [utc_rec 0 5, utc_rec 1 40]. good_record (utc_cfg ''0'') d"
    using utc_good by simp
  from dumpdates_roundtrip [OF this] show ?thesis by (auto simp: utc_cfg_def)
qed

text \<open>C19: \<open>getdumptime\<close> chooses the latest date among the dumps of this disk at a lower level, 0 when
  there is none, and reports the level of a dump with that date.\<close>

theorem getdumptime_latest:
  assumes "it_level cfg \<noteq> []" "getdumptime cfg create (DD_File s) = Inr ((c, l), file)"
    and "\<forall>d \<in> set (readdumptimes (it_timelocal cfg) s). dd_ddate d < 2 ^ 31"
  shows "file = DD_File s \<and> (let low = lower_dumps cfg (readdumptimes (it_timelocal cfg) s) in
    (\<forall>d \<in> set low. dd_ddate d \<le> c)
    \<and> (c = 0 \<and> l = [] \<or> (\<exists>d \<in> set low. dd_ddate d = c \<and> l = take 31 (dec_int (dd_level d)))))"
proof -
  let ?ds = "readdumptimes (it_timelocal cfg) s"
  have "file = DD_File s" "getdump_loop cfg ?ds (0, []) = (c, l)"
    using assms(1,2) by (auto simp: getdumptime_def initdumptimes_def split: if_splits)
  with getdump_loop_latest [OF assms(3) order.refl this(2)] show ?thesis by (auto simp: Let_def)
qed

theorem getdumptime_latest_witness:
  "\<exists>out c l. getdumptime (utc_cfg ''1'') True (DD_File out) = Inr ((c, l), DD_File out) \<and> 5 \<le> c"
proof -
  have g: "\<forall>d \<in> set [utc_rec 0 5]. good_record (utc_cfg ''1'') d" using utc_good by simp
  obtain out where out: "readdumptimes timegm out = [utc_rec 0 5]"
    using dumprecs_good [OF g, of timegm] by blast
  let ?cfg = "utc_cfg ''1''"
  obtain c l where r: "getdumptime ?cfg True (DD_File out) = Inr ((c, l), DD_File out)"
    by (cases "getdump_loop ?cfg (readdumptimes timegm out) (0, [])")
      (simp add: getdumptime_def initdumptimes_def utc_cfg_def)
  have ne: "it_level ?cfg \<noteq> []" by (simp add: utc_cfg_def)
  have small: "\<forall>d \<in> set (readdumptimes (it_timelocal ?cfg) out). dd_ddate d < 2 ^ 31"
    by (simp add: utc_cfg_def out utc_rec_def)
  have "''1'' = [digit_char 1]" by (simp add: digit_char_def) code_simp
  then have "atoi ''1'' = 1" using atoi_digit [of 1] by simp
  then have "utc_rec 0 5 \<in> set (lower_dumps ?cfg (readdumptimes (it_timelocal ?cfg) out))"
    by (simp add: lower_dumps_def utc_cfg_def out same_disk_def utc_rec_def)
  moreover have "\<forall>d \<in> set (lower_dumps ?cfg (readdumptimes (it_timelocal ?cfg) out)). dd_ddate d \<le> c"
    using getdumptime_latest [OF ne r small] by (simp add: Let_def)
  ultimately have "dd_ddate (utc_rec 0 5) \<le> c" by blast
  then show ?thesis using r by (auto simp: utc_rec_def)
qed


text \<open>C18: \<open>putdumptime\<close> rewrites a file of printable records so that it holds this dump's date for its
  disk and level, and every record of another disk or level unchanged and in the same order.\<close>

theorem putdumptime_updates:
  assumes "it_uflag cfg" "it_lock_ok cfg" "\<forall>d \<in> set (readdumptimes (it_timelocal cfg) s). good_record cfg d"
    and "good_record cfg (new_record cfg c)"
  shows "\<exists>out. putdumptime cfg c (DD_File s) = Inr (DD_File out)
    \<and> new_record cfg c \<in> set (readdumptimes (it_timelocal cfg) out)
    \<and> filter (\<lambda>d. \<not> is_slot cfg d) (readdumptimes (it_timelocal cfg) out)
      = filter (\<lambda>d. \<not> is_slot cfg d) (readdumptimes (it_timelocal cfg) s)"
  using putdumptime_file [OF assms] put_record_in put_record_others by metis

lemma utc_new_good:
  assumes "c \<in> {0..59}"
  shows "good_record (utc_cfg [digit_char 1]) (new_record (utc_cfg [digit_char 1]) c)"
  using utc_good [of c 1 "[digit_char 1]"] utc_new [of 1 c] assms by simp

lemma read_empty [simp]: "readdumptimes tz [] = []"
  by (simp add: readdumptimes.simps [of tz "[]"] getrecord_def fgets_def)

theorem putdumptime_updates_witness:
  "\<exists>out. putdumptime (utc_cfg [digit_char 1]) 9 (DD_File []) = Inr (DD_File out)
     \<and> utc_rec 1 9 \<in> set (readdumptimes timegm out)"
proof -
  let ?cfg = "utc_cfg [digit_char 1]"
  have c: "it_uflag ?cfg" "it_lock_ok ?cfg" "it_timelocal ?cfg = timegm" by (simp_all add: utc_cfg_def)
  show ?thesis
    using putdumptime_updates [of ?cfg "[]" 9] c utc_new_good [of 9] utc_new [of 1 9] by auto
qed

text \<open>C17: After a dump has recorded its date, a later dump of the same disk at a higher level starts
  from that date or a later one: it cannot miss a file changed since the recorded dump.\<close>

theorem incremental_base:
  assumes "it_uflag cfg" "it_lock_ok cfg" "\<forall>d \<in> set (readdumptimes (it_timelocal cfg) s). good_record cfg d"
    and "good_record cfg (new_record cfg c)"
    and "\<forall>d \<in> set (readdumptimes (it_timelocal cfg) s). dd_ddate d < 2 ^ 31" "c < 2 ^ 31"
    and "putdumptime cfg c (DD_File s) = Inr file" "it_disk cfg' = it_disk cfg"
    and "atoi (it_level cfg) < atoi (it_level cfg')" "it_level cfg' \<noteq> []"
    and "getdumptime cfg' create file = Inr ((base, l), file')"
  shows "c \<le> base"
proof -
  obtain out where out: "file = DD_File out" "\<forall>tz. readdumptimes tz out
      = put_record cfg c (readdumptimes (it_timelocal cfg) s)"
    using putdumptime_file [OF assms(1-4)] assms(7) by auto
  let ?ds = "readdumptimes (it_timelocal cfg') out"
  have ds: "set ?ds \<subseteq> insert (new_record cfg c) (set (readdumptimes (it_timelocal cfg) s))"
    and new: "new_record cfg c \<in> set ?ds"
    using out(2) put_record_set put_record_in by auto
  have small: "\<forall>d \<in> set ?ds. dd_ddate d < 2 ^ 31"
    using ds assms(5,6) by (auto simp: new_record_def)
  have "getdump_loop cfg' ?ds (0, []) = (base, l)"
    using assms(10,11) by (auto simp: getdumptime_def initdumptimes_def out split: if_splits)
  then have "\<forall>d \<in> set (lower_dumps cfg' ?ds). dd_ddate d \<le> base"
    using getdump_loop_latest [OF small order.refl] by blast
  moreover have "new_record cfg c \<in> set (lower_dumps cfg' ?ds)"
    using new assms(8,9) by (simp add: lower_dumps_def new_record_def same_disk_def)
  ultimately show ?thesis by (auto simp: new_record_def)
qed

theorem incremental_base_witness:
  "\<exists>file base l. putdumptime (utc_cfg [digit_char 1]) 9 (DD_File []) = Inr file
     \<and> getdumptime (utc_cfg [digit_char 2]) True file = Inr ((base, l), file) \<and> 9 \<le> base"
proof -
  let ?cfg = "utc_cfg [digit_char 1]" and ?cfg' = "utc_cfg [digit_char 2]"
  have c: "it_uflag ?cfg" "it_lock_ok ?cfg" "it_timelocal ?cfg = timegm" "it_disk ?cfg' = it_disk ?cfg"
    "atoi (it_level ?cfg) < atoi (it_level ?cfg')" "it_level ?cfg' \<noteq> []"
    by (simp_all add: utc_cfg_def atoi_digit)
  have e: "\<forall>d \<in> set (readdumptimes (it_timelocal ?cfg) []). good_record ?cfg d"
    "\<forall>d \<in> set (readdumptimes (it_timelocal ?cfg) []). dd_ddate d < 2 ^ 31" by simp_all
  have g: "good_record ?cfg (new_record ?cfg 9)" using utc_new_good [of 9] by simp
  obtain out where out: "putdumptime ?cfg 9 (DD_File []) = Inr (DD_File out)"
    using putdumptime_file [OF c(1,2) e(1) g] by blast
  obtain base l where r: "getdumptime ?cfg' True (DD_File out) = Inr ((base, l), DD_File out)"
    by (cases "getdump_loop ?cfg' (readdumptimes timegm out) (0, [])")
      (simp add: getdumptime_def initdumptimes_def utc_cfg_def)
  have "9 \<le> base"
    using incremental_base [OF c(1,2) e(1) g e(2) _ out c(4,5,6) r] by simp
  then show ?thesis using out r by blast
qed

text \<open>C21: A line that cannot be parsed ends the reading, and the rewrite by \<open>putdumptime\<close> then
  truncates the file there: whatever followed, also good records, is no longer in the new file.\<close>

theorem malformed_line_truncates:
  assumes "it_uflag cfg" "it_lock_ok cfg" "\<forall>d \<in> set ds. good_record cfg d" "good_record cfg (new_record cfg c)"
    and "dumprecs (it_localtime cfg) ds = Inr good" "getrecord (it_timelocal cfg) bad = None"
  shows "\<exists>out. putdumptime cfg c (DD_File (good @ bad)) = Inr (DD_File out)
    \<and> dumprecs (it_localtime cfg) (put_record cfg c ds) = Inr out"
proof -
  have "readdumptimes tz (good @ bad) = ds" if "getrecord tz bad = None" for tz
    using assms(3,5)
  proof (induction ds arbitrary: good)
    case Nil
    then show ?case using that by (simp add: readdumptimes.simps [of tz bad])
  next
    case (Cons d ds)
    have g: "good_record cfg d" using Cons.prems by simp
    let ?l = "dd_name d @ '' '' @ dec_nat (nat (dd_level d)) @ '' '' @ date_line (it_localtime cfg (dd_ddate d))"
    obtain g' where g': "dumprecs (it_localtime cfg) ds = Inr g'" "good = ?l @ g'"
      using Cons.prems(2) dumprecout_good [OF g refl] by (auto simp: bindE_Inr_iff)
    have "getrecord tz (good @ bad) = Some (d, g' @ bad)"
      using getrecord_good [OF g refl, of tz "g' @ bad"] by (simp add: g'(2))
    then show ?case using Cons.IH [OF _ g'(1)] Cons.prems(1) by (subst readdumptimes.simps) simp
  qed
  then have r: "readdumptimes (it_timelocal cfg) (good @ bad) = ds" using assms(6) by blast
  obtain out where "putdumptime cfg c (DD_File (good @ bad)) = Inr (DD_File out)"
    using putdumptime_file [OF assms(1,2) _ assms(4), of "good @ bad"] assms(3) r by auto
  moreover from this have "dumprecs (it_localtime cfg) (put_record cfg c ds) = Inr out"
    using assms(1,2) by (auto simp: putdumptime_def r bindE_Inr_iff)
  ultimately show ?thesis by blast
qed

theorem malformed_line_truncates_witness:
  "\<exists>out. putdumptime (utc_cfg [digit_char 1]) 9 (DD_File ''garbage'') = Inr (DD_File out)
     \<and> dumprecs utc_tm [utc_rec 1 9] = Inr out"
proof -
  let ?cfg = "utc_cfg [digit_char 1]"
  have c: "it_uflag ?cfg" "it_lock_ok ?cfg" "it_localtime ?cfg = utc_tm" by (simp_all add: utc_cfg_def)
  have g: "good_record ?cfg (new_record ?cfg 9)" using utc_new_good [of 9] by simp
  have bad: "getrecord (it_timelocal ?cfg) ''garbage'' = None"
  proof (cases "fgets_take (BUFSIZ - 1) ''garbage''")
    case (Pair l r)
    then have "''garbage'' = l @ r" by (rule fgets_take_append)
    moreover have "CHR '' '' \<notin> set ''garbage''" by simp
    ultimately have "CHR '' '' \<notin> set l" by (metis Un_iff set_append)
    then show ?thesis using Pair by (simp add: getrecord_def fgets_def makedumpdate_def)
  qed
  have e: "dumprecs (it_localtime ?cfg) [] = Inr []" by simp
  show ?thesis
    using malformed_line_truncates [OF c(1,2) _ g e bad] utc_new [of 1 9] by (simp add: c(3) [simplified] new_record_def)
qed

text \<open>A dump of level 0 that does not update the file still opens and reads it: the comparison of
  the level is with a string that has just been cleared, so an unreadable file ends the dump.\<close>

theorem level0_still_reads:
  "getdumptime (cfg\<lparr>it_level := ''0''\<rparr>) False DD_Error = Inl (Exit X_ABORT)"
  by (simp add: getdumptime_def initdumptimes_def)

end
