(* ===== verification/Rmtflags.thy ===== *)
theory Rmtflags
  imports C_String
begin

text \<open>
  The symbolic open flags of the remote tape protocol (compat/lib/rmtflags.c): \<open>rmtflags_toint\<close> and
  \<open>rmtflags_tochar\<close> over the table \<open>openflags\<close>, with the flag values of Linux on x86-64.  The
  theorems: which modes survive the trip through the text, and one that does not.
\<close>

section \<open>The table\<close>

definition O_RDONLY :: u32 where "O_RDONLY = 0"
definition O_WRONLY :: u32 where "O_WRONLY = 1"
definition O_RDWR :: u32 where "O_RDWR = 2"
definition O_ACCMODE :: u32 where "O_ACCMODE = 3"
definition O_SYNC :: u32 where "O_SYNC = 0x101000"
definition O_DSYNC :: u32 where "O_DSYNC = 0x1000"

definition openflags :: "(string \<times> u32) list" where
  "openflags = [(''O_RDONLY'', O_RDONLY), (''O_WRONLY'', O_WRONLY), (''O_RDWR'', O_RDWR),
     (''O_CREAT'', 0x40), (''O_EXCL'', 0x80), (''O_NOCTTY'', 0x100), (''O_TRUNC'', 0x200),
     (''O_APPEND'', 0x400), (''O_NONBLOCK'', 0x800), (''O_NDELAY'', 0x800), (''O_SYNC'', O_SYNC),
     (''O_FSYNC'', O_SYNC), (''O_ASYNC'', 0x2000), (''O_DSYNC'', O_DSYNC), (''O_RSYNC'', O_SYNC)]"


section \<open>From text\<close>

text \<open>A name of the table at the start of \<open>p\<close>, followed by a separator or the end.\<close>

definition flag_here :: "string \<Rightarrow> string \<times> u32 \<Rightarrow> bool" where
  "flag_here p op \<longleftrightarrow> take (length (fst op)) p = fst op
     \<and> char_at p (length (fst op)) \<in> {CHR ''|'', CHR '' '', CHR 0x00}"

definition is_flag :: "string \<Rightarrow> bool" where
  "is_flag p \<longleftrightarrow> char_at p 0 = CHR ''O'' \<and> char_at p 1 = CHR ''_''"

text \<open>One round of the \<open>do ... while\<close> loop of \<open>rmtflags_toint\<close>; the state is
  \<open>(result, numresult, seentext)\<close>.\<close>

function toint_loop :: "string \<Rightarrow> string \<Rightarrow> u32 \<times> u32 \<times> bool \<Rightarrow> u32 \<times> u32 \<times> bool" where
  "toint_loop filemode p0 s =
     (let p1 = dropWhile (\<lambda>c. c = CHR '' '') p0;
          p = (if is_flag p1 then p1
               else dropWhile (\<lambda>c. c = CHR '' '') (dropWhile (\<lambda>c. c \<noteq> CHR '' '') p1));
          numresult = (if is_flag p1 then fst (snd s)
                       else word_of_int (atoi filemode) AND (O_RDONLY OR O_WRONLY OR O_RDWR))
      in if p = [] then (fst s, numresult, snd (snd s))
         else
           let s = (case find (flag_here p) openflags of
                      None \<Rightarrow> (fst s, numresult, snd (snd s))
                    | Some op \<Rightarrow> (fst s OR snd op, numresult, True));
               q = dropWhile (\<lambda>c. c \<noteq> CHR ''|'') p
           in if q = [] then s else toint_loop filemode (tl q) s)"
  by pat_completeness auto

lemma length_dropWhile_tl: "dropWhile P p \<noteq> [] \<Longrightarrow> length (tl (dropWhile P p)) < length p"
  using length_dropWhile_le [of P p] by (cases "dropWhile P p") auto

termination toint_loop
proof (relation "measure (\<lambda>(f, p, s). length p)", simp)
  fix filemode p0 p1 p q :: string and s s' :: "u32 \<times> u32 \<times> bool" and n :: u32
  assume p1: "p1 = dropWhile (\<lambda>c. c = CHR '' '') p0"
    and p: "p = (if is_flag p1 then p1
               else dropWhile (\<lambda>c. c = CHR '' '') (dropWhile (\<lambda>c. c \<noteq> CHR '' '') p1))"
    and q: "q = dropWhile (\<lambda>c. c \<noteq> CHR ''|'') p" "q \<noteq> []"
  have "length p1 \<le> length p0" unfolding p1 by (rule length_dropWhile_le)
  moreover have "length p \<le> length p1"
    unfolding p by (auto intro: order.trans [OF length_dropWhile_le length_dropWhile_le])
  moreover have "length (tl q) < length p"
    using length_dropWhile_tl [of "\<lambda>c. c \<noteq> CHR ''|''" p] q(2) unfolding q(1) by blast
  ultimately show "((filemode, tl q, s'), filemode, p0, s) \<in> measure (\<lambda>(f, p, s). length p)" by simp
qed

declare toint_loop.simps [simp del]

definition rmtflags_toint :: "string \<Rightarrow> u32" where
  "rmtflags_toint filemode =
     (case toint_loop filemode filemode (0, 0, False) of
        (result, numresult, seentext) \<Rightarrow> if seentext then result else numresult)"


section \<open>To text\<close>

text \<open>
  The buffer comes uninitialised from \<open>malloc\<close>; in the \<open>default\<close> branch the code appends to what is
  in it, which \<open>junk\<close> stands for.
\<close>

definition access_name :: "string \<Rightarrow> u32 \<Rightarrow> string" where
  "access_name junk filemode =
     (if filemode AND O_ACCMODE = O_RDONLY then ''O_RDONLY''
      else if filemode AND O_ACCMODE = O_WRONLY then ''O_WRONLY''
      else if filemode AND O_ACCMODE = O_RDWR then ''O_RDWR''
      else junk @ ''ERROR'')"

definition flag_set :: "u32 \<Rightarrow> string \<times> u32 \<Rightarrow> bool" where
  "flag_set filemode op \<longleftrightarrow> snd op \<noteq> O_RDONLY \<and> snd op \<noteq> O_WRONLY \<and> snd op \<noteq> O_RDWR \<and> filemode AND snd op \<noteq> 0"

definition rmtflags_tochar :: "string \<Rightarrow> u32 \<Rightarrow> string" where
  "rmtflags_tochar junk filemode = fold
     (\<lambda>op result. if flag_set filemode op then result @ ''|'' @ fst op else result)
     openflags (access_name junk filemode)"


section \<open>The trip through the text\<close>

text \<open>Names joined by bars.\<close>

fun bar_names :: "(string \<times> u32) list \<Rightarrow> string" where
  "bar_names [] = []"
| "bar_names (op # ops) = CHR ''|'' # fst op @ bar_names ops"

lemma tochar_fold:
  "fold (\<lambda>op result. if flag_set m op then result @ ''|'' @ fst op else result) ops r
     = r @ bar_names (filter (flag_set m) ops)"
  by (induction ops arbitrary: r) auto

text \<open>Every name of the table is found when it is followed by a bar or the end, and gives its value.\<close>

definition entry_ok :: "string \<times> u32 \<Rightarrow> bool" where
  "entry_ok op \<longleftrightarrow> is_flag (fst op) \<and> list_all (\<lambda>c. c \<noteq> CHR ''|'' \<and> c \<noteq> CHR '' '' \<and> c \<noteq> CHR 0x00) (fst op)"

lemma openflags_ok: "op \<in> set openflags \<Longrightarrow> entry_ok op"
  by (auto simp: openflags_def entry_ok_def is_flag_def char_at_def)

lemma flag_here_name:
  assumes "entry_ok op" "entry_ok op'" "rest = [] \<or> hd rest = CHR ''|''"
  shows "flag_here (fst op @ rest) op' \<longleftrightarrow> fst op' = fst op"
proof
  assume h: "flag_here (fst op @ rest) op'"
  let ?n = "length (fst op')"
  have t: "take ?n (fst op @ rest) = fst op'"
    and e: "char_at (fst op @ rest) ?n \<in> {CHR ''|'', CHR '' '', CHR 0x00}"
    using h by (simp_all add: flag_here_def)
  consider "?n < length (fst op)" | "?n = length (fst op)" | "length (fst op) < ?n" by linarith
  then show "fst op' = fst op"
  proof cases
    case 1
    then have "char_at (fst op @ rest) ?n = fst op ! ?n" by (simp add: char_at_def nth_append)
    then show ?thesis using 1 e assms(1) by (auto simp: entry_ok_def list_all_length)
  next
    case 2
    then show ?thesis using t by simp
  next
    case 3
    have "length (take ?n (fst op @ rest)) = ?n" by (simp only: t)
    then have "rest \<noteq> []" using 3 by auto
    moreover have "fst op' ! length (fst op) = (fst op @ rest) ! length (fst op)"
      using nth_take [OF 3, of "fst op @ rest"] by (simp only: t)
    ultimately have "fst op' ! length (fst op) = CHR ''|''"
      using assms(3) by (cases rest) (auto simp: nth_append)
    then show ?thesis using 3 assms(2) by (auto simp: entry_ok_def list_all_length)
  qed
next
  assume e: "fst op' = fst op"
  have "char_at (fst op @ rest) (length (fst op)) \<in> {CHR ''|'', CHR '' '', CHR 0x00}"
    using assms(3) by (cases rest) (simp_all add: char_at_def)
  then show "flag_here (fst op @ rest) op'" unfolding flag_here_def e by simp
qed

lemma find_distinct:
  "distinct (map fst xs) \<Longrightarrow> op \<in> set xs \<Longrightarrow> find (\<lambda>x. fst x = fst op) xs = Some op"
  by (induction xs) (auto simp: image_iff)

lemma distinct_openflags: "distinct (map fst openflags)"
  by code_simp

lemma find_name:
  assumes "op \<in> set openflags" "rest = [] \<or> hd rest = CHR ''|''"
  shows "find (flag_here (fst op @ rest)) openflags = Some op"
proof -
  have "find (flag_here (fst op @ rest)) openflags = find (\<lambda>op'. fst op' = fst op) openflags"
    using flag_here_name [OF openflags_ok [OF assms(1)] openflags_ok assms(2)]
    by (intro find_cong) auto
  also have "\<dots> = Some op" using find_distinct [OF distinct_openflags assms(1)] .
  finally show ?thesis .
qed

lemma bar_names_hd: "bar_names ops = [] \<or> hd (bar_names ops) = CHR ''|''"
  by (cases ops) simp_all

lemma toint_names:
  assumes "set ops \<subseteq> set openflags" "op \<in> set openflags"
  shows "toint_loop f (fst op @ bar_names ops) (r, n, s) = (fold (\<lambda>op r. r OR snd op) (op # ops) r, n, True)"
  using assms
proof (induction ops arbitrary: op r s)
  case Nil
  have ok: "entry_ok op" using openflags_ok [OF Nil.prems(2)] .
  obtain c cs where c: "fst op = c # cs" using ok by (cases "fst op") (auto simp: entry_ok_def is_flag_def char_at_def)
  have sp: "dropWhile (\<lambda>c. c = CHR '' '') (fst op) = fst op" using ok by (simp add: entry_ok_def c)
  have bar: "dropWhile (\<lambda>c. c \<noteq> CHR ''|'') (fst op) = []" "CHR ''|'' \<notin> set cs"
    using ok by (auto simp: entry_ok_def list_all_iff dropWhile_eq_Nil_conv c)
  show ?case
    using ok find_name [OF Nil.prems(2), of "[]"]
    by (subst toint_loop.simps) (simp add: sp bar entry_ok_def c Let_def)
next
  case (Cons op' ops)
  have ok: "entry_ok op" using openflags_ok [OF Cons.prems(2)] .
  obtain c cs where c: "fst op = c # cs" using ok by (cases "fst op") (auto simp: entry_ok_def is_flag_def char_at_def)
  let ?p = "fst op @ bar_names (op' # ops)"
  have sp: "dropWhile (\<lambda>c. c = CHR '' '') ?p = ?p" using ok by (simp add: entry_ok_def c)
  have fl: "is_flag ?p" using ok by (auto simp: entry_ok_def is_flag_def char_at_def nth_append c split: if_splits)
  have bar: "dropWhile (\<lambda>c. c \<noteq> CHR ''|'') ?p = bar_names (op' # ops)"
    using ok by (subst dropWhile_append2) (auto simp: entry_ok_def list_all_iff)
  have "toint_loop f ?p (r, n, s) = toint_loop f (fst op' @ bar_names ops) (r OR snd op, n, True)"
    using find_name [OF Cons.prems(2) bar_names_hd, of "op' # ops"] fl
    by (subst toint_loop.simps) (simp only: sp bar Let_def if_True option.case fst_conv snd_conv, simp add: c)
  then show ?case using Cons.IH [of op' "r OR snd op" True] Cons.prems by simp
qed


text \<open>
  The modes the text can carry have a valid access mode and flags of the table only.  Of \<open>O_SYNC\<close>, two bits, one of
  which is \<open>O_DSYNC\<close>, it carries both or none, since the test is for any common bit.
\<close>

definition flag_mask :: u32 where
  "flag_mask = fold (\<lambda>op r. r OR snd op) openflags 0"

definition textual_mode :: "u32 \<Rightarrow> bool" where
  "textual_mode m \<longleftrightarrow> m AND O_ACCMODE \<noteq> O_ACCMODE \<and> m AND NOT flag_mask = 0"

definition with_sync :: "u32 \<Rightarrow> u32" where
  "with_sync m = (if m AND O_SYNC \<noteq> 0 then m OR O_SYNC else m)"

definition access_entry :: "u32 \<Rightarrow> string \<times> u32" where
  "access_entry m = (if m AND O_ACCMODE = O_RDONLY then (''O_RDONLY'', O_RDONLY)
     else if m AND O_ACCMODE = O_WRONLY then (''O_WRONLY'', O_WRONLY) else (''O_RDWR'', O_RDWR))"

lemma access_cases:
  assumes "m AND O_ACCMODE \<noteq> O_ACCMODE"
  obtains "m AND O_ACCMODE = 0" | "m AND O_ACCMODE = 1" | "m AND O_ACCMODE = 2"
proof -
  have "m AND O_ACCMODE = take_bit 2 m" by (simp add: O_ACCMODE_def take_bit_eq_mask mask_eq_exp_minus_1)
  moreover have "unat (take_bit 2 m) = unat m mod 4"
    by (simp only: unsigned_take_bit_eq) (simp add: take_bit_eq_mod)
  moreover have "unat m mod 4 = 0 \<or> unat m mod 4 = 1 \<or> unat m mod 4 = 2 \<or> unat m mod 4 = 3" by presburger
  ultimately have "unat (m AND O_ACCMODE) = unat (0 :: u32) \<or> unat (m AND O_ACCMODE) = unat (1 :: u32)
      \<or> unat (m AND O_ACCMODE) = unat (2 :: u32) \<or> unat (m AND O_ACCMODE) = unat (3 :: u32)"
    by simp
  then have "m AND O_ACCMODE = 0 \<or> m AND O_ACCMODE = 1 \<or> m AND O_ACCMODE = 2 \<or> m AND O_ACCMODE = 3"
    by (simp only: word_unat_eq_iff [symmetric])
  then show thesis using assms that by (auto simp: O_ACCMODE_def)
qed

lemma access_entry:
  assumes "m AND O_ACCMODE \<noteq> O_ACCMODE"
  shows "access_name junk m = fst (access_entry m) \<and> access_entry m \<in> set openflags
    \<and> snd (access_entry m) = m AND O_ACCMODE"
  by (rule access_cases [OF assms])
    (simp_all add: access_name_def access_entry_def O_RDONLY_def O_WRONLY_def O_RDWR_def openflags_def)

lemma fold_filter_or:
  "fold (\<lambda>op r. r OR snd op) (filter P ops) (r :: u32) = fold (\<lambda>op r. r OR (if P op then snd op else 0)) ops r"
  by (induction ops arbitrary: r) simp_all

lemma single_bit: "(if m AND 2 ^ k \<noteq> 0 then 2 ^ k else 0) = (m AND 2 ^ k :: u32)"
  by (rule bit_word_eqI) (auto simp: and_exp_eq_0_iff_not_bit bit_and_iff bit_exp_iff)

lemma single_bits:
  "(if m AND 64 \<noteq> 0 then 64 else 0) = (m AND 64 :: u32)"
  "(if m AND 128 \<noteq> 0 then 128 else 0) = (m AND 128 :: u32)"
  "(if m AND 256 \<noteq> 0 then 256 else 0) = (m AND 256 :: u32)"
  "(if m AND 512 \<noteq> 0 then 512 else 0) = (m AND 512 :: u32)"
  "(if m AND 1024 \<noteq> 0 then 1024 else 0) = (m AND 1024 :: u32)"
  "(if m AND 2048 \<noteq> 0 then 2048 else 0) = (m AND 2048 :: u32)"
  "(if m AND 4096 \<noteq> 0 then 4096 else 0) = (m AND 4096 :: u32)"
  "(if m AND 8192 \<noteq> 0 then 8192 else 0) = (m AND 8192 :: u32)"
proof -
  have *: "(if m AND v \<noteq> 0 then v else 0) = (m AND v :: u32)" if "v = 2 ^ k" for v k
    unfolding that by (rule single_bit)
  show "(if m AND 64 \<noteq> 0 then 64 else 0) = (m AND 64 :: u32)" by (rule * [of _ 6]) simp
  show "(if m AND 128 \<noteq> 0 then 128 else 0) = (m AND 128 :: u32)" by (rule * [of _ 7]) simp
  show "(if m AND 256 \<noteq> 0 then 256 else 0) = (m AND 256 :: u32)" by (rule * [of _ 8]) simp
  show "(if m AND 512 \<noteq> 0 then 512 else 0) = (m AND 512 :: u32)" by (rule * [of _ 9]) simp
  show "(if m AND 1024 \<noteq> 0 then 1024 else 0) = (m AND 1024 :: u32)" by (rule * [of _ 10]) simp
  show "(if m AND 2048 \<noteq> 0 then 2048 else 0) = (m AND 2048 :: u32)" by (rule * [of _ 11]) simp
  show "(if m AND 4096 \<noteq> 0 then 4096 else 0) = (m AND 4096 :: u32)" by (rule * [of _ 12]) simp
  show "(if m AND 8192 \<noteq> 0 then 8192 else 0) = (m AND 8192 :: u32)" by (rule * [of _ 13]) simp
qed

lemma O_SYNC_neq: "O_SYNC \<noteq> 1" "O_SYNC \<noteq> 2"
  by (simp_all add: O_SYNC_def)

definition sync_part :: "u32 \<Rightarrow> u32" where
  "sync_part m = (if m AND O_SYNC \<noteq> 0 then O_SYNC else 0)"

lemma sync_part: "sync_part m = (m AND O_SYNC) OR sync_part m"
proof (cases "m AND O_SYNC = 0")
  case False
  have "(m AND O_SYNC) OR O_SYNC = O_SYNC" by (rule bit_word_eqI) (auto simp: bit_or_iff bit_and_iff)
  then show ?thesis using False by (simp add: sync_part_def)
qed (simp add: sync_part_def)

lemma with_sync_part: "with_sync m = m OR sync_part m"
  by (simp add: with_sync_def sync_part_def)

lemma mode_or:
  "fold (\<lambda>op r. r OR snd op) (filter (flag_set m) openflags) r
    = r OR (m AND (0x40 OR 0x80 OR 0x100 OR 0x200 OR 0x400 OR 0x800 OR O_SYNC OR 0x2000 OR O_DSYNC)) OR sync_part m"
proof -
  have fs: "(if flag_set m (nm, v) then snd (nm, v) else 0) = (if m AND v \<noteq> 0 then v else 0)"
    if "v \<noteq> 1" "v \<noteq> 2" for nm v
    using that by (auto simp: flag_set_def O_RDONLY_def O_WRONLY_def O_RDWR_def)
  have fs0: "(if flag_set m (nm, v) then snd (nm, v) else 0) = 0" if "v \<in> {O_RDONLY, O_WRONLY, O_RDWR}" for nm v
    using that by (auto simp: flag_set_def)
  have "fold (\<lambda>op r. r OR snd op) (filter (flag_set m) openflags) r
    = r OR (m AND 0x40) OR (m AND 0x80) OR (m AND 0x100) OR (m AND 0x200) OR (m AND 0x400)
        OR (m AND 0x800) OR sync_part m OR (m AND 0x2000) OR (m AND O_DSYNC)"
    unfolding fold_filter_or openflags_def
    by (simp add: fs fs0 sync_part_def [symmetric] single_bits [of m] O_DSYNC_def or.assoc or.left_commute or.commute
        O_SYNC_neq split del: if_split)
  then show ?thesis
    by (subst (asm) sync_part) (simp only: bit.conj_disj_distrib or.assoc or.left_commute or.commute)
qed


lemma toint_tochar:
  assumes "textual_mode m"
  shows "rmtflags_toint (rmtflags_tochar junk m) = with_sync m"
proof -
  have m: "m AND O_ACCMODE \<noteq> O_ACCMODE" "m AND NOT flag_mask = 0" using assms by (simp_all add: textual_mode_def)
  note ac = access_entry [OF m(1), of junk]
  have t: "rmtflags_tochar junk m = fst (access_entry m) @ bar_names (filter (flag_set m) openflags)"
    using ac by (simp add: rmtflags_tochar_def tochar_fold)
  have sub: "set (filter (flag_set m) openflags) \<subseteq> set openflags" by auto
  let ?rest = "0x40 OR 0x80 OR 0x100 OR 0x200 OR 0x400 OR 0x800 OR O_SYNC OR 0x2000 OR O_DSYNC :: u32"
  have v: "fold (\<lambda>op r. r OR snd op) (access_entry m # filter (flag_set m) openflags) 0
      = (m AND O_ACCMODE) OR (m AND ?rest) OR sync_part m"
    using mode_or [of m "snd (access_entry m)"] ac by simp
  have v': "fold (\<lambda>op r. r OR snd op) (access_entry m # filter (flag_set m) openflags) 0
      = ((m AND O_ACCMODE) OR (m AND ?rest)) OR sync_part m"
    unfolding v by (simp only: or.assoc)
  have "O_ACCMODE OR ?rest = flag_mask"
    by (simp add: flag_mask_def openflags_def O_ACCMODE_def O_SYNC_def O_DSYNC_def O_RDONLY_def O_WRONLY_def O_RDWR_def)
  then have "(m AND O_ACCMODE) OR (m AND ?rest) = m AND flag_mask"
    by (metis bit.conj_disj_distrib)
  also have "\<dots> = (m AND flag_mask) OR (m AND NOT flag_mask)" using m(2) by simp
  also have "\<dots> = m AND (flag_mask OR NOT flag_mask)" by (rule bit.conj_disj_distrib [symmetric])
  also have "\<dots> = m" by simp
  finally have "fold (\<lambda>op r. r OR snd op) (access_entry m # filter (flag_set m) openflags) 0 = m OR sync_part m"
    using v' by (simp only:)
  then show ?thesis
    using toint_names [OF sub conjunct1 [OF conjunct2 [OF ac]], of "rmtflags_tochar junk m" 0 0 False]
    by (simp add: rmtflags_toint_def t [symmetric] with_sync_part)
qed


section \<open>Properties\<close>

text \<open>C26: For every mode with a valid access mode and no flags but those of the table, \<open>rmtflags_toint\<close> reads from
  the text of \<open>rmtflags_tochar\<close> the same mode, except that a mode with either bit of \<open>O_SYNC\<close> comes back with both.\<close>

theorem open_flags_roundtrip:
  assumes "m AND O_ACCMODE \<noteq> O_ACCMODE" "m AND NOT (fold (\<lambda>op r. r OR snd op) openflags 0) = 0"
  shows "rmtflags_toint (rmtflags_tochar junk m) = (if m AND O_SYNC \<noteq> 0 then m OR O_SYNC else m)"
  using toint_tochar [of m junk] assms by (simp add: textual_mode_def flag_mask_def with_sync_def)

theorem open_flags_roundtrip_witness:
  "rmtflags_toint (rmtflags_tochar [] 0x101241) = 0x101241"
proof -
  have "(0x101241 :: u32) AND O_SYNC \<noteq> 0" "(0x101241 :: u32) OR O_SYNC = 0x101241" by (simp_all add: O_SYNC_def)
  then show ?thesis
    by (subst open_flags_roundtrip) (simp_all add: O_ACCMODE_def openflags_def O_SYNC_def O_DSYNC_def
        O_RDONLY_def O_WRONLY_def O_RDWR_def)
qed

text \<open>A mode with \<open>O_DSYNC\<close> and without the rest of \<open>O_SYNC\<close> does not survive: the two values
  share a bit and the test is for any common bit, so the text asks for \<open>O_SYNC\<close> too.\<close>

theorem dsync_becomes_sync:
  assumes "m AND O_ACCMODE \<noteq> O_ACCMODE" "m AND O_SYNC = O_DSYNC"
  shows "rmtflags_toint (rmtflags_tochar junk m) AND O_SYNC = O_SYNC"
proof -
  note ac = access_entry [OF assms(1), of junk]
  have t: "rmtflags_tochar junk m = fst (access_entry m) @ bar_names (filter (flag_set m) openflags)"
    using ac by (simp add: rmtflags_tochar_def tochar_fold)
  have sub: "set (filter (flag_set m) openflags) \<subseteq> set openflags" by auto
  have "flag_set m (''O_SYNC'', O_SYNC)" "(''O_SYNC'', O_SYNC) \<in> set openflags"
    using assms(2) by (simp_all add: flag_set_def openflags_def O_RDONLY_def O_WRONLY_def O_RDWR_def)
      (simp_all add: O_SYNC_def O_DSYNC_def)
  then have mem: "(''O_SYNC'', O_SYNC) \<in> set (access_entry m # filter (flag_set m) openflags)" by simp
  have keep: "op \<in> set ops \<or> r AND snd op = snd op \<Longrightarrow>
      fold (\<lambda>op r. r OR snd op) ops r AND snd op = snd op" for op ops and r :: u32
  proof (induction ops arbitrary: r)
    case Nil
    then show ?case by simp
  next
    case (Cons a ops)
    have "op = a \<or> r AND snd op = snd op \<Longrightarrow> (r OR snd a) AND snd op = snd op"
      by (auto simp: bit_eq_iff bit_and_iff bit_or_iff)
    then show ?case using Cons by auto
  qed
  show ?thesis
    using toint_names [OF sub conjunct1 [OF conjunct2 [OF ac]], of "rmtflags_tochar junk m" 0 0 False]
      keep [OF disjI1 [OF mem], of 0]
    by (simp add: rmtflags_toint_def t [symmetric])
qed

theorem dsync_becomes_sync_witness:
  "rmtflags_toint (rmtflags_tochar [] 0x1001) AND O_SYNC = O_SYNC"
  by (rule dsync_becomes_sync) (simp_all add: O_ACCMODE_def O_SYNC_def O_DSYNC_def)

end
