(* ===== verification/Rmt.thy ===== *)
theory Rmt
  imports Rmtflags
begin

text \<open>
  The remote tape server rmt/rmt.c: one step of the machine reads one command from standard input,
  performs it on the tape and writes the answer.  The operating system is outside the sources: its
  calls are the fields of \<open>sysops\<close>, each from the state of the outside world to a result and the new
  state.  Linux on x86-64, with \<open>USE_QFA\<close>, without \<open>ERMT\<close> (the encrypting variant).
\<close>

section \<open>The system calls\<close>

text \<open>\<open>struct mtget\<close> of Linux: five longs and two ints.\<close>

record mtget =
  mt_type :: u64
  mt_resid :: u64
  mt_dsreg :: u64
  mt_gstat :: u64
  mt_erreg :: u64
  mt_fileno :: u32
  mt_blkno :: u32

text \<open>\<open>Inl\<close> is a failure with its \<open>errno\<close>.  \<open>so_out\<close> is a write to standard output, with \<open>None\<close> for
  success; \<open>so_junk\<close> is what an uninitialised variable happens to hold.\<close>

record 'd sysops =
  so_open :: "string \<Rightarrow> u32 \<Rightarrow> 'd \<Rightarrow> (int + int) \<times> 'd"
  so_close :: "int \<Rightarrow> 'd \<Rightarrow> (int + unit) \<times> 'd"
  so_lseek :: "int \<Rightarrow> int \<Rightarrow> int \<Rightarrow> 'd \<Rightarrow> (int + int) \<times> 'd"
  so_read :: "int \<Rightarrow> int \<Rightarrow> 'd \<Rightarrow> (int + string) \<times> 'd"
  so_write :: "int \<Rightarrow> string \<Rightarrow> 'd \<Rightarrow> (int + int) \<times> 'd"
  so_mtop :: "int \<Rightarrow> int \<Rightarrow> int \<Rightarrow> 'd \<Rightarrow> (int + unit) \<times> 'd"
  so_mtpos :: "int \<Rightarrow> 'd \<Rightarrow> (int + int) \<times> 'd"
  so_mtget :: "int \<Rightarrow> 'd \<Rightarrow> (int + mtget) \<times> 'd"
  so_malloc :: "int \<Rightarrow> 'd \<Rightarrow> bool"
  so_out :: "string \<Rightarrow> 'd \<Rightarrow> int option \<times> 'd"
  so_strerror :: "int \<Rightarrow> string"
  so_junk :: u32

record 'd rmtd =
  r_in :: string
  r_out :: string
  r_tape :: int
  r_block :: u64
  r_magtape :: bool
  r_version :: bool
  r_maxrec :: int
  r_dev :: 'd

definition EINVAL :: int where "EINVAL = 22"

definition MTFSF :: int where "MTFSF = 1"
definition MTBSF :: int where "MTBSF = 2"
definition MTFSR :: int where "MTFSR = 3"
definition MTBSR :: int where "MTBSR = 4"
definition MTWEOF :: int where "MTWEOF = 5"
definition MTREW :: int where "MTREW = 6"
definition MTOFFL :: int where "MTOFFL = 7"
definition MTNOP :: int where "MTNOP = 8"
definition MTRETEN :: int where "MTRETEN = 9"
definition MTEOM :: int where "MTEOM = 12"
definition MTERASE :: int where "MTERASE = 13"
definition MTSEEK :: int where "MTSEEK = 22"
definition MTSETDRVBUFFER :: int where "MTSETDRVBUFFER = 24"
definition MT_ST_BOOLEANS :: int where "MT_ST_BOOLEANS = 0x10000000"
definition MT_ST_SCSI2LOGICAL :: int where "MT_ST_SCSI2LOGICAL = 0x800"

definition LSEEK_GET_TAPEPOS :: int where "LSEEK_GET_TAPEPOS = 10"
definition LSEEK_GO2_TAPEPOS :: int where "LSEEK_GO2_TAPEPOS = 11"


section \<open>Reading a command and answering\<close>

definition SSIZE :: nat where "SSIZE = 64"

text \<open>\<open>getstring\<close>: at most \<open>SSIZE - 1\<close> characters, up to a newline; \<open>None\<close> is the \<open>exit(0)\<close> at the end
  of the input.  A NUL among them ends the C string.\<close>

fun getstring_loop :: "nat \<Rightarrow> string \<Rightarrow> (string \<times> string) option" where
  "getstring_loop 0 s = Some ([], s)"
| "getstring_loop (Suc n) [] = None"
| "getstring_loop (Suc n) (c # s) =
     (if c = CHR 0x0A then Some ([], s)
      else map_option (\<lambda>(l, r). (c # l, r)) (getstring_loop n s))"

definition getstring :: "'d rmtd \<Rightarrow> nat + string \<times> 'd rmtd" where
  "getstring st =
     (case getstring_loop (SSIZE - 1) (r_in st) of
        None \<Rightarrow> Inl 0
      | Some (l, r) \<Rightarrow> Inr (takeWhile (\<lambda>c. c \<noteq> CHR 0x00) l, st\<lparr>r_in := r\<rparr>))"

text \<open>Writing to standard output; the error number on failure.\<close>

definition put_out :: "'d sysops \<Rightarrow> string \<Rightarrow> 'd rmtd \<Rightarrow> int option \<times> 'd rmtd" where
  "put_out sys s st =
     (case so_out sys s (r_dev st) of
        (None, d) \<Rightarrow> (None, st\<lparr>r_dev := d, r_out := r_out st @ s\<rparr>)
      | (Some e, d) \<Rightarrow> (Some e, st\<lparr>r_dev := d\<rparr>))"

definition error_reply :: "'d sysops \<Rightarrow> int \<Rightarrow> string" where
  "error_reply sys num = take 8191 (''E'' @ dec_int num @ [CHR 0x0A] @ so_strerror sys num @ [CHR 0x0A])"

definition ok_reply :: "int \<Rightarrow> string" where
  "ok_reply rval = ''A'' @ dec_int rval @ [CHR 0x0A]"

definition ioerror :: "'d sysops \<Rightarrow> int \<Rightarrow> 'd rmtd \<Rightarrow> nat + 'd rmtd" where
  "ioerror sys num st = Inr (snd (put_out sys (error_reply sys num) st))"

definition respond :: "'d sysops \<Rightarrow> int \<Rightarrow> 'd rmtd \<Rightarrow> nat + 'd rmtd" where
  "respond sys rval st =
     (case put_out sys (ok_reply rval) st of
        (None, st) \<Rightarrow> Inr st
      | (Some e, st) \<Rightarrow> ioerror sys e st)"

text \<open>The answer to \<open>R\<close> and \<open>S\<close>: the count, then the data.\<close>

definition respond_data :: "'d sysops \<Rightarrow> int \<Rightarrow> string \<Rightarrow> 'd rmtd \<Rightarrow> nat + 'd rmtd + 'd rmtd" where
  "respond_data sys rval buf st =
     (case put_out sys (ok_reply rval) st of
        (Some e, st) \<Rightarrow> map_sum id Inl (ioerror sys e st)
      | (None, st) \<Rightarrow>
          (case put_out sys buf st of
             (Some e, st) \<Rightarrow> map_sum id Inl (ioerror sys e st)
           | (None, st) \<Rightarrow> Inr (Inr st)))"

text \<open>\<open>checkbuf\<close>: the record buffer grows to the size asked for, or the server exits.\<close>

definition checkbuf :: "'d sysops \<Rightarrow> int \<Rightarrow> 'd rmtd \<Rightarrow> nat + 'd rmtd" where
  "checkbuf sys n st =
     (if n \<le> r_maxrec st then Inr st
      else if \<not> so_malloc sys n (r_dev st) then Inl 4
      else Inr (st\<lparr>r_maxrec := n\<rparr>))"

text \<open>A system call's result: continue with its value, or answer with its error.\<close>

definition syscall :: "'d sysops \<Rightarrow> (int + 'a) \<times> 'd \<Rightarrow> 'd rmtd \<Rightarrow> ('a \<Rightarrow> 'd rmtd \<Rightarrow> nat + 'd rmtd) \<Rightarrow> nat + 'd rmtd" where
  "syscall sys res st f =
     (case res of
        (Inl e, d) \<Rightarrow> ioerror sys e (st\<lparr>r_dev := d\<rparr>)
      | (Inr x, d) \<Rightarrow> f x (st\<lparr>r_dev := d\<rparr>))"


section \<open>The commands\<close>

definition cmd_open :: "'d sysops \<Rightarrow> 'd rmtd \<Rightarrow> nat + 'd rmtd" where
  "cmd_open sys st =
     (let st = (if r_tape st \<ge> 0 then st\<lparr>r_dev := snd (so_close sys (r_tape st) (r_dev st))\<rparr> else st) in
      bindE (getstring st) (\<lambda>(device, st).
      bindE (getstring st) (\<lambda>(filemode, st).
      case so_open sys device (rmtflags_toint filemode) (r_dev st) of
        (Inl e, d) \<Rightarrow> ioerror sys e (st\<lparr>r_dev := d, r_tape := -1\<rparr>)
      | (Inr fd, d) \<Rightarrow>
          (case so_mtget sys fd d of
             (res, d) \<Rightarrow> respond sys 0 (st\<lparr>r_dev := d, r_tape := fd, r_block := 0,
                           r_magtape := (case res of Inl e \<Rightarrow> False | Inr x \<Rightarrow> True)\<rparr>)))))"

definition cmd_close :: "'d sysops \<Rightarrow> 'd rmtd \<Rightarrow> nat + 'd rmtd" where
  "cmd_close sys st =
     bindE (getstring st) (\<lambda>(device, st).
     syscall sys (so_close sys (r_tape st) (r_dev st)) st (\<lambda>_ st.
     respond sys 0 (st\<lparr>r_tape := -1, r_block := 0\<rparr>)))"

definition seek_answer :: "'d sysops \<Rightarrow> int \<Rightarrow> 'd rmtd \<Rightarrow> nat + 'd rmtd" where
  "seek_answer sys rval st = (if rval < 0 then ioerror sys 0 st else respond sys rval st)"

definition cmd_seek :: "'d sysops \<Rightarrow> 'd rmtd \<Rightarrow> nat + 'd rmtd" where
  "cmd_seek sys st =
     bindE (getstring st) (\<lambda>(count, st).
     bindE (getstring st) (\<lambda>(pos, st).
     let p = atoi pos in
     if p \<in> {0, 1, 2} then
       syscall sys (so_lseek sys (r_tape st) (strtol10 count) p (r_dev st)) st (seek_answer sys)
     else if p = LSEEK_GET_TAPEPOS \<or> p = LSEEK_GO2_TAPEPOS then
       if \<not> r_magtape st then
         syscall sys (if p = LSEEK_GET_TAPEPOS then so_lseek sys (r_tape st) 0 1 (r_dev st)
                      else so_lseek sys (r_tape st) (strtol10 count) 0 (r_dev st)) st (seek_answer sys)
       else
         syscall sys (so_mtop sys (r_tape st) MTSETDRVBUFFER (MT_ST_BOOLEANS OR MT_ST_SCSI2LOGICAL) (r_dev st)) st
           (\<lambda>_ st.
              if p = LSEEK_GET_TAPEPOS then
                syscall sys (so_mtpos sys (r_tape st) (r_dev st)) st (seek_answer sys)
              else
                syscall sys (so_mtop sys (r_tape st) MTSEEK (atoi count) (r_dev st)) st
                  (\<lambda>_. seek_answer sys (atoi count)))
     else ioerror sys EINVAL st))"

text \<open>The bytes of a \<open>W\<close> request, read in pieces until there are \<open>n\<close>; an early end is \<open>exit(2)\<close>.\<close>

definition read_all :: "nat \<Rightarrow> 'd rmtd \<Rightarrow> nat + string \<times> 'd rmtd" where
  "read_all n st =
     (if length (r_in st) < n then Inl 2
      else Inr (take n (r_in st), st\<lparr>r_in := drop n (r_in st)\<rparr>))"

definition cmd_write :: "'d sysops \<Rightarrow> 'd rmtd \<Rightarrow> nat + 'd rmtd" where
  "cmd_write sys st =
     bindE (getstring st) (\<lambda>(count, st).
     let n = atoi count in
     if n < 1 then Inl 2
     else
       bindE (checkbuf sys n st) (\<lambda>st.
       bindE (read_all (nat n) st) (\<lambda>(record, st).
       syscall sys (so_write sys (r_tape st) record (r_dev st)) st (\<lambda>rval st.
       if rval < 0 then ioerror sys 0 st
       else respond sys rval (st\<lparr>r_block := r_block st + word_of_int (n div 1024)\<rparr>)))))"

definition cmd_read :: "'d sysops \<Rightarrow> 'd rmtd \<Rightarrow> nat + 'd rmtd" where
  "cmd_read sys st =
     bindE (getstring st) (\<lambda>(count, st).
     let n = atoi count in
     bindE (checkbuf sys n st) (\<lambda>st.
     syscall sys (so_read sys (r_tape st) n (r_dev st)) st (\<lambda>record st.
     bindE (respond_data sys (int (length record)) record st) (\<lambda>r.
     case r of
       Inl st \<Rightarrow> Inr st
     | Inr st \<Rightarrow> Inr (st\<lparr>r_block := r_block st + word_of_int (n div 1024)\<rparr>)))))"

text \<open>The commands of version 1 clients as operations of Linux; \<open>None\<close> is an invalid one.\<close>

definition version1_op :: "int \<Rightarrow> int option" where
  "version1_op p =
     (if p = 0 then Some MTWEOF else if p = 1 then Some MTFSF else if p = 2 then Some MTBSF
      else if p = 3 then Some MTFSR else if p = 4 then Some MTBSR else if p = 5 then Some MTREW
      else if p = 6 then Some MTOFFL else if p = 7 then Some MTNOP else if p = 8 then Some MTRETEN
      else if p = 9 then Some MTERASE else if p = 10 then Some MTEOM else None)"

text \<open>\<open>mt_op\<close> is a 16-bit field.\<close>

definition cmd_ioctl :: "'d sysops \<Rightarrow> 'd rmtd \<Rightarrow> nat + 'd rmtd" where
  "cmd_ioctl sys st =
     bindE (getstring st) (\<lambda>(opn, st).
     bindE (getstring st) (\<lambda>(count, st).
     if atoi opn = -1 then respond sys 1 (st\<lparr>r_version := True\<rparr>)
     else
       case (if r_version st then version1_op (atoi opn) else Some (signed_take_bit 15 (atoi opn))) of
         None \<Rightarrow> ioerror sys EINVAL st
       | Some mt_op \<Rightarrow>
           syscall sys (so_mtop sys (r_tape st) mt_op (atoi count) (r_dev st)) st
             (\<lambda>_. respond sys (atoi count))))"

text \<open>The extended commands; Linux has no \<open>MTCACHE\<close>, \<open>MTNOCACHE\<close> and \<open>MTNBSF\<close>.\<close>

definition extended_op :: "int \<Rightarrow> int option" where
  "extended_op p =
     (if p = 2 then Some MTRETEN else if p = 3 then Some MTERASE else if p = 4 then Some MTEOM else None)"

definition cmd_xioctl :: "'d sysops \<Rightarrow> 'd rmtd \<Rightarrow> nat + 'd rmtd" where
  "cmd_xioctl sys st =
     bindE (getstring st) (\<lambda>(opn, st).
     bindE (getstring st) (\<lambda>(count, st).
     case extended_op (atoi opn) of
       None \<Rightarrow> ioerror sys EINVAL st
     | Some mt_op \<Rightarrow>
         syscall sys (so_mtop sys (r_tape st) mt_op (atoi count) (r_dev st)) st
           (\<lambda>_. respond sys (atoi count))))"

text \<open>\<open>swaplong\<close> fills four of the eight bytes of its result.\<close>

definition swaplong :: "u32 \<Rightarrow> u64 \<Rightarrow> u64" where
  "swaplong junk w = le_word (rev (take 4 (le_bytes 8 w)) @ le_bytes 4 junk)"

definition swap_mtget :: "u32 \<Rightarrow> mtget \<Rightarrow> mtget" where
  "swap_mtget junk m = m\<lparr>
     mt_type := swaplong junk (mt_type m), mt_resid := swaplong junk (mt_resid m),
     mt_dsreg := swaplong junk (mt_dsreg m), mt_gstat := swaplong junk (mt_gstat m),
     mt_erreg := swaplong junk (mt_erreg m), mt_fileno := ucast (swaplong junk (scast (mt_fileno m))),
     mt_blkno := ucast (swaplong junk (scast (mt_blkno m)))\<rparr>"

definition byte_chars :: "byte list \<Rightarrow> string" where
  "byte_chars bs = map (\<lambda>b. char_of (unat b)) bs"

definition mtget_bytes :: "mtget \<Rightarrow> string" where
  "mtget_bytes m = byte_chars (le_bytes 8 (mt_type m) @ le_bytes 8 (mt_resid m) @ le_bytes 8 (mt_dsreg m)
     @ le_bytes 8 (mt_gstat m) @ le_bytes 8 (mt_erreg m) @ le_bytes 4 (mt_fileno m) @ le_bytes 4 (mt_blkno m))"

definition cmd_status :: "'d sysops \<Rightarrow> 'd rmtd \<Rightarrow> nat + 'd rmtd" where
  "cmd_status sys st =
     syscall sys (so_mtget sys (r_tape st) (r_dev st)) st (\<lambda>m st.
     let m = (if r_version st then swap_mtget (so_junk sys) m else m) in
     bindE (respond_data sys 48 (mtget_bytes m) st) (\<lambda>r.
     case r of Inl st \<Rightarrow> Inr st | Inr st \<Rightarrow> Inr st))"

definition status_field :: "char \<Rightarrow> mtget \<Rightarrow> int option" where
  "status_field c m =
     (if c = CHR ''T'' then Some (sint (mt_type m)) else if c = CHR ''D'' then Some (sint (mt_dsreg m))
      else if c = CHR ''E'' then Some (sint (mt_erreg m)) else if c = CHR ''R'' then Some (sint (mt_resid m))
      else if c = CHR ''F'' then Some (sint (mt_fileno m)) else if c = CHR ''B'' then Some (sint (mt_blkno m))
      else if c = CHR ''f'' then Some (sint (mt_gstat m)) else if c = CHR ''b'' then Some 0 else None)"

definition cmd_xstatus :: "'d sysops \<Rightarrow> 'd rmtd \<Rightarrow> nat + 'd rmtd" where
  "cmd_xstatus sys st =
     (case r_in st of
        [] \<Rightarrow> Inr st
      | c # rest \<Rightarrow>
          let st = st\<lparr>r_in := rest\<rparr> in
          syscall sys (so_mtget sys (r_tape st) (r_dev st)) st (\<lambda>m st.
          case status_field c m of
            None \<Rightarrow> ioerror sys EINVAL st
          | Some rval \<Rightarrow> respond sys rval st))"

definition cmd_version :: "'d sysops \<Rightarrow> 'd rmtd \<Rightarrow> nat + 'd rmtd" where
  "cmd_version sys st = bindE (getstring st) (\<lambda>(opn, st). respond sys 2 st)"

text \<open>One turn of the loop at \<open>top\<close>: \<open>Inl\<close> is the exit status.\<close>

definition rmt_step :: "'d sysops \<Rightarrow> 'd rmtd \<Rightarrow> nat + 'd rmtd" where
  "rmt_step sys st =
     (case r_in st of
        [] \<Rightarrow> Inl 0
      | c # rest \<Rightarrow>
          let st = st\<lparr>r_in := rest\<rparr> in
          if c = CHR ''O'' then cmd_open sys st
          else if c = CHR ''C'' then cmd_close sys st
          else if c = CHR ''L'' then cmd_seek sys st
          else if c = CHR ''W'' then cmd_write sys st
          else if c = CHR ''R'' then cmd_read sys st
          else if c = CHR ''I'' then cmd_ioctl sys st
          else if c = CHR ''i'' then cmd_xioctl sys st
          else if c = CHR ''S'' then cmd_status sys st
          else if c = CHR ''s'' then cmd_xstatus sys st
          else if c = CHR ''V'' then cmd_version sys st
          else Inl 3)"


section \<open>Reading lines\<close>

lemma getstring_loop_line:
  "CHR 0x0A \<notin> set l \<Longrightarrow> length l < n \<Longrightarrow> getstring_loop n (l @ CHR 0x0A # r) = Some (l, r)"
proof (induction l arbitrary: n)
  case Nil
  then show ?case by (cases n) simp_all
next
  case (Cons c l)
  moreover from this have "c \<noteq> CHR 0x0A" by auto
  ultimately show ?case by (cases n) simp_all
qed

lemma getstring_loop_long:
  "CHR 0x0A \<notin> set l \<Longrightarrow> length l = n \<Longrightarrow> getstring_loop n (l @ r) = Some (l, r)"
proof (induction l arbitrary: n)
  case Nil
  then show ?case by simp
next
  case (Cons c l)
  moreover from this have "c \<noteq> CHR 0x0A" by auto
  ultimately show ?case by (cases n) simp_all
qed

lemma takeWhile_all_eq: "(\<And>c. c \<in> set l \<Longrightarrow> P c) \<Longrightarrow> takeWhile P l = l"
  by (simp add: takeWhile_eq_all_conv)

definition plain_line :: "string \<Rightarrow> bool" where
  "plain_line l \<longleftrightarrow> length l < 63 \<and> CHR 0x0A \<notin> set l \<and> CHR 0x00 \<notin> set l"

lemma getstring_plain:
  "plain_line l \<Longrightarrow> r_in st = l @ CHR 0x0A # r \<Longrightarrow> getstring st = Inr (l, st\<lparr>r_in := r\<rparr>)"
  using getstring_loop_line [of l 63 r]
  by (auto simp: getstring_def SSIZE_def plain_line_def intro!: takeWhile_all_eq)

lemma digits_plain: "list_all c_isdigit ds \<Longrightarrow> CHR 0x0A \<notin> set ds \<and> CHR 0x00 \<notin> set ds"
  by (induction ds) (auto dest: c_isdigit_space)

lemma dec_int_plain: "\<bar>i\<bar> < 10 ^ 19 \<Longrightarrow> plain_line (dec_int i)"
proof -
  assume "\<bar>i\<bar> < 10 ^ 19"
  then have "nat \<bar>i\<bar> < 10 ^ Suc 18" by simp
  then have "length (dec_nat (nat \<bar>i\<bar>)) \<le> 19" using length_dec_nat_le by fastforce
  then show ?thesis
    using digits_plain [OF dec_nat_digits, of "nat i"] digits_plain [OF dec_nat_digits, of "nat (- i)"]
    by (auto simp: plain_line_def dec_int_def)
qed

lemma strtol10_dec_int:
  assumes "\<bar>i\<bar> < 2 ^ 63" "no_digit rest"
  shows "strtol10 (dec_int i @ rest) = i"
proof -
  have ne: "dec_nat n \<noteq> []" for n using dec_nat_Cons [of n] by auto
  show ?thesis
    using strtol10_digits [OF dec_nat_digits ne _ assms(2), of "nat i"]
      strtol10_digits [OF dec_nat_digits ne _ assms(2), of "nat (- i)"] assms(1)
    by (auto simp: dec_int_def digits_value_dec_nat)
qed

lemma atoi_dec: "- (2 ^ 31) \<le> i \<Longrightarrow> i < 2 ^ 31 \<Longrightarrow> atoi (dec_int i) = i"
  using atoi_dec_int [of i "[]"] by (simp add: no_digit_def)


section \<open>Every command is answered\<close>

text \<open>Standard output works; then an answer is appended to the output and nothing else.\<close>

definition out_works :: "'d sysops \<Rightarrow> bool" where
  "out_works sys \<longleftrightarrow> (\<forall>s d. fst (so_out sys s d) = None)"

text \<open>One reply: an error, the line of a value, or, for \<open>R\<close> and \<open>S\<close>, a count and that many bytes.\<close>

definition is_reply :: "'d sysops \<Rightarrow> bool \<Rightarrow> string \<Rightarrow> bool" where
  "is_reply sys data a \<longleftrightarrow> (\<exists>e. a = error_reply sys e)
     \<or> (if data then \<exists>buf. a = ok_reply (int (length buf)) @ buf else \<exists>v. a = ok_reply v)"

lemma is_reply_simps [simp]: "is_reply sys data (error_reply sys e)" "is_reply sys False (ok_reply v)"
  "is_reply sys True (ok_reply (int (length buf)) @ buf)"
  by (auto simp: is_reply_def)

definition ready :: "'d rmtd \<Rightarrow> 'd rmtd \<Rightarrow> bool" where
  "ready st0 st \<longleftrightarrow> r_out st = r_out st0 \<and> (\<exists>u. r_in st0 = u @ r_in st)"

definition answered :: "'d sysops \<Rightarrow> bool \<Rightarrow> 'd rmtd \<Rightarrow> nat + 'd rmtd \<Rightarrow> bool" where
  "answered sys data st0 res \<longleftrightarrow> (\<forall>st'. res = Inr st' \<longrightarrow>
     (\<exists>a. is_reply sys data a \<and> r_out st' = r_out st0 @ a) \<and> (\<exists>u. r_in st0 = u @ r_in st'))"

lemma ready_refl [simp]: "ready st st"
  by (simp add: ready_def)

lemma ready_dev [simp]:
  "ready st0 (st\<lparr>r_dev := d\<rparr>) = ready st0 st" "ready st0 (st\<lparr>r_tape := t\<rparr>) = ready st0 st"
  "ready st0 (st\<lparr>r_block := k\<rparr>) = ready st0 st" "ready st0 (st\<lparr>r_magtape := g\<rparr>) = ready st0 st"
  "ready st0 (st\<lparr>r_version := v\<rparr>) = ready st0 st" "ready st0 (st\<lparr>r_maxrec := x\<rparr>) = ready st0 st"
  by (simp_all add: ready_def)

lemma put_out_works:
  assumes "out_works sys"
  shows "\<exists>d. put_out sys s st = (None, st\<lparr>r_dev := d, r_out := r_out st @ s\<rparr>)"
proof -
  have "fst (so_out sys s (r_dev st)) = None" using assms by (simp add: out_works_def)
  moreover obtain x d where "so_out sys s (r_dev st) = (x, d)" by (cases "so_out sys s (r_dev st)")
  ultimately show ?thesis by (intro exI [of _ d]) (simp add: put_out_def)
qed

lemma answered_ioerror: "out_works sys \<Longrightarrow> ready st0 st \<Longrightarrow> answered sys data st0 (ioerror sys e st)"
  using put_out_works [of sys "error_reply sys e" st]
  by (auto simp: answered_def ioerror_def ready_def)

lemma answered_respond: "out_works sys \<Longrightarrow> ready st0 st \<Longrightarrow> answered sys False st0 (respond sys v st)"
  using put_out_works [of sys "ok_reply v" st]
  by (auto simp: answered_def respond_def ready_def)

lemma respond_data_works:
  assumes "out_works sys"
  shows "\<exists>d. respond_data sys v buf st = Inr (Inr (st\<lparr>r_dev := d, r_out := r_out st @ ok_reply v @ buf\<rparr>))"
proof -
  obtain d where d: "put_out sys (ok_reply v) st = (None, st\<lparr>r_dev := d, r_out := r_out st @ ok_reply v\<rparr>)"
    using put_out_works [OF assms] by blast
  obtain d' where "put_out sys buf (st\<lparr>r_dev := d, r_out := r_out st @ ok_reply v\<rparr>)
      = (None, st\<lparr>r_dev := d', r_out := r_out st @ ok_reply v @ buf\<rparr>)"
    using put_out_works [OF assms, of buf "st\<lparr>r_dev := d, r_out := r_out st @ ok_reply v\<rparr>"] by auto
  then show ?thesis using d by (intro exI [of _ d']) (simp add: respond_data_def)
qed

lemma answered_syscall:
  assumes "out_works sys" "ready st0 st"
    and "\<And>x d. fst res = Inr x \<Longrightarrow> answered sys data st0 (f x (st\<lparr>r_dev := d\<rparr>))"
  shows "answered sys data st0 (syscall sys res st f)"
  using assms answered_ioerror [of sys st0 "st\<lparr>r_dev := snd res\<rparr>"]
  by (cases res; cases "fst res") (auto simp: syscall_def)

lemma answered_bindE:
  "(\<And>x. m = Inr x \<Longrightarrow> answered sys data st0 (f x)) \<Longrightarrow> answered sys data st0 (bindE m f)"
  by (cases m) (auto simp: answered_def)

lemma getstring_loop_suffix: "getstring_loop n s = Some (l, r) \<Longrightarrow> \<exists>u. s = u @ r"
proof (induction n s arbitrary: l r rule: getstring_loop.induct)
  case (3 n c s)
  show ?case
  proof (cases "c = CHR 0x0A")
    case True
    then show ?thesis using "3.prems" by (auto intro: exI [of _ "[c]"])
  next
    case False
    then obtain l' where "getstring_loop n s = Some (l', r)" using "3.prems" by auto
    then obtain u where "s = u @ r" using "3.IH" [OF False] by blast
    then have "c # s = (c # u) @ r" by simp
    then show ?thesis by blast
  qed
qed simp_all

lemma getstring_ready: "getstring st = Inr (l, st') \<Longrightarrow> ready st0 st \<Longrightarrow> ready st0 st'"
  using getstring_loop_suffix [of 63 "r_in st"]
  by (auto simp: getstring_def ready_def SSIZE_def split: option.splits)

lemma answered_getstring:
  assumes "ready st0 st" "\<And>l st'. ready st0 st' \<Longrightarrow> answered sys data st0 (f (l, st'))"
  shows "answered sys data st0 (bindE (getstring st) f)"
proof (rule answered_bindE)
  fix x assume "getstring st = Inr x"
  then show "answered sys data st0 (f x)"
    using assms(2) [of "snd x" "fst x"] getstring_ready [of st "fst x" "snd x" st0] assms(1) by simp
qed

lemma answered_seek: "out_works sys \<Longrightarrow> ready st0 st \<Longrightarrow> answered sys False st0 (seek_answer sys v st)"
  by (simp add: seek_answer_def answered_ioerror answered_respond)

lemma checkbuf_ready: "checkbuf sys n st = Inr st' \<Longrightarrow> ready st0 st' = ready st0 st"
  by (auto simp: checkbuf_def split: if_splits)

lemma read_all_ready: "read_all n st = Inr (l, st') \<Longrightarrow> ready st0 st \<Longrightarrow> ready st0 st'"
  by (auto simp: read_all_def ready_def split: if_splits) (metis append_assoc append_take_drop_id)

lemma answered_exit [simp]: "answered sys data st0 (Inl k)"
  by (simp add: answered_def)

lemmas answers = answered_ioerror answered_respond answered_seek

lemma answered_cmd_open: "out_works sys \<Longrightarrow> ready st0 st \<Longrightarrow> answered sys False st0 (cmd_open sys st)"
  unfolding cmd_open_def Let_def
  by (rule answered_getstring, simp, simp only: prod.case, rule answered_getstring)
    (auto simp: answers split: prod.splits sum.splits)

lemma answered_cmd_close: "out_works sys \<Longrightarrow> ready st0 st \<Longrightarrow> answered sys False st0 (cmd_close sys st)"
  unfolding cmd_close_def by (rule answered_getstring) (auto simp: answers intro!: answered_syscall)

lemma answered_cmd_seek: "out_works sys \<Longrightarrow> ready st0 st \<Longrightarrow> answered sys False st0 (cmd_seek sys st)"
  unfolding cmd_seek_def Let_def
  by (rule answered_getstring, simp, simp only: prod.case, rule answered_getstring)
    (auto simp: answers intro!: answered_syscall)

lemma answered_cmd_write: "out_works sys \<Longrightarrow> ready st0 st \<Longrightarrow> answered sys False st0 (cmd_write sys st)"
  unfolding cmd_write_def Let_def
  by (rule answered_getstring) (auto simp: answers checkbuf_ready
      dest: read_all_ready intro!: answered_syscall answered_bindE)

lemma answered_cmd_ioctl: "out_works sys \<Longrightarrow> ready st0 st \<Longrightarrow> answered sys False st0 (cmd_ioctl sys st)"
  unfolding cmd_ioctl_def
  by (rule answered_getstring, simp, simp only: prod.case, rule answered_getstring)
    (auto simp: answers intro!: answered_syscall split: option.splits)

lemma answered_cmd_xioctl: "out_works sys \<Longrightarrow> ready st0 st \<Longrightarrow> answered sys False st0 (cmd_xioctl sys st)"
  unfolding cmd_xioctl_def
  by (rule answered_getstring, simp, simp only: prod.case, rule answered_getstring)
    (auto simp: answers intro!: answered_syscall split: option.splits)

lemma answered_cmd_version: "out_works sys \<Longrightarrow> ready st0 st \<Longrightarrow> answered sys False st0 (cmd_version sys st)"
  unfolding cmd_version_def by (rule answered_getstring) (simp_all add: answers)

lemma answered_data:
  assumes "out_works sys" "ready st0 st" "v = int (length buf)"
  shows "answered sys True st0 (bindE (respond_data sys v buf st)
    (\<lambda>r. case r of Inl st \<Rightarrow> Inr st | Inr st \<Rightarrow> Inr (st\<lparr>r_block := r_block st + k\<rparr>)))"
    "answered sys True st0 (bindE (respond_data sys v buf st) (\<lambda>r. case r of Inl st \<Rightarrow> Inr st | Inr st \<Rightarrow> Inr st))"
  using respond_data_works [OF assms(1), of v buf st] assms(2,3)
  by (auto simp: answered_def ready_def)

lemma answered_cmd_read: "out_works sys \<Longrightarrow> ready st0 st \<Longrightarrow> answered sys True st0 (cmd_read sys st)"
  unfolding cmd_read_def Let_def
  by (rule answered_getstring) (auto simp: checkbuf_ready intro!: answered_syscall answered_data
    answered_bindE [of "checkbuf _ _ _"])

lemma length_mtget_bytes: "length (mtget_bytes m) = 48"
  by (simp add: mtget_bytes_def byte_chars_def)

lemma answered_cmd_status: "out_works sys \<Longrightarrow> ready st0 st \<Longrightarrow> answered sys True st0 (cmd_status sys st)"
  unfolding cmd_status_def Let_def by (rule answered_syscall) (simp_all add: answered_data length_mtget_bytes)

lemma ready_consume: "ready st0 st \<Longrightarrow> r_in st = c # rest \<Longrightarrow> ready st0 (st\<lparr>r_in := rest\<rparr>)"
  by (auto simp: ready_def)

lemma answered_cmd_xstatus:
  "out_works sys \<Longrightarrow> ready st0 st \<Longrightarrow> r_in st \<noteq> [] \<Longrightarrow> answered sys False st0 (cmd_xstatus sys st)"
  unfolding cmd_xstatus_def Let_def
  by (cases "r_in st") (auto simp: answers ready_consume intro!: answered_syscall split: option.splits)

lemmas answered_cmds = answered_cmd_open answered_cmd_close answered_cmd_seek answered_cmd_write
  answered_cmd_read answered_cmd_ioctl answered_cmd_xioctl answered_cmd_status answered_cmd_xstatus
  answered_cmd_version

lemma answered_step:
  assumes "out_works sys" "r_in st \<noteq> ''s''"
  shows "answered sys (hd (r_in st) \<in> {CHR ''R'', CHR ''S''}) st (rmt_step sys st)"
proof (cases "r_in st")
  case Nil
  then show ?thesis by (simp add: rmt_step_def)
next
  case (Cons c rest)
  then have "ready st (st\<lparr>r_in := rest\<rparr>)" by (simp add: ready_def)
  then show ?thesis using assms Cons by (auto simp: rmt_step_def answered_cmds Let_def)
qed


section \<open>Requests in the format of the clients\<close>

definition request :: "char \<Rightarrow> string list \<Rightarrow> string" where
  "request c ls = c # concat (map (\<lambda>l. l @ [CHR 0x0A]) ls)"

lemma step_write:
  assumes "r_in st = request CHR ''W'' [dec_int (int (length buf))] @ buf @ rest"
    and "0 < length buf" "length buf < 2 ^ 31" "so_malloc sys (int (length buf)) (r_dev st)"
    and "so_write sys (r_tape st) buf (r_dev st) = (Inr rval, d)" "0 \<le> rval"
    and "so_out sys (ok_reply rval) d = (None, d')"
  shows "\<exists>st'. rmt_step sys st = Inr st' \<and> r_in st' = rest \<and> r_out st' = r_out st @ ok_reply rval
    \<and> r_dev st' = d' \<and> r_tape st' = r_tape st \<and> r_block st' = r_block st + word_of_int (int (length buf) div 1024)"
proof -
  let ?l = "dec_int (int (length buf))"
  have pl: "plain_line ?l" using assms(3) by (intro dec_int_plain) simp
  have r: "r_in (st\<lparr>r_in := ?l @ CHR 0x0A # buf @ rest\<rparr>) = ?l @ CHR 0x0A # buf @ rest" by simp
  have n: "atoi ?l = int (length buf)" using assms(3) by (intro atoi_dec) simp_all
  show ?thesis
    using assms getstring_plain [OF pl r]
    by (auto simp: rmt_step_def request_def cmd_write_def n checkbuf_def read_all_def syscall_def respond_def
        put_out_def Let_def)
qed

lemma step_read:
  assumes "r_in st = request CHR ''R'' [dec_int n] @ rest"
    and "0 \<le> n" "n < 2 ^ 31" "so_malloc sys n (r_dev st)"
    and "so_read sys (r_tape st) n (r_dev st) = (Inr buf, d)" "out_works sys"
  shows "\<exists>st'. rmt_step sys st = Inr st' \<and> r_in st' = rest
    \<and> r_out st' = r_out st @ ok_reply (int (length buf)) @ buf \<and> r_tape st' = r_tape st"
proof -
  have pl: "plain_line (dec_int n)" using assms(2,3) by (intro dec_int_plain) simp
  have r: "r_in (st\<lparr>r_in := dec_int n @ CHR 0x0A # rest\<rparr>) = dec_int n @ CHR 0x0A # rest" by simp
  have n: "atoi (dec_int n) = n" using assms(2,3) by (intro atoi_dec) simp_all
  define m where "m = (if n \<le> r_maxrec st then r_maxrec st else n)"
  let ?s1 = "st\<lparr>r_in := rest, r_maxrec := m\<rparr>" and ?s2 = "st\<lparr>r_in := rest, r_maxrec := m, r_dev := d\<rparr>"
  have c: "checkbuf sys n (st\<lparr>r_in := rest\<rparr>) = Inr ?s1"
    using assms(4) by (simp add: checkbuf_def m_def)
  obtain d1 where "respond_data sys (int (length buf)) buf ?s2
      = Inr (Inr (?s2\<lparr>r_dev := d1, r_out := r_out ?s2 @ ok_reply (int (length buf)) @ buf\<rparr>))"
    using respond_data_works [OF assms(6)] by blast
  then show ?thesis
    using assms getstring_plain [OF pl r]
    by (simp add: rmt_step_def request_def cmd_read_def n c syscall_def Let_def)
qed


section \<open>Properties\<close>


text \<open>A machine for the witnesses: the world is the list of blocks on the tape.\<close>

definition tape_sys :: "string list sysops" where
  "tape_sys = \<lparr> so_open = (\<lambda>name mode d. (Inr 3, d)), so_close = (\<lambda>fd d. (Inr (), d)),
     so_lseek = (\<lambda>fd off wh d. (Inr 0, d)), so_read = (\<lambda>fd n d. (Inr (if d = [] then [] else take (nat n) (hd d)), tl d)),
     so_write = (\<lambda>fd buf d. (Inr (int (length buf)), d @ [buf])), so_mtop = (\<lambda>fd op n d. (Inr (), d)),
     so_mtpos = (\<lambda>fd d. (Inr 0, d)), so_mtget = (\<lambda>fd d. (Inl 22, d)), so_malloc = (\<lambda>n d. True),
     so_out = (\<lambda>s d. (None, d)), so_strerror = (\<lambda>e. ''Invalid argument''), so_junk = 0 \<rparr>"

definition fresh_rmtd :: "string \<Rightarrow> 'd \<Rightarrow> 'd rmtd" where
  "fresh_rmtd s d = \<lparr> r_in = s, r_out = [], r_tape = 3, r_block = 0, r_magtape = False, r_version = False,
     r_maxrec = -1, r_dev = d \<rparr>"

lemma tape_sys_out: "out_works tape_sys"
  by (simp add: out_works_def tape_sys_def)


text \<open>\<open>getstring\<close> takes an argument line of at most 62 characters with its newline; of a longer
  line it takes the first 63 characters and leaves the rest, with the newline, to be read as the next
  argument or command.\<close>

theorem getstring_line:
  assumes "r_in st = l @ CHR 0x0A # rest" "CHR 0x0A \<notin> set l" "CHR 0x00 \<notin> set l"
  shows "getstring st = (if length l < 63 then Inr (l, st\<lparr>r_in := rest\<rparr>)
     else Inr (take 63 l, st\<lparr>r_in := drop 63 l @ CHR 0x0A # rest\<rparr>))"
proof (cases "length l < 63")
  case True
  then show ?thesis using getstring_plain [of l st rest] assms by (simp add: plain_line_def)
next
  case False
  then have "CHR 0x0A \<notin> set (take 63 l)" "length (take 63 l) = 63"
    using assms(2) by (auto dest: in_set_takeD)
  then have "getstring_loop 63 (take 63 l @ drop 63 l @ CHR 0x0A # rest)
      = Some (take 63 l, drop 63 l @ CHR 0x0A # rest)"
    by (rule getstring_loop_long)
  moreover have "takeWhile (\<lambda>c. c \<noteq> CHR 0x00) (take 63 l) = take 63 l"
    using assms(3) by (intro takeWhile_all_eq) (auto dest: in_set_takeD)
  moreover have "take 63 l @ drop 63 l @ CHR 0x0A # rest = r_in st" by (simp add: assms(1))
  ultimately have "getstring_loop 63 (r_in st) = Some (take 63 l, drop 63 l @ CHR 0x0A # rest)"
    "takeWhile (\<lambda>c. c \<noteq> CHR 0x00) (take 63 l) = take 63 l" by simp_all
  then show ?thesis using False unfolding getstring_def SSIZE_def by simp
qed

theorem getstring_line_witness:
  "getstring (fresh_rmtd (replicate 70 CHR ''x'' @ [CHR 0x0A]) ())
    = Inr (replicate 63 CHR ''x'', fresh_rmtd (replicate 7 CHR ''x'' @ [CHR 0x0A]) ())"
proof -
  have "r_in (fresh_rmtd (replicate 70 CHR ''x'' @ [CHR 0x0A]) ()) = replicate 70 CHR ''x'' @ CHR 0x0A # []"
    by (simp add: fresh_rmtd_def)
  from getstring_line [OF this] show ?thesis by (simp add: fresh_rmtd_def)
qed

text \<open>The byte swap of the status fields for version 1 clients determines only half of its result:
  the low four bytes are the swapped low four bytes of the argument, and the upper four are whatever
  the uninitialised variable held.\<close>

theorem swaplong_half:
  "le_bytes 8 (swaplong junk w) = rev (take 4 (le_bytes 8 w)) @ le_bytes 4 junk"
proof -
  have l: "length (rev (take 4 (le_bytes 8 w)) @ le_bytes 4 junk) = 8" by simp
  show ?thesis
    using le_bytes_le_word [where 'a = 64 and bs = "rev (take 4 (le_bytes 8 w)) @ le_bytes 4 junk"]
    unfolding swaplong_def l by simp
qed

end
