(* ===== verification/Dumprmt.thy ===== *)
theory Dumprmt
  imports Rmt Inomap
begin

text \<open>
  The client of the remote tape protocol, common/dumprmt.c: \<open>rmtopen\<close>, \<open>rmtclose\<close>, \<open>rmtread\<close>,
  \<open>rmtwrite\<close>, \<open>rmtseek\<close>, \<open>rmtstatus\<close>, \<open>rmtioctl\<close> and the functions under them.  The connection is a
  peer that answers what is sent to it.  The locale \<open>remote_tape\<close> states what a client needs of the
  peer; it is interpreted on the server of \<open>Rmt\<close>, so that a remote transfer is shown to have the
  result and the effect of the same system call on the server's tape.
\<close>

section \<open>The connection\<close>

text \<open>
  What ends a call: an exit, the use of an uninitialised byte, or a loop without end (the last two
  only when \<open>abortifconnerr\<close> is 0 and the connection is lost).
\<close>

datatype client_stop = C_Exit dump_exit | C_Garbage | C_Hang

record 'p client =
  cl_peer :: 'p
  cl_rx :: string
  cl_open :: bool
  cl_errno :: int
  cl_abort :: bool

type_synonym 'p peer = "string \<Rightarrow> 'p \<Rightarrow> (string \<times> 'p) option"

text \<open>\<open>rmtconnaborted\<close>: exits if \<open>abortifconnerr\<close> is set and otherwise returns; \<open>k\<close> is what follows.\<close>

definition rmtconnaborted :: "'p client \<Rightarrow> client_stop + 'a \<Rightarrow> client_stop + 'a" where
  "rmtconnaborted cl k = (if cl_abort cl then Inl (C_Exit X_ABORT) else k)"

definition rmtgetb :: "'p client \<Rightarrow> client_stop + char \<times> 'p client" where
  "rmtgetb cl =
     (case cl_rx cl of
        [] \<Rightarrow> rmtconnaborted cl (Inl C_Garbage)
      | c # rx \<Rightarrow> Inr (c, cl\<lparr>cl_rx := rx\<rparr>))"

text \<open>\<open>rmtgets\<close>: a line with its newline; \<open>line\<close> is what has been read and \<open>len\<close> the space left.\<close>

fun rmtgets_loop :: "nat \<Rightarrow> string \<Rightarrow> 'p client \<Rightarrow> client_stop + string \<times> 'p client" where
  "rmtgets_loop (Suc (Suc len)) line cl =
     bindE (rmtgetb cl) (\<lambda>(c, cl).
       if c = CHR 0x0A then Inr (line @ [c], cl) else rmtgets_loop (Suc len) (line @ [c]) cl)"
| "rmtgets_loop _ line cl = rmtconnaborted cl (Inr (line, cl))"

definition rmtgets :: "nat \<Rightarrow> 'p client \<Rightarrow> client_stop + string \<times> 'p client" where
  "rmtgets len cl = rmtgets_loop len [] cl"

definition rmtreply :: "'p client \<Rightarrow> client_stop + int \<times> 'p client" where
  "rmtreply cl =
     bindE (rmtgets 30 cl) (\<lambda>(code, cl).
     let c = char_at code 0; v = strtol10 (drop 1 code) in
     if c = CHR ''E'' \<or> c = CHR ''F'' then
       bindE (rmtgets 8192 cl) (\<lambda>(emsg, cl).
       Inr (-1, cl\<lparr>cl_errno := atoi (drop 1 code), cl_open := (cl_open cl \<and> c \<noteq> CHR ''F'')\<rparr>))
     else if c \<noteq> CHR ''A'' then rmtconnaborted cl (Inr (v, cl))
     else Inr (v, cl))"

text \<open>Sending; the answer of the peer arrives behind what has not been read yet.\<close>

definition send :: "'p peer \<Rightarrow> string \<Rightarrow> 'p client \<Rightarrow> 'p client option" where
  "send peer s cl =
     map_option (\<lambda>(resp, p). cl\<lparr>cl_peer := p, cl_rx := cl_rx cl @ resp\<rparr>) (peer s (cl_peer cl))"

definition rmtcall :: "'p peer \<Rightarrow> string \<Rightarrow> 'p client \<Rightarrow> client_stop + int \<times> 'p client" where
  "rmtcall peer buf cl =
     (case send peer buf cl of
        None \<Rightarrow> rmtconnaborted cl (rmtreply cl)
      | Some cl \<Rightarrow> rmtreply cl)"

definition to_int :: "int \<Rightarrow> int" where
  "to_int v = signed_take_bit 31 v"


section \<open>The calls\<close>

definition rmtopen :: "'p peer \<Rightarrow> string \<Rightarrow> string \<Rightarrow> u32 \<Rightarrow> 'p client \<Rightarrow> client_stop + int \<times> 'p client" where
  "rmtopen peer junk tape mode cl =
     (let buf = take 4095 (request CHR ''O'' [tape,
                  dec_int (uint (mode AND O_ACCMODE)) @ '' '' @ rmtflags_tochar junk mode])
      in bindE (rmtcall peer buf (cl\<lparr>cl_open := True\<rparr>)) (\<lambda>(v, cl). Inr (to_int v, cl)))"

definition rmtclose :: "'p peer \<Rightarrow> 'p client \<Rightarrow> client_stop + 'p client" where
  "rmtclose peer cl =
     (if \<not> cl_open cl then Inr cl
      else bindE (rmtcall peer (request CHR ''C'' [[]]) cl) (\<lambda>(v, cl). Inr (cl\<lparr>cl_open := False\<rparr>)))"

text \<open>
  The bytes after the answer to \<open>R\<close>.  When the connection ends too early and the process goes on,
  the loop adds the failed read's 0 to its counter for ever.
\<close>

definition read_reply :: "nat \<Rightarrow> 'p client \<Rightarrow> client_stop + string \<times> 'p client" where
  "read_reply n cl =
     (if length (cl_rx cl) < n then rmtconnaborted cl (Inl C_Hang)
      else Inr (take n (cl_rx cl), cl\<lparr>cl_rx := drop n (cl_rx cl)\<rparr>))"

definition rmtread :: "'p peer \<Rightarrow> nat \<Rightarrow> 'p client \<Rightarrow> client_stop + (int \<times> string) \<times> 'p client" where
  "rmtread peer count cl =
     bindE (rmtcall peer (request CHR ''R'' [dec_nat (count mod 2 ^ 32)]) cl) (\<lambda>(v, cl).
     let n = to_int v in
     if n < 0 then Inr ((-1, []), cl\<lparr>cl_errno := n\<rparr>)
     else bindE (read_reply (nat n) cl) (\<lambda>(buf, cl). Inr ((n, buf), cl)))"

text \<open>The request line and the data are two writes on one stream.\<close>

definition rmtwrite :: "'p peer \<Rightarrow> string \<Rightarrow> 'p client \<Rightarrow> client_stop + int \<times> 'p client" where
  "rmtwrite peer buf cl =
     (case send peer (request CHR ''W'' [dec_int (int (length buf))] @ buf) cl of
        None \<Rightarrow> Inr (-1, cl)
      | Some cl \<Rightarrow> bindE (rmtreply cl) (\<lambda>(v, cl). Inr (to_int v, cl)))"

definition rmtseek :: "'p peer \<Rightarrow> int \<Rightarrow> int \<Rightarrow> 'p client \<Rightarrow> client_stop + int \<times> 'p client" where
  "rmtseek peer offset pos cl = rmtcall peer (request CHR ''L'' [dec_int offset, dec_int pos]) cl"

text \<open>\<open>sizeof(mts)\<close> bytes, or as many as the server says are too many.\<close>

fun rmtgetbs :: "nat \<Rightarrow> 'p client \<Rightarrow> client_stop + string \<times> 'p client" where
  "rmtgetbs 0 cl = Inr ([], cl)"
| "rmtgetbs (Suc n) cl =
     bindE (rmtgetb cl) (\<lambda>(c, cl). bindE (rmtgetbs n cl) (\<lambda>(cs, cl). Inr (c # cs, cl)))"

definition rmtstatus :: "'p peer \<Rightarrow> 'p client \<Rightarrow> client_stop + string option \<times> 'p client" where
  "rmtstatus peer cl =
     (if \<not> cl_open cl then Inr (None, cl)
      else bindE (rmtcall peer ''S'' cl) (\<lambda>(v, cl).
        let i = to_int v in
        if i < 0 then Inr (None, cl)
        else bindE (rmtgetbs (nat i) cl) (\<lambda>(bs, cl).
          Inr (if i \<noteq> 48 then None else Some bs, cl))))"

definition rmtioctl :: "'p peer \<Rightarrow> int \<Rightarrow> int \<Rightarrow> 'p client \<Rightarrow> client_stop + int \<times> 'p client" where
  "rmtioctl peer cmd count cl =
     (if count < 0 then Inr (-1, cl)
      else bindE (rmtcall peer (request CHR ''I'' [dec_int cmd, dec_int count]) cl) (\<lambda>(v, cl).
        Inr (to_int v, cl)))"

text \<open>\<open>okname\<close>: ASCII letters, digits, \<open>_\<close> and \<open>-\<close>.\<close>

definition okname :: "string \<Rightarrow> bool" where
  "okname cp0 = list_all (\<lambda>c. let k = of_char c :: nat in
     k < 128 \<and> (48 \<le> k \<and> k \<le> 57 \<or> 65 \<le> k \<and> k \<le> 90 \<or> 97 \<le> k \<and> k \<le> 122 \<or> c = CHR ''_'' \<or> c = CHR ''-'')) cp0"


section \<open>Reading a reply\<close>

lemma rmtgets_loop_line:
  assumes "CHR 0x0A \<notin> set l" "Suc (length l) < len" "cl_rx cl = l @ CHR 0x0A # rx"
  shows "rmtgets_loop len line cl = Inr (line @ l @ [CHR 0x0A], cl\<lparr>cl_rx := rx\<rparr>)"
  using assms
proof (induction l arbitrary: len line cl)
  case Nil
  then obtain k where "len = Suc (Suc k)" by (cases len; cases "len - 1") auto
  then show ?case using Nil by (simp add: rmtgetb_def)
next
  case (Cons c l)
  then obtain k where k: "len = Suc (Suc k)" by (cases len; cases "len - 1") auto
  have ne: "c \<noteq> CHR 0x0A" using Cons.prems(1) by auto
  have "rmtgets_loop (Suc k) (line @ [c]) (cl\<lparr>cl_rx := l @ CHR 0x0A # rx\<rparr>)
      = Inr ((line @ [c]) @ l @ [CHR 0x0A], cl\<lparr>cl_rx := l @ CHR 0x0A # rx, cl_rx := rx\<rparr>)"
    by (rule Cons.IH) (use Cons.prems k in auto)
  then show ?case using Cons.prems ne k by (simp add: rmtgetb_def)
qed

lemma rmtgets_line:
  "CHR 0x0A \<notin> set l \<Longrightarrow> Suc (length l) < len \<Longrightarrow> cl_rx cl = l @ CHR 0x0A # rx \<Longrightarrow>
     rmtgets len cl = Inr (l @ [CHR 0x0A], cl\<lparr>cl_rx := rx\<rparr>)"
  using rmtgets_loop_line [of l len cl rx "[]"] by (simp add: rmtgets_def)

lemma length_dec_int: "\<bar>v\<bar> < 2 ^ 63 \<Longrightarrow> length (dec_int v) \<le> 20"
proof -
  assume "\<bar>v\<bar> < 2 ^ 63"
  then have "nat \<bar>v\<bar> < 10 ^ Suc 18" by simp
  then have "length (dec_nat (nat \<bar>v\<bar>)) \<le> 19" using length_dec_nat_le by fastforce
  then show ?thesis by (auto simp: dec_int_def)
qed

lemma dec_int_no_newline: "CHR 0x0A \<notin> set (dec_int v)"
  using digits_plain [OF dec_nat_digits, of "nat v"] digits_plain [OF dec_nat_digits, of "nat (- v)"]
  by (auto simp: dec_int_def)

lemma rmtreply_ok:
  assumes "cl_rx cl = ok_reply v @ rx" "\<bar>v\<bar> < 2 ^ 63"
  shows "rmtreply cl = Inr (v, cl\<lparr>cl_rx := rx\<rparr>)"
proof -
  let ?l = "CHR ''A'' # dec_int v"
  have "rmtgets 30 cl = Inr (?l @ [CHR 0x0A], cl\<lparr>cl_rx := rx\<rparr>)"
    using assms length_dec_int [of v] dec_int_no_newline [of v]
    by (intro rmtgets_line) (simp_all add: ok_reply_def)
  moreover have "strtol10 (dec_int v @ [CHR 0x0A]) = v"
    using assms(2) by (intro strtol10_dec_int) (simp_all add: no_digit_def c_isdigit_def)
  ultimately show ?thesis by (simp add: rmtreply_def char_at_def Let_def)
qed

definition plain_error :: "int \<Rightarrow> string \<Rightarrow> bool" where
  "plain_error e msg \<longleftrightarrow> 0 \<le> e \<and> e < 2 ^ 31 \<and> CHR 0x0A \<notin> set msg \<and> length msg < 8000"

lemma rmtreply_error:
  assumes "cl_rx cl = ''E'' @ dec_int e @ [CHR 0x0A] @ msg @ [CHR 0x0A] @ rx" "plain_error e msg"
  shows "rmtreply cl = Inr (-1, cl\<lparr>cl_rx := rx, cl_errno := e\<rparr>)"
proof -
  let ?l = "CHR ''E'' # dec_int e"
  let ?r1 = "msg @ CHR 0x0A # rx"
  have e: "0 \<le> e" "e < 2 ^ 31" using assms(2) by (simp_all add: plain_error_def)
  have "rmtgets 30 cl = Inr (?l @ [CHR 0x0A], cl\<lparr>cl_rx := ?r1\<rparr>)"
    using assms length_dec_int [of e] dec_int_no_newline [of e] e
    by (intro rmtgets_line) simp_all
  moreover have "rmtgets 8192 (cl\<lparr>cl_rx := ?r1\<rparr>) = Inr (msg @ [CHR 0x0A], cl\<lparr>cl_rx := ?r1, cl_rx := rx\<rparr>)"
    using assms(2) by (intro rmtgets_line) (simp_all add: plain_error_def)
  moreover have "atoi (dec_int e @ [CHR 0x0A]) = e"
    using e by (intro atoi_dec_int) (simp_all add: no_digit_def c_isdigit_def)
  ultimately show ?thesis by (simp add: rmtreply_def char_at_def Let_def)
qed


section \<open>What a client needs of its peer\<close>

definition answer_text :: "(int \<Rightarrow> string) \<Rightarrow> int + int \<Rightarrow> string" where
  "answer_text strerr res =
     (case res of Inr v \<Rightarrow> ok_reply v
      | Inl e \<Rightarrow> ''E'' @ dec_int e @ [CHR 0x0A] @ strerr e @ [CHR 0x0A])"

definition plain_result :: "(int \<Rightarrow> string) \<Rightarrow> int + int \<Rightarrow> bool" where
  "plain_result strerr res \<longleftrightarrow>
     (case res of Inr v \<Rightarrow> 0 \<le> v \<and> v < 2 ^ 31 | Inl e \<Rightarrow> plain_error e (strerr e))"

text \<open>A local call's value and \<open>errno\<close>, in the state of the client after the exchange.\<close>

definition local_value :: "int + int \<Rightarrow> int" where
  "local_value res = (case res of Inr v \<Rightarrow> v | Inl e \<Rightarrow> -1)"

definition local_errno :: "int + int \<Rightarrow> int \<Rightarrow> int" where
  "local_errno res old = (case res of Inr v \<Rightarrow> old | Inl e \<Rightarrow> e)"

locale remote_tape =
  fixes peer :: "'p peer"
    and strerr :: "int \<Rightarrow> string"
    and usable :: "'p \<Rightarrow> bool"
    and dev_write :: "string \<Rightarrow> 'p \<Rightarrow> (int + int) \<times> 'p"
    and dev_read :: "nat \<Rightarrow> 'p \<Rightarrow> (int + string) \<times> 'p"
  assumes peer_write: "usable p \<Longrightarrow> 0 < length buf \<Longrightarrow> length buf < 2 ^ 31 \<Longrightarrow>
      dev_write buf p = (res, p') \<Longrightarrow>
      peer (request CHR ''W'' [dec_int (int (length buf))] @ buf) p = Some (answer_text strerr res, p')
        \<and> plain_result strerr res \<and> usable p'"
    and peer_read: "usable p \<Longrightarrow> n < 2 ^ 31 \<Longrightarrow> dev_read n p = (Inr buf, p') \<Longrightarrow>
      peer (request CHR ''R'' [dec_nat n]) p = Some (ok_reply (int (length buf)) @ buf, p')
        \<and> length buf \<le> n \<and> usable p'"
begin

lemma rmtreply_answer:
  "plain_result strerr res \<Longrightarrow> cl_rx cl = answer_text strerr res \<Longrightarrow>
    rmtreply cl = Inr (local_value res, cl\<lparr>cl_rx := [], cl_errno := local_errno res (cl_errno cl)\<rparr>)"
  using rmtreply_ok [of cl _ "[]"] rmtreply_error [of cl _ "strerr _" "[]"]
  by (cases res) (auto simp: plain_result_def answer_text_def local_value_def local_errno_def)

lemma remote_write:
  assumes "usable (cl_peer cl)" "0 < length buf" "length buf < 2 ^ 31" "cl_rx cl = []"
    and "dev_write buf (cl_peer cl) = (res, p')"
  shows "rmtwrite peer buf cl = Inr (local_value res,
    cl\<lparr>cl_peer := p', cl_errno := local_errno res (cl_errno cl)\<rparr>) \<and> usable p'"
proof -
  have pw: "peer (request CHR ''W'' [dec_int (int (length buf))] @ buf) (cl_peer cl) = Some (answer_text strerr res, p')"
    "plain_result strerr res" "usable p'"
    using peer_write [OF assms(1-3,5)] by simp_all
  let ?c = "cl\<lparr>cl_peer := p', cl_rx := answer_text strerr res\<rparr>"
  have r: "rmtreply ?c = Inr (local_value res, ?c\<lparr>cl_rx := [], cl_errno := local_errno res (cl_errno cl)\<rparr>)"
    using rmtreply_answer [OF pw(2), of ?c] by simp
  have "to_int (local_value res) = local_value res"
    using pw(2) by (auto simp: plain_result_def to_int_def local_value_def signed_take_bit_small split: sum.splits)
  moreover have "?c\<lparr>cl_rx := [], cl_errno := local_errno res (cl_errno cl)\<rparr>
      = cl\<lparr>cl_peer := p', cl_errno := local_errno res (cl_errno cl)\<rparr>" using assms(4) by simp
  ultimately show ?thesis
    using pw r by (simp add: rmtwrite_def send_def assms(4))
qed

lemma remote_read:
  assumes "usable (cl_peer cl)" "n < 2 ^ 31" "cl_rx cl = []" "dev_read n (cl_peer cl) = (Inr buf, p')"
  shows "rmtread peer n cl = Inr ((int (length buf), buf), cl\<lparr>cl_peer := p'\<rparr>) \<and> usable p'"
proof -
  have n: "n mod 4294967296 = n" using assms(2) by simp
  have pr: "peer (request CHR ''R'' [dec_nat n]) (cl_peer cl) = Some (ok_reply (int (length buf)) @ buf, p')"
    "length buf \<le> n" "usable p'"
    using peer_read [OF assms(1,2,4)] by simp_all
  let ?c = "cl\<lparr>cl_peer := p', cl_rx := ok_reply (int (length buf)) @ buf\<rparr>"
  have lt: "int (length buf) < 2 ^ 31" using pr(2) assms(2) by simp
  have r: "rmtreply ?c = Inr (int (length buf), ?c\<lparr>cl_rx := buf\<rparr>)"
    by (rule rmtreply_ok) (use lt in simp_all)
  have "to_int (int (length buf)) = int (length buf)"
    using lt by (simp add: to_int_def signed_take_bit_small)
  moreover have "cl\<lparr>cl_peer := p', cl_rx := []\<rparr> = cl\<lparr>cl_peer := p'\<rparr>" using assms(3) by simp
  ultimately show ?thesis
    using pr r by (simp add: rmtread_def n rmtcall_def send_def assms(3) read_reply_def Let_def)
qed

end


section \<open>The server as the peer\<close>

text \<open>The server runs as long as there is input; every step takes at least one character.\<close>

fun serve_loop :: "nat \<Rightarrow> 'd sysops \<Rightarrow> 'd rmtd \<Rightarrow> nat + 'd rmtd" where
  "serve_loop 0 sys st = Inr st"
| "serve_loop (Suc n) sys st =
     (if r_in st = [] then Inr st else bindE (rmt_step sys st) (serve_loop n sys))"

definition serve :: "'d sysops \<Rightarrow> 'd rmtd peer" where
  "serve sys req st =
     (let s = st\<lparr>r_in := r_in st @ req\<rparr> in
      case serve_loop (length (r_in s)) sys s of
        Inl code \<Rightarrow> None
      | Inr st \<Rightarrow> Some (r_out st, st\<lparr>r_out := []\<rparr>))"

text \<open>A system whose calls behave as documented.\<close>

definition sys_good :: "'d sysops \<Rightarrow> bool" where
  "sys_good sys \<longleftrightarrow> out_works sys \<and> (\<forall>n d. so_malloc sys n d)
     \<and> (\<forall>fd buf d. case fst (so_write sys fd buf d) of
           Inl e \<Rightarrow> plain_error e (so_strerror sys e) | Inr v \<Rightarrow> 0 \<le> v \<and> v \<le> int (length buf))
     \<and> (\<forall>fd n d buf. 0 \<le> n \<longrightarrow> fst (so_read sys fd n d) = Inr buf \<longrightarrow> int (length buf) \<le> n)"

definition idle :: "'d sysops \<Rightarrow> 'd rmtd \<Rightarrow> bool" where
  "idle sys st \<longleftrightarrow> sys_good sys \<and> r_in st = [] \<and> r_out st = []"

text \<open>The same system call made by the server itself, with its bookkeeping.\<close>

definition grow_buffer :: "int \<Rightarrow> 'd rmtd \<Rightarrow> 'd rmtd" where
  "grow_buffer n st = st\<lparr>r_maxrec := max n (r_maxrec st)\<rparr>"

definition local_write :: "'d sysops \<Rightarrow> string \<Rightarrow> 'd rmtd \<Rightarrow> (int + int) \<times> 'd rmtd" where
  "local_write sys buf st =
     (let (res, d) = so_write sys (r_tape st) buf (r_dev st);
          st = grow_buffer (int (length buf)) st in
      case res of
        Inl e \<Rightarrow> (Inl e, st\<lparr>r_dev := snd (so_out sys (error_reply sys e) d)\<rparr>)
      | Inr v \<Rightarrow> (Inr v, st\<lparr>r_dev := snd (so_out sys (ok_reply v) d),
           r_block := r_block st + word_of_int (int (length buf) div 1024)\<rparr>))"

definition local_read :: "'d sysops \<Rightarrow> nat \<Rightarrow> 'd rmtd \<Rightarrow> (int + string) \<times> 'd rmtd" where
  "local_read sys n st =
     (let (res, d) = so_read sys (r_tape st) (int n) (r_dev st); st = grow_buffer (int n) st in
      case res of
        Inl e \<Rightarrow> (Inl e, st\<lparr>r_dev := snd (so_out sys (error_reply sys e) d)\<rparr>)
      | Inr buf \<Rightarrow> (Inr buf, st\<lparr>r_dev := snd (so_out sys buf (snd (so_out sys (ok_reply (int (length buf))) d))),
           r_block := r_block st + word_of_int (int n div 1024)\<rparr>))"

lemma put_out_good:
  "out_works sys \<Longrightarrow> put_out sys s st = (None, st\<lparr>r_dev := snd (so_out sys s (r_dev st)), r_out := r_out st @ s\<rparr>)"
proof -
  assume "out_works sys"
  then have "fst (so_out sys s (r_dev st)) = None" by (simp add: out_works_def)
  moreover obtain x d where "so_out sys s (r_dev st) = (x, d)" by (cases "so_out sys s (r_dev st)")
  ultimately show ?thesis by (simp add: put_out_def)
qed

lemma checkbuf_good: "\<forall>n d. so_malloc sys n d \<Longrightarrow> checkbuf sys n st = Inr (grow_buffer n st)"
  by (simp add: checkbuf_def grow_buffer_def max_def)

lemma serve_one:
  assumes "idle sys st" "req \<noteq> []" "rmt_step sys (st\<lparr>r_in := req\<rparr>) = Inr st'" "r_in st' = []"
  shows "serve sys req st = Some (r_out st', st'\<lparr>r_out := []\<rparr>)"
proof -
  obtain k where k: "length req = Suc k" using assms(2) by (cases req) auto
  have "serve_loop k sys st' = Inr st'" using assms(4) by (cases k) simp_all
  then show ?thesis using assms k by (simp add: serve_def idle_def Let_def)
qed

lemma serve_write:
  assumes "idle sys st" "0 < length buf" "length buf < 2 ^ 31" "local_write sys buf st = (res, st')"
  shows "serve sys (request CHR ''W'' [dec_int (int (length buf))] @ buf) st
      = Some (answer_text (so_strerror sys) res, st')
    \<and> plain_result (so_strerror sys) res \<and> idle sys st'"
proof -
  let ?req = "request CHR ''W'' [dec_int (int (length buf))] @ buf"
  let ?l = "dec_int (int (length buf))"
  have g: "out_works sys" "\<forall>n d. so_malloc sys n d" "r_in st = []" "r_out st = []"
    and wr: "case fst (so_write sys (r_tape st) buf (r_dev st)) of
       Inl e \<Rightarrow> plain_error e (so_strerror sys e) | Inr v \<Rightarrow> 0 \<le> v \<and> v \<le> int (length buf)"
    using assms(1) by (auto simp: idle_def sys_good_def)
  have pl: "plain_line ?l" using assms(3) by (intro dec_int_plain) simp
  have gs: "getstring (st\<lparr>r_in := ?l @ CHR 0x0A # buf\<rparr>) = Inr (?l, st\<lparr>r_in := buf\<rparr>)"
    using getstring_plain [OF pl, of "st\<lparr>r_in := ?l @ CHR 0x0A # buf\<rparr>" buf] by simp
  have n: "atoi ?l = int (length buf)" using assms(3) by (intro atoi_dec) simp_all
  obtain res0 d where so: "so_write sys (r_tape st) buf (r_dev st) = (res0, d)" by fastforce
  have eta: "st\<lparr>r_in := [], r_out := []\<rparr> = st" using g by simp
  have er: "error_reply sys e = ''E'' @ dec_int e @ [CHR 0x0A] @ so_strerror sys e @ [CHR 0x0A]"
    if "plain_error e (so_strerror sys e)" for e
  proof -
    have "length (dec_int e) \<le> 20" using that by (intro length_dec_int) (simp add: plain_error_def)
    then have "length (''E'' @ dec_int e @ [CHR 0x0A] @ so_strerror sys e @ [CHR 0x0A]) \<le> 8191"
      using that by (simp add: plain_error_def)
    then show ?thesis unfolding error_reply_def by (rule take_all)
  qed
  show ?thesis
  proof (cases res0)
    case (Inl e)
    then have pe: "plain_error e (so_strerror sys e)" using wr so by simp
    have "rmt_step sys (st\<lparr>r_in := ?req\<rparr>)
        = Inr (st'\<lparr>r_in := [], r_out := error_reply sys e\<rparr>)"
      using assms(2,4) g so Inl
      by (auto simp: rmt_step_def request_def cmd_write_def gs n checkbuf_good read_all_def syscall_def
          grow_buffer_def Let_def ioerror_def put_out_good local_write_def)
    moreover have st': "r_in st' = []" "r_out st' = []" "res = Inl e"
      using assms(4) g so Inl by (auto simp: local_write_def grow_buffer_def Let_def)
    ultimately have "serve sys ?req st = Some (error_reply sys e, st'\<lparr>r_in := [], r_out := []\<rparr>)"
      using serve_one [OF assms(1), of ?req] by (simp add: request_def)
    moreover have "st'\<lparr>r_in := [], r_out := []\<rparr> = st'" using st' by simp
    ultimately show ?thesis
      using st' pe er assms(1) by (simp add: answer_text_def plain_result_def idle_def)
  next
    case (Inr v)
    then have pv: "0 \<le> v" "v < 2 ^ 31" using wr so assms(3) by auto
    have "rmt_step sys (st\<lparr>r_in := ?req\<rparr>) = Inr (st'\<lparr>r_in := [], r_out := ok_reply v\<rparr>)"
      using assms(2,4) g so Inr pv
      by (auto simp: rmt_step_def request_def cmd_write_def gs n checkbuf_good read_all_def syscall_def
          grow_buffer_def Let_def respond_def put_out_good local_write_def)
    moreover have st': "r_in st' = []" "r_out st' = []" "res = Inr v"
      using assms(4) g so Inr by (auto simp: local_write_def grow_buffer_def Let_def)
    ultimately have "serve sys ?req st = Some (ok_reply v, st'\<lparr>r_in := [], r_out := []\<rparr>)"
      using serve_one [OF assms(1), of ?req] by (simp add: request_def)
    moreover have "st'\<lparr>r_in := [], r_out := []\<rparr> = st'" using st' by simp
    ultimately show ?thesis
      using st' pv assms(1) by (simp add: answer_text_def plain_result_def idle_def)
  qed
qed

lemma serve_read:
  assumes "idle sys st" "n < 2 ^ 31" "local_read sys n st = (Inr buf, st')"
  shows "serve sys (request CHR ''R'' [dec_nat n]) st = Some (ok_reply (int (length buf)) @ buf, st')
    \<and> length buf \<le> n \<and> idle sys st'"
proof -
  let ?l = "dec_nat n"
  have g: "out_works sys" "\<forall>n d. so_malloc sys n d" "r_in st = []" "r_out st = []"
    using assms(1) by (auto simp: idle_def sys_good_def)
  obtain res0 d where so0: "so_read sys (r_tape st) (int n) (r_dev st) = (res0, d)" by fastforce
  then have so: "so_read sys (r_tape st) (int n) (r_dev st) = (Inr buf, d)"
    using assms(3) by (auto simp: local_read_def Let_def split: sum.splits)
  have "int (length buf) \<le> int n" using assms(1) so by (simp add: idle_def sys_good_def) (metis fst_conv of_nat_0_le_iff of_nat_le_iff)
  then have len: "length buf \<le> n" by simp
  have di: "dec_int (int n) = ?l" by (simp add: dec_int_def)
  have pl: "plain_line ?l" using assms(2) dec_int_plain [of "int n"] by (simp add: di)
  have gs: "getstring (st\<lparr>r_in := ?l @ [CHR 0x0A]\<rparr>) = Inr (?l, st\<lparr>r_in := []\<rparr>)"
    using getstring_plain [OF pl, of "st\<lparr>r_in := ?l @ [CHR 0x0A]\<rparr>" "[]"] by simp
  have a: "atoi ?l = int n" using assms(2) atoi_dec [of "int n"] by (simp add: di)
  have st': "r_in st' = []" "r_out st' = []"
    using assms(3) g so by (auto simp: local_read_def grow_buffer_def Let_def)
  have "rmt_step sys (st\<lparr>r_in := request CHR ''R'' [?l]\<rparr>)
      = Inr (st'\<lparr>r_in := [], r_out := ok_reply (int (length buf)) @ buf\<rparr>)"
    using assms(3) g so
    by (auto simp: rmt_step_def request_def cmd_read_def gs a checkbuf_good syscall_def
        grow_buffer_def Let_def respond_data_def put_out_good local_read_def)
  then have "serve sys (request CHR ''R'' [?l]) st
      = Some (ok_reply (int (length buf)) @ buf, st'\<lparr>r_in := [], r_out := []\<rparr>)"
    using serve_one [OF assms(1), of "request CHR ''R'' [?l]"] by (simp add: request_def)
  moreover have "st'\<lparr>r_in := [], r_out := []\<rparr> = st'" using st' by simp
  ultimately show ?thesis using st' len assms(1) by (simp add: idle_def)
qed

interpretation rmtd: remote_tape "serve sys" "so_strerror sys" "idle sys" "local_write sys" "local_read sys"
  for sys
  by unfold_locales (use serve_write serve_read in blast)+


section \<open>Opening\<close>

lemma toint_numeric_prefix:
  assumes "list_all c_isdigit ds" "ds \<noteq> []" "is_flag q"
  shows "toint_loop f (ds @ CHR '' '' # q) (r, n, s)
    = toint_loop f q (r, word_of_int (atoi f) AND (O_RDONLY OR O_WRONLY OR O_RDWR), s)"
proof -
  obtain d ds' where d: "ds = d # ds'" "c_isdigit d" using assms by (cases ds) auto
  obtain c cs where c: "q = c # cs" "c \<noteq> CHR '' ''"
    using assms(3) by (cases q) (auto simp: is_flag_def char_at_def)
  have sp: "dropWhile (\<lambda>c. c = CHR '' '') (ds @ CHR '' '' # q) = ds @ CHR '' '' # q"
    using d c_isdigit_space(5) by auto
  have nf: "\<not> is_flag (ds @ CHR '' '' # q)" using d by (auto simp: is_flag_def char_at_def c_isdigit_def)
  have "\<forall>c \<in> set ds. c \<noteq> CHR '' ''" using assms(1) c_isdigit_space(5) by (auto simp: list_all_iff)
  then have dd: "dropWhile (\<lambda>c. c = CHR '' '') (dropWhile (\<lambda>c. c \<noteq> CHR '' '') (ds @ CHR '' '' # q)) = q"
    using c by (subst dropWhile_append2) auto
  have sq: "dropWhile (\<lambda>c. c = CHR '' '') q = q" using c by simp
  show ?thesis
    by (subst (1 2) toint_loop.simps) (simp only: sp nf dd sq assms(3) Let_def if_True if_False fst_conv snd_conv)
qed

lemma toint_of_request:
  assumes "textual_mode m"
  shows "rmtflags_toint (dec_int (uint (m AND O_ACCMODE)) @ '' '' @ rmtflags_tochar junk m) = with_sync m"
proof -
  have ac0: "m AND O_ACCMODE \<noteq> O_ACCMODE" using assms by (simp add: textual_mode_def)
  note ac = access_entry [OF ac0, of junk]
  have t: "rmtflags_tochar junk m = fst (access_entry m) @ bar_names (filter (flag_set m) openflags)"
    using ac by (simp add: rmtflags_tochar_def tochar_fold)
  let ?q = "rmtflags_tochar junk m" and ?f = "dec_int (uint (m AND O_ACCMODE)) @ '' '' @ rmtflags_tochar junk m"
  have sub: "set (filter (flag_set m) openflags) \<subseteq> set openflags" by auto
  have ok: "entry_ok (access_entry m)" using ac openflags_ok by blast
  have fl: "is_flag ?q" unfolding t using ok
    by (auto simp: entry_ok_def is_flag_def char_at_def nth_append split: if_splits)
  have dd: "dec_int (uint (m AND O_ACCMODE)) = dec_nat (nat (uint (m AND O_ACCMODE)))" by (simp add: dec_int_def)
  have ne: "dec_nat (nat (uint (m AND O_ACCMODE))) \<noteq> []" using dec_nat_Cons by (metis list.distinct(1))
  let ?ops = "access_entry m # filter (flag_set m) openflags"
  have n: "toint_loop g ?q (0, k, False) = (fold (\<lambda>op r. r OR snd op) ?ops 0, k, True)" for g k
    using toint_names [OF sub conjunct1 [OF conjunct2 [OF ac]], of g 0 k False] by (simp only: t)
  have "rmtflags_toint ?f = fold (\<lambda>op r. r OR snd op) ?ops 0"
    using toint_numeric_prefix [OF dec_nat_digits ne fl, of ?f 0 0 False] n
    by (simp add: rmtflags_toint_def dd)
  moreover have "rmtflags_toint ?q = fold (\<lambda>op r. r OR snd op) ?ops 0"
    by (simp only: rmtflags_toint_def n prod.case if_True)
  ultimately show ?thesis using toint_tochar [OF assms, of junk] by simp
qed

lemma serve_open:
  assumes g: "idle sys st" and pl: "plain_line tape" "textual_mode mode"
    and fm: "plain_line (dec_int (uint (mode AND O_ACCMODE)) @ '' '' @ rmtflags_tochar junk mode)"
    and closed: "r_tape st < 0" and op: "so_open sys tape (with_sync mode) (r_dev st) = (Inr fd, d)"
  shows "\<exists>st'. serve sys (request CHR ''O'' [tape, dec_int (uint (mode AND O_ACCMODE)) @ '' '' @ rmtflags_tochar junk mode]) st
      = Some (ok_reply 0, st') \<and> r_tape st' = fd \<and> idle sys st'"
proof -
  let ?fm = "dec_int (uint (mode AND O_ACCMODE)) @ '' '' @ rmtflags_tochar junk mode"
  let ?req = "request CHR ''O'' [tape, ?fm]"
  have o: "out_works sys" "r_in st = []" "r_out st = []" using g by (auto simp: idle_def sys_good_def)
  have r: "?req = CHR ''O'' # tape @ CHR 0x0A # ?fm @ [CHR 0x0A]" by (simp add: request_def)
  have g1: "getstring (st\<lparr>r_in := tape @ CHR 0x0A # ?fm @ [CHR 0x0A]\<rparr>) = Inr (tape, st\<lparr>r_in := ?fm @ [CHR 0x0A]\<rparr>)"
    using getstring_plain [OF pl(1), of "st\<lparr>r_in := tape @ CHR 0x0A # ?fm @ [CHR 0x0A]\<rparr>"] by simp
  have g2: "getstring (st\<lparr>r_in := ?fm @ [CHR 0x0A]\<rparr>) = Inr (?fm, st\<lparr>r_in := []\<rparr>)"
    using getstring_plain [OF fm, of "st\<lparr>r_in := ?fm @ [CHR 0x0A]\<rparr>" "[]"] by simp
  obtain x d2 where x: "so_mtget sys fd d = (x, d2)" by fastforce
  let ?mg = "case x of Inl e \<Rightarrow> False | Inr x \<Rightarrow> True"
  let ?st = "st\<lparr>r_in := [], r_dev := d2, r_tape := fd, r_block := 0, r_magtape := ?mg\<rparr>"
  have "cmd_open sys (st\<lparr>r_in := tape @ CHR 0x0A # ?fm @ [CHR 0x0A]\<rparr>) = respond sys 0 ?st"
    using closed op unfolding cmd_open_def Let_def
    by (simp add: g1 [simplified] g2 [simplified] toint_of_request [OF pl(2), simplified] x)
  then have "rmt_step sys (st\<lparr>r_in := ?req\<rparr>)
      = Inr (?st\<lparr>r_dev := snd (so_out sys (ok_reply 0) d2), r_out := ok_reply 0\<rparr>)"
    using o unfolding r by (simp add: rmt_step_def respond_def put_out_good)
  then have "serve sys ?req st
      = Some (ok_reply 0, ?st\<lparr>r_dev := snd (so_out sys (ok_reply 0) d2), r_out := ok_reply 0\<rparr>\<lparr>r_out := []\<rparr>)"
    using serve_one [OF g, of ?req] by (simp add: request_def)
  then show ?thesis using g by (simp add: idle_def)
qed


section \<open>Properties\<close>

text \<open>C22: A remote write has the result, the error number and the effect on the tape of the same
  \<open>write\<close> made by the server: client and server together refine the local system call.\<close>

theorem remote_write_is_local:
  assumes "idle sys (cl_peer cl)" "0 < length buf" "length buf < 2 ^ 31" "cl_rx cl = []"
    and "local_write sys buf (cl_peer cl) = (res, st')"
  shows "rmtwrite (serve sys) buf cl
    = Inr (local_value res, cl\<lparr>cl_peer := st', cl_errno := local_errno res (cl_errno cl)\<rparr>) \<and> idle sys st'"
  by (rule rmtd.remote_write [OF assms])

lemma tape_sys_good: "sys_good tape_sys"
  by (auto simp: sys_good_def tape_sys_out) (auto simp: tape_sys_def)

definition sample_client :: "string list \<Rightarrow> string list rmtd client" where
  "sample_client d = \<lparr> cl_peer = fresh_rmtd [] d, cl_rx = [], cl_open = True, cl_errno = 0, cl_abort = True \<rparr>"

lemma sample_idle: "idle tape_sys (cl_peer (sample_client d))"
  by (simp add: idle_def tape_sys_good sample_client_def fresh_rmtd_def)

theorem remote_write_is_local_witness:
  "\<exists>cl'. rmtwrite (serve tape_sys) ''data'' (sample_client []) = Inr (4, cl')
     \<and> r_dev (cl_peer cl') = [''data'']"
proof -
  obtain res st' where w: "local_write tape_sys ''data'' (cl_peer (sample_client [])) = (res, st')" by fastforce
  then have "local_value res = 4" "r_dev st' = [''data'']"
    by (auto simp: local_write_def tape_sys_def sample_client_def fresh_rmtd_def grow_buffer_def local_value_def Let_def)
  then show ?thesis
    using remote_write_is_local [OF sample_idle _ _ _ w] by (simp add: sample_client_def)
qed

text \<open>C23: A remote read delivers exactly the bytes that the server's \<open>read\<close> returned, and leaves the
  connection in step.\<close>

theorem remote_read_is_local:
  assumes "idle sys (cl_peer cl)" "n < 2 ^ 31" "cl_rx cl = []" "local_read sys n (cl_peer cl) = (Inr buf, st')"
  shows "rmtread (serve sys) n cl = Inr ((int (length buf), buf), cl\<lparr>cl_peer := st'\<rparr>) \<and> idle sys st'"
  by (rule rmtd.remote_read [OF assms])

lemma tape_sys_read_good:
  "local_read tape_sys 9 (cl_peer (sample_client [''block'']))
    = (Inr ''block'', (cl_peer (sample_client []))\<lparr>r_maxrec := 9\<rparr>)"
  by (simp add: local_read_def tape_sys_def sample_client_def fresh_rmtd_def grow_buffer_def Let_def)


theorem remote_read_is_local_witness:
  "rmtread (serve tape_sys) 9 (sample_client [''block'']) = Inr ((5, ''block''),
     (sample_client [''block''])\<lparr>cl_peer := (cl_peer (sample_client []))\<lparr>r_maxrec := 9\<rparr>\<rparr>)"
  using remote_read_is_local [OF sample_idle _ _ tape_sys_read_good] by (simp add: sample_client_def)

text \<open>C24: Opening a remote tape performs \<open>open\<close> on the server, which has none open, with the same path and the mode of
  the client, for every mode with a valid access mode and no flags but those of the table of \<open>rmtflags\<close>; a mode with either
  bit of \<open>O_SYNC\<close> is opened with both.  The path and the text of the mode must fit the server's 64-byte buffers.\<close>

theorem remote_open:
  assumes "idle sys (cl_peer cl)" "plain_line tape"
    and "mode AND O_ACCMODE \<noteq> O_ACCMODE" "mode AND NOT (fold (\<lambda>op r. r OR snd op) openflags 0) = 0"
    and "plain_line (dec_int (uint (mode AND O_ACCMODE)) @ '' '' @ rmtflags_tochar junk mode)"
    and "r_tape (cl_peer cl) < 0" "cl_rx cl = []"
    and "so_open sys tape (if mode AND O_SYNC \<noteq> 0 then mode OR O_SYNC else mode) (r_dev (cl_peer cl)) = (Inr fd, d)"
  shows "\<exists>st'. rmtopen (serve sys) junk tape mode cl = Inr (0, cl\<lparr>cl_open := True, cl_peer := st'\<rparr>)
    \<and> r_tape st' = fd \<and> idle sys st'"
proof -
  let ?req = "request CHR ''O'' [tape, dec_int (uint (mode AND O_ACCMODE)) @ '' '' @ rmtflags_tochar junk mode]"
  obtain st' where st': "serve sys ?req (cl_peer cl) = Some (ok_reply 0, st')" "r_tape st' = fd" "idle sys st'"
    using serve_open [OF assms(1,2) _ assms(5,6), of fd d] assms(3,4,8) by (auto simp: textual_mode_def flag_mask_def with_sync_def)
  have "length ?req \<le> 4095" using assms(2,5) by (simp add: request_def plain_line_def)
  then have tk: "take 4095 ?req = ?req" by (rule take_all)
  let ?c = "cl\<lparr>cl_open := True, cl_peer := st', cl_rx := ok_reply 0\<rparr>"
  have "rmtreply ?c = Inr (0, ?c\<lparr>cl_rx := []\<rparr>)" by (rule rmtreply_ok) simp_all
  moreover have "?c\<lparr>cl_rx := []\<rparr> = cl\<lparr>cl_open := True, cl_peer := st'\<rparr>" using assms(7) by simp
  ultimately have "rmtopen (serve sys) junk tape mode cl = Inr (0, cl\<lparr>cl_open := True, cl_peer := st'\<rparr>)"
    using st'(1) unfolding rmtopen_def Let_def tk
    by (simp add: rmtcall_def send_def assms(7) to_int_def)
  then show ?thesis using st' by blast
qed

text \<open>When the server reports that a read failed, \<open>rmtread\<close> returns -1 and leaves -1 in \<open>errno\<close>,
  not the server's error number that the reply carried.\<close>

theorem rmtread_loses_errno:
  assumes "peer (request CHR ''R'' [dec_nat (n mod 2 ^ 32)]) (cl_peer cl)
      = Some (''E'' @ dec_int e @ [CHR 0x0A] @ msg @ [CHR 0x0A], p)"
    and "plain_error e msg" "cl_rx cl = []"
  shows "rmtread peer n cl = Inr ((-1, []), cl\<lparr>cl_peer := p, cl_errno := -1\<rparr>)"
proof -
  let ?c = "cl\<lparr>cl_peer := p, cl_rx := ''E'' @ dec_int e @ [CHR 0x0A] @ msg @ [CHR 0x0A]\<rparr>"
  have "rmtreply ?c = Inr (-1, ?c\<lparr>cl_rx := [], cl_errno := e\<rparr>)"
    by (rule rmtreply_error [OF _ assms(2)]) simp
  moreover have "send peer (request CHR ''R'' [dec_nat (n mod 2 ^ 32)]) cl = Some ?c"
    unfolding send_def assms(1) by (simp add: assms(3))
  ultimately have "rmtcall peer (request CHR ''R'' [dec_nat (n mod 2 ^ 32)]) cl = Inr (-1, ?c\<lparr>cl_rx := [], cl_errno := e\<rparr>)"
    by (simp add: rmtcall_def)
  moreover have "to_int (-1) = -1" by (simp add: to_int_def)
  moreover have "?c\<lparr>cl_rx := [], cl_errno := e\<rparr>\<lparr>cl_errno := -1\<rparr> = cl\<lparr>cl_peer := p, cl_errno := -1\<rparr>"
    using assms(3) by simp
  ultimately show ?thesis unfolding rmtread_def by (simp add: Let_def)
qed


theorem rmtread_loses_errno_witness:
  "rmtread (\<lambda>_ _. Some (''E'' @ dec_int 5 @ [CHR 0x0A] @ ''I/O error'' @ [CHR 0x0A], ())) 9
     \<lparr> cl_peer = (), cl_rx = [], cl_open = True, cl_errno = 0, cl_abort = True \<rparr>
   = Inr ((-1, []), \<lparr> cl_peer = (), cl_rx = [], cl_open = True, cl_errno = -1, cl_abort = True \<rparr>)"
  by (subst rmtread_loses_errno [OF refl]) (simp_all add: plain_error_def)

theorem remote_open_witness:
  "\<exists>cl'. rmtopen (serve tape_sys) [] ''/dev/nst0'' 0x41 ((sample_client [])\<lparr>cl_peer := (fresh_rmtd [] [])\<lparr>r_tape := -1\<rparr>\<rparr>)
     = Inr (0, cl') \<and> r_tape (cl_peer cl') = 3"
proof -
  let ?st = "(fresh_rmtd [] ([] :: string list))\<lparr>r_tape := -1\<rparr>"
  let ?cl = "(sample_client [])\<lparr>cl_peer := ?st\<rparr>"
  have g: "idle tape_sys (cl_peer ?cl)" by (simp add: idle_def tape_sys_good fresh_rmtd_def)
  have p: "plain_line ''/dev/nst0''" by (simp add: plain_line_def)
  have m: "(0x41 :: u32) AND O_ACCMODE \<noteq> O_ACCMODE"
    "(0x41 :: u32) AND NOT (fold (\<lambda>op r. r OR snd op) openflags 0) = 0"
    by (simp_all add: O_ACCMODE_def openflags_def O_SYNC_def O_DSYNC_def O_RDONLY_def O_WRONLY_def O_RDWR_def)
  have t: "rmtflags_tochar [] 0x41 = ''O_WRONLY|O_CREAT''"
    by (simp add: rmtflags_tochar_def access_name_def openflags_def flag_set_def O_ACCMODE_def O_SYNC_def
        O_DSYNC_def O_RDONLY_def O_WRONLY_def O_RDWR_def)
  have f: "plain_line (dec_int (uint ((0x41 :: u32) AND O_ACCMODE)) @ '' '' @ rmtflags_tochar [] 0x41)"
  proof -
    have "digit_char (Suc 0) = CHR ''1''" by (simp add: digit_char_def) code_simp
    then show ?thesis
      unfolding t by (simp add: plain_line_def O_ACCMODE_def dec_int_def dec_nat.simps [of "Suc 0"])
  qed
  have o: "so_open tape_sys ''/dev/nst0'' (if (0x41 :: u32) AND O_SYNC \<noteq> 0 then 0x41 OR O_SYNC else 0x41) (r_dev (cl_peer ?cl))
      = (Inr 3, [])"
    by (simp add: tape_sys_def fresh_rmtd_def)
  show ?thesis
    using remote_open [OF g p m f _ _ o] by (auto simp: sample_client_def)
qed

end
