(* ===== verification/Symtab.thy ===== *)
theory Symtab
  imports Dirs
begin

text \<open>
  The symbol table of restore (restore/symtab.c): the files of the file system being restored as a tree
  of entries that point to each other, and a hash table of them by inode number.
\<close>

section \<open>Entries\<close>

definition WINO :: dump_ino_t where "WINO = 1"

definition LEAF :: byte where "LEAF = 1"
definition NODE :: byte where "NODE = 2"
definition LINK :: byte where "LINK = 4"

definition REMOVED :: u16 where "REMOVED = 0x0010"
definition TMPNAME :: u16 where "TMPNAME = 0x0020"
definition NEW :: u16 where "NEW = 0x0002"

text \<open>\<open>struct entry\<close>; a pointer is the index of its target in the list of all allocated entries.\<close>

type_synonym eptr = nat

record entry =
  e_name :: "byte list"
  e_namlen :: byte
  e_type :: byte
  e_flags :: u16
  e_ino :: dump_ino_t
  e_index :: nat
  e_parent :: "eptr option"
  e_sibling :: "eptr option"
  e_links :: "eptr option"
  e_entries :: "eptr option list option"
  e_next :: "eptr option"

definition zero_entry :: entry where
  "zero_entry = \<lparr> e_name = [], e_namlen = 0, e_type = 0, e_flags = 0, e_ino = 0, e_index = 0, e_parent = None,
     e_sibling = None, e_links = None, e_entries = None, e_next = None \<rparr>"

record symtab =
  heap :: "entry list"
  freelist :: "eptr option"
  entry_tbl :: "eptr option list"

text \<open>\<open>dirhash_size\<close> is the number of lists of a directory (option \<open>-H\<close>), \<open>dflag\<close> the debugging option.\<close>

record scfg = rcfg +
  dirhash_size :: nat
  dflag :: bool

abbreviation ent :: "symtab \<Rightarrow> eptr \<Rightarrow> entry" where
  "ent st p \<equiv> heap st ! p"

definition upd :: "(entry \<Rightarrow> entry) \<Rightarrow> eptr \<Rightarrow> symtab \<Rightarrow> symtab" where
  "upd f p st = st\<lparr>heap := (heap st)[p := f (heap st ! p)]\<rparr>"

text \<open>A pointer that the code follows without a test.\<close>

fun follow :: "eptr option \<Rightarrow> restore_stop + eptr" where
  "follow None = Inl Crash"
| "follow (Some p) = Inr p"

text \<open>
  The loop \<open>for (p = first; p != NULL; p = p->next) if (P p) break;\<close>.  The fuel is the number of entries
  there are: a walk that is longer comes back to an entry it has seen and never ends.
\<close>

fun find_chain :: "(entry \<Rightarrow> eptr option) \<Rightarrow> (entry \<Rightarrow> bool) \<Rightarrow> symtab \<Rightarrow> nat \<Rightarrow> eptr option
    \<Rightarrow> restore_stop + eptr option" where
  "find_chain nxt P st n None = Inr None"
| "find_chain nxt P st 0 (Some p) = Inl No_Return"
| "find_chain nxt P st (Suc n) (Some p) =
     (if P (ent st p) then Inr (Some p) else find_chain nxt P st n (nxt (ent st p)))"

definition search :: "(entry \<Rightarrow> eptr option) \<Rightarrow> (entry \<Rightarrow> bool) \<Rightarrow> symtab \<Rightarrow> eptr option
    \<Rightarrow> restore_stop + eptr option" where
  "search nxt P st = find_chain nxt P st (length (heap st))"


section \<open>Entries by inode number\<close>

definition dir_hash_step :: "u64 \<times> u64 \<Rightarrow> byte \<Rightarrow> u64 \<times> u64" where
  "dir_hash_step = (\<lambda>(hash0, hash1) c.
     let hash = hash1 + (hash0 XOR word_of_int (sint c * 7152373));
         hash = (if hash AND 0x80000000 \<noteq> 0 then hash - 0x7fffffff else hash)
     in (hash, hash0))"

definition dir_hash :: "scfg \<Rightarrow> byte list \<Rightarrow> nat" where
  "dir_hash cfg name =
     unat (fst (foldl dir_hash_step (0x12a3fe2d, 0x37abe8f9) name)) mod dirhash_size cfg"

definition in_table :: "scfg \<Rightarrow> dump_ino_t \<Rightarrow> bool" where
  "in_table cfg inum \<longleftrightarrow> \<not> (inum < WINO \<or> inum \<ge> r_maxino cfg)"

definition slot :: "dump_ino_t \<Rightarrow> symtab \<Rightarrow> nat" where
  "slot inum st = unat inum mod length (entry_tbl st)"

text \<open>Without a slot, \<open>inum % entrytblsize\<close> is a division by zero.\<close>

definition some_slot :: "symtab \<Rightarrow> restore_stop + unit" where
  "some_slot st = (if entry_tbl st = [] then Inl Crash else Inr ())"

definition lookupino :: "scfg \<Rightarrow> dump_ino_t \<Rightarrow> symtab \<Rightarrow> restore_stop + eptr option" where
  "lookupino cfg inum st =
     (if \<not> in_table cfg inum then Inr None
      else bindE (some_slot st) (\<lambda>_. search e_next (\<lambda>e. e_ino e = inum) st (entry_tbl st ! slot inum st)))"

text \<open>\<open>panic\<close> of restore may return.\<close>

abbreviation spanic :: "scfg \<Rightarrow> restore_stop + unit" where
  "spanic cfg \<equiv> panic (rcfg.truncate cfg)"

text \<open>
  \<open>myname\<close>: the name is built from its end in a buffer of \<open>MAXPATHLEN\<close> bytes; \<open>pos\<close> is the index of
  its first byte.
\<close>

function myname_loop :: "scfg \<Rightarrow> symtab \<Rightarrow> nat \<Rightarrow> byte list \<Rightarrow> eptr \<Rightarrow> restore_stop + byte list" where
  "myname_loop cfg st pos acc ep =
     (if pos > unat (e_namlen (ent st ep)) then
        let pos = pos - unat (e_namlen (ent st ep));
            acc = take (unat (e_namlen (ent st ep))) (e_name (ent st ep)) @ acc
        in case lookupino cfg ROOTINO st of
             Inl x \<Rightarrow> Inl x
           | Inr root \<Rightarrow>
               if root = Some ep then Inr acc
               else case e_parent (ent st ep) of
                      None \<Rightarrow> Inl Crash
                    | Some p \<Rightarrow> myname_loop cfg st (pos - 1) (slash # acc) p
      else bindE (spanic cfg) (\<lambda>_. Inr acc))"
  by pat_completeness auto
termination
  by (relation "measure (\<lambda>(cfg, st, pos, acc, ep). pos)") auto

declare myname_loop.simps [simp del]

definition myname :: "scfg \<Rightarrow> symtab \<Rightarrow> eptr \<Rightarrow> restore_stop + byte list" where
  "myname cfg st ep = myname_loop cfg st (MAXPATHLEN - 2) [] ep"

text \<open>
  \<open>badentry\<close> (restore/utilities.c): it prints the names of the entry and of its neighbours, which can
  fail in the same ways, and panics.
\<close>

definition names_ok :: "scfg \<Rightarrow> symtab \<Rightarrow> eptr option \<Rightarrow> restore_stop + unit" where
  "names_ok cfg st po = (case po of None \<Rightarrow> Inr () | Some p \<Rightarrow> bindE (myname cfg st p) (\<lambda>_. Inr ()))"

definition badentry :: "scfg \<Rightarrow> symtab \<Rightarrow> eptr \<Rightarrow> restore_stop + unit" where
  "badentry cfg st ep =
     (let e = ent st ep in
      bindE (myname cfg st ep) (\<lambda>_.
      bindE (bindE (follow (e_parent e)) (myname cfg st)) (\<lambda>_.
      bindE (names_ok cfg st (e_sibling e)) (\<lambda>_.
      bindE (names_ok cfg st (case e_entries e of
                 None \<Rightarrow> None
               | Some es \<Rightarrow> (case find (\<lambda>x. x \<noteq> None) es of None \<Rightarrow> None | Some x \<Rightarrow> x))) (\<lambda>_.
      bindE (names_ok cfg st (e_links e)) (\<lambda>_.
      bindE (names_ok cfg st (e_next e)) (\<lambda>_.
      spanic cfg)))))))"

text \<open>The check for duplicates of \<open>addino\<close> under \<open>dflag\<close>.\<close>

fun check_dups :: "scfg \<Rightarrow> dump_ino_t \<Rightarrow> symtab \<Rightarrow> nat \<Rightarrow> eptr option \<Rightarrow> restore_stop + unit" where
  "check_dups cfg inum st n None = Inr ()"
| "check_dups cfg inum st 0 (Some p) = Inl No_Return"
| "check_dups cfg inum st (Suc n) (Some p) =
     bindE (if e_ino (ent st p) = inum then badentry cfg st p else Inr ()) (\<lambda>_.
       check_dups cfg inum st n (e_next (ent st p)))"

definition addino :: "scfg \<Rightarrow> dump_ino_t \<Rightarrow> eptr \<Rightarrow> symtab \<Rightarrow> restore_stop + symtab" where
  "addino cfg inum np st =
     bindE (if in_table cfg inum then Inr () else spanic cfg) (\<lambda>_.
     bindE (some_slot st) (\<lambda>_.
       let k = slot inum st;
           st = upd (\<lambda>e. e\<lparr>e_ino := inum, e_next := entry_tbl st ! k\<rparr>) np st;
           st = st\<lparr>entry_tbl := (entry_tbl st)[k := Some np]\<rparr>
       in bindE (if dflag cfg then check_dups cfg inum st (length (heap st)) (e_next (ent st np)) else Inr ())
            (\<lambda>_. Inr st)))"

text \<open>The loop of \<open>deleteino\<close>, with the entry before the one it is at.\<close>

fun unchain :: "scfg \<Rightarrow> dump_ino_t \<Rightarrow> symtab \<Rightarrow> nat \<Rightarrow> eptr option \<Rightarrow> eptr option \<Rightarrow> restore_stop + symtab" where
  "unchain cfg inum st n prv None = bindE (spanic cfg) (\<lambda>_. Inr st)"
| "unchain cfg inum st 0 prv (Some p) = Inl No_Return"
| "unchain cfg inum st (Suc n) prv (Some p) =
     (if e_ino (ent st p) = inum then
        let st = upd (\<lambda>e. e\<lparr>e_ino := 0\<rparr>) p st; nxt = e_next (ent st p)
        in Inr (case prv of
                  None \<Rightarrow> st\<lparr>entry_tbl := (entry_tbl st)[slot inum st := nxt]\<rparr>
                | Some q \<Rightarrow> upd (\<lambda>e. e\<lparr>e_next := nxt\<rparr>) q st)
      else unchain cfg inum st n (Some p) (e_next (ent st p)))"

definition deleteino :: "scfg \<Rightarrow> dump_ino_t \<Rightarrow> symtab \<Rightarrow> restore_stop + symtab" where
  "deleteino cfg inum st =
     bindE (if in_table cfg inum then Inr () else spanic cfg) (\<lambda>_.
     bindE (some_slot st) (\<lambda>_.
       unchain cfg inum st (length (heap st)) None (entry_tbl st ! slot inum st)))"


section \<open>Entries by name\<close>

text \<open>The lists of a directory, searched from the first to the last.\<close>

fun search_lists :: "(entry \<Rightarrow> bool) \<Rightarrow> symtab \<Rightarrow> eptr option list \<Rightarrow> restore_stop + eptr option" where
  "search_lists P st [] = Inr None"
| "search_lists P st (l # ls) =
     bindE (search e_sibling P st l) (\<lambda>r. if r \<noteq> None then Inr r else search_lists P st ls)"

definition lookup_in :: "scfg \<Rightarrow> symtab \<Rightarrow> byte list \<Rightarrow> eptr \<Rightarrow> restore_stop + eptr option" where
  "lookup_in cfg st name ep =
     (case e_entries (ent st ep) of
        None \<Rightarrow> Inr (Some ep)
      | Some es \<Rightarrow>
          bindE (search e_sibling (\<lambda>e. e_name e = name) st (es ! dir_hash cfg name)) (\<lambda>r.
            if r \<noteq> None then Inr r else search_lists (\<lambda>e. e_name e = name) st es))"

text \<open>
  \<open>lookupname\<close>; an entry without a table of entries (a leaf) stands for everything below it.
\<close>

function lookupname_loop :: "scfg \<Rightarrow> symtab \<Rightarrow> byte list \<Rightarrow> eptr \<Rightarrow> restore_stop + eptr option" where
  "lookupname_loop cfg st cp ep =
     (let buf = takeWhile (\<lambda>b. b \<noteq> slash) cp; rest = dropWhile (\<lambda>b. b \<noteq> slash) cp
      in if length buf \<ge> MAXPATHLEN then Inr None
         else case lookup_in cfg st buf ep of
                Inl x \<Rightarrow> Inl x
              | Inr None \<Rightarrow> Inr None
              | Inr (Some p) \<Rightarrow> (case rest of [] \<Rightarrow> Inr (Some p) | _ # cp \<Rightarrow> lookupname_loop cfg st cp p))"
  by pat_completeness auto
termination
proof (relation "measure (\<lambda>(cfg, st, cp, ep). length cp)")
  fix cp buf rest cp' :: "byte list" and c and cfg :: scfg and st :: symtab and ep p :: eptr
  assume "rest = dropWhile (\<lambda>b. b \<noteq> slash) cp" "rest = c # cp'"
  then have "length (c # cp') \<le> length cp" by (metis length_dropWhile_le)
  then show "((cfg, st, cp', p), cfg, st, cp, ep) \<in> measure (\<lambda>(cfg, st, cp, ep). length cp)" by simp
qed simp

declare lookupname_loop.simps [simp del]

definition skip_head :: "byte \<Rightarrow> byte list \<Rightarrow> byte list" where
  "skip_head b cp = (case cp of [] \<Rightarrow> [] | c # cs \<Rightarrow> if c = b then cs else cp)"

definition lookupname :: "scfg \<Rightarrow> byte list \<Rightarrow> symtab \<Rightarrow> restore_stop + eptr option" where
  "lookupname cfg name st =
     bindE (lookupino cfg ROOTINO st) (\<lambda>root.
       let cp = skip_head slash (skip_head 0x2E name)
       in if cp = [] then Inr root
          else case root of None \<Rightarrow> Inr None | Some ep \<Rightarrow> lookupname_loop cfg st cp ep)"

text \<open>The name before and after the last slash.\<close>

definition split_last :: "byte list \<Rightarrow> (byte list \<times> byte list) option" where
  "split_last name =
     (if slash \<in> set name
      then Some (rev (tl (dropWhile (\<lambda>b. b \<noteq> slash) (rev name))), rev (takeWhile (\<lambda>b. b \<noteq> slash) (rev name)))
      else None)"

definition lookupparent :: "scfg \<Rightarrow> byte list \<Rightarrow> symtab \<Rightarrow> restore_stop + eptr option" where
  "lookupparent cfg name st =
     (case split_last name of
        None \<Rightarrow> Inr None
      | Some (dir, _) \<Rightarrow>
          bindE (lookupname cfg dir st) (\<lambda>r.
            case r of
              None \<Rightarrow> Inr None
            | Some ep \<Rightarrow> bindE (if e_type (ent st ep) \<noteq> NODE then spanic cfg else Inr ()) (\<lambda>_. Inr (Some ep))))"

section \<open>Changing the tree\<close>

text \<open>A new entry, from the free list or from the heap; \<open>calloc\<close> succeeds.\<close>

definition alloc_entry :: "symtab \<Rightarrow> eptr \<times> symtab" where
  "alloc_entry st =
     (case freelist st of
        Some p \<Rightarrow> (p, (upd (\<lambda>_. zero_entry) p st)\<lparr>freelist := e_next (ent st p)\<rparr>)
      | None \<Rightarrow> (length (heap st), st\<lparr>heap := heap st @ [zero_entry]\<rparr>))"

text \<open>An entry becomes the first of the list of its directory that its name hashes to.\<close>

definition insert_entry :: "scfg \<Rightarrow> eptr \<Rightarrow> eptr \<Rightarrow> symtab \<Rightarrow> restore_stop + symtab" where
  "insert_entry cfg ep np st =
     (case e_entries (ent st ep) of
        None \<Rightarrow> Inl Crash
      | Some es \<Rightarrow>
          let k = dir_hash cfg (e_name (ent st np));
              st = upd (\<lambda>e. e\<lparr>e_sibling := es ! k\<rparr>) np st
          in Inr (upd (\<lambda>e. e\<lparr>e_entries := Some (es[k := Some np])\<rparr>) ep st))"

definition set_name :: "byte list \<Rightarrow> entry \<Rightarrow> entry" where
  "set_name name e = e\<lparr>e_name := name, e_namlen := of_nat (length name)\<rparr>"

definition addentry :: "scfg \<Rightarrow> byte list \<Rightarrow> dump_ino_t \<Rightarrow> byte \<Rightarrow> symtab \<Rightarrow> restore_stop + eptr \<times> symtab" where
  "addentry cfg name inum ty st =
     (case alloc_entry st of (np, st) \<Rightarrow>
      let st = upd (\<lambda>e. e\<lparr>e_type := ty AND NOT LINK\<rparr>) np st;
          st = (if ty AND NODE \<noteq> 0
                then upd (\<lambda>e. e\<lparr>e_entries := Some (replicate (dirhash_size cfg) None)\<rparr>) np st else st)
      in bindE (lookupparent cfg name st) (\<lambda>ep.
         case ep of
           None \<Rightarrow>
             bindE (if inum \<noteq> ROOTINO then spanic cfg
                    else bindE (lookupino cfg ROOTINO st) (\<lambda>r. if r \<noteq> None then spanic cfg else Inr ())) (\<lambda>_.
               let st = upd (\<lambda>e. (set_name name e)\<lparr>e_parent := Some np\<rparr>) np st
               in bindE (addino cfg ROOTINO np st) (\<lambda>st. Inr (np, st)))
         | Some ep \<Rightarrow>
             let st = upd (\<lambda>e. (set_name (case split_last name of Some (_, n) \<Rightarrow> n | None \<Rightarrow> name) e)
                        \<lparr>e_parent := Some ep\<rparr>) np st
             in bindE (insert_entry cfg ep np st) (\<lambda>st.
                bindE (if ty AND LINK \<noteq> 0 then
                         bindE (lookupino cfg inum st) (\<lambda>r.
                         bindE (if r = None then spanic cfg else Inr ()) (\<lambda>_.
                         bindE (follow r) (\<lambda>ep.
                           let st = upd (\<lambda>e. e\<lparr>e_ino := inum, e_links := e_links (ent st ep)\<rparr>) np st
                           in Inr (upd (\<lambda>e. e\<lparr>e_links := Some np\<rparr>) ep st))))
                       else if inum \<noteq> 0 then
                         bindE (lookupino cfg inum st) (\<lambda>r.
                         bindE (if r \<noteq> None then spanic cfg else Inr ()) (\<lambda>_. addino cfg inum np st))
                       else Inr st) (\<lambda>st. Inr (np, st)))))"

text \<open>
  Taking an entry out of one list of its directory, whose first element is \<open>first\<close> (\<open>None\<close> as the
  result: it is not in the list).
\<close>

definition unlink_from :: "nat \<Rightarrow> eptr \<Rightarrow> eptr \<Rightarrow> symtab \<Rightarrow> restore_stop + symtab option" where
  "unlink_from j par ep st =
     (case e_entries (ent st par) of
        None \<Rightarrow> Inl Crash
      | Some es \<Rightarrow>
          if es ! j = Some ep
          then Inr (Some (upd (\<lambda>e. e\<lparr>e_entries := Some (es[j := e_sibling (ent st ep)])\<rparr>) par st))
          else bindE (search e_sibling (\<lambda>e. e_sibling e = Some ep) st (es ! j)) (\<lambda>r.
                 case r of
                   None \<Rightarrow> Inr None
                 | Some np \<Rightarrow> Inr (Some (upd (\<lambda>e. e\<lparr>e_sibling := e_sibling (ent st ep)\<rparr>) np st))))"

fun unlink_any :: "nat list \<Rightarrow> eptr \<Rightarrow> eptr \<Rightarrow> symtab \<Rightarrow> restore_stop + symtab option" where
  "unlink_any [] par ep st = Inr None"
| "unlink_any (j # js) par ep st =
     bindE (unlink_from j par ep st) (\<lambda>r. case r of Some st' \<Rightarrow> Inr (Some st') | None \<Rightarrow> unlink_any js par ep st)"

definition removeentry :: "scfg \<Rightarrow> eptr \<Rightarrow> symtab \<Rightarrow> restore_stop + symtab" where
  "removeentry cfg ep st =
     bindE (follow (e_parent (ent st ep))) (\<lambda>par.
     bindE (unlink_from (dir_hash cfg (e_name (ent st ep))) par ep st) (\<lambda>r.
       case r of
         Some st' \<Rightarrow> Inr st'
       | None \<Rightarrow> bindE (unlink_any [0..<dirhash_size cfg] par ep st) (\<lambda>r.
           case r of Some st' \<Rightarrow> Inr st' | None \<Rightarrow> bindE (badentry cfg st ep) (\<lambda>_. Inr st))))"

text \<open>\<open>freeentry\<close>: the tests, the links of the inode, the tree, and the free list.\<close>

definition check_free :: "scfg \<Rightarrow> eptr \<Rightarrow> symtab \<Rightarrow> restore_stop + unit" where
  "check_free cfg ep st =
     (let e = ent st ep; bad = badentry cfg st ep in
      bindE (if e_flags e \<noteq> REMOVED then bad else Inr ()) (\<lambda>_.
      if e_type e = NODE then
        bindE (if e_links e \<noteq> None then bad else Inr ()) (\<lambda>_.
        foldr (\<lambda>x r. bindE (if x \<noteq> None then bad else Inr ()) (\<lambda>_. r))
          (case e_entries e of None \<Rightarrow> [] | Some es \<Rightarrow> es) (Inr ()))
      else Inr ()))"

definition drop_link :: "scfg \<Rightarrow> eptr \<Rightarrow> symtab \<Rightarrow> restore_stop + symtab" where
  "drop_link cfg ep st =
     (if e_ino (ent st ep) = 0 then Inr st
      else
        bindE (lookupino cfg (e_ino (ent st ep)) st) (\<lambda>np.
        bindE (if np = None then badentry cfg st ep else Inr ()) (\<lambda>_.
        if np = Some ep then
          let inum = e_ino (ent st ep)
          in bindE (deleteino cfg inum st) (\<lambda>st.
             case e_links (ent st ep) of None \<Rightarrow> Inr st | Some l \<Rightarrow> addino cfg inum l st)
        else
          bindE (search e_links (\<lambda>e. e_links e = Some ep) st np) (\<lambda>r.
            case r of
              Some q \<Rightarrow> Inr (upd (\<lambda>e. e\<lparr>e_links := e_links (ent st ep)\<rparr>) q st)
            | None \<Rightarrow> bindE (badentry cfg st ep) (\<lambda>_. Inr st)))))"

definition freeentry :: "scfg \<Rightarrow> eptr \<Rightarrow> symtab \<Rightarrow> restore_stop + symtab" where
  "freeentry cfg ep st =
     bindE (check_free cfg ep st) (\<lambda>_.
     bindE (drop_link cfg ep st) (\<lambda>st.
     bindE (removeentry cfg ep st) (\<lambda>st.
       Inr ((upd (\<lambda>e. e\<lparr>e_next := freelist st\<rparr>) ep st)\<lparr>freelist := Some ep\<rparr>))))"

text \<open>\<open>gentempname\<close> (restore/utilities.c) counts the links of the inode before the entry.\<close>

fun link_index :: "symtab \<Rightarrow> eptr \<Rightarrow> nat \<Rightarrow> eptr option \<Rightarrow> nat \<Rightarrow> restore_stop + nat \<times> bool" where
  "link_index st ep n None i = Inr (i, False)"
| "link_index st ep 0 (Some p) i = Inl No_Return"
| "link_index st ep (Suc n) (Some p) i =
     (if p = ep then Inr (i, True) else link_index st ep n (e_links (ent st p)) (i + 1))"

definition TMPHDR :: "byte list" where "TMPHDR = map of_char ''RSTTMP''"

definition gentempname :: "scfg \<Rightarrow> eptr \<Rightarrow> symtab \<Rightarrow> restore_stop + byte list" where
  "gentempname cfg ep st =
     bindE (lookupino cfg (e_ino (ent st ep)) st) (\<lambda>np.
     bindE (link_index st ep (length (heap st)) np 0) (\<lambda>(i, found).
     bindE (if found then Inr () else badentry cfg st ep) (\<lambda>_.
       Inr (TMPHDR @ map of_char (dec_nat i @ dec_nat (unat (e_ino (ent st ep))))))))"

definition moveentry :: "scfg \<Rightarrow> eptr \<Rightarrow> byte list \<Rightarrow> symtab \<Rightarrow> restore_stop + symtab" where
  "moveentry cfg ep newname st =
     bindE (lookupparent cfg newname st) (\<lambda>np.
     bindE (if np = None then badentry cfg st ep else Inr ()) (\<lambda>_.
     bindE (if np \<noteq> e_parent (ent st ep) then
              bindE (removeentry cfg ep st) (\<lambda>st.
              bindE (follow np) (\<lambda>q.
                insert_entry cfg q ep (upd (\<lambda>e. e\<lparr>e_parent := np\<rparr>) ep st)))
            else Inr st) (\<lambda>st.
     case split_last newname of
       None \<Rightarrow> Inl Crash
     | Some (_, cp) \<Rightarrow>
         let st = upd (set_name cp) ep st
         in bindE (gentempname cfg ep st) (\<lambda>tmp.
              Inr (upd (\<lambda>e. e\<lparr>e_flags := (if tmp = cp then e_flags e OR TMPNAME
                                          else e_flags e AND NOT TMPNAME)\<rparr>) ep st)))))"

text \<open>\<open>initsymtable\<close> without a file: the table of a new file system, with its root.\<close>

definition HASHFACTOR :: nat where "HASHFACTOR = 5"

definition newsymtable :: "scfg \<Rightarrow> restore_stop + symtab" where
  "newsymtable cfg =
     (let st = \<lparr> heap = [], freelist = None, entry_tbl = replicate (unat (r_maxino cfg) div HASHFACTOR) None \<rparr>
      in bindE (addentry cfg [0x2E] ROOTINO NODE st) (\<lambda>(ep, st).
           Inr (upd (\<lambda>e. e\<lparr>e_flags := e_flags e OR NEW\<rparr>) ep st)))"

section \<open>Chains of entries\<close>

text \<open>\<open>plist nxt st p ps\<close>: the chain from \<open>p\<close> along \<open>nxt\<close> is the list \<open>ps\<close> of entries.\<close>

fun plist :: "(entry \<Rightarrow> eptr option) \<Rightarrow> symtab \<Rightarrow> eptr option \<Rightarrow> eptr list \<Rightarrow> bool" where
  "plist nxt st p [] \<longleftrightarrow> p = None"
| "plist nxt st p (q # qs) \<longleftrightarrow> p = Some q \<and> q < length (heap st) \<and> plist nxt st (nxt (ent st q)) qs"

lemma plist_None [simp]: "plist nxt st None ps \<longleftrightarrow> ps = []"
  by (cases ps) auto

lemma plist_unique: "plist nxt st p ps \<Longrightarrow> plist nxt st p qs \<Longrightarrow> ps = qs"
proof (induction ps arbitrary: p qs)
  case (Cons a ps)
  then show ?case by (cases qs) auto
qed (cases qs, auto)

lemma plist_append: "plist nxt st p (xs @ ys) \<Longrightarrow> \<exists>q. plist nxt st q ys"
  by (induction xs arbitrary: p) auto

lemma plist_heap: "plist nxt st p ps \<Longrightarrow> q \<in> set ps \<Longrightarrow> q < length (heap st)"
  by (induction ps arbitrary: p) auto

lemma plist_suffix: "plist nxt st p (xs @ q # ys) \<Longrightarrow> plist nxt st (Some q) (q # ys)"
  by (induction xs arbitrary: p) auto

lemma plist_distinct: "plist nxt st p ps \<Longrightarrow> distinct ps"
proof (induction ps arbitrary: p)
  case (Cons q qs)
  have "q \<notin> set qs"
  proof
    assume "q \<in> set qs"
    then obtain xs ys where s: "qs = xs @ q # ys" by (meson split_list)
    have "plist nxt st (nxt (ent st q)) (xs @ q # ys)" using Cons.prems s by simp
    then have "plist nxt st (Some q) (q # ys)" by (rule plist_suffix)
    moreover have "plist nxt st (Some q) (q # qs)" using Cons.prems by simp
    ultimately have "q # ys = q # qs" by (rule plist_unique)
    then show False using s by simp
  qed
  then show ?case using Cons by auto
qed simp

lemma plist_length: "plist nxt st p ps \<Longrightarrow> length ps \<le> length (heap st)"
proof -
  assume a: "plist nxt st p ps"
  then have "set ps \<subseteq> {..<length (heap st)}" using plist_heap by auto
  then have "card (set ps) \<le> length (heap st)" using card_mono [of "{..<length (heap st)}" "set ps"] by simp
  then show ?thesis using plist_distinct [OF a] by (simp add: distinct_card)
qed

lemma find_chain_plist:
  "plist nxt st p ps \<Longrightarrow> length ps \<le> n \<Longrightarrow> find_chain nxt P st n p = Inr (find (\<lambda>q. P (ent st q)) ps)"
proof (induction ps arbitrary: n p)
  case (Cons q ps)
  then show ?case by (cases n) auto
qed simp

text \<open>The fuel is enough for a chain, so a search of one returns.\<close>

lemma search_plist: "plist nxt st p ps \<Longrightarrow> search nxt P st p = Inr (find (\<lambda>q. P (ent st q)) ps)"
  unfolding search_def by (rule find_chain_plist [OF _ plist_length])

lemma plist_cong:
  "plist nxt st p ps \<Longrightarrow> (\<And>q. q \<in> set ps \<Longrightarrow> q < length (heap st') \<and> nxt (ent st' q) = nxt (ent st q)) \<Longrightarrow> plist nxt st' p ps"
  by (induction ps arbitrary: p) auto

lemma upd_simps [simp]:
  "length (heap (upd f p st)) = length (heap st)" "freelist (upd f p st) = freelist st"
  "entry_tbl (upd f p st) = entry_tbl st" "p < length (heap st) \<Longrightarrow> ent (upd f p st) p = f (ent st p)"
  "p \<noteq> q \<Longrightarrow> ent (upd f p st) q = ent st q"
  by (simp_all add: upd_def)


lemma check_dups_none:
  "plist e_next st p ps \<Longrightarrow> length ps \<le> n \<Longrightarrow> inum \<notin> (\<lambda>q. e_ino (ent st q)) ` set ps
    \<Longrightarrow> check_dups cfg inum st n p = Inr ()"
proof (induction ps arbitrary: n p)
  case (Cons q ps)
  then show ?case by (cases n) auto
qed simp


section \<open>The table by inode number\<close>

text \<open>
  \<open>ino_chains cfg st C\<close>: slot \<open>k\<close> of the table holds the chain \<open>C k\<close> of entries whose numbers belong
  there, each number once.
\<close>

definition ino_chains :: "scfg \<Rightarrow> symtab \<Rightarrow> (nat \<Rightarrow> eptr list) \<Rightarrow> bool" where
  "ino_chains cfg st C \<longleftrightarrow> 0 < length (entry_tbl st) \<and>
     (\<forall>k < length (entry_tbl st). plist e_next st (entry_tbl st ! k) (C k)
        \<and> (\<forall>q \<in> set (C k). in_table cfg (e_ino (ent st q)) \<and> slot (e_ino (ent st q)) st = k)
        \<and> distinct (map (\<lambda>q. e_ino (ent st q)) (C k)))"

definition ino_entry :: "scfg \<Rightarrow> symtab \<Rightarrow> (nat \<Rightarrow> eptr list) \<Rightarrow> dump_ino_t \<Rightarrow> eptr option" where
  "ino_entry cfg st C inum =
     (if in_table cfg inum then find (\<lambda>q. e_ino (ent st q) = inum) (C (slot inum st)) else None)"

lemma ino_chainsD:
  assumes "ino_chains cfg st C" "k < length (entry_tbl st)"
  shows "plist e_next st (entry_tbl st ! k) (C k)"
    "q \<in> set (C k) \<Longrightarrow> in_table cfg (e_ino (ent st q)) \<and> slot (e_ino (ent st q)) st = k"
    "distinct (map (\<lambda>q. e_ino (ent st q)) (C k))"
  using assms by (auto simp: ino_chains_def)

lemma some_slot_ok: "ino_chains cfg st C \<Longrightarrow> some_slot st = Inr ()"
  by (auto simp: ino_chains_def some_slot_def)

lemma slot_less: "ino_chains cfg st C \<Longrightarrow> slot inum st < length (entry_tbl st)"
  by (simp add: ino_chains_def slot_def)

lemma lookupino_entry: "ino_chains cfg st C \<Longrightarrow> lookupino cfg inum st = Inr (ino_entry cfg st C inum)"
  using search_plist [OF ino_chainsD(1) [OF _ slot_less]] by (simp add: lookupino_def ino_entry_def some_slot_ok)

text \<open>Adding an entry that is in no chain.\<close>

lemma addino_chains:
  assumes c: "ino_chains cfg st C" and np: "np < length (heap st)" "\<And>k. k < length (entry_tbl st) \<Longrightarrow> np \<notin> set (C k)"
    and i: "in_table cfg inum" "ino_entry cfg st C inum = None"
  defines "k \<equiv> slot inum st"
  shows "\<exists>st'. addino cfg inum np st = Inr st' \<and> ino_chains cfg st' (C(k := np # C k))
    \<and> heap st' = (heap st)[np := (ent st np)\<lparr>e_ino := inum, e_next := entry_tbl st ! k\<rparr>]
    \<and> freelist st' = freelist st \<and> length (entry_tbl st') = length (entry_tbl st)"
proof -
  have k: "k < length (entry_tbl st)" unfolding k_def by (rule slot_less [OF c])
  define s1 where "s1 = upd (\<lambda>e. e\<lparr>e_ino := inum, e_next := entry_tbl st ! k\<rparr>) np st"
  define st' where "st' = s1\<lparr>entry_tbl := (entry_tbl st)[k := Some np]\<rparr>"
  have h: "heap st' = (heap st)[np := (ent st np)\<lparr>e_ino := inum, e_next := entry_tbl st ! k\<rparr>]"
    by (simp add: st'_def s1_def upd_def)
  have e: "ent st' q = ent st q" if "q \<noteq> np" for q using that by (simp add: h)
  have en: "e_ino (ent st' np) = inum" "e_next (ent st' np) = entry_tbl st ! k" using np(1) by (simp_all add: h)
  have t: "length (entry_tbl st') = length (entry_tbl st)" "slot j st' = slot j st" for j
    by (simp_all add: st'_def slot_def)
  have keep: "plist e_next st' p (C j)" if "plist e_next st p (C j)" "j < length (entry_tbl st)" for p j
    by (rule plist_cong [OF that(1)]) (metis e h length_list_update np(2) plist_heap that)
  have "ino_chains cfg st' (C(k := np # C k))"
    unfolding ino_chains_def
  proof (intro conjI allI impI)
    show "0 < length (entry_tbl st')" using k t(1) by linarith
    fix j assume j: "j < length (entry_tbl st')"
    have old: "e_ino (ent st' q) = e_ino (ent st q)" if "q \<in> set (C j)" for q using e np(2) j t(1) that by metis
    have m: "map (\<lambda>q. e_ino (ent st' q)) (C j) = map (\<lambda>q. e_ino (ent st q)) (C j)" using old by simp
    show "plist e_next st' (entry_tbl st' ! j) ((C(k := np # C k)) j)"
    proof (cases "j = k")
      case True
      have "plist e_next st' (entry_tbl st ! k) (C k)" by (rule keep [OF ino_chainsD(1) [OF c k] k])
      then show ?thesis using True k np(1) en h by (simp add: st'_def)
    next
      case False
      then show ?thesis using keep [OF ino_chainsD(1) [OF c]] j t(1) by (simp add: st'_def)
    qed
    show "\<forall>q \<in> set ((C(k := np # C k)) j). in_table cfg (e_ino (ent st' q)) \<and> slot (e_ino (ent st' q)) st' = j"
      using ino_chainsD(2) [OF c, of j] j t old en(1) i(1) by (auto simp: k_def)
    have "inum \<notin> set (map (\<lambda>q. e_ino (ent st q)) (C k))"
      using i by (auto simp: ino_entry_def k_def find_None_iff)
    then show "distinct (map (\<lambda>q. e_ino (ent st' q)) ((C(k := np # C k)) j))"
      using ino_chainsD(3) [OF c, of j] j t(1) m en(1) by (cases "j = k") (simp_all del: map_eq_conv distinct_map)
  qed
  moreover have "addino cfg inum np st = Inr st'"
  proof -
    have p: "plist e_next st' (entry_tbl st ! k) (C k)" by (rule keep [OF ino_chainsD(1) [OF c k] k])
    have "inum \<notin> (\<lambda>q. e_ino (ent st' q)) ` set (C k)"
      using i e np(2) [OF k] by (auto simp: ino_entry_def k_def find_None_iff image_iff) metis
    then have "check_dups cfg inum st' (length (heap st')) (e_next (ent st' np)) = Inr ()"
      using check_dups_none [OF p plist_length [OF p]] en(2) by simp
    then show ?thesis using i(1) some_slot_ok [OF c] by (simp add: addino_def Let_def k_def st'_def s1_def)
  qed
  ultimately show ?thesis using h t(1) by (intro exI [of _ st']) (simp add: st'_def s1_def)
qed

lemma addino_entry:
  assumes c: "ino_chains cfg st C" and np: "np < length (heap st)" "\<And>k. k < length (entry_tbl st) \<Longrightarrow> np \<notin> set (C k)"
    and h: "heap st' = (heap st)[np := (ent st np)\<lparr>e_ino := inum, e_next := x\<rparr>]"
      "length (entry_tbl st') = length (entry_tbl st)" and i: "in_table cfg inum"
  shows "ino_entry cfg st' (C(slot inum st := np # C (slot inum st))) = (ino_entry cfg st C)(inum \<mapsto> np)"
proof
  fix j
  have s: "slot l st' = slot l st" for l by (simp add: slot_def h(2))
  have e: "e_ino (ent st' q) = e_ino (ent st q)" if "q \<in> set (C (slot j st))" for q
  proof -
    have "q \<noteq> np" using that np(2) [OF slot_less [OF c]] by auto
    then show ?thesis by (simp add: h(1))
  qed
  have f: "find (\<lambda>q. e_ino (ent st' q) = j) (C (slot j st)) = find (\<lambda>q. e_ino (ent st q) = j) (C (slot j st))"
    by (rule find_cong [OF refl]) (simp add: e)
  have n: "e_ino (ent st' np) = inum" using np(1) by (simp add: h(1))
  show "ino_entry cfg st' (C(slot inum st := np # C (slot inum st))) j = ((ino_entry cfg st C)(inum \<mapsto> np)) j"
    using f n i by (auto simp: ino_entry_def s)
qed

text \<open>The loop of \<open>deleteino\<close> on a chain that holds the number.\<close>

definition unchained :: "dump_ino_t \<Rightarrow> eptr \<Rightarrow> eptr option \<Rightarrow> symtab \<Rightarrow> symtab" where
  "unchained inum q prv st =
     (let s1 = upd (\<lambda>e. e\<lparr>e_ino := 0\<rparr>) q st; nxt = e_next (ent s1 q) in
      case prv of None \<Rightarrow> s1\<lparr>entry_tbl := (entry_tbl s1)[slot inum s1 := nxt]\<rparr>
      | Some l \<Rightarrow> upd (\<lambda>e. e\<lparr>e_next := nxt\<rparr>) l s1)"

definition last_of :: "eptr option \<Rightarrow> eptr list \<Rightarrow> eptr option" where
  "last_of prv xs = (if xs = [] then prv else Some (last xs))"

lemma unchain_plist:
  "plist e_next st p (xs @ q # ys) \<Longrightarrow> length xs < n \<Longrightarrow> \<forall>x \<in> set xs. e_ino (ent st x) \<noteq> inum
    \<Longrightarrow> e_ino (ent st q) = inum \<Longrightarrow> unchain cfg inum st n prv p = Inr (unchained inum q (last_of prv xs) st)"
proof (induction xs arbitrary: n p prv)
  case Nil
  then show ?case by (cases n) (simp_all add: unchained_def last_of_def Let_def)
next
  case (Cons x xs)
  then obtain m where m: "n = Suc m" "length xs < m" by (cases n) auto
  have "unchain cfg inum st m (Some x) (e_next (ent st x)) = Inr (unchained inum q (last_of (Some x) xs) st)"
    by (rule Cons.IH) (use Cons.prems m in auto)
  then show ?case using Cons.prems m by (simp add: last_of_def)
qed

lemma plist_last:
  "plist nxt st p (xs @ [l] @ ys) \<Longrightarrow> plist nxt st (nxt (ent st l)) ys"
  by (induction xs arbitrary: p) auto

lemma plist_splice:
  assumes "plist nxt st p (xs @ q # ys)"
    and "length (heap st') = length (heap st)"
    and "\<And>x. x \<in> set (xs @ ys) \<Longrightarrow> nxt (ent st' x) = (if last_of None xs = Some x then nxt (ent st q) else nxt (ent st x))"
  shows "plist nxt st' (if xs = [] then nxt (ent st q) else p) (xs @ ys)"
  using assms
proof (induction xs arbitrary: p)
  case Nil
  then have a: "plist nxt st (nxt (ent st q)) ys" and b: "\<forall>x \<in> set ys. nxt (ent st' x) = nxt (ent st x)"
    by (auto simp: last_of_def)
  have "plist nxt st' (nxt (ent st q)) ys"
    by (rule plist_cong [OF a]) (use b plist_heap [OF a] Nil.prems(2) in auto)
  then show ?case by simp
next
  case (Cons x xs)
  have d: "distinct (x # xs @ q # ys)" using plist_distinct [OF Cons.prems(1)] by simp
  have IH: "plist nxt st' (if xs = [] then nxt (ent st q) else nxt (ent st x)) (xs @ ys)"
  proof (rule Cons.IH)
    show "plist nxt st (nxt (ent st x)) (xs @ q # ys)" using Cons.prems(1) by simp
    fix z assume z: "z \<in> set (xs @ ys)"
    then have "z \<noteq> x" using d by auto
    then show "nxt (ent st' z) = (if last_of None xs = Some z then nxt (ent st q) else nxt (ent st z))"
      using Cons.prems(3) [of z] z by (cases "xs = []") (auto simp: last_of_def)
  qed (rule Cons.prems(2))
  have "nxt (ent st' x) = (if xs = [] then nxt (ent st q) else nxt (ent st x))"
    using Cons.prems(3) [of x] d by (cases "xs = []") (auto simp: last_of_def)
  then show ?case using IH Cons.prems(1,2) by simp
qed

lemma ino_entry_Some:
  assumes "ino_chains cfg st C"
  shows "ino_entry cfg st C inum = Some q \<longleftrightarrow> in_table cfg inum \<and> q \<in> set (C (slot inum st)) \<and> e_ino (ent st q) = inum"
proof
  assume "ino_entry cfg st C inum = Some q"
  then show "in_table cfg inum \<and> q \<in> set (C (slot inum st)) \<and> e_ino (ent st q) = inum"
    by (auto simp: ino_entry_def find_Some_iff split: if_splits)
next
  assume a: "in_table cfg inum \<and> q \<in> set (C (slot inum st)) \<and> e_ino (ent st q) = inum"
  have inj: "inj_on (\<lambda>q. e_ino (ent st q)) (set (C (slot inum st)))"
    using ino_chainsD(3) [OF assms slot_less [OF assms]] by (simp add: distinct_map)
  obtain q' where q': "find (\<lambda>q. e_ino (ent st q) = inum) (C (slot inum st)) = Some q'"
    using a by (cases "find (\<lambda>q. e_ino (ent st q) = inum) (C (slot inum st))") (auto simp: find_None_iff)
  then have "q' \<in> set (C (slot inum st))" "e_ino (ent st q') = inum" by (auto simp: find_Some_iff)
  then have "q' = q" using a inj by (auto dest: inj_onD)
  then show "ino_entry cfg st C inum = Some q" using q' a by (simp add: ino_entry_def)
qed

lemma ino_entry_chain:
  assumes "ino_chains cfg st C" "k < length (entry_tbl st)" "q \<in> set (C k)"
  shows "ino_entry cfg st C (e_ino (ent st q)) = Some q"
  using assms ino_chainsD(2) [OF assms(1,2,3)] by (simp add: ino_entry_Some)

lemma deleteino_chains:
  assumes c: "ino_chains cfg st C" and m: "ino_entry cfg st C inum = Some q"
  shows "\<exists>st' C'. deleteino cfg inum st = Inr st' \<and> ino_chains cfg st' C'
    \<and> ino_entry cfg st' C' = (ino_entry cfg st C)(inum := None) \<and> length (heap st') = length (heap st)
    \<and> freelist st' = freelist st \<and> (\<forall>z. \<exists>v w. ent st' z = (ent st z)\<lparr>e_ino := v, e_next := w\<rparr>)
    \<and> (\<forall>z. z \<notin> ran (ino_entry cfg st C) \<longrightarrow> ent st' z = ent st z)
    \<and> (\<forall>z. e_ino (ent st' z) = (if z = q then 0 else e_ino (ent st z)))"
proof -
  define k where "k = slot inum st"
  have k: "k < length (entry_tbl st)" unfolding k_def by (rule slot_less [OF c])
  have q: "in_table cfg inum" "q \<in> set (C k)" "e_ino (ent st q) = inum"
    using m ino_entry_Some [OF c] by (auto simp: k_def)
  then obtain xs ys where s: "C k = xs @ q # ys" by (meson split_list)
  have d: "distinct (map (\<lambda>q. e_ino (ent st q)) (C k))" and pl: "plist e_next st (entry_tbl st ! k) (C k)"
    using ino_chainsD [OF c k] by auto
  have dc: "distinct (xs @ q # ys)" using plist_distinct [OF pl] s by simp
  define st' where "st' = unchained inum q (last_of None xs) st"
  have lx: "length xs < length (heap st)" "\<forall>x \<in> set xs. e_ino (ent st x) \<noteq> inum"
    using plist_length [OF pl] d q(3) by (auto simp: s) (metis rev_image_eqI)
  have del: "deleteino cfg inum st = Inr st'"
    unfolding deleteino_def st'_def
    using q(1) unchain_plist [OF pl [unfolded s] lx q(3), of cfg None] some_slot_ok [OF c] by (simp add: k_def)
  have ql: "q < length (heap st)" using plist_heap [OF pl] q(2) by simp
  have hl: "length (heap st') = length (heap st)"
    by (simp add: st'_def unchained_def Let_def split: option.splits)
  have tl: "length (entry_tbl st') = length (entry_tbl st)"
    by (simp add: st'_def unchained_def Let_def split: option.splits)
  have sl: "slot i st' = slot i st" for i by (simp add: slot_def tl)
  have xq: "last xs \<noteq> q \<and> last xs < length (heap st)" if "xs \<noteq> []"
    using that dc plist_heap [OF pl, of "last xs"] s by (metis Un_iff disjoint_iff distinct_append last_in_set list.set_intros(1) set_append)
  have en: "ent st' z = (ent st z)\<lparr>e_ino := if z = q then 0 else e_ino (ent st z),
      e_next := if last_of None xs = Some z then e_next (ent st q) else e_next (ent st z)\<rparr>" for z
    using ql xq by (auto simp: st'_def unchained_def Let_def last_of_def upd_def nth_list_update)
  have ino: "e_ino (ent st' z) = (if z = q then 0 else e_ino (ent st z))" for z by (simp add: en)
  have nx: "e_next (ent st' z) = (if last_of None xs = Some z then e_next (ent st q) else e_next (ent st z))" for z
    by (simp add: en)
  have tb: "entry_tbl st' ! j = (if j = k \<and> xs = [] then e_next (ent st q) else entry_tbl st ! j)" for j
    using ql k by (auto simp: st'_def unchained_def Let_def last_of_def upd_def k_def slot_def nth_list_update)
  define C' where "C' = C(k := xs @ ys)"
  have sub: "set (C' j) \<subseteq> set (C j) - {q}" if "j < length (entry_tbl st)" for j
    using dc s q(2) ino_chainsD(2) [OF c that] ino_chainsD(2) [OF c k q(2)] by (auto simp: C'_def)
  have old: "map (\<lambda>q. e_ino (ent st' q)) (C' j) = map (\<lambda>q. e_ino (ent st q)) (C' j)" if "j < length (entry_tbl st)" for j
    using sub [OF that] ino by auto
  have ch: "ino_chains cfg st' C'"
    unfolding ino_chains_def
  proof (intro conjI allI impI)
    show "0 < length (entry_tbl st')" using k tl by linarith
    fix j assume j: "j < length (entry_tbl st')"
    show "plist e_next st' (entry_tbl st' ! j) (C' j)"
    proof (cases "j = k")
      case True
      have "plist e_next st' (if xs = [] then e_next (ent st q) else entry_tbl st ! k) (xs @ ys)"
        by (rule plist_splice [OF pl [unfolded s] hl]) (simp add: nx)
      then show ?thesis using True tb [of k] by (simp add: C'_def)
    next
      case False
      have "plist e_next st' (entry_tbl st ! j) (C j)"
      proof (rule plist_cong [OF ino_chainsD(1) [OF c]])
        fix z assume z: "z \<in> set (C j)"
        have "last_of None xs \<noteq> Some z"
        proof
          assume "last_of None xs = Some z"
          then have "z \<in> set (C k)" using s by (auto simp: last_of_def split: if_splits)
          then show False using False z ino_chainsD(2) [OF c k] ino_chainsD(2) [OF c, of j] j tl by auto
        qed
        then show "z < length (heap st') \<and> e_next (ent st' z) = e_next (ent st z)"
          using z plist_heap [OF ino_chainsD(1) [OF c]] j tl hl nx by auto
      qed (use j tl in simp)
      then show ?thesis using False tb [of j] by (simp add: C'_def)
    qed
    show "\<forall>z \<in> set (C' j). in_table cfg (e_ino (ent st' z)) \<and> slot (e_ino (ent st' z)) st' = j"
      using sub [of j] ino ino_chainsD(2) [OF c, of j] j tl by (auto simp: sl)
    have "distinct (map (\<lambda>q. e_ino (ent st q)) (C' j))"
      using ino_chainsD(3) [OF c, of j] d j tl s by (auto simp: C'_def)
    then show "distinct (map (\<lambda>q. e_ino (ent st' q)) (C' j))" using old [of j] j tl by (simp del: map_eq_conv)
  qed
  have "ino_entry cfg st' C' = (ino_entry cfg st C)(inum := None)"
  proof
    fix i
    have none: "ino_entry cfg st' C' inum \<noteq> Some z" for z
    proof
      assume a: "ino_entry cfg st' C' inum = Some z"
      then have z: "z \<in> set (C' (slot inum st))" "e_ino (ent st' z) = inum"
        using ino_entry_Some [OF ch] by (auto simp: sl)
      then have "z \<in> set (C k)" "z \<noteq> q" using sub [OF k] by (auto simp: k_def)
      then show False using z(2) ino q(2,3) d by (auto simp: distinct_map dest: inj_onD)
    qed
    have "ino_entry cfg st' C' i = Some z \<longleftrightarrow> ino_entry cfg st C i = Some z" if "i \<noteq> inum" for z
    proof -
      have "z \<in> set (C' (slot i st)) \<longleftrightarrow> z \<in> set (C (slot i st))" if "e_ino (ent st z) = i"
        using \<open>i \<noteq> inum\<close> that q(3) s by (auto simp: C'_def)
      moreover have "z \<noteq> q" if "z \<in> set (C' (slot i st))"
        using sub [OF slot_less [OF c], of i] that by auto
      moreover have "z \<noteq> q" if "e_ino (ent st z) = i" using that q(3) \<open>i \<noteq> inum\<close> by auto
      ultimately show ?thesis by (auto simp: ino_entry_Some [OF ch] ino_entry_Some [OF c] sl ino)
    qed
    then show "ino_entry cfg st' C' i = ((ino_entry cfg st C)(inum := None)) i"
      using none by (cases "i = inum") (auto intro: option.expand, (metis not_None_eq)+)
  qed
  moreover have "freelist st' = freelist st"
    by (simp add: st'_def unchained_def Let_def split: option.splits)
  moreover have "ent st' z = ent st z" if "z \<notin> ran (ino_entry cfg st C)" for z
  proof -
    have "z \<notin> set (C k)" using that ino_entry_chain [OF c k] by (auto simp: ran_def)
    then have "z \<noteq> q" "last_of None xs \<noteq> Some z" by (auto simp: s last_of_def)
    then show ?thesis by (simp add: en)
  qed
  moreover have "\<exists>v w. ent st' z = (ent st z)\<lparr>e_ino := v, e_next := w\<rparr>" for z using en by blast
  ultimately show ?thesis using del ch hl ino by blast
qed

text \<open>
  The abstract value of the table: a map from inode numbers to entries.
\<close>

definition ino_map :: "scfg \<Rightarrow> symtab \<Rightarrow> (dump_ino_t \<Rightarrow> eptr option) \<Rightarrow> bool" where
  "ino_map cfg st M \<longleftrightarrow> (\<exists>C. ino_chains cfg st C \<and> M = ino_entry cfg st C)"

lemma lookupino_map: "ino_map cfg st M \<Longrightarrow> lookupino cfg inum st = Inr (M inum)"
  by (auto simp: ino_map_def lookupino_entry)

lemma ino_map_Some:
  assumes "ino_map cfg st M" "M inum = Some q"
  shows "q < length (heap st)" "e_ino (ent st q) = inum" "in_table cfg inum"
proof -
  obtain C where c: "ino_chains cfg st C" and M: "M = ino_entry cfg st C"
    using assms(1) by (auto simp: ino_map_def)
  have q: "q \<in> set (C (slot inum st))" using assms(2) ino_entry_Some [OF c] by (simp add: M)
  show "q < length (heap st)" by (rule plist_heap [OF ino_chainsD(1) [OF c slot_less [OF c]] q])
  show "e_ino (ent st q) = inum" "in_table cfg inum" using assms(2) ino_entry_Some [OF c] by (simp_all add: M)
qed

lemma addino_map:
  assumes m: "ino_map cfg st M" and np: "np < length (heap st)" "np \<notin> ran M"
    and i: "in_table cfg inum" "M inum = None"
  shows "\<exists>st' x. addino cfg inum np st = Inr st' \<and> ino_map cfg st' (M(inum \<mapsto> np))
    \<and> heap st' = (heap st)[np := (ent st np)\<lparr>e_ino := inum, e_next := x\<rparr>] \<and> freelist st' = freelist st"
proof -
  obtain C where c: "ino_chains cfg st C" and M: "M = ino_entry cfg st C" using m by (auto simp: ino_map_def)
  have n: "np \<notin> set (C k)" if "k < length (entry_tbl st)" for k
    using np(2) ino_entry_chain [OF c that] by (auto simp: M ran_def)
  obtain st' where st': "addino cfg inum np st = Inr st'"
    "ino_chains cfg st' (C(slot inum st := np # C (slot inum st)))"
    "heap st' = (heap st)[np := (ent st np)\<lparr>e_ino := inum, e_next := entry_tbl st ! slot inum st\<rparr>]"
    "freelist st' = freelist st" "length (entry_tbl st') = length (entry_tbl st)"
    using addino_chains [OF c np(1) n i(1)] i(2) by (auto simp: M)
  have "ino_map cfg st' (M(inum \<mapsto> np))"
    using st'(2) addino_entry [OF c np(1) n st'(3,5) i(1)] by (auto simp: ino_map_def M)
  then show ?thesis using st' by blast
qed

lemma deleteino_map:
  assumes "ino_map cfg st M" "M inum = Some q"
  obtains st' where "deleteino cfg inum st = Inr st'" "ino_map cfg st' (M(inum := None))"
    "length (heap st') = length (heap st)" "freelist st' = freelist st"
    "\<And>z. \<exists>v w. ent st' z = (ent st z)\<lparr>e_ino := v, e_next := w\<rparr>" "\<And>z. z \<notin> ran M \<Longrightarrow> ent st' z = ent st z"
    "\<And>z. e_ino (ent st' z) = (if z = q then 0 else e_ino (ent st z))"
proof -
  obtain C where c: "ino_chains cfg st C" and M: "M = ino_entry cfg st C" using assms(1) by (auto simp: ino_map_def)
  obtain st' C' where "deleteino cfg inum st = Inr st'" "ino_chains cfg st' C'"
    "ino_entry cfg st' C' = M(inum := None)" "length (heap st') = length (heap st)" "freelist st' = freelist st"
    "\<forall>z. \<exists>v w. ent st' z = (ent st z)\<lparr>e_ino := v, e_next := w\<rparr>" "\<forall>z. z \<notin> ran M \<longrightarrow> ent st' z = ent st z"
    "\<forall>z. e_ino (ent st' z) = (if z = q then 0 else e_ino (ent st z))"
    using deleteino_chains [OF c, of inum q] assms(2) unfolding M by blast
  then show thesis by (intro that [of st']) (auto simp: ino_map_def)
qed

text \<open>
  The contract of the table, as the tree of entries uses it: \<open>rel\<close> relates a state to the map it stands
  for, \<open>has\<close> says which entries there are, \<open>can\<close> which numbers belong in the table.
\<close>

datatype ('k, 'e) map_op = Add_Op 'k 'e | Del_Op 'k

fun run_ops :: "('k \<Rightarrow> 'e \<Rightarrow> 's \<Rightarrow> restore_stop + 's) \<Rightarrow> ('k \<Rightarrow> 's \<Rightarrow> restore_stop + 's) \<Rightarrow> ('k, 'e) map_op list
    \<Rightarrow> 's \<Rightarrow> restore_stop + 's" where
  "run_ops add del [] st = Inr st"
| "run_ops add del (Add_Op i p # xs) st = bindE (add i p st) (run_ops add del xs)"
| "run_ops add del (Del_Op i # xs) st = bindE (del i st) (run_ops add del xs)"

fun map_ops :: "('k \<Rightarrow> bool) \<Rightarrow> ('e \<Rightarrow> bool) \<Rightarrow> ('k, 'e) map_op list \<Rightarrow> ('k \<Rightarrow> 'e option)
    \<Rightarrow> ('k \<Rightarrow> 'e option) option" where
  "map_ops can has [] M = Some M"
| "map_ops can has (Add_Op i p # xs) M =
     (if can i \<and> M i = None \<and> has p \<and> p \<notin> ran M then map_ops can has xs (M(i \<mapsto> p)) else None)"
| "map_ops can has (Del_Op i # xs) M = (if M i = None then None else map_ops can has xs (M(i := None)))"

locale number_table =
  fixes rel :: "'s \<Rightarrow> ('k \<Rightarrow> 'e option) \<Rightarrow> bool"
    and look :: "'k \<Rightarrow> 's \<Rightarrow> restore_stop + 'e option"
    and add :: "'k \<Rightarrow> 'e \<Rightarrow> 's \<Rightarrow> restore_stop + 's"
    and del :: "'k \<Rightarrow> 's \<Rightarrow> restore_stop + 's"
    and can :: "'k \<Rightarrow> bool" and has :: "'s \<Rightarrow> 'e \<Rightarrow> bool"
  assumes look: "rel st M \<Longrightarrow> look i st = Inr (M i)"
    and add: "rel st M \<Longrightarrow> can i \<Longrightarrow> M i = None \<Longrightarrow> has st p \<Longrightarrow> p \<notin> ran M
      \<Longrightarrow> \<exists>st'. add i p st = Inr st' \<and> rel st' (M(i \<mapsto> p)) \<and> has st' = has st"
    and del: "rel st M \<Longrightarrow> M i = Some p
      \<Longrightarrow> \<exists>st'. del i st = Inr st' \<and> rel st' (M(i := None)) \<and> has st' = has st"
begin

lemma run_map: "rel st M \<Longrightarrow> map_ops can (has st) xs M = Some M'
    \<Longrightarrow> \<exists>st'. run_ops add del xs st = Inr st' \<and> rel st' M' \<and> (\<forall>i. look i st' = Inr (M' i))"
proof (induction xs arbitrary: st M)
  case Nil
  then show ?case using look by simp
next
  case (Cons x xs)
  show ?case
  proof (cases x)
    case (Add_Op i p)
    then have a: "can i" "M i = None" "has st p" "p \<notin> ran M" "map_ops can (has st) xs (M(i \<mapsto> p)) = Some M'"
      using Cons.prems(2) by (auto split: if_splits)
    obtain st' where st': "add i p st = Inr st'" "rel st' (M(i \<mapsto> p))" "has st' = has st"
      using add [OF Cons.prems(1) a(1-4)] by blast
    have "\<exists>st''. run_ops add del xs st' = Inr st'' \<and> rel st'' M' \<and> (\<forall>i. look i st'' = Inr (M' i))"
      by (rule Cons.IH [OF st'(2)]) (unfold st'(3), rule a(5))
    then show ?thesis using st'(1) by (simp add: Add_Op)
  next
    case (Del_Op i)
    then obtain p where p: "M i = Some p" "map_ops can (has st) xs (M(i := None)) = Some M'"
      using Cons.prems(2) by (auto split: if_splits)
    obtain st' where st': "del i st = Inr st'" "rel st' (M(i := None))" "has st' = has st"
      using del [OF Cons.prems(1) p(1)] by blast
    have "\<exists>st''. run_ops add del xs st' = Inr st'' \<and> rel st'' M' \<and> (\<forall>i. look i st'' = Inr (M' i))"
      by (rule Cons.IH [OF st'(2)]) (unfold st'(3), rule p(2))
    then show ?thesis using st'(1) by (simp add: Del_Op)
  qed
qed

end

definition has_entry :: "symtab \<Rightarrow> eptr \<Rightarrow> bool" where
  "has_entry st p \<longleftrightarrow> p < length (heap st)"

interpretation inos: number_table "ino_map cfg" "lookupino cfg" "addino cfg" "deleteino cfg" "in_table cfg" has_entry
  for cfg :: scfg
proof unfold_locales
  fix st M i p assume a: "ino_map cfg st M" "in_table cfg i" "M i = None" "has_entry st p" "p \<notin> ran M"
  obtain st' where "addino cfg i p st = Inr st'" "ino_map cfg st' (M(i \<mapsto> p))" "length (heap st') = length (heap st)"
    using addino_map [OF a(1) _ a(5,2,3)] a(4) by (auto simp: has_entry_def)
  then show "\<exists>st'. addino cfg i p st = Inr st' \<and> ino_map cfg st' (M(i \<mapsto> p)) \<and> has_entry st' = has_entry st"
    by (auto simp: has_entry_def fun_eq_iff)
next
  fix st M i p assume a: "ino_map cfg st M" "M i = Some p"
  obtain st' where "deleteino cfg i st = Inr st'" "ino_map cfg st' (M(i := None))" "length (heap st') = length (heap st)"
    by (rule deleteino_map [OF a]) blast
  then show "\<exists>st'. deleteino cfg i st = Inr st' \<and> ino_map cfg st' (M(i := None)) \<and> has_entry st' = has_entry st"
    by (auto simp: has_entry_def fun_eq_iff)
qed (rule lookupino_map)

end
