(* ===== verification/Symtab_Tree.thy ===== *)
theory Symtab_Tree
  imports Symtab
begin

text \<open>
  The symbol table of restore as a tree: the well-formedness of the directory lists, the path names of
  entries, what \<open>lookupname\<close> and \<open>myname\<close> make of them, and how changes of the heap act on them.
\<close>

section \<open>The tree\<close>

text \<open>
  \<open>D p j\<close> is list \<open>j\<close> of directory \<open>p\<close>.  An entry need not be in the list that its name hashes to:
  \<open>moveentry\<close> leaves a renamed entry where it is.
\<close>

definition isdir :: "symtab \<Rightarrow> eptr \<Rightarrow> bool" where
  "isdir st p \<longleftrightarrow> p < length (heap st) \<and> e_entries (ent st p) \<noteq> None"

definition kids :: "scfg \<Rightarrow> symtab \<Rightarrow> (eptr \<Rightarrow> nat \<Rightarrow> eptr list) \<Rightarrow> eptr \<Rightarrow> eptr set" where
  "kids cfg st D p = (if isdir st p then \<Union>j < dirhash_size cfg. set (D p j) else {})"

definition name_ok :: "byte list \<Rightarrow> bool" where
  "name_ok n \<longleftrightarrow> n \<noteq> [] \<and> slash \<notin> set n \<and> length n < 256"

definition named :: "entry \<Rightarrow> bool" where
  "named e \<longleftrightarrow> name_ok (e_name e) \<and> e_namlen e = of_nat (length (e_name e))"

definition dir_lists :: "scfg \<Rightarrow> symtab \<Rightarrow> (eptr \<Rightarrow> nat \<Rightarrow> eptr list) \<Rightarrow> bool" where
  "dir_lists cfg st D \<longleftrightarrow> (\<forall>p es. p < length (heap st) \<longrightarrow> e_entries (ent st p) = Some es \<longrightarrow>
     length es = dirhash_size cfg \<and> (\<forall>j < dirhash_size cfg. plist e_sibling st (es ! j) (D p j)))"

definition dir_kids :: "scfg \<Rightarrow> symtab \<Rightarrow> (eptr \<Rightarrow> nat \<Rightarrow> eptr list) \<Rightarrow> eptr \<Rightarrow> bool" where
  "dir_kids cfg st D r \<longleftrightarrow> (\<forall>p. \<forall>q \<in> kids cfg st D p. q \<noteq> r \<and> e_parent (ent st q) = Some p \<and> named (ent st q))
     \<and> (\<forall>p. inj_on (\<lambda>q. e_name (ent st q)) (kids cfg st D p))"

definition one_list :: "scfg \<Rightarrow> symtab \<Rightarrow> (eptr \<Rightarrow> nat \<Rightarrow> eptr list) \<Rightarrow> bool" where
  "one_list cfg st D \<longleftrightarrow> (\<forall>p j k q. isdir st p \<longrightarrow> j < dirhash_size cfg \<longrightarrow> k < dirhash_size cfg \<longrightarrow>
     q \<in> set (D p j) \<longrightarrow> q \<in> set (D p k) \<longrightarrow> j = k)"

lemma one_listD:
  "one_list cfg st D \<Longrightarrow> isdir st p \<Longrightarrow> j < dirhash_size cfg \<Longrightarrow> k < dirhash_size cfg \<Longrightarrow> q \<in> set (D p j)
    \<Longrightarrow> q \<in> set (D p k) \<Longrightarrow> j = k"
  unfolding one_list_def by blast

definition tree :: "scfg \<Rightarrow> symtab \<Rightarrow> (eptr \<Rightarrow> nat \<Rightarrow> eptr list) \<Rightarrow> eptr \<Rightarrow> bool" where
  "tree cfg st D r \<longleftrightarrow> 0 < dirhash_size cfg \<and> isdir st r \<and> e_name (ent st r) = [0x2E] \<and> e_namlen (ent st r) = 1
     \<and> dir_lists cfg st D \<and> dir_kids cfg st D r \<and> one_list cfg st D"

lemma treeI:
  "0 < dirhash_size cfg \<Longrightarrow> isdir st r \<Longrightarrow> e_name (ent st r) = [0x2E] \<Longrightarrow> e_namlen (ent st r) = 1
    \<Longrightarrow> dir_lists cfg st D \<Longrightarrow> dir_kids cfg st D r \<Longrightarrow> one_list cfg st D \<Longrightarrow> tree cfg st D r"
  by (simp add: tree_def)

lemma treeD:
  assumes "tree cfg st D r"
  shows "0 < dirhash_size cfg" "isdir st r" "e_name (ent st r) = [0x2E]" "e_namlen (ent st r) = 1"
    "dir_lists cfg st D" "dir_kids cfg st D r" "one_list cfg st D"
  using assms by (auto simp: tree_def)

lemma dir_listsD:
  "dir_lists cfg st D \<Longrightarrow> p < length (heap st) \<Longrightarrow> e_entries (ent st p) = Some es \<Longrightarrow> length es = dirhash_size cfg"
  "dir_lists cfg st D \<Longrightarrow> p < length (heap st) \<Longrightarrow> e_entries (ent st p) = Some es \<Longrightarrow> j < dirhash_size cfg
    \<Longrightarrow> plist e_sibling st (es ! j) (D p j)"
  by (auto simp: dir_lists_def)

lemma kidsD:
  assumes "dir_kids cfg st D r" "q \<in> kids cfg st D p"
  shows "q \<noteq> r" "e_parent (ent st q) = Some p" "named (ent st q)"
  using assms by (auto simp: dir_kids_def)

lemma kids_isdir: "q \<in> kids cfg st D p \<Longrightarrow> isdir st p"
  by (auto simp: kids_def split: if_splits)

lemma isdirE:
  assumes "isdir st p"
  obtains es where "p < length (heap st)" "e_entries (ent st p) = Some es"
  using assms by (auto simp: isdir_def)

lemma kids_heap:
  assumes "dir_lists cfg st D" "q \<in> kids cfg st D p"
  shows "q < length (heap st)"
proof -
  obtain es where es: "p < length (heap st)" "e_entries (ent st p) = Some es" by (rule isdirE [OF kids_isdir [OF assms(2)]])
  obtain j where "j < dirhash_size cfg" "q \<in> set (D p j)" using assms(2) by (auto simp: kids_def split: if_splits)
  then show ?thesis using plist_heap [OF dir_listsD(2) [OF assms(1) es]] by blast
qed

text \<open>The search of a directory finds the entry with the name.\<close>

lemma find_append: "find P (xs @ ys) = (case find P xs of None \<Rightarrow> find P ys | Some x \<Rightarrow> Some x)"
  by (induction xs) auto

lemma search_lists_plist:
  "list_all2 (plist e_sibling st) es ds \<Longrightarrow> search_lists P st es = Inr (find (\<lambda>q. P (ent st q)) (concat ds))"
proof (induction es ds rule: list_all2_induct)
  case (Cons e es d ds)
  show ?case
    using Cons search_plist [OF Cons.hyps(1), of P] by (cases "find (\<lambda>q. P (ent st q)) d") (simp_all add: find_append)
qed simp

lemma dir_hash_less: "0 < dirhash_size cfg \<Longrightarrow> dir_hash cfg n < dirhash_size cfg"
  by (simp add: dir_hash_def)

lemma lookup_in_search:
  assumes "tree cfg st D r" "isdir st p"
  shows "lookup_in cfg st n p =
    Inr (case find (\<lambda>q. e_name (ent st q) = n) (D p (dir_hash cfg n)) of Some q \<Rightarrow> Some q
         | None \<Rightarrow> find (\<lambda>q. e_name (ent st q) = n) (concat (map (D p) [0..<dirhash_size cfg])))"
proof -
  obtain es where es: "p < length (heap st)" "e_entries (ent st p) = Some es" by (rule isdirE [OF assms(2)])
  note dl = dir_listsD [OF treeD(5) [OF assms(1)] es]
  have h: "dir_hash cfg n < dirhash_size cfg" by (rule dir_hash_less [OF treeD(1) [OF assms(1)]])
  have "list_all2 (plist e_sibling st) es (map (D p) [0..<dirhash_size cfg])"
    using dl by (simp add: list_all2_conv_all_nth)
  from search_lists_plist [OF this] search_plist [OF dl(2) [OF h]] show ?thesis
    by (auto simp: lookup_in_def es split: option.split)
qed

lemma find_unique:
  assumes "find P xs = Some x" "\<And>y. y \<in> set xs \<Longrightarrow> P y \<Longrightarrow> y = q" shows "x = q"
  using assms by (auto simp: find_Some_iff)

lemma lookup_in_kid:
  assumes t: "tree cfg st D r" and q: "q \<in> kids cfg st D p"
  shows "lookup_in cfg st (e_name (ent st q)) p = Inr (Some q)"
proof -
  have d: "isdir st p" by (rule kids_isdir [OF q])
  have u: "q' = q" if "q' \<in> set (D p j)" "j < dirhash_size cfg" "e_name (ent st q') = e_name (ent st q)" for q' j
  proof -
    have "q' \<in> kids cfg st D p" using that d by (auto simp: kids_def)
    then show ?thesis using that(3) q treeD(6) [OF t] by (auto simp: dir_kids_def dest: inj_onD)
  qed
  obtain j where j: "j < dirhash_size cfg" "q \<in> set (D p j)" using q by (auto simp: kids_def split: if_splits)
  have "find (\<lambda>q'. e_name (ent st q') = e_name (ent st q)) (concat (map (D p) [0..<dirhash_size cfg])) \<noteq> None"
    unfolding find_None_iff using j by fastforce
  then obtain y where y: "find (\<lambda>q'. e_name (ent st q') = e_name (ent st q)) (concat (map (D p) [0..<dirhash_size cfg])) = Some y"
    by auto
  moreover have "y = q" by (rule find_unique [OF y]) (auto intro: u)
  ultimately have "find (\<lambda>q'. e_name (ent st q') = e_name (ent st q)) (concat (map (D p) [0..<dirhash_size cfg])) = Some q"
    by simp
  then show ?thesis
    using dir_hash_less [OF treeD(1) [OF t]]
    by (auto simp: lookup_in_search [OF t d] u split: option.split dest: find_unique [where q = q])
qed

lemma lookup_in_none:
  assumes "tree cfg st D r" "isdir st p" "n \<notin> (\<lambda>q. e_name (ent st q)) ` kids cfg st D p"
  shows "lookup_in cfg st n p = Inr None"
proof -
  have n: "e_name (ent st q) \<noteq> n" if "q \<in> set (D p j)" "j < dirhash_size cfg" for q j
    using that assms(2,3) by (auto simp: kids_def)
  have "find (\<lambda>q. e_name (ent st q) = n) (D p (dir_hash cfg n)) = None"
    "find (\<lambda>q. e_name (ent st q) = n) (concat (map (D p) [0..<dirhash_size cfg])) = None"
    unfolding find_None_iff using n dir_hash_less [OF treeD(1) [OF assms(1)]] by (blast, fastforce)
  then show ?thesis by (simp add: lookup_in_search [OF assms(1,2)])
qed


section \<open>Path names\<close>

inductive path :: "scfg \<Rightarrow> symtab \<Rightarrow> (eptr \<Rightarrow> nat \<Rightarrow> eptr list) \<Rightarrow> eptr \<Rightarrow> eptr \<Rightarrow> byte list list \<Rightarrow> bool"
  for cfg st D r where
  path_root: "path cfg st D r r []"
| path_kid: "path cfg st D r p ns \<Longrightarrow> q \<in> kids cfg st D p \<Longrightarrow> path cfg st D r q (ns @ [e_name (ent st q)])"

inductive_cases path_nilE: "path cfg st D r q []"
inductive_cases path_snocE: "path cfg st D r q (ns @ [n])"

definition spelled :: "byte list list \<Rightarrow> byte list" where
  "spelled ns = concat (map (\<lambda>n. slash # n) ns)"

definition pathname :: "byte list list \<Rightarrow> byte list" where
  "pathname ns = 0x2E # spelled ns"

lemma spelled_simps [simp]: "spelled [] = []" "spelled (n # ns) = slash # n @ spelled ns"
  "spelled (ns @ ms) = spelled ns @ spelled ms"
  by (simp_all add: spelled_def)

lemma path_names:
  "path cfg st D r q ns \<Longrightarrow> tree cfg st D r \<Longrightarrow> n \<in> set ns \<Longrightarrow> name_ok n"
  by (induction rule: path.induct) (auto simp: named_def dest: kidsD(3) [OF treeD(6)])

lemma lookupname_loop_step:
  assumes "name_ok n" "lookup_in cfg st n p = Inr (Some q)" "ms \<noteq> []"
  shows "lookupname_loop cfg st (n @ spelled ms) p = lookupname_loop cfg st (tl (spelled ms)) q"
proof -
  obtain m ms' where ms: "ms = m # ms'" using assms(3) by (cases ms) auto
  have "takeWhile (\<lambda>b. b \<noteq> slash) (n @ spelled ms) = n" "dropWhile (\<lambda>b. b \<noteq> slash) (n @ spelled ms) = slash # tl (spelled ms)"
    using assms(1) by (auto simp: ms name_ok_def takeWhile_append dropWhile_append)
  then show ?thesis using assms(1,2)
    by (subst lookupname_loop.simps) (simp add: name_ok_def MAXPATHLEN_def)
qed

lemma lookupname_loop_last:
  assumes "name_ok n"
  shows "lookupname_loop cfg st n p = lookup_in cfg st n p"
proof -
  have n: "\<forall>b \<in> set n. b \<noteq> slash" "length n < MAXPATHLEN" using assms by (auto simp: name_ok_def MAXPATHLEN_def)
  then have "takeWhile (\<lambda>b. b \<noteq> slash) n = n" "dropWhile (\<lambda>b. b \<noteq> slash) n = []" by simp_all
  then show ?thesis using n(2)
    by (subst lookupname_loop.simps) (simp add: Let_def del: takeWhile_eq_all_conv dropWhile_eq_Nil_conv split: sum.split option.split)
qed

lemma lookupname_loop_path:
  assumes "path cfg st D r p ns" "tree cfg st D r" "ms \<noteq> []"
  shows "lookupname_loop cfg st (tl (spelled (ns @ ms))) r = lookupname_loop cfg st (tl (spelled ms)) p"
  using assms
proof (induction arbitrary: ms rule: path.induct)
  case (path_kid p ns q)
  let ?n = "e_name (ent st q)"
  have ok: "name_ok ?n" using kidsD(3) [OF treeD(6) [OF path_kid.prems(1)] path_kid.hyps(2)] by (simp add: named_def)
  have "lookupname_loop cfg st (tl (spelled (ns @ [?n] @ ms))) r = lookupname_loop cfg st (?n @ spelled ms) p"
    using path_kid.IH [of "?n # ms"] path_kid.prems by simp
  also have "\<dots> = lookupname_loop cfg st (tl (spelled ms)) q"
    by (rule lookupname_loop_step [OF ok lookup_in_kid [OF path_kid.prems(1) path_kid.hyps(2)] path_kid.prems(2)])
  finally show ?case by simp
qed simp

lemma lookupname_pathname:
  assumes "lookupino cfg ROOTINO st = Inr (Some r)"
  shows "lookupname cfg (pathname ns) st = (if tl (spelled ns) = [] then Inr (Some r) else lookupname_loop cfg st (tl (spelled ns)) r)"
  using assms by (cases ns) (simp_all add: lookupname_def pathname_def skip_head_def slash_def)

lemma lookupname_path:
  assumes "path cfg st D r q ns" "tree cfg st D r" "lookupino cfg ROOTINO st = Inr (Some r)"
  shows "lookupname cfg (pathname ns) st = Inr (Some q)"
  using assms(1)
proof cases
  case path_root
  then show ?thesis using lookupname_pathname [OF assms(3), of "[]"] by simp
next
  case (path_kid p ms)
  let ?n = "e_name (ent st q)"
  have ok: "name_ok ?n" using kidsD(3) [OF treeD(6) [OF assms(2)] path_kid(3)] by (simp add: named_def)
  have "lookupname_loop cfg st (tl (spelled (ms @ [?n]))) r = lookupname_loop cfg st ?n p"
    using lookupname_loop_path [OF path_kid(2) assms(2), of "[?n]"] by simp
  then have "lookupname_loop cfg st (tl (spelled ns)) r = Inr (Some q)"
    using lookup_in_kid [OF assms(2) path_kid(3)] lookupname_loop_last [OF ok] path_kid(1) by simp
  moreover have "tl (spelled ns) \<noteq> []" using ok path_kid(1) by (cases ms) (auto simp: name_ok_def)
  ultimately show ?thesis by (simp add: lookupname_pathname [OF assms(3)])
qed

lemma namlen: "named e \<Longrightarrow> unat (e_namlen e) = length (e_name e)"
  by (simp add: named_def name_ok_def unat_of_nat take_bit_nat_eq_self)

lemma myname_loop_path:
  assumes "path cfg st D r q ns" "tree cfg st D r" "lookupino cfg ROOTINO st = Inr (Some r)"
    and "pos > length (spelled ns) + 1"
  shows "myname_loop cfg st pos acc q = Inr (pathname ns @ acc)"
  using assms
proof (induction arbitrary: pos acc rule: path.induct)
  case path_root
  then show ?case using treeD(3,4) [OF path_root.prems(1)]
    by (subst myname_loop.simps) (simp add: pathname_def)
next
  case (path_kid p ns q)
  let ?n = "e_name (ent st q)"
  note k = kidsD [OF treeD(6) [OF path_kid.prems(1)] path_kid.hyps(2)]
  have "myname_loop cfg st (pos - length ?n - 1) (slash # ?n @ acc) p = Inr (pathname ns @ slash # ?n @ acc)"
    by (rule path_kid.IH) (use path_kid.prems in auto)
  then show ?case using k path_kid.prems namlen [OF k(3)]
    by (subst myname_loop.simps) (simp add: pathname_def)
qed

lemma myname_path:
  assumes "path cfg st D r q ns" "tree cfg st D r" "lookupino cfg ROOTINO st = Inr (Some r)"
    and "length (pathname ns) < MAXPATHLEN - 2"
  shows "myname cfg st q = Inr (pathname ns)"
  using myname_loop_path [OF assms(1,2,3), of "MAXPATHLEN - 2" "[]"] assms(4)
  by (simp add: myname_def pathname_def)

lemma path_unique:
  assumes "path cfg st D r q ns" "path cfg st D r q ms" "tree cfg st D r"
  shows "ns = ms"
  using assms
proof (induction arbitrary: ms rule: path.induct)
  case path_root
  from path_root.prems(1) show ?case
    by cases (use kidsD(1) [OF treeD(6) [OF path_root.prems(2)]] in auto)
next
  case (path_kid p ns q)
  note k = kidsD [OF treeD(6) [OF path_kid.prems(2)]]
  from path_kid.prems(1) show ?case
  proof cases
    case path_root
    then show ?thesis using k(1) [OF path_kid.hyps(2)] by simp
  next
    case (path_kid p' ms')
    then have "p' = p" using k(2) [OF \<open>q \<in> kids cfg st D p\<close>] k(2) by simp
    then show ?thesis using path_kid path_kid.IH [of ms'] \<open>tree cfg st D r\<close> by simp
  qed
qed

section \<open>Changes of the heap\<close>

lemma upd_keep: "(\<And>e. g (f e) = g e) \<Longrightarrow> g (ent (upd f p st) q) = g (ent st q)"
  by (cases "p < length (heap st)"; cases "p = q") (simp_all add: upd_def list_update_beyond)

definition tree_part :: "entry \<Rightarrow> byte list \<times> byte \<times> eptr option \<times> eptr option \<times> eptr option list option" where
  "tree_part e = (e_name e, e_namlen e, e_parent e, e_sibling e, e_entries e)"

lemma tree_partD:
  assumes "tree_part e = tree_part e'"
  shows "e_name e = e_name e'" "e_namlen e = e_namlen e'" "e_parent e = e_parent e'" "e_sibling e = e_sibling e'"
    "e_entries e = e_entries e'" "named e = named e'"
  using assms by (auto simp: tree_part_def named_def)

text \<open>The fields that the lists of the tree and of the table by number do not use.\<close>

definition fixed_part :: "entry \<Rightarrow> byte \<times> u16 \<times> eptr option \<times> byte list \<times> bool" where
  "fixed_part e = (e_type e, e_flags e, e_links e, e_name e, e_entries e = None)"

lemma fixed_partD:
  assumes "fixed_part e = fixed_part e'"
  shows "e_type e = e_type e'" "e_flags e = e_flags e'" "e_links e = e_links e'" "e_name e = e_name e'"
    "(e_entries e = None) = (e_entries e' = None)"
  using assms by (auto simp: fixed_part_def)

lemma fixed_part_upd:
  "fixed_part (ent (upd (\<lambda>e. e\<lparr>e_sibling := v\<rparr>) p st) x) = fixed_part (ent st x)"
  "fixed_part (ent (upd (\<lambda>e. e\<lparr>e_next := v\<rparr>) p st) x) = fixed_part (ent st x)"
  "fixed_part (ent (upd (\<lambda>e. e\<lparr>e_parent := v\<rparr>) p st) x) = fixed_part (ent st x)"
  by (rule upd_keep, simp add: fixed_part_def)+

lemma fixed_part_lists:
  assumes "e_entries (ent st p) \<noteq> None"
  shows "fixed_part (ent (upd (\<lambda>e. e\<lparr>e_entries := Some es\<rparr>) p st) x) = fixed_part (ent st x)"
  using assms by (cases "x = p"; cases "p < length (heap st)") (auto simp: upd_def fixed_part_def list_update_beyond)

lemma kids_in:
  "dir_lists cfg st D \<Longrightarrow> p < length (heap st) \<Longrightarrow> e_entries (ent st p) = Some es \<Longrightarrow> j < dirhash_size cfg
    \<Longrightarrow> q \<in> set (D p j) \<Longrightarrow> q \<in> kids cfg st D p"
  by (auto simp: kids_def isdir_def)

text \<open>An entry that the tree does not use may change, and a new one may be added.\<close>

lemma tree_outside:
  assumes t: "tree cfg st D r" and np: "np \<noteq> r" "\<And>p. np \<notin> kids cfg st D p" "kids cfg st D np = {}"
    and len: "length (heap st) \<le> length (heap st')" "\<And>q. q < length (heap st') \<Longrightarrow> q < length (heap st) \<or> q = np"
    and same: "\<And>q. q < length (heap st) \<Longrightarrow> q \<noteq> np \<Longrightarrow> tree_part (ent st' q) = tree_part (ent st q)"
    and ens: "e_entries (ent st' np) = None \<or> e_entries (ent st' np) = Some (replicate (dirhash_size cfg) None)"
  shows "tree cfg st' (D(np := \<lambda>_. [])) r" "kids cfg st' (D(np := \<lambda>_. [])) = kids cfg st D"
proof -
  let ?D = "D(np := \<lambda>_. [])"
  note td = treeD [OF t]
  have dl: "dir_lists cfg st' ?D"
    unfolding dir_lists_def
  proof (intro allI impI)
    fix p es assume p: "p < length (heap st')" "e_entries (ent st' p) = Some es"
    show "length es = dirhash_size cfg \<and> (\<forall>j < dirhash_size cfg. plist e_sibling st' (es ! j) (?D p j))"
    proof (cases "p = np")
      case True
      then show ?thesis using ens p by auto
    next
      case False
      have p': "p < length (heap st)" "e_entries (ent st p) = Some es"
        using False p len(2) same tree_partD(5) by (metis, metis)
      have "plist e_sibling st' (es ! j) (D p j)" if j: "j < dirhash_size cfg" for j
      proof (rule plist_cong [OF dir_listsD(2) [OF td(5) p' j]])
        fix q assume "q \<in> set (D p j)"
        then have q: "q \<in> kids cfg st D p" by (rule kids_in [OF td(5) p' j])
        then show "q < length (heap st') \<and> e_sibling (ent st' q) = e_sibling (ent st q)"
          using kids_heap [OF td(5) q] np(2) len(1) tree_partD(4) [OF same] by (metis order_less_le_trans)
      qed
      then show ?thesis using False dir_listsD(1) [OF td(5) p'] by simp
    qed
  qed
  have "kids cfg st' ?D p = kids cfg st D p" for p
  proof (cases "p = np")
    case True
    then show ?thesis using np(3) by (simp add: kids_def)
  next
    case False
    then have "isdir st' p \<longleftrightarrow> isdir st p"
      using len same tree_partD(5) unfolding isdir_def by (metis order_less_le_trans)
    then show ?thesis using False by (simp add: kids_def)
  qed
  then show k: "kids cfg st' ?D = kids cfg st D" by blast
  have r: "tree_part (ent st' r) = tree_part (ent st r)" by (rule same) (use np(1) td(2) isdir_def in auto)
  have kp: "tree_part (ent st' q) = tree_part (ent st q)" if "q \<in> kids cfg st D p" for p q
    using that np(2) kids_heap [OF td(5) that] same by metis
  have dk: "dir_kids cfg st' ?D r"
    unfolding dir_kids_def k
  proof (intro conjI allI ballI)
    fix p q assume q: "q \<in> kids cfg st D p"
    show "q \<noteq> r" "e_parent (ent st' q) = Some p" "named (ent st' q)"
      using kidsD [OF td(6) q] tree_partD [OF kp [OF q]] by auto
  next
    fix p
    have "inj_on (\<lambda>q. e_name (ent st q)) (kids cfg st D p)" using td(6) by (simp add: dir_kids_def)
    then show "inj_on (\<lambda>q. e_name (ent st' q)) (kids cfg st D p)"
      by (rule inj_on_cong [THEN iffD1, rotated]) (use tree_partD(1) [OF kp] in auto)
  qed
  have "one_list cfg st' ?D"
    unfolding one_list_def
  proof (intro allI impI)
    fix p j k q assume a: "isdir st' p" "j < dirhash_size cfg" "k < dirhash_size cfg" "q \<in> set (?D p j)" "q \<in> set (?D p k)"
    have p: "p \<noteq> np" using a(4) by auto
    then have "isdir st p" using a(1) len same tree_partD(5) unfolding isdir_def by metis
    then show "j = k" using one_listD [OF td(7) _ a(2,3), of p q] a(4,5) p by simp
  qed
  then show "tree cfg st' ?D r"
    by (intro treeI) (use td tree_partD [OF r] dl dk len in \<open>auto simp: isdir_def\<close>)
qed

text \<open>A change of other fields.\<close>

lemma tree_same:
  assumes t: "tree cfg st D r" and len: "length (heap st') = length (heap st)"
    and same: "\<And>q. tree_part (ent st' q) = tree_part (ent st q)"
  shows "tree cfg st' D r" "kids cfg st' D = kids cfg st D"
proof -
  note td = treeD [OF t] and s = tree_partD [OF same]
  have i: "isdir st' = isdir st" by (simp add: isdir_def fun_eq_iff len s)
  then show k: "kids cfg st' D = kids cfg st D" by (simp add: kids_def fun_eq_iff)
  have "dir_lists cfg st' D"
    unfolding dir_lists_def len s
  proof (intro allI impI conjI)
    fix p es j assume p: "p < length (heap st)" "e_entries (ent st p) = Some es"
    show "length es = dirhash_size cfg" by (rule dir_listsD(1) [OF td(5) p])
    assume j: "j < dirhash_size cfg"
    have pl: "plist e_sibling st (es ! j) (D p j)" by (rule dir_listsD(2) [OF td(5) p j])
    show "plist e_sibling st' (es ! j) (D p j)" by (rule plist_cong [OF pl]) (use plist_heap [OF pl] len s in metis)
  qed
  moreover have "dir_kids cfg st' D r" using td(6) unfolding dir_kids_def k s .
  moreover have "one_list cfg st' D" using td(7) unfolding one_list_def i .
  ultimately show "tree cfg st' D r" by (intro treeI) (use td in \<open>auto simp: i s\<close>)
qed

text \<open>An entry outside the tree becomes an entry of a directory.\<close>

lemma tree_insert:
  assumes t: "tree cfg st D r" and np: "np \<noteq> r" "\<And>p. np \<notin> kids cfg st D p" "np < length (heap st)"
    and p: "p \<noteq> np" "p < length (heap st)" "e_entries (ent st p) = Some es"
    and k: "k < dirhash_size cfg" and n: "named (ent st np)" "e_parent (ent st np) = Some p"
      "e_name (ent st np) \<notin> (\<lambda>q. e_name (ent st q)) ` kids cfg st D p"
    and st': "st' = upd (\<lambda>e. e\<lparr>e_entries := Some (es[k := Some np])\<rparr>) p (upd (\<lambda>e. e\<lparr>e_sibling := es ! k\<rparr>) np st)"
  shows "tree cfg st' (D(p := (D p)(k := np # D p k))) r"
    "kids cfg st' (D(p := (D p)(k := np # D p k))) = (kids cfg st D)(p := insert np (kids cfg st D p))"
proof -
  let ?D = "D(p := (D p)(k := np # D p k))" and ?K = "(kids cfg st D)(p := insert np (kids cfg st D p))"
  note td = treeD [OF t]
  have len: "length (heap st') = length (heap st)" by (simp add: st')
  have other: "ent st' q = ent st q" if "q \<noteq> np" "q \<noteq> p" for q using that by (simp add: st')
  have enp: "ent st' np = (ent st np)\<lparr>e_sibling := es ! k\<rparr>" using np(3) p(1) by (simp add: st')
  have ep: "ent st' p = (ent st p)\<lparr>e_entries := Some (es[k := Some np])\<rparr>" using p(1,2) by (simp add: st')
  have f: "e_name (ent st' q) = e_name (ent st q)" "e_namlen (ent st' q) = e_namlen (ent st q)"
      "e_parent (ent st' q) = e_parent (ent st q)" "named (ent st' q) = named (ent st q)" for q
  proof -
    consider "q = np" | "q = p" | "q \<noteq> np" "q \<noteq> p" by blast
    then have "e_name (ent st' q) = e_name (ent st q) \<and> e_namlen (ent st' q) = e_namlen (ent st q)
      \<and> e_parent (ent st' q) = e_parent (ent st q)"
      by cases (simp_all add: enp ep other)
    then show "e_name (ent st' q) = e_name (ent st q)" "e_namlen (ent st' q) = e_namlen (ent st q)"
      "e_parent (ent st' q) = e_parent (ent st q)" "named (ent st' q) = named (ent st q)"
      by (simp_all add: named_def)
  qed
  have sib: "e_sibling (ent st' q) = e_sibling (ent st q)" if "q \<noteq> np" for q
    using other [of q] that by (cases "q = p") (simp_all add: ep)
  have isd: "isdir st' q \<longleftrightarrow> isdir st q" for q
  proof -
    have "isdir st' p" "isdir st p" using p by (simp_all add: isdir_def len ep)
    moreover have "isdir st' np = isdir st np" by (simp add: isdir_def len enp)
    ultimately show ?thesis using other [of q] by (metis isdir_def len)
  qed
  have keep: "plist e_sibling st' x (D q j)"
    if "plist e_sibling st x (D q j)" "q < length (heap st)" "e_entries (ent st q) = Some es'" "j < dirhash_size cfg" for x q j es'
  proof (rule plist_cong [OF that(1)])
    fix z assume z: "z \<in> set (D q j)"
    then have "z \<noteq> np" using kids_in [OF td(5) that(2-4) z] np(2) by auto
    then show "z < length (heap st') \<and> e_sibling (ent st' z) = e_sibling (ent st z)"
      using sib plist_heap [OF that(1) z] len by auto
  qed
  have dl: "dir_lists cfg st' ?D"
    unfolding dir_lists_def
  proof (intro allI impI)
    fix q es' assume q: "q < length (heap st')" "e_entries (ent st' q) = Some es'"
    show "length es' = dirhash_size cfg \<and> (\<forall>j < dirhash_size cfg. plist e_sibling st' (es' ! j) (?D q j))"
    proof (cases "q = p")
      case True
      have es': "es' = es[k := Some np]" using q(2) ep True by simp
      have L: "length es = dirhash_size cfg" by (rule dir_listsD(1) [OF td(5) p(2,3)])
      have pl: "plist e_sibling st' (es ! j) (D p j)" if "j < dirhash_size cfg" for j
        by (rule keep [OF dir_listsD(2) [OF td(5) p(2,3) that] p(2,3) that])
      have "plist e_sibling st' (es' ! j) (((D p)(k := np # D p k)) j)" if "j < dirhash_size cfg" for j
        using pl [OF that] enp np(3) L k len by (cases "j = k") (simp_all add: es')
      then show ?thesis using True L by (simp add: es')
    next
      case False
      consider "q = np" | "q \<noteq> np" by blast
      then have "e_entries (ent st' q) = e_entries (ent st q)" by cases (simp_all add: enp other False)
      then have q': "q < length (heap st)" "e_entries (ent st q) = Some es'" using q by (simp_all add: len)
      show ?thesis using False dir_listsD [OF td(5) q'] keep [OF _ q'] by simp
    qed
  qed
  have "kids cfg st' ?D q = ?K q" for q
  proof (cases "q = p")
    case True
    have "isdir st p" using p by (simp add: isdir_def)
    then show ?thesis using True k by (auto simp: kids_def isd split: if_splits)
  qed (simp add: kids_def isd)
  then show K: "kids cfg st' ?D = ?K" by blast
  have dk: "dir_kids cfg st' ?D r"
    unfolding dir_kids_def K f
  proof (intro conjI allI ballI)
    fix x q assume q: "q \<in> ?K x"
    show "q \<noteq> r" "e_parent (ent st q) = Some x" "named (ent st q)"
      using q kidsD [OF td(6), of q x] np(1) n(1,2) by (auto split: if_splits)
  next
    fix x show "inj_on (\<lambda>q. e_name (ent st q)) (?K x)"
      using td(6) n(3) by (auto simp: dir_kids_def)
  qed
  have "one_list cfg st' ?D"
    unfolding one_list_def isd
  proof (intro allI impI)
    fix x i j q assume a: "isdir st x" "i < dirhash_size cfg" "j < dirhash_size cfg" "q \<in> set (?D x i)" "q \<in> set (?D x j)"
    have n: "np \<notin> set (D x l)" if "l < dirhash_size cfg" for l using np(2) [of x] a(1) that by (auto simp: kids_def)
    show "i = j"
      using a(4,5) n [OF a(2)] n [OF a(3)] one_listD [OF td(7) a(1-3), of q] by (auto split: if_splits)
  qed
  then show "tree cfg st' ?D r"
    by (intro treeI) (use td dl dk in \<open>auto simp: isd f\<close>)
qed

lemma path_insert:
  assumes t: "tree cfg st D r" and p: "path cfg st D r p ns" and np: "np \<noteq> r" "\<And>x. np \<notin> kids cfg st D x" "kids cfg st D np = {}" "p \<noteq> np"
    and K: "kids cfg st' D' = (kids cfg st D)(p := insert np (kids cfg st D p))"
    and names: "\<And>q. e_name (ent st' q) = e_name (ent st q)"
  shows "path cfg st' D' r q ms \<longleftrightarrow> path cfg st D r q ms \<or> q = np \<and> ms = ns @ [e_name (ent st np)]"
proof
  assume "path cfg st' D' r q ms"
  then show "path cfg st D r q ms \<or> q = np \<and> ms = ns @ [e_name (ent st np)]"
  proof (induction rule: path.induct)
    case (path_kid x ms q)
    have x: "x \<noteq> np" using path_kid.hyps(2) np(3,4) by (auto simp: K)
    then have px: "path cfg st D r x ms" using path_kid.IH by auto
    show ?case
    proof (cases "q \<in> kids cfg st D x")
      case True
      then show ?thesis using path.path_kid [OF px True] by (simp add: names)
    next
      case False
      then have "x = p" "q = np" using path_kid.hyps(2) by (auto simp: K split: if_splits)
      then show ?thesis using path_unique [OF px _ t] p by (auto simp: names)
    qed
  qed (auto intro: path.intros)
next
  have old: "path cfg st' D' r q ms" if "path cfg st D r q ms" for q ms
    using that
  proof (induction rule: path.induct)
    case (path_kid x ms q)
    then have "q \<in> kids cfg st' D' x" by (auto simp: K)
    from path.path_kid [OF path_kid.IH this] show ?case by (simp add: names)
  qed (rule path.path_root)
  assume "path cfg st D r q ms \<or> q = np \<and> ms = ns @ [e_name (ent st np)]"
  then show "path cfg st' D' r q ms"
  proof
    assume "q = np \<and> ms = ns @ [e_name (ent st np)]"
    moreover have "np \<in> kids cfg st' D' p" by (simp add: K)
    ultimately show ?thesis using path.path_kid [OF old [OF p], of np] by (simp add: names)
  qed (rule old)
qed

section \<open>The whole table\<close>

text \<open>The free entries are in neither structure.\<close>

definition spare :: "scfg \<Rightarrow> symtab \<Rightarrow> (eptr \<Rightarrow> nat \<Rightarrow> eptr list) \<Rightarrow> eptr \<Rightarrow> (dump_ino_t \<Rightarrow> eptr option) \<Rightarrow> eptr \<Rightarrow> bool" where
  "spare cfg st D r M f \<longleftrightarrow> f \<noteq> r \<and> (\<forall>p. f \<notin> kids cfg st D p) \<and> kids cfg st D f = {} \<and> f \<notin> ran M"

definition symtab_ok :: "scfg \<Rightarrow> symtab \<Rightarrow> (eptr \<Rightarrow> nat \<Rightarrow> eptr list) \<Rightarrow> eptr \<Rightarrow> (dump_ino_t \<Rightarrow> eptr option) \<Rightarrow> bool" where
  "symtab_ok cfg st D r M \<longleftrightarrow> tree cfg st D r \<and> ino_map cfg st M \<and> M ROOTINO = Some r
     \<and> (\<exists>F. plist e_next st (freelist st) F \<and> (\<forall>f \<in> set F. spare cfg st D r M f))"

lemma symtab_okI:
  "tree cfg st D r \<Longrightarrow> ino_map cfg st M \<Longrightarrow> M ROOTINO = Some r \<Longrightarrow> plist e_next st (freelist st) F
    \<Longrightarrow> (\<And>f. f \<in> set F \<Longrightarrow> spare cfg st D r M f) \<Longrightarrow> symtab_ok cfg st D r M"
  by (auto simp: symtab_ok_def)

lemma symtab_okD:
  assumes "symtab_ok cfg st D r M"
  shows "tree cfg st D r" "ino_map cfg st M" "M ROOTINO = Some r"
  using assms by (auto simp: symtab_ok_def)

lemma symtab_ok_root: "symtab_ok cfg st D r M \<Longrightarrow> lookupino cfg ROOTINO st = Inr (Some r)"
  using lookupino_map symtab_okD(2,3) by metis

text \<open>A change outside the chains.\<close>

lemma ino_map_frame:
  assumes m: "ino_map cfg st M" and t: "entry_tbl st' = entry_tbl st" and len: "length (heap st) \<le> length (heap st')"
    and same: "\<And>q. q \<in> ran M \<Longrightarrow> e_ino (ent st' q) = e_ino (ent st q) \<and> e_next (ent st' q) = e_next (ent st q)"
  shows "ino_map cfg st' M"
proof -
  obtain C where c: "ino_chains cfg st C" and M: "M = ino_entry cfg st C" using m by (auto simp: ino_map_def)
  have s: "slot i st' = slot i st" for i by (simp add: slot_def t)
  have e: "e_ino (ent st' q) = e_ino (ent st q)" "e_next (ent st' q) = e_next (ent st q)"
    if "k < length (entry_tbl st)" "q \<in> set (C k)" for k q
    using same [of q] ino_entry_chain [OF c that] by (auto simp: M ran_def)
  have c': "ino_chains cfg st' C"
    unfolding ino_chains_def t
  proof (intro conjI allI impI)
    show "0 < length (entry_tbl st)" using c by (simp add: ino_chains_def)
    fix k assume k: "k < length (entry_tbl st)"
    note ch = ino_chainsD [OF c k]
    show "plist e_next st' (entry_tbl st ! k) (C k)"
      by (rule plist_cong [OF ch(1)]) (use plist_heap [OF ch(1)] e [OF k] len in force)
    show "\<forall>q \<in> set (C k). in_table cfg (e_ino (ent st' q)) \<and> slot (e_ino (ent st' q)) st' = k"
      using ch(2) e(1) [OF k] by (simp add: s)
    have "map (\<lambda>q. e_ino (ent st' q)) (C k) = map (\<lambda>q. e_ino (ent st q)) (C k)" using e(1) [OF k] by simp
    then show "distinct (map (\<lambda>q. e_ino (ent st' q)) (C k))" using ch(3) by (simp del: map_eq_conv)
  qed
  have "ino_entry cfg st' C = M"
  proof
    fix i
    have "find (\<lambda>q. e_ino (ent st' q) = i) (C (slot i st)) = find (\<lambda>q. e_ino (ent st q) = i) (C (slot i st))"
      by (rule find_cong [OF refl]) (simp add: e(1) [OF slot_less [OF c]])
    then show "ino_entry cfg st' C i = M i" by (simp add: ino_entry_def M s)
  qed
  then show ?thesis using c' by (auto simp: ino_map_def)
qed

text \<open>The new entry: a free one or one at the end of the heap.\<close>

lemma alloc_entry_ok:
  assumes ok: "symtab_ok cfg st D r M"
  obtains np st1 F where "alloc_entry st = (np, st1)" "spare cfg st D r M np" "np < length (heap st1)"
    "length (heap st) \<le> length (heap st1)" "\<And>q. q < length (heap st1) \<Longrightarrow> q < length (heap st) \<or> q = np"
    "\<And>q. q < length (heap st) \<Longrightarrow> q \<noteq> np \<Longrightarrow> ent st1 q = ent st q" "ent st1 np = zero_entry"
    "entry_tbl st1 = entry_tbl st" "plist e_next st1 (freelist st1) F" "np \<notin> set F"
    "\<And>f. f \<in> set F \<Longrightarrow> f < length (heap st) \<and> spare cfg st D r M f"
proof -
  note t = symtab_okD(1) [OF ok] and m = symtab_okD(2) [OF ok]
  obtain F where F: "plist e_next st (freelist st) F" "\<And>f. f \<in> set F \<Longrightarrow> spare cfg st D r M f"
    using ok by (auto simp: symtab_ok_def)
  show thesis
  proof (cases "freelist st")
    case None
    let ?np = "length (heap st)"
    have "?np \<noteq> r" "kids cfg st D ?np = {}" using treeD(2) [OF t] by (auto simp: isdir_def kids_def)
    moreover have "?np \<notin> kids cfg st D p" for p using kids_heap [OF treeD(5) [OF t], of ?np p] by auto
    moreover have "?np \<notin> ran M" using ino_map_Some(1) [OF m, of _ ?np] by (auto simp: ran_def)
    ultimately have sp: "spare cfg st D r M ?np" by (simp add: spare_def)
    let ?st = "st\<lparr>heap := heap st @ [zero_entry]\<rparr>"
    show thesis
    proof (rule that [of ?np ?st "[]"])
      show "alloc_entry st = (?np, ?st)" by (simp add: alloc_entry_def None)
      show "plist e_next ?st (freelist ?st) []" using None by simp
    qed (use sp in \<open>auto simp: nth_append\<close>)
  next
    case (Some np)
    then obtain F' where F': "F = np # F'" using F(1) by (cases F) auto
    have np: "np < length (heap st)" "plist e_next st (e_next (ent st np)) F'" "np \<notin> set F'"
      using F(1) plist_distinct [OF F(1)] by (auto simp: F')
    let ?st = "(upd (\<lambda>_. zero_entry) np st)\<lparr>freelist := e_next (ent st np)\<rparr>"
    have "plist e_next ?st (e_next (ent st np)) F'"
    proof (rule plist_cong [OF np(2)])
      fix q assume q: "q \<in> set F'"
      then have "np \<noteq> q" using np(3) by auto
      then show "q < length (heap ?st) \<and> e_next (ent ?st q) = e_next (ent st q)"
        using plist_heap [OF np(2) q] by (simp add: upd_def)
    qed
    then show thesis
      by (intro that [of np ?st F']) (use np F plist_heap [OF np(2)] in \<open>auto simp: alloc_entry_def Some F' upd_def\<close>)
  qed
qed

lemma split_last_name: "name_ok n \<Longrightarrow> split_last (d @ slash # n) = Some (d, n)"
proof -
  assume "name_ok n"
  then have "\<forall>b \<in> set (rev n). b \<noteq> slash" by (auto simp: name_ok_def)
  then have "takeWhile (\<lambda>b. b \<noteq> slash) (rev n @ slash # rev d) = rev n"
    "dropWhile (\<lambda>b. b \<noteq> slash) (rev n @ slash # rev d) = slash # rev d"
    by (simp_all add: takeWhile_append dropWhile_append)
  then show ?thesis by (simp add: split_last_def)
qed

lemma lookupparent_path:
  assumes ok: "tree cfg st D r" "lookupino cfg ROOTINO st = Inr (Some r)"
    and p: "path cfg st D r p ns" "e_type (ent st p) = NODE" and n: "name_ok n"
  shows "lookupparent cfg (pathname ns @ slash # n) st = Inr (Some p)"
  using lookupname_path [OF p(1) ok] p(2) by (simp add: lookupparent_def split_last_name [OF n])

lemma path_same:
  assumes K: "kids cfg st' D' = kids cfg st D" and names: "\<And>q p. q \<in> kids cfg st D p \<Longrightarrow> e_name (ent st' q) = e_name (ent st q)"
  shows "path cfg st' D' r = path cfg st D r"
proof -
  have a: "path cfg st' D' r q ns" if "path cfg st D r q ns" for q ns
    using that
  proof (induction rule: path.induct)
    case (path_kid p ns q)
    then have "q \<in> kids cfg st' D' p" by (simp add: K)
    from path.path_kid [OF path_kid.IH this] show ?case by (simp add: names [OF path_kid.hyps(2)])
  qed (rule path.path_root)
  have b: "path cfg st D r q ns" if "path cfg st' D' r q ns" for q ns
    using that
  proof (induction rule: path.induct)
    case (path_kid p ns q)
    then have q: "q \<in> kids cfg st D p" by (simp add: K)
    from path.path_kid [OF path_kid.IH q] show ?case by (simp add: names [OF q])
  qed (rule path.path_root)
  show ?thesis using a b by (intro ext iffI) auto
qed

lemma path_isdir: "path cfg st D r q ns \<Longrightarrow> tree cfg st D r \<Longrightarrow> q < length (heap st)"
  by (induction rule: path.induct) (auto simp: isdir_def dest: treeD(2) kids_heap [OF treeD(5)])

end
