(* ===== verification/Symtab_Ops.thy ===== *)
theory Symtab_Ops
  imports Symtab_Tree
begin

text \<open>
  What \<open>addentry\<close>, \<open>freeentry\<close> and \<open>initsymtable\<close> do to the tree and to the table by number, and the
  properties of the symbol table.
\<close>

definition new_entry :: "scfg \<Rightarrow> byte \<Rightarrow> eptr \<Rightarrow> symtab \<Rightarrow> symtab" where
  "new_entry cfg ty np st =
     (let st = upd (\<lambda>e. e\<lparr>e_type := ty AND NOT LINK\<rparr>) np st
      in if ty AND NODE \<noteq> 0
         then upd (\<lambda>e. e\<lparr>e_entries := Some (replicate (dirhash_size cfg) None)\<rparr>) np st else st)"

lemma new_entry_simps [simp]:
  "length (heap (new_entry cfg ty np st)) = length (heap st)" "entry_tbl (new_entry cfg ty np st) = entry_tbl st"
  "freelist (new_entry cfg ty np st) = freelist st" "q \<noteq> np \<Longrightarrow> ent (new_entry cfg ty np st) q = ent st q"
  "np < length (heap st) \<Longrightarrow> ent (new_entry cfg ty np st) np =
     (ent st np)\<lparr>e_type := ty AND NOT LINK, e_entries := (if ty AND NODE \<noteq> 0
        then Some (replicate (dirhash_size cfg) None) else e_entries (ent st np))\<rparr>"
  by (simp_all add: new_entry_def Let_def)

lemma path_reached:
  assumes "path cfg st D r p ns" shows "p = r \<or> (\<exists>x. p \<in> kids cfg st D x)"
  using assms by cases auto

lemma spare_outside:
  assumes "tree cfg st D r" "spare cfg st D r M np"
    and "length (heap st) \<le> length (heap st')" "\<And>q. q < length (heap st') \<Longrightarrow> q < length (heap st) \<or> q = np"
    and "\<And>q. q < length (heap st) \<Longrightarrow> q \<noteq> np \<Longrightarrow> ent st' q = ent st q"
    and "e_entries (ent st' np) = None \<or> e_entries (ent st' np) = Some (replicate (dirhash_size cfg) None)"
  shows "tree cfg st' (D(np := \<lambda>_. [])) r" "kids cfg st' (D(np := \<lambda>_. [])) = kids cfg st D"
    "path cfg st' (D(np := \<lambda>_. [])) r = path cfg st D r"
proof -
  have np: "np \<noteq> r" "\<And>p. np \<notin> kids cfg st D p" "kids cfg st D np = {}" using assms(2) by (auto simp: spare_def)
  show "tree cfg st' (D(np := \<lambda>_. [])) r" and k: "kids cfg st' (D(np := \<lambda>_. [])) = kids cfg st D"
    by (rule tree_outside [OF assms(1) np assms(3,4)]; use assms(5,6) in simp)+
  show "path cfg st' (D(np := \<lambda>_. [])) r = path cfg st D r"
    by (rule path_same [OF k]) (metis assms(5) kids_heap [OF treeD(5) [OF assms(1)]] np(2))
qed

text \<open>What \<open>addentry\<close> does to the structures before the inode number.\<close>

lemma enter_tree:
  assumes ok: "symtab_ok cfg st D r M"
    and p: "path cfg st D r p ns" "e_type (ent st p) = NODE" "isdir st p"
    and n: "name_ok n" "n \<notin> (\<lambda>q. e_name (ent st q)) ` kids cfg st D p"
  obtains np st1 st3 st4 D' F where "alloc_entry st = (np, st1)"
    "lookupparent cfg (pathname ns @ slash # n) (new_entry cfg ty np st1) = Inr (Some p)"
    "st3 = upd (\<lambda>e. (set_name n e)\<lparr>e_parent := Some p\<rparr>) np (new_entry cfg ty np st1)"
    "insert_entry cfg p np st3 = Inr st4" "np < length (heap st4)" "np \<notin> ran M"
    "np \<noteq> p" "kids cfg st D np = {}" "tree cfg st4 D' r" "ino_map cfg st4 M" "plist e_next st4 (freelist st4) F" "np \<notin> set F"
    "\<And>f. f \<in> set F \<Longrightarrow> f < length (heap st) \<and> spare cfg st D r M f \<and> f \<noteq> p"
    "kids cfg st4 D' = (kids cfg st D)(p := insert np (kids cfg st D p))"
    "\<And>q ms. path cfg st4 D' r q ms \<longleftrightarrow> path cfg st D r q ms \<or> q = np \<and> ms = ns @ [n]"
    "e_type (ent st4 np) = ty AND NOT LINK" "e_name (ent st4 np) = n" "e_links (ent st4 np) = None"
    "ty AND NODE = 0 \<Longrightarrow> e_entries (ent st4 np) = None"
    "\<And>q. q < length (heap st) \<Longrightarrow> q \<noteq> np \<Longrightarrow> fixed_part (ent st4 q) = fixed_part (ent st q)
      \<and> e_ino (ent st4 q) = e_ino (ent st q) \<and> e_next (ent st4 q) = e_next (ent st q)"
    "length (heap st) \<le> length (heap st4)" "e_flags (ent st4 np) = 0" "np \<noteq> r" "\<And>x. np \<notin> kids cfg st D x"
    "ty AND NODE \<noteq> 0 \<Longrightarrow> e_entries (ent st4 np) \<noteq> None"
proof -
  note t = symtab_okD(1) [OF ok] and m = symtab_okD(2) [OF ok]
  obtain np st1 F where a: "alloc_entry st = (np, st1)" "spare cfg st D r M np" "np < length (heap st1)"
    "length (heap st) \<le> length (heap st1)" "\<And>q. q < length (heap st1) \<Longrightarrow> q < length (heap st) \<or> q = np"
    "\<And>q. q < length (heap st) \<Longrightarrow> q \<noteq> np \<Longrightarrow> ent st1 q = ent st q" "ent st1 np = zero_entry"
    "entry_tbl st1 = entry_tbl st" "plist e_next st1 (freelist st1) F" "np \<notin> set F"
    "\<And>f. f \<in> set F \<Longrightarrow> f < length (heap st) \<and> spare cfg st D r M f"
    by (rule alloc_entry_ok [OF ok]) blast
  define D2 where "D2 = D(np := \<lambda>_. [])"
  define st2 where "st2 = new_entry cfg ty np st1"
  define st3 where "st3 = upd (\<lambda>e. (set_name n e)\<lparr>e_parent := Some p\<rparr>) np st2"
  have np: "np \<noteq> r" "\<And>x. np \<notin> kids cfg st D x" "kids cfg st D np = {}" "np \<notin> ran M" using a(2) by (auto simp: spare_def)
  have pnp: "p \<noteq> np" using path_reached [OF p(1)] np(1,2) by auto
  have e2: "ent st2 np = zero_entry\<lparr>e_type := ty AND NOT LINK, e_entries := (if ty AND NODE \<noteq> 0
        then Some (replicate (dirhash_size cfg) None) else None)\<rparr>"
    using a(3,7) by (simp add: st2_def zero_entry_def)
  have e3: "ent st3 np = (ent st2 np)\<lparr>e_name := n, e_namlen := of_nat (length n), e_parent := Some p\<rparr>"
    using a(3) by (simp add: st3_def st2_def set_name_def)
  have l2: "length (heap st2) = length (heap st1)" "length (heap st3) = length (heap st1)" by (simp_all add: st3_def st2_def)
  have o2: "ent st2 q = ent st1 q" "ent st3 q = ent st1 q" if "q \<noteq> np" for q using that by (simp_all add: st3_def st2_def)
  have t2: "tree cfg st2 D2 r" "kids cfg st2 D2 = kids cfg st D" "path cfg st2 D2 r = path cfg st D r"
    unfolding D2_def by (rule spare_outside [OF t a(2)]; use a(4-6) e2 l2 o2 in simp)+
  have t3: "tree cfg st3 D2 r" "kids cfg st3 D2 = kids cfg st D" "path cfg st3 D2 r = path cfg st D r"
    unfolding D2_def by (rule spare_outside [OF t a(2)]; use a(4-6) e2 e3 l2 o2 in simp)+
  have rM: "q < length (heap st)" "q \<noteq> np" if "q \<in> ran M" for q
    using that ino_map_Some(1) [OF m] np(4) by (auto simp: ran_def)
  have m2: "ino_map cfg st2 M"
    by (rule ino_map_frame [OF m]) (use a(4,6,8) l2 o2 rM in \<open>auto simp: st2_def\<close>)
  have lp: "lookupparent cfg (pathname ns @ slash # n) st2 = Inr (Some p)"
  proof (rule lookupparent_path [OF t2(1)])
    show "lookupino cfg ROOTINO st2 = Inr (Some r)" using lookupino_map [OF m2] symtab_okD(3) [OF ok] by simp
    show "path cfg st2 D2 r p ns" using p(1) t2(3) by simp
    show "e_type (ent st2 p) = NODE" using p(2) pnp o2 a(6) path_isdir [OF p(1) t] by simp
  qed (rule n(1))
  have p3: "p < length (heap st3)" "isdir st3 p"
    using path_isdir [OF p(1) t] a(4,6) l2 o2 [OF pnp] pnp p(3) by (auto simp: isdir_def)
  obtain es where es: "e_entries (ent st3 p) = Some es" using p3(2) by (auto simp: isdir_def)
  define k where "k = dir_hash cfg n"
  define st4 where "st4 = upd (\<lambda>e. e\<lparr>e_entries := Some (es[k := Some np])\<rparr>) p (upd (\<lambda>e. e\<lparr>e_sibling := es ! k\<rparr>) np st3)"
  define D' where "D' = D2(p := (D2 p)(k := np # D2 p k))"
  have i: "insert_entry cfg p np st3 = Inr st4"
    using e3 by (simp add: insert_entry_def es st4_def k_def Let_def)
  have nm: "named (ent st3 np)" "e_parent (ent st3 np) = Some p" "e_name (ent st3 np) = n"
    using n(1) by (simp_all add: e3 named_def)
  have same3: "e_name (ent st3 q) = e_name (ent st q)" if "q \<in> kids cfg st D p" for q
    using o2(2) a(6) kids_heap [OF treeD(5) [OF t] that] np(2) that by metis
  have fresh: "e_name (ent st3 np) \<notin> (\<lambda>q. e_name (ent st3 q)) ` kids cfg st3 D2 p"
    using n(2) same3 by (force simp: nm(3) t3(2))
  have npK: "np \<noteq> r" "\<And>x. np \<notin> kids cfg st3 D2 x" "kids cfg st3 D2 np = {}" "np < length (heap st3)"
    using np a(3) l2 by (simp_all add: t3(2))
  note ins = tree_insert [OF t3(1) npK(1,2,4) pnp p3(1) es dir_hash_less [OF treeD(1) [OF t], of n, folded k_def] nm(1,2) fresh st4_def,
      folded D'_def]
  have e4: "e_next (ent st4 q) = e_next (ent st3 q)" "e_ino (ent st4 q) = e_ino (ent st3 q)" "e_name (ent st4 q) = e_name (ent st3 q)"
    "e_type (ent st4 q) = e_type (ent st3 q)" "e_links (ent st4 q) = e_links (ent st3 q)" "e_flags (ent st4 q) = e_flags (ent st3 q)" for q
    unfolding st4_def by (simp_all add: upd_keep)
  have l4: "length (heap st4) = length (heap st1)" using l2 by (simp add: st4_def)
  have m4: "ino_map cfg st4 M"
  proof (rule ino_map_frame [OF m])
    show "entry_tbl st4 = entry_tbl st" using a(8) by (simp add: st4_def st3_def st2_def)
    show "e_ino (ent st4 q) = e_ino (ent st q) \<and> e_next (ent st4 q) = e_next (ent st q)" if "q \<in> ran M" for q
      using rM [OF that] o2(2) a(6) by (simp add: e4)
  qed (use a(4) l4 in simp)
  show thesis
  proof (rule that [OF a(1) lp [unfolded st2_def] st3_def [unfolded st2_def] i _ np(4) pnp [symmetric] np(3) ins(1) m4])
    show "plist e_next st4 (freelist st4) F"
    proof (rule plist_cong)
      show "plist e_next st1 (freelist st4) F" using a(9) by (simp add: st4_def st3_def st2_def)
      fix f assume f: "f \<in> set F"
      then have "f \<noteq> np" using a(10) by auto
      then show "f < length (heap st4) \<and> e_next (ent st4 f) = e_next (ent st1 f)"
        using a(4) a(11) [OF f] o2(2) by (simp add: e4 l4)
    qed
    show "kids cfg st4 D' = (kids cfg st D)(p := insert np (kids cfg st D p))" using ins(2) by (simp add: t3(2))
    show "path cfg st4 D' r q ms \<longleftrightarrow> path cfg st D r q ms \<or> q = np \<and> ms = ns @ [n]" for q ms
      using path_insert [OF t3(1) _ npK(1-3) pnp ins(2) e4(3), of ns q ms] p(1) nm(3) by (simp add: t3(3))
    show "f < length (heap st) \<and> spare cfg st D r M f \<and> f \<noteq> p" if "f \<in> set F" for f
      using a(11) [OF that] path_reached [OF p(1)] by (auto simp: spare_def)
    have fp: "fixed_part (ent st4 q) = fixed_part (ent st3 q)" for q
      using es pnp unfolding st4_def by (simp add: fixed_part_lists fixed_part_upd)
    show "fixed_part (ent st4 q) = fixed_part (ent st q) \<and> e_ino (ent st4 q) = e_ino (ent st q) \<and> e_next (ent st4 q) = e_next (ent st q)"
      if "q < length (heap st)" "q \<noteq> np" for q
      using that a(6) o2(2) by (simp add: fp e4)
    show "length (heap st) \<le> length (heap st4)" using a(4) l4 by simp
    show "e_flags (ent st4 np) = 0" by (simp add: e4 e3 e2 zero_entry_def)
    show "e_entries (ent st4 np) \<noteq> None" if "ty AND NODE \<noteq> 0"
      using fixed_partD(5) [OF fp [of np]] that by (simp add: e3 e2)
    show "np \<noteq> r" "np \<notin> kids cfg st D x" for x using np by auto
    show "e_links (ent st4 np) = None" "e_type (ent st4 np) = ty AND NOT LINK" "e_name (ent st4 np) = n"
      by (simp_all add: e4 e3 e2 zero_entry_def)
    have "ent st4 np = (ent st3 np)\<lparr>e_sibling := es ! k\<rparr>" using a(3) l2 pnp by (simp add: st4_def)
    then show "e_entries (ent st4 np) = None" if "ty AND NODE = 0" using that by (simp add: e3 e2 zero_entry_def)
  qed (use a(3,10) l4 in simp_all)
qed

lemma addentry_unfold:
  assumes "alloc_entry st = (np, st1)" "lookupparent cfg name (new_entry cfg ty np st1) = Inr (Some p)"
    and "split_last name = Some (d, n)"
    and "insert_entry cfg p np (upd (\<lambda>e. (set_name n e)\<lparr>e_parent := Some p\<rparr>) np (new_entry cfg ty np st1)) = Inr st4"
    and "ty AND LINK = 0" "inum \<noteq> 0" "lookupino cfg inum st4 = Inr None"
  shows "addentry cfg name inum ty st = bindE (addino cfg inum np st4) (\<lambda>st. Inr (np, st))"
  using assms by (simp add: addentry_def new_entry_def Let_def)

lemma plist_same: "plist nxt st p ps \<Longrightarrow> length (heap st') = length (heap st)
    \<Longrightarrow> (\<And>q. q \<in> set ps \<Longrightarrow> ent st' q = ent st q) \<Longrightarrow> plist nxt st' p ps"
  by (rule plist_cong) (auto dest: plist_heap)

lemma addentry_ok:
  assumes ok: "symtab_ok cfg st D r M"
    and p: "path cfg st D r p ns" "e_type (ent st p) = NODE" "isdir st p"
    and n: "name_ok n" "n \<notin> (\<lambda>q. e_name (ent st q)) ` kids cfg st D p"
    and ty: "ty = LEAF \<or> ty = NODE" and i: "in_table cfg inum" "M inum = None"
  shows "\<exists>np st' D'. addentry cfg (pathname ns @ slash # n) inum ty st = Inr (np, st')
    \<and> symtab_ok cfg st' D' r (M(inum \<mapsto> np)) \<and> e_type (ent st' np) = ty \<and> e_links (ent st' np) = None
    \<and> np \<in> kids cfg st' D' p \<and> kids cfg st' D' np = {}
    \<and> (ty = LEAF \<longrightarrow> e_entries (ent st' np) = None)
    \<and> (\<forall>q ms. path cfg st' D' r q ms \<longleftrightarrow> path cfg st D r q ms \<or> q = np \<and> ms = ns @ [n])
    \<and> (\<forall>x. x < length (heap st) \<longrightarrow> x \<noteq> np \<longrightarrow> fixed_part (ent st' x) = fixed_part (ent st x)
        \<and> e_ino (ent st' x) = e_ino (ent st x) \<and> e_next (ent st' x) = e_next (ent st x))
    \<and> e_flags (ent st' np) = 0 \<and> e_ino (ent st' np) = inum \<and> length (heap st) \<le> length (heap st')
    \<and> np \<noteq> r \<and> (\<forall>x. np \<notin> kids cfg st D x) \<and> np \<notin> ran M
    \<and> kids cfg st' D' = (kids cfg st D)(p := insert np (kids cfg st D p))
    \<and> (ty = NODE \<longrightarrow> e_entries (ent st' np) \<noteq> None)"
proof -
  obtain np st1 st3 st4 D' F where e: "alloc_entry st = (np, st1)"
    "lookupparent cfg (pathname ns @ slash # n) (new_entry cfg ty np st1) = Inr (Some p)"
    "st3 = upd (\<lambda>e. (set_name n e)\<lparr>e_parent := Some p\<rparr>) np (new_entry cfg ty np st1)"
    "insert_entry cfg p np st3 = Inr st4" and np: "np < length (heap st4)" "np \<notin> ran M"
    and fresh: "np \<noteq> p" "kids cfg st D np = {}" and t4: "tree cfg st4 D' r" "ino_map cfg st4 M" and F: "plist e_next st4 (freelist st4) F" "np \<notin> set F"
    "\<And>f. f \<in> set F \<Longrightarrow> f < length (heap st) \<and> spare cfg st D r M f \<and> f \<noteq> p"
    and K: "kids cfg st4 D' = (kids cfg st D)(p := insert np (kids cfg st D p))"
    and P: "\<And>q ms. path cfg st4 D' r q ms \<longleftrightarrow> path cfg st D r q ms \<or> q = np \<and> ms = ns @ [n]"
    and ty4: "e_type (ent st4 np) = ty AND NOT LINK" "e_links (ent st4 np) = None"
      "ty AND NODE = 0 \<Longrightarrow> e_entries (ent st4 np) = None"
    and same: "\<And>q. q < length (heap st) \<Longrightarrow> q \<noteq> np \<Longrightarrow> fixed_part (ent st4 q) = fixed_part (ent st q)
      \<and> e_ino (ent st4 q) = e_ino (ent st q) \<and> e_next (ent st4 q) = e_next (ent st q)"
    and l4: "length (heap st) \<le> length (heap st4)" and f4: "e_flags (ent st4 np) = 0"
    and nk: "np \<noteq> r" "\<And>x. np \<notin> kids cfg st D x" and en4: "ty AND NODE \<noteq> 0 \<Longrightarrow> e_entries (ent st4 np) \<noteq> None"
    by (rule enter_tree [OF ok p n, where ty = ty]) blast
  have inum: "inum \<noteq> 0" "inum \<noteq> ROOTINO" using i symtab_okD(3) [OF ok] by (auto simp: in_table_def WINO_def)
  obtain st5 x where a: "addino cfg inum np st4 = Inr st5" "ino_map cfg st5 (M(inum \<mapsto> np))"
    "heap st5 = (heap st4)[np := (ent st4 np)\<lparr>e_ino := inum, e_next := x\<rparr>]" "freelist st5 = freelist st4"
    using addino_map [OF t4(2) np i] by blast
  have tl: "ty AND LINK = 0" "ty AND NOT LINK = ty" using ty by (auto simp: LEAF_def NODE_def LINK_def)
  have add: "addentry cfg (pathname ns @ slash # n) inum ty st = Inr (np, st5)"
    using addentry_unfold [OF e(1,2) split_last_name [OF n(1)] e(4) [unfolded e(3)] tl(1) inum(1)]
      lookupino_map [OF t4(2), of inum] i(2) a(1) by simp
  have l5: "length (heap st5) = length (heap st4)" by (simp add: a(3))
  have o5: "ent st5 q = ent st4 q" if "q \<noteq> np" for q using that by (simp add: a(3))
  have e5: "ent st5 np = (ent st4 np)\<lparr>e_ino := inum, e_next := x\<rparr>" using np(1) by (simp add: a(3))
  have tp: "tree_part (ent st5 q) = tree_part (ent st4 q)" for q
    by (cases "q = np") (simp_all add: o5 e5 tree_part_def)
  have t5: "tree cfg st5 D' r" and k5: "kids cfg st5 D' = kids cfg st4 D'" by (rule tree_same [OF t4(1) l5 tp])+
  have P5: "path cfg st5 D' r = path cfg st4 D' r" by (rule path_same [OF k5]) (rule tree_partD(1) [OF tp])
  have "symtab_ok cfg st5 D' r (M(inum \<mapsto> np))"
  proof (rule symtab_okI [OF t5 a(2)])
    show "(M(inum \<mapsto> np)) ROOTINO = Some r" using inum(2) symtab_okD(3) [OF ok] by simp
    show "plist e_next st5 (freelist st5) F"
      unfolding a(4) by (rule plist_same [OF F(1) l5]) (use F(2) o5 in metis)
    fix f assume f: "f \<in> set F"
    then have "f \<noteq> np" using F(2) by auto
    then show "spare cfg st5 D' r (M(inum \<mapsto> np)) f"
      using F(3) [OF f] i(2) by (auto simp: spare_def k5 K ran_map_upd)
  qed
  moreover have "np \<in> kids cfg st5 D' p \<and> kids cfg st5 D' np = {}" using fresh by (simp add: k5 K)
  moreover have "ty = LEAF \<longrightarrow> e_entries (ent st5 np) = None" using ty4(3) by (simp add: e5 LEAF_def NODE_def)
  moreover have "e_type (ent st5 np) = ty \<and> e_links (ent st5 np) = None" using ty4(1,2) tl(2) by (simp add: e5)
  moreover have "\<forall>x. x < length (heap st) \<longrightarrow> x \<noteq> np \<longrightarrow> fixed_part (ent st5 x) = fixed_part (ent st x)
        \<and> e_ino (ent st5 x) = e_ino (ent st x) \<and> e_next (ent st5 x) = e_next (ent st x)"
    using same o5 by simp
  moreover have "e_flags (ent st5 np) = 0 \<and> e_ino (ent st5 np) = inum" using f4 by (simp add: e5)
  moreover have "ty = NODE \<longrightarrow> e_entries (ent st5 np) \<noteq> None" using en4 by (auto simp: e5 NODE_def)
  ultimately show ?thesis using add P P5 l4 l5 nk np(2) k5 K
    by (intro exI [of _ np] exI [of _ st5] exI [of _ D']) simp
qed

text \<open>The table that \<open>initsymtable\<close> makes.\<close>

lemma newsymtable_ok:
  assumes "HASHFACTOR \<le> unat (r_maxino cfg)" "in_table cfg ROOTINO" "0 < dirhash_size cfg"
  shows "\<exists>st. newsymtable cfg = Inr st \<and> symtab_ok cfg st (\<lambda>p j. []) 0 [ROOTINO \<mapsto> 0]
    \<and> (\<forall>q ns. path cfg st (\<lambda>p j. []) 0 q ns \<longleftrightarrow> q = 0 \<and> ns = [])
    \<and> isdir st 0 \<and> e_type (ent st 0) = NODE \<and> e_links (ent st 0) = None \<and> e_flags (ent st 0) = NEW"
proof -
  let ?n = "unat (r_maxino cfg) div HASHFACTOR"
  have n: "0 < ?n" using assms(1) by (simp add: HASHFACTOR_def div_greater_zero_iff)
  define e0 where "e0 = \<lparr> e_name = [0x2E], e_namlen = 1, e_type = NODE, e_flags = 0, e_ino = 0, e_index = 0, e_parent = Some 0,
     e_sibling = None, e_links = None, e_entries = Some (replicate (dirhash_size cfg) None), e_next = None \<rparr>"
  define s0 where "s0 = \<lparr> heap = [e0], freelist = None, entry_tbl = replicate ?n None \<rparr>"
  have m0: "ino_map cfg s0 (\<lambda>_. None)"
    unfolding ino_map_def
    by (rule exI [of _ "\<lambda>_. []"]) (use n in \<open>auto simp: ino_chains_def s0_def ino_entry_def fun_eq_iff\<close>)
  obtain s1 x where a: "addino cfg ROOTINO 0 s0 = Inr s1" "ino_map cfg s1 [ROOTINO \<mapsto> 0]"
    "heap s1 = [e0\<lparr>e_ino := ROOTINO, e_next := x\<rparr>]" "freelist s1 = None"
    using addino_map [OF m0, of 0 ROOTINO] assms(2) by (auto simp: s0_def)
  have lp: "lookupparent cfg [0x2E] st = Inr None" for st
    by (simp add: lookupparent_def split_last_def slash_def)
  define sz where "sz = \<lparr> heap = [zero_entry\<lparr>e_type := NODE, e_entries := Some (replicate (dirhash_size cfg) None)\<rparr>],
     freelist = None, entry_tbl = replicate ?n None \<rparr>"
  have mz: "ino_map cfg sz (\<lambda>_. None)"
    unfolding ino_map_def
    by (rule exI [of _ "\<lambda>_. []"]) (use n in \<open>auto simp: ino_chains_def sz_def ino_entry_def fun_eq_iff\<close>)
  have bits: "NODE AND NOT LINK = NODE" "NODE AND NODE \<noteq> 0" by (simp_all add: NODE_def LINK_def)
  have add: "addentry cfg [0x2E] ROOTINO NODE \<lparr> heap = [], freelist = None, entry_tbl = replicate ?n None \<rparr> = Inr (0, s1)"
    using lookupino_map [OF mz, of ROOTINO] a(1) lp bits
    by (simp add: addentry_def alloc_entry_def upd_def s0_def e0_def sz_def zero_entry_def set_name_def)
  define st where "st = upd (\<lambda>e. e\<lparr>e_flags := e_flags e OR NEW\<rparr>) 0 s1"
  have new: "newsymtable cfg = Inr st" using add by (simp add: newsymtable_def Let_def st_def)
  have h: "heap st = [e0\<lparr>e_ino := ROOTINO, e_next := x, e_flags := NEW\<rparr>]" by (simp add: st_def upd_def a(3) e0_def)
  have m: "ino_map cfg st [ROOTINO \<mapsto> 0]"
    by (rule ino_map_frame [OF a(2)]) (simp_all add: st_def upd_def a(3))
  have kids: "kids cfg st (\<lambda>p j. []) p = {}" for p by (simp add: kids_def)
  have t: "tree cfg st (\<lambda>p j. []) 0"
    by (rule treeI) (use assms(3) in \<open>simp_all add: isdir_def h e0_def dir_lists_def dir_kids_def kids one_list_def\<close>)
  have "symtab_ok cfg st (\<lambda>p j. []) 0 [ROOTINO \<mapsto> 0]"
    by (rule symtab_okI [OF t m, where F = "[]"]) (simp_all add: st_def a(4))
  moreover have "path cfg st (\<lambda>p j. []) 0 q ns \<longleftrightarrow> q = 0 \<and> ns = []" for q ns
    by (auto simp: kids intro: path.intros elim: path.cases)
  moreover have "isdir st 0 \<and> e_type (ent st 0) = NODE \<and> e_links (ent st 0) = None \<and> e_flags (ent st 0) = NEW"
    by (simp add: isdir_def h e0_def)
  ultimately show ?thesis using new by blast
qed

text \<open>The flags are in neither structure.\<close>

lemma symtab_ok_flags:
  assumes ok: "symtab_ok cfg st D r M" and st'_def: "st' = upd (\<lambda>e. e\<lparr>e_flags := fl\<rparr>) q st"
  shows "symtab_ok cfg st' D r M" "kids cfg st' D = kids cfg st D" "path cfg st' D r = path cfg st D r"
proof -
  obtain F where F: "plist e_next st (freelist st) F" "\<And>f. f \<in> set F \<Longrightarrow> spare cfg st D r M f"
    using ok by (auto simp: symtab_ok_def)
  have l: "length (heap st') = length (heap st)" "freelist st' = freelist st" by (simp_all add: st'_def)
  have e: "tree_part (ent st' z) = tree_part (ent st z)" "e_ino (ent st' z) = e_ino (ent st z)"
    "e_next (ent st' z) = e_next (ent st z)" for z
    by (simp_all add: st'_def tree_part_def upd_keep)
  have t: "tree cfg st' D r" and k: "kids cfg st' D = kids cfg st D" by (rule tree_same [OF symtab_okD(1) [OF ok] l(1) e(1)])+
  show "kids cfg st' D = kids cfg st D" by (rule k)
  show "path cfg st' D r = path cfg st D r" by (rule path_same [OF k]) (rule tree_partD(1) [OF e(1)])
  have m: "ino_map cfg st' M"
    by (rule ino_map_frame [OF symtab_okD(2) [OF ok]]) (simp_all add: e(2,3) l, simp add: st'_def)
  have p: "plist e_next st' (freelist st') F"
    unfolding l(2) by (rule plist_cong [OF F(1)]) (simp add: e(3) l(1) plist_heap [OF F(1)])
  show "symtab_ok cfg st' D r M"
    by (rule symtab_okI [OF t m symtab_okD(3) [OF ok] p]) (use F(2) in \<open>simp add: spare_def k\<close>)
qed

section \<open>Taking an entry out\<close>

lemma plist_next_in: "plist nxt st p ps \<Longrightarrow> x \<in> set ps \<Longrightarrow> nxt (ent st x) = Some q \<Longrightarrow> q \<in> set ps"
proof (induction ps arbitrary: p)
  case (Cons y ps)
  then show ?case by (cases ps) auto
qed simp

lemma plist_pred:
  "plist nxt st p (xs @ q # ys) \<Longrightarrow> xs \<noteq> [] \<Longrightarrow> find (\<lambda>x. nxt (ent st x) = Some q) (xs @ q # ys) = Some (last xs)"
proof (induction xs arbitrary: p)
  case (Cons x xs)
  have d: "distinct (x # xs @ q # ys)" using plist_distinct [OF Cons.prems(1)] by simp
  show ?case
  proof (cases xs)
    case Nil
    then show ?thesis using Cons.prems by simp
  next
    case (Cons z zs)
    then show ?thesis using Cons.IH [of "nxt (ent st x)"] Cons.prems d by auto
  qed
qed simp

definition cut_entry :: "eptr option list \<Rightarrow> nat \<Rightarrow> eptr \<Rightarrow> eptr \<Rightarrow> eptr list \<Rightarrow> symtab \<Rightarrow> symtab" where
  "cut_entry es j p q xs st =
     (if xs = [] then upd (\<lambda>e. e\<lparr>e_entries := Some (es[j := e_sibling (ent st q)])\<rparr>) p st
      else upd (\<lambda>e. e\<lparr>e_sibling := e_sibling (ent st q)\<rparr>) (last xs) st)"

lemma unlink_from_here:
  assumes "e_entries (ent st p) = Some es" "plist e_sibling st (es ! j) (xs @ q # ys)"
  shows "unlink_from j p q st = Inr (Some (cut_entry es j p q xs st))"
proof (cases xs)
  case Nil
  then show ?thesis using assms by (simp add: unlink_from_def cut_entry_def)
next
  case (Cons x xs')
  have "q \<noteq> x" using plist_distinct [OF assms(2)] Cons by auto
  then show ?thesis
    using search_plist [OF assms(2), of "\<lambda>e. e_sibling e = Some q"] plist_pred [OF assms(2)] assms Cons
    by (simp add: unlink_from_def cut_entry_def)
qed

lemma unlink_from_elsewhere:
  assumes "e_entries (ent st p) = Some es" "plist e_sibling st (es ! j) ps" "q \<notin> set ps"
  shows "unlink_from j p q st = Inr None"
proof -
  have "es ! j \<noteq> Some q" using assms(2,3) by (cases ps) auto
  moreover have "find (\<lambda>x. e_sibling (ent st x) = Some q) ps = None"
    using plist_next_in [OF assms(2)] assms(3) by (auto simp: find_None_iff)
  ultimately show ?thesis
    using search_plist [OF assms(2), of "\<lambda>e. e_sibling e = Some q"] assms(1) by (simp add: unlink_from_def)
qed

lemma unlink_any_found:
  "j \<in> set js \<Longrightarrow> unlink_from j p q st = Inr (Some st') \<Longrightarrow> (\<And>i. i \<in> set js \<Longrightarrow> i \<noteq> j \<Longrightarrow> unlink_from i p q st = Inr None)
    \<Longrightarrow> unlink_any js p q st = Inr (Some st')"
proof (induction js)
  case (Cons i js)
  then show ?case by (cases "i = j") auto
qed simp

lemma removeentry_cut:
  assumes t: "tree cfg st D r" and p: "p < length (heap st)" "e_entries (ent st p) = Some es"
    and j: "j < dirhash_size cfg" "D p j = xs @ q # ys" and par: "e_parent (ent st q) = Some p"
  shows "removeentry cfg q st = Inr (cut_entry es j p q xs st)"
proof -
  note td = treeD [OF t]
  have pl: "plist e_sibling st (es ! i) (D p i)" if "i < dirhash_size cfg" for i by (rule dir_listsD(2) [OF td(5) p that])
  have here: "unlink_from j p q st = Inr (Some (cut_entry es j p q xs st))"
    using unlink_from_here [OF p(2)] pl [OF j(1)] by (simp add: j(2))
  have else: "unlink_from i p q st = Inr None" if "i < dirhash_size cfg" "i \<noteq> j" for i
  proof (rule unlink_from_elsewhere [OF p(2) pl [OF that(1)]])
    show "q \<notin> set (D p i)" using one_listD [OF td(7) _ that(1) j(1), of p q] p j(2) that(2) by (auto simp: isdir_def)
  qed
  let ?h = "dir_hash cfg (e_name (ent st q))"
  have h: "?h < dirhash_size cfg" by (rule dir_hash_less [OF td(1)])
  show ?thesis
  proof (cases "?h = j")
    case True
    then show ?thesis using here par by (simp add: removeentry_def)
  next
    case False
    have "unlink_any [0..<dirhash_size cfg] p q st = Inr (Some (cut_entry es j p q xs st))"
      by (rule unlink_any_found [OF _ here]) (use j(1) else in auto)
    then show ?thesis using else [OF h False] par by (simp add: removeentry_def)
  qed
qed

lemma tree_cut:
  assumes t: "tree cfg st D r" and p: "p < length (heap st)" "e_entries (ent st p) = Some es"
    and j: "j < dirhash_size cfg" "D p j = xs @ q # ys" and st': "st' = cut_entry es j p q xs st"
  defines "D' \<equiv> D(p := (D p)(j := xs @ ys))"
  shows "tree cfg st' D' r" "kids cfg st' D' = (kids cfg st D)(p := kids cfg st D p - {q})"
    "length (heap st') = length (heap st)" "entry_tbl st' = entry_tbl st" "freelist st' = freelist st"
    "isdir st' z = isdir st z" "\<And>z. e_name (ent st' z) = e_name (ent st z) \<and> e_ino (ent st' z) = e_ino (ent st z) \<and> e_next (ent st' z) = e_next (ent st z)"
proof -
  note td = treeD [OF t]
  let ?K = "(kids cfg st D)(p := kids cfg st D p - {q})"
  have isp: "isdir st p" using p by (simp add: isdir_def)
  show len: "length (heap st') = length (heap st)" and "entry_tbl st' = entry_tbl st" and "freelist st' = freelist st"
    by (simp_all add: st' cut_entry_def)
  have f: "e_name (ent st' z) = e_name (ent st z)" "e_namlen (ent st' z) = e_namlen (ent st z)"
      "e_parent (ent st' z) = e_parent (ent st z)" "e_ino (ent st' z) = e_ino (ent st z)" "e_next (ent st' z) = e_next (ent st z)" for z
    by (simp_all add: st' cut_entry_def upd_keep)
  then show "e_name (ent st' z) = e_name (ent st z) \<and> e_ino (ent st' z) = e_ino (ent st z) \<and> e_next (ent st' z) = e_next (ent st z)" for z
    by simp
  have nm: "named (ent st' z) = named (ent st z)" for z by (simp add: named_def f)
  have pl: "plist e_sibling st (es ! i) (D p i)" if "i < dirhash_size cfg" for i by (rule dir_listsD(2) [OF td(5) p that])
  have dis: "distinct (xs @ q # ys)" using plist_distinct [OF pl [OF j(1)]] j(2) by simp
  have kp: "z \<in> kids cfg st D p" if "z \<in> set (xs @ q # ys)" for z
    using kids_in [OF td(5) p j(1), of z] that j(2) by simp
  have lastk: "xs \<noteq> [] \<Longrightarrow> last xs \<in> set (D p j)" "xs \<noteq> [] \<Longrightarrow> last xs < length (heap st)"
    using j(2) plist_heap [OF pl [OF j(1)]] by auto
  have ens: "e_entries (ent st' z) = (if z = p \<and> xs = [] then Some (es[j := e_sibling (ent st q)]) else e_entries (ent st z))" for z
    using p(1) lastk(2) by (auto simp: st' cut_entry_def upd_def nth_list_update)
  have sib: "e_sibling (ent st' z) = (if last_of None xs = Some z then e_sibling (ent st q) else e_sibling (ent st z))" for z
    using p(1) lastk(2) by (auto simp: st' cut_entry_def upd_def nth_list_update last_of_def)
  have isd: "isdir st' z = isdir st z" for z using p by (auto simp: isdir_def len ens)
  then show "isdir st' z = isdir st z" by simp
  have L: "length es = dirhash_size cfg" by (rule dir_listsD(1) [OF td(5) p])
  have keep: "plist e_sibling st' a (D x i)"
    if "plist e_sibling st a (D x i)" "isdir st x" "i < dirhash_size cfg" "\<not> (x = p \<and> i = j)" for a x i
  proof (rule plist_cong [OF that(1)])
    fix z assume z: "z \<in> set (D x i)"
    have zk: "z \<in> kids cfg st D x" using z that(2,3) by (auto simp: kids_def)
    have "last_of None xs \<noteq> Some z"
    proof
      assume "last_of None xs = Some z"
      then have zj: "z \<in> set (D p j)" using lastk(1) by (auto simp: last_of_def split: if_splits)
      then have "z \<in> kids cfg st D p" using kp j(2) by simp
      then have "x = p" using kidsD(2) [OF td(6) zk] kidsD(2) [OF td(6)] by simp
      then show False using one_listD [OF td(7) isp that(3) j(1), of z] z zj that(4) by simp
    qed
    then show "z < length (heap st') \<and> e_sibling (ent st' z) = e_sibling (ent st z)"
      using plist_heap [OF that(1) z] by (simp add: sib len)
  qed
  have dl: "dir_lists cfg st' D'"
    unfolding dir_lists_def
  proof (intro allI impI conjI)
    fix x es' i assume x: "x < length (heap st')" "e_entries (ent st' x) = Some es'"
    obtain es0 where es0: "e_entries (ent st x) = Some es0" "x < length (heap st)"
      using x p by (cases "x = p") (auto simp: ens len)
    have es': "es' = (if x = p \<and> xs = [] then es[j := e_sibling (ent st q)] else es0)"
      using x(2) es0 by (auto simp: ens split: if_splits)
    show "length es' = dirhash_size cfg" using L dir_listsD(1) [OF td(5) es0(2,1)] by (simp add: es')
    assume i: "i < dirhash_size cfg"
    have px: "plist e_sibling st (es0 ! i) (D x i)" by (rule dir_listsD(2) [OF td(5) es0(2,1) i])
    show "plist e_sibling st' (es' ! i) (D' x i)"
    proof (cases "x = p \<and> i = j")
      case True
      then have "es0 = es" using es0 p by simp
      moreover have "plist e_sibling st' (if xs = [] then e_sibling (ent st q) else es ! j) (xs @ ys)"
        by (rule plist_splice [OF pl [OF j(1), unfolded j(2)] len]) (simp add: sib)
      ultimately show ?thesis using True j(1) L by (auto simp: es' D'_def)
    next
      case False
      have "isdir st x" using es0 by (simp add: isdir_def)
      from keep [OF px this i False] show ?thesis using False es0 p by (auto simp: es' D'_def)
    qed
  qed
  have "kids cfg st' D' x = ?K x" for x
  proof (cases "x = p")
    case True
    have "set (D' p i) = set (D p i) - {q}" if "i < dirhash_size cfg" for i
    proof (cases "i = j")
      case True
      then show ?thesis using j(2) dis by (auto simp: D'_def)
    next
      case False
      then have "q \<notin> set (D p i)" using one_listD [OF td(7) isp that j(1), of q] j(2) by auto
      then show ?thesis using False by (simp add: D'_def)
    qed
    then show ?thesis using True isp by (auto simp: kids_def isd)
  qed (simp add: kids_def isd D'_def)
  then show K: "kids cfg st' D' = ?K" by blast
  have dk: "dir_kids cfg st' D' r"
    unfolding dir_kids_def K f nm
  proof (intro conjI allI ballI)
    fix x z assume "z \<in> ?K x"
    then have z: "z \<in> kids cfg st D x" by (auto split: if_splits)
    show "z \<noteq> r" "e_parent (ent st z) = Some x" "named (ent st z)" by (rule kidsD [OF td(6) z])+
  next
    fix x
    have "inj_on (\<lambda>q. e_name (ent st q)) (kids cfg st D x)" using td(6) by (simp add: dir_kids_def)
    then show "inj_on (\<lambda>q. e_name (ent st q)) (?K x)" by (auto intro: inj_on_diff)
  qed
  have sub: "set (D' x i) \<subseteq> set (D x i)" for x i using j(2) by (auto simp: D'_def)
  have "one_list cfg st' D'"
    unfolding one_list_def isd using one_listD [OF td(7)] sub by blast
  then show "tree cfg st' D' r"
    by (intro treeI) (use td dl dk in \<open>auto simp: isd f\<close>)
qed

lemma path_cut:
  assumes K: "kids cfg st' D' = (kids cfg st D)(p := kids cfg st D p - {q})" and q: "kids cfg st D q = {}" "q \<noteq> r"
    "\<And>x. q \<in> kids cfg st D x \<Longrightarrow> x = p" and names: "\<And>z. e_name (ent st' z) = e_name (ent st z)"
  shows "path cfg st' D' r z ms \<longleftrightarrow> path cfg st D r z ms \<and> z \<noteq> q"
proof
  assume "path cfg st' D' r z ms"
  then show "path cfg st D r z ms \<and> z \<noteq> q"
  proof (induction rule: path.induct)
    case (path_kid x ms z)
    then have z: "z \<in> kids cfg st D x" "z \<noteq> q" using q(3) by (auto simp: K split: if_splits)
    then show ?case using path.path_kid [OF _ z(1)] path_kid.IH by (simp add: names)
  qed (use q(2) in \<open>simp add: path_root\<close>)
next
  have "path cfg st D r z ms \<Longrightarrow> z \<noteq> q \<longrightarrow> path cfg st' D' r z ms"
  proof (induction rule: path.induct)
    case (path_kid x ms z)
    show ?case
    proof
      assume "z \<noteq> q"
      then have "z \<in> kids cfg st' D' x" using path_kid.hyps(2) by (auto simp: K)
      moreover have "x \<noteq> q" using path_kid.hyps(2) q(1) by auto
      ultimately show "path cfg st' D' r z (ms @ [e_name (ent st z)])"
        using path.path_kid [of cfg st' D' r x ms z] path_kid.IH by (simp add: names)
    qed
  qed (simp add: path_root)
  moreover assume "path cfg st D r z ms \<and> z \<noteq> q"
  ultimately show "path cfg st' D' r z ms" by simp
qed

lemma foldr_ok: "\<forall>x \<in> set es. x = None \<Longrightarrow>
    foldr (\<lambda>x r. bindE (if x \<noteq> None then bad else Inr ()) (\<lambda>_. r)) es (Inr ()) = Inr ()"
  by (induction es) auto

lemma check_free_ok:
  assumes t: "tree cfg st D r" and q: "q < length (heap st)" "kids cfg st D q = {}" "e_flags (ent st q) = REMOVED" "e_links (ent st q) = None"
  shows "check_free cfg q st = Inr ()"
proof (cases "e_entries (ent st q)")
  case (Some es)
  have "x = None" if x: "x \<in> set es" for x
  proof -
    obtain j where j: "j < length es" "x = es ! j" using x by (auto simp: in_set_conv_nth)
    have jl: "j < dirhash_size cfg" using j(1) dir_listsD(1) [OF treeD(5) [OF t] q(1) Some] by simp
    have "D q j = []" using q(2) jl q(1) Some by (auto simp: kids_def isdir_def split: if_splits)
    then show ?thesis using dir_listsD(2) [OF treeD(5) [OF t] q(1) Some jl] j(2) by simp
  qed
  then have "foldr (\<lambda>x r. bindE (if x \<noteq> None then badentry cfg st q else Inr ()) (\<lambda>_. r)) es (Inr ()) = Inr ()"
    by (intro foldr_ok ballI)
  then show ?thesis using q(3,4) by (simp add: check_free_def Let_def Some del: not_None_eq)
qed (use q(3,4) in \<open>simp add: check_free_def Let_def\<close>)

text \<open>
  An entry goes that is in the table by number, or one without a number: a directory that has been taken out of
  that table before.
\<close>

lemma freeentry_any:
  assumes ok: "symtab_ok cfg st D r M" and q: "q \<in> kids cfg st D p" "kids cfg st D q = {}"
    and e: "e_flags (ent st q) = REMOVED" "e_links (ent st q) = None" "e_ino (ent st q) = inum"
    and num: "M inum = Some q \<or> inum = 0 \<and> q \<notin> ran M"
  shows "\<exists>st' D'. freeentry cfg q st = Inr st' \<and> symtab_ok cfg st' D' r (M(inum := None))
    \<and> (\<forall>z ms. path cfg st' D' r z ms \<longleftrightarrow> path cfg st D r z ms \<and> z \<noteq> q) \<and> isdir st' = isdir st
    \<and> kids cfg st' D' = (kids cfg st D)(p := kids cfg st D p - {q}) \<and> length (heap st') = length (heap st)
    \<and> (\<forall>z. fixed_part (ent st' z) = fixed_part (ent st z))
    \<and> (\<forall>z. z \<notin> ran M \<longrightarrow> z \<noteq> q \<longrightarrow> e_ino (ent st' z) = e_ino (ent st z) \<and> e_next (ent st' z) = e_next (ent st z))"
proof -
  note t = symtab_okD(1) [OF ok] and m = symtab_okD(2) [OF ok]
  note td = treeD [OF t]
  obtain F where F: "plist e_next st (freelist st) F" "\<And>f. f \<in> set F \<Longrightarrow> spare cfg st D r M f"
    using ok by (auto simp: symtab_ok_def)
  have ql: "q < length (heap st)" by (rule kids_heap [OF td(5) q(1)])
  have m0: "M 0 = None" using ino_map_Some(3) [OF m, of 0] by (cases "M 0") (auto simp: in_table_def WINO_def)
  have i0: "inum \<noteq> ROOTINO"
    using num e(3) symtab_okD(3) [OF ok] kidsD(1) [OF td(6) q(1)] by (auto simp: ROOTINO_def)
  obtain st2 where dl: "drop_link cfg q st = Inr st2" and d: "ino_map cfg st2 (M(inum := None))"
    "length (heap st2) = length (heap st)" "freelist st2 = freelist st"
    "\<And>z. \<exists>v w. ent st2 z = (ent st z)\<lparr>e_ino := v, e_next := w\<rparr>" "\<And>z. z \<notin> ran M \<Longrightarrow> ent st2 z = ent st z"
  proof (cases "inum = 0")
    case True
    have same: "\<exists>v w. ent st z = (ent st z)\<lparr>e_ino := v, e_next := w\<rparr>" for z
      by (intro exI [of _ "e_ino (ent st z)"] exI [of _ "e_next (ent st z)"]) simp
    have "M(inum := None) = M" using m0 True by auto
    then show thesis using that [of st] m e(3) True same by (simp add: drop_link_def)
  next
    case False
    then have M: "M inum = Some q" using num by simp
    obtain st2 where st2: "deleteino cfg inum st = Inr st2" "ino_map cfg st2 (M(inum := None))"
      "length (heap st2) = length (heap st)" "freelist st2 = freelist st"
      "\<And>z. \<exists>v w. ent st2 z = (ent st z)\<lparr>e_ino := v, e_next := w\<rparr>" "\<And>z. z \<notin> ran M \<Longrightarrow> ent st2 z = ent st z"
      by (rule deleteino_map [OF m M]) blast
    have "e_links (ent st2 q) = None" using st2(5) [of q] e(2) by auto
    then have "drop_link cfg q st = Inr st2"
      using lookupino_map [OF m, of inum] e M st2(1) False by (simp add: drop_link_def Let_def)
    then show thesis using that [of st2] st2 by blast
  qed
  have e2: "tree_part (ent st2 z) = tree_part (ent st z)" "e_links (ent st2 z) = e_links (ent st z)" for z
    using d(4) [of z] by (auto simp: tree_part_def)
  have t2: "tree cfg st2 D r" and k2: "kids cfg st2 D = kids cfg st D" by (rule tree_same [OF t d(2) e2(1)])+
  obtain es where p: "p < length (heap st2)" "e_entries (ent st2 p) = Some es"
    by (rule isdirE [of st2 p]) (use kids_isdir [of q cfg st2 D p] q(1) k2 in auto)
  obtain j where j: "j < dirhash_size cfg" "q \<in> set (D p j)" using q(1) by (auto simp: kids_def split: if_splits)
  then obtain xs ys where s: "D p j = xs @ q # ys" by (meson split_list)
  have par: "e_parent (ent st2 q) = Some p" using kidsD(2) [OF td(6) q(1)] tree_partD(3) [OF e2(1)] by simp
  define st3 where "st3 = cut_entry es j p q xs st2"
  define D' where "D' = D(p := (D p)(j := xs @ ys))"
  have rm: "removeentry cfg q st2 = Inr st3" unfolding st3_def by (rule removeentry_cut [OF t2 p j(1) s par])
  note c = tree_cut [OF t2 p j(1) s st3_def, folded D'_def]
  define st4 where "st4 = (upd (\<lambda>e. e\<lparr>e_next := freelist st3\<rparr>) q st3)\<lparr>freelist := Some q\<rparr>"
  have fr: "freeentry cfg q st = Inr st4"
    using check_free_ok [OF t ql q(2) e(1,2)] dl rm by (simp add: freeentry_def st4_def)
  have l4: "length (heap st4) = length (heap st3)" by (simp add: st4_def)
  have e4: "tree_part (ent st4 z) = tree_part (ent st3 z)" for z
    by (simp add: st4_def tree_part_def upd_keep)
  have i4: "e_ino (ent st4 z) = e_ino (ent st3 z)" for z by (simp add: st4_def upd_keep)
  have n4: "e_next (ent st4 z) = (if z = q then freelist st else e_next (ent st3 z))" for z
    using ql c(3,5) d(2,3) by (auto simp: st4_def upd_def nth_list_update)
  have t4: "tree cfg st4 D' r" and k4: "kids cfg st4 D' = kids cfg st3 D'" by (rule tree_same [OF c(1) l4 e4])+
  have K: "kids cfg st4 D' = (kids cfg st D)(p := kids cfg st D p - {q})" by (simp add: k4 c(2) k2)
  have qM: "q \<notin> ran (M(inum := None))"
  proof
    assume "q \<in> ran (M(inum := None))"
    then obtain i where "M i = Some q" "i \<noteq> inum" by (auto simp: ran_def split: if_splits)
    then show False using ino_map_Some(2) [OF m] e(3) by blast
  qed
  have m4: "ino_map cfg st4 (M(inum := None))"
    by (rule ino_map_frame [OF d(1)]) (use c(3,4,7) n4 i4 qM l4 in \<open>auto simp: st4_def\<close>)
  have sp: "spare cfg st4 D' r (M(inum := None)) f" if "spare cfg st D r M f" for f
    using that by (auto simp: spare_def K ran_def split: if_splits)
  have qp: "x = p" if "q \<in> kids cfg st D x" for x
    using kidsD(2) [OF td(6) that] kidsD(2) [OF td(6) q(1)] by simp
  have spq: "spare cfg st4 D' r (M(inum := None)) q"
    using kidsD(1) [OF td(6) q(1)] q(2) qp qM by (auto simp: spare_def K)
  have "symtab_ok cfg st4 D' r (M(inum := None))"
  proof (rule symtab_okI [OF t4 m4, where F = "q # F"])
    show "(M(inum := None)) ROOTINO = Some r" using i0 symtab_okD(3) [OF ok] by simp
    have "plist e_next st4 (freelist st) F"
    proof (rule plist_cong [OF F(1)])
      fix f assume f: "f \<in> set F"
      have "f \<noteq> q" "f \<notin> ran M" using F(2) [OF f] q(1) by (auto simp: spare_def)
      then show "f < length (heap st4) \<and> e_next (ent st4 f) = e_next (ent st f)"
        using plist_heap [OF F(1) f] d(2,5) c(3,7) l4 by (simp add: n4)
    qed
    then show "plist e_next st4 (freelist st4) (q # F)" using ql d(2) c(3) l4 n4 [of q] by (simp add: st4_def)
    show "spare cfg st4 D' r (M(inum := None)) f" if "f \<in> set (q # F)" for f
      using that sp F(2) spq by auto
  qed
  moreover have "path cfg st4 D' r z ms \<longleftrightarrow> path cfg st D r z ms \<and> z \<noteq> q" for z ms
    by (rule path_cut [OF K q(2) kidsD(1) [OF td(6) q(1)] qp])
      (use tree_partD(1) [OF e4] c(7) tree_partD(1) [OF e2(1)] in auto)
  moreover have "isdir st4 = isdir st"
    using d(2) c(6) l4 tree_partD(5) [OF e2(1)] tree_partD(5) [OF e4] by (simp add: isdir_def fun_eq_iff)
  moreover have "fixed_part (ent st4 z) = fixed_part (ent st z)" for z
  proof -
    have "fixed_part (ent st4 z) = fixed_part (ent st3 z)" by (simp add: st4_def fixed_part_upd)
    also have "\<dots> = fixed_part (ent st2 z)" using p(2) by (simp add: st3_def cut_entry_def fixed_part_upd fixed_part_lists)
    also have "\<dots> = fixed_part (ent st z)" using d(4) [of z] by (auto simp: fixed_part_def)
    finally show ?thesis .
  qed
  moreover have "e_ino (ent st4 z) = e_ino (ent st z) \<and> e_next (ent st4 z) = e_next (ent st z)" if "z \<notin> ran M" "z \<noteq> q" for z
    using d(5) [OF that(1)] that(2) c(7) [of z] by (simp add: i4 n4)
  moreover have "length (heap st4) = length (heap st)" using l4 c(3) d(2) by simp
  ultimately show ?thesis using fr K by blast
qed

lemma freeentry_ok:
  assumes ok: "symtab_ok cfg st D r M" and q: "q \<in> kids cfg st D p" "kids cfg st D q = {}"
    and e: "e_flags (ent st q) = REMOVED" "e_links (ent st q) = None" "M inum = Some q"
  shows "\<exists>st' D'. freeentry cfg q st = Inr st' \<and> symtab_ok cfg st' D' r (M(inum := None))
    \<and> (\<forall>z ms. path cfg st' D' r z ms \<longleftrightarrow> path cfg st D r z ms \<and> z \<noteq> q) \<and> isdir st' p"
proof -
  have "e_ino (ent st q) = inum" by (rule ino_map_Some(2) [OF symtab_okD(2) [OF ok] e(3)])
  then show ?thesis using freeentry_any [OF ok q e(1,2)] e(3) kids_isdir [OF q(1)] by auto
qed


section \<open>Names that are not there, and names below a leaf\<close>

lemma path_functional:
  assumes "symtab_ok cfg st D r M" "path cfg st D r q ns" "path cfg st D r z ns"
  shows "q = z"
  using lookupname_path [OF assms(2) symtab_okD(1) [OF assms(1)] symtab_ok_root [OF assms(1)]]
    lookupname_path [OF assms(3) symtab_okD(1) [OF assms(1)] symtab_ok_root [OF assms(1)]] by simp

lemma pathname_snoc: "pathname (ns @ [n]) = pathname ns @ slash # n"
  by (simp add: pathname_def)

lemma lookupname_missing:
  assumes ok: "symtab_ok cfg st D r M" and p: "path cfg st D r p ns" "isdir st p" and n: "name_ok n"
    and none: "\<And>z. \<not> path cfg st D r z (ns @ [n])"
  shows "lookupname cfg (pathname (ns @ [n])) st = Inr None"
proof -
  note t = symtab_okD(1) [OF ok]
  have "n \<notin> (\<lambda>q. e_name (ent st q)) ` kids cfg st D p" using none path.path_kid [OF p(1)] by auto
  then have "lookupname_loop cfg st n p = Inr None" using lookupname_loop_last [OF n] lookup_in_none [OF t p(2)] by simp
  moreover have "tl (spelled (ns @ [n])) \<noteq> []" using n by (cases ns) (auto simp: name_ok_def)
  ultimately show ?thesis
    using lookupname_pathname [OF symtab_ok_root [OF ok], of "ns @ [n]"] lookupname_loop_path [OF p(1) t, of "[n]"] by simp
qed

lemma lookupname_loop_leaf:
  assumes "e_entries (ent st q) = None" "\<And>m. m \<in> set ms \<Longrightarrow> name_ok m" "ms \<noteq> []"
  shows "lookupname_loop cfg st (tl (spelled ms)) q = Inr (Some q)"
  using assms(2,3)
proof (induction ms)
  case (Cons m ms)
  have l: "lookup_in cfg st m q = Inr (Some q)" using assms(1) by (simp add: lookup_in_def)
  show ?case
  proof (cases "ms = []")
    case True
    then show ?thesis using lookupname_loop_last [of m cfg st q] Cons.prems(1) l by simp
  next
    case False
    then show ?thesis using lookupname_loop_step [OF _ l False] Cons by simp
  qed
qed simp

lemma lookup_in_dir:
  assumes "tree cfg st D r" "isdir st p" "lookup_in cfg st n p = Inr (Some q)"
  shows "q \<in> kids cfg st D p" "e_name (ent st q) = n"
proof -
  have "n \<in> (\<lambda>q. e_name (ent st q)) ` kids cfg st D p" using lookup_in_none [OF assms(1,2)] assms(3) by fastforce
  then obtain z where z: "z \<in> kids cfg st D p" "n = e_name (ent st z)" by blast
  then have "z = q" using lookup_in_kid [OF assms(1) z(1)] assms(3) by simp
  then show "q \<in> kids cfg st D p" "e_name (ent st q) = n" using z by simp_all
qed

lemma lookupname_loop_dir:
  assumes "tree cfg st D r"
  shows "path cfg st D r x ms \<Longrightarrow> ns \<noteq> [] \<Longrightarrow> (\<And>n. n \<in> set ns \<Longrightarrow> name_ok n)
    \<Longrightarrow> lookupname_loop cfg st (tl (spelled ns)) x = Inr (Some p) \<Longrightarrow> isdir st p \<Longrightarrow> path cfg st D r p (ms @ ns)"
proof (induction ns arbitrary: x ms)
  case (Cons n ns)
  have xl: "x < length (heap st)" by (rule path_isdir [OF Cons.prems(1) assms])
  have dx: "isdir st x"
  proof (rule ccontr)
    assume "\<not> isdir st x"
    then have "e_entries (ent st x) = None" using xl by (simp add: isdir_def)
    then have "p = x" using lookupname_loop_leaf [where cfg = cfg, OF _ Cons.prems(3,2)] Cons.prems(4) by simp
    then show False using Cons.prems(5) \<open>\<not> isdir st x\<close> by simp
  qed
  have ok: "name_ok n" using Cons.prems(3) by simp
  show ?case
  proof (cases "ns = []")
    case True
    then have l: "lookup_in cfg st n x = Inr (Some p)" using Cons.prems(4) lookupname_loop_last [OF ok] by simp
    then show ?thesis using path_kid [OF Cons.prems(1) lookup_in_dir(1) [OF assms dx l]] lookup_in_dir(2) [OF assms dx l] True by simp
  next
    case False
    show ?thesis
    proof (cases "n \<in> (\<lambda>q. e_name (ent st q)) ` kids cfg st D x")
      case True
      then obtain q where q: "q \<in> kids cfg st D x" "e_name (ent st q) = n" by blast
      have "lookupname_loop cfg st (tl (spelled ns)) q = Inr (Some p)"
        using lookupname_loop_step [OF ok _ False, of cfg st x q] lookup_in_kid [OF assms q(1)] q(2) Cons.prems(4) by simp
      from Cons.IH [OF path_kid [OF Cons.prems(1) q(1)] False _ this Cons.prems(5)] Cons.prems(3) q(2)
      show ?thesis by simp
    next
      case none: False
      have "lookupname_loop cfg st (n @ spelled ns) x = Inr None"
      proof -
        obtain m ns' where ns: "ns = m # ns'" using False by (cases ns) auto
        have "takeWhile (\<lambda>b. b \<noteq> slash) (n @ spelled ns) = n" using ok by (simp add: ns name_ok_def takeWhile_append)
        then show ?thesis using lookup_in_none [OF assms dx none] ok
          by (subst lookupname_loop.simps) (simp add: name_ok_def MAXPATHLEN_def)
      qed
      then show ?thesis using Cons.prems(4) by simp
    qed
  qed
qed simp

lemma lookupname_dir:
  assumes "symtab_ok cfg st D r M" "\<And>n. n \<in> set ns \<Longrightarrow> name_ok n" "isdir st p"
  shows "lookupname cfg (pathname ns) st = Inr (Some p) \<longleftrightarrow> path cfg st D r p ns"
proof
  note t = symtab_okD(1) [OF assms(1)] and r = symtab_ok_root [OF assms(1)]
  assume l: "lookupname cfg (pathname ns) st = Inr (Some p)"
  show "path cfg st D r p ns"
  proof (cases "ns = []")
    case True
    then show ?thesis using l lookupname_pathname [OF r, of "[]"] path_root by simp
  next
    case False
    then have "tl (spelled ns) \<noteq> []" using assms(2) by (cases ns) (auto simp: name_ok_def)
    then show ?thesis
      using lookupname_loop_dir [OF t path_root False assms(2), of p] l assms(3) lookupname_pathname [OF r, of ns] by simp
  qed
qed (rule lookupname_path [OF _ symtab_okD(1) [OF assms(1)] symtab_ok_root [OF assms(1)]])

text \<open>
  The states of the table that restore can reach by adding files and directories, marking entries, and
  freeing entries, in terms of what the operations of the table return.
\<close>

definition no_entries :: "symtab \<Rightarrow> eptr \<Rightarrow> bool" where
  "no_entries st q \<longleftrightarrow> (case e_entries (ent st q) of None \<Rightarrow> True | Some es \<Rightarrow> list_all (\<lambda>x. x = None) es)"

inductive symtab_reach :: "scfg \<Rightarrow> symtab \<Rightarrow> bool" for cfg :: scfg where
  reach_new: "newsymtable cfg = Inr st \<Longrightarrow> symtab_reach cfg st"
| reach_add: "symtab_reach cfg st \<Longrightarrow> list_all name_ok (n # ns) \<Longrightarrow> lookupname cfg (pathname ns) st = Inr (Some p)
    \<Longrightarrow> e_type (ent st p) = NODE \<Longrightarrow> isdir st p \<Longrightarrow> lookupname cfg (pathname (ns @ [n])) st = Inr None
    \<Longrightarrow> ty = LEAF \<or> ty = NODE \<Longrightarrow> in_table cfg inum \<Longrightarrow> lookupino cfg inum st = Inr None
    \<Longrightarrow> addentry cfg (pathname (ns @ [n])) inum ty st = Inr (np, st') \<Longrightarrow> symtab_reach cfg st'"
| reach_mark: "symtab_reach cfg st \<Longrightarrow> symtab_reach cfg (upd (\<lambda>e. e\<lparr>e_flags := fl\<rparr>) q st)"
| reach_free: "symtab_reach cfg st \<Longrightarrow> list_all name_ok (n # ns) \<Longrightarrow> lookupname cfg (pathname ns) st = Inr (Some p)
    \<Longrightarrow> isdir st p \<Longrightarrow> lookupname cfg (pathname (ns @ [n])) st = Inr (Some q) \<Longrightarrow> no_entries st q
    \<Longrightarrow> e_flags (ent st q) = REMOVED \<Longrightarrow> e_links (ent st q) = None \<Longrightarrow> lookupino cfg (e_ino (ent st q)) st = Inr (Some q)
    \<Longrightarrow> freeentry cfg q st = Inr st' \<Longrightarrow> symtab_reach cfg st'"

definition table_cfg :: "scfg \<Rightarrow> bool" where
  "table_cfg cfg \<longleftrightarrow> HASHFACTOR \<le> unat (r_maxino cfg) \<and> in_table cfg ROOTINO \<and> 0 < dirhash_size cfg"

lemma lookupname_snoc:
  assumes ok: "symtab_ok cfg st D r M" and p: "path cfg st D r p ns" "name_ok n"
  shows "lookupname cfg (pathname (ns @ [n])) st = lookup_in cfg st n p"
proof -
  have "tl (spelled (ns @ [n])) \<noteq> []" using p(2) by (cases ns) (auto simp: name_ok_def)
  then show ?thesis
    using lookupname_pathname [OF symtab_ok_root [OF ok], of "ns @ [n]"] lookupname_loop_path [OF p(1) symtab_okD(1) [OF ok], of "[n]"]
      lookupname_loop_last [OF p(2)] by simp
qed

lemma no_entries_kids:
  assumes "tree cfg st D r" "no_entries st q" shows "kids cfg st D q = {}"
proof (cases "isdir st q")
  case True
  then obtain es where es: "q < length (heap st)" "e_entries (ent st q) = Some es" by (rule isdirE)
  note dl = dir_listsD [OF treeD(5) [OF assms(1)] es]
  have "D q j = []" if "j < dirhash_size cfg" for j
  proof -
    have "es ! j = None" using assms(2) es(2) dl(1) that by (simp add: no_entries_def list_all_length)
    then show ?thesis using dl(2) [OF that] by simp
  qed
  then show ?thesis by (simp add: kids_def)
qed (simp add: kids_def)

section \<open>Properties\<close>

text \<open>C33: \<open>addino\<close>, \<open>deleteino\<close> and \<open>lookupino\<close> implement a map from inode numbers to entries: any sequence of
  additions of entries that are not in the table under numbers that are not in use, and of removals of
  numbers that are, does not stop, and afterwards every number is looked up as in the map that the same
  sequence of updates gives.
\<close>

theorem symtab_inodes:
  assumes "ino_map cfg st M" "map_ops (in_table cfg) (has_entry st) xs M = Some M'"
  shows "\<exists>st'. run_ops (addino cfg) (deleteino cfg) xs st = Inr st' \<and> ino_map cfg st' M'
    \<and> (\<forall>i. lookupino cfg i st' = Inr (M' i))"
  by (rule inos.run_map [OF assms])

definition sample_scfg :: scfg where
  "sample_scfg = \<lparr> cvtflag = False, panic_returns = False, Nflag = False, dumpdate = 0, r_maxino = 100, fssize = 1024,
     dirhash_size = 4, dflag = True \<rparr>"

text \<open>\<open>./a\<close>, a file with number 12 under the root.\<close>

definition a_name :: "byte list" where "a_name = [0x2E, 0x2F, 0x61]"

lemma name_ok_a: "name_ok [0x61]" "name_ok [0x62]"
  by (simp_all add: name_ok_def slash_def)

lemma sample_new:
  obtains st where "newsymtable sample_scfg = Inr st" "symtab_ok sample_scfg st (\<lambda>p j. []) 0 [ROOTINO \<mapsto> 0]"
    "path sample_scfg st (\<lambda>p j. []) 0 0 []" "isdir st 0" "e_type (ent st 0) = NODE"
    "kids sample_scfg st (\<lambda>p j. []) 0 = {}"
proof -
  have "\<exists>st. newsymtable sample_scfg = Inr st \<and> symtab_ok sample_scfg st (\<lambda>p j. []) 0 [ROOTINO \<mapsto> 0]
    \<and> (\<forall>q ns. path sample_scfg st (\<lambda>p j. []) 0 q ns \<longleftrightarrow> q = 0 \<and> ns = []) \<and> isdir st 0 \<and> e_type (ent st 0) = NODE
    \<and> e_links (ent st 0) = None \<and> e_flags (ent st 0) = NEW"
    by (rule newsymtable_ok) (simp_all add: sample_scfg_def HASHFACTOR_def in_table_def WINO_def ROOTINO_def)
  then show thesis using that by (auto simp: kids_def)
qed

lemma sample_inum: "in_table sample_scfg 12" "[ROOTINO \<mapsto> 0] 12 = None"
  by (simp_all add: sample_scfg_def in_table_def WINO_def ROOTINO_def)

lemma a_name_path: "pathname [] @ slash # [0x61] = a_name" "pathname [[0x61]] = a_name"
  by (simp_all add: pathname_def slash_def a_name_def)

lemma sample_table:
  obtains st np st' D' where "newsymtable sample_scfg = Inr st" "addentry sample_scfg a_name 12 LEAF st = Inr (np, st')"
    "symtab_ok sample_scfg st' D' 0 [ROOTINO \<mapsto> 0, 12 \<mapsto> np]" "path sample_scfg st' D' 0 0 []"
    "path sample_scfg st' D' 0 np [[0x61]]" "np \<in> kids sample_scfg st' D' 0" "kids sample_scfg st' D' np = {}"
    "e_links (ent st' np) = None" "e_entries (ent st' np) = None"
proof -
  obtain st where s: "newsymtable sample_scfg = Inr st" "symtab_ok sample_scfg st (\<lambda>p j. []) 0 [ROOTINO \<mapsto> 0]"
    "path sample_scfg st (\<lambda>p j. []) 0 0 []" "isdir st 0" "e_type (ent st 0) = NODE"
    "kids sample_scfg st (\<lambda>p j. []) 0 = {}" by (rule sample_new) blast
  have none: "[0x61] \<notin> (\<lambda>q. e_name (ent st q)) ` kids sample_scfg st (\<lambda>p j. []) 0" by (simp add: s(6))
  have "LEAF = LEAF \<or> LEAF = NODE" by simp
  from addentry_ok [OF s(2,3,5,4) name_ok_a(1) none this sample_inum, unfolded a_name_path]
  obtain np st' D' where a: "addentry sample_scfg a_name 12 LEAF st = Inr (np, st')"
    "symtab_ok sample_scfg st' D' 0 [ROOTINO \<mapsto> 0, 12 \<mapsto> np]" "np \<in> kids sample_scfg st' D' 0"
    "kids sample_scfg st' D' np = {}" "e_links (ent st' np) = None" "e_entries (ent st' np) = None"
    and P: "\<And>q ms. path sample_scfg st' D' 0 q ms \<longleftrightarrow> path sample_scfg st (\<lambda>p j. []) 0 q ms \<or> q = np \<and> ms = [] @ [[0x61]]"
    by blast
  have "path sample_scfg st' D' 0 np [[0x61]]" using P by simp
  moreover have "path sample_scfg st' D' 0 0 []" by (rule path_root)
  ultimately show thesis using that s(1) a by blast
qed

definition sample_inos :: symtab where
  "sample_inos = \<lparr> heap = replicate 3 zero_entry, freelist = None, entry_tbl = replicate 2 None \<rparr>"

definition sample_ops :: "(dump_ino_t, eptr) map_op list" where
  "sample_ops = [Add_Op 2 0, Add_Op 12 1, Add_Op 14 2, Del_Op 12]"

theorem symtab_inodes_witness:
  "\<exists>st'. run_ops (addino sample_scfg) (deleteino sample_scfg) sample_ops sample_inos = Inr st'
    \<and> ino_map sample_scfg st' [2 \<mapsto> 0, 14 \<mapsto> 2] \<and> (\<forall>i. lookupino sample_scfg i st' = Inr ([2 \<mapsto> 0, 14 \<mapsto> 2] i))"
proof (rule symtab_inodes)
  show "ino_map sample_scfg sample_inos (\<lambda>_. None)"
    unfolding ino_map_def
    by (rule exI [of _ "\<lambda>_. []"]) (auto simp: ino_chains_def sample_inos_def ino_entry_def fun_eq_iff)
  show "map_ops (in_table sample_scfg) (has_entry sample_inos) sample_ops (\<lambda>_. None) = Some [2 \<mapsto> 0, 14 \<mapsto> 2]"
    by (simp add: sample_ops_def sample_inos_def sample_scfg_def in_table_def WINO_def has_entry_def fun_eq_iff)
qed

text \<open>C36: The name that \<open>myname\<close> gives an entry is the one that leads \<open>lookupname\<close> to it: for every entry that
  is reached from the root, in whatever list of its directory it stands, and whose name fits the buffer.
\<close>

theorem myname_lookupname:
  assumes "symtab_ok cfg st D r M" "path cfg st D r q ns" "length (pathname ns) < MAXPATHLEN - 2"
  shows "bindE (myname cfg st q) (\<lambda>name. lookupname cfg name st) = Inr (Some q)"
  using myname_path [OF assms(2) symtab_okD(1) [OF assms(1)] symtab_ok_root [OF assms(1)] assms(3)]
    lookupname_path [OF assms(2) symtab_okD(1) [OF assms(1)] symtab_ok_root [OF assms(1)]] by simp

theorem myname_lookupname_witness:
  "\<exists>st np st'. newsymtable sample_scfg = Inr st \<and> addentry sample_scfg a_name 12 LEAF st = Inr (np, st')
    \<and> bindE (myname sample_scfg st' np) (\<lambda>name. lookupname sample_scfg name st') = Inr (Some np)"
proof (rule sample_table)
  fix st np st' D'
  assume s: "newsymtable sample_scfg = Inr st" "addentry sample_scfg a_name 12 LEAF st = Inr (np, st')"
    "symtab_ok sample_scfg st' D' 0 [ROOTINO \<mapsto> 0, 12 \<mapsto> np]" "path sample_scfg st' D' 0 np [[0x61]]"
  have "length (pathname [[0x61]]) < MAXPATHLEN - 2" by (simp add: pathname_def MAXPATHLEN_def)
  from myname_lookupname [OF s(3,4) this] s(1,2) show ?thesis by blast
qed

text \<open>C34: \<open>addentry\<close> of a leaf or a directory under a name that its directory does not have and a number that is
  not in use: it does not stop, keeps the table well formed, adds exactly the new path to those there are,
  and the entry is found by its name and by its number, and every other path as before.
\<close>

theorem addentry_tree:
  assumes "symtab_ok cfg st D r M" "path cfg st D r p ns" "e_type (ent st p) = NODE" "isdir st p"
    and "name_ok n" "n \<notin> (\<lambda>q. e_name (ent st q)) ` kids cfg st D p"
    and "ty = LEAF \<or> ty = NODE" "in_table cfg inum" "M inum = None"
  shows "\<exists>np st' D'. addentry cfg (pathname ns @ slash # n) inum ty st = Inr (np, st')
    \<and> symtab_ok cfg st' D' r (M(inum \<mapsto> np)) \<and> e_type (ent st' np) = ty
    \<and> (\<forall>q ms. path cfg st' D' r q ms \<longleftrightarrow> path cfg st D r q ms \<or> q = np \<and> ms = ns @ [n])
    \<and> lookupname cfg (pathname ns @ slash # n) st' = Inr (Some np) \<and> lookupino cfg inum st' = Inr (Some np)
    \<and> (\<forall>q ms. path cfg st D r q ms \<longrightarrow> lookupname cfg (pathname ms) st' = Inr (Some q))"
proof -
  obtain np st' D' where a: "addentry cfg (pathname ns @ slash # n) inum ty st = Inr (np, st')"
    and ok: "symtab_ok cfg st' D' r (M(inum \<mapsto> np))" and ty: "e_type (ent st' np) = ty"
    and P: "\<And>q ms. path cfg st' D' r q ms \<longleftrightarrow> path cfg st D r q ms \<or> q = np \<and> ms = ns @ [n]"
    using addentry_ok [OF assms] by blast
  have look: "lookupname cfg (pathname ms) st' = Inr (Some q)" if "path cfg st' D' r q ms" for q ms
    by (rule lookupname_path [OF that symtab_okD(1) [OF ok] symtab_ok_root [OF ok]])
  show ?thesis
    using a ok ty P look [of np "ns @ [n]"] look lookupino_map [OF symtab_okD(2) [OF ok], of inum]
    by (intro exI [of _ np] exI [of _ st'] exI [of _ D']) (simp add: pathname_snoc)
qed

theorem addentry_tree_witness:
  "\<exists>st np st'. newsymtable sample_scfg = Inr st \<and> addentry sample_scfg a_name 12 NODE st = Inr (np, st')
    \<and> lookupname sample_scfg a_name st' = Inr (Some np) \<and> lookupino sample_scfg 12 st' = Inr (Some np)"
proof (rule sample_new)
  fix st
  assume s: "newsymtable sample_scfg = Inr st" "symtab_ok sample_scfg st (\<lambda>p j. []) 0 [ROOTINO \<mapsto> 0]"
    "path sample_scfg st (\<lambda>p j. []) 0 0 []" "isdir st 0" "e_type (ent st 0) = NODE"
    "kids sample_scfg st (\<lambda>p j. []) 0 = {}"
  show ?thesis
    using addentry_tree [OF s(2,3,5,4) name_ok_a(1) _ _ sample_inum, of NODE] s(1,6) by (auto simp: a_name_path)
qed

text \<open>C35: \<open>freeentry\<close> of an entry that is marked as removed, has no entries below it and no other links: it does
  not stop, keeps the table well formed, takes exactly its path away, and its name and number are not found
  any more.
\<close>

theorem freeentry_tree:
  assumes "symtab_ok cfg st D r M" "path cfg st D r p ns" "q \<in> kids cfg st D p" "kids cfg st D q = {}"
    and "e_flags (ent st q) = REMOVED" "e_links (ent st q) = None" "M inum = Some q"
  shows "\<exists>st' D'. freeentry cfg q st = Inr st' \<and> symtab_ok cfg st' D' r (M(inum := None))
    \<and> (\<forall>z ms. path cfg st' D' r z ms \<longleftrightarrow> path cfg st D r z ms \<and> z \<noteq> q)
    \<and> lookupname cfg (pathname (ns @ [e_name (ent st q)])) st' = Inr None \<and> lookupino cfg inum st' = Inr None"
proof -
  obtain st' D' where f: "freeentry cfg q st = Inr st'" and ok: "symtab_ok cfg st' D' r (M(inum := None))"
    and P: "\<And>z ms. path cfg st' D' r z ms \<longleftrightarrow> path cfg st D r z ms \<and> z \<noteq> q" and d: "isdir st' p"
    using freeentry_ok [OF assms(1,3-7)] by blast
  have n: "name_ok (e_name (ent st q))"
    using kidsD(3) [OF treeD(6) [OF symtab_okD(1) [OF assms(1)]] assms(3)] by (simp add: named_def)
  have "p \<noteq> q" using assms(3,4) by auto
  then have p: "path cfg st' D' r p ns" using P assms(2) by simp
  have "\<not> path cfg st' D' r z (ns @ [e_name (ent st q)])" for z
    using P path_functional [OF assms(1) path_kid [OF assms(2,3)]] by blast
  then have "lookupname cfg (pathname (ns @ [e_name (ent st q)])) st' = Inr None"
    by (rule lookupname_missing [OF ok p d n])
  then show ?thesis using f ok P lookupino_map [OF symtab_okD(2) [OF ok], of inum] by auto
qed

theorem freeentry_tree_witness:
  "\<exists>st np st1 st2. newsymtable sample_scfg = Inr st \<and> addentry sample_scfg a_name 12 LEAF st = Inr (np, st1)
    \<and> freeentry sample_scfg np (upd (\<lambda>e. e\<lparr>e_flags := REMOVED\<rparr>) np st1) = Inr st2
    \<and> lookupname sample_scfg a_name st2 = Inr None \<and> lookupino sample_scfg 12 st2 = Inr None"
proof (rule sample_table)
  fix st np st1 D1
  assume s: "newsymtable sample_scfg = Inr st" "addentry sample_scfg a_name 12 LEAF st = Inr (np, st1)"
    "symtab_ok sample_scfg st1 D1 0 [ROOTINO \<mapsto> 0, 12 \<mapsto> np]" "path sample_scfg st1 D1 0 0 []"
    "path sample_scfg st1 D1 0 np [[0x61]]" "np \<in> kids sample_scfg st1 D1 0" "kids sample_scfg st1 D1 np = {}"
    "e_links (ent st1 np) = None"
  define st' where "st' = upd (\<lambda>e. e\<lparr>e_flags := REMOVED\<rparr>) np st1"
  note k = symtab_ok_flags [OF s(3) st'_def]
  have l: "np < length (heap st1)" by (rule kids_heap [OF treeD(5) [OF symtab_okD(1) [OF s(3)]] s(6)])
  have f: "e_flags (ent st' np) = REMOVED" "e_links (ent st' np) = None" using s(8) l by (simp_all add: st'_def)
  have "e_name (ent st1 np) = [0x61]"
    using path_unique [OF path_kid [OF s(4,6)] s(5) symtab_okD(1) [OF s(3)]] by simp
  then have n: "e_name (ent st' np) = [0x61]" using l by (simp add: st'_def)
  have m: "[ROOTINO \<mapsto> 0, 12 \<mapsto> np] 12 = Some np" by simp
  obtain st2 where "freeentry sample_scfg np st' = Inr st2" "lookupname sample_scfg a_name st2 = Inr None"
    "lookupino sample_scfg 12 st2 = Inr None"
    using freeentry_tree [OF k(1) s(4) [folded k(3)] s(6) [folded k(2)] s(7) [folded k(2)] f m]
    by (auto simp: n a_name_path)
  then show ?thesis using s(1,2) by (auto simp: st'_def)
qed

text \<open>C38: Below an entry that is not a directory every name is found, as the entry itself: the search goes on
  with the rest of the name and the same entry.
\<close>

theorem lookup_below_leaf:
  assumes "symtab_ok cfg st D r M" "path cfg st D r q ns" "e_entries (ent st q) = None"
    and "\<And>m. m \<in> set ms \<Longrightarrow> name_ok m"
  shows "lookupname cfg (pathname (ns @ ms)) st = Inr (Some q)"
proof (cases "ms = []")
  case True
  then show ?thesis
    using lookupname_path [OF assms(2) symtab_okD(1) [OF assms(1)] symtab_ok_root [OF assms(1)]] by simp
next
  case False
  note t = symtab_okD(1) [OF assms(1)]
  have "tl (spelled (ns @ ms)) \<noteq> []"
  proof (cases ns)
    case Nil
    then show ?thesis using False assms(4) [of "hd ms"] by (cases ms) (auto simp: name_ok_def)
  next
    case (Cons a as)
    then show ?thesis using path_names [OF assms(2) t, of a] by (auto simp: name_ok_def)
  qed
  then show ?thesis
    using lookupname_pathname [OF symtab_ok_root [OF assms(1)], of "ns @ ms"] lookupname_loop_path [OF assms(2) t False, of]
      lookupname_loop_leaf [where cfg = cfg, OF assms(3) assms(4) False] by simp
qed

theorem lookup_below_leaf_witness:
  "\<exists>st np st'. newsymtable sample_scfg = Inr st \<and> addentry sample_scfg a_name 12 LEAF st = Inr (np, st')
    \<and> lookupname sample_scfg (a_name @ [0x2F, 0x62]) st' = Inr (Some np)"
proof (rule sample_table)
  fix st np st' D'
  assume s: "newsymtable sample_scfg = Inr st" "addentry sample_scfg a_name 12 LEAF st = Inr (np, st')"
    "symtab_ok sample_scfg st' D' 0 [ROOTINO \<mapsto> 0, 12 \<mapsto> np]" "path sample_scfg st' D' 0 np [[0x61]]"
    "e_entries (ent st' np) = None"
  have "lookupname sample_scfg (pathname ([[0x61]] @ [[0x62]])) st' = Inr (Some np)"
    by (rule lookup_below_leaf [OF s(3-5)]) (simp add: name_ok_a)
  moreover have "pathname ([[0x61]] @ [[0x62]]) = a_name @ [0x2F, 0x62]"
    by (simp add: pathname_def slash_def a_name_def)
  ultimately show ?thesis using s(1,2) by simp
qed

text \<open>C37: Well-formedness: in every state that the operations of the table reach from the new table, in any
  order, the directory lists form a tree with distinct names and right parents, the chains by number a map
  that has the root, and the free entries are in neither.
\<close>

theorem symtab_wf:
  assumes "symtab_reach cfg st" "table_cfg cfg"
  shows "\<exists>D r M. symtab_ok cfg st D r M"
  using assms(1)
proof (induction rule: symtab_reach.induct)
  case (reach_new st)
  then show ?case using newsymtable_ok assms(2) unfolding table_cfg_def by (metis sum.inject(2))
next
  case (reach_add st n ns p ty inum np st')
  then obtain D r M where ok: "symtab_ok cfg st D r M" by blast
  have n: "name_ok n" "\<And>m. m \<in> set ns \<Longrightarrow> name_ok m" using reach_add.hyps by (auto simp: list_all_iff)
  have p: "path cfg st D r p ns" using lookupname_dir [OF ok n(2)] reach_add.hyps by blast
  have "n \<notin> (\<lambda>q. e_name (ent st q)) ` kids cfg st D p"
    using lookupname_snoc [OF ok p n(1)] lookup_in_kid [OF symtab_okD(1) [OF ok]] reach_add.hyps(6) by fastforce
  moreover have "M inum = None" using lookupino_map [OF symtab_okD(2) [OF ok], of inum] reach_add.hyps by simp
  ultimately show ?case
    using addentry_ok [OF ok p _ _ n(1), of ty inum] reach_add.hyps unfolding pathname_snoc by (metis prod.inject sum.inject(2))
next
  case (reach_mark st fl q)
  then show ?case using symtab_ok_flags(1) by blast
next
  case (reach_free st n ns p q st')
  then obtain D r M where ok: "symtab_ok cfg st D r M" by blast
  have n: "name_ok n" "\<And>m. m \<in> set ns \<Longrightarrow> name_ok m" using reach_free.hyps by (auto simp: list_all_iff)
  have p: "path cfg st D r p ns" using lookupname_dir [OF ok n(2)] reach_free.hyps by blast
  have "lookup_in cfg st n p = Inr (Some q)" using lookupname_snoc [OF ok p n(1)] reach_free.hyps by simp
  then have q: "q \<in> kids cfg st D p" using lookup_in_dir(1) [OF symtab_okD(1) [OF ok]] reach_free.hyps by blast
  have "M (e_ino (ent st q)) = Some q"
    using lookupino_map [OF symtab_okD(2) [OF ok], of "e_ino (ent st q)"] reach_free.hyps by simp
  then show ?case
    using freeentry_ok [OF ok q no_entries_kids [OF symtab_okD(1) [OF ok]]] reach_free.hyps by (metis sum.inject(2))
qed

theorem symtab_wf_witness:
  "\<exists>st np st' D r M. newsymtable sample_scfg = Inr st \<and> addentry sample_scfg a_name 12 LEAF st = Inr (np, st')
    \<and> symtab_ok sample_scfg st' D r M"
proof (rule sample_table)
  fix st np st' D'
  assume s: "newsymtable sample_scfg = Inr st" "addentry sample_scfg a_name 12 LEAF st = Inr (np, st')"
  obtain st0 where s0: "newsymtable sample_scfg = Inr st0" and ok: "symtab_ok sample_scfg st0 (\<lambda>p j. []) 0 [ROOTINO \<mapsto> 0]"
    and r: "path sample_scfg st0 (\<lambda>p j. []) 0 0 []" "isdir st0 0" "e_type (ent st0 0) = NODE" "kids sample_scfg st0 (\<lambda>p j. []) 0 = {}"
    by (rule sample_new) blast
  have st: "st0 = st" using s(1) s0 by simp
  have "symtab_reach sample_scfg st'"
  proof (rule reach_add [OF reach_new [OF s0], where n = "[0x61]" and ns = "[]" and p = 0 and ty = LEAF and inum = 12 and np = np])
    show "lookupname sample_scfg (pathname []) st0 = Inr (Some 0)"
      by (rule lookupname_path [OF r(1) symtab_okD(1) [OF ok] symtab_ok_root [OF ok]])
    show "lookupname sample_scfg (pathname ([] @ [[0x61]])) st0 = Inr None"
      using lookupname_snoc [OF ok r(1) name_ok_a(1)] lookup_in_none [OF symtab_okD(1) [OF ok] r(2), of "[0x61]"] r(4) by simp
    show "lookupino sample_scfg 12 st0 = Inr None"
      using lookupino_map [OF symtab_okD(2) [OF ok], of 12] sample_inum(2) by simp
    show "addentry sample_scfg (pathname ([] @ [[0x61]])) 12 LEAF st0 = Inr (np, st')" using s(2) by (simp add: st a_name_path)
  qed (use r name_ok_a sample_inum in simp_all)
  moreover have "table_cfg sample_scfg"
    by (simp add: table_cfg_def sample_scfg_def HASHFACTOR_def in_table_def WINO_def ROOTINO_def)
  ultimately show ?thesis using symtab_wf s by blast
qed

end
