(* ===== verification/Restore_Acts.thy ===== *)
theory Restore_Acts
  imports Symtab_Ops
begin

text \<open>
  What restore does to the file system it restores (restore/restore.c and restore/utilities.c): the updates of the
  symbol table for an incremental dump, the system calls that go with them, and the checks at the end.
\<close>

section \<open>System calls\<close>

text \<open>
  The calls and their names; how each one ends is a parameter, a function of the calls before it.
\<close>

datatype fs_call = Rename "byte list" "byte list" | Mkdir "byte list" | Rmdir "byte list" | Unlink "byte list"
  | Link_Call "byte list" "byte list" | Symlink "byte list" "byte list" | Getflags "byte list" | Setflags "byte list"

text \<open>The options and maps of a run: \<open>sc\<close> are those the symbol table uses.\<close>

record acfg =
  sc :: scfg
  command :: char
  uflag :: bool
  hflag :: bool
  vflag :: bool
  mflag :: bool
  compare_ignore_not_found :: bool
  Lflag :: nat
  dumpmap :: "byte list"
  usedinomap :: "byte list"
  os :: "fs_call list \<Rightarrow> fs_call \<Rightarrow> bool"

record restore =
  tab :: symtab
  removelist :: "eptr option"
  calls :: "fs_call list"
  compare_errors :: nat

definition EXTRACT :: u16 where "EXTRACT = 0x0001"
definition KEEP :: u16 where "KEEP = 0x0004"
definition EXISTED :: u16 where "EXISTED = 0x0040"

definition flagged :: "u16 \<Rightarrow> symtab \<Rightarrow> eptr \<Rightarrow> bool" where
  "flagged fl st p \<longleftrightarrow> e_flags (ent st p) AND fl \<noteq> 0"

definition set_flags :: "u16 \<Rightarrow> eptr \<Rightarrow> symtab \<Rightarrow> symtab" where
  "set_flags fl = upd (\<lambda>e. e\<lparr>e_flags := e_flags e OR fl\<rparr>)"

definition clear_flags :: "u16 \<Rightarrow> eptr \<Rightarrow> symtab \<Rightarrow> symtab" where
  "clear_flags fl = upd (\<lambda>e. e\<lparr>e_flags := e_flags e AND NOT fl\<rparr>)"

text \<open>Operations of the table on the whole state.\<close>

definition in_tab :: "(symtab \<Rightarrow> symtab) \<Rightarrow> restore \<Rightarrow> restore" where
  "in_tab f s = s\<lparr>tab := f (tab s)\<rparr>"

definition on_tab :: "(symtab \<Rightarrow> restore_stop + symtab) \<Rightarrow> restore \<Rightarrow> restore_stop + restore" where
  "on_tab f s = bindE (f (tab s)) (\<lambda>t. Inr (s\<lparr>tab := t\<rparr>))"

definition add_entry :: "acfg \<Rightarrow> byte list \<Rightarrow> dump_ino_t \<Rightarrow> byte \<Rightarrow> restore \<Rightarrow> restore_stop + eptr \<times> restore" where
  "add_entry cfg name ino ty s =
     bindE (addentry (sc cfg) name ino ty (tab s)) (\<lambda>(p, t). Inr (p, s\<lparr>tab := t\<rparr>))"

abbreviation free_entry :: "acfg \<Rightarrow> eptr \<Rightarrow> restore \<Rightarrow> restore_stop + restore" where
  "free_entry cfg p \<equiv> on_tab (freeentry (sc cfg) p)"

definition bad_entry :: "acfg \<Rightarrow> eptr \<Rightarrow> restore \<Rightarrow> restore_stop + unit" where
  "bad_entry cfg p s = badentry (sc cfg) (tab s) p"

definition bad_if :: "bool \<Rightarrow> acfg \<Rightarrow> eptr \<Rightarrow> restore \<Rightarrow> restore_stop + unit" where
  "bad_if b cfg p s = (if b then bad_entry cfg p s else Inr ())"

definition my_name :: "acfg \<Rightarrow> eptr \<Rightarrow> restore \<Rightarrow> restore_stop + byte list" where
  "my_name cfg p s = myname (sc cfg) (tab s) p"

text \<open>\<open>Dprintf\<close> of a name: under \<open>dflag\<close> it is made, which can fail.\<close>

definition debug_name :: "acfg \<Rightarrow> eptr \<Rightarrow> restore \<Rightarrow> restore_stop + unit" where
  "debug_name cfg p s = (if dflag (sc cfg) then bindE (my_name cfg p s) (\<lambda>_. Inr ()) else Inr ())"

text \<open>A call is made unless \<open>Nflag\<close> is set; then the code goes on as after a success.\<close>

definition sys :: "acfg \<Rightarrow> fs_call \<Rightarrow> restore \<Rightarrow> bool \<times> restore" where
  "sys cfg c s = (if Nflag (sc cfg) then (True, s) else (os cfg (calls s) c, s\<lparr>calls := calls s @ [c]\<rparr>))"


section \<open>Names, directories and leaves\<close>

definition renameit :: "acfg \<Rightarrow> byte list \<Rightarrow> byte list \<Rightarrow> restore \<Rightarrow> restore" where
  "renameit cfg old new s = snd (sys cfg (Rename old new) s)"

definition mktempname :: "acfg \<Rightarrow> eptr \<Rightarrow> restore \<Rightarrow> restore_stop + restore" where
  "mktempname cfg ep s =
     bindE (bad_if (flagged TMPNAME (tab s) ep) cfg ep s) (\<lambda>_.
     let s = in_tab (set_flags TMPNAME ep) s
     in bindE (my_name cfg ep s) (\<lambda>oldname.
        bindE (gentempname (sc cfg) ep (tab s)) (\<lambda>tmp.
        let s = in_tab (upd (set_name tmp) ep) s
        in bindE (my_name cfg ep s) (\<lambda>newname. Inr (renameit cfg oldname newname s)))))"

definition newnode :: "acfg \<Rightarrow> eptr \<Rightarrow> restore \<Rightarrow> restore_stop + restore" where
  "newnode cfg np s =
     bindE (bad_if (e_type (ent (tab s) np) \<noteq> NODE) cfg np s) (\<lambda>_.
     bindE (my_name cfg np s) (\<lambda>cp.
       if command cfg = CHR ''C'' then Inr s
       else let (ok, s) = sys cfg (Mkdir cp) s
            in Inr (if \<not> ok \<and> \<not> uflag cfg then in_tab (set_flags EXISTED np) s else s)))"

definition bad_children :: "acfg \<Rightarrow> eptr \<Rightarrow> restore \<Rightarrow> restore_stop + unit" where
  "bad_children cfg ep s =
     (case e_entries (ent (tab s) ep) of
        None \<Rightarrow> Inr ()
      | Some es \<Rightarrow> foldr (\<lambda>x r. bindE (bad_if (x \<noteq> None) cfg ep s) (\<lambda>_. r)) es (Inr ()))"

definition mark_removed :: "eptr \<Rightarrow> restore \<Rightarrow> restore" where
  "mark_removed ep = in_tab (clear_flags TMPNAME ep \<circ> set_flags REMOVED ep)"

definition removenode :: "acfg \<Rightarrow> eptr \<Rightarrow> restore \<Rightarrow> restore_stop + restore" where
  "removenode cfg ep s =
     bindE (bad_if (e_type (ent (tab s) ep) \<noteq> NODE) cfg ep s) (\<lambda>_.
     bindE (bad_children cfg ep s) (\<lambda>_.
     let s = mark_removed ep s
     in bindE (my_name cfg ep s) (\<lambda>cp. Inr (snd (sys cfg (Rmdir cp) s)))))"

definition removeleaf :: "acfg \<Rightarrow> eptr \<Rightarrow> restore \<Rightarrow> restore_stop + restore" where
  "removeleaf cfg ep s =
     (if command cfg = CHR ''C'' then Inr s
      else bindE (bad_if (e_type (ent (tab s) ep) \<noteq> LEAF) cfg ep s) (\<lambda>_.
           let s = mark_removed ep s
           in bindE (my_name cfg ep s) (\<lambda>cp. Inr (snd (sys cfg (Unlink cp) s)))))"

text \<open>
  \<open>linkit\<close>, whose result is \<open>GOOD\<close> or not.  When a hard link fails, it is tried again with the attributes of
  the file cleared.
\<close>

definition relink :: "acfg \<Rightarrow> byte list \<Rightarrow> byte list \<Rightarrow> restore \<Rightarrow> bool \<times> restore" where
  "relink cfg existing new s =
     (let (ok, s) = sys cfg (Getflags existing) s
      in if \<not> ok then (False, s)
         else let (ok, s) = sys cfg (Setflags existing) s
              in if \<not> ok then (False, s)
                 else let (ret, s) = sys cfg (Link_Call existing new) s
                      in (ret, snd (sys cfg (Setflags existing) s)))"

definition linkit :: "acfg \<Rightarrow> byte list \<Rightarrow> byte list \<Rightarrow> bool \<Rightarrow> restore \<Rightarrow> bool \<times> restore" where
  "linkit cfg existing new symbolic s =
     (let s = (if uflag cfg then snd (sys cfg (Unlink new) s) else s)
      in if symbolic then sys cfg (Symlink existing new) s
         else let (ok, s) = sys cfg (Link_Call existing new) s
              in if ok then (True, s) else relink cfg existing new s)"

text \<open>
  The lowest number from \<open>start\<close> on, and the highest one down from it, of a leaf that is to be extracted.
\<close>

definition wanted :: "acfg \<Rightarrow> symtab \<Rightarrow> eptr option \<Rightarrow> bool" where
  "wanted cfg st r = (case r of None \<Rightarrow> False | Some p \<Rightarrow> e_type (ent st p) \<noteq> NODE \<and> flagged (NEW OR EXTRACT) st p)"

function lowerbnd :: "acfg \<Rightarrow> symtab \<Rightarrow> dump_ino_t \<Rightarrow> restore_stop + dump_ino_t" where
  "lowerbnd cfg st start =
     (if start < r_maxino (sc cfg)
      then case lookupino (sc cfg) start st of
             Inl x \<Rightarrow> Inl x
           | Inr r \<Rightarrow> if wanted cfg st r then Inr start else lowerbnd cfg st (start + 1)
      else Inr start)"
  by pat_completeness auto
termination
proof (relation "measure (\<lambda>(cfg, st, start). unat (r_maxino (sc cfg)) - unat start)")
  fix cfg :: acfg and st :: symtab and start :: dump_ino_t
  assume a: "start < r_maxino (sc cfg)"
  then have "unat start + 1 < 2 ^ 32" using unsigned_less [of "r_maxino (sc cfg)", where 'a = nat] by (simp add: word_less_nat_alt)
  then have "unat (start + 1) = unat start + 1" by (simp add: unat_word_ariths)
  then show "((cfg, st, start + 1), cfg, st, start) \<in> measure (\<lambda>(cfg, st, start). unat (r_maxino (sc cfg)) - unat start)"
    using a by (simp add: word_less_nat_alt)
qed simp

function upperbnd :: "acfg \<Rightarrow> symtab \<Rightarrow> dump_ino_t \<Rightarrow> restore_stop + dump_ino_t" where
  "upperbnd cfg st start =
     (if start > ROOTINO
      then case lookupino (sc cfg) start st of
             Inl x \<Rightarrow> Inl x
           | Inr r \<Rightarrow> if wanted cfg st r then Inr start else upperbnd cfg st (start - 1)
      else Inr start)"
  by pat_completeness auto
termination
proof (relation "measure (\<lambda>(cfg, st, start). unat start)")
  fix cfg :: acfg and st :: symtab and start :: dump_ino_t
  assume "start > ROOTINO"
  then have "start \<noteq> 0" by auto
  then have "unat (start - 1) < unat start" using unat_gt_0 [of start] by (simp add: unat_minus_one)
  then show "((cfg, st, start - 1), cfg, st, start) \<in> measure (\<lambda>(cfg, st, start). unat start)" by simp
qed simp

declare lowerbnd.simps [simp del] upperbnd.simps [simp del]

text \<open>
  \<open>pathcheck\<close>: \<open>search\<close> is the inode number that \<open>pathsearch\<close> finds for a name on the tape (a null pointer
  when there is none).  The prefixes of the name end before its slashes.
\<close>

fun prefixes_at_slash :: "byte list \<Rightarrow> byte list \<Rightarrow> byte list list" where
  "prefixes_at_slash done [] = []"
| "prefixes_at_slash done (b # bs) =
     (if b = slash then done # prefixes_at_slash (done @ [b]) bs else prefixes_at_slash (done @ [b]) bs)"

fun check_paths :: "acfg \<Rightarrow> (byte list \<Rightarrow> dump_ino_t option) \<Rightarrow> byte list list \<Rightarrow> restore \<Rightarrow> restore_stop + restore" where
  "check_paths cfg on_tape [] s = Inr s"
| "check_paths cfg on_tape (name # names) s =
     bindE (lookupname (sc cfg) name (tab s)) (\<lambda>r.
     bindE (case r of
              Some ep \<Rightarrow> Inr (ep, s)
            | None \<Rightarrow> (case on_tape name of
                None \<Rightarrow> Inl Crash
              | Some ino \<Rightarrow> bindE (add_entry cfg name ino NODE s) (\<lambda>(ep, s).
                  bindE (newnode cfg ep s) (\<lambda>s. Inr (ep, s))))) (\<lambda>(ep, s).
       check_paths cfg on_tape names (in_tab (set_flags (NEW OR KEEP) ep) s)))"

definition pathcheck :: "acfg \<Rightarrow> (byte list \<Rightarrow> dump_ino_t option) \<Rightarrow> byte list \<Rightarrow> restore \<Rightarrow> restore_stop + restore" where
  "pathcheck cfg on_tape name = check_paths cfg on_tape (prefixes_at_slash [] name)"

section \<open>Listing, requests\<close>

text \<open>\<open>listfile\<close>: the lines it prints; the result is whether to go on below a directory.\<close>

definition listfile :: "acfg \<Rightarrow> byte list \<Rightarrow> dump_ino_t \<Rightarrow> bool \<Rightarrow> (dump_ino_t \<times> byte list) list
    \<Rightarrow> restore_stop + bool \<times> (dump_ino_t \<times> byte list) list" where
  "listfile cfg name ino node out = Inr (hflag cfg, if TSTINO ino (dumpmap cfg) then out @ [(ino, name)] else out)"

definition ty_of :: "bool \<Rightarrow> byte" where
  "ty_of node = (if node then NODE else LEAF)"

text \<open>
  \<open>addfile\<close>; \<open>lit\<close> is the call of \<open>genliteraldir\<close>, whose result is ignored.  The names of the links are
  compared along \<open>e_links\<close>.
\<close>

fun named_link :: "acfg \<Rightarrow> byte list \<Rightarrow> restore \<Rightarrow> nat \<Rightarrow> eptr option \<Rightarrow> restore_stop + eptr option" where
  "named_link cfg name s n None = Inr None"
| "named_link cfg name s 0 (Some p) = Inl No_Return"
| "named_link cfg name s (Suc n) (Some p) =
     bindE (my_name cfg p s) (\<lambda>m. if name = m then Inr (Some p) else named_link cfg name s n (e_links (ent (tab s) p)))"

definition addfile :: "acfg \<Rightarrow> (byte list \<Rightarrow> dump_ino_t \<Rightarrow> restore \<Rightarrow> restore_stop + restore) \<Rightarrow> byte list \<Rightarrow> dump_ino_t \<Rightarrow> bool
    \<Rightarrow> restore \<Rightarrow> restore_stop + bool \<times> restore" where
  "addfile cfg lit name ino node s =
     (let descend = hflag cfg in
      if \<not> TSTINO ino (dumpmap cfg) then Inr (descend, s)
      else if ino = WINO \<and> command cfg = CHR ''i'' \<and> \<not> vflag cfg then Inr (descend, s)
      else let name = (if mflag cfg then name else map of_char (''./'' @ dec_nat (unat ino))) in
      if \<not> mflag cfg \<and> node then bindE (lit name ino s) (\<lambda>s. Inr (descend, s))
      else
        bindE (lookupino (sc cfg) ino (tab s)) (\<lambda>r.
        bindE (named_link cfg name s (length (heap (tab s))) r) (\<lambda>found.
          case found of
            Some p \<Rightarrow> Inr (descend, in_tab (set_flags NEW p) s)
          | None \<Rightarrow>
              let ty = (if r = None then ty_of node else ty_of node OR LINK)
              in bindE (add_entry cfg name ino ty s) (\<lambda>(ep, s).
                 bindE (if ty = NODE then newnode cfg ep s else Inr s) (\<lambda>s.
                   Inr (descend, in_tab (set_flags NEW ep) s))))))"

definition deletefile :: "acfg \<Rightarrow> byte list \<Rightarrow> dump_ino_t \<Rightarrow> bool \<Rightarrow> restore \<Rightarrow> restore_stop + bool \<times> restore" where
  "deletefile cfg name ino node s =
     (if \<not> TSTINO ino (dumpmap cfg) then Inr (hflag cfg, s)
      else bindE (lookupname (sc cfg) name (tab s)) (\<lambda>r.
        case r of
          None \<Rightarrow> Inr (hflag cfg, s)
        | Some ep \<Rightarrow>
            let s = in_tab (set_flags REMOVED ep \<circ> clear_flags NEW ep) s
            in bindE (if e_type (ent (tab s) ep) \<noteq> NODE then free_entry cfg ep s else Inr s) (\<lambda>s. Inr (hflag cfg, s))))"


section \<open>Incremental restore\<close>

text \<open>\<open>deleteino\<close> of a directory that is to go, which joins the list of directories to be removed.\<close>

definition put_off :: "acfg \<Rightarrow> eptr \<Rightarrow> restore \<Rightarrow> restore_stop + restore" where
  "put_off cfg ep s =
     bindE (on_tab (deleteino (sc cfg) (e_ino (ent (tab s) ep))) s) (\<lambda>s.
       Inr ((in_tab (upd (\<lambda>e. e\<lparr>e_next := removelist s\<rparr>) ep) s)\<lparr>removelist := Some ep\<rparr>))"

text \<open>
  \<open>removeoldleaves\<close>.  A loop \<open>for (...; ep != NULL; ep = ep->e_links)\<close> is bounded by the number of entries: its
  body changes no link of an entry that comes later.
\<close>

fun whiteouts :: "acfg \<Rightarrow> nat \<Rightarrow> eptr option \<Rightarrow> restore \<Rightarrow> restore_stop + restore" where
  "whiteouts cfg n None s = Inr s"
| "whiteouts cfg 0 (Some ep) s = Inl No_Return"
| "whiteouts cfg (Suc n) (Some ep) s =
     (let nextep = e_links (ent (tab s) ep) in
      bindE (follow (e_parent (ent (tab s) ep))) (\<lambda>par.
      let mydirino = e_ino (ent (tab s) par) in
      bindE (if TSTINO mydirino (usedinomap cfg) \<and> \<not> TSTINO mydirino (dumpmap cfg) then Inr s
             else free_entry cfg ep s) (\<lambda>s. whiteouts cfg n nextep s)))"

definition remove_old :: "acfg \<Rightarrow> eptr \<Rightarrow> restore \<Rightarrow> restore_stop + restore" where
  "remove_old cfg ep s =
     bindE (debug_name cfg ep s) (\<lambda>_.
     if e_type (ent (tab s) ep) = LEAF
     then bindE (removeleaf cfg ep s) (free_entry cfg ep)
     else bindE (mktempname cfg ep s) (put_off cfg ep))"

fun each_link :: "(eptr \<Rightarrow> restore \<Rightarrow> restore_stop + restore) \<Rightarrow> nat \<Rightarrow> eptr option \<Rightarrow> restore \<Rightarrow> restore_stop + restore" where
  "each_link f n None s = Inr s"
| "each_link f 0 (Some ep) s = Inl No_Return"
| "each_link f (Suc n) (Some ep) s = bindE (f ep s) (\<lambda>s. each_link f n (e_links (ent (tab s) ep)) s)"

text \<open>A loop over the inode numbers from \<open>i\<close> to the last.\<close>

fun each_ino :: "(dump_ino_t \<Rightarrow> restore \<Rightarrow> restore_stop + restore) \<Rightarrow> dump_ino_t list \<Rightarrow> restore \<Rightarrow> restore_stop + restore" where
  "each_ino f [] s = Inr s"
| "each_ino f (i # is) s = bindE (f i s) (each_ino f is)"

definition inos_from :: "acfg \<Rightarrow> dump_ino_t \<Rightarrow> dump_ino_t list" where
  "inos_from cfg i = map of_nat [unat i..<unat (r_maxino (sc cfg))]"

definition remove_unused :: "acfg \<Rightarrow> dump_ino_t \<Rightarrow> restore \<Rightarrow> restore_stop + restore" where
  "remove_unused cfg i s =
     bindE (lookupino (sc cfg) i (tab s)) (\<lambda>r.
       if r = None \<or> TSTINO i (usedinomap cfg) then Inr s
       else each_link (remove_old cfg) (length (heap (tab s))) r s)"

definition removeoldleaves :: "acfg \<Rightarrow> restore \<Rightarrow> restore_stop + restore" where
  "removeoldleaves cfg s =
     bindE (lookupino (sc cfg) WINO (tab s)) (\<lambda>r.
     bindE (whiteouts cfg (length (heap (tab s))) r s)
       (each_ino (remove_unused cfg) (inos_from cfg (ROOTINO + 1))))"

text \<open>
  \<open>nodeupdates\<close>.  First the keys: the entry of the name, whether it is a link, and the entry of the number,
  or the one of its links that has the name.
\<close>

record found =
  f_np :: "eptr option"
  f_link :: bool
  f_ip :: "eptr option"

fun has_link :: "symtab \<Rightarrow> eptr option \<Rightarrow> nat \<Rightarrow> eptr option \<Rightarrow> restore_stop + bool" where
  "has_link st np n None = Inr False"
| "has_link st np 0 (Some ep) = Inl No_Return"
| "has_link st np (Suc n) (Some ep) = (if Some ep = np then Inr True else has_link st np n (e_links (ent st ep)))"

definition find_both :: "acfg \<Rightarrow> byte list \<Rightarrow> dump_ino_t \<Rightarrow> restore \<Rightarrow> restore_stop + found" where
  "find_both cfg name ino s =
     (let st = tab s in
      bindE (lookupname (sc cfg) name st) (\<lambda>np.
      bindE (case np of
               None \<Rightarrow> Inr False
             | Some p \<Rightarrow> bindE (lookupino (sc cfg) (e_ino (ent st p)) st) (\<lambda>ip.
                 bindE (if ip = None then panic (rcfg.truncate (sc cfg)) else Inr ()) (\<lambda>_. Inr (ip \<noteq> np)))) (\<lambda>lnk.
      bindE (lookupino (sc cfg) ino st) (\<lambda>ip.
      case ip of
        None \<Rightarrow> Inr \<lparr> f_np = np, f_link = lnk, f_ip = None \<rparr>
      | Some q \<Rightarrow> bindE (has_link st np (length (heap st)) (e_links (ent st q))) (\<lambda>b.
          Inr \<lparr> f_np = np, f_link = lnk, f_ip = (if b then np else ip) \<rparr>)))))"

text \<open>A name that belongs to another file than the number: a link is removed, another file renamed.\<close>

definition yield_name :: "acfg \<Rightarrow> bool \<Rightarrow> eptr \<Rightarrow> restore \<Rightarrow> restore_stop + restore" where
  "yield_name cfg lnk np s =
     (if lnk then bindE (removeleaf cfg np s) (free_entry cfg np) else mktempname cfg np s)"

definition resolve :: "acfg \<Rightarrow> found \<Rightarrow> restore \<Rightarrow> restore_stop + found \<times> restore" where
  "resolve cfg f s =
     (case (f_np f, f_ip f) of
        (Some np, Some ip) \<Rightarrow>
          if ip \<noteq> np then
            bindE (if f_link f then Inr () else debug_name cfg np s) (\<lambda>_.
            bindE (yield_name cfg (f_link f) np s) (\<lambda>s. Inr (f\<lparr>f_np := None\<rparr>, s)))
          else Inr (f, s)
      | _ \<Rightarrow> Inr (f, s))"

definition mode_changed :: "symtab \<Rightarrow> byte \<Rightarrow> found \<Rightarrow> bool" where
  "mode_changed st ty f \<longleftrightarrow>
     (case f_ip f of None \<Rightarrow> False | Some ip \<Rightarrow> e_type (ent st ip) \<noteq> ty) \<or>
     (case f_np f of None \<Rightarrow> False | Some np \<Rightarrow> e_type (ent st np) \<noteq> ty)"

text \<open>The dispositions.\<close>

definition new_file :: "acfg \<Rightarrow> byte list \<Rightarrow> dump_ino_t \<Rightarrow> byte \<Rightarrow> restore \<Rightarrow> restore_stop + bool \<times> restore" where
  "new_file cfg name ino ty s =
     bindE (add_entry cfg name ino ty s) (\<lambda>(ep, s).
     bindE (if ty = NODE then newnode cfg ep s else Inr s) (\<lambda>s.
       Inr (True, in_tab (set_flags (NEW OR KEEP) ep) s)))"

definition other_name :: "acfg \<Rightarrow> byte list \<Rightarrow> dump_ino_t \<Rightarrow> byte \<Rightarrow> bool \<Rightarrow> eptr \<Rightarrow> restore \<Rightarrow> restore_stop + bool \<times> restore" where
  "other_name cfg name ino ty ontape ip s =
     (let s = (if ontape \<and> ty = LEAF \<and> \<not> flagged KEEP (tab s) ip then in_tab (set_flags EXTRACT ip) s else s) in
      if \<not> flagged KEEP (tab s) ip then
        bindE (my_name cfg ip s) (\<lambda>old.
        bindE (on_tab (moveentry (sc cfg) ip name) (renameit cfg old name s)) (\<lambda>s.
          Inr (True, in_tab (set_flags KEEP ip) s)))
      else if e_type (ent (tab s) ip) = NODE then bindE (my_name cfg ip s) (\<lambda>_. Inr (False, s))
      else bindE (add_entry cfg name ino (ty OR LINK) s) (\<lambda>(ep, s). Inr (True, in_tab (set_flags NEW ep) s)))"

definition same_name :: "acfg \<Rightarrow> byte list \<Rightarrow> dump_ino_t \<Rightarrow> byte \<Rightarrow> bool \<Rightarrow> eptr \<Rightarrow> restore \<Rightarrow> restore_stop + bool \<times> restore" where
  "same_name cfg name ino ty lnk np s =
     (if lnk then
        bindE (removeleaf cfg np s) (\<lambda>s.
        bindE (free_entry cfg np s) (\<lambda>s.
        bindE (add_entry cfg name ino (ty OR LINK) s) (\<lambda>(ep, s).
        bindE (if ty = NODE then newnode cfg ep s else Inr s) (\<lambda>s.
          Inr (True, in_tab (set_flags (NEW OR KEEP) ep) s)))))
      else
        let s = (if ty = LEAF then in_tab (set_flags EXTRACT np) s else s)
        in Inr (True, in_tab (set_flags KEEP np) s))"

definition drop_leaf :: "acfg \<Rightarrow> eptr \<Rightarrow> restore \<Rightarrow> restore_stop + restore" where
  "drop_leaf cfg ip s =
     bindE (bad_if (e_type (ent (tab s) ip) \<noteq> LEAF) cfg ip s) (\<lambda>_.
     bindE (removeleaf cfg ip s) (free_entry cfg ip))"

definition new_mode :: "acfg \<Rightarrow> byte list \<Rightarrow> dump_ino_t \<Rightarrow> byte \<Rightarrow> eptr \<Rightarrow> restore \<Rightarrow> restore_stop + bool \<times> restore" where
  "new_mode cfg name ino ty ip s =
     (if flagged KEEP (tab s) ip then bindE (bad_entry cfg ip s) (\<lambda>_. Inr (True, s))
      else if e_type (ent (tab s) ip) = LEAF then
        bindE (each_link (drop_leaf cfg) (length (heap (tab s))) (Some ip) s) (\<lambda>s.
        bindE (add_entry cfg name ino ty s) (\<lambda>(ip, s).
        bindE (newnode cfg ip s) (\<lambda>s. Inr (True, in_tab (set_flags (NEW OR KEEP) ip) s))))
      else
        bindE (if flagged TMPNAME (tab s) ip then Inr s else mktempname cfg ip s) (\<lambda>s.
        bindE (put_off cfg ip s) (\<lambda>s.
        bindE (add_entry cfg name ino ty s) (\<lambda>(ip, s). Inr (True, in_tab (set_flags (NEW OR KEEP) ip) s)))))"

definition compare_error :: "acfg \<Rightarrow> restore \<Rightarrow> restore_stop + restore" where
  "compare_error cfg s =
     (let s = s\<lparr>compare_errors := compare_errors s + 1\<rparr>
      in if compare_errors s \<ge> Lflag cfg \<and> Lflag cfg \<noteq> 0 then Inl Exit_2 else Inr s)"

text \<open>The \<open>switch\<close> on \<open>key\<close>: on the tape, an entry of the number, of the name, the mode changed.\<close>

definition dispose :: "acfg \<Rightarrow> byte list \<Rightarrow> dump_ino_t \<Rightarrow> byte \<Rightarrow> bool \<Rightarrow> found \<Rightarrow> restore \<Rightarrow> restore_stop + bool \<times> restore" where
  "dispose cfg name ino ty ontape f s =
     (let modechg = ontape \<and> mode_changed (tab s) ty f in
      case (f_ip f, f_np f) of
        (Some ip, Some np) \<Rightarrow>
          if \<not> ontape then Inr (True, in_tab (set_flags KEEP ip) s)
          else if modechg then new_mode cfg name ino ty ip s
          else same_name cfg name ino ty (f_link f) np s
      | (Some ip, None) \<Rightarrow>
          if modechg then new_mode cfg name ino ty ip s else other_name cfg name ino ty ontape ip s
      | (None, Some np) \<Rightarrow>
          if \<not> ontape then Inr (False, s)
          else bindE (yield_name cfg (f_link f) np s) (new_file cfg name ino ty)
      | (None, None) \<Rightarrow>
          if ontape then new_file cfg name ino ty s
          else if compare_ignore_not_found cfg then Inr (True, s)
          else bindE (compare_error cfg s) (\<lambda>s. Inr (True, s)))"

definition nodeupdates :: "acfg \<Rightarrow> byte list \<Rightarrow> dump_ino_t \<Rightarrow> bool \<Rightarrow> restore \<Rightarrow> restore_stop + bool \<times> restore" where
  "nodeupdates cfg name ino node s =
     bindE (find_both cfg name ino s) (\<lambda>f.
     bindE (resolve cfg f s) (\<lambda>(f, s).
       dispose cfg name ino (ty_of node) (TSTINO ino (dumpmap cfg)) f s))"

text \<open>\<open>findunreflinks\<close>: the entries of one list, then of the lists of a directory.\<close>

fun each_sibling :: "(eptr \<Rightarrow> restore \<Rightarrow> restore_stop + restore) \<Rightarrow> nat \<Rightarrow> eptr option \<Rightarrow> restore \<Rightarrow> restore_stop + restore" where
  "each_sibling f n None s = Inr s"
| "each_sibling f 0 (Some np) s = Inl No_Return"
| "each_sibling f (Suc n) (Some np) s = bindE (f np s) (\<lambda>s. each_sibling f n (e_sibling (ent (tab s) np)) s)"

fun each_list :: "(eptr \<Rightarrow> restore \<Rightarrow> restore_stop + restore) \<Rightarrow> eptr \<Rightarrow> nat list \<Rightarrow> restore \<Rightarrow> restore_stop + restore" where
  "each_list f ep [] s = Inr s"
| "each_list f ep (j # js) s =
     (case e_entries (ent (tab s) ep) of
        None \<Rightarrow> Inl Crash
      | Some es \<Rightarrow> bindE (each_sibling f (length (heap (tab s))) (es ! j) s) (each_list f ep js))"

definition each_child :: "acfg \<Rightarrow> (eptr \<Rightarrow> restore \<Rightarrow> restore_stop + restore) \<Rightarrow> eptr \<Rightarrow> restore \<Rightarrow> restore_stop + restore" where
  "each_child cfg f ep s =
     (if e_entries (ent (tab s) ep) = None then Inr s else each_list f ep [0..<dirhash_size (sc cfg)] s)"

definition drop_unref :: "acfg \<Rightarrow> eptr \<Rightarrow> restore \<Rightarrow> restore_stop + restore" where
  "drop_unref cfg np s =
     (if flagged (NOT TMPNAME) (tab s) np then Inr s
      else bindE (debug_name cfg np s) (\<lambda>_.
        if e_type (ent (tab s) np) = LEAF then bindE (removeleaf cfg np s) (free_entry cfg np)
        else if e_ino (ent (tab s) np) \<noteq> 0 then put_off cfg np (in_tab (set_flags TMPNAME np) s)
        else Inr s))"

definition unref_dir :: "acfg \<Rightarrow> dump_ino_t \<Rightarrow> restore \<Rightarrow> restore_stop + restore" where
  "unref_dir cfg i s =
     bindE (lookupino (sc cfg) i (tab s)) (\<lambda>r.
       case r of
         None \<Rightarrow> Inr s
       | Some ep \<Rightarrow> if e_type (ent (tab s) ep) = LEAF \<or> \<not> TSTINO i (dumpmap cfg) then Inr s
                    else each_child cfg (drop_unref cfg) ep s)"

text \<open>In a directory \<open>ep\<close> of the list of directories to be removed.\<close>

definition drop_removed :: "acfg \<Rightarrow> eptr \<Rightarrow> eptr \<Rightarrow> restore \<Rightarrow> restore_stop + restore" where
  "drop_removed cfg ep np s =
     (if e_type (ent (tab s) np) = LEAF then
        bindE (bad_if (e_flags (ent (tab s) np) \<noteq> 0) cfg np s) (\<lambda>_.
        bindE (debug_name cfg np s) (\<lambda>_.
        bindE (removeleaf cfg np s) (free_entry cfg np)))
      else
        bindE (bad_if (flagged (NOT TMPNAME) (tab s) np) cfg np s) (\<lambda>_.
        if e_flags (ent (tab s) np) = 0 then
          bindE (debug_name cfg np s) (\<lambda>_.
            Inr (in_tab (\<lambda>st. upd (\<lambda>e. e\<lparr>e_next := Some np\<rparr>) ep (upd (\<lambda>e. e\<lparr>e_next := e_next (ent st ep)\<rparr>) np st)) s))
        else Inr s))"

fun each_next :: "(eptr \<Rightarrow> restore \<Rightarrow> restore_stop + restore) \<Rightarrow> nat \<Rightarrow> eptr option \<Rightarrow> restore \<Rightarrow> restore_stop + restore" where
  "each_next f n None s = Inr s"
| "each_next f 0 (Some ep) s = Inl No_Return"
| "each_next f (Suc n) (Some ep) s = bindE (f ep s) (\<lambda>s. each_next f n (e_next (ent (tab s) ep)) s)"

definition findunreflinks :: "acfg \<Rightarrow> restore \<Rightarrow> restore_stop + restore" where
  "findunreflinks cfg s =
     bindE (each_ino (unref_dir cfg) (inos_from cfg ROOTINO) s) (\<lambda>s.
       each_next (\<lambda>ep. each_child cfg (drop_removed cfg ep) ep) (length (heap (tab s))) (removelist s) s)"

text \<open>
  \<open>removeoldnodes\<close>: one walk along the list removes the directories that are empty; \<open>prev\<close> is the entry before
  (none: the head of the list).  Walks are repeated until one removes nothing: each takes an entry from
  the list at least, so as many walks as there are entries are enough.
\<close>

definition empty_lists :: "symtab \<Rightarrow> eptr \<Rightarrow> bool" where
  "empty_lists st ep \<longleftrightarrow> (case e_entries (ent st ep) of None \<Rightarrow> True | Some es \<Rightarrow> list_all (\<lambda>x. x = None) es)"

definition set_prev :: "eptr option \<Rightarrow> eptr option \<Rightarrow> restore \<Rightarrow> restore" where
  "set_prev prv nxt s =
     (case prv of None \<Rightarrow> s\<lparr>removelist := nxt\<rparr> | Some q \<Rightarrow> in_tab (upd (\<lambda>e. e\<lparr>e_next := nxt\<rparr>) q) s)"

definition get_prev :: "eptr option \<Rightarrow> restore \<Rightarrow> eptr option" where
  "get_prev prv s = (case prv of None \<Rightarrow> removelist s | Some q \<Rightarrow> e_next (ent (tab s) q))"

fun remove_walk :: "acfg \<Rightarrow> nat \<Rightarrow> eptr option \<Rightarrow> eptr option \<Rightarrow> nat \<Rightarrow> restore \<Rightarrow> restore_stop + nat \<times> restore" where
  "remove_walk cfg n prv None change s = Inr (change, s)"
| "remove_walk cfg 0 prv (Some ep) change s = Inl No_Return"
| "remove_walk cfg (Suc n) prv (Some ep) change s =
     (if \<not> empty_lists (tab s) ep
      then remove_walk cfg n (Some ep) (e_next (ent (tab s) ep)) change s
      else
        let s = set_prev prv (e_next (ent (tab s) ep)) s in
        bindE (removenode cfg ep s) (\<lambda>s.
        bindE (free_entry cfg ep s) (\<lambda>s.
          remove_walk cfg n prv (get_prev prv s) (change + 1) s)))"

fun remove_loop :: "acfg \<Rightarrow> nat \<Rightarrow> restore \<Rightarrow> restore_stop + restore" where
  "remove_loop cfg 0 s = Inl No_Return"
| "remove_loop cfg (Suc n) s =
     bindE (remove_walk cfg (length (heap (tab s))) None (removelist s) 0 s) (\<lambda>(change, s).
       if change \<noteq> 0 then remove_loop cfg n s else Inr s)"

definition removeoldnodes :: "acfg \<Rightarrow> restore \<Rightarrow> restore_stop + restore" where
  "removeoldnodes cfg s =
     bindE (remove_loop cfg (length (heap (tab s)) + 1) s) (\<lambda>s.
       each_next (\<lambda>ep s. bindE (bad_entry cfg ep s) (\<lambda>_. Inr s)) (length (heap (tab s))) (removelist s) s)"


section \<open>Links, and the checks at the end\<close>

definition make_link :: "acfg \<Rightarrow> eptr \<Rightarrow> eptr \<Rightarrow> restore \<Rightarrow> restore_stop + restore" where
  "make_link cfg ep np s =
     (if \<not> flagged NEW (tab s) np then Inr s
      else bindE (my_name cfg ep s) (\<lambda>name.
           bindE (my_name cfg np s) (\<lambda>new.
             Inr (in_tab (clear_flags NEW np) (snd (linkit cfg name new (e_type (ent (tab s) ep) = NODE) s))))))"

definition links_of :: "acfg \<Rightarrow> dump_ino_t \<Rightarrow> restore \<Rightarrow> restore_stop + restore" where
  "links_of cfg i s =
     bindE (lookupino (sc cfg) i (tab s)) (\<lambda>r.
       case r of
         None \<Rightarrow> Inr s
       | Some ep \<Rightarrow> each_link (make_link cfg ep) (length (heap (tab s))) (e_links (ent (tab s) ep)) s)"

definition clear_whiteout :: "eptr \<Rightarrow> restore \<Rightarrow> restore_stop + restore" where
  "clear_whiteout ep s = Inr (if flagged NEW (tab s) ep then in_tab (clear_flags NEW ep) s else s)"

definition createlinks :: "acfg \<Rightarrow> restore \<Rightarrow> restore_stop + restore" where
  "createlinks cfg s =
     bindE (lookupino (sc cfg) WINO (tab s)) (\<lambda>r.
     bindE (each_link clear_whiteout (length (heap (tab s))) r s)
       (each_ino (links_of cfg) (inos_from cfg ROOTINO)))"

definition check_entry :: "acfg \<Rightarrow> eptr \<Rightarrow> restore \<Rightarrow> restore_stop + restore" where
  "check_entry cfg ep s =
     (let s = in_tab (clear_flags KEEP ep) s;
          s = (if e_type (ent (tab s) ep) = NODE then in_tab (clear_flags (NEW OR EXISTED) ep) s else s)
      in bindE (bad_if (e_flags (ent (tab s) ep) \<noteq> 0) cfg ep s) (\<lambda>_. Inr s))"

definition check_ino :: "acfg \<Rightarrow> dump_ino_t \<Rightarrow> restore \<Rightarrow> restore_stop + restore" where
  "check_ino cfg i s =
     bindE (lookupino (sc cfg) i (tab s)) (\<lambda>r. each_link (check_entry cfg) (length (heap (tab s))) r s)"

definition checkrestore :: "acfg \<Rightarrow> restore \<Rightarrow> restore_stop + restore" where
  "checkrestore cfg = each_ino (check_ino cfg) (inos_from cfg WINO)"

definition verifyfile :: "acfg \<Rightarrow> byte list \<Rightarrow> dump_ino_t \<Rightarrow> bool \<Rightarrow> restore \<Rightarrow> restore_stop + bool \<times> restore" where
  "verifyfile cfg name ino node s =
     bindE (lookupname (sc cfg) name (tab s)) (\<lambda>r.
       case r of
         None \<Rightarrow> Inr (False, s)
       | Some ep \<Rightarrow>
           bindE (lookupino (sc cfg) ino (tab s)) (\<lambda>np.
           bindE (has_link (tab s) (Some ep) (length (heap (tab s))) np) (\<lambda>b.
           bindE (if b then Inr () else panic (rcfg.truncate (sc cfg))) (\<lambda>_.
           bindE (bad_if (e_type (ent (tab s) ep) = LEAF \<and> node) cfg ep s) (\<lambda>_.
             Inr (np = Some ep, s))))))"

text \<open>The phases of \<open>main\<close> around the extraction of the files, for an incremental and a full dump.\<close>

definition updates :: "acfg \<Rightarrow> ((byte list \<Rightarrow> dump_ino_t \<Rightarrow> bool \<Rightarrow> restore \<Rightarrow> restore_stop + bool \<times> restore)
    \<Rightarrow> restore \<Rightarrow> restore_stop + restore) \<Rightarrow> bool \<Rightarrow> restore \<Rightarrow> restore_stop + restore" where
  "updates cfg scan incremental s =
     (if incremental then
        bindE (removeoldleaves cfg s) (\<lambda>s.
        bindE (scan (nodeupdates cfg) s) (\<lambda>s.
        bindE (findunreflinks cfg s) (removeoldnodes cfg)))
      else scan (nodeupdates cfg) s)"

end
