(* ===== verification/Restore_Path.thy ===== *)
theory Restore_Path
  imports Restore_Acts
begin

text \<open>
  What a rename in the symbol table does to the paths of the entries: the operations of \<open>Restore_Acts\<close> that
  change a name or move an entry keep the tree, and every path below the entry gets the new prefix.
\<close>

section \<open>Renaming in the tree\<close>

text \<open>A change of names and parents only.\<close>

lemma tree_change:
  assumes t: "tree cfg st D r" and len: "length (heap st') = length (heap st)"
    and same: "\<And>x. e_sibling (ent st' x) = e_sibling (ent st x)" "\<And>x. e_entries (ent st' x) = e_entries (ent st x)"
    and root: "e_name (ent st' r) = e_name (ent st r)" "e_namlen (ent st' r) = e_namlen (ent st r)"
    and kid: "\<And>x p. x \<in> kids cfg st D p \<Longrightarrow> e_parent (ent st' x) = Some p \<and> named (ent st' x)"
    and inj: "\<And>p. inj_on (\<lambda>x. e_name (ent st' x)) (kids cfg st D p)"
  shows "tree cfg st' D r" "kids cfg st' D = kids cfg st D" "isdir st' = isdir st"
proof -
  note td = treeD [OF t]
  show i: "isdir st' = isdir st" by (simp add: isdir_def fun_eq_iff len same)
  then show k: "kids cfg st' D = kids cfg st D" by (simp add: kids_def fun_eq_iff)
  have "dir_lists cfg st' D"
    unfolding dir_lists_def len same
  proof (intro allI impI conjI)
    fix p es j assume p: "p < length (heap st)" "e_entries (ent st p) = Some es"
    show "length es = dirhash_size cfg" by (rule dir_listsD(1) [OF td(5) p])
    assume j: "j < dirhash_size cfg"
    have pl: "plist e_sibling st (es ! j) (D p j)" by (rule dir_listsD(2) [OF td(5) p j])
    show "plist e_sibling st' (es ! j) (D p j)" by (rule plist_cong [OF pl]) (use plist_heap [OF pl] len same in metis)
  qed
  moreover have "dir_kids cfg st' D r"
    unfolding dir_kids_def k using kid inj kidsD(1) [OF td(6)] by blast
  moreover have "one_list cfg st' D" using td(7) unfolding one_list_def i .
  ultimately show "tree cfg st' D r" by (intro treeI) (use td root in \<open>auto simp: i\<close>)
qed

text \<open>What a rename does to a path name: the old prefix becomes the new one.\<close>

definition moved :: "byte list list \<Rightarrow> byte list list \<Rightarrow> byte list list \<Rightarrow> byte list list" where
  "moved a b ms = (if take (length a) ms = a then b @ drop (length a) ms else ms)"

definition beneath :: "byte list list \<Rightarrow> byte list list \<Rightarrow> bool" where
  "beneath a ms \<longleftrightarrow> take (length a) ms = a"

lemma moved_beneath: "beneath a ms \<Longrightarrow> moved a b ms = b @ drop (length a) ms" "\<not> beneath a ms \<Longrightarrow> moved a b ms = ms"
  by (simp_all add: moved_def beneath_def)

lemma beneath_snoc: "beneath a (ms @ [n]) \<longleftrightarrow> beneath a ms \<or> a = ms @ [n]"
  by (auto simp: beneath_def take_Cons' dest: arg_cong [of _ _ length] split: if_splits)

lemma beneath_self [simp]: "beneath a a" "\<not> beneath (a @ [n]) a"
  by (auto simp: beneath_def dest: arg_cong [of _ _ length])

lemma beneath_length: "beneath a ms \<Longrightarrow> length a \<le> length ms"
  by (auto simp: beneath_def dest!: arg_cong [of _ _ length])

lemma moved_snoc: "a \<noteq> ms @ [n] \<Longrightarrow> moved a b (ms @ [n]) = moved a b ms @ [n]"
  using beneath_snoc [of a ms n] beneath_length [of a ms] by (cases "beneath a ms") (simp_all add: moved_beneath)

lemma moved_self [simp]: "moved a b a = b"
  by (simp add: moved_def)

lemma path_names_unique:
  assumes "tree cfg st D r" "path cfg st D r x ms" "y \<in> kids cfg st D x" "path cfg st D r p ns" "q \<in> kids cfg st D p"
    and "ms @ [e_name (ent st y)] = ns @ [e_name (ent st q)]"
    and "\<And>x y. path cfg st D r x ms \<Longrightarrow> path cfg st D r y ms \<Longrightarrow> x = y"
  shows "y = q"
proof -
  have "x = p" using assms(2,4,6,7) by simp
  then show ?thesis using assms(3,5,6) treeD(6) [OF assms(1)] by (auto simp: dir_kids_def dest: inj_onD)
qed

text \<open>
  An entry that goes from one directory to another, or stays and gets another name: every path below it has
  the new prefix, every other path is as it was.
\<close>

lemma path_move:
  assumes ok: "symtab_ok cfg st D r M" and t': "tree cfg st' D' r"
    and p: "path cfg st D r p ns" "q \<in> kids cfg st D p"
    and p2: "path cfg st D r p2 ns2" "\<not> beneath (ns @ [e_name (ent st q)]) ns2"
    and K: "\<And>x. kids cfg st' D' x = kids cfg st D x - {q} \<union> (if x = p2 then {q} else {})"
    and names: "e_name (ent st' q) = m" "\<And>y. y \<noteq> q \<Longrightarrow> e_name (ent st' y) = e_name (ent st y)"
  defines "a \<equiv> ns @ [e_name (ent st q)]" and "b \<equiv> ns2 @ [m]"
  shows "path cfg st' D' r x ms' \<longleftrightarrow> (\<exists>ms. path cfg st D r x ms \<and> ms' = moved a b ms)"
proof -
  note t = symtab_okD(1) [OF ok]
  have u: "y = q" if "path cfg st D r x ms" "y \<in> kids cfg st D x" "ms @ [e_name (ent st y)] = a" for x y ms
    by (rule path_names_unique [OF t that(1,2) p]) (use that(3) path_functional [OF ok] in \<open>auto simp: a_def\<close>)
  have pq: "x = p \<and> ms = ns" if "path cfg st D r x ms" "q \<in> kids cfg st D x" for x ms
  proof -
    have "x = p" using kidsD(2) [OF treeD(6) [OF t] that(2)] kidsD(2) [OF treeD(6) [OF t] p(2)] by simp
    then show ?thesis using path_unique [OF that(1) _ t] p(1) by simp
  qed
  have A: "path cfg st' D' r x ms" if "path cfg st D r x ms" "\<not> beneath a ms" for x ms
    using that
  proof (induction rule: path.induct)
    case (path_kid x ms y)
    have "y \<noteq> q" using pq [OF path_kid.hyps(1)] path_kid.hyps(2) path_kid.prems by (auto simp: a_def)
    then have "y \<in> kids cfg st' D' x" using path_kid.hyps(2) by (simp add: K)
    moreover have "path cfg st' D' r x ms" using path_kid.IH path_kid.prems by (simp add: beneath_snoc)
    ultimately show ?case using path.path_kid [of cfg st' D' r x ms y] names(2) [OF \<open>y \<noteq> q\<close>] by simp
  qed (rule path_root)
  have Q: "path cfg st' D' r q b"
  proof -
    have "path cfg st' D' r p2 ns2" by (rule A [OF p2(1)]) (use p2(2) in \<open>simp add: a_def\<close>)
    moreover have "q \<in> kids cfg st' D' p2" by (simp add: K)
    ultimately show ?thesis using path.path_kid [of cfg st' D' r p2 ns2 q] names(1) by (simp add: b_def)
  qed
  have B: "path cfg st' D' r x (moved a b ms)" if "path cfg st D r x ms" for x ms
    using that
  proof (induction rule: path.induct)
    case path_root
    then show ?case using path.path_root by (simp add: a_def moved_def)
  next
    case (path_kid x ms y)
    show ?case
    proof (cases "y = q")
      case True
      then have "ms @ [e_name (ent st y)] = a" using pq [OF path_kid.hyps(1)] path_kid.hyps(2) by (simp add: a_def)
      then show ?thesis using Q True by simp
    next
      case False
      then have "a \<noteq> ms @ [e_name (ent st y)]" using u [OF path_kid.hyps] by auto
      moreover have "y \<in> kids cfg st' D' x" using path_kid.hyps(2) False by (simp add: K)
      ultimately show ?thesis
        using path.path_kid [OF path_kid.IH, of y] names(2) [OF False] by (simp add: moved_snoc)
    qed
  qed
  have C: "\<exists>ms. path cfg st D r x ms \<and> ms' = moved a b ms" if "path cfg st' D' r x ms'" for x ms'
    using that
  proof (induction rule: path.induct)
    case path_root
    then show ?case using path.path_root by (intro exI [of _ "[]"]) (simp add: a_def moved_def)
  next
    case (path_kid x ms' y)
    then obtain ms where ms: "path cfg st D r x ms" "ms' = moved a b ms" by blast
    show ?case
    proof (cases "y = q")
      case True
      have "q \<in> kids cfg st D x \<or> x = p2" using path_kid.hyps(2) True by (auto simp: K split: if_splits)
      moreover have "x = p2"
        using path_kid.hyps(2) True by (auto simp: K split: if_splits)
      ultimately have "ms = ns2" using path_unique [OF ms(1) _ t] p2(1) by simp
      then have "ms' @ [e_name (ent st' y)] = b"
        using ms(2) p2(2) True names(1) by (simp add: b_def a_def moved_beneath)
      moreover have "path cfg st D r q a" using path.path_kid [OF p] by (simp add: a_def)
      ultimately show ?thesis using True by (intro exI [of _ a]) simp
    next
      case False
      then have y: "y \<in> kids cfg st D x" using path_kid.hyps(2) by (simp add: K split: if_splits)
      have "a \<noteq> ms @ [e_name (ent st y)]" using u [OF ms(1) y] False by auto
      then show ?thesis using path.path_kid [OF ms(1) y] ms(2) names(2) [OF False]
        by (intro exI [of _ "ms @ [e_name (ent st y)]"]) (simp add: moved_snoc)
    qed
  qed
  show ?thesis using B C by blast
qed

text \<open>The fields that a change of names leaves alone.\<close>

definition attr :: "entry \<Rightarrow> byte \<times> dump_ino_t \<times> eptr option \<times> bool" where
  "attr e = (e_type e, e_ino e, e_links e, e_entries e \<noteq> None)"

lemma attrD:
  assumes "attr e = attr e'"
  shows "e_type e = e_type e'" "e_ino e = e_ino e'" "e_links e = e_links e'" "(e_entries e = None) = (e_entries e' = None)"
  using assms by (auto simp: attr_def)

lemma symtab_ok_moved:
  assumes ok: "symtab_ok cfg st D r M" and t': "tree cfg st' D' r"
    and len: "length (heap st') = length (heap st)" "entry_tbl st' = entry_tbl st" "freelist st' = freelist st"
    and same: "\<And>x. e_ino (ent st' x) = e_ino (ent st x)" "\<And>x. e_next (ent st' x) = e_next (ent st x)"
    and q: "q \<in> kids cfg st D p" "path cfg st D r p2 ns2"
    and K: "\<And>x. kids cfg st' D' x = kids cfg st D x - {q} \<union> (if x = p2 then {q} else {})"
  shows "symtab_ok cfg st' D' r M"
proof -
  obtain F where F: "plist e_next st (freelist st) F" "\<And>f. f \<in> set F \<Longrightarrow> spare cfg st D r M f"
    using ok by (auto simp: symtab_ok_def)
  have m: "ino_map cfg st' M" by (rule ino_map_frame [OF symtab_okD(2) [OF ok]]) (simp_all add: len same)
  have p: "plist e_next st' (freelist st') F"
    unfolding len(3) by (rule plist_cong [OF F(1)]) (simp add: same len plist_heap [OF F(1)])
  show ?thesis
  proof (rule symtab_okI [OF t' m symtab_okD(3) [OF ok] p])
    fix f assume "f \<in> set F"
    then have f: "spare cfg st D r M f" by (rule F(2))
    then have "f \<noteq> p2" using path_reached [OF q(2)] by (auto simp: spare_def)
    then show "spare cfg st' D' r M f" using f q(1) by (auto simp: spare_def K split: if_splits)
  qed
qed

text \<open>A new name in the same directory.\<close>

lemma rename_here:
  assumes ok: "symtab_ok cfg st D r M" and p: "path cfg st D r p ns" "q \<in> kids cfg st D p"
    and n: "name_ok n" "\<forall>z \<in> kids cfg st D p. e_name (ent st z) = n \<longrightarrow> z = q"
    and st': "st' = upd (set_name n) q st"
  shows "symtab_ok cfg st' D r M" "kids cfg st' D = kids cfg st D" "isdir st' = isdir st"
    "path cfg st' D r x ms' \<longleftrightarrow> (\<exists>ms. path cfg st D r x ms \<and> ms' = moved (ns @ [e_name (ent st q)]) (ns @ [n]) ms)"
proof -
  note t = symtab_okD(1) [OF ok]
  note td = treeD [OF t]
  have l: "length (heap st') = length (heap st)" by (simp add: st')
  have ql: "q < length (heap st)" by (rule kids_heap [OF td(5) p(2)])
  have o: "ent st' x = ent st x" if "x \<noteq> q" for x using that by (simp add: st')
  have e: "ent st' q = (ent st q)\<lparr>e_name := n, e_namlen := of_nat (length n)\<rparr>" using ql by (simp add: st' set_name_def)
  have s: "e_sibling (ent st' x) = e_sibling (ent st x)" "e_entries (ent st' x) = e_entries (ent st x)"
    "e_ino (ent st' x) = e_ino (ent st x)" "e_next (ent st' x) = e_next (ent st x)" "e_parent (ent st' x) = e_parent (ent st x)" for x
    by (simp_all add: st' upd_keep set_name_def)
  have qr: "q \<noteq> r" by (rule kidsD(1) [OF td(6) p(2)])
  have inj: "inj_on (\<lambda>x. e_name (ent st' x)) (kids cfg st D y)" for y
  proof (rule inj_onI)
    fix u v assume u: "u \<in> kids cfg st D y" "v \<in> kids cfg st D y" "e_name (ent st' u) = e_name (ent st' v)"
    have yp: "y = p" if "q \<in> kids cfg st D y" using kidsD(2) [OF td(6) that] kidsD(2) [OF td(6) p(2)] by simp
    have eq: "e_name (ent st' q) = n" by (simp add: e)
    consider "u = q" "v = q" | "u = q" "v \<noteq> q" | "u \<noteq> q" "v = q" | "u \<noteq> q" "v \<noteq> q" by blast
    then show "u = v"
    proof cases
      case 2
      then have "v \<in> kids cfg st D p" using u yp by simp
      then show ?thesis using bspec [OF n(2), of v] 2 o [of v] eq u(3) by simp
    next
      case 3
      then have "u \<in> kids cfg st D p" using u yp by simp
      then show ?thesis using bspec [OF n(2), of u] 3 o [of u] eq u(3) by simp
    next
      case 4
      then show ?thesis using u o [of u] o [of v] td(6) by (auto simp: dir_kids_def dest: inj_onD)
    qed simp
  qed
  have kid: "e_parent (ent st' x) = Some y \<and> named (ent st' x)" if "x \<in> kids cfg st D y" for x y
    using kidsD [OF td(6) that] o [of x] e n(1) s(5) by (cases "x = q") (auto simp: named_def)
  note c = tree_change [OF t l s(1,2) _ _ kid inj]
  show t': "kids cfg st' D = kids cfg st D" "isdir st' = isdir st" by (rule c(2,3); simp add: o [OF qr [symmetric]])+
  have tr: "tree cfg st' D r" by (rule c(1)) (simp_all add: o [OF qr [symmetric]])
  have K: "kids cfg st' D x = kids cfg st D x - {q} \<union> (if x = p then {q} else {})" for x
  proof -
    have "x = p" if "q \<in> kids cfg st D x" using kidsD(2) [OF td(6) that] kidsD(2) [OF td(6) p(2)] by simp
    then show ?thesis using p(2) unfolding t'(1) by (cases "x = p") auto
  qed
  show "symtab_ok cfg st' D r M"
    by (rule symtab_ok_moved [OF ok tr l _ _ s(3,4) p(2,1) K]) (simp_all add: st')
  show "path cfg st' D r x ms' \<longleftrightarrow> (\<exists>ms. path cfg st D r x ms \<and> ms' = moved (ns @ [e_name (ent st q)]) (ns @ [n]) ms)"
    by (rule path_move [OF ok tr p p(1) _ K]) (simp_all add: e o)
qed

text \<open>A temporary name.\<close>

definition tmp_of :: "dump_ino_t \<Rightarrow> byte list" where
  "tmp_of ino = TMPHDR @ map of_char (dec_nat 0 @ dec_nat (unat ino))"

lemma gentempname_first:
  assumes "ino_map cfg st M" "M (e_ino (ent st q)) = Some q"
  shows "gentempname cfg q st = Inr (tmp_of (e_ino (ent st q)))"
proof -
  obtain k where "length (heap st) = Suc k" using ino_map_Some(1) [OF assms] by (cases "length (heap st)") auto
  then show ?thesis using lookupino_map [OF assms(1)] assms(2) by (simp add: gentempname_def tmp_of_def)
qed

text \<open>\<open>moveentry\<close>.\<close>

lemma set_flags_keep: "(\<And>e v. g (e\<lparr>e_flags := v\<rparr>) = g e) \<Longrightarrow> g (ent (set_flags fl p st) q) = g (ent st q)"
  "(\<And>e v. g (e\<lparr>e_flags := v\<rparr>) = g e) \<Longrightarrow> g (ent (clear_flags fl p st) q) = g (ent st q)"
  by (simp_all add: set_flags_def clear_flags_def upd_keep)

text \<open>The entry taken out of its directory gets its new parent and name and is put into the other one.\<close>

lemma move_tree:
  assumes ok: "symtab_ok cfg st D r M" and p: "path cfg st D r p ns" "q \<in> kids cfg st D p"
    and p2: "path cfg st D r p2 ns2" "\<not> beneath (ns @ [e_name (ent st q)]) ns2" "isdir st p2" "p2 \<noteq> p"
    and m: "name_ok m" "m \<notin> (\<lambda>z. e_name (ent st z)) ` kids cfg st D p2"
  obtains st1 st2 D' where "removeentry cfg q st = Inr st1"
    "insert_entry cfg p2 q (upd (\<lambda>e. e\<lparr>e_parent := Some p2\<rparr>) q st1) = Inr st2"
    "tree cfg (upd (set_name m) q st2) D' r"
    "\<And>x. kids cfg (upd (set_name m) q st2) D' x = kids cfg st D x - {q} \<union> (if x = p2 then {q} else {})"
    "length (heap st2) = length (heap st)" "entry_tbl st2 = entry_tbl st" "freelist st2 = freelist st"
    "\<And>x. e_next (ent st2 x) = e_next (ent st x)" "\<And>x. attr (ent st2 x) = attr (ent st x)"
    "\<And>x. e_flags (ent st2 x) = e_flags (ent st x)" "\<And>x. e_name (ent st2 x) = e_name (ent st x)"
    "isdir st2 = isdir st"
proof -
  note t = symtab_okD(1) [OF ok]
  note td = treeD [OF t]
  have ql: "q < length (heap st)" by (rule kids_heap [OF td(5) p(2)])
  have qr: "q \<noteq> r" by (rule kidsD(1) [OF td(6) p(2)])
  have par: "e_parent (ent st q) = Some p" by (rule kidsD(2) [OF td(6) p(2)])
  have qk: "x = p" if "q \<in> kids cfg st D x" for x using kidsD(2) [OF td(6) that] par by simp
  have p2q: "p2 \<noteq> q"
    using p2(2) path_unique [OF p2(1) _ t] path_kid [OF p] by auto
  obtain es where pe: "p < length (heap st)" "e_entries (ent st p) = Some es" by (rule isdirE [OF kids_isdir [OF p(2)]])
  obtain j where j: "j < dirhash_size cfg" "q \<in> set (D p j)" using p(2) by (auto simp: kids_def split: if_splits)
  then obtain xs ys where s: "D p j = xs @ q # ys" by (meson split_list)
  define st1 where "st1 = cut_entry es j p q xs st"
  define D1 where "D1 = D(p := (D p)(j := xs @ ys))"
  have rm: "removeentry cfg q st = Inr st1" unfolding st1_def by (rule removeentry_cut [OF t pe j(1) s par])
  note c = tree_cut [OF t pe j(1) s st1_def, folded D1_def]
  have nq1: "q \<notin> kids cfg st1 D1 x" for x using qk by (auto simp: c(2))
  define stn where "stn = upd (\<lambda>e. (set_name m e)\<lparr>e_parent := Some p2\<rparr>) q st1"
  have ln: "length (heap stn) = length (heap st1)" by (simp add: stn_def)
  have on: "ent stn x = ent st1 x" if "x \<noteq> q" for x using that by (simp add: stn_def)
  have en: "ent stn q = (ent st1 q)\<lparr>e_name := m, e_namlen := of_nat (length m), e_parent := Some p2\<rparr>"
    using ql c(3) by (simp add: stn_def set_name_def)
  have sn: "e_sibling (ent stn x) = e_sibling (ent st1 x)" "e_entries (ent stn x) = e_entries (ent st1 x)" for x
    by (simp_all add: stn_def upd_keep set_name_def)
  have kidn: "e_parent (ent stn x) = Some y \<and> named (ent stn x)" if "x \<in> kids cfg st1 D1 y" for x y
    using kidsD(2,3) [OF treeD(6) [OF c(1)] that] nq1 [of y] that on [of x] by (metis)
  have injn: "inj_on (\<lambda>x. e_name (ent stn x)) (kids cfg st1 D1 y)" for y
  proof -
    have "inj_on (\<lambda>x. e_name (ent st1 x)) (kids cfg st1 D1 y)" using treeD(6) [OF c(1)] by (simp add: dir_kids_def)
    then show ?thesis by (rule inj_on_cong [THEN iffD1, rotated]) (metis nq1 on)
  qed
  have rn: "e_name (ent stn r) = e_name (ent st1 r)" "e_namlen (ent stn r) = e_namlen (ent st1 r)"
    by (simp_all add: on [OF qr [symmetric]])
  note tn = tree_change [OF c(1) ln sn rn kidn injn]
  have p2n: "isdir stn p2" using p2(3) c(6) by (simp add: tn(3))
  obtain es2 where es2: "p2 < length (heap stn)" "e_entries (ent stn p2) = Some es2" by (rule isdirE [OF p2n])
  define k where "k = dir_hash cfg (e_name (ent st q))"
  have k: "k < dirhash_size cfg" unfolding k_def by (rule dir_hash_less [OF td(1)])
  define stf where "stf = upd (\<lambda>e. e\<lparr>e_entries := Some (es2[k := Some q])\<rparr>) p2 (upd (\<lambda>e. e\<lparr>e_sibling := es2 ! k\<rparr>) q stn)"
  define D' where "D' = D1(p2 := (D1 p2)(k := q # D1 p2 k))"
  have nn: "named (ent stn q)" "e_parent (ent stn q) = Some p2" using m(1) by (simp_all add: en named_def)
  have fresh: "e_name (ent stn q) \<notin> (\<lambda>z. e_name (ent stn z)) ` kids cfg stn D1 p2"
  proof -
    have "e_name (ent stn z) = e_name (ent st z)" if "z \<in> kids cfg st1 D1 p2" for z
      using that nq1 [of p2] on [of z] c(7) by metis
    moreover have "kids cfg st1 D1 p2 = kids cfg st D p2" using p2(4) by (simp add: c(2))
    moreover have "kids cfg stn D1 p2 = kids cfg st1 D1 p2" by (simp add: tn(2))
    ultimately have "(\<lambda>z. e_name (ent stn z)) ` kids cfg stn D1 p2 = (\<lambda>z. e_name (ent st z)) ` kids cfg st D p2" by simp
    then show ?thesis using m(2) by (simp add: en)
  qed
  have nqn: "q \<notin> kids cfg stn D1 x" for x using nq1 by (simp add: tn(2))
  have qln: "q < length (heap stn)" using ql ln c(3) by simp
  note ins = tree_insert [OF tn(1) qr nqn qln p2q es2 k nn fresh stf_def, folded D'_def]
  have e2: "e_entries (ent st1 p2) = Some es2" using es2(2) sn(2) by simp
  define st2 where "st2 = upd (\<lambda>e. e\<lparr>e_entries := Some (es2[k := Some q])\<rparr>) p2
    (upd (\<lambda>e. e\<lparr>e_sibling := es2 ! k\<rparr>) q (upd (\<lambda>e. e\<lparr>e_parent := Some p2\<rparr>) q st1))"
  have nm1: "e_name (ent (upd (\<lambda>e. e\<lparr>e_parent := Some p2\<rparr>) q st1) q) = e_name (ent st q)"
    using ql c(3,7) by simp
  have i: "insert_entry cfg p2 q (upd (\<lambda>e. e\<lparr>e_parent := Some p2\<rparr>) q st1) = Inr st2"
    using e2 p2q nm1 by (simp add: insert_entry_def st2_def k_def Let_def)
  have p2l: "p2 < length (heap st1)" using es2(1) ln by simp
  have comm: "upd (set_name m) q st2 = stf"
  proof -
    have "heap (upd (set_name m) q st2) = heap stf"
    proof (rule nth_equalityI)
      fix x assume "x < length (heap (upd (set_name m) q st2))"
      consider "x = q" | "x = p2" | "x \<noteq> q" "x \<noteq> p2" by blast
      then show "heap (upd (set_name m) q st2) ! x = heap stf ! x"
        using p2q p2l ql c(3) by cases (simp_all add: st2_def stf_def stn_def set_name_def)
    qed (simp add: st2_def stf_def stn_def)
    moreover have "freelist (upd (set_name m) q st2) = freelist stf" "entry_tbl (upd (set_name m) q st2) = entry_tbl stf"
      by (simp_all add: st2_def stf_def stn_def)
    ultimately show ?thesis by simp
  qed
  have ent_none: "(e_entries (ent st2 x) = None) = (e_entries (ent st1 x) = None)" for x
    using e2 p2q p2l by (cases "x = p2") (simp_all add: st2_def upd_keep)
  have f2: "e_next (ent st2 x) = e_next (ent st1 x)" "e_flags (ent st2 x) = e_flags (ent st1 x)" "e_name (ent st2 x) = e_name (ent st1 x)"
    "e_type (ent st2 x) = e_type (ent st1 x)" "e_ino (ent st2 x) = e_ino (ent st1 x)" "e_links (ent st2 x) = e_links (ent st1 x)" for x
    by (simp_all add: st2_def upd_keep)
  have f1: "e_flags (ent st1 x) = e_flags (ent st x)" "e_type (ent st1 x) = e_type (ent st x)" "e_links (ent st1 x) = e_links (ent st x)" for x
    by (simp_all add: st1_def cut_entry_def upd_keep)
  have n1: "(e_entries (ent st1 x) = None) = (e_entries (ent st x) = None)" if "x < length (heap st)" for x
    using c(6) [of x] that c(3) by (auto simp: isdir_def)
  have n1': "(e_entries (ent st1 x) = None) = (e_entries (ent st x) = None)" for x
  proof (cases "x = p")
    case True then show ?thesis using n1 pe(1) by simp
  next
    case False
    then show ?thesis by (cases "xs = []") (simp_all add: st1_def cut_entry_def upd_keep)
  qed
  show thesis
  proof (rule that [OF rm i])
    show "tree cfg (upd (set_name m) q st2) D' r" unfolding comm by (rule ins(1))
    show "kids cfg (upd (set_name m) q st2) D' x = kids cfg st D x - {q} \<union> (if x = p2 then {q} else {})" for x
    proof -
      have "kids cfg stf D' x = ((kids cfg stn D1)(p2 := insert q (kids cfg stn D1 p2))) x" by (simp only: ins(2))
      moreover have "kids cfg stn D1 y = ((kids cfg st D)(p := kids cfg st D p - {q})) y" for y
        using fun_cong [OF tn(2), of y] fun_cong [OF c(2), of y] by (rule trans)
      ultimately show ?thesis using qk [of x] p2(4) unfolding comm by (auto split: if_splits)
    qed
    show "length (heap st2) = length (heap st)" using c(3) by (simp add: st2_def)
    then show "isdir st2 = isdir st" using ent_none n1' by (auto simp: isdir_def fun_eq_iff)
    show "entry_tbl st2 = entry_tbl st" "freelist st2 = freelist st" using c(4,5) by (simp_all add: st2_def)
    show "e_next (ent st2 x) = e_next (ent st x)" "e_name (ent st2 x) = e_name (ent st x)" "e_flags (ent st2 x) = e_flags (ent st x)" for x
      using c(7) by (simp_all add: f2 f1)
    show "attr (ent st2 x) = attr (ent st x)" for x using c(7) by (simp add: attr_def f2 f1 ent_none n1')
  qed
qed

end
