(* ===== verification/Restore_Mirror.thy ===== *)
theory Restore_Mirror
  imports Restore_Path
begin

text \<open>
  The invariant of the updates: the names of the table are the files of the file system.  The file system is
  the set of the paths in it, changed by the calls that have succeeded; each operation of the updates makes calls that
  are possible and keeps the invariant.
\<close>

section \<open>The file system as the calls leave it\<close>

text \<open>
  A file system as the set of the paths in it, and what each call does to it when it succeeds.
\<close>

definition comps :: "byte list \<Rightarrow> byte list list" where
  "comps name = tl (strsep_all name)"

fun fs_apply :: "fs_call \<Rightarrow> byte list list set \<Rightarrow> byte list list set" where
  "fs_apply (Rename old new) F = moved (comps old) (comps new) ` F"
| "fs_apply (Mkdir p) F = insert (comps p) F"
| "fs_apply (Rmdir p) F = F - {comps p}"
| "fs_apply (Unlink p) F = F - {comps p}"
| "fs_apply (Link_Call old new) F = insert (comps new) F"
| "fs_apply (Symlink old new) F = insert (comps new) F"
| "fs_apply (Getflags p) F = F"
| "fs_apply (Setflags p) F = F"

text \<open>
  When a call is possible: the file it is about exists, the directory of a new name exists, and the name is
  free; a directory does not go below itself, and one that is removed is empty.
\<close>

definition can_make :: "byte list list set \<Rightarrow> byte list list \<Rightarrow> bool" where
  "can_make F b \<longleftrightarrow> b \<noteq> [] \<and> butlast b \<in> F \<and> b \<notin> F"

definition can_drop :: "byte list list set \<Rightarrow> byte list list \<Rightarrow> bool" where
  "can_drop F a \<longleftrightarrow> a \<in> F \<and> (\<forall>ms \<in> F. beneath a ms \<longrightarrow> ms = a)"

fun possible :: "fs_call \<Rightarrow> byte list list set \<Rightarrow> bool" where
  "possible (Rename old new) F \<longleftrightarrow> comps old \<in> F \<and> (comps new = comps old \<or> can_make F (comps new) \<and> \<not> beneath (comps old) (comps new))"
| "possible (Mkdir p) F \<longleftrightarrow> can_make F (comps p)"
| "possible (Rmdir p) F \<longleftrightarrow> can_drop F (comps p)"
| "possible (Unlink p) F \<longleftrightarrow> can_drop F (comps p)"
| "possible (Link_Call old new) F \<longleftrightarrow> comps old \<in> F \<and> can_make F (comps new)"
| "possible (Symlink old new) F \<longleftrightarrow> can_make F (comps new)"
| "possible (Getflags p) F \<longleftrightarrow> comps p \<in> F"
| "possible (Setflags p) F \<longleftrightarrow> comps p \<in> F"

text \<open>The files after a history of calls; a call that failed has changed nothing.\<close>

fun fs_after :: "acfg \<Rightarrow> fs_call list \<Rightarrow> fs_call list \<Rightarrow> byte list list set \<Rightarrow> byte list list set" where
  "fs_after cfg past [] F = F"
| "fs_after cfg past (c # cs) F = fs_after cfg (past @ [c]) cs (if os cfg past c then fs_apply c F else F)"

definition fs_run :: "acfg \<Rightarrow> fs_call list \<Rightarrow> byte list list set \<Rightarrow> byte list list set" where
  "fs_run cfg = fs_after cfg []"

lemma fs_after_snoc: "fs_after cfg past (cs @ [c]) F =
  (if os cfg (past @ cs) c then fs_apply c (fs_after cfg past cs F) else fs_after cfg past cs F)"
  by (induction cs arbitrary: past F) simp_all

lemma fs_run_snoc: "fs_run cfg (cs @ [c]) F = (if os cfg cs c then fs_apply c (fs_run cfg cs F) else fs_run cfg cs F)"
  by (simp add: fs_run_def fs_after_snoc)

lemma strsep_all_spelled: "slash \<notin> set n \<Longrightarrow> (\<And>m. m \<in> set ns \<Longrightarrow> slash \<notin> set m) \<Longrightarrow> strsep_all (n @ spelled ns) = n # ns"
proof (induction ns arbitrary: n)
  case (Cons m ns)
  then show ?case using strsep_all_append [of n "m @ spelled ns"] by simp
qed (simp add: strsep_all_name)

lemma comps_pathname: "(\<And>m. m \<in> set ns \<Longrightarrow> name_ok m) \<Longrightarrow> comps (pathname ns) = ns"
  using strsep_all_spelled [of "[0x2E]" ns] by (simp add: comps_def pathname_def name_ok_def slash_def)

text \<open>
  An entry that is still to be extracted is not in the file system yet: a leaf that is marked as new.
\<close>

definition unwritten :: "symtab \<Rightarrow> eptr \<Rightarrow> bool" where
  "unwritten st q \<longleftrightarrow> e_type (ent st q) = LEAF \<and> flagged NEW st q"

definition present :: "acfg \<Rightarrow> symtab \<Rightarrow> (eptr \<Rightarrow> nat \<Rightarrow> eptr list) \<Rightarrow> eptr \<Rightarrow> byte list list set" where
  "present cfg st D r = {ms. \<exists>q. path (sc cfg) st D r q ms \<and> \<not> unwritten st q}"

text \<open>
  A table without hard links: every entry has its own number, or none (a directory that waits to be removed),
  and every number an entry of the tree.
\<close>

definition plain_entry :: "symtab \<Rightarrow> (dump_ino_t \<Rightarrow> eptr option) \<Rightarrow> eptr \<Rightarrow> bool" where
  "plain_entry st M q \<longleftrightarrow> e_links (ent st q) = None \<and> (e_type (ent st q) = LEAF \<or> e_type (ent st q) = NODE)
     \<and> (e_type (ent st q) = NODE \<longleftrightarrow> e_entries (ent st q) \<noteq> None)
     \<and> (e_ino (ent st q) = 0 \<or> M (e_ino (ent st q)) = Some q)"

definition plain_table :: "acfg \<Rightarrow> symtab \<Rightarrow> (eptr \<Rightarrow> nat \<Rightarrow> eptr list) \<Rightarrow> eptr \<Rightarrow> (dump_ino_t \<Rightarrow> eptr option) \<Rightarrow> bool" where
  "plain_table cfg st D r M \<longleftrightarrow> (\<forall>q ms. path (sc cfg) st D r q ms \<longrightarrow> plain_entry st M q)
     \<and> (\<forall>i q. M i = Some q \<longrightarrow> (\<exists>ms. path (sc cfg) st D r q ms))"

text \<open>
  The invariant of the updates: a well-formed table that names exactly the files of the file system.
\<close>

definition mirrors :: "acfg \<Rightarrow> byte list list set \<Rightarrow> restore \<Rightarrow> (eptr \<Rightarrow> nat \<Rightarrow> eptr list) \<Rightarrow> eptr \<Rightarrow> (dump_ino_t \<Rightarrow> eptr option) \<Rightarrow> bool" where
  "mirrors cfg F s D r M \<longleftrightarrow> symtab_ok (sc cfg) (tab s) D r M \<and> plain_table cfg (tab s) D r M
     \<and> fs_run cfg (calls s) F = present cfg (tab s) D r"

text \<open>
  The runs of which this is said: calls are made, the command is not \<open>C\<close>, and no call fails that is possible.
\<close>

definition working :: "acfg \<Rightarrow> byte list list set \<Rightarrow> bool" where
  "working cfg F \<longleftrightarrow> \<not> Nflag (sc cfg) \<and> command cfg \<noteq> CHR ''C''
     \<and> (\<forall>h c. possible c (fs_run cfg h F) \<longrightarrow> os cfg h c)"

lemma sys_working:
  assumes "working cfg F" "possible c (fs_run cfg (calls s) F)"
  shows "sys cfg c s = (True, s\<lparr>calls := calls s @ [c]\<rparr>)"
    "fs_run cfg (calls s @ [c]) F = fs_apply c (fs_run cfg (calls s) F)"
  using assms by (auto simp: sys_def working_def fs_run_snoc)

lemma mirrorsI:
  "symtab_ok (sc cfg) (tab s) D r M \<Longrightarrow> plain_table cfg (tab s) D r M \<Longrightarrow> fs_run cfg (calls s) F = present cfg (tab s) D r
    \<Longrightarrow> mirrors cfg F s D r M"
  by (simp add: mirrors_def)

lemma mirrorsD:
  assumes "mirrors cfg F s D r M"
  shows "symtab_ok (sc cfg) (tab s) D r M" "plain_table cfg (tab s) D r M" "fs_run cfg (calls s) F = present cfg (tab s) D r"
  using assms by (auto simp: mirrors_def)

lemma plain_tableD:
  assumes "plain_table cfg st D r M"
  shows "path (sc cfg) st D r q ms \<Longrightarrow> plain_entry st M q" "M i = Some q \<Longrightarrow> \<exists>ms. path (sc cfg) st D r q ms"
  using assms by (auto simp: plain_table_def)

lemma plain_entryD:
  assumes "plain_entry st M q"
  shows "e_links (ent st q) = None" "e_type (ent st q) = LEAF \<or> e_type (ent st q) = NODE"
    "e_type (ent st q) = NODE \<longleftrightarrow> e_entries (ent st q) \<noteq> None"
    "e_ino (ent st q) = 0 \<or> M (e_ino (ent st q)) = Some q"
  using assms by (auto simp: plain_entry_def)

lemma plain_entry_attr: "attr (ent st' q) = attr (ent st q) \<Longrightarrow> plain_entry st' M q = plain_entry st M q"
  unfolding plain_entry_def by (simp add: attrD [of "ent st' q" "ent st q"] del: not_None_eq)

text \<open>Changes of flags other than \<open>NEW\<close> of a leaf.\<close>

lemma flags_and_or: "(w OR fl) AND v = (w AND v) OR (fl AND v)" for w :: "'a::len word"
  by (rule bit_word_eqI) (auto simp: bit_simps)

lemma set_flags_upd: "q < length (heap st) \<Longrightarrow> set_flags fl q st = upd (\<lambda>e. e\<lparr>e_flags := e_flags (ent st q) OR fl\<rparr>) q st"
  by (simp add: set_flags_def upd_def)

lemma clear_flags_upd: "q < length (heap st) \<Longrightarrow> clear_flags fl q st = upd (\<lambda>e. e\<lparr>e_flags := e_flags (ent st q) AND NOT fl\<rparr>) q st"
  by (simp add: clear_flags_def upd_def)

lemma mirrors_flags:
  assumes m: "mirrors cfg F s D r M" and st': "tab s' = upd (\<lambda>e. e\<lparr>e_flags := fl\<rparr>) q (tab s)" "calls s' = calls s"
    and p: "unwritten (tab s') q = unwritten (tab s) q"
  shows "mirrors cfg F s' D r M" "kids (sc cfg) (tab s') D = kids (sc cfg) (tab s) D"
    "path (sc cfg) (tab s') D r = path (sc cfg) (tab s) D r" "attr (ent (tab s') x) = attr (ent (tab s) x)"
    "isdir (tab s') = isdir (tab s)"
proof -
  note k = symtab_ok_flags [OF mirrorsD(1) [OF m] st'(1)]
  show "kids (sc cfg) (tab s') D = kids (sc cfg) (tab s) D" "path (sc cfg) (tab s') D r = path (sc cfg) (tab s) D r" by (rule k(2,3))+
  have a: "attr (ent (tab s') x) = attr (ent (tab s) x)" for x by (simp add: st'(1) attr_def upd_keep)
  then show "attr (ent (tab s') x) = attr (ent (tab s) x)" .
  show "isdir (tab s') = isdir (tab s)" using attrD(4) [OF a] by (simp add: isdir_def fun_eq_iff st'(1))
  have pe: "unwritten (tab s') x = unwritten (tab s) x" for x
  proof (cases "x = q")
    case False
    then show ?thesis by (simp add: unwritten_def flagged_def st'(1))
  qed (use p in simp)
  show "mirrors cfg F s' D r M"
  proof (rule mirrorsI [OF k(1)])
    show "plain_table cfg (tab s') D r M"
      using mirrorsD(2) [OF m] by (simp add: plain_table_def plain_entry_attr [OF a] k(3))
    show "fs_run cfg (calls s') F = present cfg (tab s') D r"
      using mirrorsD(3) [OF m] by (simp add: st'(2) present_def k(3) pe)
  qed
qed

section \<open>The updates keep the mirror\<close>

lemma tmp_of_ok: "name_ok (tmp_of i)" "length (tmp_of i) \<le> 17"
proof -
  have d: "length (dec_nat (unat i)) \<le> 10"
  proof -
    have "unat i < 10 ^ Suc 9" using unsigned_less [of i, where 'a = nat] by simp
    then show ?thesis using length_dec_nat_le by fastforce
  qed
  have z: "length (dec_nat 0) \<le> 1" using length_dec_nat_le [of 0 0] by simp
  show l: "length (tmp_of i) \<le> 17" using d z by (simp add: tmp_of_def TMPHDR_def)
  have "of_char c \<noteq> (slash :: byte)" if "c_isdigit c" for c
  proof
    assume "of_char c = (slash :: byte)"
    then have "of_nat (of_char c) = (slash :: byte)" by (simp add: of_nat_of_char)
    then have "unat (of_nat (of_char c) :: byte) = 47" by (simp add: slash_def)
    moreover have "(of_char c :: nat) < 256" using that by (simp add: c_isdigit_def)
    ultimately have "(of_char c :: nat) = 47" by (simp only: unsigned_of_nat) (simp add: take_bit_nat_eq_self)
    then show False using that by (simp add: c_isdigit_def)
  qed
  then have "slash \<notin> set (map of_char (dec_nat n))" for n
    using dec_nat_digits [of n] unfolding list_all_iff by (metis imageE list.set_map)
  then show "name_ok (tmp_of i)"
    using l by (auto simp: name_ok_def tmp_of_def TMPHDR_def slash_def)
qed

text \<open>What \<open>myname\<close> returns for an entry with a path that is not too long.\<close>

definition short_path :: "byte list list \<Rightarrow> bool" where
  "short_path ns \<longleftrightarrow> length (pathname ns) < MAXPATHLEN - 2"

lemma my_name_path:
  assumes "mirrors cfg F s D r M" "path (sc cfg) (tab s) D r q ns" "short_path ns"
  shows "my_name cfg q s = Inr (pathname ns)"
  using myname_path [OF assms(2) symtab_okD(1) [OF mirrorsD(1) [OF assms(1)]] symtab_ok_root [OF mirrorsD(1) [OF assms(1)]]]
    assms(3) by (simp add: my_name_def short_path_def)

text \<open>Paths and files.\<close>

lemma path_snocD:
  assumes ok: "symtab_ok cfg st D r M" and p: "path cfg st D r p ns" and x: "path cfg st D r x (ns @ [n])"
  shows "x \<in> kids cfg st D p" "e_name (ent st x) = n"
proof -
  from x obtain y where "path cfg st D r y ns" "x \<in> kids cfg st D y" "e_name (ent st x) = n"
    by cases auto
  then show "x \<in> kids cfg st D p" "e_name (ent st x) = n" using path_functional [OF ok p] by auto
qed

lemma mirrors_file:
  assumes m: "mirrors cfg F s D r M" and p: "path (sc cfg) (tab s) D r x ms"
  shows "\<not> unwritten (tab s) x \<Longrightarrow> ms \<in> fs_run cfg (calls s) F"
    "isdir (tab s) x \<Longrightarrow> ms \<in> fs_run cfg (calls s) F"
proof -
  show I: "ms \<in> fs_run cfg (calls s) F" if "\<not> unwritten (tab s) x" using that p mirrorsD(3) [OF m] by (auto simp: present_def)
  assume "isdir (tab s) x"
  then have "e_type (ent (tab s) x) = NODE"
    using plain_entryD(3) [OF plain_tableD(1) [OF mirrorsD(2) [OF m] p]] by (auto simp: isdir_def)
  then show "ms \<in> fs_run cfg (calls s) F" using I by (simp add: unwritten_def NODE_def LEAF_def)
qed

lemma mirrors_no_file:
  assumes m: "mirrors cfg F s D r M" and p: "path (sc cfg) (tab s) D r p ns"
    and n: "n \<notin> (\<lambda>z. e_name (ent (tab s) z)) ` kids (sc cfg) (tab s) D p"
  shows "ns @ [n] \<notin> fs_run cfg (calls s) F"
proof
  assume "ns @ [n] \<in> fs_run cfg (calls s) F"
  then obtain x where "path (sc cfg) (tab s) D r x (ns @ [n])" using mirrorsD(3) [OF m] by (auto simp: present_def)
  from path_snocD [OF mirrorsD(1) [OF m] p this] n show False by blast
qed

text \<open>A rename in the table and in the file system.\<close>

lemma mirrors_renamed:
  assumes m: "mirrors cfg F s D r M" and w: "working cfg F"
    and ok: "symtab_ok (sc cfg) (tab s') D' r M"
    and P: "\<And>x ms'. path (sc cfg) (tab s') D' r x ms' \<longleftrightarrow> (\<exists>ms. path (sc cfg) (tab s) D r x ms \<and> ms' = moved a b ms)"
    and same: "\<And>x. attr (ent (tab s') x) = attr (ent (tab s) x)" "\<And>x. unwritten (tab s') x = unwritten (tab s) x"
    and c: "calls s' = calls s @ [Rename (pathname a) (pathname b)]"
    and n: "\<And>n. n \<in> set (a @ b) \<Longrightarrow> name_ok n"
    and po: "possible (Rename (pathname a) (pathname b)) (fs_run cfg (calls s) F)"
  shows "mirrors cfg F s' D' r M"
proof (rule mirrorsI [OF ok])
  have "plain_entry (tab s') M q" if "path (sc cfg) (tab s') D' r q ms" for q ms
    using that P plain_tableD(1) [OF mirrorsD(2) [OF m]] plain_entry_attr [OF same(1)] by blast
  moreover have "\<exists>ms. path (sc cfg) (tab s') D' r q ms" if "M i = Some q" for i q
    using plain_tableD(2) [OF mirrorsD(2) [OF m] that] P by blast
  ultimately show "plain_table cfg (tab s') D' r M" by (auto simp: plain_table_def)
  have "fs_run cfg (calls s') F = moved a b ` present cfg (tab s) D r"
    using mirrorsD(3) [OF m] n by (simp only: c sys_working(2) [OF w po]) (simp add: comps_pathname)
  also have "\<dots> = present cfg (tab s') D' r" by (auto simp: present_def P same(2))
  finally show "fs_run cfg (calls s') F = present cfg (tab s') D' r" .
qed

lemma attr_flags: "attr (ent (upd (\<lambda>e. e\<lparr>e_flags := f e\<rparr>) p st) x) = attr (ent st x)"
  by (rule upd_keep) (simp add: attr_def)

lemma attr_name: "attr (ent (upd (set_name n) p st) x) = attr (ent st x)"
  by (rule upd_keep) (simp add: attr_def set_name_def)

lemma flags_name: "e_flags (ent (upd (set_name n) p st) x) = e_flags (ent st x)"
  by (rule upd_keep) (simp add: set_name_def)

lemma unwritten_same:
  "attr (ent st' x) = attr (ent st x) \<Longrightarrow> e_flags (ent st' x) AND NEW = e_flags (ent st x) AND NEW \<Longrightarrow> unwritten st' x = unwritten st x"
  by (drule attrD(1)) (simp add: unwritten_def flagged_def)

text \<open>\<open>mktempname\<close>.\<close>

lemma mktempname_ok:
  assumes m: "mirrors cfg F s D r M" and w: "working cfg F"
    and p: "path (sc cfg) (tab s) D r p ns" "q \<in> kids (sc cfg) (tab s) D p"
    and q: "\<not> flagged TMPNAME (tab s) q \<and> \<not> unwritten (tab s) q" "M (e_ino (ent (tab s) q)) = Some q"
      "\<And>z. z \<in> kids (sc cfg) (tab s) D p \<Longrightarrow> e_name (ent (tab s) z) = tmp_of (e_ino (ent (tab s) q)) \<Longrightarrow> z = q"
  defines "a \<equiv> ns @ [e_name (ent (tab s) q)]" and "b \<equiv> ns @ [tmp_of (e_ino (ent (tab s) q))]"
  assumes len: "short_path a" "short_path b"
  obtains s' where "mktempname cfg q s = Inr s'" "mirrors cfg F s' D r M"
    "kids (sc cfg) (tab s') D = kids (sc cfg) (tab s) D" "isdir (tab s') = isdir (tab s)"
    "\<And>x ms'. path (sc cfg) (tab s') D r x ms' \<longleftrightarrow> (\<exists>ms. path (sc cfg) (tab s) D r x ms \<and> ms' = moved a b ms)"
    "\<And>x. attr (ent (tab s') x) = attr (ent (tab s) x)" "\<And>x. x \<noteq> q \<Longrightarrow> e_flags (ent (tab s') x) = e_flags (ent (tab s) x)"
    "e_flags (ent (tab s') q) = e_flags (ent (tab s) q) OR TMPNAME" "removelist s' = removelist s"
    "\<And>x. x \<noteq> q \<Longrightarrow> e_name (ent (tab s') x) = e_name (ent (tab s) x)" "e_name (ent (tab s') q) = tmp_of (e_ino (ent (tab s) q))"
    "length (heap (tab s')) = length (heap (tab s))"
proof -
  let ?t = "tmp_of (e_ino (ent (tab s) q))"
  note ok = mirrorsD(1) [OF m]
  note t = symtab_okD(1) [OF ok]
  have ql: "q < length (heap (tab s))" by (rule kids_heap [OF treeD(5) [OF t] p(2)])
  have pq: "path (sc cfg) (tab s) D r q a" unfolding a_def by (rule path_kid [OF p])
  define s1 where "s1 = in_tab (set_flags TMPNAME q) s"
  have s1: "tab s1 = upd (\<lambda>e. e\<lparr>e_flags := e_flags (ent (tab s) q) OR TMPNAME\<rparr>) q (tab s)" "calls s1 = calls s"
    using set_flags_upd [OF ql] by (simp_all add: s1_def in_tab_def)
  have f1: "e_flags (ent (tab s1) q) = e_flags (ent (tab s) q) OR TMPNAME" using ql by (simp add: s1(1))
  have pe1: "unwritten (tab s1) q = unwritten (tab s) q"
  proof (rule unwritten_same)
    show "attr (ent (tab s1) q) = attr (ent (tab s) q)" by (simp add: s1(1) attr_flags)
    show "e_flags (ent (tab s1) q) AND NEW = e_flags (ent (tab s) q) AND NEW"
      by (simp add: f1 flags_and_or NEW_def TMPNAME_def)
  qed
  note k1 = mirrors_flags [OF m s1 pe1]
  note ok1 = mirrorsD(1) [OF k1(1)]
  have n1: "my_name cfg q s1 = Inr (pathname a)"
    by (rule my_name_path [OF k1(1) _ len(1)]) (use pq in \<open>simp add: k1(3)\<close>)
  have nm1: "e_name (ent (tab s1) x) = e_name (ent (tab s) x)" for x by (simp add: s1(1) upd_keep)
  have g: "gentempname (sc cfg) q (tab s1) = Inr ?t"
    using gentempname_first [OF symtab_okD(2) [OF ok1], of q] q(2) attrD(2) [OF k1(4)] by simp
  define s2 where "s2 = in_tab (upd (set_name ?t) q) s1"
  have s2: "tab s2 = upd (set_name ?t) q (tab s1)" "calls s2 = calls s" by (simp_all add: s2_def in_tab_def s1(2))
  have p1: "path (sc cfg) (tab s1) D r p ns" "q \<in> kids (sc cfg) (tab s1) D p" using p by (simp_all add: k1(2,3))
  have u: "\<forall>z \<in> kids (sc cfg) (tab s1) D p. e_name (ent (tab s1) z) = ?t \<longrightarrow> z = q"
    using q(3) by (simp add: k1(2) nm1)
  note h = rename_here [OF ok1 p1 tmp_of_ok(1) u s2(1)]
  have P: "path (sc cfg) (tab s2) D r x ms' \<longleftrightarrow> (\<exists>ms. path (sc cfg) (tab s) D r x ms \<and> ms' = moved a b ms)" for x ms'
    using h(4) [of x ms'] by (simp add: k1(3) nm1 a_def b_def)
  have t2: "path (sc cfg) (tab s2) D r q b" using P pq by (metis moved_self)
  have n2: "my_name cfg q s2 = Inr (pathname b)"
    unfolding my_name_def
    by (rule myname_path [OF t2 symtab_okD(1) [OF h(1)] symtab_ok_root [OF h(1)]]) (rule len(2) [unfolded short_path_def])
  have na: "n \<in> set (a @ b) \<Longrightarrow> name_ok n" for n
    using path_names [OF pq t] path_names [OF t2 symtab_okD(1) [OF h(1)]] by auto
  have po: "possible (Rename (pathname a) (pathname b)) (fs_run cfg (calls s) F)"
  proof (cases "a = b")
    case True
    then show ?thesis using mirrors_file(1) [OF m pq] q(1) na by (simp add: comps_pathname)
  next
    case False
    have "?t \<notin> (\<lambda>z. e_name (ent (tab s) z)) ` kids (sc cfg) (tab s) D p"
      using q(3) False by (auto simp: a_def b_def)
    then have "b \<notin> fs_run cfg (calls s) F" unfolding b_def by (rule mirrors_no_file [OF m p(1)])
    moreover have "ns \<in> fs_run cfg (calls s) F" by (rule mirrors_file(2) [OF m p(1) kids_isdir [OF p(2)]])
    moreover have "\<not> beneath a b" using False by (simp add: beneath_def a_def b_def)
    ultimately have "can_make (fs_run cfg (calls s) F) b \<and> \<not> beneath a b" by (simp add: can_make_def b_def)
    then show ?thesis using mirrors_file(1) [OF m pq] q(1) na by (simp add: comps_pathname)
  qed
  have sy: "sys cfg (Rename (pathname a) (pathname b)) s2 = (True, s2\<lparr>calls := calls s2 @ [Rename (pathname a) (pathname b)]\<rparr>)"
    by (rule sys_working(1) [OF w]) (simp only: s2(2) po)
  define s3 where "s3 = s2\<lparr>calls := calls s2 @ [Rename (pathname a) (pathname b)]\<rparr>"
  have mk: "mktempname cfg q s = Inr s3"
    using q(1) n1 g n2 sy by (simp add: mktempname_def bad_if_def s1_def [symmetric] s2_def [symmetric] Let_def s3_def renameit_def)
  have t3: "tab s3 = tab s2" by (simp add: s3_def)
  have at: "attr (ent (tab s3) x) = attr (ent (tab s) x)" for x by (simp add: t3 s2(1) attr_name k1(4))
  have fl: "e_flags (ent (tab s3) x) = e_flags (ent (tab s1) x)" for x by (simp add: t3 s2(1) flags_name)
  have flo: "e_flags (ent (tab s3) x) = e_flags (ent (tab s) x)" if "x \<noteq> q" for x using that by (simp add: fl s1(1))
  have pe: "unwritten (tab s3) x = unwritten (tab s) x" for x
  proof (cases "x = q")
    case True
    then show ?thesis by (intro unwritten_same [OF at]) (simp add: fl f1 flags_and_or NEW_def TMPNAME_def)
  qed (intro unwritten_same [OF at]; simp add: flo)
  have ql1: "q < length (heap (tab s1))" using ql by (simp add: s1(1))
  show thesis
  proof (rule that [OF mk])
    show "mirrors cfg F s3 D r M"
    proof (rule mirrors_renamed [OF m w _ _ at pe _ na po])
      show "symtab_ok (sc cfg) (tab s3) D r M" using h(1) by (simp add: t3)
      show "path (sc cfg) (tab s3) D r x ms' \<longleftrightarrow> (\<exists>ms. path (sc cfg) (tab s) D r x ms \<and> ms' = moved a b ms)" for x ms'
        using P by (simp add: t3)
      show "calls s3 = calls s @ [Rename (pathname a) (pathname b)]" by (simp add: s3_def s2(2))
    qed
    show "path (sc cfg) (tab s3) D r x ms' \<longleftrightarrow> (\<exists>ms. path (sc cfg) (tab s) D r x ms \<and> ms' = moved a b ms)" for x ms'
      using P by (simp add: t3)
    show "kids (sc cfg) (tab s3) D = kids (sc cfg) (tab s) D" "isdir (tab s3) = isdir (tab s)"
      using h(2,3) k1(2,5) by (simp_all add: t3)
    show "e_flags (ent (tab s3) q) = e_flags (ent (tab s) q) OR TMPNAME" by (simp add: fl f1)
    show "removelist s3 = removelist s" by (simp add: s3_def s2_def s1_def in_tab_def)
    show "e_name (ent (tab s3) x) = e_name (ent (tab s) x)" if "x \<noteq> q" for x using that nm1 by (simp add: t3 s2(1))
    show "e_name (ent (tab s3) q) = ?t" using ql1 by (simp add: t3 s2(1) set_name_def)
    show "length (heap (tab s3)) = length (heap (tab s))" by (simp add: t3 s2(1) s1(1))
  qed (use at flo in auto)
qed

text \<open>An entry of the tree, and the numbers of the others, after a number is taken away.\<close>

lemma plain_without:
  assumes ok: "symtab_ok cfg st D r M" and pl: "plain_entry st M z"
    and m': "ino_map cfg st' (M(i := None))"
    and same: "fixed_part (ent st' z) = fixed_part (ent st z)"
    and z: "M i = Some z \<Longrightarrow> e_ino (ent st' z) = 0"
    and out: "z \<notin> ran M \<Longrightarrow> e_ino (ent st' z) = e_ino (ent st z)"
  shows "plain_entry st' (M(i := None)) z"
proof -
  note f = fixed_partD [OF same] and p = plain_entryD [OF pl]
  have n: "e_ino (ent st' z) = 0 \<or> (M(i := None)) (e_ino (ent st' z)) = Some z"
  proof (cases "z \<in> ran M")
    case False
    then show ?thesis using out p(4) by (auto simp: ran_def)
  next
    case True
    then obtain k where k: "M k = Some z" by (auto simp: ran_def)
    show ?thesis
    proof (cases "k = i")
      case False
      then have "(M(i := None)) k = Some z" using k by simp
      then show ?thesis using ino_map_Some(2) [OF m'] by blast
    qed (use z k in simp)
  qed
  show ?thesis unfolding plain_entry_def using n p(1,2,3) f by simp
qed

lemma ino_zero: "ino_map cfg st M \<Longrightarrow> M 0 = None"
  using ino_map_Some(3) [of cfg st M 0] by (cases "M 0") (auto simp: in_table_def WINO_def)

text \<open>A directory without its number waits for its removal.\<close>

lemma put_off_ok:
  assumes m: "mirrors cfg F s D r M" and q: "q \<in> kids (sc cfg) (tab s) D p" "M i = Some q"
  obtains s' where "put_off cfg q s = Inr s'" "mirrors cfg F s' D r (M(i := None))"
    "kids (sc cfg) (tab s') D = kids (sc cfg) (tab s) D" "isdir (tab s') = isdir (tab s)"
    "path (sc cfg) (tab s') D r = path (sc cfg) (tab s) D r"
    "\<And>x. fixed_part (ent (tab s') x) = fixed_part (ent (tab s) x)"
    "removelist s' = Some q" "e_ino (ent (tab s') q) = 0" "e_next (ent (tab s') q) = removelist s"
proof -
  note ok = mirrorsD(1) [OF m]
  note t = symtab_okD(1) [OF ok] and im = symtab_okD(2) [OF ok]
  have qi: "e_ino (ent (tab s) q) = i" by (rule ino_map_Some(2) [OF im q(2)])
  obtain st1 where d: "deleteino (sc cfg) i (tab s) = Inr st1" "ino_map (sc cfg) st1 (M(i := None))"
    "length (heap st1) = length (heap (tab s))" "freelist st1 = freelist (tab s)"
    "\<And>z. \<exists>v w. ent st1 z = (ent (tab s) z)\<lparr>e_ino := v, e_next := w\<rparr>" "\<And>z. z \<notin> ran M \<Longrightarrow> ent st1 z = ent (tab s) z"
    "\<And>z. e_ino (ent st1 z) = (if z = q then 0 else e_ino (ent (tab s) z))"
    by (rule deleteino_map [OF im q(2)]) blast
  define s' where "s' = s\<lparr>tab := upd (\<lambda>e. e\<lparr>e_next := removelist s\<rparr>) q st1, removelist := Some q\<rparr>"
  have po: "put_off cfg q s = Inr s'"
    using d(1) by (simp add: put_off_def on_tab_def in_tab_def qi s'_def)
  have t': "tab s' = upd (\<lambda>e. e\<lparr>e_next := removelist s\<rparr>) q st1" "calls s' = calls s" by (simp_all add: s'_def)
  have tp: "tree_part (ent (tab s') z) = tree_part (ent (tab s) z)" "fixed_part (ent (tab s') z) = fixed_part (ent (tab s) z)" for z
    using d(5) [of z] by (auto simp: t' tree_part_def fixed_part_def upd_keep)
  have i': "e_ino (ent (tab s') z) = (if z = q then 0 else e_ino (ent (tab s) z))" for z by (simp add: t' upd_keep d(7))
  have l: "length (heap (tab s')) = length (heap (tab s))" by (simp add: t' d(3))
  have tr: "tree (sc cfg) (tab s') D r" and K: "kids (sc cfg) (tab s') D = kids (sc cfg) (tab s) D"
    by (rule tree_same [OF t l tp(1)])+
  have P: "path (sc cfg) (tab s') D r = path (sc cfg) (tab s) D r" by (rule path_same [OF K]) (rule tree_partD(1) [OF tp(1)])
  have qM: "q \<notin> ran (M(i := None))"
    using ino_map_Some(2) [OF im] qi by (auto simp: ran_def split: if_splits)
  have im': "ino_map (sc cfg) (tab s') (M(i := None))"
  proof (rule ino_map_frame [OF d(2)])
    fix z assume "z \<in> ran (M(i := None))"
    then have "z \<noteq> q" using qM by blast
    then show "e_ino (ent (tab s') z) = e_ino (ent st1 z) \<and> e_next (ent (tab s') z) = e_next (ent st1 z)" by (simp add: t')
  qed (simp_all add: t')
  obtain G where G: "plist e_next (tab s) (freelist (tab s)) G" "\<And>f. f \<in> set G \<Longrightarrow> spare (sc cfg) (tab s) D r M f"
    using ok by (auto simp: symtab_ok_def)
  have pl: "plist e_next (tab s') (freelist (tab s')) G"
  proof -
    have "plist e_next (tab s') (freelist (tab s)) G"
    proof (rule plist_cong [OF G(1)])
      fix f assume f: "f \<in> set G"
      have "f \<noteq> q" "f \<notin> ran M" using G(2) [OF f] q(1) by (auto simp: spare_def)
      then show "f < length (heap (tab s')) \<and> e_next (ent (tab s') f) = e_next (ent (tab s) f)"
        using plist_heap [OF G(1) f] d(6) l by (simp add: t')
    qed
    then show ?thesis by (simp add: t' d(4))
  qed
  have iR: "i \<noteq> ROOTINO" using q(2) symtab_okD(3) [OF ok] kidsD(1) [OF treeD(6) [OF t] q(1)] by auto
  have ok': "symtab_ok (sc cfg) (tab s') D r (M(i := None))"
  proof (rule symtab_okI [OF tr im' _ pl])
    show "(M(i := None)) ROOTINO = Some r" using iR symtab_okD(3) [OF ok] by simp
    show "spare (sc cfg) (tab s') D r (M(i := None)) f" if "f \<in> set G" for f
      using G(2) [OF that] by (auto simp: spare_def K ran_def split: if_splits)
  qed
  have pe: "plain_entry (tab s') (M(i := None)) z" if "path (sc cfg) (tab s') D r z ms" for z ms
  proof (rule plain_without [OF ok _ im' tp(2)])
    show "plain_entry (tab s) M z" using that plain_tableD(1) [OF mirrorsD(2) [OF m]] by (simp add: P)
    show "e_ino (ent (tab s') z) = 0" if "M i = Some z" using that q(2) by (simp add: i')
    show "e_ino (ent (tab s') z) = e_ino (ent (tab s) z)" if "z \<notin> ran M"
      using that q(2) by (auto simp: i' ran_def)
  qed
  show thesis
  proof (rule that [OF po _ K _ P tp(2)])
    show "mirrors cfg F s' D r (M(i := None))"
    proof (rule mirrorsI [OF ok'])
      show "plain_table cfg (tab s') D r (M(i := None))"
        using pe plain_tableD(2) [OF mirrorsD(2) [OF m]] by (auto simp: plain_table_def P split: if_splits)
      have "unwritten (tab s') z = unwritten (tab s) z" for z
        using fixed_partD(1,2) [OF tp(2)] by (simp add: unwritten_def flagged_def)
      then have "present cfg (tab s') D r = present cfg (tab s) D r" by (simp add: present_def P)
      then show "fs_run cfg (calls s') F = present cfg (tab s') D r" using mirrorsD(3) [OF m] by (simp add: t'(2))
    qed
    show "isdir (tab s') = isdir (tab s)" using tree_partD(5) [OF tp(1)] l by (simp add: isdir_def fun_eq_iff)
    show "removelist s' = Some q" by (simp add: s'_def)
    show "e_ino (ent (tab s') q) = 0" by (simp add: i')
    show "e_next (ent (tab s') q) = removelist s" using kids_heap [OF treeD(5) [OF t] q(1)] d(3) by (simp add: t')
  qed
qed

text \<open>The place of a new name.\<close>

definition place :: "acfg \<Rightarrow> restore \<Rightarrow> (eptr \<Rightarrow> nat \<Rightarrow> eptr list) \<Rightarrow> eptr \<Rightarrow> eptr \<Rightarrow> byte list list \<Rightarrow> byte list \<Rightarrow> bool" where
  "place cfg s D r p ns n \<longleftrightarrow> path (sc cfg) (tab s) D r p ns \<and> isdir (tab s) p \<and> name_ok n
     \<and> n \<notin> (\<lambda>z. e_name (ent (tab s) z)) ` kids (sc cfg) (tab s) D p \<and> short_path (ns @ [n])"

lemma placeD:
  assumes "place cfg s D r p ns n"
  shows "path (sc cfg) (tab s) D r p ns" "isdir (tab s) p" "name_ok n"
    "n \<notin> (\<lambda>z. e_name (ent (tab s) z)) ` kids (sc cfg) (tab s) D p" "short_path (ns @ [n])"
  using assms by (auto simp: place_def)

lemma dir_node:
  assumes "mirrors cfg F s D r M" "path (sc cfg) (tab s) D r p ns" "isdir (tab s) p"
  shows "e_type (ent (tab s) p) = NODE"
  using plain_entryD(3) [OF plain_tableD(1) [OF mirrorsD(2) [OF assms(1)] assms(2)]] assms(3) by (auto simp: isdir_def)

text \<open>A new entry: a directory is made at once, a leaf is to be extracted later.\<close>

lemma new_file_ok:
  assumes m: "mirrors cfg F s D r M" and w: "working cfg F" and p: "place cfg s D r p ns n"
    and ty: "ty = LEAF \<or> ty = NODE" and i: "in_table (sc cfg) ino" "M ino = None"
  obtains s' D' np where "new_file cfg (pathname ns @ slash # n) ino ty s = Inr (True, s')"
    "mirrors cfg F s' D' r (M(ino \<mapsto> np))" "e_type (ent (tab s') np) = ty" "e_flags (ent (tab s') np) = NEW OR KEEP"
    "\<And>x ms. path (sc cfg) (tab s') D' r x ms \<longleftrightarrow> path (sc cfg) (tab s) D r x ms \<or> x = np \<and> ms = ns @ [n]"
    "\<And>x ms. path (sc cfg) (tab s) D r x ms \<Longrightarrow> fixed_part (ent (tab s') x) = fixed_part (ent (tab s) x)"
proof -
  note ok = mirrorsD(1) [OF m] and pl = mirrorsD(2) [OF m] and pD = placeD [OF p]
  note t = symtab_okD(1) [OF ok] and im = symtab_okD(2) [OF ok]
  let ?name = "pathname ns @ slash # n" and ?b = "ns @ [n]"
  from addentry_ok [OF ok pD(1) dir_node [OF m pD(1,2)] pD(2,3,4) ty i]
  obtain np st' D' where a: "addentry (sc cfg) ?name ino ty (tab s) = Inr (np, st')"
    and ok': "symtab_ok (sc cfg) st' D' r (M(ino \<mapsto> np))" and n1: "e_type (ent st' np) = ty" "e_links (ent st' np) = None"
    "ty = LEAF \<longrightarrow> e_entries (ent st' np) = None" "e_flags (ent st' np) = 0" "e_ino (ent st' np) = ino"
    "ty = NODE \<longrightarrow> e_entries (ent st' np) \<noteq> None" and npn: "np \<noteq> r" "\<forall>x. np \<notin> kids (sc cfg) (tab s) D x"
    and P: "\<forall>q ms. path (sc cfg) st' D' r q ms \<longleftrightarrow> path (sc cfg) (tab s) D r q ms \<or> q = np \<and> ms = ?b"
    and old: "\<forall>x. x < length (heap (tab s)) \<longrightarrow> x \<noteq> np \<longrightarrow> fixed_part (ent st' x) = fixed_part (ent (tab s) x)
        \<and> e_ino (ent st' x) = e_ino (ent (tab s) x) \<and> e_next (ent st' x) = e_next (ent (tab s) x)"
    by (elim exE conjE) (rule that; assumption)
  have np: "x < length (heap (tab s)) \<and> x \<noteq> np" if "path (sc cfg) (tab s) D r x ms" for x ms
    using path_isdir [OF that t] path_reached [OF that] npn by auto
  have npl: "np < length (heap st')" by (rule path_isdir [OF _ symtab_okD(1) [OF ok']]) (use P in blast)
  define s1 where "s1 = s\<lparr>tab := st'\<rparr>"
  have ad: "add_entry cfg ?name ino ty s = Inr (np, s1)" by (simp add: add_entry_def a s1_def)
  have my: "my_name cfg np s1 = Inr (pathname ?b)"
    unfolding my_name_def s1_def
    by (simp, rule myname_path [OF _ symtab_okD(1) [OF ok'] symtab_ok_root [OF ok']])
      (use P pD(5) in \<open>auto simp: short_path_def\<close>)
  have names: "k \<in> set ?b \<Longrightarrow> name_ok k" for k using path_names [OF pD(1) t] pD(3) by auto
  have cb: "comps (pathname ?b) = ?b" by (rule comps_pathname) (rule names)
  have po: "possible (Mkdir (pathname ?b)) (fs_run cfg (calls s) F)"
    using mirrors_file(2) [OF m pD(1,2)] mirrors_no_file [OF m pD(1,4)] by (simp add: can_make_def cb)
  define s2 where "s2 = (if ty = NODE then s1\<lparr>calls := calls s @ [Mkdir (pathname ?b)]\<rparr> else s1)"
  have nn: "(if ty = NODE then newnode cfg np s1 else Inr s1) = Inr s2"
  proof (cases "ty = NODE")
    case True
    have "sys cfg (Mkdir (pathname ?b)) s1 = (True, s1\<lparr>calls := calls s1 @ [Mkdir (pathname ?b)]\<rparr>)"
      by (rule sys_working(1) [OF w]) (use po in \<open>simp add: s1_def\<close>)
    then show ?thesis using True n1(1) my w by (simp add: newnode_def bad_if_def s1_def s2_def working_def)
  qed (simp add: s2_def)
  define s' where "s' = in_tab (set_flags (NEW OR KEEP) np) s2"
  have nf: "new_file cfg ?name ino ty s = Inr (True, s')" using ad nn by (simp add: new_file_def s'_def)
  have t': "tab s' = upd (\<lambda>e. e\<lparr>e_flags := NEW OR KEEP\<rparr>) np st'"
    using set_flags_upd [OF npl] n1(4) by (simp add: s'_def s2_def s1_def in_tab_def)
  note k = symtab_ok_flags [OF ok' t']
  have at: "attr (ent (tab s') x) = attr (ent st' x)" for x by (simp add: t' attr_flags)
  have P': "path (sc cfg) (tab s') D' r x ms \<longleftrightarrow> path (sc cfg) (tab s) D r x ms \<or> x = np \<and> ms = ?b" for x ms
    using P by (simp add: k(3))
  have fp: "fixed_part (ent (tab s') x) = fixed_part (ent (tab s) x)" "e_ino (ent (tab s') x) = e_ino (ent (tab s) x)"
    if "path (sc cfg) (tab s) D r x ms" for x ms
    using old np [OF that] by (simp_all add: t')
  have plain: "plain_table cfg (tab s') D' r (M(ino \<mapsto> np))"
  proof -
    have "plain_entry (tab s') (M(ino \<mapsto> np)) x" if "path (sc cfg) (tab s') D' r x ms" for x ms
    proof (cases "x = np")
      case True
      then show ?thesis using n1 ty attrD [OF at [of np]] by (auto simp: plain_entry_def LEAF_def NODE_def)
    next
      case False
      then have x: "path (sc cfg) (tab s) D r x ms" using that by (simp add: P')
      note f = fixed_partD [OF fp(1) [OF x]] and e = plain_entryD [OF plain_tableD(1) [OF pl x]]
      show ?thesis unfolding plain_entry_def using e f fp(2) [OF x] i(2) by auto
    qed
    moreover have "\<exists>ms. path (sc cfg) (tab s') D' r x ms" if "(M(ino \<mapsto> np)) j = Some x" for j x
    proof (cases "j = ino")
      case True
      then show ?thesis using that P' by auto
    next
      case False
      then have "M j = Some x" using that by simp
      then show ?thesis using plain_tableD(2) [OF pl] P' by blast
    qed
    ultimately show ?thesis by (auto simp: plain_table_def)
  qed
  have fl: "e_flags (ent (tab s') np) = NEW OR KEEP" using npl by (simp add: t')
  have unw: "unwritten (tab s') np \<longleftrightarrow> ty = LEAF"
    using attrD(1) [OF at [of np]] n1(1) fl by (simp add: unwritten_def flagged_def NEW_def KEEP_def)
  have unx: "unwritten (tab s') x = unwritten (tab s) x" if "path (sc cfg) (tab s) D r x ms" for x ms
    using fixed_partD(1,2) [OF fp(1) [OF that]] by (simp add: unwritten_def flagged_def)
  have pr: "present cfg (tab s') D' r = (if ty = NODE then insert ?b (present cfg (tab s) D r) else present cfg (tab s) D r)"
    using ty unw unx by (auto simp: present_def P' LEAF_def NODE_def)
  have c': "calls s' = (if ty = NODE then calls s @ [Mkdir (pathname ?b)] else calls s)"
    by (simp add: s'_def s2_def s1_def in_tab_def)
  have run: "fs_run cfg (calls s') F = present cfg (tab s') D' r"
  proof (cases "ty = NODE")
    case True
    have "fs_run cfg (calls s') F = insert ?b (fs_run cfg (calls s) F)"
      using True sys_working(2) [OF w po] by (simp add: c' cb)
    then show ?thesis using True pr mirrorsD(3) [OF m] by simp
  qed (use pr c' mirrorsD(3) [OF m] in simp)
  show thesis
    by (rule that [OF nf mirrorsI [OF k(1) plain run] _ _ P' fp(1)])
      (use attrD(1) [OF at [of np]] n1(1) fl in \<open>simp_all add: flagged_def NEW_def KEEP_def\<close>)
qed

text \<open>An entry without entries below it goes, and its file.\<close>

definition drop_call :: "fs_call \<Rightarrow> byte list \<Rightarrow> bool" where
  "drop_call c name \<longleftrightarrow> c = Unlink name \<or> c = Rmdir name"

lemma only_beneath:
  assumes ok: "symtab_ok cfg st D r M" and p: "path cfg st D r q (ns @ [n])" and q: "kids cfg st D q = {}"
  shows "path cfg st D r x ms \<Longrightarrow> beneath (ns @ [n]) ms \<Longrightarrow> ms = ns @ [n]"
proof (induction rule: path.induct)
  case path_root
  then show ?case using beneath_length [of "ns @ [n]" "[]"] by simp
next
  case (path_kid x ms y)
  show ?case
  proof (rule ccontr)
    assume "ms @ [e_name (ent st y)] \<noteq> ns @ [n]"
    then have "beneath (ns @ [n]) ms" using path_kid.prems beneath_snoc [of "ns @ [n]" ms] by auto
    then have "ms = ns @ [n]" by (rule path_kid.IH)
    then have "x = q" using path_functional [OF ok path_kid.hyps(1)] p by simp
    then show False using path_kid.hyps(2) q by simp
  qed
qed

lemma drop_entry_ok:
  assumes m: "mirrors cfg F s D r M" and w: "working cfg F" and p: "path (sc cfg) (tab s) D r p ns" "q \<in> kids (sc cfg) (tab s) D p"
    and q: "kids (sc cfg) (tab s) D q = {}" "e_flags (ent (tab s) q) = 0 \<or> e_flags (ent (tab s) q) = TMPNAME"
    and num: "M i = Some q \<or> i = 0 \<and> e_ino (ent (tab s) q) = 0"
  defines "a \<equiv> ns @ [e_name (ent (tab s) q)]"
  assumes len: "short_path a" and c: "drop_call c (pathname a)"
  obtains s2 s' D' where "my_name cfg q (mark_removed q s) = Inr (pathname a)" "sys cfg c (mark_removed q s) = (True, s2)"
    "free_entry cfg q s2 = Inr s'" "mirrors cfg F s' D' r (M(i := None))" "removelist s' = removelist s"
    "\<And>x ms. path (sc cfg) (tab s') D' r x ms \<longleftrightarrow> path (sc cfg) (tab s) D r x ms \<and> x \<noteq> q"
    "\<And>x. x \<noteq> q \<Longrightarrow> fixed_part (ent (tab s') x) = fixed_part (ent (tab s) x)" "e_links (ent (tab s') q) = None"
    "kids (sc cfg) (tab s') D' = (kids (sc cfg) (tab s) D)(p := kids (sc cfg) (tab s) D p - {q})" "isdir (tab s') = isdir (tab s)"
    "\<And>x. x \<notin> ran M \<Longrightarrow> x \<noteq> q \<Longrightarrow> e_ino (ent (tab s') x) = e_ino (ent (tab s) x) \<and> e_next (ent (tab s') x) = e_next (ent (tab s) x)"
    "length (heap (tab s')) = length (heap (tab s))"
proof -
  note ok = mirrorsD(1) [OF m] and pl = mirrorsD(2) [OF m]
  note t = symtab_okD(1) [OF ok] and im = symtab_okD(2) [OF ok]
  have pq: "path (sc cfg) (tab s) D r q a" unfolding a_def by (rule path_kid [OF p])
  have ql: "q < length (heap (tab s))" by (rule path_isdir [OF pq t])
  note e = plain_entryD [OF plain_tableD(1) [OF pl pq]]
  have ei: "e_ino (ent (tab s) q) = i" using num ino_map_Some(2) [OF im] by auto
  have num': "M i = Some q \<or> i = 0 \<and> q \<notin> ran M"
    using num ino_map_Some(2) [OF im] ino_zero [OF im] by (auto simp: ran_def)
  define st1 where "st1 = upd (\<lambda>e. e\<lparr>e_flags := REMOVED\<rparr>) q (tab s)"
  have mr: "mark_removed q s = s\<lparr>tab := st1\<rparr>"
    using q(2) ql by (auto simp: mark_removed_def in_tab_def st1_def set_flags_def clear_flags_def upd_def REMOVED_def TMPNAME_def)
  note k = symtab_ok_flags [OF ok st1_def]
  have my: "my_name cfg q (mark_removed q s) = Inr (pathname a)"
    unfolding my_name_def mr
    by (simp, rule myname_path [OF _ symtab_okD(1) [OF k(1)] symtab_ok_root [OF k(1)]])
      (use pq len in \<open>simp_all add: k(3) short_path_def\<close>)
  have names: "x \<in> set a \<Longrightarrow> name_ok x" for x using path_names [OF pq t] by blast
  note only = only_beneath [OF ok pq [unfolded a_def] q(1), folded a_def]
  have nw: "\<not> unwritten (tab s) q" using q(2) by (auto simp: unwritten_def flagged_def NEW_def TMPNAME_def)
  have cb: "comps (pathname a) = a" by (rule comps_pathname) (rule names)
  have "can_drop (fs_run cfg (calls s) F) a"
    using mirrors_file(1) [OF m pq nw] only mirrorsD(3) [OF m] by (auto simp: can_drop_def present_def)
  then have po: "possible c (fs_run cfg (calls s) F)" using c by (auto simp: drop_call_def cb)
  have ap: "fs_apply c (fs_run cfg (calls s) F) = fs_run cfg (calls s) F - {a}" using c by (auto simp: drop_call_def cb)
  define s2 where "s2 = s\<lparr>tab := st1, calls := calls s @ [c]\<rparr>"
  have sy: "sys cfg c (mark_removed q s) = (True, s2)"
    unfolding mr using sys_working(1) [OF w, of c "s\<lparr>tab := st1\<rparr>"] po by (simp add: s2_def)
  have e1: "e_flags (ent st1 q) = REMOVED" "e_links (ent st1 q) = None" "e_ino (ent st1 q) = i"
    using ql e(1) ei by (simp_all add: st1_def)
  have q1: "q \<in> kids (sc cfg) st1 D p" "kids (sc cfg) st1 D q = {}" using p(2) q(1) by (simp_all add: k(2))
  from freeentry_any [OF k(1) q1 e1 num']
  obtain st' D' where fr: "freeentry (sc cfg) q st1 = Inr st'" and ok': "symtab_ok (sc cfg) st' D' r (M(i := None))"
    and P1: "\<forall>z ms. path (sc cfg) st' D' r z ms \<longleftrightarrow> path (sc cfg) st1 D r z ms \<and> z \<noteq> q" and id: "isdir st' = isdir st1"
    and K: "kids (sc cfg) st' D' = (kids (sc cfg) st1 D)(p := kids (sc cfg) st1 D p - {q})"
    and f1: "\<forall>z. fixed_part (ent st' z) = fixed_part (ent st1 z)"
    and o1: "\<forall>z. z \<notin> ran M \<longrightarrow> z \<noteq> q \<longrightarrow> e_ino (ent st' z) = e_ino (ent st1 z) \<and> e_next (ent st' z) = e_next (ent st1 z)"
    and l1: "length (heap st') = length (heap st1)"
    by (elim exE conjE) (rule that; assumption)
  define s' where "s' = s2\<lparr>tab := st'\<rparr>"
  have fe: "free_entry cfg q s2 = Inr s'" using fr by (simp add: on_tab_def s'_def s2_def)
  have P: "path (sc cfg) (tab s') D' r x ms \<longleftrightarrow> path (sc cfg) (tab s) D r x ms \<and> x \<noteq> q" for x ms
    using P1 by (simp add: s'_def k(3))
  have fp: "fixed_part (ent (tab s') x) = fixed_part (ent (tab s) x)" if "x \<noteq> q" for x
    using f1 that by (simp add: s'_def st1_def)
  have ox: "e_ino (ent (tab s') x) = e_ino (ent (tab s) x) \<and> e_next (ent (tab s') x) = e_next (ent (tab s) x)"
    if "x \<notin> ran M" "x \<noteq> q" for x
    using that o1 by (simp add: s'_def st1_def)
  have pe: "plain_entry (tab s') (M(i := None)) x" if "path (sc cfg) (tab s') D' r x ms" for x ms
  proof -
    have x: "path (sc cfg) (tab s) D r x ms" "x \<noteq> q" using that by (simp_all add: P)
    show ?thesis
    proof (rule plain_without [OF ok plain_tableD(1) [OF pl x(1)] _ fp [OF x(2)]])
      show "ino_map (sc cfg) (tab s') (M(i := None))" using symtab_okD(2) [OF ok'] by (simp add: s'_def)
      show "e_ino (ent (tab s') x) = 0" if "M i = Some x" using that num x(2) ino_zero [OF im] by auto
      show "e_ino (ent (tab s') x) = e_ino (ent (tab s) x)" if "x \<notin> ran M" using ox [OF that x(2)] by simp
    qed
  qed
  have ex: "\<exists>ms. path (sc cfg) (tab s') D' r x ms" if "(M(i := None)) j = Some x" for j x
  proof -
    have j: "M j = Some x" "j \<noteq> i" using that by (auto split: if_splits)
    then have "x \<noteq> q" using ino_map_Some(2) [OF im j(1)] ei by auto
    then show ?thesis using plain_tableD(2) [OF pl j(1)] by (auto simp: P)
  qed
  have plain: "plain_table cfg (tab s') D' r (M(i := None))" using pe ex unfolding plain_table_def by blast
  have unx: "unwritten (tab s') x = unwritten (tab s) x" if "x \<noteq> q" for x
    using fixed_partD(1,2) [OF fp [OF that]] by (simp add: unwritten_def flagged_def)
  have run: "fs_run cfg (calls s') F = present cfg (tab s') D' r"
  proof -
    have "fs_run cfg (calls s') F = fs_run cfg (calls s) F - {a}"
      using sys_working(2) [OF w po] by (simp add: s'_def s2_def ap)
    also have "\<dots> = present cfg (tab s') D' r"
    proof (rule set_eqI)
      fix ms
      have "x = q \<longleftrightarrow> ms = a" if "path (sc cfg) (tab s) D r x ms" for x
        using path_functional [OF ok pq, of x] path_unique [OF pq _ t, of ms] that by auto
      then show "ms \<in> fs_run cfg (calls s) F - {a} \<longleftrightarrow> ms \<in> present cfg (tab s') D' r"
        unfolding mirrorsD(3) [OF m] present_def P using unx by blast
    qed
    finally show ?thesis .
  qed
  show thesis
  proof (rule that [OF my sy fe mirrorsI [OF _ plain run] _ P fp _ _ _ ox])
    show "symtab_ok (sc cfg) (tab s') D' r (M(i := None))" using ok' by (simp add: s'_def)
    show "e_links (ent (tab s') q) = None" using fixed_partD(3) [OF f1 [rule_format, of q]] e1(2) by (simp add: s'_def)
    show "kids (sc cfg) (tab s') D' = (kids (sc cfg) (tab s) D)(p := kids (sc cfg) (tab s) D p - {q})"
      using K by (simp add: s'_def k(2))
    show "isdir (tab s') = isdir (tab s)" using id by (simp add: s'_def st1_def isdir_def fun_eq_iff upd_keep)
    show "removelist s' = removelist s" by (simp add: s'_def s2_def)
    show "length (heap (tab s')) = length (heap (tab s))" using l1 by (simp add: s'_def st1_def)
  qed
qed

text \<open>A leaf that is removed.\<close>

lemma drop_leaf_ok:
  assumes m: "mirrors cfg F s D r M" and w: "working cfg F" and p: "path (sc cfg) (tab s) D r p ns" "q \<in> kids (sc cfg) (tab s) D p"
    and q: "e_type (ent (tab s) q) = LEAF" "M i = Some q" "e_flags (ent (tab s) q) = 0 \<or> e_flags (ent (tab s) q) = TMPNAME"
  defines "a \<equiv> ns @ [e_name (ent (tab s) q)]"
  assumes len: "short_path a"
  obtains s' D' where "bindE (removeleaf cfg q s) (free_entry cfg q) = Inr s'" "mirrors cfg F s' D' r (M(i := None))"
    "\<And>x ms. path (sc cfg) (tab s') D' r x ms \<longleftrightarrow> path (sc cfg) (tab s) D r x ms \<and> x \<noteq> q"
    "\<And>x. x \<noteq> q \<Longrightarrow> fixed_part (ent (tab s') x) = fixed_part (ent (tab s) x)"
    "e_links (ent (tab s') q) = None"
    "kids (sc cfg) (tab s') D' = (kids (sc cfg) (tab s) D)(p := kids (sc cfg) (tab s) D p - {q})" "isdir (tab s') = isdir (tab s)"
proof -
  have pq: "path (sc cfg) (tab s) D r q a" unfolding a_def by (rule path_kid [OF p])
  note e = plain_entryD [OF plain_tableD(1) [OF mirrorsD(2) [OF m] pq]]
  have nokids: "kids (sc cfg) (tab s) D q = {}"
    using e(3) q(1) by (auto simp: LEAF_def NODE_def isdir_def dest: kids_isdir)
  have c: "drop_call (Unlink (pathname a)) (pathname a)" by (simp add: drop_call_def)
  obtain s2 s' D' where d: "my_name cfg q (mark_removed q s) = Inr (pathname a)" "sys cfg (Unlink (pathname a)) (mark_removed q s) = (True, s2)"
    "free_entry cfg q s2 = Inr s'" and x: "mirrors cfg F s' D' r (M(i := None))"
    "\<And>x ms. path (sc cfg) (tab s') D' r x ms \<longleftrightarrow> path (sc cfg) (tab s) D r x ms \<and> x \<noteq> q"
    "\<And>x. x \<noteq> q \<Longrightarrow> fixed_part (ent (tab s') x) = fixed_part (ent (tab s) x)" "e_links (ent (tab s') q) = None"
    "kids (sc cfg) (tab s') D' = (kids (sc cfg) (tab s) D)(p := kids (sc cfg) (tab s) D p - {q})" "isdir (tab s') = isdir (tab s)"
    by (rule drop_entry_ok [OF m w p nokids q(3) disjI1 [OF q(2)] len [unfolded a_def] c [unfolded a_def], folded a_def]) (rule that)
  have rl: "removeleaf cfg q s = Inr s2"
    using d(1,2) q(1) w by (simp add: removeleaf_def bad_if_def working_def)
  show thesis by (rule that [OF _ x]) (simp add: rl d(3))
qed

text \<open>An entry that gets the place of a new name.\<close>

lemma attr_set_name: "attr (ent (upd (set_name n) q st) x) = attr (ent st x)" "e_flags (ent (upd (set_name n) q st) x) = e_flags (ent st x)"
  "e_next (ent (upd (set_name n) q st) x) = e_next (ent st x)" "x \<noteq> q \<Longrightarrow> ent (upd (set_name n) q st) x = ent st x"
  by (simp_all add: attr_name flags_name) (simp add: upd_keep set_name_def)

lemma enter_place:
  assumes m: "mirrors cfg F s D r M" and p: "path (sc cfg) (tab s) D r p ns" "q \<in> kids (sc cfg) (tab s) D p"
    and pl: "place cfg s D r p2 ns2 n"
  defines "a \<equiv> ns @ [e_name (ent (tab s) q)]" and "b \<equiv> ns2 @ [n]"
  assumes above: "\<not> beneath a ns2"
  obtains st2 D' where "(if Some p2 \<noteq> e_parent (ent (tab s) q) then
              bindE (removeentry (sc cfg) q (tab s)) (\<lambda>st. insert_entry (sc cfg) p2 q (upd (\<lambda>e. e\<lparr>e_parent := Some p2\<rparr>) q st))
            else Inr (tab s)) = Inr st2"
    "symtab_ok (sc cfg) (upd (set_name n) q st2) D' r M"
    "\<And>x ms'. path (sc cfg) (upd (set_name n) q st2) D' r x ms' \<longleftrightarrow> (\<exists>ms. path (sc cfg) (tab s) D r x ms \<and> ms' = moved a b ms)"
    "\<And>x. attr (ent st2 x) = attr (ent (tab s) x)" "\<And>x. e_flags (ent st2 x) = e_flags (ent (tab s) x)"
proof -
  note ok = mirrorsD(1) [OF m] and pD = placeD [OF pl]
  note t = symtab_okD(1) [OF ok]
  have par: "e_parent (ent (tab s) q) = Some p" by (rule kidsD(2) [OF treeD(6) [OF t] p(2)])
  show thesis
  proof (cases "p2 = p")
    case True
    have u: "\<forall>z \<in> kids (sc cfg) (tab s) D p. e_name (ent (tab s) z) = n \<longrightarrow> z = q" using pD(4) True by blast
    have e: "ns2 = ns" using path_unique [OF pD(1) _ t] p(1) True by simp
    note h = rename_here [OF ok p pD(3) u refl]
    show thesis
      by (rule that [OF _ h(1)]) (use h(4) par True in \<open>simp_all add: a_def b_def e\<close>)
  next
    case False
    obtain st1 st2 D' where s: "removeentry (sc cfg) q (tab s) = Inr st1"
      "insert_entry (sc cfg) p2 q (upd (\<lambda>e. e\<lparr>e_parent := Some p2\<rparr>) q st1) = Inr st2"
      "tree (sc cfg) (upd (set_name n) q st2) D' r"
      "\<And>x. kids (sc cfg) (upd (set_name n) q st2) D' x = kids (sc cfg) (tab s) D x - {q} \<union> (if x = p2 then {q} else {})"
      "length (heap st2) = length (heap (tab s))" "entry_tbl st2 = entry_tbl (tab s)" "freelist st2 = freelist (tab s)"
      "\<And>x. e_next (ent st2 x) = e_next (ent (tab s) x)" "\<And>x. attr (ent st2 x) = attr (ent (tab s) x)"
      "\<And>x. e_flags (ent st2 x) = e_flags (ent (tab s) x)" "\<And>x. e_name (ent st2 x) = e_name (ent (tab s) x)"
      by (rule move_tree [OF ok p pD(1) _ pD(2) False pD(3,4)]) (use above in \<open>simp add: a_def\<close>, blast)
    let ?st = "upd (set_name n) q st2"
    have i: "e_ino (ent ?st x) = e_ino (ent (tab s) x)" "e_next (ent ?st x) = e_next (ent (tab s) x)" for x
      using attrD(2) [OF s(9) [of x]] s(8) by (simp_all add: upd_keep set_name_def)
    have ql: "q < length (heap st2)" using kids_heap [OF treeD(5) [OF t] p(2)] s(5) by simp
    show thesis
    proof (rule that [OF _ _ _ s(9,10)])
      show "(if Some p2 \<noteq> e_parent (ent (tab s) q) then
              bindE (removeentry (sc cfg) q (tab s)) (\<lambda>st. insert_entry (sc cfg) p2 q (upd (\<lambda>e. e\<lparr>e_parent := Some p2\<rparr>) q st))
            else Inr (tab s)) = Inr st2" using False par s(1,2) by simp
      show "symtab_ok (sc cfg) ?st D' r M"
        by (rule symtab_ok_moved [OF ok s(3) _ _ _ i p(2) pD(1) s(4)]) (simp_all add: s(5-7))
      show "path (sc cfg) ?st D' r x ms' \<longleftrightarrow> (\<exists>ms. path (sc cfg) (tab s) D r x ms \<and> ms' = moved a b ms)" for x ms'
        unfolding a_def b_def
        by (rule path_move [OF ok s(3) p pD(1) _ s(4)]) (use above ql s(11) in \<open>simp_all add: a_def set_name_def\<close>)
    qed
  qed
qed

lemma flags_const: "upd (\<lambda>e. e\<lparr>e_flags := g (e_flags e)\<rparr>) q st = upd (\<lambda>e. e\<lparr>e_flags := g (e_flags (ent st q))\<rparr>) q st"
  by (simp add: upd_def)

lemma move_ok:
  assumes m: "mirrors cfg F s D r M" and w: "working cfg F"
    and p: "path (sc cfg) (tab s) D r p ns" "q \<in> kids (sc cfg) (tab s) D p"
    and pl: "place cfg s D r p2 ns2 n"
    and q: "M (e_ino (ent (tab s) q)) = Some q" "\<not> unwritten (tab s) q"
  defines "a \<equiv> ns @ [e_name (ent (tab s) q)]" and "b \<equiv> ns2 @ [n]"
  assumes above: "\<not> beneath a ns2"
  obtains s' D' where "on_tab (moveentry (sc cfg) q (pathname ns2 @ slash # n))
      (renameit cfg (pathname a) (pathname ns2 @ slash # n) s) = Inr s'" "mirrors cfg F s' D' r M"
    "\<And>x ms'. path (sc cfg) (tab s') D' r x ms' \<longleftrightarrow> (\<exists>ms. path (sc cfg) (tab s) D r x ms \<and> ms' = moved a b ms)"
    "\<And>x. attr (ent (tab s') x) = attr (ent (tab s) x)" "\<And>x. x \<noteq> q \<Longrightarrow> e_flags (ent (tab s') x) = e_flags (ent (tab s) x)"
    "e_flags (ent (tab s') q) AND EXTRACT = e_flags (ent (tab s) q) AND EXTRACT"
proof -
  note ok = mirrorsD(1) [OF m] and pD = placeD [OF pl]
  note t = symtab_okD(1) [OF ok]
  let ?name = "pathname ns2 @ slash # n"
  have name: "pathname b = ?name" by (simp add: b_def pathname_snoc)
  have pq: "path (sc cfg) (tab s) D r q a" unfolding a_def by (rule path_kid [OF p])
  obtain st2 D' where e: "(if Some p2 \<noteq> e_parent (ent (tab s) q) then
              bindE (removeentry (sc cfg) q (tab s)) (\<lambda>st. insert_entry (sc cfg) p2 q (upd (\<lambda>e. e\<lparr>e_parent := Some p2\<rparr>) q st))
            else Inr (tab s)) = Inr st2"
    and ok3: "symtab_ok (sc cfg) (upd (set_name n) q st2) D' r M"
    and P3: "\<And>x ms'. path (sc cfg) (upd (set_name n) q st2) D' r x ms' \<longleftrightarrow> (\<exists>ms. path (sc cfg) (tab s) D r x ms \<and> ms' = moved a b ms)"
    and at2: "\<And>x. attr (ent st2 x) = attr (ent (tab s) x)" and fl2: "\<And>x. e_flags (ent st2 x) = e_flags (ent (tab s) x)"
    by (rule enter_place [OF m p pl, folded a_def b_def, OF above]) (rule that)
  define st3 where "st3 = upd (set_name n) q st2"
  have at3: "attr (ent st3 x) = attr (ent (tab s) x)" and fl3: "e_flags (ent st3 x) = e_flags (ent (tab s) x)" for x
    by (simp_all add: st3_def attr_set_name at2 fl2)
  have g: "gentempname (sc cfg) q st3 = Inr (tmp_of (e_ino (ent (tab s) q)))"
    using gentempname_first [OF symtab_okD(2) [OF ok3], of q] q(1) attrD(2) [OF at3, of q] by (simp add: st3_def)
  define fl where "fl = (if tmp_of (e_ino (ent (tab s) q)) = n then e_flags (ent (tab s) q) OR TMPNAME
     else e_flags (ent (tab s) q) AND NOT TMPNAME)"
  define st4 where "st4 = upd (\<lambda>e. e\<lparr>e_flags := fl\<rparr>) q st3"
  have par: "lookupparent (sc cfg) ?name (tab s) = Inr (Some p2)"
    by (rule lookupparent_path [OF t symtab_ok_root [OF ok] pD(1) dir_node [OF m pD(1,2)] pD(3)])
  have sp: "split_last ?name = Some (pathname ns2, n)" by (rule split_last_name [OF pD(3)])
  have last: "upd (\<lambda>e. e\<lparr>e_flags := (if tmp_of (e_ino (ent (tab s) q)) = n then e_flags e OR TMPNAME
      else e_flags e AND NOT TMPNAME)\<rparr>) q st3 = st4"
    by (subst flags_const) (simp add: st4_def fl_def fl3)
  have e': "(if Some p2 \<noteq> e_parent (ent (tab s) q) then
       bindE (removeentry (sc cfg) q (tab s)) (\<lambda>st. bindE (follow (Some p2)) (\<lambda>z.
         insert_entry (sc cfg) z q (upd (\<lambda>e. e\<lparr>e_parent := Some p2\<rparr>) q st)))
     else Inr (tab s)) = Inr st2" using e by (simp split: if_splits)
  have mv: "moveentry (sc cfg) q ?name (tab s) = Inr st4"
  proof -
    have "bindE (if (Some p2 :: eptr option) = None then badentry (sc cfg) (tab s) q else Inr ()) k = k ()" for k :: "unit \<Rightarrow> restore_stop + symtab"
      by simp
    then show ?thesis
      unfolding moveentry_def par using g by (simp add: e' sp Let_def st3_def [symmetric] last split del: if_split)
  qed
  define s1 where "s1 = s\<lparr>calls := calls s @ [Rename (pathname a) ?name]\<rparr>"
  define s' where "s' = s1\<lparr>tab := st4\<rparr>"
  have na: "x \<in> set (a @ b) \<Longrightarrow> name_ok x" for x
    using path_names [OF pq t] path_names [OF pD(1) t] pD(3) by (auto simp: b_def)
  have cb: "comps (pathname a) = a" "comps ?name = b" unfolding name [symmetric] by (rule comps_pathname, rule na, simp)+
  have po: "possible (Rename (pathname a) ?name) (fs_run cfg (calls s) F)"
  proof -
    have "b \<notin> fs_run cfg (calls s) F" unfolding b_def by (rule mirrors_no_file [OF m pD(1,4)])
    moreover have "ns2 \<in> fs_run cfg (calls s) F" by (rule mirrors_file(2) [OF m pD(1,2)])
    moreover have "\<not> beneath a b"
    proof
      assume "beneath a b"
      then have ab: "a = b" using above by (simp add: b_def beneath_snoc)
      show False using pD(4) path_snocD [OF ok pD(1), of q n] pq unfolding ab b_def by blast
    qed
    ultimately show ?thesis using mirrors_file(1) [OF m pq q(2)] by (simp add: cb can_make_def b_def)
  qed
  have rn: "renameit cfg (pathname a) ?name s = s1"
    using sys_working(1) [OF w po] by (simp add: renameit_def s1_def)
  have run: "on_tab (moveentry (sc cfg) q ?name) (renameit cfg (pathname a) ?name s) = Inr s'"
    using mv by (simp add: rn on_tab_def s1_def s'_def)
  note k = symtab_ok_flags [OF ok3 [folded st3_def] st4_def]
  have at: "attr (ent (tab s') x) = attr (ent (tab s) x)" for x by (simp add: s'_def st4_def attr_flags at3)
  have ql: "q < length (heap st3)" by (rule path_isdir [OF _ symtab_okD(1) [OF ok3 [folded st3_def]]]) (use P3 pq in \<open>auto simp: st3_def\<close>)
  have flq: "e_flags (ent (tab s') q) = fl" using ql by (simp add: s'_def st4_def)
  have flx: "e_flags (ent (tab s') x) = e_flags (ent (tab s) x)" if "x \<noteq> q" for x using that fl3 by (simp add: s'_def st4_def)
  have un: "unwritten (tab s') x = unwritten (tab s) x" for x
  proof (cases "x = q")
    case True
    have "NOT TMPNAME AND NEW = NEW" by (simp add: TMPNAME_def NEW_def)
    then have "fl AND NEW = e_flags (ent (tab s) q) AND NEW"
      by (auto simp: fl_def flags_and_or and.assoc) (simp add: NEW_def TMPNAME_def)
    then show ?thesis by (intro unwritten_same [OF at]) (simp add: True flq)
  qed (intro unwritten_same [OF at]; simp add: flx)
  have P: "path (sc cfg) (tab s') D' r x ms' \<longleftrightarrow> (\<exists>ms. path (sc cfg) (tab s) D r x ms \<and> ms' = moved a b ms)" for x ms'
    using P3 k(3) by (simp add: s'_def st3_def)
  show thesis
  proof (rule that [OF run _ P at flx])
    show "mirrors cfg F s' D' r M"
    proof (rule mirrors_renamed [OF m w _ P at un _ na])
      show "symtab_ok (sc cfg) (tab s') D' r M" using k(1) by (simp add: s'_def)
      show "calls s' = calls s @ [Rename (pathname a) (pathname b)]" by (simp add: s'_def s1_def name)
      show "possible (Rename (pathname a) (pathname b)) (fs_run cfg (calls s) F)" using po by (simp add: name)
    qed
    have "NOT TMPNAME AND EXTRACT = EXTRACT" by (simp add: TMPNAME_def EXTRACT_def)
    then show "e_flags (ent (tab s') q) AND EXTRACT = e_flags (ent (tab s) q) AND EXTRACT"
      by (auto simp: flq fl_def flags_and_or and.assoc) (simp add: EXTRACT_def TMPNAME_def)
  qed
qed

end
