(* ===== verification/Restore_Update.thy ===== *)
theory Restore_Update
  imports Restore_Mirror
begin

text \<open>
  \<open>nodeupdates\<close> (restore/restore.c): whatever the table and the dump say of a name and a number, the
  disposition that the code takes keeps the table and the file system the same and gives the name its file.
\<close>

text \<open>The directories above the name: they are marked \<open>KEEP\<close>, and stay where they are.\<close>

definition above :: "acfg \<Rightarrow> restore \<Rightarrow> (eptr \<Rightarrow> nat \<Rightarrow> eptr list) \<Rightarrow> eptr \<Rightarrow> byte list list \<Rightarrow> bool" where
  "above cfg s D r ns \<longleftrightarrow> (\<forall>x ms. path (sc cfg) (tab s) D r x ms \<and> beneath ms ns \<longrightarrow> flagged KEEP (tab s) x)"

definition kept :: "acfg \<Rightarrow> restore \<Rightarrow> (eptr \<Rightarrow> nat \<Rightarrow> eptr list) \<Rightarrow> restore \<Rightarrow> (eptr \<Rightarrow> nat \<Rightarrow> eptr list) \<Rightarrow> eptr \<Rightarrow> byte list list \<Rightarrow> bool" where
  "kept cfg s D s' D' r ns \<longleftrightarrow> (\<forall>x ms. path (sc cfg) (tab s) D r x ms \<and> beneath ms ns \<longrightarrow>
     path (sc cfg) (tab s') D' r x ms \<and> (flagged KEEP (tab s) x \<longrightarrow> flagged KEEP (tab s') x))"

lemma kept_trans: "kept cfg s D s1 D1 r ns \<Longrightarrow> kept cfg s1 D1 s2 D2 r ns \<Longrightarrow> kept cfg s D s2 D2 r ns"
  by (auto simp: kept_def)

lemma keptD:
  assumes "kept cfg s D s' D' r ns" "path (sc cfg) (tab s) D r x ms" "beneath ms ns"
  shows "path (sc cfg) (tab s') D' r x ms" "flagged KEEP (tab s) x \<Longrightarrow> flagged KEEP (tab s') x"
  using assms by (auto simp: kept_def)

lemma beneath_trans: "beneath a ms \<Longrightarrow> beneath ms ns \<Longrightarrow> beneath a ns"
  by (simp add: beneath_def) (metis append_eq_conv_conj append_assoc append_take_drop_id)

lemma beneath_append: "beneath a ns \<longleftrightarrow> (\<exists>zs. ns = a @ zs)"
  by (auto simp: beneath_def) (metis append_take_drop_id)

lemma path_prefix: "path cfg st D r x (ms @ zs) \<Longrightarrow> \<exists>y. path cfg st D r y ms"
proof (induction zs arbitrary: x rule: rev_induct)
  case (snoc z zs)
  from snoc.prems obtain y where "path cfg st D r y (ms @ zs)" by cases auto
  then show ?case by (rule snoc.IH)
qed auto

lemma above_kept:
  assumes ok: "symtab_ok (sc cfg) (tab s') D' r M'" and p: "path (sc cfg) (tab s) D r p ns"
    and a: "above cfg s D r ns" and k: "kept cfg s D s' D' r ns"
  shows "above cfg s' D' r ns"
  unfolding above_def
proof (intro allI impI, elim conjE)
  fix x ms assume x: "path (sc cfg) (tab s') D' r x ms" "beneath ms ns"
  then obtain y where y: "path (sc cfg) (tab s) D r y ms" using path_prefix [of "sc cfg" "tab s" D r p ms] p by (auto simp: beneath_append)
  have "x = y" by (rule path_functional [OF ok x(1) keptD(1) [OF k y x(2)]])
  then show "flagged KEEP (tab s') x" using keptD(2) [OF k y x(2)] a y x(2) by (auto simp: above_def)
qed

lemma above_not:
  assumes "above cfg s D r ns" "path (sc cfg) (tab s) D r q a" "\<not> flagged KEEP (tab s) q"
  shows "beneath ms ns \<Longrightarrow> \<not> beneath a ms" "\<not> beneath a ns" "path (sc cfg) (tab s) D r x ms \<Longrightarrow> beneath ms ns \<Longrightarrow> x \<noteq> q"
proof -
  note a = assms(1) [unfolded above_def, rule_format]
  show n: "\<not> beneath a ns" using a [of q a] assms(2,3) by blast
  show "\<not> beneath a ms" if "beneath ms ns" using n beneath_trans that by blast
  show "x \<noteq> q" if "path (sc cfg) (tab s) D r x ms" "beneath ms ns" using a [of x ms] that assms(3) by blast
qed

lemma kept_moved:
  assumes P: "\<And>x ms'. path (sc cfg) (tab s') D' r x ms' \<longleftrightarrow> (\<exists>ms. path (sc cfg) (tab s) D r x ms \<and> ms' = moved a b ms)"
    and q: "above cfg s D r ns" "path (sc cfg) (tab s) D r q a" "\<not> flagged KEEP (tab s) q"
    and f: "\<And>x. x \<noteq> q \<Longrightarrow> e_flags (ent (tab s') x) = e_flags (ent (tab s) x)"
  shows "kept cfg s D s' D' r ns"
  unfolding kept_def
proof (intro allI impI, elim conjE)
  fix x ms assume x: "path (sc cfg) (tab s) D r x ms" "beneath ms ns"
  note n = above_not [OF q]
  have "ms = moved a b ms" using n(1) [OF x(2)] by (simp add: moved_beneath)
  then have "path (sc cfg) (tab s') D' r x ms" using P x(1) by blast
  then show "path (sc cfg) (tab s') D' r x ms \<and> (flagged KEEP (tab s) x \<longrightarrow> flagged KEEP (tab s') x)"
    using f [OF n(3) [OF x]] by (simp add: flagged_def)
qed

lemma kept_same:
  assumes "\<And>x ms. path (sc cfg) (tab s) D r x ms \<Longrightarrow> beneath ms ns \<Longrightarrow>
    path (sc cfg) (tab s') D' r x ms \<and> (flagged KEEP (tab s) x \<longrightarrow> flagged KEEP (tab s') x)"
  shows "kept cfg s D s' D' r ns"
  using assms by (auto simp: kept_def)

text \<open>The directory of the name.\<close>

definition spot :: "acfg \<Rightarrow> restore \<Rightarrow> (eptr \<Rightarrow> nat \<Rightarrow> eptr list) \<Rightarrow> eptr \<Rightarrow> eptr \<Rightarrow> byte list list \<Rightarrow> byte list \<Rightarrow> bool" where
  "spot cfg s D r p ns n \<longleftrightarrow> path (sc cfg) (tab s) D r p ns \<and> isdir (tab s) p \<and> name_ok n \<and> short_path (ns @ [n])
     \<and> above cfg s D r ns"

lemma place_spot:
  "spot cfg s D r p ns n \<Longrightarrow> n \<notin> (\<lambda>z. e_name (ent (tab s) z)) ` kids (sc cfg) (tab s) D p \<Longrightarrow> place cfg s D r p ns n"
  by (simp add: spot_def place_def)

lemma spotD:
  assumes "spot cfg s D r p ns n"
  shows "path (sc cfg) (tab s) D r p ns" "isdir (tab s) p" "name_ok n" "short_path (ns @ [n])" "above cfg s D r ns"
  using assms by (auto simp: spot_def)

lemma spot_kept:
  assumes "spot cfg s D r p ns n" "kept cfg s D s' D' r ns" "isdir (tab s') = isdir (tab s)" "symtab_ok (sc cfg) (tab s') D' r M'"
  shows "spot cfg s' D' r p ns n"
  using spotD [OF assms(1)] keptD(1) [OF assms(2) spotD(1) [OF assms(1)]] assms(3) above_kept [OF assms(4) spotD(1,5) [OF assms(1)] assms(2)]
  by (simp add: spot_def)

text \<open>What is to hold after the update of a name.\<close>

definition updated :: "acfg \<Rightarrow> byte list list set \<Rightarrow> restore \<Rightarrow> (eptr \<Rightarrow> nat \<Rightarrow> eptr list) \<Rightarrow> eptr \<Rightarrow> byte list list \<Rightarrow> byte list
    \<Rightarrow> dump_ino_t \<Rightarrow> byte \<Rightarrow> bool \<Rightarrow> restore \<Rightarrow> bool" where
  "updated cfg F s D r ns n ino ty ontape s' \<longleftrightarrow> (\<exists>D' M' q. mirrors cfg F s' D' r M' \<and> kept cfg s D s' D' r ns
     \<and> path (sc cfg) (tab s') D' r q (ns @ [n]) \<and> M' ino = Some q \<and> flagged KEEP (tab s') q
     \<and> (ontape \<longrightarrow> e_type (ent (tab s') q) = ty \<and> (ty = LEAF \<longrightarrow> flagged (NEW OR EXTRACT) (tab s') q)))"

lemma updated_kept: "kept cfg s D s1 D1 r ns \<Longrightarrow> updated cfg F s1 D1 r ns n ino ty o' s' \<Longrightarrow> updated cfg F s D r ns n ino ty o' s'"
  unfolding updated_def using kept_trans by blast

lemma new_file_updated:
  assumes m: "mirrors cfg F s D r M" and w: "working cfg F" and p: "place cfg s D r p ns n"
    and ty: "ty = LEAF \<or> ty = NODE" and i: "in_table (sc cfg) ino" "M ino = None"
  shows "\<exists>s'. new_file cfg (pathname ns @ slash # n) ino ty s = Inr (True, s') \<and> updated cfg F s D r ns n ino ty o' s'"
proof -
  obtain s' D' np where f: "new_file cfg (pathname ns @ slash # n) ino ty s = Inr (True, s')"
    "mirrors cfg F s' D' r (M(ino \<mapsto> np))" "e_type (ent (tab s') np) = ty" "e_flags (ent (tab s') np) = NEW OR KEEP"
    "\<And>x ms. path (sc cfg) (tab s') D' r x ms \<longleftrightarrow> path (sc cfg) (tab s) D r x ms \<or> x = np \<and> ms = ns @ [n]"
    "\<And>x ms. path (sc cfg) (tab s) D r x ms \<Longrightarrow> fixed_part (ent (tab s') x) = fixed_part (ent (tab s) x)"
    by (rule new_file_ok [OF m w p ty i]) (rule that)
  have k: "kept cfg s D s' D' r ns"
    by (rule kept_same) (use fixed_partD(2) [OF f(6)] in \<open>simp add: f(5) flagged_def\<close>)
  have "updated cfg F s D r ns n ino ty o' s'"
    unfolding updated_def
    by (rule exI [of _ D'], rule exI [of _ "M(ino \<mapsto> np)"], rule exI [of _ np])
      (use f k in \<open>simp add: flagged_def NEW_def KEEP_def EXTRACT_def\<close>)
  then show ?thesis using f(1) by blast
qed

lemma set_flags_ok:
  assumes m: "mirrors cfg F s D r M" and q: "path (sc cfg) (tab s) D r q ms" and fl: "fl AND NEW = 0"
  defines "s' \<equiv> in_tab (set_flags fl q) s"
  shows "mirrors cfg F s' D r M" "kids (sc cfg) (tab s') D = kids (sc cfg) (tab s) D"
    "path (sc cfg) (tab s') D r = path (sc cfg) (tab s) D r" "attr (ent (tab s') x) = attr (ent (tab s) x)"
    "isdir (tab s') = isdir (tab s)" "e_flags (ent (tab s') q) = e_flags (ent (tab s) q) OR fl"
    "x \<noteq> q \<Longrightarrow> e_flags (ent (tab s') x) = e_flags (ent (tab s) x)" "kept cfg s D s' D r ns"
    "e_name (ent (tab s') x) = e_name (ent (tab s) x)" "unwritten (tab s') x = unwritten (tab s) x"
proof -
  have ql: "q < length (heap (tab s))" by (rule path_isdir [OF q symtab_okD(1) [OF mirrorsD(1) [OF m]]])
  have t: "tab s' = upd (\<lambda>e. e\<lparr>e_flags := e_flags (ent (tab s) q) OR fl\<rparr>) q (tab s)" "calls s' = calls s"
    using set_flags_upd [OF ql] by (simp_all add: s'_def in_tab_def)
  show fq: "e_flags (ent (tab s') q) = e_flags (ent (tab s) q) OR fl" using ql by (simp add: t)
  show fx: "e_flags (ent (tab s') y) = e_flags (ent (tab s) y)" if "y \<noteq> q" for y using that by (simp add: t)
  have u: "unwritten (tab s') q = unwritten (tab s) q"
    by (rule unwritten_same) (simp_all add: t(1) attr_flags fl flags_and_or fq [unfolded t(1)])
  note k = mirrors_flags [OF m t u]
  show "mirrors cfg F s' D r M" "kids (sc cfg) (tab s') D = kids (sc cfg) (tab s) D"
    "path (sc cfg) (tab s') D r = path (sc cfg) (tab s) D r" "attr (ent (tab s') x) = attr (ent (tab s) x)"
    "isdir (tab s') = isdir (tab s)" by (rule k)+
  show "e_name (ent (tab s') x) = e_name (ent (tab s) x)" by (simp add: t(1) upd_keep)
  show "unwritten (tab s') x = unwritten (tab s) x"
  proof (cases "x = q")
    case False
    then show ?thesis by (intro unwritten_same [OF k(4)]) (simp add: fx)
  qed (simp add: u)
  show "kept cfg s D s' D r ns"
  proof (rule kept_same, intro conjI impI)
    fix y ms assume "path (sc cfg) (tab s) D r y ms"
    then show "path (sc cfg) (tab s') D r y ms" by (simp add: k(3))
    assume f: "flagged KEEP (tab s) y"
    show "flagged KEEP (tab s') y"
    proof (cases "y = q")
      case True
      have "v AND KEEP \<noteq> 0 \<Longrightarrow> (v OR fl) AND KEEP \<noteq> 0" for v :: u16
        by (simp add: flags_and_or) (metis or_eq_0_iff)
      then show ?thesis using f True by (simp add: flagged_def fq)
    qed (use f fx in \<open>simp add: flagged_def\<close>)
  qed
qed

text \<open>The entry that has the number: not seen yet in this run, though it may have been given a temporary name.\<close>

definition unseen :: "restore \<Rightarrow> eptr \<Rightarrow> bool" where
  "unseen s q \<longleftrightarrow> e_flags (ent (tab s) q) = 0 \<or> e_flags (ent (tab s) q) = TMPNAME"

lemma unseenD:
  assumes "unseen s q"
  shows "\<not> flagged KEEP (tab s) q" "\<not> unwritten (tab s) q" "\<not> flagged TMPNAME (tab s) q \<longleftrightarrow> e_flags (ent (tab s) q) = 0"
    "e_flags (ent (tab s) q) = 0 \<or> e_flags (ent (tab s) q) = TMPNAME"
  using assms by (auto simp: unseen_def flagged_def unwritten_def KEEP_def TMPNAME_def NEW_def)

definition numbered :: "acfg \<Rightarrow> restore \<Rightarrow> (eptr \<Rightarrow> nat \<Rightarrow> eptr list) \<Rightarrow> eptr \<Rightarrow> (dump_ino_t \<Rightarrow> eptr option) \<Rightarrow> dump_ino_t \<Rightarrow> eptr
    \<Rightarrow> eptr \<Rightarrow> byte list list \<Rightarrow> bool" where
  "numbered cfg s D r M ino ip pq nsq \<longleftrightarrow> M ino = Some ip \<and> unseen s ip \<and> path (sc cfg) (tab s) D r pq nsq
     \<and> ip \<in> kids (sc cfg) (tab s) D pq \<and> short_path (nsq @ [e_name (ent (tab s) ip)]) \<and> short_path (nsq @ [tmp_of ino])
     \<and> (\<forall>z \<in> kids (sc cfg) (tab s) D pq. e_name (ent (tab s) z) = tmp_of ino \<longrightarrow> z = ip)"

lemma numberedD:
  assumes "numbered cfg s D r M ino ip pq nsq"
  shows "M ino = Some ip" "unseen s ip" "path (sc cfg) (tab s) D r pq nsq" "ip \<in> kids (sc cfg) (tab s) D pq"
    "short_path (nsq @ [e_name (ent (tab s) ip)])" "short_path (nsq @ [tmp_of ino])"
    "\<forall>z \<in> kids (sc cfg) (tab s) D pq. e_name (ent (tab s) z) = tmp_of ino \<longrightarrow> z = ip"
  using assms by (auto simp: numbered_def)

lemma new_file_leaf: "new_file cfg name ino LEAF s =
    bindE (add_entry cfg name ino LEAF s) (\<lambda>(ep, s). Inr (True, in_tab (set_flags (NEW OR KEEP) ep) s))"
  "new_file cfg name ino NODE s =
    bindE (add_entry cfg name ino NODE s) (\<lambda>(ep, s). bindE (newnode cfg ep s) (\<lambda>s. Inr (True, in_tab (set_flags (NEW OR KEEP) ep) s)))"
  by (simp_all add: new_file_def LEAF_def NODE_def)

lemma new_mode_updated:
  assumes m: "mirrors cfg F s D r M" and w: "working cfg F" and sp: "spot cfg s D r p ns n" and i: "in_table (sc cfg) ino"
    and q: "numbered cfg s D r M ino ip pq nsq" and ty: "ty = LEAF \<or> ty = NODE" "e_type (ent (tab s) ip) \<noteq> ty"
    and n: "n \<noteq> tmp_of ino" "\<forall>z \<in> kids (sc cfg) (tab s) D p. e_name (ent (tab s) z) = n \<longrightarrow> z = ip \<and> e_flags (ent (tab s) ip) = 0"
  shows "\<exists>s'. new_mode cfg (pathname ns @ slash # n) ino ty ip s = Inr (True, s') \<and> updated cfg F s D r ns n ino ty o' s'"
proof -
  note qD = numberedD [OF q] and spd = spotD [OF sp]
  note ok = mirrorsD(1) [OF m] and u = unseenD [OF qD(2)]
  note t = symtab_okD(1) [OF ok]
  let ?name = "pathname ns @ slash # n" and ?a = "nsq @ [e_name (ent (tab s) ip)]"
  have pq: "path (sc cfg) (tab s) D r ip ?a" by (rule path_kid [OF qD(3,4)])
  have ipl: "ip < length (heap (tab s))" by (rule path_isdir [OF pq t])
  note e = plain_entryD [OF plain_tableD(1) [OF mirrorsD(2) [OF m] pq]]
  have ino: "e_ino (ent (tab s) ip) = ino" by (rule ino_map_Some(2) [OF symtab_okD(2) [OF ok] qD(1)])
  note ab = above_not [OF spd(5) pq u(1)]
  have nk: "\<not> flagged KEEP (tab s) ip" by (rule u(1))
  have only: "x = pq" if "ip \<in> kids (sc cfg) (tab s) D x" for x
    using kidsD(2) [OF treeD(6) [OF t] that] kidsD(2) [OF treeD(6) [OF t] qD(4)] by simp
  show ?thesis
  proof (cases "e_type (ent (tab s) ip) = LEAF")
    case True
    then have node: "ty = NODE" using ty by auto
    obtain s1 D1 where d: "bindE (removeleaf cfg ip s) (free_entry cfg ip) = Inr s1" "mirrors cfg F s1 D1 r (M(ino := None))"
      "\<And>x ms. path (sc cfg) (tab s1) D1 r x ms \<longleftrightarrow> path (sc cfg) (tab s) D r x ms \<and> x \<noteq> ip"
      "\<And>x. x \<noteq> ip \<Longrightarrow> fixed_part (ent (tab s1) x) = fixed_part (ent (tab s) x)" "e_links (ent (tab s1) ip) = None"
      "kids (sc cfg) (tab s1) D1 = (kids (sc cfg) (tab s) D)(pq := kids (sc cfg) (tab s) D pq - {ip})" "isdir (tab s1) = isdir (tab s)"
      by (rule drop_leaf_ok [OF m w qD(3,4) True qD(1) u(4) qD(5)]) (rule that)
    obtain k where k: "length (heap (tab s)) = Suc k" using ipl by (cases "length (heap (tab s))") auto
    have el: "each_link (drop_leaf cfg) (length (heap (tab s))) (Some ip) s = Inr s1"
      using d(1,5) True by (simp add: k drop_leaf_def bad_if_def)
    have kp: "kept cfg s D s1 D1 r ns"
      by (rule kept_same) (use ab(3) fixed_partD(2) [OF d(4)] in \<open>simp add: d(3) flagged_def\<close>)
    have "n \<notin> (\<lambda>z. e_name (ent (tab s1) z)) ` kids (sc cfg) (tab s1) D1 p"
    proof
      assume "n \<in> (\<lambda>z. e_name (ent (tab s1) z)) ` kids (sc cfg) (tab s1) D1 p"
      then obtain z where z: "z \<in> kids (sc cfg) (tab s1) D1 p" "e_name (ent (tab s1) z) = n" by blast
      have zk: "z \<in> kids (sc cfg) (tab s) D p" "z \<noteq> ip"
        using z(1) only by (auto simp: d(6) split: if_splits)
      then show False using n(2) z(2) fixed_partD(4) [OF d(4) [OF zk(2)]] by auto
    qed
    then have pl: "place cfg s1 D1 r p ns n" by (rule place_spot [OF spot_kept [OF sp kp d(7) mirrorsD(1) [OF d(2)]]])
    have none: "(M(ino := None)) ino = None" by simp
    from new_file_updated [OF d(2) w pl ty(1) i none]
    obtain s' where f: "new_file cfg ?name ino ty s1 = Inr (True, s')" "updated cfg F s1 D1 r ns n ino ty o' s'" by blast
    have "new_mode cfg ?name ino ty ip s = Inr (True, s')"
      using f(1) nk True el by (simp add: new_mode_def node new_file_leaf)
    then show ?thesis using updated_kept [OF kp f(2)] by blast
  next
    case False
    then have leaf: "ty = LEAF" "e_type (ent (tab s) ip) = NODE" using ty e(2) by auto
    obtain s1 where s1: "(if flagged TMPNAME (tab s) ip then Inr s else mktempname cfg ip s) = Inr s1" "mirrors cfg F s1 D r M"
      "kids (sc cfg) (tab s1) D = kids (sc cfg) (tab s) D" "isdir (tab s1) = isdir (tab s)" "kept cfg s D s1 D r ns"
      "n \<notin> (\<lambda>z. e_name (ent (tab s1) z)) ` kids (sc cfg) (tab s) D p"
    proof (cases "flagged TMPNAME (tab s) ip")
      case True
      then have "n \<notin> (\<lambda>z. e_name (ent (tab s) z)) ` kids (sc cfg) (tab s) D p" using n(2) u(3) by auto
      then show thesis using that [of s] True m by (simp add: kept_def)
    next
      case False
      have t1: "\<not> flagged TMPNAME (tab s) ip \<and> \<not> unwritten (tab s) ip" using False u(2) by simp
      have t2: "M (e_ino (ent (tab s) ip)) = Some ip" using qD(1) ino by simp
      have t3: "\<forall>z \<in> kids (sc cfg) (tab s) D pq. e_name (ent (tab s) z) = tmp_of (e_ino (ent (tab s) ip)) \<longrightarrow> z = ip"
        using qD(7) ino by simp
      have t4: "short_path (nsq @ [tmp_of (e_ino (ent (tab s) ip))])" using qD(6) ino by simp
      obtain s1 where k: "mktempname cfg ip s = Inr s1" "mirrors cfg F s1 D r M"
        "kids (sc cfg) (tab s1) D = kids (sc cfg) (tab s) D" "isdir (tab s1) = isdir (tab s)"
        "\<And>x ms'. path (sc cfg) (tab s1) D r x ms' \<longleftrightarrow> (\<exists>ms. path (sc cfg) (tab s) D r x ms \<and>
           ms' = moved ?a (nsq @ [tmp_of (e_ino (ent (tab s) ip))]) ms)"
        "\<And>x. x \<noteq> ip \<Longrightarrow> e_flags (ent (tab s1) x) = e_flags (ent (tab s) x)"
        "\<And>x. x \<noteq> ip \<Longrightarrow> e_name (ent (tab s1) x) = e_name (ent (tab s) x)" "e_name (ent (tab s1) ip) = tmp_of (e_ino (ent (tab s) ip))"
        by (rule mktempname_ok [OF m w qD(3,4) t1 t2 _ qD(5) t4]) (use t3 in blast, rule that)
      have kp: "kept cfg s D s1 D r ns" by (rule kept_moved [OF k(5) spd(5) pq nk k(6)])
      have "n \<notin> (\<lambda>z. e_name (ent (tab s1) z)) ` kids (sc cfg) (tab s) D p"
      proof
        assume "n \<in> (\<lambda>z. e_name (ent (tab s1) z)) ` kids (sc cfg) (tab s) D p"
        then obtain z where z: "z \<in> kids (sc cfg) (tab s) D p" "e_name (ent (tab s1) z) = n" by blast
        have "z \<noteq> ip" using z(2) k(8) n(1) ino by auto
        then show False using n(2) z k(7) by auto
      qed
      then show thesis using that [of s1] False k(1-4) kp by simp
    qed
    have ipk: "ip \<in> kids (sc cfg) (tab s1) D pq" using qD(4) by (simp add: s1(3))
    obtain s2 where s2: "put_off cfg ip s1 = Inr s2" "mirrors cfg F s2 D r (M(ino := None))"
      "kids (sc cfg) (tab s2) D = kids (sc cfg) (tab s1) D" "isdir (tab s2) = isdir (tab s1)"
      "path (sc cfg) (tab s2) D r = path (sc cfg) (tab s1) D r"
      "\<And>x. fixed_part (ent (tab s2) x) = fixed_part (ent (tab s1) x)"
      by (rule put_off_ok [OF s1(2) ipk qD(1)]) (rule that)
    note f = fixed_partD [OF s2(6)]
    have kp2: "kept cfg s1 D s2 D r ns" by (rule kept_same) (simp add: s2(5) flagged_def f(2))
    note kp = kept_trans [OF s1(5) kp2]
    have "spot cfg s2 D r p ns n" by (rule spot_kept [OF sp kp _ mirrorsD(1) [OF s2(2)]]) (simp add: s2(4) s1(4))
    then have pl: "place cfg s2 D r p ns n" by (rule place_spot) (use s1(6) in \<open>simp add: s2(3) s1(3) f(4)\<close>)
    have none: "(M(ino := None)) ino = None" by simp
    from new_file_updated [OF s2(2) w pl ty(1) i none]
    obtain s' where g: "new_file cfg ?name ino ty s2 = Inr (True, s')" "updated cfg F s2 D r ns n ino ty o' s'" by blast
    have "new_mode cfg ?name ino ty ip s = Inr (True, s')"
      using g(1) nk leaf False s1(1) s2(1) by (simp add: new_mode_def leaf new_file_leaf split del: if_split)
    then show ?thesis using updated_kept [OF kp g(2)] by blast
  qed
qed

lemma flag_or: "v AND b \<noteq> 0 \<Longrightarrow> v AND (a OR b) \<noteq> 0" "v AND b \<noteq> 0 \<Longrightarrow> (v OR c) AND b \<noteq> 0" for v :: u16
  by (simp_all only: bit.conj_disj_distrib flags_and_or) (metis or_eq_0_iff)+

lemma other_name_updated:
  assumes m: "mirrors cfg F s D r M" and w: "working cfg F" and sp: "spot cfg s D r p ns n"
    and q: "numbered cfg s D r M ino ip pq nsq" and ty: "ontape \<longrightarrow> e_type (ent (tab s) ip) = ty"
    and n: "n \<notin> (\<lambda>z. e_name (ent (tab s) z)) ` kids (sc cfg) (tab s) D p"
  shows "\<exists>s'. other_name cfg (pathname ns @ slash # n) ino ty ontape ip s = Inr (True, s') \<and> updated cfg F s D r ns n ino ty ontape s'"
proof -
  note qD = numberedD [OF q] and spd = spotD [OF sp]
  note ok = mirrorsD(1) [OF m] and u = unseenD [OF qD(2)]
  let ?name = "pathname ns @ slash # n" and ?a = "nsq @ [e_name (ent (tab s) ip)]"
  have pq: "path (sc cfg) (tab s) D r ip ?a" by (rule path_kid [OF qD(3,4)])
  define fl :: u16 where "fl = (if ontape \<and> ty = LEAF then EXTRACT else 0)"
  have flN: "fl AND NEW = 0" by (simp add: fl_def EXTRACT_def NEW_def)
  define s1 where "s1 = in_tab (set_flags fl ip) s"
  note x = set_flags_ok [OF m pq flN, folded s1_def]
  have zero: "set_flags 0 ip (tab s) = tab s" by (simp add: set_flags_def upd_def)
  have s1: "(if ontape \<and> ty = LEAF \<and> \<not> flagged KEEP (tab s) ip then in_tab (set_flags EXTRACT ip) s else s) = s1"
    using u(1) by (auto simp: s1_def fl_def in_tab_def zero)
  have f1: "e_flags (ent (tab s1) ip) = e_flags (ent (tab s) ip) OR fl" by (rule x(6))
  have nk1: "\<not> flagged KEEP (tab s1) ip" and nu1: "\<not> unwritten (tab s1) ip"
    using u by (auto simp: x(10) flagged_def f1 fl_def flags_and_or EXTRACT_def KEEP_def)
  have i1: "e_ino (ent (tab s1) ip) = ino" using ino_map_Some(2) [OF symtab_okD(2) [OF ok] qD(1)] attrD(2) [OF x(4)] by simp
  have p1: "path (sc cfg) (tab s1) D r pq nsq" "ip \<in> kids (sc cfg) (tab s1) D pq"
    "path (sc cfg) (tab s1) D r ip ?a" using qD(3,4) pq by (simp_all add: x(2,3))
  have sp1: "spot cfg s1 D r p ns n" by (rule spot_kept [OF sp x(8,5) mirrorsD(1) [OF x(1)]])
  note spd1 = spotD [OF sp1]
  have pl1: "place cfg s1 D r p ns n" by (rule place_spot [OF sp1]) (use n in \<open>simp add: x(2,9)\<close>)
  have my: "my_name cfg ip s1 = Inr (pathname ?a)" by (rule my_name_path [OF x(1) p1(3) qD(5)])
  have M1: "M (e_ino (ent (tab s1) ip)) = Some ip" using i1 qD(1) by simp
  have na: "\<not> beneath (nsq @ [e_name (ent (tab s1) ip)]) ns" using above_not(2) [OF spd1(5) p1(3) nk1] by (simp add: x(9))
  obtain s2 D' where v: "on_tab (moveentry (sc cfg) ip ?name) (renameit cfg (pathname ?a) ?name s1) = Inr s2"
    "mirrors cfg F s2 D' r M"
    "\<And>x ms'. path (sc cfg) (tab s2) D' r x ms' \<longleftrightarrow> (\<exists>ms. path (sc cfg) (tab s1) D r x ms \<and> ms' = moved ?a (ns @ [n]) ms)"
    "\<And>x. attr (ent (tab s2) x) = attr (ent (tab s1) x)" "\<And>x. x \<noteq> ip \<Longrightarrow> e_flags (ent (tab s2) x) = e_flags (ent (tab s1) x)"
    "e_flags (ent (tab s2) ip) AND EXTRACT = e_flags (ent (tab s1) ip) AND EXTRACT"
    by (rule move_ok [OF x(1) w p1(1,2) pl1 M1 nu1 na, unfolded x(9)]) (rule that)
  have k2: "kept cfg s1 D s2 D' r ns" by (rule kept_moved [OF v(3) spd1(5) p1(3) nk1 v(5)])
  have pip: "path (sc cfg) (tab s2) D' r ip (ns @ [n])" using v(3) p1(3) by (metis moved_self)
  have KN: "KEEP AND NEW = 0" by (simp add: KEEP_def NEW_def)
  define s' where "s' = in_tab (set_flags KEEP ip) s2"
  note y = set_flags_ok [OF v(2) pip KN, folded s'_def]
  have run: "other_name cfg ?name ino ty ontape ip s = Inr (True, s')"
    using nk1 my v(1) by (simp add: other_name_def s1 Let_def s'_def split del: if_split)
  have ext: "e_flags (ent (tab s') ip) AND EXTRACT = fl" if "fl \<noteq> 0"
  proof -
    have "e_flags (ent (tab s') ip) AND EXTRACT = e_flags (ent (tab s1) ip) AND EXTRACT"
      using v(6) by (simp add: y(6) flags_and_or KEEP_def EXTRACT_def)
    then show ?thesis using that u(4) by (auto simp: f1 flags_and_or fl_def EXTRACT_def TMPNAME_def split: if_splits)
  qed
  have "updated cfg F s D r ns n ino ty ontape s'"
    unfolding updated_def
  proof (intro exI conjI impI)
    show "mirrors cfg F s' D' r M" by (rule y(1))
    show "kept cfg s D s' D' r ns" by (rule kept_trans [OF x(8) kept_trans [OF k2 y(8)]])
    show "path (sc cfg) (tab s') D' r ip (ns @ [n])" using pip by (simp add: y(3))
    show "M ino = Some ip" by (rule qD(1))
    show "flagged KEEP (tab s') ip" by (simp add: flagged_def y(6) flags_and_or) (simp add: KEEP_def)
    assume o: ontape
    show "e_type (ent (tab s') ip) = ty" using o ty attrD(1) [OF x(4)] attrD(1) [OF v(4)] attrD(1) [OF y(4)] by simp
    assume "ty = LEAF"
    then have "fl = EXTRACT" using o by (simp add: fl_def)
    then have "e_flags (ent (tab s') ip) AND EXTRACT = EXTRACT" using ext by (simp add: EXTRACT_def)
    then have "e_flags (ent (tab s') ip) AND EXTRACT \<noteq> 0" by (simp add: EXTRACT_def)
    then show "flagged (NEW OR EXTRACT) (tab s') ip" unfolding flagged_def by (rule flag_or(1))
  qed
  then show ?thesis using run by blast
qed

lemma same_name_updated:
  assumes m: "mirrors cfg F s D r M" and sp: "spot cfg s D r p ns n"
    and q: "M ino = Some np" "path (sc cfg) (tab s) D r np (ns @ [n])" and ty: "e_type (ent (tab s) np) = ty"
  shows "\<exists>s'. same_name cfg (pathname ns @ slash # n) ino ty False np s = Inr (True, s') \<and> updated cfg F s D r ns n ino ty ontape s'"
    "updated cfg F s D r ns n ino ty False (in_tab (set_flags KEEP np) s)"
proof -
  have upd: "updated cfg F s D r ns n ino ty o' (in_tab (set_flags KEEP np) s0)"
    if o: "o' \<and> ty = LEAF \<longrightarrow> flagged EXTRACT (tab s0) np" and m0: "mirrors cfg F s0 D r M"
      and k0: "kept cfg s D s0 D r ns" and q0: "path (sc cfg) (tab s0) D r np (ns @ [n])" and ty0: "o' \<longrightarrow> e_type (ent (tab s0) np) = ty" for o' s0
  proof -
    have KN: "KEEP AND NEW = 0" by (simp add: KEEP_def NEW_def)
    note y = set_flags_ok [OF m0 q0 KN]
    let ?s = "in_tab (set_flags KEEP np) s0"
    show ?thesis
      unfolding updated_def
    proof (intro exI conjI impI)
      show "mirrors cfg F ?s D r M" by (rule y(1))
      show "kept cfg s D ?s D r ns" by (rule kept_trans [OF k0 y(8)])
      show "path (sc cfg) (tab ?s) D r np (ns @ [n])" using q0 by (simp add: y(3))
      show "M ino = Some np" by (rule q(1))
      show "flagged KEEP (tab ?s) np" by (simp add: flagged_def y(6) flags_and_or) (simp add: KEEP_def)
      assume a: o'
      show "e_type (ent (tab ?s) np) = ty" using a ty0 attrD(1) [OF y(4)] by simp
      assume "ty = LEAF"
      then have "flagged EXTRACT (tab s0) np" using o a by simp
      then have "e_flags (ent (tab ?s) np) AND EXTRACT \<noteq> 0" unfolding flagged_def y(6) by (rule flag_or(2))
      then show "flagged (NEW OR EXTRACT) (tab ?s) np" unfolding flagged_def by (rule flag_or(1))
    qed
  qed
  show "updated cfg F s D r ns n ino ty False (in_tab (set_flags KEEP np) s)"
    by (rule upd) (use m q in \<open>simp_all add: kept_def\<close>)
  show "\<exists>s'. same_name cfg (pathname ns @ slash # n) ino ty False np s = Inr (True, s') \<and> updated cfg F s D r ns n ino ty ontape s'"
  proof (cases "ty = LEAF")
    case True
    have EN: "EXTRACT AND NEW = 0" by (simp add: EXTRACT_def NEW_def)
    note x = set_flags_ok [OF m q(2) EN]
    let ?s = "in_tab (set_flags EXTRACT np) s"
    have "updated cfg F s D r ns n ino ty ontape (in_tab (set_flags KEEP np) ?s)"
    proof (rule upd [OF _ x(1) x(8)])
      show "ontape \<and> ty = LEAF \<longrightarrow> flagged EXTRACT (tab ?s) np" by (simp add: flagged_def x(6) flags_and_or) (simp add: EXTRACT_def)
      show "path (sc cfg) (tab ?s) D r np (ns @ [n])" using q(2) by (simp add: x(3))
      show "ontape \<longrightarrow> e_type (ent (tab ?s) np) = ty" using ty attrD(1) [OF x(4)] by simp
    qed
    then show ?thesis using True by (simp add: same_name_def Let_def)
  next
    case False
    have "updated cfg F s D r ns n ino ty ontape (in_tab (set_flags KEEP np) s)"
      by (rule upd) (use m q ty False in \<open>simp_all add: kept_def\<close>)
    then show ?thesis using False by (simp add: same_name_def Let_def)
  qed
qed

lemma byte_char: "unat (of_char c :: byte) = of_char c"
proof -
  have "unat (of_nat (of_char c) :: byte) = take_bit 8 (of_char c)" by (simp only: unsigned_of_nat) simp
  also have "\<dots> = (of_char c :: nat)" by (simp add: take_bit_eq_mod)
  finally show ?thesis by (simp add: of_nat_of_char)
qed

lemma tmp_of_inj: "tmp_of i = tmp_of j \<longleftrightarrow> i = j"
proof
  assume "tmp_of i = tmp_of j"
  then have "map (of_char :: char \<Rightarrow> byte) (dec_nat (unat i)) = map of_char (dec_nat (unat j))" by (simp add: tmp_of_def)
  moreover have "inj (of_char :: char \<Rightarrow> byte)" by (rule injI) (metis byte_char of_char_eqI)
  ultimately have "dec_nat (unat i) = dec_nat (unat j)" by (simp add: inj_map_eq_map)
  then have "unat i = unat j" by (metis digits_value_dec_nat)
  then show "i = j" by (rule word_unat_eq_iff [THEN iffD2])
qed simp

text \<open>The lengths of the names.\<close>

lemma pathname_moved:
  "length (pathname (moved (ns @ [n]) (ns @ [k]) ms)) \<le> length (pathname ms) + length k"
proof (cases "beneath (ns @ [n]) ms")
  case True
  then obtain zs where "ms = (ns @ [n]) @ zs" by (auto simp: beneath_append)
  then show ?thesis by (simp add: moved_def pathname_def)
qed (simp add: moved_beneath)

definition short_paths :: "acfg \<Rightarrow> restore \<Rightarrow> (eptr \<Rightarrow> nat \<Rightarrow> eptr list) \<Rightarrow> eptr \<Rightarrow> bool" where
  "short_paths cfg s D r \<longleftrightarrow> (\<forall>x ms. path (sc cfg) (tab s) D r x ms \<longrightarrow> length (pathname ms) + 40 < MAXPATHLEN)"

lemma short_pathsD:
  assumes "short_paths cfg s D r" "path (sc cfg) (tab s) D r x ms"
  shows "length (pathname ms) + 40 < MAXPATHLEN" "short_path ms" "short_path (ms @ [tmp_of i])"
proof -
  show l: "length (pathname ms) + 40 < MAXPATHLEN" using assms by (auto simp: short_paths_def)
  then show "short_path ms" by (simp add: short_path_def)
  show "short_path (ms @ [tmp_of i])" using l tmp_of_ok(2) [of i] by (simp add: short_path_def pathname_def)
qed

text \<open>
  The state in which a name of the dump is reached: the directories above it are done, the name comes once, and
  the numbers of the two entries it concerns have no temporary name that belongs to another.
\<close>

definition in_turn :: "acfg \<Rightarrow> byte list list set \<Rightarrow> restore \<Rightarrow> (eptr \<Rightarrow> nat \<Rightarrow> eptr list) \<Rightarrow> eptr \<Rightarrow> (dump_ino_t \<Rightarrow> eptr option)
    \<Rightarrow> eptr \<Rightarrow> byte list list \<Rightarrow> byte list \<Rightarrow> dump_ino_t \<Rightarrow> bool" where
  "in_turn cfg F s D r M p ns n ino \<longleftrightarrow> mirrors cfg F s D r M \<and> spot cfg s D r p ns n \<and> short_paths cfg s D r
     \<and> in_table (sc cfg) ino \<and> ino \<noteq> ROOTINO \<and> (\<forall>j. n \<noteq> tmp_of j) \<and> (\<forall>q. M ino = Some q \<longrightarrow> unseen s q)
     \<and> (\<forall>x \<in> kids (sc cfg) (tab s) D p. e_name (ent (tab s) x) = n \<longrightarrow> e_ino (ent (tab s) x) \<noteq> 0 \<and> e_flags (ent (tab s) x) = 0
          \<and> (\<forall>z ms. path (sc cfg) (tab s) D r z ms \<and> e_name (ent (tab s) z) = tmp_of (e_ino (ent (tab s) x)) \<longrightarrow> z = x))
     \<and> (\<forall>z ms. path (sc cfg) (tab s) D r z ms \<and> e_name (ent (tab s) z) = tmp_of ino \<longrightarrow> M ino = Some z)"

lemma in_turnD:
  assumes "in_turn cfg F s D r M p ns n ino"
  shows "mirrors cfg F s D r M" "spot cfg s D r p ns n" "short_paths cfg s D r" "in_table (sc cfg) ino" "ino \<noteq> ROOTINO"
    "n \<noteq> tmp_of j" "M ino = Some q \<Longrightarrow> unseen s q"
    "x \<in> kids (sc cfg) (tab s) D p \<Longrightarrow> e_name (ent (tab s) x) = n \<Longrightarrow> e_ino (ent (tab s) x) \<noteq> 0 \<and> e_flags (ent (tab s) x) = 0"
    "x \<in> kids (sc cfg) (tab s) D p \<Longrightarrow> e_name (ent (tab s) x) = n \<Longrightarrow> path (sc cfg) (tab s) D r z ms \<Longrightarrow>
       e_name (ent (tab s) z) = tmp_of (e_ino (ent (tab s) x)) \<Longrightarrow> z = x"
    "path (sc cfg) (tab s) D r z ms \<Longrightarrow> e_name (ent (tab s) z) = tmp_of ino \<Longrightarrow> M ino = Some z"
  using assms unfolding in_turn_def by blast+

lemma in_turn_numbered:
  assumes rd: "in_turn cfg F s D r M p ns n ino" and ip: "M ino = Some ip"
  obtains pq nsq where "numbered cfg s D r M ino ip pq nsq"
proof -
  note rD = in_turnD [OF rd]
  note ok = mirrorsD(1) [OF rD(1)]
  obtain ms where ms: "path (sc cfg) (tab s) D r ip ms" using plain_tableD(2) [OF mirrorsD(2) [OF rD(1)] ip] by blast
  have "ip \<noteq> r"
    using ino_map_Some(2) [OF symtab_okD(2) [OF ok] ip] ino_map_Some(2) [OF symtab_okD(2,3) [OF ok]] rD(5) by auto
  with ms obtain pq nsq where q: "path (sc cfg) (tab s) D r pq nsq" "ip \<in> kids (sc cfg) (tab s) D pq" by cases auto
  note p = path_kid [OF q]
  have "\<forall>z \<in> kids (sc cfg) (tab s) D pq. e_name (ent (tab s) z) = tmp_of ino \<longrightarrow> z = ip"
    using rD(10) [OF path_kid [OF q(1)]] ip by auto
  then show thesis
    by (intro that [of pq nsq]) (use ip rD(7) q short_pathsD(2) [OF rD(3) p] short_pathsD(3) [OF rD(3) q(1)] in \<open>simp add: numbered_def\<close>)
qed

text \<open>The other file that has the name gets a temporary one.\<close>

lemma freed:
  assumes rd: "in_turn cfg F s D r M p ns n ino" and w: "working cfg F"
    and x: "x \<in> kids (sc cfg) (tab s) D p" "e_name (ent (tab s) x) = n" "M ino \<noteq> Some x"
  obtains s1 where "mktempname cfg x s = Inr s1" "mirrors cfg F s1 D r M" "kept cfg s D s1 D r ns" "spot cfg s1 D r p ns n"
    "n \<notin> (\<lambda>z. e_name (ent (tab s1) z)) ` kids (sc cfg) (tab s1) D p"
    "\<And>z. attr (ent (tab s1) z) = attr (ent (tab s) z)"
    "\<And>ip. M ino = Some ip \<Longrightarrow> \<exists>pq nsq. numbered cfg s1 D r M ino ip pq nsq"
proof -
  note rD = in_turnD [OF rd]
  note sp = spotD [OF rD(2)] and m = rD(1)
  note ok = mirrorsD(1) [OF m]
  note t = symtab_okD(1) [OF ok]
  have px: "path (sc cfg) (tab s) D r x (ns @ [n])" using path_kid [OF sp(1) x(1)] x(2) by simp
  have fx: "e_flags (ent (tab s) x) = 0" "e_ino (ent (tab s) x) \<noteq> 0" using rD(8) [OF x(1,2)] by auto
  have Mx: "M (e_ino (ent (tab s) x)) = Some x" using plain_entryD(4) [OF plain_tableD(1) [OF mirrorsD(2) [OF m] px]] fx(2) by simp
  have nk: "\<not> flagged KEEP (tab s) x" and tn: "\<not> flagged TMPNAME (tab s) x \<and> \<not> unwritten (tab s) x"
    by (simp_all add: flagged_def unwritten_def fx)
  let ?t = "tmp_of (e_ino (ent (tab s) x))"
  have u: "\<forall>z \<in> kids (sc cfg) (tab s) D p. e_name (ent (tab s) z) = ?t \<longrightarrow> z = x"
    using rD(9) [OF x(1,2) path_kid [OF sp(1)]] by blast
  have sh: "short_path (ns @ [e_name (ent (tab s) x)])" using sp(4) x(2) by simp
  obtain s1 where k: "mktempname cfg x s = Inr s1" "mirrors cfg F s1 D r M"
    "kids (sc cfg) (tab s1) D = kids (sc cfg) (tab s) D" "isdir (tab s1) = isdir (tab s)"
    "\<And>y ms'. path (sc cfg) (tab s1) D r y ms' \<longleftrightarrow> (\<exists>ms. path (sc cfg) (tab s) D r y ms \<and>
       ms' = moved (ns @ [e_name (ent (tab s) x)]) (ns @ [?t]) ms)"
    "\<And>y. attr (ent (tab s1) y) = attr (ent (tab s) y)"
    "\<And>y. y \<noteq> x \<Longrightarrow> e_flags (ent (tab s1) y) = e_flags (ent (tab s) y)"
    "\<And>y. y \<noteq> x \<Longrightarrow> e_name (ent (tab s1) y) = e_name (ent (tab s) y)" "e_name (ent (tab s1) x) = ?t"
    by (rule mktempname_ok [OF m w sp(1) x(1) tn Mx _ sh short_pathsD(3) [OF rD(3) sp(1)]]) (use u in blast, rule that)
  have kp: "kept cfg s D s1 D r ns" by (rule kept_moved [OF k(5) sp(5) _ nk k(7)]) (use px x(2) in simp)
  have sp1: "spot cfg s1 D r p ns n" by (rule spot_kept [OF rD(2) kp k(4) mirrorsD(1) [OF k(2)]])
  have free: "n \<notin> (\<lambda>z. e_name (ent (tab s1) z)) ` kids (sc cfg) (tab s1) D p"
  proof
    assume "n \<in> (\<lambda>z. e_name (ent (tab s1) z)) ` kids (sc cfg) (tab s1) D p"
    then obtain z where z: "z \<in> kids (sc cfg) (tab s) D p" "e_name (ent (tab s1) z) = n" by (auto simp: k(3))
    then have "z \<noteq> x" using k(9) rD(6) by metis
    then have "e_name (ent (tab s) z) = e_name (ent (tab s) x)" using z(2) k(8) x(2) by simp
    then have "z = x" using z(1) x(1) treeD(6) [OF t] by (auto simp: dir_kids_def dest: inj_onD)
    then show False using \<open>z \<noteq> x\<close> by simp
  qed
  have num: "\<exists>pq nsq. numbered cfg s1 D r M ino ip pq nsq" if ip: "M ino = Some ip" for ip
  proof -
    obtain pq nsq where "numbered cfg s D r M ino ip pq nsq" by (rule in_turn_numbered [OF rd ip])
    note q = numberedD [OF this]
    let ?nsq = "moved (ns @ [e_name (ent (tab s) x)]) (ns @ [?t]) nsq"
    have ipx: "ip \<noteq> x" using ip x(3) by auto
    have pq: "path (sc cfg) (tab s1) D r pq ?nsq" using k(5) q(3) by blast
    have ipk: "ip \<in> kids (sc cfg) (tab s1) D pq" using q(4) by (simp add: k(3))
    have pi: "path (sc cfg) (tab s) D r ip (nsq @ [e_name (ent (tab s) ip)])" by (rule path_kid [OF q(3,4)])
    have l: "length (pathname ?nsq) \<le> length (pathname nsq) + 17"
      using pathname_moved [of ns _ ?t nsq] tmp_of_ok(2) [of "e_ino (ent (tab s) x)"] by (meson add_le_mono1 le_trans nat_add_left_cancel_le)
    have "short_path (?nsq @ [e_name (ent (tab s1) ip)])"
      using l short_pathsD(1) [OF rD(3) pi] k(8) [OF ipx] by (simp add: short_path_def pathname_def)
    moreover have "short_path (?nsq @ [tmp_of ino])"
      using l short_pathsD(1) [OF rD(3) q(3)] tmp_of_ok(2) [of ino] by (simp add: short_path_def pathname_def)
    moreover have "z = ip" if z: "z \<in> kids (sc cfg) (tab s1) D pq" "e_name (ent (tab s1) z) = tmp_of ino" for z
    proof (cases "z = x")
      case True
      then have "e_ino (ent (tab s) x) = ino" using z(2) k(9) tmp_of_inj by simp
      then show ?thesis using Mx ip True by simp
    next
      case False
      then show ?thesis using z q(7) k(8) by (simp add: k(3))
    qed
    moreover have "unseen s1 ip" using q(2) k(7) [OF ipx] by (simp add: unseen_def)
    ultimately have "numbered cfg s1 D r M ino ip pq ?nsq" using ip pq ipk by (simp add: numbered_def)
    then show ?thesis by blast
  qed
  show thesis by (rule that [OF k(1,2) kp sp1 free k(6) num])
qed

lemma kid_named:
  assumes t: "tree cfg st D r" and x: "x \<in> kids cfg st D p" "e_name (ent st x) = n"
    and z: "z \<in> kids cfg st D p" "e_name (ent st z) = n"
  shows "z = x"
  using x z treeD(6) [OF t] by (auto simp: dir_kids_def dest: inj_onD)

text \<open>The two keys in a table without hard links.\<close>

lemma find_both_ok:
  assumes rd: "in_turn cfg F s D r M p ns n ino"
  obtains np where "find_both cfg (pathname ns @ slash # n) ino s = Inr \<lparr> f_np = np, f_link = False, f_ip = M ino \<rparr>"
    "np = None \<Longrightarrow> n \<notin> (\<lambda>z. e_name (ent (tab s) z)) ` kids (sc cfg) (tab s) D p"
    "\<And>x. np = Some x \<Longrightarrow> x \<in> kids (sc cfg) (tab s) D p \<and> e_name (ent (tab s) x) = n"
proof -
  note rD = in_turnD [OF rd]
  note sp = spotD [OF rD(2)] and m = rD(1)
  note ok = mirrorsD(1) [OF m]
  note t = symtab_okD(1) [OF ok] and im = symtab_okD(2) [OF ok]
  have ip: "has_link (tab s) np k (e_links (ent (tab s) q)) = Inr False" if "M ino = Some q" for np k q
    using plain_entryD(1) [OF plain_tableD(1) [OF mirrorsD(2) [OF m]]] plain_tableD(2) [OF mirrorsD(2) [OF m] that] by fastforce
  have fi: "(case M ino of None \<Rightarrow> Inr \<lparr> f_np = np, f_link = lnk, f_ip = None \<rparr>
      | Some q \<Rightarrow> bindE (has_link (tab s) np (length (heap (tab s))) (e_links (ent (tab s) q))) (\<lambda>b.
          Inr \<lparr> f_np = np, f_link = lnk, f_ip = (if b then np else M ino) \<rparr>)) = Inr \<lparr> f_np = np, f_link = lnk, f_ip = M ino \<rparr>" for np lnk
    using ip by (cases "M ino") simp_all
  show thesis
  proof (cases "n \<in> (\<lambda>z. e_name (ent (tab s) z)) ` kids (sc cfg) (tab s) D p")
    case True
    then obtain x where x: "x \<in> kids (sc cfg) (tab s) D p" "e_name (ent (tab s) x) = n" by blast
    have px: "path (sc cfg) (tab s) D r x (ns @ [n])" using path_kid [OF sp(1) x(1)] x(2) by simp
    have "M (e_ino (ent (tab s) x)) = Some x"
      using plain_entryD(4) [OF plain_tableD(1) [OF mirrorsD(2) [OF m] px]] rD(8) [OF x] by simp
    then have "find_both cfg (pathname ns @ slash # n) ino s = Inr \<lparr> f_np = Some x, f_link = False, f_ip = M ino \<rparr>"
      using lookupname_path [OF px t symtab_ok_root [OF ok]]
      by (simp add: find_both_def Let_def pathname_snoc lookupino_map [OF im] fi)
    then show thesis by (rule that) (use x in auto)
  next
    case False
    have "\<not> path (sc cfg) (tab s) D r z (ns @ [n])" for z using False path_snocD [OF ok sp(1)] by blast
    then have "find_both cfg (pathname ns @ slash # n) ino s = Inr \<lparr> f_np = None, f_link = False, f_ip = M ino \<rparr>"
      using lookupname_missing [OF ok sp(1,2,3)]
      by (simp add: find_both_def Let_def pathname_snoc lookupino_map [OF im] fi)
    then show thesis by (rule that) (use False in auto)
  qed
qed

text \<open>The dispositions when the name is free.\<close>

lemma dispose_free:
  assumes m: "mirrors cfg F s D r M" and w: "working cfg F" and sp: "spot cfg s D r p ns n" and i: "in_table (sc cfg) ino"
    and free: "n \<notin> (\<lambda>z. e_name (ent (tab s) z)) ` kids (sc cfg) (tab s) D p"
    and num: "\<And>ip. M ino = Some ip \<Longrightarrow> \<exists>pq nsq. numbered cfg s D r M ino ip pq nsq"
    and ty: "ty = LEAF \<or> ty = NODE" and n: "n \<noteq> tmp_of ino" and o: "ontape \<or> M ino \<noteq> None"
  shows "\<exists>s'. dispose cfg (pathname ns @ slash # n) ino ty ontape \<lparr> f_np = None, f_link = lnk, f_ip = M ino \<rparr> s = Inr (True, s')
    \<and> updated cfg F s D r ns n ino ty ontape s'"
proof (cases "M ino")
  case None
  have "\<exists>s'. new_file cfg (pathname ns @ slash # n) ino ty s = Inr (True, s') \<and> updated cfg F s D r ns n ino ty ontape s'"
    by (rule new_file_updated [OF m w place_spot [OF sp free] ty i None])
  then show ?thesis using None o by (simp add: dispose_def)
next
  case (Some ip)
  obtain pq nsq where q: "numbered cfg s D r M ino ip pq nsq" using num [OF Some] by blast
  show ?thesis
  proof (cases "ontape \<and> e_type (ent (tab s) ip) \<noteq> ty")
    case True
    have "\<exists>s'. new_mode cfg (pathname ns @ slash # n) ino ty ip s = Inr (True, s') \<and> updated cfg F s D r ns n ino ty ontape s'"
      by (rule new_mode_updated [OF m w sp i q ty _ n]) (use True free in auto)
    then show ?thesis using Some True by (simp add: dispose_def mode_changed_def)
  next
    case False
    have "\<exists>s'. other_name cfg (pathname ns @ slash # n) ino ty ontape ip s = Inr (True, s') \<and> updated cfg F s D r ns n ino ty ontape s'"
      by (rule other_name_updated [OF m w sp q _ free]) (use False in auto)
    then show ?thesis using Some False by (auto simp: dispose_def mode_changed_def)
  qed
qed

lemma nodeupdates_updated:
  assumes rd: "in_turn cfg F s D r M p ns n ino" and w: "working cfg F" and o: "TSTINO ino (dumpmap cfg) \<or> M ino \<noteq> None"
  shows "\<exists>s'. nodeupdates cfg (pathname ns @ slash # n) ino node s = Inr (True, s')
    \<and> updated cfg F s D r ns n ino (ty_of node) (TSTINO ino (dumpmap cfg)) s'"
proof -
  let ?name = "pathname ns @ slash # n" and ?ty = "ty_of node" and ?o = "TSTINO ino (dumpmap cfg)"
  note rD = in_turnD [OF rd]
  note sp = spotD [OF rD(2)] and m = rD(1)
  note ok = mirrorsD(1) [OF m]
  note t = symtab_okD(1) [OF ok]
  have ty: "?ty = LEAF \<or> ?ty = NODE" by (simp add: ty_of_def)
  have num: "\<exists>pq nsq. numbered cfg s D r M ino ip pq nsq" if "M ino = Some ip" for ip
    by (rule in_turn_numbered [OF rd that]) blast
  obtain np where f: "find_both cfg ?name ino s = Inr \<lparr> f_np = np, f_link = False, f_ip = M ino \<rparr>"
    and np0: "np = None \<Longrightarrow> n \<notin> (\<lambda>z. e_name (ent (tab s) z)) ` kids (sc cfg) (tab s) D p"
    and np1: "\<And>x. np = Some x \<Longrightarrow> x \<in> kids (sc cfg) (tab s) D p \<and> e_name (ent (tab s) x) = n"
    by (rule find_both_ok [OF rd]) (rule that)
  show ?thesis
  proof (cases np)
    case None
    show ?thesis
      using dispose_free [OF m w rD(2,4) np0 [OF None] num ty rD(6) o, of False] None
      by (simp add: nodeupdates_def f resolve_def)
  next
    case (Some x)
    note x = np1 [OF Some, THEN conjunct1] np1 [OF Some, THEN conjunct2]
    have px: "path (sc cfg) (tab s) D r x (ns @ [n])" using path_kid [OF sp(1) x(1)] x(2) by simp
    show ?thesis
    proof (cases "M ino = Some x")
      case True
      have r: "resolve cfg \<lparr> f_np = np, f_link = False, f_ip = M ino \<rparr> s = Inr (\<lparr> f_np = Some x, f_link = False, f_ip = Some x \<rparr>, s)"
        using Some True by (simp add: resolve_def)
      consider "\<not> ?o" | "?o" "e_type (ent (tab s) x) \<noteq> ?ty" | "?o" "e_type (ent (tab s) x) = ?ty" by blast
      then have "\<exists>s'. dispose cfg ?name ino ?ty ?o \<lparr> f_np = Some x, f_link = False, f_ip = Some x \<rparr> s = Inr (True, s')
         \<and> updated cfg F s D r ns n ino ?ty ?o s'"
      proof cases
        case 1
        have "updated cfg F s D r ns n ino ?ty False (in_tab (set_flags KEEP x) s)"
          using same_name_updated(2) [OF m rD(2) True px refl] by (auto simp: updated_def)
        then show ?thesis using 1 by (simp add: dispose_def)
      next
        case 2
        obtain pq nsq where q: "numbered cfg s D r M ino x pq nsq" using num [OF True] by blast
        have "\<exists>s'. new_mode cfg ?name ino ?ty x s = Inr (True, s') \<and> updated cfg F s D r ns n ino ?ty ?o s'"
          by (rule new_mode_updated [OF m w rD(2,4) q ty 2(2) rD(6)]) (use kid_named [OF t x] rD(8) [OF x] in blast)
        then show ?thesis using 2 by (simp add: dispose_def mode_changed_def)
      next
        case 3
        show ?thesis using same_name_updated(1) [OF m rD(2) True px 3(2), of ?o] 3 by (simp add: dispose_def mode_changed_def)
      qed
      then show ?thesis by (simp add: nodeupdates_def f r)
    next
      case False
      obtain s1 where k: "mktempname cfg x s = Inr s1" "mirrors cfg F s1 D r M" "kept cfg s D s1 D r ns" "spot cfg s1 D r p ns n"
        "n \<notin> (\<lambda>z. e_name (ent (tab s1) z)) ` kids (sc cfg) (tab s1) D p"
        "\<And>z. attr (ent (tab s1) z) = attr (ent (tab s) z)"
        "\<And>ip. M ino = Some ip \<Longrightarrow> \<exists>pq nsq. numbered cfg s1 D r M ino ip pq nsq"
        by (rule freed [OF rd w x False]) (rule that)
      have d: "\<exists>s'. dispose cfg ?name ino ?ty ?o \<lparr> f_np = None, f_link = False, f_ip = M ino \<rparr> s1 = Inr (True, s')
        \<and> updated cfg F s1 D r ns n ino ?ty ?o s'"
        by (rule dispose_free [OF k(2) w k(4) rD(4) k(5,7) ty rD(6) o])
      show ?thesis
      proof (cases "M ino")
        case None
        then have on: ?o using o by simp
        then have "dispose cfg ?name ino ?ty ?o \<lparr> f_np = Some x, f_link = False, f_ip = None \<rparr> s
          = dispose cfg ?name ino ?ty ?o \<lparr> f_np = None, f_link = False, f_ip = None \<rparr> s1"
          by (simp add: dispose_def yield_name_def k(1))
        then show ?thesis
          using d updated_kept [OF k(3)] None Some by (auto simp: nodeupdates_def f resolve_def)
      next
        case (Some ip)
        have dn: "debug_name cfg x s = Inr ()"
          using my_name_path [OF m px sp(4)] by (simp add: debug_name_def)
        have "resolve cfg \<lparr> f_np = np, f_link = False, f_ip = M ino \<rparr> s = Inr (\<lparr> f_np = None, f_link = False, f_ip = M ino \<rparr>, s1)"
          using False Some \<open>np = Some x\<close> by (simp add: resolve_def dn yield_name_def k(1))
        then show ?thesis using d updated_kept [OF k(3)] by (auto simp: nodeupdates_def f)
      qed
    qed
  qed
qed

section \<open>Properties\<close>

text \<open>C3: \<open>nodeupdates\<close> for a name of the dump, in a table without hard links whose names are the files there are: it
  does not stop, every call it makes is possible, and afterwards the names of the table are again the
  files of the file system.  The entry of the name then has the number of the dump, and on the tape its type,
  it is marked \<open>KEEP\<close>, and \<open>NEW\<close> or \<open>EXTRACT\<close> when it is a file on the tape; the directories above it are as they were.
\<close>

theorem nodeupdates_mirror:
  assumes "in_turn cfg F s D r M p ns n ino" "working cfg F" "TSTINO ino (dumpmap cfg) \<or> M ino \<noteq> None"
  shows "\<exists>s'. nodeupdates cfg (pathname ns @ slash # n) ino node s = Inr (True, s')
    \<and> updated cfg F s D r ns n ino (ty_of node) (TSTINO ino (dumpmap cfg)) s'"
  by (rule nodeupdates_updated [OF assms])

definition sample_acfg :: acfg where
  "sample_acfg = \<lparr> sc = sample_scfg, command = CHR ''r'', uflag = False, hflag = True, vflag = False, mflag = True,
     compare_ignore_not_found = False, Lflag = 0, dumpmap = [0, 8], usedinomap = [2, 8], os = \<lambda>h c. True \<rparr>"

text \<open>The table with \<open>./a\<close>, a file or a directory, and the files there are.\<close>

definition start_state :: "symtab \<Rightarrow> restore" where
  "start_state st = \<lparr> tab = st, removelist = None, calls = [], compare_errors = 0 \<rparr>"

definition sample_state :: "symtab \<Rightarrow> restore" where
  "sample_state st = in_tab (set_flags KEEP 0) (start_state st)"

lemma tmp_of_hd: "tmp_of j = 0x52 # tl (tmp_of j)"
  by (simp add: tmp_of_def TMPHDR_def)

lemma sample_working: "working sample_acfg F" "sc sample_acfg = sample_scfg"
  by (simp_all add: working_def sample_acfg_def sample_scfg_def)

lemma sample_mirrors:
  assumes ty: "ty = LEAF \<or> ty = NODE"
  obtains st np st' D where "newsymtable sample_scfg = Inr st" "addentry sample_scfg a_name 12 ty st = Inr (np, st')"
    "mirrors sample_acfg {[], [[0x61]]} (start_state st') D 0 [ROOTINO \<mapsto> 0, 12 \<mapsto> np]"
    "\<And>q ms. path sample_scfg st' D 0 q ms \<longleftrightarrow> q = 0 \<and> ms = [] \<or> q = np \<and> ms = [[0x61]]"
    "kids sample_scfg st' D = (\<lambda>_. {})(0 := {np})" "e_name (ent st' np) = [0x61]" "e_name (ent st' 0) = [0x2E]"
    "e_flags (ent st' np) = 0" "np \<noteq> 0" "e_type (ent st' np) = ty" "e_flags (ent st' 0) = NEW" "e_type (ent st' 0) = NODE"
proof -
  have "\<exists>st. newsymtable sample_scfg = Inr st \<and> symtab_ok sample_scfg st (\<lambda>p j. []) 0 [ROOTINO \<mapsto> 0]
    \<and> (\<forall>q ns. path sample_scfg st (\<lambda>p j. []) 0 q ns \<longleftrightarrow> q = 0 \<and> ns = []) \<and> isdir st 0 \<and> e_type (ent st 0) = NODE
    \<and> e_links (ent st 0) = None \<and> e_flags (ent st 0) = NEW"
    by (rule newsymtable_ok) (simp_all add: sample_scfg_def HASHFACTOR_def in_table_def WINO_def ROOTINO_def)
  then obtain st where s: "newsymtable sample_scfg = Inr st" "symtab_ok sample_scfg st (\<lambda>p j. []) 0 [ROOTINO \<mapsto> 0]"
    and P0: "\<And>q ns. path sample_scfg st (\<lambda>p j. []) 0 q ns \<longleftrightarrow> q = 0 \<and> ns = []" and r: "isdir st 0" "e_type (ent st 0) = NODE"
    "e_links (ent st 0) = None" "e_flags (ent st 0) = NEW" by blast
  have k0: "kids sample_scfg st (\<lambda>p j. []) p = {}" for p by (simp add: kids_def)
  have p0: "path sample_scfg st (\<lambda>p j. []) 0 0 []" by (rule path_root)
  have none: "[0x61] \<notin> (\<lambda>q. e_name (ent st q)) ` kids sample_scfg st (\<lambda>p j. []) 0" by (simp add: k0)
  have l0: "0 < length (heap st)" using r(1) by (simp add: isdir_def)
  from addentry_ok [OF s(2) p0 r(2,1) name_ok_a(1) none ty sample_inum, unfolded a_name_path]
  obtain np st' D where a: "addentry sample_scfg a_name 12 ty st = Inr (np, st')"
    "symtab_ok sample_scfg st' D 0 [ROOTINO \<mapsto> 0, 12 \<mapsto> np]" "e_type (ent st' np) = ty" "e_links (ent st' np) = None"
    "ty = LEAF \<longrightarrow> e_entries (ent st' np) = None" "e_flags (ent st' np) = 0" "e_ino (ent st' np) = 12" "np \<noteq> 0"
    "ty = NODE \<longrightarrow> e_entries (ent st' np) \<noteq> None"
    and P: "\<forall>q ms. path sample_scfg st' D 0 q ms \<longleftrightarrow> path sample_scfg st (\<lambda>p j. []) 0 q ms \<or> q = np \<and> ms = [] @ [[0x61]]"
    and old: "\<forall>x. x < length (heap st) \<longrightarrow> x \<noteq> np \<longrightarrow> fixed_part (ent st' x) = fixed_part (ent st x)
        \<and> e_ino (ent st' x) = e_ino (ent st x) \<and> e_next (ent st' x) = e_next (ent st x)"
    and K: "kids sample_scfg st' D = (kids sample_scfg st (\<lambda>p j. []))(0 := insert np (kids sample_scfg st (\<lambda>p j. []) 0))"
    by (elim exE conjE) (rule that; assumption)
  let ?M = "[ROOTINO \<mapsto> 0, 12 \<mapsto> np]"
  have P': "path sample_scfg st' D 0 q ms \<longleftrightarrow> q = 0 \<and> ms = [] \<or> q = np \<and> ms = [[0x61]]" for q ms
    using P P0 by simp
  have f0: "fixed_part (ent st' 0) = fixed_part (ent st 0)" using old l0 a(8) by blast
  note r' = fixed_partD [OF f0]
  have i0: "e_ino (ent st' 0) = ROOTINO" by (rule ino_map_Some(2) [OF symtab_okD(2) [OF a(2)]]) (simp add: ROOTINO_def)
  have id: "isdir st' 0" by (rule kids_isdir [of np sample_scfg st' D 0]) (simp add: K)
  have na: "e_name (ent st' np) = [0x61]" using path_snocD(2) [OF a(2), of 0 "[]" np "[0x61]"] P' by simp
  have n0: "e_name (ent st' 0) = [0x2E]" using symtab_okD(1) [OF a(2)] by (simp add: tree_def)
  have m: "mirrors sample_acfg {[], [[0x61]]} (start_state st') D 0 ?M"
  proof (rule mirrorsI)
    show "symtab_ok (sc sample_acfg) (tab (start_state st')) D 0 ?M" using a(2) by (simp add: sample_working(2) start_state_def)
    have "plain_entry st' ?M 0" "plain_entry st' ?M np"
      using id i0 r' r a ty by (auto simp: plain_entry_def isdir_def LEAF_def NODE_def ROOTINO_def)
    then show "plain_table sample_acfg (tab (start_state st')) D 0 ?M" by (auto simp: plain_table_def sample_working(2) P' start_state_def split: if_splits)
    have "\<not> unwritten st' 0" "\<not> unwritten st' np" using r' r a by (simp_all add: unwritten_def flagged_def LEAF_def NODE_def)
    then show "fs_run sample_acfg (calls (start_state st')) {[], [[0x61]]} = present sample_acfg (tab (start_state st')) D 0"
      by (auto simp: fs_run_def present_def sample_working(2) P' start_state_def)
  qed
  have K': "kids sample_scfg st' D = (\<lambda>_. {})(0 := {np})" by (auto simp: K k0 fun_eq_iff)
  show thesis by (rule that [OF s(1) a(1) m P' K' na n0 a(6,8,3)]) (use r' r in simp_all)
qed

lemma sample_in_turn:
  obtains st np st' D where "newsymtable sample_scfg = Inr st" "addentry sample_scfg a_name 12 LEAF st = Inr (np, st')"
    "in_turn sample_acfg {[], [[0x61]]} (sample_state st') D 0 [ROOTINO \<mapsto> 0, 12 \<mapsto> np] 0 [] [0x62] 12"
proof -
  have ty: "LEAF = LEAF \<or> LEAF = NODE" by simp
  obtain st np st' D where s: "newsymtable sample_scfg = Inr st" "addentry sample_scfg a_name 12 LEAF st = Inr (np, st')"
    and m: "mirrors sample_acfg {[], [[0x61]]} (start_state st') D 0 [ROOTINO \<mapsto> 0, 12 \<mapsto> np]"
    and P': "\<And>q ms. path sample_scfg st' D 0 q ms \<longleftrightarrow> q = 0 \<and> ms = [] \<or> q = np \<and> ms = [[0x61]]"
    and K: "kids sample_scfg st' D = (\<lambda>_. {})(0 := {np})" and na: "e_name (ent st' np) = [0x61]" and n0: "e_name (ent st' 0) = [0x2E]"
    and f: "e_flags (ent st' np) = 0" "np \<noteq> 0"
    by (rule sample_mirrors [OF ty]) (rule that)
  let ?M = "[ROOTINO \<mapsto> 0, 12 \<mapsto> np]"
  note sc = sample_working(2)
  have id: "isdir st' 0" by (rule kids_isdir [of np sample_scfg st' D 0]) (simp add: K)
  have KN: "KEEP AND NEW = 0" by (simp add: KEEP_def NEW_def)
  have p0': "path (sc sample_acfg) (tab (start_state st')) D 0 0 []" by (rule path_root)
  have ts: "tab (start_state st') = st'" by (simp add: start_state_def)
  note x = set_flags_ok [OF m p0' KN, folded sample_state_def, unfolded sc ts]
  have Ps: "path sample_scfg (tab (sample_state st')) D 0 q ms \<longleftrightarrow> q = 0 \<and> ms = [] \<or> q = np \<and> ms = [[0x61]]" for q ms
    using P' by (simp add: x(3))
  have Ks: "kids sample_scfg (tab (sample_state st')) D 0 = {np}" by (simp add: x(2) K)
  have fs: "flagged KEEP (tab (sample_state st')) 0" by (simp add: flagged_def x(6) flags_and_or) (simp add: KEEP_def)
  have ab: "above sample_acfg (sample_state st') D 0 []"
    using fs by (auto simp: above_def sc Ps beneath_def)
  have nb: "name_ok [0x62]" "short_path [[0x62]]" by (simp_all add: name_ok_a short_path_def pathname_def MAXPATHLEN_def)
  have sp: "spot sample_acfg (sample_state st') D 0 0 [] [0x62]"
    unfolding spot_def using ab nb id by (simp add: sc Ps x(5))
  have sh: "short_paths sample_acfg (sample_state st') D 0"
    by (auto simp: short_paths_def sc Ps pathname_def MAXPATHLEN_def)
  have un: "unseen (sample_state st') np" using x(7) [of np] f by (simp add: unseen_def)
  have tn: "[c] \<noteq> tmp_of j" for c j
    using tmp_of_hd [of j] by (auto simp: tmp_of_def TMPHDR_def)
  have names: "e_name (ent (tab (sample_state st')) np) = [0x61]" "e_name (ent (tab (sample_state st')) 0) = [0x2E]"
    using na n0 by (simp_all add: x(9))
  have "in_turn sample_acfg {[], [[0x61]]} (sample_state st') D 0 ?M 0 [] [0x62] 12"
    unfolding in_turn_def sc using x(1) sp sh un
    by (auto simp: Ks Ps names tn sample_inum ROOTINO_def)
  then show thesis by (rule that [OF s])
qed

theorem nodeupdates_mirror_witness:
  "\<exists>st np st' s' D. newsymtable sample_scfg = Inr st \<and> addentry sample_scfg a_name 12 LEAF st = Inr (np, st')
    \<and> nodeupdates sample_acfg [0x2E, 0x2F, 0x62] 12 False (sample_state st') = Inr (True, s')
    \<and> updated sample_acfg {[], [[0x61]]} (sample_state st') D 0 [] [0x62] 12 LEAF True s'"
proof (rule sample_in_turn)
  fix st np st' D
  assume s: "newsymtable sample_scfg = Inr st" "addentry sample_scfg a_name 12 LEAF st = Inr (np, st')"
    "in_turn sample_acfg {[], [[0x61]]} (sample_state st') D 0 [ROOTINO \<mapsto> 0, 12 \<mapsto> np] 0 [] [0x62] 12"
  have t: "TSTINO 12 (dumpmap sample_acfg)" by (simp add: sample_acfg_def TSTINO_def in_map_def ino_byte_def ino_bit_def NBBY_def)
  from nodeupdates_mirror [OF s(3) sample_working(1) disjI1 [OF t], of False] t
  show ?thesis using s(1,2) by (simp add: ty_of_def pathname_def slash_def) blast
qed

end
