(* ===== verification/Restore_End.thy ===== *)
theory Restore_End
  imports Restore_Update
begin

text \<open>
  The end of an incremental restore: the directories that wait for their removal (\<open>removeoldnodes\<close>), the bounds
  of the files to be extracted (\<open>lowerbnd\<close>, \<open>upperbnd\<close>) and the check of the flags (\<open>checkrestore\<close>).
\<close>

section \<open>Directories that wait for their removal\<close>

text \<open>A change of \<open>e_next\<close> of an entry that is in no chain of the table.\<close>

lemma next_changed:
  fixes v :: "eptr option"
  assumes m: "mirrors cfg F s D r M" and q: "path (sc cfg) (tab s) D r q ms" "q \<notin> ran M"
  defines "s' \<equiv> in_tab (upd (\<lambda>e. e\<lparr>e_next := v\<rparr>) q) s"
  shows "mirrors cfg F s' D r M" "kids (sc cfg) (tab s') D = kids (sc cfg) (tab s) D"
    "path (sc cfg) (tab s') D r = path (sc cfg) (tab s) D r"
    "fixed_part (ent (tab s') x) = fixed_part (ent (tab s) x)" "e_ino (ent (tab s') x) = e_ino (ent (tab s) x)"
    "isdir (tab s') = isdir (tab s)" "length (heap (tab s')) = length (heap (tab s))"
    "e_next (ent (tab s') x) = (if x = q then v else e_next (ent (tab s) x))" "removelist s' = removelist s"
proof -
  note ok = mirrorsD(1) [OF m]
  note t = symtab_okD(1) [OF ok] and im = symtab_okD(2) [OF ok]
  have t': "tab s' = upd (\<lambda>e. e\<lparr>e_next := v\<rparr>) q (tab s)" "calls s' = calls s" by (simp_all add: s'_def in_tab_def)
  show rl: "removelist s' = removelist s" by (simp add: s'_def in_tab_def)
  have ql: "q < length (heap (tab s))" by (rule path_isdir [OF q(1) t])
  have tp: "tree_part (ent (tab s') z) = tree_part (ent (tab s) z)" for z by (simp add: t' tree_part_def upd_keep)
  show fp: "fixed_part (ent (tab s') z) = fixed_part (ent (tab s) z)" for z by (simp add: t' fixed_part_def upd_keep)
  show ei: "e_ino (ent (tab s') z) = e_ino (ent (tab s) z)" for z by (simp add: t' upd_keep)
  show l: "length (heap (tab s')) = length (heap (tab s))" by (simp add: t')
  show en: "e_next (ent (tab s') z) = (if z = q then v else e_next (ent (tab s) z))" for z
    using ql by (cases "z = q") (simp_all add: t')
  have tr: "tree (sc cfg) (tab s') D r" and K: "kids (sc cfg) (tab s') D = kids (sc cfg) (tab s) D"
    by (rule tree_same [OF t l tp])+
  show "kids (sc cfg) (tab s') D = kids (sc cfg) (tab s) D" by (rule K)
  show P: "path (sc cfg) (tab s') D r = path (sc cfg) (tab s) D r" by (rule path_same [OF K]) (rule tree_partD(1) [OF tp])
  show "isdir (tab s') = isdir (tab s)" using tree_partD(5) [OF tp] l by (simp add: isdir_def fun_eq_iff)
  have im': "ino_map (sc cfg) (tab s') M"
  proof (rule ino_map_frame [OF im])
    fix z assume "z \<in> ran M"
    then have "z \<noteq> q" using q(2) by blast
    then show "e_ino (ent (tab s') z) = e_ino (ent (tab s) z) \<and> e_next (ent (tab s') z) = e_next (ent (tab s) z)" by (simp add: ei en)
  qed (simp_all add: t')
  obtain G where G: "plist e_next (tab s) (freelist (tab s)) G" "\<And>f. f \<in> set G \<Longrightarrow> spare (sc cfg) (tab s) D r M f"
    using ok by (auto simp: symtab_ok_def)
  have "plist e_next (tab s') (freelist (tab s)) G"
  proof (rule plist_cong [OF G(1)])
    fix f assume f: "f \<in> set G"
    have "f \<noteq> q" using G(2) [OF f] path_reached [OF q(1)] by (auto simp: spare_def)
    then show "f < length (heap (tab s')) \<and> e_next (ent (tab s') f) = e_next (ent (tab s) f)"
      using plist_heap [OF G(1) f] l by (simp add: en)
  qed
  then have pl: "plist e_next (tab s') (freelist (tab s')) G" by (simp add: t')
  have ok': "symtab_ok (sc cfg) (tab s') D r M"
    by (rule symtab_okI [OF tr im' symtab_okD(3) [OF ok] pl]) (use G(2) in \<open>simp add: spare_def K\<close>)
  have at: "attr (ent (tab s') z) = attr (ent (tab s) z)" for z by (simp add: t' attr_def upd_keep)
  show "mirrors cfg F s' D r M"
  proof (rule mirrorsI [OF ok'])
    show "plain_table cfg (tab s') D r M" using mirrorsD(2) [OF m] by (simp add: plain_table_def P plain_entry_attr [OF at])
    have "unwritten (tab s') z = unwritten (tab s) z" for z
      using fixed_partD(1,2) [OF fp] by (simp add: unwritten_def flagged_def)
    then have "present cfg (tab s') D r = present cfg (tab s) D r" by (simp add: present_def P)
    then show "fs_run cfg (calls s') F = present cfg (tab s') D r" using mirrorsD(3) [OF m] by (simp add: t'(2))
  qed
qed

text \<open>The list of the directories that have been put off; what is below them is on the list too.\<close>

definition put_off_dir :: "acfg \<Rightarrow> restore \<Rightarrow> (eptr \<Rightarrow> nat \<Rightarrow> eptr list) \<Rightarrow> eptr \<Rightarrow> eptr \<Rightarrow> bool" where
  "put_off_dir cfg s D r x \<longleftrightarrow> (\<exists>p ns. path (sc cfg) (tab s) D r p ns \<and> x \<in> kids (sc cfg) (tab s) D p
       \<and> short_path (ns @ [e_name (ent (tab s) x)]))
     \<and> e_ino (ent (tab s) x) = 0 \<and> e_type (ent (tab s) x) = NODE \<and> unseen s x"

definition waiting :: "acfg \<Rightarrow> byte list list set \<Rightarrow> restore \<Rightarrow> (eptr \<Rightarrow> nat \<Rightarrow> eptr list) \<Rightarrow> eptr \<Rightarrow> (dump_ino_t \<Rightarrow> eptr option)
    \<Rightarrow> eptr list \<Rightarrow> bool" where
  "waiting cfg F s D r M L \<longleftrightarrow> mirrors cfg F s D r M \<and> plist e_next (tab s) (removelist s) L
     \<and> (\<forall>x \<in> set L. put_off_dir cfg s D r x \<and> kids (sc cfg) (tab s) D x \<subseteq> set L)"

lemma waitingD:
  assumes "waiting cfg F s D r M L"
  shows "mirrors cfg F s D r M" "plist e_next (tab s) (removelist s) L" "x \<in> set L \<Longrightarrow> put_off_dir cfg s D r x"
    "x \<in> set L \<Longrightarrow> kids (sc cfg) (tab s) D x \<subseteq> set L"
  using assms by (auto simp: waiting_def)

lemma put_off_dirE:
  assumes "put_off_dir cfg s D r x"
  obtains p ns where "path (sc cfg) (tab s) D r p ns" "x \<in> kids (sc cfg) (tab s) D p" "short_path (ns @ [e_name (ent (tab s) x)])"
    "e_ino (ent (tab s) x) = 0" "e_type (ent (tab s) x) = NODE" "unseen s x"
  using assms by (auto simp: put_off_dir_def)

lemma put_off_no_number:
  assumes m: "mirrors cfg F s D r M" and x: "e_ino (ent (tab s) x) = 0"
  shows "x \<notin> ran M"
proof
  note im = symtab_okD(2) [OF mirrorsD(1) [OF m]]
  assume "x \<in> ran M"
  then obtain i where i: "M i = Some x" by (auto simp: ran_def)
  then have "i = 0" using ino_map_Some(2) [OF im i] x by simp
  then show False using i ino_zero [OF im] by simp
qed

text \<open>A directory without entries leaves the list and the file system.\<close>

lemma set_prev_ok:
  assumes w: "waiting cfg F s D r M (xs @ x # ys)"
  defines "s' \<equiv> set_prev (last_of None xs) (e_next (ent (tab s) x)) s"
  shows "mirrors cfg F s' D r M" "kids (sc cfg) (tab s') D = kids (sc cfg) (tab s) D"
    "path (sc cfg) (tab s') D r = path (sc cfg) (tab s) D r"
    "fixed_part (ent (tab s') z) = fixed_part (ent (tab s) z)" "e_ino (ent (tab s') z) = e_ino (ent (tab s) z)"
    "isdir (tab s') = isdir (tab s)" "length (heap (tab s')) = length (heap (tab s))"
    "plist e_next (tab s') (removelist s') (xs @ ys)"
proof -
  note wD = waitingD [OF w]
  have sp: "plist e_next (tab s') (removelist s') (xs @ ys) \<and> mirrors cfg F s' D r M \<and> kids (sc cfg) (tab s') D = kids (sc cfg) (tab s) D
    \<and> path (sc cfg) (tab s') D r = path (sc cfg) (tab s) D r \<and> (\<forall>z. fixed_part (ent (tab s') z) = fixed_part (ent (tab s) z)
      \<and> e_ino (ent (tab s') z) = e_ino (ent (tab s) z)) \<and> isdir (tab s') = isdir (tab s)
    \<and> length (heap (tab s')) = length (heap (tab s))"
  proof (cases "xs = []")
    case True
    have "plist e_next (tab s) (e_next (ent (tab s) x)) ys" using wD(2) True by simp
    moreover have "tab s' = tab s" "removelist s' = e_next (ent (tab s) x)" "calls s' = calls s"
      using True by (simp_all add: s'_def set_prev_def last_of_def)
    ultimately show ?thesis using wD(1) True by (simp add: mirrors_def)
  next
    case False
    let ?q = "last xs"
    have q: "put_off_dir cfg s D r ?q" by (rule wD(3)) (use False in simp)
    then obtain p ns where p: "path (sc cfg) (tab s) D r p ns" "?q \<in> kids (sc cfg) (tab s) D p" "e_ino (ent (tab s) ?q) = 0"
      by (rule put_off_dirE) blast
    have s': "s' = in_tab (upd (\<lambda>e. e\<lparr>e_next := e_next (ent (tab s) x)\<rparr>) ?q) s"
      using False by (simp add: s'_def set_prev_def last_of_def)
    note n = next_changed [OF wD(1) path_kid [OF p(1,2)] put_off_no_number [OF wD(1) p(3)], of "e_next (ent (tab s) x)", folded s']
    have "plist e_next (tab s') (if xs = [] then e_next (ent (tab s) x) else removelist s) (xs @ ys)"
      by (rule plist_splice [OF wD(2) n(7)]) (use False in \<open>simp add: n(8) last_of_def\<close>)
    then show ?thesis using n False by simp
  qed
  then show "mirrors cfg F s' D r M" "kids (sc cfg) (tab s') D = kids (sc cfg) (tab s) D"
    "path (sc cfg) (tab s') D r = path (sc cfg) (tab s) D r"
    "fixed_part (ent (tab s') z) = fixed_part (ent (tab s) z)" "e_ino (ent (tab s') z) = e_ino (ent (tab s) z)"
    "isdir (tab s') = isdir (tab s)" "length (heap (tab s')) = length (heap (tab s))"
    "plist e_next (tab s') (removelist s') (xs @ ys)" by blast+
qed

lemma empty_lists_kids:
  assumes t: "tree cfg st D r" and q: "isdir st q"
  shows "empty_lists st q \<longleftrightarrow> kids cfg st D q = {}"
proof -
  obtain es where es: "q < length (heap st)" "e_entries (ent st q) = Some es" by (rule isdirE [OF q])
  note dl = dir_listsD [OF treeD(5) [OF t] es]
  have j: "es ! j = None \<longleftrightarrow> D q j = []" if "j < dirhash_size cfg" for j
    using dl(2) [OF that] by (cases "D q j") auto
  show ?thesis using es j dl(1) q by (auto simp: empty_lists_def kids_def list_all_length)
qed

lemma remove_step:
  assumes w: "waiting cfg F s D r M (xs @ x # ys)" and wk: "working cfg F" and k: "kids (sc cfg) (tab s) D x = {}"
  obtains s' D' where "bindE (removenode cfg x (set_prev (last_of None xs) (e_next (ent (tab s) x)) s)) (free_entry cfg x) = Inr s'"
    "waiting cfg F s' D' r M (xs @ ys)" "length (heap (tab s')) = length (heap (tab s))"
    "\<And>z ms. path (sc cfg) (tab s') D' r z ms \<longleftrightarrow> path (sc cfg) (tab s) D r z ms \<and> z \<noteq> x"
    "\<And>z. kids (sc cfg) (tab s') D' z = kids (sc cfg) (tab s) D z - {x}"
proof -
  note wD = waitingD [OF w]
  define s1 where "s1 = set_prev (last_of None xs) (e_next (ent (tab s) x)) s"
  note a = set_prev_ok [OF w, folded s1_def]
  note f1 = fixed_partD [OF a(4)]
  have "put_off_dir cfg s D r x" by (rule wD(3)) simp
  then obtain p ns where p: "path (sc cfg) (tab s) D r p ns" "x \<in> kids (sc cfg) (tab s) D p"
    "short_path (ns @ [e_name (ent (tab s) x)])" "e_ino (ent (tab s) x) = 0" "e_type (ent (tab s) x) = NODE" "unseen s x"
    by (rule put_off_dirE)
  let ?a = "ns @ [e_name (ent (tab s1) x)]"
  have p1: "path (sc cfg) (tab s1) D r p ns" "x \<in> kids (sc cfg) (tab s1) D p" "kids (sc cfg) (tab s1) D x = {}"
    using p(1,2) k by (simp_all add: a(2,3))
  have fl: "e_flags (ent (tab s1) x) = 0 \<or> e_flags (ent (tab s1) x) = TMPNAME" using p(6) by (simp add: unseen_def f1(2))
  have num: "M 0 = Some x \<or> (0::dump_ino_t) = 0 \<and> e_ino (ent (tab s1) x) = 0" by (simp add: a(5) p(4))
  have c: "drop_call (Rmdir (pathname ?a)) (pathname ?a)" by (simp add: drop_call_def)
  have sh: "short_path ?a" using p(3) by (simp add: f1(4))
  have M0: "M(0 := None) = M" using ino_zero [OF symtab_okD(2) [OF mirrorsD(1) [OF wD(1)]]] by auto
  obtain s2 s' D' where d: "my_name cfg x (mark_removed x s1) = Inr (pathname ?a)"
    "sys cfg (Rmdir (pathname ?a)) (mark_removed x s1) = (True, s2)" "free_entry cfg x s2 = Inr s'"
    "mirrors cfg F s' D' r (M(0 := None))" "removelist s' = removelist s1"
    "\<And>z ms. path (sc cfg) (tab s') D' r z ms \<longleftrightarrow> path (sc cfg) (tab s1) D r z ms \<and> z \<noteq> x"
    "\<And>z. z \<noteq> x \<Longrightarrow> fixed_part (ent (tab s') z) = fixed_part (ent (tab s1) z)"
    "kids (sc cfg) (tab s') D' = (kids (sc cfg) (tab s1) D)(p := kids (sc cfg) (tab s1) D p - {x})"
    "\<And>z. z \<notin> ran M \<Longrightarrow> z \<noteq> x \<Longrightarrow> e_ino (ent (tab s') z) = e_ino (ent (tab s1) z) \<and> e_next (ent (tab s') z) = e_next (ent (tab s1) z)"
    "length (heap (tab s')) = length (heap (tab s1))"
    by (rule drop_entry_ok [OF a(1) wk p1(1,2,3) fl num sh c]) (rule that)
  have t: "tree (sc cfg) (tab s1) D r" by (rule symtab_okD(1) [OF mirrorsD(1) [OF a(1)]])
  have px: "path (sc cfg) (tab s1) D r x ?a" by (rule path_kid [OF p1(1,2)])
  have dir: "isdir (tab s1) x"
    using plain_entryD(3) [OF plain_tableD(1) [OF mirrorsD(2) [OF a(1)] px]] p(5) path_isdir [OF px t] by (simp add: f1(1) isdir_def)
  have el: "empty_lists (tab s1) x" using empty_lists_kids [OF t dir] p1(3) by simp
  obtain es where es: "e_entries (ent (tab s1) x) = Some es" using dir by (auto simp: isdir_def)
  then have "\<forall>y \<in> set es. y = None" using el by (simp add: empty_lists_def list_all_iff)
  then have bc: "bad_children cfg x s1 = Inr ()"
    unfolding bad_children_def es bad_if_def option.case by (rule foldr_ok)
  have rn: "removenode cfg x s1 = Inr s2"
    using d(1,2) p(5) bc by (simp add: removenode_def bad_if_def f1(1) Let_def)
  have K: "kids (sc cfg) (tab s') D' z = kids (sc cfg) (tab s) D z - {x}" for z
  proof -
    have "z = p" if "x \<in> kids (sc cfg) (tab s1) D z"
      using kidsD(2) [OF treeD(6) [OF t] that] kidsD(2) [OF treeD(6) [OF t] p1(2)] by simp
    then show ?thesis by (auto simp: d(8) a(2))
  qed
  have P: "path (sc cfg) (tab s') D' r z ms \<longleftrightarrow> path (sc cfg) (tab s) D r z ms \<and> z \<noteq> x" for z ms
    by (simp add: d(6) a(3))
  have dx: "distinct (xs @ x # ys)" by (rule plist_distinct [OF wD(2)])
  have wait: "waiting cfg F s' D' r M (xs @ ys)"
    unfolding waiting_def
  proof (intro conjI ballI)
    show "mirrors cfg F s' D' r M" using d(4) by (simp only: M0)
    have nr: "z \<notin> ran M \<and> z \<noteq> x" if "z \<in> set (xs @ ys)" for z
      using put_off_no_number [OF wD(1), of z] wD(3) [of z] that dx by (auto simp: put_off_dir_def)
    show "plist e_next (tab s') (removelist s') (xs @ ys)"
      unfolding d(5) by (rule plist_cong [OF a(8)]) (use nr d(9,10) plist_heap [OF a(8)] in auto)
    fix z assume z: "z \<in> set (xs @ ys)"
    note zx = nr [OF z, THEN conjunct2]
    have "put_off_dir cfg s D r z" by (rule wD(3)) (use z in auto)
    then obtain pz nz where q: "path (sc cfg) (tab s) D r pz nz" "z \<in> kids (sc cfg) (tab s) D pz"
      "short_path (nz @ [e_name (ent (tab s) z)])" "e_ino (ent (tab s) z) = 0" "e_type (ent (tab s) z) = NODE" "unseen s z"
      by (rule put_off_dirE)
    note g = fixed_partD [OF d(7) [OF zx]]
    have "pz \<noteq> x" using q(2) k by auto
    then have "path (sc cfg) (tab s') D' r pz nz" "z \<in> kids (sc cfg) (tab s') D' pz" using q(1,2) zx by (simp_all add: P K)
    moreover have "e_ino (ent (tab s') z) = 0" using d(9) nr [OF z] q(4) by (simp add: a(5))
    ultimately show "put_off_dir cfg s' D' r z"
      unfolding put_off_dir_def using q(3,5,6) g(1,2,4) f1(1,2,4) by (auto simp: unseen_def)
    show "kids (sc cfg) (tab s') D' z \<subseteq> set (xs @ ys)"
      using wD(4) [of z] z by (auto simp: K)
  qed
  show thesis
    by (rule that [OF _ wait _ P K]) (simp_all add: s1_def [symmetric] rn d(3,10) a(7))
qed

definition hd_of :: "eptr list \<Rightarrow> eptr option" where
  "hd_of ys = (case ys of [] \<Rightarrow> None | y # _ \<Rightarrow> Some y)"

lemma get_prev_list:
  "plist e_next (tab s) (removelist s) (xs @ ys) \<Longrightarrow> get_prev (last_of None xs) s = hd_of ys"
proof (cases "xs = []")
  case False
  assume p: "plist e_next (tab s) (removelist s) (xs @ ys)"
  moreover have "xs @ ys = butlast xs @ [last xs] @ ys" using append_butlast_last_id [OF False] by (metis append.assoc)
  ultimately have "plist e_next (tab s) (removelist s) (butlast xs @ [last xs] @ ys)" by simp
  then have "plist e_next (tab s) (e_next (ent (tab s) (last xs))) ys" by (rule plist_last)
  then show ?thesis using False by (cases ys) (simp_all add: get_prev_def last_of_def hd_of_def)
qed (cases ys; simp add: get_prev_def last_of_def hd_of_def)

lemma waiting_dir:
  assumes w: "waiting cfg F s D r M L" and x: "x \<in> set L"
  shows "isdir (tab s) x" "\<exists>ms. path (sc cfg) (tab s) D r x ms"
proof -
  note wD = waitingD [OF w]
  obtain p ns where p: "path (sc cfg) (tab s) D r p ns" "x \<in> kids (sc cfg) (tab s) D p" "e_type (ent (tab s) x) = NODE"
    using wD(3) [OF x] by (rule put_off_dirE) blast
  have px: "path (sc cfg) (tab s) D r x (ns @ [e_name (ent (tab s) x)])" by (rule path_kid [OF p(1,2)])
  then show "\<exists>ms. path (sc cfg) (tab s) D r x ms" by blast
  show "isdir (tab s) x"
    using plain_entryD(3) [OF plain_tableD(1) [OF mirrorsD(2) [OF wD(1)] px]] p(3)
      path_isdir [OF px symtab_okD(1) [OF mirrorsD(1) [OF wD(1)]]] by (simp add: isdir_def)
qed

text \<open>One walk along the list: it removes each directory that has no entries when it comes to it.\<close>

lemma remove_walk_ok:
  assumes wk: "working cfg F"
  shows "waiting cfg F s D r M (xs @ ys) \<Longrightarrow> length ys \<le> n \<Longrightarrow>
    \<exists>k s' D' L. remove_walk cfg n (last_of None xs) (hd_of ys) c s = Inr (c + k, s') \<and> waiting cfg F s' D' r M L
      \<and> length L + k = length (xs @ ys) \<and> set L \<subseteq> set (xs @ ys) \<and> length (heap (tab s')) = length (heap (tab s))
      \<and> (\<forall>z ms. path (sc cfg) (tab s') D' r z ms \<longleftrightarrow> path (sc cfg) (tab s) D r z ms \<and> (z \<in> set (xs @ ys) \<longrightarrow> z \<in> set L))
      \<and> ((\<exists>z \<in> set ys. kids (sc cfg) (tab s) D z = {}) \<longrightarrow> 0 < k)"
proof (induction ys arbitrary: xs n s D c)
  case Nil
  then show ?case by (intro exI [of _ 0] exI [of _ s] exI [of _ D] exI [of _ xs]) (simp add: hd_of_def)
next
  case (Cons y ys)
  note w = Cons.prems(1)
  note wD = waitingD [OF w]
  obtain m where n: "n = Suc m" "length ys \<le> m" using Cons.prems(2) by (cases n) auto
  have dir: "isdir (tab s) y" by (rule waiting_dir(1) [OF w]) simp
  have em: "empty_lists (tab s) y \<longleftrightarrow> kids (sc cfg) (tab s) D y = {}"
    by (rule empty_lists_kids [OF symtab_okD(1) [OF mirrorsD(1) [OF wD(1)]] dir])
  show ?case
  proof (cases "kids (sc cfg) (tab s) D y = {}")
    case False
    have "e_next (ent (tab s) y) = hd_of ys"
      using plist_suffix [OF wD(2)] by (cases ys) (simp_all add: hd_of_def)
    then have e: "remove_walk cfg n (last_of None xs) (hd_of (y # ys)) c s = remove_walk cfg m (last_of None (xs @ [y])) (hd_of ys) c s"
      using False by (simp add: n hd_of_def em last_of_def)
    have w': "waiting cfg F s D r M ((xs @ [y]) @ ys)" using w by simp
    from Cons.IH [OF w' n(2), of c] False show ?thesis unfolding e by simp
  next
    case True
    obtain s1 D1 where r: "bindE (removenode cfg y (set_prev (last_of None xs) (e_next (ent (tab s) y)) s)) (free_entry cfg y) = Inr s1"
      "waiting cfg F s1 D1 r M (xs @ ys)" "length (heap (tab s1)) = length (heap (tab s))"
      "\<And>z ms. path (sc cfg) (tab s1) D1 r z ms \<longleftrightarrow> path (sc cfg) (tab s) D r z ms \<and> z \<noteq> y"
      "\<And>z. kids (sc cfg) (tab s1) D1 z = kids (sc cfg) (tab s) D z - {y}"
      by (rule remove_step [OF w wk True]) (rule that)
    have e: "remove_walk cfg n (last_of None xs) (hd_of (y # ys)) c s = remove_walk cfg m (last_of None xs) (hd_of ys) (c + 1) s1"
    proof -
      have "bindE (removenode cfg y s0) (\<lambda>s. bindE (free_entry cfg y s) f) = bindE (bindE (removenode cfg y s0) (free_entry cfg y)) f"
        for s0 and f :: "restore \<Rightarrow> restore_stop + nat \<times> restore"
        by (cases "removenode cfg y s0") simp_all
      then show ?thesis
        using True r(1) get_prev_list [OF waitingD(2) [OF r(2)]] by (simp add: n hd_of_def em Let_def)
    qed
    from Cons.IH [OF r(2) n(2), of "c + 1"] obtain k s' D' L where g:
      "remove_walk cfg m (last_of None xs) (hd_of ys) (c + 1) s1 = Inr (c + 1 + k, s')" "waiting cfg F s' D' r M L"
      "length L + k = length (xs @ ys)" "set L \<subseteq> set (xs @ ys)" "length (heap (tab s')) = length (heap (tab s1))"
      "\<forall>z ms. path (sc cfg) (tab s') D' r z ms \<longleftrightarrow> path (sc cfg) (tab s1) D1 r z ms \<and> (z \<in> set (xs @ ys) \<longrightarrow> z \<in> set L)" by blast
    have yn: "y \<notin> set (xs @ ys)" using plist_distinct [OF wD(2)] by auto
    show ?thesis
    proof (intro exI conjI)
      show "remove_walk cfg n (last_of None xs) (hd_of (y # ys)) c s = Inr (c + Suc k, s')" using g(1) by (simp add: e)
      show "\<forall>z ms. path (sc cfg) (tab s') D' r z ms \<longleftrightarrow> path (sc cfg) (tab s) D r z ms \<and> (z \<in> set (xs @ y # ys) \<longrightarrow> z \<in> set L)"
        using g(4,6) r(4) yn by auto
    qed (use g r(3) in auto)
  qed
qed

text \<open>In a list that holds all that is below its directories one of them has no entries.\<close>

lemma waiting_deepest:
  assumes w: "waiting cfg F s D r M L" and ne: "L \<noteq> []"
  shows "\<exists>x \<in> set L. kids (sc cfg) (tab s) D x = {}"
proof -
  note t = symtab_okD(1) [OF mirrorsD(1) [OF waitingD(1) [OF w]]]
  have "\<forall>x \<in> set L. \<exists>ms. path (sc cfg) (tab s) D r x ms" using waiting_dir(2) [OF w] by blast
  then obtain f where f: "\<forall>x \<in> set L. path (sc cfg) (tab s) D r x (f x)" by metis
  let ?l = "(\<lambda>x. length (f x)) ` set L"
  have "Max ?l \<in> ?l" using ne by (intro Max_in) auto
  then obtain x where x: "x \<in> set L" "length (f x) = Max ?l" by auto
  have "y \<notin> kids (sc cfg) (tab s) D x" for y
  proof
    assume y: "y \<in> kids (sc cfg) (tab s) D x"
    then have yl: "y \<in> set L" using waitingD(4) [OF w x(1)] by blast
    have "path (sc cfg) (tab s) D r y (f x @ [e_name (ent (tab s) y)])" by (rule path_kid [OF _ y]) (use f x(1) in blast)
    then have "f y = f x @ [e_name (ent (tab s) y)]" using path_unique [OF _ _ t] f yl by blast
    moreover have "length (f y) \<le> Max ?l" using yl by (intro Max_ge) auto
    ultimately show False using x(2) by simp
  qed
  then show ?thesis using x(1) by blast
qed

lemma remove_loop_ok:
  assumes wk: "working cfg F"
  shows "waiting cfg F s D r M L \<Longrightarrow> length L < n \<Longrightarrow>
    \<exists>s' D'. remove_loop cfg n s = Inr s' \<and> waiting cfg F s' D' r M []
      \<and> (\<forall>z ms. path (sc cfg) (tab s') D' r z ms \<longleftrightarrow> path (sc cfg) (tab s) D r z ms \<and> z \<notin> set L)"
proof (induction n arbitrary: s D L)
  case (Suc n)
  note w = Suc.prems(1)
  have rl: "removelist s = hd_of L" using waitingD(2) [OF w] by (cases L) (simp_all add: hd_of_def)
  have fuel: "length L \<le> length (heap (tab s))" by (rule plist_length [OF waitingD(2) [OF w]])
  have w0: "waiting cfg F s D r M ([] @ L)" using w by simp
  from remove_walk_ok [OF wk w0 fuel, of 0] obtain k s1 D1 L1 where g:
    "remove_walk cfg (length (heap (tab s))) None (removelist s) 0 s = Inr (k, s1)" "waiting cfg F s1 D1 r M L1"
    "length L1 + k = length L" "set L1 \<subseteq> set L"
    "\<forall>z ms. path (sc cfg) (tab s1) D1 r z ms \<longleftrightarrow> path (sc cfg) (tab s) D r z ms \<and> (z \<in> set L \<longrightarrow> z \<in> set L1)"
    "(\<exists>z \<in> set L. kids (sc cfg) (tab s) D z = {}) \<longrightarrow> 0 < k"
    by (auto simp: rl last_of_def)
  show ?case
  proof (cases "k = 0")
    case True
    then have "L = []" using g(6) waiting_deepest [OF w] by auto
    moreover from this have "L1 = []" using g(3) by simp
    ultimately show ?thesis using g(1,2,5) True by auto
  next
    case False
    from Suc.IH [OF g(2)] g(3) Suc.prems(2) False obtain s' D' where h: "remove_loop cfg n s1 = Inr s'" "waiting cfg F s' D' r M []"
      "\<forall>z ms. path (sc cfg) (tab s') D' r z ms \<longleftrightarrow> path (sc cfg) (tab s1) D1 r z ms \<and> z \<notin> set L1" by auto
    have "\<forall>z ms. path (sc cfg) (tab s') D' r z ms \<longleftrightarrow> path (sc cfg) (tab s) D r z ms \<and> z \<notin> set L"
      using h(3) g(4,5) by auto
    then show ?thesis using h(1,2) g(1) False by (intro exI [of _ s'] exI [of _ D']) simp
  qed
qed simp

text \<open>C9: \<open>removeoldnodes\<close> returns and removes every directory that waits for it, when all that is left below these
  directories waits too, in whatever order the list has them: at the end the list is empty, exactly these
  directories are gone from the table, each call was possible (a directory was empty when it was removed), and the
  names of the table are the files of the file system.
\<close>

theorem removeoldnodes_all:
  assumes "waiting cfg F s D r M L" "working cfg F"
  shows "\<exists>s' D'. removeoldnodes cfg s = Inr s' \<and> removelist s' = None \<and> mirrors cfg F s' D' r M
    \<and> (\<forall>z ms. path (sc cfg) (tab s') D' r z ms \<longleftrightarrow> path (sc cfg) (tab s) D r z ms \<and> z \<notin> set L)"
proof -
  have "length L < length (heap (tab s)) + 1" using plist_length [OF waitingD(2) [OF assms(1)]] by simp
  from remove_loop_ok [OF assms(2,1) this] obtain s' D' where r: "remove_loop cfg (length (heap (tab s)) + 1) s = Inr s'"
    "waiting cfg F s' D' r M []" "\<forall>z ms. path (sc cfg) (tab s') D' r z ms \<longleftrightarrow> path (sc cfg) (tab s) D r z ms \<and> z \<notin> set L" by blast
  have l: "removelist s' = None" using waitingD(2) [OF r(2)] by simp
  have "removeoldnodes cfg s = Inr s'" using r(1) l by (simp add: removeoldnodes_def)
  then show ?thesis using l r(3) waitingD(1) [OF r(2)] by blast
qed

lemma sample_put_off:
  obtains st np st' s1 D where "newsymtable sample_scfg = Inr st" "addentry sample_scfg a_name 12 NODE st = Inr (np, st')"
    "put_off sample_acfg np (start_state st') = Inr s1" "waiting sample_acfg {[], [[0x61]]} s1 D 0 [ROOTINO \<mapsto> 0] [np]"
    "path sample_scfg (tab s1) D 0 np [[0x61]]"
proof -
  have ty: "NODE = LEAF \<or> NODE = NODE" by simp
  obtain st np st' D where s: "newsymtable sample_scfg = Inr st" "addentry sample_scfg a_name 12 NODE st = Inr (np, st')"
    and m: "mirrors sample_acfg {[], [[0x61]]} (start_state st') D 0 [ROOTINO \<mapsto> 0, 12 \<mapsto> np]"
    and P: "\<And>q ms. path sample_scfg st' D 0 q ms \<longleftrightarrow> q = 0 \<and> ms = [] \<or> q = np \<and> ms = [[0x61]]"
    and K: "kids sample_scfg st' D = (\<lambda>_. {})(0 := {np})" and na: "e_name (ent st' np) = [0x61]"
    and f: "e_flags (ent st' np) = 0" "np \<noteq> 0" "e_type (ent st' np) = NODE"
    by (rule sample_mirrors [OF ty]) (rule that)
  have ts: "tab (start_state st') = st'" "removelist (start_state st') = None" by (simp_all add: start_state_def)
  have q: "np \<in> kids (sc sample_acfg) (tab (start_state st')) D 0" "[ROOTINO \<mapsto> 0, 12 \<mapsto> np] 12 = Some np"
    by (simp_all add: sample_working(2) ts K)
  note im = symtab_okD(2) [OF mirrorsD(1) [OF m]]
  obtain s1 where p: "put_off sample_acfg np (start_state st') = Inr s1"
    "mirrors sample_acfg {[], [[0x61]]} s1 D 0 ([ROOTINO \<mapsto> 0, 12 \<mapsto> np](12 := None))"
    "kids (sc sample_acfg) (tab s1) D = kids (sc sample_acfg) (tab (start_state st')) D"
    "path (sc sample_acfg) (tab s1) D 0 = path (sc sample_acfg) (tab (start_state st')) D 0"
    "\<And>x. fixed_part (ent (tab s1) x) = fixed_part (ent (tab (start_state st')) x)"
    "removelist s1 = Some np" "e_ino (ent (tab s1) np) = 0" "e_next (ent (tab s1) np) = removelist (start_state st')"
    by (rule put_off_ok [OF m q]) (rule that)
  have M: "[ROOTINO \<mapsto> 0, 12 \<mapsto> np](12 := None) = [ROOTINO \<mapsto> 0]" by (auto simp: ROOTINO_def)
  note g = fixed_partD [OF p(5)]
  have pn: "path sample_scfg (tab s1) D 0 np [[0x61]]" using p(4) P by (simp add: sample_working(2) ts)
  have p0: "path (sc sample_acfg) (tab s1) D 0 0 []" by (rule path_root)
  have pd: "put_off_dir sample_acfg s1 D 0 np"
    unfolding put_off_dir_def
  proof (intro conjI exI)
    show "path (sc sample_acfg) (tab s1) D 0 0 []" by (rule p0)
    show "np \<in> kids (sc sample_acfg) (tab s1) D 0" using q(1) by (simp add: p(3))
    show "short_path ([] @ [e_name (ent (tab s1) np)])" by (simp add: g(4) ts na short_path_def pathname_def MAXPATHLEN_def)
    show "unseen s1 np" using f(1) by (simp add: unseen_def g(2) ts)
  qed (use p(7) f(3) g(1) in \<open>simp_all add: ts\<close>)
  have "waiting sample_acfg {[], [[0x61]]} s1 D 0 [ROOTINO \<mapsto> 0] [np]"
    unfolding waiting_def
    using p(2) [unfolded M] p(3,6,8) pd path_isdir [OF pn [folded sample_working(2)] symtab_okD(1) [OF mirrorsD(1) [OF p(2)]]] f(2)
    by (simp add: sample_working(2) ts K)
  then show thesis by (rule that [OF s p(1) _ pn])
qed

theorem removeoldnodes_all_witness:
  "\<exists>st np st' s1 s' D'. newsymtable sample_scfg = Inr st \<and> addentry sample_scfg a_name 12 NODE st = Inr (np, st')
    \<and> put_off sample_acfg np (start_state st') = Inr s1 \<and> removeoldnodes sample_acfg s1 = Inr s' \<and> removelist s' = None
    \<and> mirrors sample_acfg {[], [[0x61]]} s' D' 0 [ROOTINO \<mapsto> 0] \<and> (\<forall>ms. \<not> path sample_scfg (tab s') D' 0 np ms)"
proof (rule sample_put_off)
  fix st np st' s1 D
  assume s: "newsymtable sample_scfg = Inr st" "addentry sample_scfg a_name 12 NODE st = Inr (np, st')"
    "put_off sample_acfg np (start_state st') = Inr s1" "waiting sample_acfg {[], [[0x61]]} s1 D 0 [ROOTINO \<mapsto> 0] [np]"
  from removeoldnodes_all [OF s(4) sample_working(1)] s(1-3) show ?thesis by (auto simp: sample_working(2))
qed

section \<open>The files to be extracted\<close>

lemma unat_next: "a < b \<Longrightarrow> unat (a + 1) = unat a + 1" for a b :: dump_ino_t
proof -
  assume "a < b"
  then have "unat a + 1 < 2 ^ 32" using unsigned_less [of b, where 'a = nat] by (simp add: word_less_nat_alt)
  then show "unat (a + 1) = unat a + 1" by (simp add: unat_word_ariths)
qed

lemma lowerbnd_least:
  "ino_map (sc cfg) st M \<Longrightarrow> \<exists>k. lowerbnd cfg st a = Inr k \<and> a \<le> k \<and> (\<forall>i. a \<le> i \<and> i < k \<longrightarrow> \<not> wanted cfg st (M i))
      \<and> (k < r_maxino (sc cfg) \<longrightarrow> wanted cfg st (M k)) \<and> (a \<le> r_maxino (sc cfg) \<longrightarrow> k \<le> r_maxino (sc cfg))"
proof (induction cfg st a rule: lowerbnd.induct)
  case (1 cfg st a)
  note l = lookupino_map [OF "1.prems", of a]
  show ?case
  proof (cases "a < r_maxino (sc cfg) \<and> \<not> wanted cfg st (M a)")
    case False
    then have "lowerbnd cfg st a = Inr a" using l by (auto simp: lowerbnd.simps [of cfg st a])
    then show ?thesis using False by (intro exI [of _ a]) auto
  next
    case True
    then obtain k where k: "lowerbnd cfg st (a + 1) = Inr k" "a + 1 \<le> k"
      "\<And>i. a + 1 \<le> i \<Longrightarrow> i < k \<Longrightarrow> \<not> wanted cfg st (M i)" "k < r_maxino (sc cfg) \<longrightarrow> wanted cfg st (M k)"
      "a + 1 \<le> r_maxino (sc cfg) \<longrightarrow> k \<le> r_maxino (sc cfg)"
      using "1.IH" [OF _ l _ "1.prems"] by blast
    note u = unat_next [of a "r_maxino (sc cfg)", OF True [THEN conjunct1]]
    have n: "a + 1 \<le> i \<longleftrightarrow> a < i" for i using u by (simp add: word_le_nat_alt word_less_nat_alt Suc_le_eq)
    have "\<not> wanted cfg st (M i)" if "a \<le> i" "i < k" for i
      using that k(3) [of i] True n [of i] by (cases "i = a") auto
    moreover have "lowerbnd cfg st a = Inr k" using True l k(1) by (simp add: lowerbnd.simps [of cfg st a])
    moreover have "a \<le> k" using k(2) n by simp
    ultimately show ?thesis using k(4,5) True n [of "r_maxino (sc cfg)"] by (intro exI [of _ k]) blast
  qed
qed

lemma upperbnd_greatest:
  "ino_map (sc cfg) st M \<Longrightarrow> \<exists>k. upperbnd cfg st a = Inr k \<and> k \<le> a \<and> (\<forall>i. k < i \<and> i \<le> a \<longrightarrow> \<not> wanted cfg st (M i))
      \<and> (ROOTINO < k \<longrightarrow> wanted cfg st (M k)) \<and> (ROOTINO \<le> a \<longrightarrow> ROOTINO \<le> k)"
proof (induction cfg st a rule: upperbnd.induct)
  case (1 cfg st a)
  note l = lookupino_map [OF "1.prems", of a]
  show ?case
  proof (cases "ROOTINO < a \<and> \<not> wanted cfg st (M a)")
    case False
    then have "upperbnd cfg st a = Inr a" using l by (auto simp: upperbnd.simps [of cfg st a])
    then show ?thesis using False by (intro exI [of _ a]) auto
  next
    case True
    then obtain k where k: "upperbnd cfg st (a - 1) = Inr k" "k \<le> a - 1"
      "\<And>i. k < i \<Longrightarrow> i \<le> a - 1 \<Longrightarrow> \<not> wanted cfg st (M i)" "ROOTINO < k \<longrightarrow> wanted cfg st (M k)" "ROOTINO \<le> a - 1 \<longrightarrow> ROOTINO \<le> k"
      using "1.IH" [OF _ l _ "1.prems"] by blast
    have "0 < unat a" using True by (simp add: word_less_nat_alt)
    then have u: "unat (a - 1) = unat a - 1" by (simp add: unat_minus_one unat_gt_0)
    have n: "i \<le> a - 1 \<longleftrightarrow> i < a" for i using u \<open>0 < unat a\<close> by (auto simp: word_le_nat_alt word_less_nat_alt)
    have "\<not> wanted cfg st (M i)" if "k < i" "i \<le> a" for i
      using that k(3) [of i] True n [of i] by (cases "i = a") auto
    moreover have "upperbnd cfg st a = Inr k" using True l k(1) by (simp add: upperbnd.simps [of cfg st a])
    moreover have "k \<le> a" using k(2) n by (simp add: order_less_imp_le)
    ultimately show ?thesis using k(4,5) True n [of ROOTINO] by (intro exI [of _ k]) blast
  qed
qed

text \<open>What is to be extracted: an entry that is no directory, with the flag \<open>EXTRACT\<close> (bit 0) or \<open>NEW\<close> (bit 1).\<close>

definition to_extract :: "symtab \<Rightarrow> eptr option \<Rightarrow> bool" where
  "to_extract st r \<longleftrightarrow> (\<exists>p. r = Some p \<and> e_type (ent st p) \<noteq> NODE \<and> (bit (e_flags (ent st p)) 0 \<or> bit (e_flags (ent st p)) 1))"

lemma wanted_to_extract: "wanted cfg st r = to_extract st r"
proof -
  have "f AND (NEW OR EXTRACT) \<noteq> 0 \<longleftrightarrow> bit f 0 \<or> bit f 1" for f :: u16
  proof -
    have "NEW = 2 ^ 1" "EXTRACT = 2 ^ 0" by (simp_all add: NEW_def EXTRACT_def)
    moreover have "f AND 2 ^ k = 0 \<longleftrightarrow> \<not> bit f k" for k by (rule and_exp_eq_0_iff_not_bit)
    moreover have "a OR b = 0 \<longleftrightarrow> a = 0 \<and> b = 0" for a b :: u16 by (auto simp: bit_eq_iff bit_or_iff)
    ultimately show ?thesis by (metis bit.conj_disj_distrib)
  qed
  then show ?thesis by (auto simp: wanted_def to_extract_def flagged_def split: option.splits)
qed

text \<open>C15: \<open>lowerbnd\<close> returns the least inode number from its argument on of a file that is to be extracted (an entry
  that is no directory, flagged \<open>NEW\<close> or \<open>EXTRACT\<close>), or the end of the inode numbers; \<open>upperbnd\<close> the greatest one
  down from its argument, or the number of the root.\<close>

theorem bounds_of_extraction:
  assumes "ino_map (sc cfg) st M"
  shows "(\<exists>k. lowerbnd cfg st a = Inr k \<and> a \<le> k \<and> (\<forall>i. a \<le> i \<and> i < k \<longrightarrow> \<not> to_extract st (M i))
      \<and> (k < r_maxino (sc cfg) \<longrightarrow> to_extract st (M k)) \<and> (a \<le> r_maxino (sc cfg) \<longrightarrow> k \<le> r_maxino (sc cfg)))
    \<and> (\<exists>k. upperbnd cfg st b = Inr k \<and> k \<le> b \<and> (\<forall>i. k < i \<and> i \<le> b \<longrightarrow> \<not> to_extract st (M i))
      \<and> (ROOTINO < k \<longrightarrow> to_extract st (M k)) \<and> (ROOTINO \<le> b \<longrightarrow> ROOTINO \<le> k))"
  unfolding wanted_to_extract [of cfg, symmetric] by (intro conjI lowerbnd_least upperbnd_greatest assms)

text \<open>In a table whose only file, number 12, is to be extracted.\<close>

definition sample_new_file :: symtab where
  "sample_new_file = \<lparr> heap = [zero_entry, zero_entry\<lparr>e_type := LEAF, e_flags := NEW OR KEEP, e_ino := 12\<rparr>], freelist = None,
     entry_tbl = [Some 1] \<rparr>"

lemma sample_new_file_map: "ino_map sample_scfg sample_new_file [12 \<mapsto> 1]"
  unfolding ino_map_def
  by (rule exI [of _ "\<lambda>_. [1]"])
    (auto simp: ino_chains_def sample_new_file_def ino_entry_def fun_eq_iff zero_entry_def slot_def in_table_def sample_scfg_def WINO_def)

theorem bounds_of_extraction_witness:
  "lowerbnd sample_acfg sample_new_file 2 = Inr 12 \<and> upperbnd sample_acfg sample_new_file 99 = Inr 12"
proof -
  have w: "to_extract sample_new_file ([12 \<mapsto> 1] i) \<longleftrightarrow> i = 12" for i :: dump_ino_t
    unfolding wanted_to_extract [of sample_acfg, symmetric]
    by (simp add: wanted_def flagged_def sample_new_file_def LEAF_def NODE_def NEW_def KEEP_def EXTRACT_def)
  have b: "r_maxino (sc sample_acfg) = 100" by (simp add: sample_working(2) sample_scfg_def)
  from bounds_of_extraction [OF sample_new_file_map [folded sample_working(2)], of 2 99, unfolded w b]
  obtain k l where k: "lowerbnd sample_acfg sample_new_file 2 = Inr k" "2 \<le> k" "\<forall>i. 2 \<le> i \<and> i < k \<longrightarrow> i \<noteq> 12"
    "k < 100 \<longrightarrow> k = 12" "k \<le> 100"
    and l: "upperbnd sample_acfg sample_new_file 99 = Inr l" "l \<le> 99" "\<forall>i. l < i \<and> i \<le> 99 \<longrightarrow> i \<noteq> 12"
    "2 < l \<longrightarrow> l = 12" "2 \<le> l"
    by (auto simp: ROOTINO_def)
  have "k = 12" using k(3) [rule_format, of 12] k(4,5) by (cases "k < 100") auto
  moreover have "l = 12" using l(3) [rule_format, of 12] l(4,5) by (cases "2 < l") auto
  ultimately show ?thesis using k(1) l(1) by simp
qed

section \<open>The flags at the end of a run\<close>

text \<open>The flags that an entry may have then: \<open>KEEP\<close>, and \<open>NEW\<close> and \<open>EXISTED\<close> for a directory.\<close>

definition may_have :: "symtab \<Rightarrow> eptr \<Rightarrow> u16" where
  "may_have st q = (if e_type (ent st q) = NODE then KEEP OR NEW OR EXISTED else KEEP)"

definition finished :: "symtab \<Rightarrow> eptr \<Rightarrow> bool" where
  "finished st q \<longleftrightarrow> e_flags (ent st q) AND NOT (may_have st q) = 0"

lemma badentry_stops: "\<not> panic_returns cfg \<Longrightarrow> \<exists>x. badentry cfg st q = Inl x"
proof (cases "badentry cfg st q")
  case (Inr u)
  assume "\<not> panic_returns cfg"
  then have "spanic cfg = Inl Panicked" by (simp add: panic_def rcfg.truncate_def)
  then show ?thesis using Inr by (auto simp: badentry_def Let_def bindE_Inr_iff)
qed blast

text \<open>The flags of the entries in \<open>Q\<close> have been cleared.\<close>

definition cleared :: "acfg \<Rightarrow> byte list list set \<Rightarrow> restore \<Rightarrow> (eptr \<Rightarrow> nat \<Rightarrow> eptr list) \<Rightarrow> eptr \<Rightarrow> (dump_ino_t \<Rightarrow> eptr option)
    \<Rightarrow> eptr set \<Rightarrow> restore \<Rightarrow> bool" where
  "cleared cfg F s D r M Q s' \<longleftrightarrow> mirrors cfg F s' D r M \<and> path (sc cfg) (tab s') D r = path (sc cfg) (tab s) D r
     \<and> (\<forall>x. attr (ent (tab s') x) = attr (ent (tab s) x)) \<and> (\<forall>x. e_flags (ent (tab s') x) = (if x \<in> Q then 0 else e_flags (ent (tab s) x)))"

lemma check_entry_ok:
  assumes m: "mirrors cfg F s D r M" and q: "M i = Some q"
  shows "finished (tab s) q \<Longrightarrow> \<exists>s'. check_entry cfg q s = Inr s' \<and> cleared cfg F s D r M {q} s'"
    "\<not> finished (tab s) q \<Longrightarrow> \<not> panic_returns (sc cfg) \<Longrightarrow> \<exists>x. check_entry cfg q s = Inl x"
proof -
  have ql: "q < length (heap (tab s))" by (rule ino_map_Some(1) [OF symtab_okD(2) [OF mirrorsD(1) [OF m]] q])
  define fl where "fl = e_flags (ent (tab s) q) AND NOT (may_have (tab s) q)"
  define s1 where "s1 = in_tab (upd (\<lambda>e. e\<lparr>e_flags := fl\<rparr>) q) s"
  have s1: "(let s = in_tab (clear_flags KEEP q) s in
      if e_type (ent (tab s) q) = NODE then in_tab (clear_flags (NEW OR EXISTED) q) s else s) = s1"
    using ql by (simp add: in_tab_def clear_flags_def upd_def s1_def fl_def may_have_def Let_def and.assoc)
  have c: "check_entry cfg q s = bindE (bad_if (fl \<noteq> 0) cfg q s1) (\<lambda>_. Inr s1)"
  proof -
    have "e_flags (ent (tab s1) q) = fl" using ql by (simp add: s1_def in_tab_def)
    then show ?thesis using s1 by (simp add: check_entry_def Let_def)
  qed
  have t: "tab s1 = upd (\<lambda>e. e\<lparr>e_flags := fl\<rparr>) q (tab s)" "calls s1 = calls s" by (simp_all add: s1_def in_tab_def)
  have NOT_N: "NOT (KEEP OR NEW OR EXISTED) AND NEW = 0" "NOT KEEP AND NEW = NEW" by (simp_all add: KEEP_def NEW_def EXISTED_def)
  have u: "unwritten (tab s1) q = unwritten (tab s) q"
  proof (cases "e_type (ent (tab s) q) = NODE")
    case True
    then show ?thesis using ql by (simp add: unwritten_def t(1) LEAF_def NODE_def)
  next
    case False
    have "e_flags (ent (tab s1) q) AND NEW = e_flags (ent (tab s) q) AND NEW"
      using ql False by (simp add: t(1) fl_def may_have_def and.assoc NOT_N)
    then show ?thesis by (intro unwritten_same) (simp_all add: t(1) attr_flags)
  qed
  note k = mirrors_flags [OF m t u]
  have f1: "e_flags (ent (tab s1) x) = (if x = q then fl else e_flags (ent (tab s) x))" for x
    using ql by (cases "x = q") (simp_all add: t(1))
  show "\<exists>s'. check_entry cfg q s = Inr s' \<and> cleared cfg F s D r M {q} s'" if "finished (tab s) q"
  proof -
    have "fl = 0" using that by (simp add: finished_def fl_def)
    then show ?thesis using c k f1 by (intro exI [of _ s1]) (auto simp: bad_if_def cleared_def)
  qed
  show "\<exists>x. check_entry cfg q s = Inl x" if nf: "\<not> finished (tab s) q" "\<not> panic_returns (sc cfg)"
  proof -
    obtain x where "badentry (sc cfg) (tab s1) q = Inl x" using badentry_stops [OF nf(2)] by blast
    then show ?thesis using nf(1) by (simp add: c bad_if_def bad_entry_def finished_def fl_def)
  qed
qed

lemma check_inos_ok:
  "mirrors cfg F s D r M \<Longrightarrow> \<forall>i \<in> set js. \<forall>q. M i = Some q \<longrightarrow> finished (tab s) q \<Longrightarrow>
    \<exists>s'. each_ino (check_ino cfg) js s = Inr s' \<and> cleared cfg F s D r M {q. \<exists>i \<in> set js. M i = Some q} s'"
  "mirrors cfg F s D r M \<Longrightarrow> distinct js \<Longrightarrow> \<exists>i \<in> set js. \<exists>q. M i = Some q \<and> \<not> finished (tab s) q \<Longrightarrow>
    \<not> panic_returns (sc cfg) \<Longrightarrow> \<exists>x. each_ino (check_ino cfg) js s = Inl x"
proof -
  have one: "check_ino cfg i s = (case M i of None \<Rightarrow> Inr s | Some q \<Rightarrow> check_entry cfg q s)"
    if m: "mirrors cfg F s D r M" for s i
  proof (cases "M i")
    case (Some q)
    note im = symtab_okD(2) [OF mirrorsD(1) [OF m]]
    obtain ms where "path (sc cfg) (tab s) D r q ms" using plain_tableD(2) [OF mirrorsD(2) [OF m] Some] by blast
    then have l: "e_links (ent (tab s) q) = None" using plain_entryD(1) [OF plain_tableD(1) [OF mirrorsD(2) [OF m]]] by blast
    obtain k where k: "length (heap (tab s)) = Suc k" using ino_map_Some(1) [OF im Some] by (cases "length (heap (tab s))") auto
    have "e_links (ent (tab s') q) = None" if ce: "check_entry cfg q s = Inr s'" for s'
    proof -
      have "\<And>w st. e_links (ent (clear_flags w q st) q) = e_links (ent st q)" by (simp add: clear_flags_def upd_keep)
      then show ?thesis using ce l by (auto simp: check_entry_def Let_def in_tab_def bindE_Inr_iff split: if_splits)
    qed
    then show ?thesis using Some lookupino_map [OF im, of i] k
      by (cases "check_entry cfg q s") (simp_all add: check_ino_def)
  qed (simp add: check_ino_def lookupino_map [OF symtab_okD(2) [OF mirrorsD(1) [OF m]]])
  have fin: "finished (tab s') x = (x \<in> Q \<or> finished (tab s) x)" if "cleared cfg F s D r M Q s'" for s s' Q x
    using that attrD(1) [of "ent (tab s') x" "ent (tab s) x"] by (auto simp: cleared_def finished_def may_have_def)
  show "\<exists>s'. each_ino (check_ino cfg) js s = Inr s' \<and> cleared cfg F s D r M {q. \<exists>i \<in> set js. M i = Some q} s'"
    if "mirrors cfg F s D r M" "\<forall>i \<in> set js. \<forall>q. M i = Some q \<longrightarrow> finished (tab s) q"
    using that
  proof (induction js arbitrary: s)
    case Nil
    then show ?case by (simp add: cleared_def)
  next
    case (Cons i js)
    show ?case
    proof (cases "M i")
      case None
      have "\<exists>s'. each_ino (check_ino cfg) js s = Inr s' \<and> cleared cfg F s D r M {q. \<exists>i \<in> set js. M i = Some q} s'"
        by (rule Cons.IH [OF Cons.prems(1)]) (use Cons.prems(2) in auto)
      then show ?thesis using None by (simp add: one [OF Cons.prems(1)])
    next
      case (Some q)
      have "finished (tab s) q" using Cons.prems(2) Some by auto
      then obtain s1 where s1: "check_entry cfg q s = Inr s1" "cleared cfg F s D r M {q} s1"
        using check_entry_ok(1) [OF Cons.prems(1) Some] by blast
      have m1: "mirrors cfg F s1 D r M" using s1(2) by (simp add: cleared_def)
      have "\<forall>j \<in> set js. \<forall>x. M j = Some x \<longrightarrow> finished (tab s1) x"
        using Cons.prems(2) fin [OF s1(2)] by auto
      from Cons.IH [OF m1 this] obtain s' where s': "each_ino (check_ino cfg) js s1 = Inr s'"
        "cleared cfg F s1 D r M {q. \<exists>i \<in> set js. M i = Some q} s'" by blast
      have "cleared cfg F s D r M {q. \<exists>i \<in> set (i # js). M i = Some q} s'"
        using s1(2) s'(2) Some by (auto simp: cleared_def)
      then show ?thesis using s'(1) s1(1) Some by (simp add: one [OF Cons.prems(1)])
    qed
  qed
  show "\<exists>x. each_ino (check_ino cfg) js s = Inl x"
    if "mirrors cfg F s D r M" "distinct js" "\<exists>i \<in> set js. \<exists>q. M i = Some q \<and> \<not> finished (tab s) q" "\<not> panic_returns (sc cfg)"
    using that
  proof (induction js arbitrary: s)
    case (Cons i js)
    show ?case
    proof (cases "M i")
      case None
      then have "\<exists>x. each_ino (check_ino cfg) js s = Inl x" using Cons.prems by (intro Cons.IH) auto
      then show ?thesis using None by (simp add: one [OF Cons.prems(1)])
    next
      case (Some q)
      show ?thesis
      proof (cases "finished (tab s) q")
        case False
        then obtain x where "check_entry cfg q s = Inl x" using check_entry_ok(2) [OF Cons.prems(1) Some _ Cons.prems(4)] by blast
        then show ?thesis using Some by (simp add: one [OF Cons.prems(1)])
      next
        case True
        then obtain s1 where s1: "check_entry cfg q s = Inr s1" "cleared cfg F s D r M {q} s1"
          using check_entry_ok(1) [OF Cons.prems(1) Some] by blast
        have m1: "mirrors cfg F s1 D r M" using s1(2) by (simp add: cleared_def)
        obtain j x where j: "j \<in> set js" "M j = Some x" "\<not> finished (tab s) x" using Cons.prems(3) True Some by auto
        note im = symtab_okD(2) [OF mirrorsD(1) [OF Cons.prems(1)]]
        have "x \<noteq> q" using j(3) True by blast
        then have "\<not> finished (tab s1) x" using fin [OF s1(2)] j(3) by simp
        then have "\<exists>x. each_ino (check_ino cfg) js s1 = Inl x"
          using Cons.prems(2,4) j by (intro Cons.IH [OF m1]) auto
        then show ?thesis using s1(1) Some by (simp add: one [OF Cons.prems(1)])
      qed
    qed
  qed simp
qed

lemma in_table_inos: "in_table (sc cfg) i \<longleftrightarrow> i \<in> set (inos_from cfg WINO)"
proof
  assume i: "in_table (sc cfg) i"
  then have "unat i \<in> {unat (WINO :: dump_ino_t)..<unat (r_maxino (sc cfg))}"
    by (simp add: in_table_def word_less_nat_alt word_le_nat_alt not_less not_le)
  then show "i \<in> set (inos_from cfg WINO)" unfolding inos_from_def by (auto simp: image_iff intro!: bexI [of _ "unat i"])
next
  assume "i \<in> set (inos_from cfg WINO)"
  then obtain k where k: "i = of_nat k" "unat (WINO :: dump_ino_t) \<le> k" "k < unat (r_maxino (sc cfg))" by (auto simp: inos_from_def)
  have "k < 2 ^ 32" using k(3) unsigned_less [of "r_maxino (sc cfg)", where 'a = nat] by simp
  then have "unat i = k" unfolding k(1) by (simp add: unsigned_of_nat take_bit_nat_eq_self)
  then show "in_table (sc cfg) i" using k(2,3) by (simp add: in_table_def word_less_nat_alt word_le_nat_alt)
qed

text \<open>C14: \<open>checkrestore\<close> finds out whether the run has done what was to be done: in a table without hard links it
  returns, with the flags of every numbered entry cleared and nothing else changed, when no entry has a flag
  other than \<open>KEEP\<close>, and \<open>NEW\<close> or \<open>EXISTED\<close> for a directory; when one has (a file that was never
  extracted, an entry that was to be removed) and \<open>panic\<close> does not return, it stops.
\<close>

theorem checkrestore_flags:
  assumes "mirrors cfg F s D r M" "\<not> panic_returns (sc cfg)"
  shows "if \<forall>i q. M i = Some q \<longrightarrow> finished (tab s) q
    then \<exists>s'. checkrestore cfg s = Inr s' \<and> cleared cfg F s D r M (ran M) s'
    else \<exists>x. checkrestore cfg s = Inl x"
proof -
  note im = symtab_okD(2) [OF mirrorsD(1) [OF assms(1)]]
  have mem: "i \<in> set (inos_from cfg WINO)" if "M i = Some q" for i q
    using ino_map_Some(3) [OF im that] in_table_inos by blast
  have ran: "ran M = {q. \<exists>i \<in> set (inos_from cfg WINO). M i = Some q}" using mem by (auto simp: ran_def)
  have dist: "distinct (inos_from cfg WINO)"
  proof -
    have "inj_on (of_nat :: nat \<Rightarrow> dump_ino_t) {unat (WINO :: dump_ino_t)..<unat (r_maxino (sc cfg))}"
    proof (rule inj_onI)
      fix x y assume xy: "x \<in> {unat (WINO :: dump_ino_t)..<unat (r_maxino (sc cfg))}" "y \<in> {unat (WINO :: dump_ino_t)..<unat (r_maxino (sc cfg))}"
        "(of_nat x :: dump_ino_t) = of_nat y"
      have "x < 2 ^ 32" "y < 2 ^ 32" using xy(1,2) unsigned_less [of "r_maxino (sc cfg)", where 'a = nat] by simp_all
      then show "x = y" using arg_cong [OF xy(3), of unat] by (simp add: unsigned_of_nat take_bit_nat_eq_self)
    qed
    then show ?thesis unfolding inos_from_def by (simp add: distinct_map)
  qed
  show ?thesis
  proof (cases "\<forall>i q. M i = Some q \<longrightarrow> finished (tab s) q")
    case True
    then show ?thesis using check_inos_ok(1) [OF assms(1), of "inos_from cfg WINO"] unfolding if_P [OF True] checkrestore_def ran by blast
  next
    case False
    then have "\<exists>i \<in> set (inos_from cfg WINO). \<exists>q. M i = Some q \<and> \<not> finished (tab s) q" using mem by blast
    then have "\<exists>x. checkrestore cfg s = Inl x"
      using check_inos_ok(2) [OF assms(1) dist _ assms(2)] by (simp add: checkrestore_def)
    then show ?thesis unfolding if_not_P [OF False] .
  qed
qed

theorem checkrestore_flags_witness:
  "\<exists>st np st' s1 x. newsymtable sample_scfg = Inr st \<and> addentry sample_scfg a_name 12 LEAF st = Inr (np, st')
    \<and> checkrestore sample_acfg (start_state st') = Inr s1 \<and> e_flags (ent (tab s1) 0) = 0
    \<and> checkrestore sample_acfg (in_tab (set_flags EXTRACT np) (start_state st')) = Inl x"
proof -
  have ty: "LEAF = LEAF \<or> LEAF = NODE" by simp
  obtain st np st' D where s: "newsymtable sample_scfg = Inr st" "addentry sample_scfg a_name 12 LEAF st = Inr (np, st')"
    and m: "mirrors sample_acfg {[], [[0x61]]} (start_state st') D 0 [ROOTINO \<mapsto> 0, 12 \<mapsto> np]"
    and P: "\<And>q ms. path sample_scfg st' D 0 q ms \<longleftrightarrow> q = 0 \<and> ms = [] \<or> q = np \<and> ms = [[0x61]]"
    and f: "e_flags (ent st' np) = 0" "np \<noteq> 0" "e_type (ent st' np) = LEAF" "e_flags (ent st' 0) = NEW" "e_type (ent st' 0) = NODE"
    by (rule sample_mirrors [OF ty]) (rule that)
  let ?M = "[ROOTINO \<mapsto> 0, 12 \<mapsto> np]"
  have ts: "tab (start_state st') = st'" by (simp add: start_state_def)
  have np: "\<not> panic_returns (sc sample_acfg)" by (simp add: sample_working(2) sample_scfg_def)
  have r: "?M ROOTINO = Some 0" "?M 12 = Some np" by (simp_all add: ROOTINO_def)
  have two: "q = 0 \<or> q = np" if "?M i = Some q" for i q using that by (auto split: if_splits)
  have fin: "finished st' 0" "finished st' np"
    using f by (simp_all add: finished_def may_have_def NEW_def KEEP_def EXISTED_def)
  then have all: "\<forall>i q. ?M i = Some q \<longrightarrow> finished (tab (start_state st')) q" using two ts by metis
  obtain s1 where s1: "checkrestore sample_acfg (start_state st') = Inr s1"
    "cleared sample_acfg {[], [[0x61]]} (start_state st') D 0 ?M (ran ?M) s1"
    using checkrestore_flags [OF m np] unfolding if_P [OF all] by blast
  have "0 \<in> ran ?M" using r(1) by (rule ranI)
  then have z: "e_flags (ent (tab s1) 0) = 0" using s1(2) by (simp add: cleared_def)
  have EN: "EXTRACT AND NEW = 0" by (simp add: EXTRACT_def NEW_def)
  have pn: "path (sc sample_acfg) (tab (start_state st')) D 0 np [[0x61]]" using P by (simp add: sample_working(2) ts)
  note x = set_flags_ok [OF m pn EN, unfolded ts]
  let ?s = "in_tab (set_flags EXTRACT np) (start_state st')"
  have "e_type (ent (tab ?s) np) = LEAF" using attrD(1) [OF x(4)] f(3) by simp
  moreover have "e_flags (ent (tab ?s) np) = EXTRACT" using x(6) f(1) by simp
  ultimately have "\<not> finished (tab ?s) np"
    by (simp add: finished_def may_have_def EXTRACT_def KEEP_def LEAF_def NODE_def)
  then have no: "\<not> (\<forall>i q. ?M i = Some q \<longrightarrow> finished (tab ?s) q)" using r(2) by blast
  obtain y where "checkrestore sample_acfg ?s = Inl y"
    using checkrestore_flags [OF x(1) np] unfolding if_not_P [OF no] by blast
  then show ?thesis using s s1(1) z by blast
qed

end
