(* ===== verification/Glob.thy ===== *)
theory Glob
  imports Dirs "HOL-Library.List_Lexorder"
begin

text \<open>
  The pattern matching of compat/lib/compatglob.c: a pattern is compiled (\<open>glob0\<close>), names are matched with a segment of it
  (\<open>match\<close>), and \<open>glob2\<close> and \<open>glob3\<close> go down the directories.  The matcher is proved equal to the meaning of patterns as
  lists of tokens, and \<open>glob\<close> to a relation between paths and patterns of components; the paths that are found are all that exist, sorted.
\<close>

section \<open>Patterns\<close>

text \<open>
  A pattern is compiled to 16-bit characters; the special ones have the bit \<open>M_QUOTE\<close>.  Strings are without their
  \<open>EOS\<close>.
\<close>

type_synonym Char = "16 word"

definition M_QUOTE :: Char where "M_QUOTE = 0x8000"
definition M_PROTECT :: Char where "M_PROTECT = 0x4000"
definition M_ASCII :: Char where "M_ASCII = 0x00FF"

definition char_of_c :: "char \<Rightarrow> Char" where "char_of_c c = of_char c"

definition META :: "char \<Rightarrow> Char" where "META c = char_of_c c OR M_QUOTE"

definition M_ALL :: Char where "M_ALL = META CHR ''*''"
definition M_END :: Char where "M_END = META CHR '']''"
definition M_NOT :: Char where "M_NOT = META CHR ''!''"
definition M_ONE :: Char where "M_ONE = META CHR ''?''"
definition M_RNG :: Char where "M_RNG = META CHR ''-''"
definition M_SET :: Char where "M_SET = META CHR ''[''"

definition ismeta :: "Char \<Rightarrow> bool" where "ismeta c \<longleftrightarrow> c AND M_QUOTE \<noteq> 0"

definition LBRACKET :: Char where "LBRACKET = char_of_c CHR ''[''"
definition RBRACKET :: Char where "RBRACKET = char_of_c CHR '']''"
definition NOT_C :: Char where "NOT_C = char_of_c CHR ''!''"
definition RANGE :: Char where "RANGE = char_of_c CHR ''-''"
definition QUESTION :: Char where "QUESTION = char_of_c CHR ''?''"
definition STAR :: Char where "STAR = char_of_c CHR ''*''"
definition SEP :: Char where "SEP = char_of_c CHR ''/''"
definition DOT :: Char where "DOT = char_of_c CHR ''.''"
definition QUOTE :: byte where "QUOTE = of_char CHR 0x5C"

lemmas glob_chars = M_ALL_def M_END_def M_NOT_def M_ONE_def M_RNG_def M_SET_def META_def char_of_c_def M_QUOTE_def
  LBRACKET_def RBRACKET_def NOT_C_def RANGE_def QUESTION_def STAR_def SEP_def DOT_def M_PROTECT_def M_ASCII_def ismeta_def

text \<open>\<open>CHAR\<close>.\<close>

definition CHAR_of :: "Char \<Rightarrow> Char" where "CHAR_of c = c AND M_ASCII"

text \<open>One member of a set, whose first character is \<open>c\<close>; then all of them up to the end of the set.\<close>

definition one_member :: "Char \<Rightarrow> Char list \<Rightarrow> Char list \<times> Char list" where
  "one_member c q =
     (case q of
        m # d # r \<Rightarrow> if m = RANGE \<and> d \<noteq> RBRACKET then ([CHAR_of c, M_RNG, CHAR_of d], r) else ([CHAR_of c], q)
      | _ \<Rightarrow> ([CHAR_of c], q))"

lemma one_member_length: "length (snd (one_member c q)) \<le> length q"
  by (auto simp: one_member_def split: list.splits)

lemma one_member_shorter: "one_member c q = (out, e # r) \<Longrightarrow> length r < length q"
  using one_member_length [of c q] by simp

function set_members :: "Char \<Rightarrow> Char list \<Rightarrow> Char list \<times> Char list" where
  "set_members c q =
     (case one_member c q of
        (out, []) \<Rightarrow> (out, [])
      | (out, e # r) \<Rightarrow> if e = RBRACKET then (out, r)
                       else case set_members e r of (out', q') \<Rightarrow> (out @ out', q'))"
  by pat_completeness auto
termination by (relation "measure (\<lambda>(c, q). length q)") (auto dest!: one_member_shorter [OF sym])

declare set_members.simps [simp del]

lemma set_members_length: "length (snd (set_members c q)) \<le> length q"
proof (induction c q rule: set_members.induct)
  case (1 c q)
  then show ?case using one_member_length [of c q]
    by (subst set_members.simps) (fastforce split: prod.splits list.splits)
qed

text \<open>
  \<open>glob0\<close>: a bracket with its end becomes a set; a star is not repeated.  \<open>done\<close> is what has been written.
\<close>

definition neg_set :: "Char list \<Rightarrow> bool" where
  "neg_set q \<longleftrightarrow> take 1 q = [NOT_C]"

definition set_body :: "Char list \<Rightarrow> Char list" where
  "set_body q = (if neg_set q then tl q else q)"

definition bracket :: "Char list \<Rightarrow> (Char list \<times> Char list) option" where
  "bracket q =
     (case set_body q of
        [] \<Rightarrow> None
      | c # r \<Rightarrow> if RBRACKET \<notin> set r then None
                else case set_members c r of
                       (out, rest) \<Rightarrow> Some (M_SET # (if neg_set q then [M_NOT] else []) @ out @ [M_END], rest))"

lemma bracket_length: "bracket q = Some (out, rest) \<Longrightarrow> length rest < length q"
proof -
  assume b: "bracket q = Some (out, rest)"
  then obtain c r where q': "set_body q = c # r" and r: "rest = snd (set_members c r)"
    by (auto simp: bracket_def split: list.splits if_splits prod.splits)
  have "length (set_body q) \<le> length q" by (simp add: set_body_def)
  then show ?thesis using q' r set_members_length [of c r] by simp
qed

function compile_glob :: "Char list \<Rightarrow> Char list \<Rightarrow> Char list" where
  "compile_glob done [] = done"
| "compile_glob done (c # q) =
     (if c = LBRACKET then
        (case bracket q of
           None \<Rightarrow> compile_glob (done @ [LBRACKET]) q
         | Some (out, rest) \<Rightarrow> compile_glob (done @ out) rest)
      else if c = QUESTION then compile_glob (done @ [M_ONE]) q
      else if c = STAR then compile_glob (if done = [] \<or> last done \<noteq> M_ALL then done @ [M_ALL] else done) q
      else compile_glob (done @ [CHAR_of c]) q)"
  by pat_completeness auto
termination by (relation "measure (\<lambda>(done, q). length q)") (auto dest: bracket_length)


section \<open>Matching a name\<close>

text \<open>
  \<open>match\<close>.  A set is scanned to its end, which \<open>glob0\<close> has written.
\<close>

function scan_set :: "Char \<Rightarrow> Char list \<Rightarrow> bool \<Rightarrow> bool \<times> Char list" where
  "scan_set k [] ok = (ok, [])"
| "scan_set k (c # p) ok =
     (if c = M_END then (ok, p)
      else case p of
             m # hi # r \<Rightarrow> if m = M_RNG then scan_set k r (ok \<or> c \<le> k \<and> k \<le> hi) else scan_set k p (ok \<or> c = k)
           | _ \<Rightarrow> scan_set k p (ok \<or> c = k))"
  by pat_completeness auto
termination by (relation "measure (\<lambda>(k, p, ok). length p)") auto

declare scan_set.simps [simp del]

lemma scan_set_length: "length (snd (scan_set k p ok)) \<le> length p"
proof (induction k p ok rule: scan_set.induct)
  case (2 k c p ok)
  then show ?case by (subst scan_set.simps) (force split: list.splits)
qed (simp add: scan_set.simps)

text \<open>
  \<open>pat\<close> is the pattern up to its \<open>EOS\<close>, of which the first \<open>n\<close> characters lie before \<open>patend\<close>.
\<close>

function match_glob :: "Char list \<Rightarrow> Char list \<Rightarrow> nat \<Rightarrow> bool" where
  "match_glob name [] n = (name = [])"
| "match_glob name (c # p) n =
     (if n = 0 then name = []
      else if c = M_ALL then
        n = 1 \<or> (\<exists>i \<in> set [0..<Suc (length name)]. match_glob (drop i name) p (n - 1))
      else if c = M_ONE then (case name of [] \<Rightarrow> False | _ # s \<Rightarrow> match_glob s p (n - 1))
      else if c = M_SET then
        (case name of [] \<Rightarrow> False
         | k # s \<Rightarrow>
             (let neg = (take 1 p = [M_NOT]); p1 = (if neg then tl p else p); (ok, p2) = scan_set k p1 False
              in if ok = neg then False else match_glob s p2 (n - 1 - (length p - length p2))))
      else (case name of [] \<Rightarrow> False | k # s \<Rightarrow> k = c \<and> match_glob s p (n - 1)))"
  by pat_completeness auto
termination
proof (relation "measure (\<lambda>(name, p, n). length p)", goal_cases)
  case (4 name c p n k s neg p1 sp ok p2)
  then have "p2 = snd (scan_set k p1 False)" by (metis snd_conv)
  then have "length p2 \<le> length p1" using scan_set_length [of k p1 False] by simp
  moreover have "length p1 \<le> length p" using 4 by simp
  ultimately show ?case by simp
qed auto

section \<open>What a pattern means\<close>

datatype tok = Lit Char | One | Many | Class bool "(Char \<times> Char option) list"

fun in_member :: "Char \<Rightarrow> Char \<times> Char option \<Rightarrow> bool" where
  "in_member k (lo, None) = (k = lo)"
| "in_member k (lo, Some hi) = (lo \<le> k \<and> k \<le> hi)"

fun tok_matches :: "tok list \<Rightarrow> Char list \<Rightarrow> bool" where
  "tok_matches [] s = (s = [])"
| "tok_matches (Lit c # ts) s = (case s of [] \<Rightarrow> False | k # s' \<Rightarrow> k = c \<and> tok_matches ts s')"
| "tok_matches (One # ts) s = (case s of [] \<Rightarrow> False | k # s' \<Rightarrow> tok_matches ts s')"
| "tok_matches (Many # ts) s = (\<exists>i \<in> set [0..<Suc (length s)]. tok_matches ts (drop i s))"
| "tok_matches (Class neg ms # ts) s =
     (case s of [] \<Rightarrow> False | k # s' \<Rightarrow> (\<exists>m \<in> set ms. in_member k m) \<noteq> neg \<and> tok_matches ts s')"

definition member_tok :: "Char \<Rightarrow> Char list \<Rightarrow> (Char \<times> Char option) \<times> Char list" where
  "member_tok c q =
     (case q of
        m # d # r \<Rightarrow> if m = RANGE \<and> d \<noteq> RBRACKET then ((CHAR_of c, Some (CHAR_of d)), r) else ((CHAR_of c, None), q)
      | _ \<Rightarrow> ((CHAR_of c, None), q))"

lemma member_tok_shorter: "member_tok c q = (m, e # r) \<Longrightarrow> length r < length q"
  by (auto simp: member_tok_def split: list.splits if_splits)

function class_toks :: "Char \<Rightarrow> Char list \<Rightarrow> (Char \<times> Char option) list \<times> Char list" where
  "class_toks c q =
     (case member_tok c q of
        (m, []) \<Rightarrow> ([m], [])
      | (m, e # r) \<Rightarrow> if e = RBRACKET then ([m], r) else case class_toks e r of (ms, q') \<Rightarrow> (m # ms, q'))"
  by pat_completeness auto
termination by (relation "measure (\<lambda>(c, q). length q)") (auto dest!: member_tok_shorter [OF sym])

declare class_toks.simps [simp del]

text \<open>A bracket has an end behind its first member, else it stands for itself.\<close>

definition class_tok :: "Char list \<Rightarrow> (tok \<times> Char list) option" where
  "class_tok q =
     (case set_body q of
        [] \<Rightarrow> None
      | c # r \<Rightarrow> if RBRACKET \<notin> set r then None
                else Some (Class (neg_set q) (fst (class_toks c r)), snd (class_toks c r)))"

text \<open>The encoding of the tokens.\<close>

fun enc_member :: "Char \<times> Char option \<Rightarrow> Char list" where
  "enc_member (lo, None) = [lo]"
| "enc_member (lo, Some hi) = [lo, M_RNG, hi]"

fun enc :: "tok \<Rightarrow> Char list" where
  "enc (Lit c) = [c]"
| "enc One = [M_ONE]"
| "enc Many = [M_ALL]"
| "enc (Class neg ms) = M_SET # (if neg then [M_NOT] else []) @ concat (map enc_member ms) @ [M_END]"

lemma one_member_enc: "one_member c q = map_prod enc_member id (member_tok c q)"
  by (auto simp: one_member_def member_tok_def split: list.splits)

lemma set_members_enc: "set_members c q = map_prod (concat \<circ> map enc_member) id (class_toks c q)"
proof (induction c q rule: class_toks.induct)
  case (1 c q)
  obtain m q1 where m: "member_tok c q = (m, q1)" by fastforce
  show ?case
  proof (cases q1)
    case Nil
    then show ?thesis using m by (subst set_members.simps, subst class_toks.simps) (simp add: one_member_enc)
  next
    case (Cons e r)
    then show ?thesis using 1 [OF m [symmetric] Cons]
      by (subst set_members.simps, subst class_toks.simps) (simp add: one_member_enc m split: prod.splits)
  qed
qed

lemma bracket_enc: "bracket q = map_option (map_prod enc id) (class_tok q)"
  by (auto simp: bracket_def class_tok_def set_members_enc map_prod_def split: list.splits prod.splits)

lemma class_tok_length: "class_tok q = Some (t, rest) \<Longrightarrow> length rest < length q"
  using bracket_length [of q "enc t" rest] by (simp add: bracket_enc)

function parse_glob :: "Char list \<Rightarrow> tok list" where
  "parse_glob [] = []"
| "parse_glob (c # q) =
     (if c = LBRACKET then
        (case class_tok q of
           None \<Rightarrow> Lit c # parse_glob q
         | Some (t, rest) \<Rightarrow> t # parse_glob rest)
      else if c = QUESTION then One # parse_glob q
      else if c = STAR then Many # parse_glob q
      else Lit (CHAR_of c) # parse_glob q)"
  by pat_completeness auto
termination by (relation "measure length") (auto dest: class_tok_length)

text \<open>Characters are not special.\<close>

definition plain :: "Char \<Rightarrow> bool" where "plain c \<longleftrightarrow> c < 0x100"

fun plain_tok :: "tok \<Rightarrow> bool" where
  "plain_tok (Lit c) = plain c"
| "plain_tok (Class neg ms) = (\<forall>(lo, hi) \<in> set ms. plain lo \<and> (\<forall>h. hi = Some h \<longrightarrow> plain h))"
| "plain_tok t = True"

lemma plain_CHAR [simp]: "plain (CHAR_of c)"
proof -
  have "c AND 0xFF \<le> 0xFF" by (rule word_and_le1)
  then show ?thesis unfolding plain_def CHAR_of_def M_ASCII_def by (rule le_less_trans) simp
qed

lemma plain_not_meta:
  "plain c \<Longrightarrow> c \<noteq> M_ALL \<and> c \<noteq> M_END \<and> c \<noteq> M_NOT \<and> c \<noteq> M_ONE \<and> c \<noteq> M_RNG \<and> c \<noteq> M_SET"
  by (auto simp: plain_def glob_chars)

lemma metas_differ:
  "M_ALL \<noteq> M_END" "M_ALL \<noteq> M_NOT" "M_ALL \<noteq> M_ONE" "M_ALL \<noteq> M_RNG" "M_ALL \<noteq> M_SET" "M_END \<noteq> M_NOT" "M_END \<noteq> M_ONE" "M_END \<noteq> M_RNG"
  "M_END \<noteq> M_SET" "M_NOT \<noteq> M_ONE" "M_NOT \<noteq> M_RNG" "M_NOT \<noteq> M_SET" "M_ONE \<noteq> M_RNG" "M_ONE \<noteq> M_SET" "M_RNG \<noteq> M_SET"
  by (simp_all add: glob_chars)

lemmas metas_neq [simp] = metas_differ metas_differ [symmetric]

lemma plain_class_toks: "(lo, hi) \<in> set (fst (class_toks c q)) \<Longrightarrow> plain lo \<and> (\<forall>h. hi = Some h \<longrightarrow> plain h)"
proof (induction c q rule: class_toks.induct)
  case (1 c q)
  obtain m q1 where m: "member_tok c q = (m, q1)" by fastforce
  have pm: "plain (fst m) \<and> (\<forall>h. snd m = Some h \<longrightarrow> plain h)" using m by (auto simp: member_tok_def split: list.splits if_splits)
  show ?case
  proof (cases q1)
    case Nil
    then show ?thesis using 1(2) m pm by (subst (asm) class_toks.simps) auto
  next
    case (Cons e r)
    then show ?thesis using 1(1) [OF m [symmetric] Cons] 1(2) m pm
      by (subst (asm) (2) class_toks.simps) (auto split: if_splits prod.splits)
  qed
qed

lemma plain_parse: "t \<in> set (parse_glob q) \<Longrightarrow> plain_tok t"
proof (induction q rule: parse_glob.induct)
  case (2 c q)
  have "plain LBRACKET" by (simp add: plain_def glob_chars)
  moreover have "plain_tok t" if "class_tok q = Some (t, rest)" for t rest
    using that plain_class_toks by (fastforce simp: class_tok_def split: list.splits if_splits)
  ultimately show ?case using 2 by (auto split: if_splits option.splits)
qed simp

text \<open>A set is scanned to its end.\<close>

lemma scan_members:
  "(\<forall>(lo, hi) \<in> set ms. plain lo \<and> (\<forall>h. hi = Some h \<longrightarrow> plain h)) \<Longrightarrow>
   scan_set k (concat (map enc_member ms) @ M_END # rest) ok = (ok \<or> (\<exists>m \<in> set ms. in_member k m), rest)"
proof (induction ms arbitrary: ok)
  case Nil
  then show ?case by (simp add: scan_set.simps)
next
  case (Cons m ms)
  obtain lo hi where m: "m = (lo, hi)" by fastforce
  have p: "plain lo" using Cons.prems m by auto
  have step: "scan_set k (lo # concat (map enc_member ms) @ M_END # rest) ok
      = scan_set k (concat (map enc_member ms) @ M_END # rest) (ok \<or> lo = k)"
  proof (cases ms)
    case Nil
    then show ?thesis using plain_not_meta [OF p] by (subst scan_set.simps) (auto split: list.splits)
  next
    case (Cons m' ms')
    obtain lo' hi' where m': "m' = (lo', hi')" by fastforce
    then have "lo' \<noteq> M_RNG" using Cons.prems plain_not_meta Cons by auto
    then show ?thesis using plain_not_meta [OF p] Cons m' by (subst scan_set.simps) (cases hi'; auto split: list.splits)
  qed
  show ?case
  proof (cases hi)
    case None
    then show ?thesis using step m Cons by auto
  next
    case (Some h)
    have "scan_set k (lo # M_RNG # h # concat (map enc_member ms) @ M_END # rest) ok
      = scan_set k (concat (map enc_member ms) @ M_END # rest) (ok \<or> lo \<le> k \<and> k \<le> h)"
      using plain_not_meta [OF p] by (subst scan_set.simps) simp
    then show ?thesis using m Some Cons by auto
  qed
qed

lemma neg_enc:
  assumes "plain_tok (Class neg ms)"
  shows "take 1 ((if neg then [M_NOT] else []) @ concat (map enc_member ms) @ M_END # rest) = [M_NOT] \<longleftrightarrow> neg"
proof (cases ms)
  case Nil
  then show ?thesis by auto
next
  case (Cons m ms')
  obtain lo hi where m: "m = (lo, hi)" by fastforce
  have "lo \<noteq> M_NOT" using assms Cons m plain_not_meta [of lo] by auto
  then show ?thesis using Cons m by (cases hi) auto
qed

text \<open>The matching of an encoded pattern, whatever follows it.\<close>

lemma match_enc:
  "(\<forall>t \<in> set ts. plain_tok t) \<Longrightarrow>
   match_glob s (concat (map enc ts) @ rest) (length (concat (map enc ts))) = tok_matches ts s"
proof (induction ts s rule: tok_matches.induct)
  case (1 s)
  then show ?case by (cases rest) simp_all
next
  case (2 c ts s)
  then show ?case using plain_not_meta [of c] by (auto split: list.splits)
next
  case (3 ts s)
  then show ?case by (auto split: list.splits)
next
  case (4 ts s)
  have "tok_matches ts (drop (length s) s) \<longleftrightarrow> tok_matches ts []" by simp
  then show ?case
  proof (cases "ts = []")
    case True
    then show ?thesis by (auto intro!: bexI [of _ "length s"])
  next
    case False
    then obtain t ts' where "ts = t # ts'" by (cases ts) auto
    then have "length (concat (map enc ts)) > 0" by (cases t) auto
    then show ?thesis using 4 by (auto simp del: upt_Suc)
  qed
next
  case (5 neg ms ts s)
  show ?case
  proof (cases s)
    case Nil
    then show ?thesis by simp
  next
    case (Cons k s')
    let ?t = "concat (map enc_member ms) @ M_END # concat (map enc ts) @ rest"
    define p where "p = (if neg then [M_NOT] else []) @ ?t"
    have n: "take 1 p = [M_NOT] \<longleftrightarrow> neg" unfolding p_def using 5(2) by (intro neg_enc) simp
    have b: "(if take 1 p = [M_NOT] then tl p else p) = ?t" unfolding n by (simp add: p_def)
    have sc: "scan_set k ?t False = (\<exists>m \<in> set ms. in_member k m, concat (map enc ts) @ rest)"
      using scan_members [of ms k "concat (map enc ts) @ rest" False] 5(2) by simp
    have "match_glob s (concat (map enc (Class neg ms # ts)) @ rest) (length (concat (map enc (Class neg ms # ts))))
      = ((\<exists>m \<in> set ms. in_member k m) \<noteq> neg \<and>
         match_glob s' (concat (map enc ts) @ rest) (length (concat (map enc ts))))"
    proof -
      have e: "concat (map enc (Class neg ms # ts)) @ rest = M_SET # p" by (simp add: p_def)
      have l: "length (concat (map enc (Class neg ms # ts))) - 1 - (length p - length (concat (map enc ts) @ rest))
        = length (concat (map enc ts))" by (simp add: p_def)
      have nz: "length (concat (map enc (Class neg ms # ts))) \<noteq> 0" by simp
      show ?thesis unfolding e Cons match_glob.simps(2) using n b sc l nz by (simp only: Let_def list.case if_False metas_neq prod.case if_cancel) auto
    qed
    then show ?thesis using 5 Cons by simp
  qed
qed

definition add_tok :: "tok list \<Rightarrow> tok \<Rightarrow> tok list" where
  "add_tok ts t = (if t = Many \<and> ts \<noteq> [] \<and> last ts = Many then ts else ts @ [t])"

lemma last_enc: "plain_tok t \<Longrightarrow> last (enc t) = M_ALL \<longleftrightarrow> t = Many"
  by (cases t) (auto dest: plain_not_meta)

lemma last_enc_all: "(\<forall>t \<in> set ts. plain_tok t) \<Longrightarrow>
  concat (map enc ts) = [] \<or> last (concat (map enc ts)) \<noteq> M_ALL \<longleftrightarrow> \<not> (ts \<noteq> [] \<and> last ts = Many)"
proof (cases ts rule: rev_cases)
  case (snoc us t)
  moreover have "enc t \<noteq> []" by (cases t) simp_all
  moreover assume "\<forall>t \<in> set ts. plain_tok t"
  ultimately show ?thesis using last_enc [of t] by simp
qed simp

lemma compile_enc:
  "(\<forall>t \<in> set ts. plain_tok t) \<Longrightarrow>
   compile_glob (concat (map enc ts)) q = concat (map enc (foldl add_tok ts (parse_glob q)))"
proof (induction q arbitrary: ts rule: parse_glob.induct)
  case (2 c q)
  have pl: "plain LBRACKET" by (simp add: plain_def glob_chars)
  consider (set) t rest where "c = LBRACKET" "class_tok q = Some (t, rest)" | (unclosed) "c = LBRACKET" "class_tok q = None"
    | (one) "c \<noteq> LBRACKET" "c = QUESTION" | (many) "c \<noteq> LBRACKET" "c \<noteq> QUESTION" "c = STAR"
    | (lit) "c \<noteq> LBRACKET" "c \<noteq> QUESTION" "c \<noteq> STAR"
    by (cases "class_tok q") fastforce+
  then show ?case
  proof cases
    case set
    have t: "t \<noteq> Many" "plain_tok t"
      using set plain_parse [of t "c # q"] by (auto simp: class_tok_def split: list.splits if_splits)
    then show ?thesis using "2.IH"(2) [OF set(1,2) refl, of "ts @ [t]"] "2.prems" set
      by (simp add: bracket_enc add_tok_def)
  next
    case unclosed
    then show ?thesis using "2.IH"(1) [OF unclosed(1,2), of "ts @ [Lit LBRACKET]"] "2.prems" pl
      by (simp add: bracket_enc add_tok_def)
  next
    case one
    then show ?thesis using "2.IH"(3) [OF one, of "ts @ [One]"] "2.prems" by (simp add: add_tok_def)
  next
    case many
    show ?thesis
    proof (cases "ts \<noteq> [] \<and> last ts = Many")
      case True
      then show ?thesis using many "2.IH"(4) [OF many, of ts] "2.prems" last_enc_all [OF "2.prems"]
        by (auto simp: add_tok_def)
    next
      case False
      then show ?thesis using many "2.IH"(4) [OF many, of "ts @ [Many]"] "2.prems" last_enc_all [OF "2.prems"]
        by (auto simp: add_tok_def)
    qed
  next
    case lit
    then show ?thesis using "2.IH"(5) [OF lit, of "ts @ [Lit (CHAR_of c)]"] "2.prems" by (simp add: add_tok_def)
  qed
qed simp

lemma many_many: "tok_matches (Many # Many # us) s = tok_matches (Many # us) s"
proof
  assume "tok_matches (Many # Many # us) s"
  then obtain i j where "i \<le> length s" "j \<le> length (drop i s)" "tok_matches us (drop j (drop i s))"
    by (auto simp: less_Suc_eq_le simp del: upt_Suc)
  then show "tok_matches (Many # us) s"
    by (auto simp: less_Suc_eq_le add.commute simp del: upt_Suc intro!: bexI [of _ "i + j"])
next
  assume "tok_matches (Many # us) s"
  then show "tok_matches (Many # Many # us) s"
    by (subst tok_matches.simps(4)) (intro bexI [of _ 0], simp_all)
qed

lemma tok_matches_same:
  "(\<And>s. tok_matches us s = tok_matches vs s) \<Longrightarrow> tok_matches (ts @ us) s = tok_matches (ts @ vs) s"
proof (induction ts arbitrary: s)
  case (Cons t ts)
  then show ?case by (cases t) (auto split: list.splits)
qed simp

lemma tok_matches_add: "tok_matches (add_tok ts t @ us) s = tok_matches (ts @ t # us) s"
proof (cases "t = Many \<and> ts \<noteq> [] \<and> last ts = Many")
  case True
  then obtain ts' where "ts = ts' @ [Many]" by (metis append_butlast_last_id)
  then show ?thesis using True tok_matches_same [of "Many # us" "Many # Many # us" ts'] many_many by (simp add: add_tok_def del: tok_matches.simps)
qed (auto simp: add_tok_def)

lemma tok_matches_squash: "tok_matches (foldl add_tok ts us) s = tok_matches (ts @ us) s"
proof (induction us arbitrary: ts)
  case (Cons u us)
  then show ?case using tok_matches_add by simp
qed simp

lemma set_squash: "set (foldl add_tok ts us) \<subseteq> set ts \<union> set us"
proof (induction us arbitrary: ts)
  case (Cons u us)
  have "set (add_tok ts u) \<subseteq> insert u (set ts)" by (auto simp: add_tok_def)
  then show ?case using Cons [of "add_tok ts u"] by auto
qed simp

lemma match_compiled:
  "match_glob s (compile_glob [] q @ rest) (length (compile_glob [] q)) = tok_matches (parse_glob q) s"
proof -
  have p: "\<forall>t \<in> set (foldl add_tok [] (parse_glob q)). plain_tok t" using set_squash [of "[]" "parse_glob q"] plain_parse by auto
  have "compile_glob [] q = concat (map enc (foldl add_tok [] (parse_glob q)))" using compile_enc [of "[]" q] by simp
  then show ?thesis using match_enc [OF p, of s rest] by (simp add: tok_matches_squash)
qed

section \<open>Finding the paths\<close>

text \<open>
  The file system as \<open>glob\<close> sees it: \<open>gl_opendir\<close> gives the names that \<open>gl_readdir\<close> will deliver, or fails;
  \<open>gl_lstat\<close> and \<open>gl_stat\<close> give a mode or fail; \<open>gl_errfunc\<close> can be null.  The flags that are tested.
\<close>

record 's globfs =
  gl_opendir :: "byte list \<Rightarrow> 's \<Rightarrow> byte list list option \<times> 's"
  gl_lstat :: "byte list \<Rightarrow> 's \<Rightarrow> u32 option \<times> 's"
  gl_stat :: "byte list \<Rightarrow> 's \<Rightarrow> u32 option \<times> 's"
  gl_errfunc :: "(byte list \<Rightarrow> bool) option"
  GLOB_ERR :: bool
  GLOB_MARK :: bool
  GLOB_NOCHECK :: bool
  GLOB_NOMAGIC :: bool
  GLOB_NOSORT :: bool
  GLOB_QUOTE :: bool

record glob_t =
  gl_pathv :: "byte list list"
  gl_matchc :: nat

definition GLOB_ABEND :: int where "GLOB_ABEND = -2"

definition S_ISDIR :: "u32 \<Rightarrow> bool" where "S_ISDIR m \<longleftrightarrow> m AND 0xF000 = 0x4000"
definition S_ISLNK :: "u32 \<Rightarrow> bool" where "S_ISLNK m \<longleftrightarrow> m AND 0xF000 = 0xA000"

definition wide :: "byte list \<Rightarrow> Char list" where "wide = map ucast"

text \<open>\<open>g_Ctoc\<close> into a buffer of \<open>MAXPATHLEN\<close> bytes.\<close>

definition g_Ctoc :: "Char list \<Rightarrow> byte list" where "g_Ctoc = map ucast"

definition to_buf :: "Char list \<Rightarrow> restore_stop + byte list" where
  "to_buf p = (if length p < MAXPATHLEN then Inr (g_Ctoc p) else Inl Crash)"

type_synonym 's globbed = "restore_stop + int \<times> glob_t \<times> 's"

definition globextend :: "byte list \<Rightarrow> glob_t \<Rightarrow> glob_t" where
  "globextend p gl = gl\<lparr>gl_pathv := gl_pathv gl @ [p]\<rparr>"

text \<open>The end of the pattern in \<open>glob2\<close>.\<close>

definition mark_dir :: "'s globfs \<Rightarrow> Char list \<Rightarrow> byte list \<Rightarrow> u32 \<Rightarrow> 's \<Rightarrow> Char list \<times> 's" where
  "mark_dir G path p mode s =
     (if GLOB_MARK G \<and> last path \<noteq> SEP then
        if S_ISDIR mode then (path @ [SEP], s)
        else if S_ISLNK mode then
          (case gl_stat G p s of
             (Some m, s) \<Rightarrow> (if S_ISDIR m then path @ [SEP] else path, s)
           | (None, s) \<Rightarrow> (path, s))
        else (path, s)
      else (path, s))"

definition glob_end :: "'s globfs \<Rightarrow> Char list \<Rightarrow> glob_t \<times> 's \<Rightarrow> 's globbed" where
  "glob_end G path = (\<lambda>(gl, s).
     bindE (to_buf path) (\<lambda>p.
       case gl_lstat G p s of
         (None, s) \<Rightarrow> Inr (0, gl, s)
       | (Some mode, s) \<Rightarrow>
           (case mark_dir G path p mode s of
              (path, s) \<Rightarrow> Inr (0, globextend (g_Ctoc path) (gl\<lparr>gl_matchc := gl_matchc gl + 1\<rparr>), s))))"

text \<open>\<open>glob3\<close>; \<open>next\<close> is \<open>glob2\<close> on the rest of the pattern, \<open>n\<close> the length of this segment.\<close>

fun each_name :: "Char list \<Rightarrow> Char list \<Rightarrow> nat \<Rightarrow> (Char list \<Rightarrow> glob_t \<times> 's \<Rightarrow> 's globbed) \<Rightarrow> byte list list
    \<Rightarrow> glob_t \<times> 's \<Rightarrow> 's globbed" where
  "each_name path pat n next [] gs = Inr (0, gs)"
| "each_name path pat n next (name # names) gs =
     (if take 1 name = [0x2E] \<and> take 1 pat \<noteq> [DOT] then each_name path pat n next names gs
      else if length path + length name > MAXPATHLEN then Inl Crash
      else if \<not> match_glob (wide name) pat n then each_name path pat n next names gs
      else bindE (next (path @ wide name) gs) (\<lambda>(err, gs).
             if err \<noteq> 0 then Inr (err, gs) else each_name path pat n next names gs))"

definition glob3 :: "'s globfs \<Rightarrow> Char list \<Rightarrow> Char list \<Rightarrow> nat \<Rightarrow> (Char list \<Rightarrow> glob_t \<times> 's \<Rightarrow> 's globbed)
    \<Rightarrow> glob_t \<times> 's \<Rightarrow> 's globbed" where
  "glob3 G path pat n next = (\<lambda>(gl, s).
     bindE (if path = [] then Inr [0x2E] else to_buf path) (\<lambda>p.
       case gl_opendir G p s of
         (None, s) \<Rightarrow>
           (case gl_errfunc G of
              None \<Rightarrow> Inr (0, gl, s)
            | Some f \<Rightarrow> bindE (to_buf path) (\<lambda>b. Inr (if f b \<or> GLOB_ERR G then GLOB_ABEND else 0, gl, s)))
       | (Some names, s) \<Rightarrow> each_name path pat n next names (gl, s)))"

function glob2 :: "'s globfs \<Rightarrow> Char list \<Rightarrow> Char list \<Rightarrow> glob_t \<times> 's \<Rightarrow> 's globbed" where
  "glob2 G path [] gs = glob_end G path gs"
| "glob2 G path (c # cs) gs =
     (let seg = takeWhile (\<lambda>c. c \<noteq> SEP) (c # cs); rest = dropWhile (\<lambda>c. c \<noteq> SEP) (c # cs);
          seps = takeWhile (\<lambda>c. c = SEP) rest
      in if length path + length seg > MAXPATHLEN then Inl Crash
         else if \<exists>c \<in> set seg. ismeta c
         then glob3 G path (c # cs) (length seg) (\<lambda>path gs. glob2 G path rest gs) gs
         else if length path + length seg + length seps > MAXPATHLEN then Inl Crash
         else glob2 G (path @ seg @ seps) (dropWhile (\<lambda>c. c = SEP) rest) gs)"
  by pat_completeness auto
termination
proof (relation "measure (\<lambda>(G, path, pat, gs). length pat)", goal_cases)
  case (2 G path c cs gs seg rest seps p gs')
  then have "c \<noteq> SEP" by (auto simp: ismeta_def SEP_def char_of_c_def M_QUOTE_def split: if_splits)
  then show ?case using 2 length_dropWhile_le [of "\<lambda>c. c \<noteq> SEP" cs] by (simp add: less_Suc_eq_le)
next
  case (3 G path c cs gs seg rest seps)
  have "length (dropWhile (\<lambda>c. c \<noteq> SEP) cs) \<le> length cs" "length (dropWhile (\<lambda>c. c = SEP) cs) \<le> length cs"
    "length (dropWhile (\<lambda>c. c = SEP) (dropWhile (\<lambda>c. c \<noteq> SEP) cs)) \<le> length (dropWhile (\<lambda>c. c \<noteq> SEP) cs)"
    by (rule length_dropWhile_le)+
  then show ?case using 3 by (auto simp: less_Suc_eq_le)
qed simp

declare glob2.simps [simp del]

text \<open>\<open>glob0\<close>, \<open>glob1\<close> and \<open>glob\<close>, without braces and tildes (\<open>GLOB_BRACE\<close> and \<open>GLOB_TILDE\<close>), from the paths before on.\<close>

definition glob1 :: "'s globfs \<Rightarrow> Char list \<Rightarrow> glob_t \<times> 's \<Rightarrow> 's globbed" where
  "glob1 G pat gs = (if pat = [] then Inr (0, gs) else glob2 G [] pat gs)"

definition magchar :: "Char list \<Rightarrow> bool" where
  "magchar compiled \<longleftrightarrow> (\<exists>c \<in> set compiled. ismeta c)"

definition glob0 :: "'s globfs \<Rightarrow> Char list \<Rightarrow> glob_t \<times> 's \<Rightarrow> 's globbed" where
  "glob0 G pat gs =
     (let compiled = compile_glob [] pat; old = length (gl_pathv (fst gs)) in
      bindE (glob1 G compiled gs) (\<lambda>(err, gl, s).
        if err \<noteq> 0 then Inr (err, gl, s)
        else if length (gl_pathv gl) = old \<and> (GLOB_NOCHECK G \<or> GLOB_NOMAGIC G \<and> \<not> magchar compiled)
        then Inr (0, globextend (g_Ctoc pat) gl, s)
        else if \<not> GLOB_NOSORT G
        then Inr (0, gl\<lparr>gl_pathv := take old (gl_pathv gl) @ sort (drop old (gl_pathv gl))\<rparr>, s)
        else Inr (0, gl, s)))"

fun protect :: "byte list \<Rightarrow> Char list" where
  "protect [] = []"
| "protect (c # s) =
     (if c = QUOTE then (case s of [] \<Rightarrow> [ucast QUOTE OR M_PROTECT] | d # s' \<Rightarrow> (ucast d OR M_PROTECT) # protect s')
      else ucast c # protect s)"

definition glob :: "'s globfs \<Rightarrow> byte list \<Rightarrow> byte list list \<Rightarrow> 's \<Rightarrow> 's globbed" where
  "glob G pattern old s =
     glob0 G (take MAXPATHLEN (if GLOB_QUOTE G then protect pattern else wide pattern))
       (\<lparr> gl_pathv = old, gl_matchc = 0 \<rparr>, s)"

section \<open>What is found\<close>

definition dir_name :: "Char list \<Rightarrow> byte list" where
  "dir_name p = (if p = [] then [0x2E] else g_Ctoc p)"

definition may_show :: "byte list \<Rightarrow> Char list \<Rightarrow> bool" where
  "may_show name pat \<longleftrightarrow> \<not> (take 1 name = [0x2E] \<and> take 1 pat \<noteq> [DOT])"

definition segment :: "Char list \<Rightarrow> Char list" where
  "segment pat = takeWhile (\<lambda>c. c \<noteq> SEP) pat"

definition behind :: "Char list \<Rightarrow> Char list" where
  "behind pat = dropWhile (\<lambda>c. c \<noteq> SEP) pat"

text \<open>The paths that a pattern stands for in a file system whose directories have the names \<open>D\<close>.\<close>

inductive leads :: "(byte list \<Rightarrow> byte list list option) \<Rightarrow> Char list \<Rightarrow> Char list \<Rightarrow> Char list \<Rightarrow> bool"
  for D :: "byte list \<Rightarrow> byte list list option" where
  leads_end: "leads D p [] p"
| leads_literal: "pat \<noteq> [] \<Longrightarrow> \<not> (\<exists>c \<in> set (segment pat). ismeta c) \<Longrightarrow>
    leads D (p @ segment pat @ takeWhile (\<lambda>c. c = SEP) (behind pat)) (dropWhile (\<lambda>c. c = SEP) (behind pat)) q \<Longrightarrow> leads D p pat q"
| leads_name: "\<exists>c \<in> set (segment pat). ismeta c \<Longrightarrow> D (dir_name p) = Some names \<Longrightarrow> name \<in> set names \<Longrightarrow> may_show name pat \<Longrightarrow>
    match_glob (wide name) pat (length (segment pat)) \<Longrightarrow> leads D (p @ wide name) (behind pat) q \<Longrightarrow> leads D p pat q"

inductive_cases leads_nilE: "leads D p [] q"
inductive_cases leads_patE: "leads D p (c # cs) q"

lemma leads_nil: "leads D p [] q \<longleftrightarrow> q = p"
  by (auto elim: leads_nilE intro: leads_end) (auto simp: segment_def elim: leads_nilE)

lemma leads_literal_iff:
  assumes lit: "\<not> (\<exists>c \<in> set (segment (c # cs)). ismeta c)"
  shows "leads D p (c # cs) q \<longleftrightarrow>
    leads D (p @ segment (c # cs) @ takeWhile (\<lambda>c. c = SEP) (behind (c # cs))) (dropWhile (\<lambda>c. c = SEP) (behind (c # cs))) q"
proof
  assume "leads D p (c # cs) q"
  then show "leads D (p @ segment (c # cs) @ takeWhile (\<lambda>c. c = SEP) (behind (c # cs))) (dropWhile (\<lambda>c. c = SEP) (behind (c # cs))) q"
    by (rule leads_patE) (use lit in blast)+
next
  assume "leads D (p @ segment (c # cs) @ takeWhile (\<lambda>c. c = SEP) (behind (c # cs))) (dropWhile (\<lambda>c. c = SEP) (behind (c # cs))) q"
  then show "leads D p (c # cs) q" by (rule leads_literal [OF list.distinct(2) lit])
qed

lemma leads_name_iff:
  assumes meta: "\<exists>c \<in> set (segment (c # cs)). ismeta c"
  shows "leads D p (c # cs) q \<longleftrightarrow>
    (\<exists>names name. D (dir_name p) = Some names \<and> name \<in> set names \<and> may_show name (c # cs) \<and>
       match_glob (wide name) (c # cs) (length (segment (c # cs))) \<and> leads D (p @ wide name) (behind (c # cs)) q)"
proof
  assume "leads D p (c # cs) q"
  then show "\<exists>names name. D (dir_name p) = Some names \<and> name \<in> set names \<and> may_show name (c # cs) \<and>
       match_glob (wide name) (c # cs) (length (segment (c # cs))) \<and> leads D (p @ wide name) (behind (c # cs)) q"
    by (rule leads_patE) (use meta in blast)+
next
  assume "\<exists>names name. D (dir_name p) = Some names \<and> name \<in> set names \<and> may_show name (c # cs) \<and>
       match_glob (wide name) (c # cs) (length (segment (c # cs))) \<and> leads D (p @ wide name) (behind (c # cs)) q"
  then obtain names name where "D (dir_name p) = Some names" "name \<in> set names" "may_show name (c # cs)"
    "match_glob (wide name) (c # cs) (length (segment (c # cs)))" "leads D (p @ wide name) (behind (c # cs)) q" by blast
  then show "leads D p (c # cs) q" by (rule leads_name [OF meta])
qed

text \<open>A file system that does not change, without \<open>gl_errfunc\<close> and \<open>GLOB_MARK\<close>.\<close>

definition constant_fs :: "'s globfs \<Rightarrow> (byte list \<Rightarrow> byte list list option) \<Rightarrow> (byte list \<Rightarrow> u32 option) \<Rightarrow> bool" where
  "constant_fs G D E \<longleftrightarrow> (\<forall>p s. fst (gl_opendir G p s) = D p \<and> fst (gl_lstat G p s) = E p)
     \<and> gl_errfunc G = None \<and> \<not> GLOB_MARK G"

definition adds :: "byte list set \<Rightarrow> glob_t \<Rightarrow> int \<times> glob_t \<times> 's \<Rightarrow> bool" where
  "adds P gl r \<longleftrightarrow> fst r = 0 \<and> (\<exists>new. gl_pathv (fst (snd r)) = gl_pathv gl @ new \<and> set new = P)"

lemma adds_append: "adds P gl (0, gl', s') \<Longrightarrow> adds Q gl' r \<Longrightarrow> adds (P \<union> Q) gl r"
  unfolding adds_def by (elim conjE exE) (auto simp: intro!: exI)

lemma glob_end_adds:
  assumes G: "constant_fs G D E" and r: "glob_end G p (gl, s) = Inr r"
  shows "adds {g_Ctoc q |q. leads D p [] q \<and> E (g_Ctoc q) \<noteq> None} gl r"
proof -
  have E: "fst (gl_lstat G b s) = E b" for b using G by (simp add: constant_fs_def)
  have b: "to_buf p = Inr (g_Ctoc p)" using r by (auto simp: glob_end_def to_buf_def split: if_splits)
  have m: "mark_dir G p b m s' = (p, s')" for b m s' using G by (simp add: mark_dir_def constant_fs_def)
  obtain o1 s1 where l: "gl_lstat G (g_Ctoc p) s = (o1, s1)" by fastforce
  then have e: "E (g_Ctoc p) = o1" using E [of "g_Ctoc p"] by simp
  have "{g_Ctoc q |q. leads D p [] q \<and> E (g_Ctoc q) \<noteq> None} = (if o1 = None then {} else {g_Ctoc p})"
    unfolding leads_nil e [symmetric] by auto
  then show ?thesis using r by (cases o1) (auto simp: glob_end_def b l m adds_def globextend_def)
qed

lemma each_name_adds:
  assumes next_adds: "\<And>name gl s r. nxt (p @ wide name) (gl, s) = Inr r \<Longrightarrow> adds (F name) gl r"
    and r: "each_name p pat n nxt names (gl, s) = Inr r"
  shows "adds (\<Union>name \<in> {name \<in> set names. may_show name pat \<and> match_glob (wide name) pat n}. F name) gl r"
  using r
proof (induction names arbitrary: gl s)
  case Nil
  then show ?case by (auto simp: adds_def)
next
  case (Cons name names)
  let ?U = "\<lambda>ns. \<Union>name \<in> {name \<in> set ns. may_show name pat \<and> match_glob (wide name) pat n}. F name"
  show ?case
  proof (cases "may_show name pat \<and> match_glob (wide name) pat n")
    case False
    then have r: "each_name p pat n nxt names (gl, s) = Inr r" using Cons.prems by (auto simp: may_show_def split: if_splits)
    have U: "?U (name # names) = ?U names" using False by auto
    show ?thesis unfolding U using r by (rule Cons.IH)
  next
    case True
    then have "bindE (nxt (p @ wide name) (gl, s)) (\<lambda>(err, gs).
        if err \<noteq> 0 then Inr (err, gs) else each_name p pat n nxt names gs) = Inr r"
      using Cons.prems by (simp add: may_show_def del: de_Morgan_conj split: if_splits)
    then obtain err gl1 s1 where n: "nxt (p @ wide name) (gl, s) = Inr (err, gl1, s1)"
      and rest: "(if err \<noteq> 0 then Inr (err, gl1, s1) else each_name p pat n nxt names (gl1, s1)) = Inr r"
      unfolding bindE_Inr_iff by auto
    have a: "adds (F name) gl (err, gl1, s1)" by (rule next_adds [OF n])
    then have z: "err = 0" by (simp add: adds_def)
    have "adds (?U names) gl1 r" using rest z by (intro Cons.IH) simp
    then have "adds (F name \<union> ?U names) gl r" using adds_append [OF a [unfolded z]] by blast
    moreover have "?U (name # names) = F name \<union> ?U names" using True by auto
    ultimately show ?thesis by simp
  qed
qed

lemma glob2_adds:
  "constant_fs G D E \<Longrightarrow> glob2 G p pat gs = Inr r \<Longrightarrow> adds {g_Ctoc q |q. leads D p pat q \<and> E (g_Ctoc q) \<noteq> None} (fst gs) r"
proof (induction G p pat gs arbitrary: r rule: glob2.induct)
  case (1 G p gs)
  then show ?case using glob_end_adds [of G D E p "fst gs" "snd gs" r] by (simp add: glob2.simps)
next
  case (2 G p c cs gs)
  let ?pat = "c # cs"
  note eq = glob2.simps(2) [of G p c cs gs, folded segment_def behind_def, unfolded Let_def]
  show ?case
  proof (cases "\<exists>c \<in> set (segment ?pat). ismeta c")
    case False
    then have r: "glob2 G (p @ segment ?pat @ takeWhile (\<lambda>c. c = SEP) (behind ?pat)) (dropWhile (\<lambda>c. c = SEP) (behind ?pat)) gs = Inr r"
      using "2.prems"(2) unfolding eq by (auto split: if_splits)
    have "length p + length (segment ?pat) \<le> MAXPATHLEN"
      "length p + length (segment ?pat) + length (takeWhile (\<lambda>c. c = SEP) (behind ?pat)) \<le> MAXPATHLEN"
      using "2.prems"(2) False unfolding eq by (auto split: if_splits)
    then show ?thesis using "2.IH"(2) [OF refl refl refl] False "2.prems"(1) r
      unfolding leads_literal_iff [OF False] by (simp add: segment_def behind_def not_less)
  next
    case True
    have lp: "length p + length (segment ?pat) \<le> MAXPATHLEN" using "2.prems"(2) unfolding eq by (auto split: if_splits)
    then have g3: "glob3 G p ?pat (length (segment ?pat)) (\<lambda>p gs. glob2 G p (behind ?pat) gs) gs = Inr r"
      using "2.prems"(2) True unfolding eq by (auto split: if_splits)
    define F where "F name = {g_Ctoc q |q. leads D (p @ wide name) (behind ?pat) q \<and> E (g_Ctoc q) \<noteq> None}" for name
    have IH: "adds (F name) gl r" if "glob2 G (p @ wide name) (behind ?pat) (gl, s) = Inr r" for name gl s r
      using "2.IH"(1) [OF refl refl refl, of "p @ wide name" "(gl, s)" r] that True lp "2.prems"(1)
      by (simp add: F_def segment_def behind_def not_less)
    obtain gl s where gs: "gs = (gl, s)" by fastforce
    have d: "(if p = [] then Inr [0x2E] else to_buf p) = Inr (dir_name p)"
      using g3 unfolding gs glob3_def by (auto simp: dir_name_def to_buf_def split: if_splits)
    obtain o1 s1 where o1: "gl_opendir G (dir_name p) s = (o1, s1)" by fastforce
    then have D: "D (dir_name p) = o1" using "2.prems"(1) unfolding constant_fs_def by (metis fst_conv)
    have g3': "(case o1 of None \<Rightarrow> Inr (0, gl, s1)
        | Some names \<Rightarrow> each_name p ?pat (length (segment ?pat)) (\<lambda>p gs. glob2 G p (behind ?pat) gs) names (gl, s1)) = Inr r"
    proof -
      have "gl_errfunc G = None" using "2.prems"(1) by (simp add: constant_fs_def)
      then show ?thesis using g3 unfolding gs glob3_def prod.case d by (simp add: o1 cong: option.case_cong)
    qed
    show ?thesis
    proof (cases o1)
      case None
      then have "r = (0, gl, s1)" using g3' by simp
      then show ?thesis using D None by (simp add: adds_def leads_name_iff [OF True] gs)
    next
      case (Some names)
      then have "adds (\<Union>name \<in> {name \<in> set names. may_show name ?pat \<and> match_glob (wide name) ?pat (length (segment ?pat))}. F name) gl r"
        using g3' by (intro each_name_adds [OF IH, where s = s1]) simp_all
      moreover have "(\<Union>name \<in> {name \<in> set names. may_show name ?pat \<and> match_glob (wide name) ?pat (length (segment ?pat))}. F name)
        = {g_Ctoc q |q. leads D p ?pat q \<and> E (g_Ctoc q) \<noteq> None}"
        unfolding leads_name_iff [OF True] F_def D Some by blast
      ultimately show ?thesis by (simp add: gs)
    qed
  qed
qed

lemma bracket_out: "bracket q = Some (out, rest) \<Longrightarrow> out \<noteq> []"
  by (auto simp: bracket_def split: list.splits if_splits prod.splits)

lemma compile_nonempty: "done \<noteq> [] \<or> q \<noteq> [] \<Longrightarrow> compile_glob done q \<noteq> []"
proof (induction "done" q rule: compile_glob.induct)
  case (2 "done" c q)
  show ?case
  proof (cases "c = LBRACKET")
    case True
    show ?thesis
    proof (cases "bracket q")
      case None
      then show ?thesis using 2(1) [OF True None] True by simp
    next
      case (Some a)
      obtain out rest where a: "a = (out, rest)" by fastforce
      then have "compile_glob (done @ out) rest \<noteq> []"
        using 2(2) [OF True Some a [symmetric]] bracket_out [of q out rest] Some by simp
      then show ?thesis using True Some a by simp
    qed
  next
    case False
    then show ?thesis using 2(3,4,5) by simp
  qed
qed simp

lemma glob_exact:
  assumes G: "constant_fs G D E" and fl: "\<not> GLOB_NOCHECK G" "\<not> GLOB_NOMAGIC G" "\<not> GLOB_NOSORT G" "\<not> GLOB_QUOTE G"
    and pat: "pattern \<noteq> []" "length pattern \<le> MAXPATHLEN" and r: "glob G pattern [] s = Inr (err, gl, s')"
  shows "err = 0 \<and> sorted (gl_pathv gl)
    \<and> set (gl_pathv gl) = {g_Ctoc q |q. leads D [] (compile_glob [] (wide pattern)) q \<and> E (g_Ctoc q) \<noteq> None}"
proof -
  let ?c = "compile_glob [] (wide pattern)"
  have ne: "?c \<noteq> []" using compile_nonempty [of "[]" "wide pattern"] pat by (simp add: wide_def)
  obtain e1 gl1 s1 where g: "glob2 G [] ?c (\<lparr> gl_pathv = [], gl_matchc = 0 \<rparr>, s) = Inr (e1, gl1, s1)"
    and e: "(if e1 \<noteq> 0 then Inr (e1, gl1, s1) else Inr (0, gl1\<lparr>gl_pathv := sort (gl_pathv gl1)\<rparr>, s1)) = Inr (err, gl, s')"
    using r fl pat ne by (auto simp: glob_def glob0_def glob1_def Let_def wide_def bindE_Inr_iff split: if_splits)
  define P where "P = {g_Ctoc q |q. leads D [] ?c q \<and> E (g_Ctoc q) \<noteq> None}"
  have "adds P \<lparr> gl_pathv = [], gl_matchc = 0 \<rparr> (e1, gl1, s1)"
    using glob2_adds [OF G g] unfolding P_def by simp
  then show ?thesis using e unfolding P_def [symmetric] by (auto simp: adds_def)
qed

section \<open>Patterns by their components\<close>

text \<open>Every bracket of the component is closed in it.\<close>

definition brackets_closed :: "byte list \<Rightarrow> bool" where
  "brackets_closed s \<longleftrightarrow> Lit LBRACKET \<notin> set (parse_glob (wide s))"

lemma class_toks_append:
  "RBRACKET \<in> set q \<Longrightarrow> class_toks c (q @ r) = apsnd (\<lambda>rest. rest @ r) (class_toks c q) \<and> snd (class_toks c q) \<noteq> q"
proof (induction c q rule: class_toks.induct)
  case (1 c q)
  have dist: "RANGE \<noteq> RBRACKET" by (simp add: glob_chars)
  obtain m q1 where m: "member_tok c q = (m, q1)" by fastforce
  have q1: "member_tok c (q @ r) = (m, q1 @ r) \<and> RBRACKET \<in> set q1 \<and> length q1 \<le> length q"
    using m "1.prems" dist by (auto simp: member_tok_def split: list.splits if_splits)
  then obtain e s where s: "q1 = e # s" by (cases q1) auto
  show ?case
  proof (cases "e = RBRACKET")
    case True
    then show ?thesis using m q1 s
      by (subst class_toks.simps, subst (2) class_toks.simps, subst (3) class_toks.simps) auto
  next
    case False
    then have "RBRACKET \<in> set s" using q1 s by auto
    then have IH: "class_toks e (s @ r) = apsnd (\<lambda>rest. rest @ r) (class_toks e s)"
      using "1.IH" [OF m [symmetric] s False] by blast
    obtain ms rest where ct: "class_toks e s = (ms, rest)" by fastforce
    have cq: "class_toks c q = (m # ms, rest)" using m s False ct by (subst class_toks.simps) simp
    have "class_toks c (q @ r) = (m # ms, rest @ r)" using q1 s False ct IH by (subst class_toks.simps) simp
    moreover have "length rest < length q"
    proof -
      have "length (snd (class_toks e s)) \<le> length s"
        using set_members_length [of e s] unfolding set_members_enc by simp
      then show ?thesis using ct s q1 by simp
    qed
    ultimately show ?thesis using cq by auto
  qed
qed

lemma class_tok_append: "class_tok q = Some (t, rest) \<Longrightarrow> class_tok (q @ r) = Some (t, rest @ r)"
proof -
  assume a: "class_tok q = Some (t, rest)"
  then obtain c s where s: "set_body q = c # s" "RBRACKET \<in> set s"
    and t: "t = Class (neg_set q) (fst (class_toks c s))" "rest = snd (class_toks c s)"
    by (auto simp: class_tok_def split: list.splits if_splits)
  have n: "neg_set (q @ r) = neg_set q" "set_body (q @ r) = c # s @ r"
    using s(1) by (cases q; auto simp: neg_set_def set_body_def split: if_splits)+
  show ?thesis using class_toks_append [OF s(2), of c r] s t by (auto simp: class_tok_def n)
qed

lemma parse_append: "Lit LBRACKET \<notin> set (parse_glob q) \<Longrightarrow> parse_glob (q @ r) = parse_glob q @ parse_glob r"
proof (induction q rule: parse_glob.induct)
  case (2 c q)
  show ?case
  proof (cases "c = LBRACKET")
    case True
    obtain t rest where ct: "class_tok q = Some (t, rest)" using "2.prems" True by (cases "class_tok q") auto
    then have "parse_glob (rest @ r) = parse_glob rest @ parse_glob r"
      using "2.IH"(2) [OF True ct refl] "2.prems" True by simp
    then show ?thesis using True ct class_tok_append [OF ct, of r] by simp
  next
    case False
    show ?thesis
    proof (cases "c = QUESTION")
      case True
      then show ?thesis using False "2.IH"(3) [OF False True] "2.prems" by simp
    next
      case nq: False
      show ?thesis
      proof (cases "c = STAR")
        case True
        then show ?thesis using False nq "2.IH"(4) [OF False nq True] "2.prems" by simp
      next
        case ns: False
        then show ?thesis using False nq "2.IH"(5) [OF False nq ns] "2.prems" by simp
      qed
    qed
  qed
qed simp

lemma parse_SEP: "parse_glob (SEP # r) = Lit SEP # parse_glob r"
  by (simp add: glob_chars CHAR_of_def)

text \<open>Compilation goes component by component.\<close>

lemma squash_after_lit: "foldl add_tok (ts @ [Lit c]) us = ts @ Lit c # foldl add_tok [] us"
proof (induction us rule: rev_induct)
  case (snoc u us)
  have "add_tok (ts @ Lit c # foldl add_tok [] us) u = ts @ Lit c # add_tok (foldl add_tok [] us) u"
    by (cases "foldl add_tok [] us" rule: rev_cases) (auto simp: add_tok_def)
  then show ?case using snoc by simp
qed simp

lemma compile_component:
  assumes "brackets_closed s"
  shows "compile_glob [] (wide s @ SEP # r) = compile_glob [] (wide s) @ SEP # compile_glob [] r"
proof -
  have "parse_glob (wide s @ SEP # r) = parse_glob (wide s) @ Lit SEP # parse_glob r"
    using parse_append [of "wide s" "SEP # r", unfolded parse_SEP] assms by (simp add: brackets_closed_def del: parse_glob.simps)
  moreover have "foldl add_tok [] (A @ Lit SEP # B) = foldl add_tok [] A @ Lit SEP # foldl add_tok [] B" for A B
    using squash_after_lit [of "foldl add_tok [] A" SEP B] by (simp add: add_tok_def)
  ultimately show ?thesis using compile_enc [of "[]"] by simp
qed

definition magic :: "byte list \<Rightarrow> bool" where
  "magic s \<longleftrightarrow> (\<exists>t \<in> set (parse_glob (wide s)). \<forall>c. t \<noteq> Lit c)"

lemma ismeta_simps [simp]: "ismeta M_ALL" "ismeta M_ONE" "ismeta M_SET" "plain c \<Longrightarrow> \<not> ismeta c"
proof -
  show "ismeta M_ALL" "ismeta M_ONE" "ismeta M_SET" by (simp_all add: glob_chars)
  assume "plain c"
  then have "\<not> bit c 15"
  proof -
    have "unat c < 2 ^ 8" using \<open>plain c\<close> by (simp add: plain_def word_less_nat_alt)
    then have "unat c div 2 ^ 15 = 0" by simp
    then have "\<not> bit (unat c) 15" by (simp add: bit_iff_odd)
    then show ?thesis by (simp add: bit_unsigned_iff)
  qed
  moreover have q: "M_QUOTE = 2 ^ 15" by (simp add: M_QUOTE_def)
  ultimately show "\<not> ismeta c" unfolding ismeta_def q and_exp_eq_0_iff_not_bit by simp
qed

lemma magic_compiled: "(\<exists>c \<in> set (compile_glob [] (wide s)). ismeta c) \<longleftrightarrow> magic s"
proof -
  let ?ts = "foldl add_tok [] (parse_glob (wide s))"
  have pl: "\<forall>t \<in> set ?ts. plain_tok t" using set_squash [of "[]" "parse_glob (wide s)"] plain_parse by auto
  have "(\<exists>c \<in> set (enc t). ismeta c) \<longleftrightarrow> (\<forall>c. t \<noteq> Lit c)" if "plain_tok t" for t
    using that by (cases t) auto
  then have "(\<exists>c \<in> set (concat (map enc ?ts)). ismeta c) \<longleftrightarrow> (\<exists>t \<in> set ?ts. \<forall>c. t \<noteq> Lit c)" using pl by auto
  moreover have "(\<exists>t \<in> set (foldl add_tok ts us). \<forall>c. t \<noteq> Lit c) \<longleftrightarrow> (\<exists>t \<in> set ts \<union> set us. \<forall>c. t \<noteq> Lit c)" for ts us
  proof (induction us arbitrary: ts)
    case (Cons u us)
    have "(\<exists>t \<in> set (add_tok ts u). \<forall>c. t \<noteq> Lit c) \<longleftrightarrow> (\<exists>t \<in> insert u (set ts). \<forall>c. t \<noteq> Lit c)"
      by (cases "ts" rule: rev_cases) (auto simp: add_tok_def)
    then show ?case using Cons [of "add_tok ts u"] by auto
  qed simp
  ultimately show ?thesis using compile_enc [of "[]" "wide s"] by (simp add: magic_def)
qed

lemma CHAR_of_ucast: "CHAR_of (ucast (b :: byte)) = ucast b"
proof -
  have m: "M_ASCII = mask 8" by (simp add: M_ASCII_def mask_eq_exp_minus_1)
  show ?thesis unfolding CHAR_of_def m
    by (intro bit_word_eqI) (auto simp: bit_and_iff bit_unsigned_iff bit_mask_iff dest: bit_imp_le_length)
qed

lemma ucast_Char_inj: "(ucast (a :: byte) :: Char) = ucast b \<longleftrightarrow> a = b"
proof
  assume e: "(ucast a :: Char) = ucast b"
  have "bit a n = bit b n" if "n < 8" for n
    using that arg_cong [OF e, of "\<lambda>c. bit c n"] by (simp add: bit_unsigned_iff)
  then show "a = b" by (intro bit_word_eqI) simp
qed simp

lemma one_member_chars: "set (fst (one_member c q)) \<subseteq> CHAR_of ` insert c (set q) \<union> {M_RNG} \<and> set (snd (one_member c q)) \<subseteq> set q"
  by (auto simp: one_member_def split: list.splits)

lemma set_members_chars:
  "set (fst (set_members c q)) \<subseteq> CHAR_of ` insert c (set q) \<union> {M_RNG} \<and> set (snd (set_members c q)) \<subseteq> set q"
proof (induction c q rule: set_members.induct)
  case (1 c q)
  obtain out q1 where m: "one_member c q = (out, q1)" by fastforce
  note o = one_member_chars [of c q, unfolded m fst_conv snd_conv]
  show ?case
  proof (cases q1)
    case Nil
    then show ?thesis using o m by (subst (1 2) set_members.simps) simp
  next
    case (Cons e r)
    obtain out' q' where s: "set_members e r = (out', q')" by fastforce
    have sub: "insert e (set r) \<subseteq> set q" using o Cons by auto
    show ?thesis
    proof (cases "e = RBRACKET")
      case True
      then show ?thesis using o m Cons sub by (subst (1 2) set_members.simps) auto
    next
      case False
      have "set out' \<subseteq> CHAR_of ` insert e (set r) \<union> {M_RNG}" "set q' \<subseteq> set r"
        using 1 [OF m [symmetric] Cons False] s by auto
      moreover have "CHAR_of ` insert e (set r) \<subseteq> CHAR_of ` set q" by (rule image_mono [OF sub])
      ultimately have "set out' \<subseteq> CHAR_of ` set q \<union> {M_RNG}" "set q' \<subseteq> set q" using sub by blast+
      then show ?thesis using o m Cons s False by (subst (1 2) set_members.simps) auto
    qed
  qed
qed

definition METAS :: "Char set" where "METAS = {M_ALL, M_END, M_NOT, M_ONE, M_RNG, M_SET}"

lemma bracket_chars:
  "bracket q = Some (out, rest) \<Longrightarrow> set out \<subseteq> CHAR_of ` set q \<union> METAS \<and> set rest \<subseteq> set q"
proof -
  assume b: "bracket q = Some (out, rest)"
  then obtain c r where s: "set_body q = c # r"
    and o: "out = M_SET # (if neg_set q then [M_NOT] else []) @ fst (set_members c r) @ [M_END]" "rest = snd (set_members c r)"
    by (auto simp: bracket_def split: list.splits if_splits prod.splits)
  have "insert c (set r) \<subseteq> set q" using s by (cases q) (auto simp: set_body_def split: if_splits)
  then have "CHAR_of ` insert c (set r) \<subseteq> CHAR_of ` set q" "set r \<subseteq> set q" by (auto intro: image_mono)
  then have "set (fst (set_members c r)) \<subseteq> CHAR_of ` set q \<union> {M_RNG}" "set (snd (set_members c r)) \<subseteq> set q"
    using set_members_chars [of c r] by blast+
  moreover have "M_SET \<in> METAS" "M_NOT \<in> METAS" "M_END \<in> METAS" "M_RNG \<in> METAS" by (simp_all add: METAS_def)
  ultimately show ?thesis unfolding o by (cases "neg_set q") auto
qed

lemma compile_chars: "set (compile_glob done q) \<subseteq> set done \<union> CHAR_of ` set q \<union> METAS \<union> {LBRACKET}"
proof (induction "done" q rule: compile_glob.induct)
  case (2 "done" c q)
  show ?case
  proof (cases "c = LBRACKET")
    case True
    show ?thesis
    proof (cases "bracket q")
      case None
      then show ?thesis using 2(1) [OF True None] True by auto
    next
      case (Some a)
      obtain out rest where a: "a = (out, rest)" by fastforce
      then show ?thesis using 2(2) [OF True Some a [symmetric]] bracket_chars [of q out rest] True Some by auto
    qed
  next
    case False
    then show ?thesis using 2(3,4,5) by (auto simp: METAS_def split: if_splits)
  qed
qed auto

lemma no_SEP: "slash \<notin> set s \<Longrightarrow> SEP \<notin> set (compile_glob [] (wide s))"
proof
  assume s: "slash \<notin> set s" and "SEP \<in> set (compile_glob [] (wide s))"
  then have "SEP \<in> CHAR_of ` set (wide s) \<union> METAS \<union> {LBRACKET}" using compile_chars [of "[]" "wide s"] by auto
  moreover have "SEP \<notin> METAS \<union> {LBRACKET}" by (simp add: METAS_def glob_chars)
  ultimately obtain b where b: "b \<in> set s" "SEP = ucast b" by (auto simp: wide_def CHAR_of_ucast)
  have "(ucast slash :: Char) = SEP" by (simp add: slash_def glob_chars)
  then have "(ucast b :: Char) = ucast slash" using b(2) by simp
  then have "b = slash" by (simp add: ucast_Char_inj)
  then show False using b(1) s by simp
qed

lemma compile_prefix: "\<exists>x. compile_glob done q = done @ x"
proof (induction "done" q rule: compile_glob.induct)
  case (2 "done" c q)
  then show ?case by (auto split: option.splits) (metis append_assoc)+
qed simp

lemma compile_dot: "take 1 (compile_glob [] (wide s) @ SEP # r) = [DOT] \<longleftrightarrow> take 1 s = [0x2E]"
  "take 1 (compile_glob [] (wide s)) = [DOT] \<longleftrightarrow> take 1 s = [0x2E]"
proof -
  have d: "DOT = ucast (0x2E :: byte)" "DOT \<noteq> SEP" "DOT \<noteq> LBRACKET" "DOT \<noteq> QUESTION" "DOT \<noteq> STAR" "DOT \<notin> METAS"
    by (simp_all add: METAS_def glob_chars)
  have "take 1 (compile_glob [] (wide s)) = [DOT] \<longleftrightarrow> take 1 s = [0x2E]" if s: "s = c # s'" for c s'
  proof (cases "ucast c = LBRACKET")
    case True
    then have "c \<noteq> 0x2E" using d(1,3) by auto
    moreover have "take 1 (compile_glob [] (wide s)) \<noteq> [DOT]"
    proof (cases "bracket (wide s')")
      case None
      then show ?thesis using compile_prefix [of "[LBRACKET]" "wide s'"] s True d(3) by (auto simp: wide_def)
    next
      case (Some a)
      obtain out rest where a: "a = (out, rest)" by fastforce
      then obtain out1 where "out = M_SET # out1" using Some by (auto simp: bracket_def split: list.splits if_splits prod.splits)
      then show ?thesis using compile_prefix [of out rest] s True Some a d(6) by (auto simp: wide_def METAS_def)
    qed
    ultimately show ?thesis using s by simp
  next
    case False
    have j: "ucast c = DOT \<longleftrightarrow> c = 0x2E" unfolding d(1) by (rule ucast_Char_inj)
    show ?thesis
      using compile_prefix [of "[M_ONE]" "wide s'"] compile_prefix [of "[M_ALL]" "wide s'"]
        compile_prefix [of "[ucast c]" "wide s'"] False s d j
      by (auto simp: wide_def CHAR_of_ucast METAS_def)
  qed
  moreover have "compile_glob [] (wide s) \<noteq> []" if "s \<noteq> []"
    using that compile_nonempty [of "[]" "wide s"] by (simp add: wide_def)
  ultimately show "take 1 (compile_glob [] (wide s)) = [DOT] \<longleftrightarrow> take 1 s = [0x2E]"
    "take 1 (compile_glob [] (wide s) @ SEP # r) = [DOT] \<longleftrightarrow> take 1 s = [0x2E]"
    using d(2) by (cases s; cases "compile_glob [] (wide s)"; simp add: wide_def)+
qed

lemma compile_plain: "\<not> magic s \<Longrightarrow> compile_glob done (wide s) = done @ wide s"
proof (induction s arbitrary: "done")
  case (Cons c s)
  have ns: "\<not> magic s" if "parse_glob (wide (c # s)) = t # parse_glob (wide s)" for t
    using Cons.prems that by (auto simp: magic_def)
  show ?case
  proof (cases "ucast c = LBRACKET")
    case True
    have n: "class_tok (wide s) = None"
    proof (cases "class_tok (wide s)")
      case (Some a)
      obtain t rest where a: "a = (t, rest)" by fastforce
      then have "\<forall>c. t \<noteq> Lit c" using Some by (auto simp: class_tok_def split: list.splits if_splits)
      then show ?thesis using Cons.prems True Some a by (auto simp: magic_def wide_def)
    qed
    then have "\<not> magic s" using ns True by (simp add: wide_def)
    then show ?thesis using Cons.IH [of "done @ [LBRACKET]"] True n by (simp add: wide_def bracket_enc)
  next
    case False
    have "STAR \<noteq> QUESTION" by (simp add: glob_chars)
    then have "ucast c \<noteq> QUESTION" "ucast c \<noteq> STAR" using Cons.prems False by (auto simp: magic_def wide_def)
    then show ?thesis using Cons.IH [of "done @ [ucast c]"] ns False by (simp add: wide_def CHAR_of_ucast)
  qed
qed (simp add: wide_def)

text \<open>
  What a pattern of components stands for, in directories with the names \<open>D\<close>: a component without special characters
  for itself, another one for every name that it matches, where a leading dot must be there literally.
\<close>

definition sep_before :: "byte list list \<Rightarrow> byte list" where
  "sep_before ss = (if ss = [] then [] else [slash])"

inductive walks :: "(byte list \<Rightarrow> byte list list option) \<Rightarrow> byte list \<Rightarrow> byte list list \<Rightarrow> byte list \<Rightarrow> bool"
  for D :: "byte list \<Rightarrow> byte list list option" where
  walks_end: "walks D p [] p"
| walks_plain: "\<not> magic s \<Longrightarrow> walks D (p @ s @ sep_before ss) ss q \<Longrightarrow> walks D p (s # ss) q"
| walks_magic: "magic s \<Longrightarrow> D (if p = [] then [0x2E] else p) = Some names \<Longrightarrow> name \<in> set names \<Longrightarrow>
    (take 1 name = [0x2E] \<longrightarrow> take 1 s = [0x2E]) \<Longrightarrow> tok_matches (parse_glob (wide s)) (wide name) \<Longrightarrow>
    walks D (p @ name @ sep_before ss) ss q \<Longrightarrow> walks D p (s # ss) q"

inductive_cases walks_nilE: "walks D p [] q"
inductive_cases walks_ConsE: "walks D p (s # ss) q"

lemma walks_nil: "walks D p [] q \<longleftrightarrow> q = p"
  by (auto elim: walks_nilE intro: walks_end)

lemma walks_plain_iff: "\<not> magic s \<Longrightarrow> walks D p (s # ss) q \<longleftrightarrow> walks D (p @ s @ sep_before ss) ss q"
  by (auto elim: walks_ConsE intro: walks_plain)

lemma walks_magic_iff:
  "magic s \<Longrightarrow> walks D p (s # ss) q \<longleftrightarrow> (\<exists>names name. D (if p = [] then [0x2E] else p) = Some names \<and> name \<in> set names \<and>
     (take 1 name = [0x2E] \<longrightarrow> take 1 s = [0x2E]) \<and> tok_matches (parse_glob (wide s)) (wide name) \<and>
     walks D (p @ name @ sep_before ss) ss q)"
  (is "_ \<Longrightarrow> _ \<longleftrightarrow> ?step")
proof
  assume m: "magic s" and w: "walks D p (s # ss) q"
  from w show ?step unfolding One_nat_def by (rule walks_ConsE) (use m in blast)+
next
  assume "magic s" ?step
  then show "walks D p (s # ss) q" by (elim exE conjE) (rule walks_magic)
qed

text \<open>The components of a pattern with single slashes between them.\<close>

fun joined :: "byte list list \<Rightarrow> byte list" where
  "joined [] = []"
| "joined [s] = s"
| "joined (s # ss) = s @ slash # joined ss"

definition compiled :: "byte list list \<Rightarrow> Char list" where
  "compiled ss = compile_glob [] (wide (joined ss))"

definition component :: "byte list \<Rightarrow> bool" where
  "component s \<longleftrightarrow> slash \<notin> set s \<and> brackets_closed s"

lemma narrow_wide: "(ucast (ucast (b :: byte) :: Char) :: byte) = b"
  by (rule bit_word_eqI) (simp add: bit_unsigned_iff)

lemma wide_simps [simp]: "wide [] = []" "wide (s @ t) = wide s @ wide t" "wide [slash] = [SEP]" "g_Ctoc (wide s) = s"
  "wide s = [] \<longleftrightarrow> s = []" "wide (slash # s) = SEP # wide s"
  by (simp_all add: wide_def slash_def glob_chars g_Ctoc_def comp_def narrow_wide)

lemma compiled_Cons:
  assumes "component s"
  shows "compiled (s # ss) = compile_glob [] (wide s) @ (if ss = [] then [] else SEP # compiled ss)"
  using compile_component [of s] assms by (cases ss) (simp_all add: compiled_def component_def)

lemma compiled_head:
  assumes "component s" "s \<noteq> []"
  shows "takeWhile (\<lambda>c. c = SEP) (compiled (s # ss)) = []"
proof -
  have "compile_glob [] (wide s) \<noteq> []" using assms(2) by (intro compile_nonempty) simp
  moreover have "SEP \<notin> set (compile_glob [] (wide s))" using assms by (intro no_SEP) (simp add: component_def)
  ultimately show ?thesis unfolding compiled_Cons [OF assms(1)] by (cases "compile_glob [] (wide s)") auto
qed

lemma segment_compiled:
  assumes "component s"
  shows "segment (compiled (s # ss)) = compile_glob [] (wide s)"
    "behind (compiled (s # ss)) = (if ss = [] then [] else SEP # compiled ss)"
proof -
  have n: "SEP \<notin> set (compile_glob [] (wide s))" using assms by (intro no_SEP) (simp add: component_def)
  then have "takeWhile (\<lambda>c. c \<noteq> SEP) (compile_glob [] (wide s) @ r) = compile_glob [] (wide s) @ takeWhile (\<lambda>c. c \<noteq> SEP) r"
    "dropWhile (\<lambda>c. c \<noteq> SEP) (compile_glob [] (wide s) @ r) = dropWhile (\<lambda>c. c \<noteq> SEP) r" for r
    by (intro takeWhile_append2 dropWhile_append2; auto)+
  then show "segment (compiled (s # ss)) = compile_glob [] (wide s)"
    "behind (compiled (s # ss)) = (if ss = [] then [] else SEP # compiled ss)"
    by (simp_all add: segment_def behind_def compiled_Cons [OF assms])
qed

text \<open>The slash that is left of the pattern after a name.\<close>

lemma leads_slash:
  assumes "ss \<noteq> []" "\<forall>s \<in> set ss. component s \<and> s \<noteq> []"
  shows "leads D p (SEP # compiled ss) q \<longleftrightarrow> leads D (p @ [SEP]) (compiled ss) q"
proof -
  obtain s ss' where ss: "ss = s # ss'" using assms(1) by (cases ss) auto
  have t: "takeWhile (\<lambda>c. c = SEP) (compiled ss) = []" using compiled_head [of s ss'] assms(2) ss by simp
  then have d: "dropWhile (\<lambda>c. c = SEP) (compiled ss) = compiled ss" by (metis append_Nil takeWhile_dropWhile_id)
  have "segment (SEP # compiled ss) = []" "behind (SEP # compiled ss) = SEP # compiled ss"
    by (simp_all add: segment_def behind_def)
  then show ?thesis using leads_literal_iff [of SEP "compiled ss" D p q] t d by simp
qed

lemma leads_sep:
  assumes "\<forall>s \<in> set ss. component s \<and> s \<noteq> []"
  shows "leads D p (if ss = [] then [] else SEP # compiled ss) q \<longleftrightarrow> leads D (p @ wide (sep_before ss)) (compiled ss) q"
  using leads_slash [of ss D p q] assms by (cases ss) (simp_all add: sep_before_def compiled_def)

lemma leads_walks:
  assumes "\<forall>s \<in> set ss. component s" "\<forall>s \<in> set (tl ss). s \<noteq> []" "ss \<noteq> [[]]"
  shows "leads D (wide p) (compiled ss) q \<longleftrightarrow> (\<exists>r. q = wide r \<and> walks D p ss r)"
  using assms
proof (induction ss arbitrary: p)
  case Nil
  then show ?case by (auto simp: compiled_def leads_nil walks_nil)
next
  case (Cons s ss)
  have cs: "component s" "\<forall>s \<in> set ss. component s \<and> s \<noteq> []" using Cons.prems by auto
  then have IH: "leads D (wide p) (compiled ss) q \<longleftrightarrow> (\<exists>r. q = wide r \<and> walks D p ss r)" for p
    using Cons.IH [of p] by (cases ss) auto
  let ?c = "compiled (s # ss)" and ?rest = "if ss = [] then [] else SEP # compiled ss"
  have "compile_glob [] (wide s) \<noteq> [] \<or> ss \<noteq> []" using Cons.prems(3) compile_nonempty [of "[]" "wide s"] by (cases "s = []") auto
  then have "?c \<noteq> []" unfolding compiled_Cons [OF cs(1)] by auto
  then obtain c0 cs0 where c: "?c = c0 # cs0" by (cases ?c) auto
  note seg = segment_compiled [OF cs(1), of ss]
  have sep: "leads D x ?rest q \<longleftrightarrow> leads D (x @ wide (sep_before ss)) (compiled ss) q" for x by (rule leads_sep [OF cs(2)])
  show ?case
  proof (cases "magic s")
    case False
    then have nm: "\<not> (\<exists>c \<in> set (segment (c0 # cs0)). ismeta c)" using seg magic_compiled [of s] c by simp
    have cp: "compile_glob [] (wide s) = wide s" using compile_plain [OF False, of "[]"] by simp
    have tw: "takeWhile (\<lambda>c. c = SEP) ?rest = wide (sep_before ss)" "dropWhile (\<lambda>c. c = SEP) ?rest = compiled ss"
    proof -
      have "takeWhile (\<lambda>c. c = SEP) (compiled ss) = []" if "ss \<noteq> []"
        using that compiled_head [of "hd ss" "tl ss"] cs(2) by (cases ss) auto
      then have "takeWhile (\<lambda>c. c = SEP) (compiled ss) = [] \<and> dropWhile (\<lambda>c. c = SEP) (compiled ss) = compiled ss" if "ss \<noteq> []"
        using that by (metis append_Nil takeWhile_dropWhile_id)
      then show "takeWhile (\<lambda>c. c = SEP) ?rest = wide (sep_before ss)" "dropWhile (\<lambda>c. c = SEP) ?rest = compiled ss"
        by (auto simp: sep_before_def compiled_def)
    qed
    have "leads D (wide p) ?c q \<longleftrightarrow> leads D (wide (p @ s @ sep_before ss)) (compiled ss) q"
      using leads_literal_iff [OF nm, of D "wide p" q] seg c cp tw by simp
    then show ?thesis using IH [of "p @ s @ sep_before ss"] walks_plain_iff [OF False] by simp
  next
    case True
    then have m: "\<exists>c \<in> set (segment (c0 # cs0)). ismeta c" using seg magic_compiled [of s] c by simp
    have mg: "match_glob (wide n) ?c (length (segment ?c)) = tok_matches (parse_glob (wide s)) (wide n)" for n
      unfolding seg(1) unfolding compiled_Cons [OF cs(1)] by (rule match_compiled)
    have vis: "may_show n ?c \<longleftrightarrow> (take 1 n = [0x2E] \<longrightarrow> take 1 s = [0x2E])" for n
      unfolding may_show_def compiled_Cons [OF cs(1)] using compile_dot [of s] by (cases ss) auto
    have dn: "dir_name (wide p) = (if p = [] then [0x2E] else p)" by (simp add: dir_name_def)
    have step: "leads D (wide p) ?c q \<longleftrightarrow> (\<exists>names name. D (dir_name (wide p)) = Some names \<and> name \<in> set names
        \<and> may_show name ?c \<and> match_glob (wide name) ?c (length (segment ?c)) \<and> leads D (wide p @ wide name) (behind ?c) q)"
      using leads_name_iff [OF m, of D "wide p" q] c by simp
    have beh: "leads D (wide p @ wide n) (behind ?c) q \<longleftrightarrow> (\<exists>r. q = wide r \<and> walks D (p @ n @ sep_before ss) ss r)" for n
    proof -
      have "leads D (wide p @ wide n) (behind ?c) q \<longleftrightarrow> leads D (wide (p @ n @ sep_before ss)) (compiled ss) q"
        unfolding seg(2) sep by simp
      then show ?thesis unfolding IH .
    qed
    show ?thesis unfolding step beh vis mg dn walks_magic_iff [OF True] by blast
  qed
qed

section \<open>Room in the buffers\<close>

lemma one_member_size: "length (fst (one_member c q)) + length (snd (one_member c q)) = Suc (length q)"
  by (auto simp: one_member_def split: list.splits)

lemma set_members_size: "length (fst (set_members c q)) + length (snd (set_members c q)) \<le> Suc (length q)"
proof (induction c q rule: set_members.induct)
  case (1 c q)
  obtain out q1 where o: "one_member c q = (out, q1)" by fastforce
  then have l: "length out + length q1 = Suc (length q)" using one_member_size [of c q] by simp
  show ?case
  proof (cases q1)
    case Nil
    then show ?thesis using o l by (subst (1 2) set_members.simps) simp
  next
    case (Cons e r)
    then show ?thesis using o l "1.IH" [OF o [symmetric] Cons] by (subst (1 2) set_members.simps) (auto split: prod.splits)
  qed
qed

lemma set_members_end:
  "RBRACKET \<in> set q \<Longrightarrow> length (fst (set_members c q)) + length (snd (set_members c q)) \<le> length q"
proof (induction c q rule: set_members.induct)
  case (1 c q)
  obtain out q1 where o: "one_member c q = (out, q1)" by fastforce
  have l: "length out + length q1 = Suc (length q)" using o one_member_size [of c q] by simp
  have m: "RBRACKET \<in> set q1" using o "1.prems" by (auto simp: one_member_def glob_chars split: list.splits if_splits)
  then obtain e r where q1: "q1 = e # r" by (cases q1) auto
  show ?case
  proof (cases "e = RBRACKET")
    case True
    then show ?thesis using o l q1 by (subst (1 2) set_members.simps) simp
  next
    case False
    then have "RBRACKET \<in> set r" using m q1 by auto
    then show ?thesis using o l q1 False "1.IH" [OF o [symmetric] q1 False]
      by (subst (1 2) set_members.simps) (auto split: prod.splits)
  qed
qed

lemma bracket_size: "bracket q = Some (out, rest) \<Longrightarrow> length out + length rest \<le> Suc (length q)"
proof -
  assume b: "bracket q = Some (out, rest)"
  then obtain c r where q: "set_body q = c # r" "RBRACKET \<in> set r"
    and o: "out = M_SET # (if neg_set q then [M_NOT] else []) @ fst (set_members c r) @ [M_END]" "rest = snd (set_members c r)"
    by (auto simp: bracket_def split: list.splits if_splits prod.splits)
  have "length q = Suc (length r) + (if neg_set q then 1 else 0)"
  proof (cases "neg_set q")
    case True
    then show ?thesis using q(1) by (cases q) (auto simp: neg_set_def set_body_def)
  qed (use q(1) in \<open>simp add: set_body_def\<close>)
  then show ?thesis using o set_members_end [OF q(2), of c] by auto
qed

text \<open>The compiled pattern is not longer than the pattern, as its buffer needs.\<close>

lemma compile_size: "length (compile_glob done q) \<le> length done + length q"
proof (induction "done" q rule: compile_glob.induct)
  case (2 "done" c q)
  show ?case
  proof (cases "c = LBRACKET")
    case True
    show ?thesis
    proof (cases "bracket q")
      case None
      then show ?thesis using 2(1) [OF True None] True by simp
    next
      case (Some a)
      obtain out rest where a: "a = (out, rest)" by fastforce
      then show ?thesis using 2(2) [OF True Some a [symmetric]] bracket_size [of q out rest] Some True by simp
    qed
  next
    case False
    then show ?thesis using 2(3,4,5) by (auto split: if_splits)
  qed
qed simp

text \<open>The room that the rest of a pattern can need behind a path, with names of at most \<open>N\<close> bytes.\<close>

definition seps :: "Char list \<Rightarrow> nat" where
  "seps pat = length (filter (\<lambda>c. c = SEP) pat)"

definition room :: "nat \<Rightarrow> Char list \<Rightarrow> nat" where
  "room N pat = length pat + N * (if take 1 pat \<in> {[], [SEP]} then seps pat else Suc (seps pat))"

lemma room_ge: "length pat + N * seps pat \<le> room N pat"
  by (simp add: room_def)

lemma room_le: "r = [] \<or> seps r < n \<Longrightarrow> room N r \<le> length r + N * n"
  using mult_le_mono2 [of "seps r" n N] mult_le_mono2 [of "Suc (seps r)" n N] by (auto simp: room_def seps_def)

lemma each_name_returns:
  assumes "\<And>name gs. name \<in> set names \<Longrightarrow> \<exists>r. nxt (p @ wide name) gs = Inr r"
    "\<And>name. name \<in> set names \<Longrightarrow> length p + length name \<le> MAXPATHLEN"
  shows "\<exists>r. each_name p pat n nxt names gs = Inr r"
  using assms
proof (induction names arbitrary: gs)
  case (Cons name names)
  obtain err gs1 where n: "nxt (p @ wide name) gs = Inr (err, gs1)" using Cons.prems(1) [of name gs] by auto
  have "\<exists>r. each_name p pat n nxt names gs = Inr r" for gs using Cons.prems by (intro Cons.IH) auto
  then show ?case using n Cons.prems(2) [of name] by (auto simp: not_less)
qed simp

lemma segment_split: "pat = segment pat @ behind pat" "seps (segment pat) = 0"
proof -
  show "pat = segment pat @ behind pat" by (simp add: segment_def behind_def)
  show "seps (segment pat) = 0" by (auto simp: seps_def segment_def filter_empty_conv dest: set_takeWhileD)
qed

lemma behind_starts: "take 1 (behind pat) \<in> {[], [SEP]}"
  by (induction pat) (auto simp: behind_def)

lemma room_behind: "room N (behind pat) = length (behind pat) + N * seps pat"
proof -
  have "seps pat = seps (segment pat) + seps (behind pat)"
    using segment_split(1) [of pat] unfolding seps_def by (metis filter_append length_append)
  then show ?thesis using behind_starts [of pat] segment_split(2) [of pat] by (simp add: room_def)
qed

lemma glob2_returns:
  assumes "constant_fs G D E" "\<forall>p names. D p = Some names \<longrightarrow> (\<forall>name \<in> set names. length name \<le> N)"
    "length p + room N pat < MAXPATHLEN"
  shows "\<exists>r. glob2 G p pat gs = Inr r"
  using assms
proof (induction G p pat gs rule: glob2.induct)
  case (1 G p gs)
  then show ?case by (auto simp: glob2.simps glob_end_def to_buf_def split: prod.splits option.splits)
next
  case (2 G p c cs gs)
  let ?pat = "c # cs"
  let ?s = "takeWhile (\<lambda>c. c = SEP) (behind ?pat)" and ?r = "dropWhile (\<lambda>c. c = SEP) (behind ?pat)"
  note eq = glob2.simps(2) [of G p c cs gs, folded segment_def behind_def, unfolded Let_def]
  have lp: "length p + length ?pat + N * seps ?pat < MAXPATHLEN"
    using "2.prems"(3) room_ge [of ?pat N] by simp
  have len: "length ?pat = length (segment ?pat) + length (behind ?pat)" "length (behind ?pat) = length ?s + length ?r"
    by (simp_all add: segment_split(1) [symmetric] flip: length_append)
  show ?case
  proof (cases "\<exists>c \<in> set (segment ?pat). ismeta c")
    case False
    have sp: "seps ?pat = length ?s + seps ?r"
    proof -
      have "filter (\<lambda>c. c = SEP) ?s = ?s" by (auto simp: filter_id_conv dest: set_takeWhileD)
      then have "seps (behind ?pat) = length ?s + seps ?r"
        unfolding seps_def by (metis filter_append length_append takeWhile_dropWhile_id)
      moreover have "seps ?pat = seps (segment ?pat) + seps (behind ?pat)"
        using segment_split(1) [of ?pat] unfolding seps_def by (metis filter_append length_append)
      ultimately show ?thesis using segment_split(2) [of ?pat] by simp
    qed
    have "?r = [] \<or> ?s \<noteq> []" using behind_starts [of ?pat] by (cases "behind ?pat") auto
    then have "room N ?r \<le> length ?r + N * seps ?pat" using sp by (intro room_le) auto
    then have "length (p @ segment ?pat @ ?s) + room N ?r < MAXPATHLEN" using lp len by simp
    then have "\<exists>r. glob2 G (p @ segment ?pat @ ?s) ?r gs = Inr r"
      using "2.IH"(2) [OF refl refl refl] False "2.prems" lp len by (simp add: segment_def behind_def not_less)
    then show ?thesis using False lp len unfolding eq by simp
  next
    case True
    then have "segment ?pat \<noteq> []" by auto
    then have "take 1 ?pat \<notin> {[], [SEP]}" by (simp add: segment_def split: if_splits)
    then have rm: "length p + length ?pat + N * seps ?pat + N < MAXPATHLEN" using "2.prems"(3) by (simp add: room_def)
    have nx: "\<exists>r. glob2 G (p @ wide name) (behind ?pat) gs = Inr r" if "length name \<le> N" for name gs
    proof -
      have "length (wide name) = length name" by (simp add: wide_def)
      then have "length (p @ wide name) + room N (behind ?pat) < MAXPATHLEN"
        using that rm len by (simp add: room_behind)
      then show ?thesis using "2.IH"(1) [OF refl refl refl, of "p @ wide name" gs] True "2.prems" rm len
        by (simp add: segment_def behind_def not_less)
    qed
    obtain gl s where gs: "gs = (gl, s)" by fastforce
    have d: "(if p = [] then Inr [0x2E] else to_buf p) = Inr (dir_name p)"
      using rm by (auto simp: dir_name_def to_buf_def)
    obtain o1 s1 where o1: "gl_opendir G (dir_name p) s = (o1, s1)" by fastforce
    then have D: "D (dir_name p) = o1" using "2.prems"(1) unfolding constant_fs_def by (metis fst_conv)
    have ef: "gl_errfunc G = None" using "2.prems"(1) by (simp add: constant_fs_def)
    have "\<exists>r. glob3 G p ?pat (length (segment ?pat)) (\<lambda>p gs. glob2 G p (behind ?pat) gs) gs = Inr r"
    proof (cases o1)
      case None
      then show ?thesis unfolding gs glob3_def prod.case d by (simp add: o1 ef)
    next
      case (Some names)
      then have short: "length name \<le> N" if "name \<in> set names" for name using "2.prems"(2) D that by blast
      then have "\<exists>r. each_name p ?pat (length (segment ?pat)) (\<lambda>p gs. glob2 G p (behind ?pat) gs) names (gl, s1) = Inr r"
        using rm by (intro each_name_returns nx) (auto dest!: short)
      then show ?thesis using Some unfolding gs glob3_def prod.case d by (simp add: o1)
    qed
    then show ?thesis using True rm len unfolding eq by simp
  qed
qed

lemma room_compiled:
  assumes "\<forall>s \<in> set ss. component s"
  shows "seps (compiled ss) \<le> length ss - 1"
  using assms
proof (induction ss)
  case Nil
  then show ?case by (simp add: compiled_def seps_def)
next
  case (Cons s ss)
  have "SEP \<notin> set (compile_glob [] (wide s))" using Cons.prems by (intro no_SEP) (simp add: component_def)
  then have "seps (compile_glob [] (wide s)) = 0" by (auto simp: seps_def filter_empty_conv)
  then show ?case using Cons compiled_Cons [of s ss] by (cases ss) (auto simp: seps_def)
qed

lemma glob_returns:
  assumes G: "constant_fs G D E" and fl: "\<not> GLOB_QUOTE G"
    and short: "\<forall>p names. D p = Some names \<longrightarrow> (\<forall>name \<in> set names. length name \<le> N)"
    and ss: "\<forall>s \<in> set ss. component s" and len: "length (joined ss) + N * length ss < MAXPATHLEN"
  shows "\<exists>r. glob G (joined ss) old s = Inr r"
proof -
  have "length (compiled ss) \<le> length (joined ss)" using compile_size [of "[]" "wide (joined ss)"] by (simp add: compiled_def wide_def)
  moreover have "room N (compiled ss) \<le> length (compiled ss) + N * length ss"
  proof (cases ss)
    case Nil
    then show ?thesis by (simp add: compiled_def room_def seps_def)
  next
    case (Cons s ss')
    have "Suc (seps (compiled ss)) \<le> length ss" "seps (compiled ss) \<le> length ss" using room_compiled [OF ss] Cons by simp_all
    then show ?thesis using mult_le_mono2 [of "seps (compiled ss)" "length ss" N]
        mult_le_mono2 [of "Suc (seps (compiled ss))" "length ss" N]
      unfolding room_def by (simp split: if_splits)
  qed
  ultimately have "length ([] :: Char list) + room N (compiled ss) < MAXPATHLEN" using len by simp
  then have "\<exists>r. glob2 G [] (compiled ss) gs = Inr r" for gs by (rule glob2_returns [OF G short])
  then have "\<exists>r. glob1 G (compiled ss) gs = Inr r" for gs by (simp add: glob1_def)
  then obtain err gl s' where "glob1 G (compiled ss) (\<lparr> gl_pathv = old, gl_matchc = 0 \<rparr>, s) = Inr (err, gl, s')" by (metis prod_cases3)
  moreover have "take MAXPATHLEN (wide (joined ss)) = wide (joined ss)" using len by (simp add: wide_def)
  ultimately show ?thesis using fl by (simp add: glob_def glob0_def Let_def compiled_def)
qed

text \<open>C39: \<open>glob\<close> on a pattern of non-empty components with single slashes between them, whose brackets are closed in their
  components, in a file system that does not change: it returns 0, and the paths that it has found are sorted and are exactly
  those that exist and that the pattern stands for: every component without special characters is taken as it is, and
  every other one stands for each name of the directory at hand that it matches, character by character, where a leading
  dot must be there literally.  \<open>N\<close> bounds the names, so that the paths have room in \<open>pathbuf\<close>.  Without
  \<open>GLOB_NOCHECK\<close>, \<open>GLOB_NOMAGIC\<close>, \<open>GLOB_NOSORT\<close>, \<open>GLOB_QUOTE\<close>, \<open>GLOB_MARK\<close> and an error function.
\<close>

theorem glob_paths:
  assumes "constant_fs G D E" "\<not> GLOB_NOCHECK G" "\<not> GLOB_NOMAGIC G" "\<not> GLOB_NOSORT G" "\<not> GLOB_QUOTE G"
    "ss \<noteq> []" "\<forall>s \<in> set ss. slash \<notin> set s \<and> brackets_closed s" "\<forall>s \<in> set (tl ss). s \<noteq> []" "ss \<noteq> [[]]"
    "\<forall>p names. D p = Some names \<longrightarrow> (\<forall>name \<in> set names. length name \<le> N)"
    "length (joined ss) + N * length ss < MAXPATHLEN"
  shows "\<exists>gl s'. glob G (joined ss) [] s = Inr (0, gl, s') \<and> sorted (gl_pathv gl)
    \<and> set (gl_pathv gl) = {p. walks D [] ss p \<and> E p \<noteq> None}"
proof -
  have "\<exists>r. glob G (joined ss) [] s = Inr r"
    by (rule glob_returns [OF assms(1,5,10) _ assms(11)]) (use assms(7) in \<open>simp add: component_def\<close>)
  then obtain err gl s' where r: "glob G (joined ss) [] s = Inr (err, gl, s')" by (metis prod_cases3)
  have ne: "joined ss \<noteq> []" using assms(6,9) by (cases ss; cases "tl ss") auto
  have len: "length (joined ss) \<le> MAXPATHLEN" using assms(11) by simp
  note g = glob_exact [OF assms(1-5) ne len r]
  have "leads D [] (compile_glob [] (wide (joined ss))) q \<longleftrightarrow> (\<exists>r. q = wide r \<and> walks D [] ss r)" for q
    using leads_walks [of ss D "[]" q] assms(6-9) by (simp add: compiled_def component_def)
  then have "{g_Ctoc q |q. leads D [] (compile_glob [] (wide (joined ss))) q \<and> E (g_Ctoc q) \<noteq> None} = {p. walks D [] ss p \<and> E p \<noteq> None}"
    by auto (metis wide_simps(4))
  then show ?thesis using g r by auto
qed

text \<open>In a directory with the files \<open>b.c\<close>, \<open>.d.c\<close>, \<open>a.c\<close> and \<open>a.h\<close>, the pattern \<open>*.c\<close>.\<close>

definition sample_names :: "byte list \<Rightarrow> byte list list option" where
  "sample_names p = (if p = [0x2E] then Some [[0x62, 0x2E, 0x63], [0x2E, 0x64, 0x2E, 0x63], [0x61, 0x2E, 0x63], [0x61, 0x2E, 0x68]] else None)"

definition sample_globfs :: "unit globfs" where
  "sample_globfs = \<lparr> gl_opendir = (\<lambda>p s. (sample_names p, s)),
     gl_lstat = (\<lambda>p s. (Some 0x8000, s)), gl_stat = (\<lambda>p s. (Some 0x8000, s)), gl_errfunc = None, GLOB_ERR = False,
     GLOB_MARK = False, GLOB_NOCHECK = False, GLOB_NOMAGIC = False, GLOB_NOSORT = False, GLOB_QUOTE = False \<rparr>"

lemma sample_glob:
  "glob sample_globfs [0x2A, 0x2E, 0x63] [] () = Inr (0, \<lparr> gl_pathv = [[0x61, 0x2E, 0x63], [0x62, 0x2E, 0x63]], gl_matchc = 2 \<rparr>, ())"
  by code_simp

theorem glob_paths_witness:
  "glob sample_globfs [0x2A, 0x2E, 0x63] [] () = Inr (0, \<lparr> gl_pathv = [[0x61, 0x2E, 0x63], [0x62, 0x2E, 0x63]], gl_matchc = 2 \<rparr>, ())
    \<and> {p. walks sample_names [] [[0x2A, 0x2E, 0x63]] p} = {[0x61, 0x2E, 0x63], [0x62, 0x2E, 0x63]}"
proof -
  have c: "constant_fs sample_globfs sample_names (\<lambda>p. Some 0x8000)" by (simp add: constant_fs_def sample_globfs_def)
  have b: "brackets_closed [0x2A, 0x2E, 0x63]" by code_simp
  have "\<exists>gl s'. glob sample_globfs (joined [[0x2A, 0x2E, 0x63]]) [] () = Inr (0, gl, s') \<and> sorted (gl_pathv gl)
    \<and> set (gl_pathv gl) = {p. walks sample_names [] [[0x2A, 0x2E, 0x63]] p \<and> Some (0x8000 :: u32) \<noteq> None}"
    by (rule glob_paths [OF c, where N = 4]) (use b in \<open>auto simp: sample_globfs_def sample_names_def slash_def MAXPATHLEN_def split: if_splits\<close>)
  then show ?thesis using sample_glob by auto
qed

end
