(* ===== verification/Interactive.thy ===== *)
theory Interactive
  imports Restore_Acts Glob
begin

text \<open>
  The commands of an interactive restore (restore/interactive.c): the words of a command line (\<open>copynext\<close>, \<open>getcmd\<close>), the path that a
  word names (\<open>canon\<close>), \<open>glob\<close> over the directories of the tape, the listing of a directory (\<open>printlist\<close>, \<open>mkentry\<close>,
  \<open>formatf\<close>), and \<open>runcmdshell\<close>.  A word in any spelling names the path it is meant to; a listing shows every entry once.
\<close>

section \<open>Words of a command line\<close>

definition blank :: "byte \<Rightarrow> bool" where
  "blank c \<longleftrightarrow> c = 0x20 \<or> c = 0x09"

definition backslash :: byte where "backslash = 0x5C"

definition is_quote :: "byte \<Rightarrow> bool" where
  "is_quote c \<longleftrightarrow> c = 0x27 \<or> c = 0x22"

text \<open>\<open>copynext\<close>: the word that is copied to the output and what is left of the input; strings without their NUL.\<close>

function copynext_loop :: "byte list \<Rightarrow> byte list \<Rightarrow> byte list \<times> byte list" where
  "copynext_loop out [] = (out, [])"
| "copynext_loop out (c # s) =
     (if blank c then (out, c # s)
      else if c = backslash then (case s of [] \<Rightarrow> copynext_loop out [] | d # s' \<Rightarrow> copynext_loop (out @ [d]) s')
      else if \<not> is_quote c then copynext_loop (out @ [c]) s
      else copynext_loop (out @ takeWhile (\<lambda>d. d \<noteq> c) s) (drop 1 (dropWhile (\<lambda>d. d \<noteq> c) s)))"
  by pat_completeness auto
termination
proof (relation "measure (\<lambda>(out, s). length s)")
  fix out s and c :: byte
  have "length (drop 1 (dropWhile (\<lambda>d. d \<noteq> c) s)) < length (c # s)"
    using length_dropWhile_le [of "\<lambda>d. d \<noteq> c" s] by simp
  then show "((out @ takeWhile (\<lambda>d. d \<noteq> c) s, drop 1 (dropWhile (\<lambda>d. d \<noteq> c) s)), (out, c # s)) \<in> measure (\<lambda>(out, s). length s)"
    by simp
qed auto

definition copynext :: "byte list \<Rightarrow> byte list \<times> byte list" where
  "copynext input = copynext_loop [] (dropWhile blank input)"


section \<open>Names\<close>

text \<open>
  \<open>canon\<close>.  Its first loop takes out repeated slashes, then a slash at the end goes.
\<close>

function squeeze :: "byte list \<Rightarrow> byte list" where
  "squeeze [] = []"
| "squeeze (c # s) = c # squeeze (if c = slash then dropWhile (\<lambda>d. d = slash) s else s)"
  by pat_completeness auto
termination
proof (relation "measure length")
  fix s and c :: byte
  show "(if c = slash then dropWhile (\<lambda>d. d = slash) s else s, c # s) \<in> measure length"
    using length_dropWhile_le [of "\<lambda>d. d = slash" s] by simp
qed simp

definition no_slash_end :: "byte list \<Rightarrow> byte list" where
  "no_slash_end s = (if s \<noteq> [] \<and> last s = slash then butlast s else s)"

text \<open>
  The second loop: \<open>pre\<close> is what stands before \<open>np\<close>, the second argument the rest.  For \<open>..\<close> the code goes back
  from \<open>cp\<close> to the last slash, but not before the second character.
\<close>

function cut_back :: "byte list \<Rightarrow> byte list" where
  "cut_back pre = (if length pre > 1 then (if last pre = slash then butlast pre else cut_back (butlast pre)) else pre)"
  by pat_completeness auto
termination by (relation "measure length") auto

declare cut_back.simps [simp del]

function dot_loop :: "byte list \<Rightarrow> byte list \<Rightarrow> byte list" where
  "dot_loop pre [] = pre"
| "dot_loop pre (c # s) =
     (let comp = takeWhile (\<lambda>d. d \<noteq> slash) s; rest = dropWhile (\<lambda>d. d \<noteq> slash) s
      in if comp = [0x2E] then dot_loop pre rest
         else if comp = [0x2E, 0x2E] then dot_loop (cut_back pre) rest
         else dot_loop (pre @ c # comp) rest)"
  by pat_completeness auto
termination
proof (relation "measure (\<lambda>(pre, s). length s)")
qed (auto simp: less_Suc_eq_le length_dropWhile_le)

definition canon :: "byte list \<Rightarrow> nat \<Rightarrow> restore_stop + byte list" where
  "canon rawname len =
     (let start = (if rawname = [0x2E] \<or> take 2 rawname = [0x2E, slash] then []
                   else if take 1 rawname = [slash] then [0x2E] else [0x2E, slash])
      in if length start + length rawname \<ge> len then Inl Exit_1
         else Inr (dot_loop [] (no_slash_end (squeeze (start @ rawname)))))"

text \<open>
  What it is for: the components one after the other, \<open>.\<close> and empty ones left out, \<open>..\<close> for the directory above,
  that of the root being the root.
\<close>

fun resolved :: "byte list list \<Rightarrow> byte list list \<Rightarrow> byte list list" where
  "resolved done [] = done"
| "resolved done (n # ns) =
     (if n = [] \<or> n = [0x2E] then resolved done ns
      else if n = [0x2E, 0x2E] then resolved (butlast done) ns
      else resolved (done @ [n]) ns)"

lemma resolved_filter: "resolved done (filter (\<lambda>n. n \<noteq> []) ns) = resolved done ns"
  by (induction "done" ns rule: resolved.induct) auto

lemma strsep_all_no_slash: "n \<in> set (strsep_all s) \<Longrightarrow> slash \<notin> set n"
proof (induction s arbitrary: n)
  case (Cons b s)
  then show ?case by (cases "strsep_all s") (auto split: if_splits)
qed simp

lemma strsep_all_split:
  "strsep_all s = takeWhile (\<lambda>d. d \<noteq> slash) s # (case dropWhile (\<lambda>d. d \<noteq> slash) s of [] \<Rightarrow> [] | c # r \<Rightarrow> strsep_all r)"
proof (cases "dropWhile (\<lambda>d. d \<noteq> slash) s")
  case Nil
  then have s: "s = takeWhile (\<lambda>d. d \<noteq> slash) s" by (metis append_Nil2 takeWhile_dropWhile_id)
  have "slash \<notin> set (takeWhile (\<lambda>d. d \<noteq> slash) s)" by (auto dest: set_takeWhileD)
  then have "strsep_all s = [takeWhile (\<lambda>d. d \<noteq> slash) s]" using strsep_all_name s by metis
  then show ?thesis unfolding Nil by simp
next
  case (Cons c r)
  then have c: "c = slash" using hd_dropWhile [of "\<lambda>d. d \<noteq> slash" s] by simp
  have "s = takeWhile (\<lambda>d. d \<noteq> slash) s @ slash # r" using Cons c takeWhile_dropWhile_id [of "\<lambda>d. d \<noteq> slash" s] by simp
  moreover have "slash \<notin> set (takeWhile (\<lambda>d. d \<noteq> slash) s)" by (auto dest: set_takeWhileD)
  ultimately show ?thesis using strsep_all_append [of "takeWhile (\<lambda>d. d \<noteq> slash) s" r] Cons by simp
qed

lemma squeeze_name: "slash \<notin> set n \<Longrightarrow> squeeze (n @ s) = n @ squeeze s"
  by (induction n) auto

lemma no_slash_end_append: "v \<noteq> [] \<Longrightarrow> no_slash_end (u @ v) = u @ no_slash_end v"
  by (simp add: no_slash_end_def butlast_append)

lemma filter_strsep_slashes:
  "filter (\<lambda>n. n \<noteq> []) (strsep_all (dropWhile (\<lambda>d. d = slash) s)) = filter (\<lambda>n. n \<noteq> []) (strsep_all s)"
  by (induction s) auto

lemma squeezed:
  "x \<noteq> slash \<Longrightarrow> no_slash_end (x # squeeze (slash # s)) = x # spelled (filter (\<lambda>n. n \<noteq> []) (strsep_all s))"
proof (induction s arbitrary: x rule: length_induct)
  case (1 s)
  let ?s = "dropWhile (\<lambda>d. d = slash) s"
  define n where "n = takeWhile (\<lambda>d. d \<noteq> slash) ?s"
  define r where "r = dropWhile (\<lambda>d. d \<noteq> slash) ?s"
  have sp: "?s = n @ r" by (simp add: n_def r_def)
  have nn: "slash \<notin> set n" unfolding n_def by (auto dest: set_takeWhileD)
  show ?case
  proof (cases "?s = []")
    case True
    have "filter (\<lambda>n. n \<noteq> []) (strsep_all ?s) = []" unfolding True by simp
    then have "filter (\<lambda>n. n \<noteq> []) (strsep_all s) = []" unfolding filter_strsep_slashes .
    moreover have "squeeze (slash # s) = [slash]" by (simp only: squeeze.simps True refl if_True)
    ultimately show ?thesis using "1.prems" by (simp add: no_slash_end_def del: squeeze.simps)
  next
    case False
    then have "hd ?s \<noteq> slash" using hd_dropWhile [of "\<lambda>d. d = slash" s] by simp
    then have ne: "n \<noteq> []" using False by (cases ?s) (simp_all add: n_def)
    have sq: "squeeze (slash # s) = slash # n @ squeeze r" using sp nn by (simp add: squeeze_name)
    have st: "strsep_all ?s = n # (case r of [] \<Rightarrow> [] | c # t \<Rightarrow> strsep_all t)"
      unfolding n_def r_def by (rule strsep_all_split)
    have fs: "filter (\<lambda>n. n \<noteq> []) (strsep_all s) = n # filter (\<lambda>n. n \<noteq> []) (case r of [] \<Rightarrow> [] | c # t \<Rightarrow> strsep_all t)"
      using filter_strsep_slashes [of s] ne unfolding st by simp
    show ?thesis
    proof (cases r)
      case Nil
      have "last n \<noteq> slash" using nn ne by (metis last_in_set)
      moreover have "squeeze (slash # s) = slash # n" unfolding sq Nil by simp
      ultimately show ?thesis using Nil ne by (simp add: fs no_slash_end_def del: squeeze.simps)
    next
      case (Cons c t)
      have c: "c = slash" using Cons unfolding r_def dropWhile_eq_Cons_conv by simp
      have "length ?s \<le> length s" by (rule length_dropWhile_le)
      then have l: "length t < length s" using sp Cons by simp
      have ln: "last n \<noteq> slash" using nn ne by (metis last_in_set)
      have e: "x # squeeze (slash # s) = (x # slash # butlast n) @ (last n # squeeze (slash # t))"
        using ne by (simp add: sq Cons c del: squeeze.simps)
      have "no_slash_end (x # squeeze (slash # s)) = (x # slash # butlast n) @ no_slash_end (last n # squeeze (slash # t))"
        unfolding e by (rule no_slash_end_append) simp
      also have "no_slash_end (last n # squeeze (slash # t)) = last n # spelled (filter (\<lambda>n. n \<noteq> []) (strsep_all t))"
        using "1.IH" l ln by blast
      finally show ?thesis using ne by (simp add: fs Cons)
    qed
  qed
qed

lemma take_spelled: "slash \<notin> set n \<Longrightarrow> takeWhile (\<lambda>d. d \<noteq> slash) (n @ spelled ns) = n"
  "slash \<notin> set n \<Longrightarrow> dropWhile (\<lambda>d. d \<noteq> slash) (n @ spelled ns) = spelled ns"
proof -
  assume n: "slash \<notin> set n"
  have "takeWhile (\<lambda>d. d \<noteq> slash) (n @ spelled ns) = n @ takeWhile (\<lambda>d. d \<noteq> slash) (spelled ns)"
    using n by (intro takeWhile_append2) auto
  then show "takeWhile (\<lambda>d. d \<noteq> slash) (n @ spelled ns) = n" by (cases ns) simp_all
  have "dropWhile (\<lambda>d. d \<noteq> slash) (n @ spelled ns) = dropWhile (\<lambda>d. d \<noteq> slash) (spelled ns)"
    using n by (intro dropWhile_append2) auto
  then show "dropWhile (\<lambda>d. d \<noteq> slash) (n @ spelled ns) = spelled ns" by (cases ns) simp_all
qed

lemma cut_back_name: "slash \<notin> set d \<Longrightarrow> cut_back (p # q @ slash # d) = p # q"
proof (induction d rule: rev_induct)
  case Nil
  then show ?case by (simp add: cut_back.simps [of "p # q @ [slash]"])
next
  case (snoc x d)
  have "cut_back (p # q @ slash # d @ [x]) = cut_back (p # q @ slash # d)"
    using snoc.prems by (subst cut_back.simps) (auto simp: butlast_append)
  then show ?case using snoc by simp
qed

lemma cut_back_pathname: "(\<And>n. n \<in> set done \<Longrightarrow> slash \<notin> set n) \<Longrightarrow> cut_back (pathname done) = pathname (butlast done)"
proof (induction "done" rule: rev_induct)
  case (snoc n ns)
  then show ?case using cut_back_name [of n "0x2E" "spelled ns"] by (simp add: pathname_def)
qed (simp add: cut_back.simps pathname_def)

lemma dot_loop_resolved:
  "(\<And>n. n \<in> set done \<union> set ns \<Longrightarrow> slash \<notin> set n \<and> n \<noteq> []) \<Longrightarrow> dot_loop (pathname done) (spelled ns) = pathname (resolved done ns)"
proof (induction "done" ns rule: resolved.induct)
  case (2 "done" n ns)
  have n: "slash \<notin> set n" "n \<noteq> []" using "2.prems" by auto
  have p: "pathname done @ slash # n = pathname (done @ [n])" by (simp add: pathname_snoc)
  have b: "m \<in> set (butlast done) \<Longrightarrow> slash \<notin> set m \<and> m \<noteq> []" for m using "2.prems" in_set_butlastD [of m "done"] by auto
  consider "n = [0x2E]" | "n = [0x2E, 0x2E]" | "n \<noteq> [0x2E]" "n \<noteq> [0x2E, 0x2E]" by blast
  then show ?case
  proof cases
    case 1
    then show ?thesis using 2 take_spelled [OF n(1)] by (auto simp: Let_def)
  next
    case 2
    have "dot_loop (pathname (butlast done)) (spelled ns) = pathname (resolved (butlast done) ns)"
      by (rule "2.IH"(2)) (use 2 b "2.prems" in auto)
    then show ?thesis using 2 take_spelled [OF n(1)] cut_back_pathname [of "done"] "2.prems" by (simp add: Let_def)
  next
    case 3
    have "dot_loop (pathname (done @ [n])) (spelled ns) = pathname (resolved (done @ [n]) ns)"
      by (rule "2.IH"(3)) (use 3 n "2.prems" in auto)
    then show ?thesis using 3 n take_spelled [OF n(1)] by (simp add: Let_def p)
  qed
qed simp


lemma length_squeeze: "length (squeeze s) \<le> length s"
proof (induction s rule: squeeze.induct)
  case (2 c s)
  then show ?case using length_dropWhile_le [of "\<lambda>d. d = slash" s] by (auto split: if_splits)
qed simp

lemma length_no_slash_end: "length (no_slash_end s) \<le> length s"
  by (simp add: no_slash_end_def)

lemma length_cut_back: "length (cut_back pre) \<le> length pre"
proof (induction pre rule: cut_back.induct)
  case (1 pre)
  then show ?case by (subst cut_back.simps) auto
qed

lemma length_dot_loop: "length (dot_loop pre s) \<le> length pre + length s"
proof (induction pre s rule: dot_loop.induct)
  case (2 pre c s)
  let ?comp = "takeWhile (\<lambda>d. d \<noteq> slash) s" and ?rest = "dropWhile (\<lambda>d. d \<noteq> slash) s"
  have l: "length ?comp + length ?rest = length s"
    using arg_cong [OF takeWhile_dropWhile_id [of "\<lambda>d. d \<noteq> slash" s], of length] by (simp only: length_append)
  then show ?case using "2.IH"(1) [OF refl refl] "2.IH"(2) [OF refl refl] "2.IH"(3) [OF refl refl] length_cut_back [of pre]
    by (auto simp: Let_def)
qed simp

lemma canon_resolved:
  "canon rawname len = Inl Exit_1 \<and> len \<le> length rawname + 2 \<or>
   canon rawname len = Inr (pathname (resolved [] (strsep_all rawname))) \<and> length (pathname (resolved [] (strsep_all rawname))) < len"
proof -
  let ?ne = "filter (\<lambda>n. n \<noteq> [])"
  define start where "start = (if rawname = [0x2E] \<or> take 2 rawname = [0x2E, slash] then []
                   else if take 1 rawname = [slash] then [0x2E] else [0x2E, slash])"
  have dot: "(0x2E :: byte) \<noteq> slash" by (simp add: slash_def)
  obtain ns where ns: "no_slash_end (squeeze (start @ rawname)) = 0x2E # spelled (?ne ns)"
    "resolved [] ns = resolved [] (strsep_all rawname)" "\<forall>n \<in> set ns. slash \<notin> set n"
  proof (cases "rawname = [0x2E]")
    case True
    have "no_slash_end (squeeze (start @ rawname)) = 0x2E # spelled (?ne [])"
      using True dot by (simp add: start_def no_slash_end_def)
    then show thesis by (rule that) (use True dot in simp_all)
  next
    case no: False
    show thesis
    proof (cases "take 2 rawname = [0x2E, slash]")
      case True
      then obtain s where s: "rawname = 0x2E # slash # s" by (cases rawname; cases "tl rawname") auto
      have "no_slash_end (squeeze (start @ rawname)) = 0x2E # spelled (?ne (strsep_all s))"
        using squeezed [OF dot, of s] True dot by (simp add: start_def s del: squeeze.simps) (simp add: squeeze.simps dot)
      then show thesis by (rule that) (use s dot strsep_all_no_slash in auto)
    next
      case False
      show thesis
      proof (cases "take 1 rawname = [slash]")
        case True
        then obtain s where s: "rawname = slash # s" by (cases rawname) auto
        have "no_slash_end (squeeze (start @ rawname)) = 0x2E # spelled (?ne (strsep_all s))"
          using squeezed [OF dot, of s] True False no dot by (simp add: start_def s del: squeeze.simps) (simp add: squeeze.simps dot)
        then show thesis by (rule that) (use s strsep_all_no_slash in auto)
      next
        case abs: False
        have "no_slash_end (squeeze (start @ rawname)) = 0x2E # spelled (?ne (strsep_all rawname))"
          using squeezed [OF dot, of rawname] abs False no dot by (simp add: start_def del: squeeze.simps) (simp add: squeeze.simps dot)
        then show thesis by (rule that) (use strsep_all_no_slash in auto)
      qed
    qed
  qed
  have "dot_loop [] (0x2E # spelled (?ne ns)) = dot_loop (pathname []) (spelled (?ne ns))"
    using take_spelled [of "[]" "?ne ns"] by (simp add: Let_def pathname_def)
  also have "\<dots> = pathname (resolved [] (?ne ns))" by (rule dot_loop_resolved) (use ns(3) in auto)
  also have "\<dots> = pathname (resolved [] (strsep_all rawname))" by (simp add: resolved_filter ns(2))
  finally have "dot_loop [] (no_slash_end (squeeze (start @ rawname))) = pathname (resolved [] (strsep_all rawname))"
    unfolding ns(1) .
  moreover have "length (dot_loop [] (no_slash_end (squeeze (start @ rawname)))) \<le> length start + length rawname"
    using length_dot_loop [of "[]" "no_slash_end (squeeze (start @ rawname))"] length_no_slash_end [of "squeeze (start @ rawname)"]
      length_squeeze [of "start @ rawname"] by simp
  moreover have "length start \<le> 2" by (simp add: start_def)
  ultimately show ?thesis by (simp add: canon_def Let_def start_def [symmetric])
qed

lemma copynext_escaped:
  "copynext_loop out (concat (map (\<lambda>c. [backslash, c]) s) @ rest) = copynext_loop (out @ s) rest"
proof (induction s arbitrary: out)
  case (Cons c s)
  have "\<not> blank backslash" by (simp add: blank_def backslash_def)
  then show ?case using Cons.IH [of "out @ [c]"] by simp
qed simp

lemma copynext_plain:
  "(\<And>c. c \<in> set s \<Longrightarrow> \<not> blank c \<and> c \<noteq> backslash \<and> \<not> is_quote c) \<Longrightarrow> copynext_loop out (s @ rest) = copynext_loop (out @ s) rest"
  by (induction s arbitrary: out) auto

lemma copynext_quoted:
  assumes q: "is_quote c" and s: "c \<notin> set s"
  shows "copynext_loop out ((c # s @ [c]) @ rest) = copynext_loop (out @ s) rest"
proof -
  have b: "\<not> blank c" "c \<noteq> backslash" using q by (auto simp: is_quote_def blank_def backslash_def)
  have "takeWhile (\<lambda>d. d \<noteq> c) (s @ c # rest) = s" "dropWhile (\<lambda>d. d \<noteq> c) (s @ c # rest) = c # rest"
    using s by (auto simp: takeWhile_append dropWhile_append)
  then show ?thesis using b q by simp
qed

text \<open>A word of a command line: plain characters, any character after a backslash, any but the quote in quotes.\<close>

inductive spells :: "byte list \<Rightarrow> byte list \<Rightarrow> bool" where
  spells_nil: "spells [] []"
| spells_plain: "spells w s \<Longrightarrow> \<not> blank c \<Longrightarrow> c \<noteq> backslash \<Longrightarrow> \<not> is_quote c \<Longrightarrow> spells (c # w) (c # s)"
| spells_escape: "spells w s \<Longrightarrow> spells (backslash # c # w) (c # s)"
| spells_quote: "spells w s \<Longrightarrow> is_quote c \<Longrightarrow> c \<notin> set u \<Longrightarrow> spells ((c # u @ [c]) @ w) (u @ s)"

lemma spells_copied: "spells w s \<Longrightarrow> copynext_loop out (w @ rest) = copynext_loop (out @ s) rest"
proof (induction arbitrary: out rule: spells.induct)
  case (spells_plain w s c)
  then show ?case using spells_plain.IH [of "out @ [c]"] by simp
next
  case (spells_escape w s c)
  have "\<not> blank backslash" by (simp add: blank_def backslash_def)
  then show ?case using spells_escape.IH [of "out @ [c]"] by simp
next
  case (spells_quote w s c u)
  show ?case using copynext_quoted [OF spells_quote.hyps(2,3), of out "w @ rest"] spells_quote.IH [of "out @ u"] by simp
qed simp

text \<open>What is copied is no longer than what has been read: the output may be the buffer of the input.\<close>

lemma copynext_loop_shorter:
  "length (fst (copynext_loop out s)) + length (snd (copynext_loop out s)) \<le> length out + length s"
proof (induction out s rule: copynext_loop.induct)
  case (2 out c s)
  have tw: "length (takeWhile (\<lambda>d. d \<noteq> c) s) + length (drop 1 (dropWhile (\<lambda>d. d \<noteq> c) s)) \<le> length s"
    using arg_cong [OF takeWhile_dropWhile_id [of "\<lambda>d. d \<noteq> c" s], of length] by (simp only: length_append) simp
  show ?case
  proof (cases "blank c")
    case False
    show ?thesis
    proof (cases "c = backslash")
      case True
      then show ?thesis using "2.IH"(1,2) False by (cases s) fastforce+
    next
      case nb: False
      show ?thesis
      proof (cases "is_quote c")
        case True
        then show ?thesis using "2.IH"(4) [OF False nb] tw False nb by simp
      next
        case False
        then show ?thesis using "2.IH"(3) [OF \<open>\<not> blank c\<close> nb] \<open>\<not> blank c\<close> nb by simp
      qed
    qed
  qed simp
qed simp


section \<open>Commands\<close>

text \<open>
  \<open>runcmdshell\<close> takes every prefix of a command's name for it, by the first letter; \<open>?\<close> is \<open>help\<close>.
\<close>

datatype shell_cmd = Add | Cd | Delete | Extract | Help | Ls | Pwd | Prompt | Quit | Xit | Verbose | Setmodes | What | Debug | Bad

definition strncmp_eq :: "byte list \<Rightarrow> byte list \<Rightarrow> bool" where
  "strncmp_eq cmd name \<longleftrightarrow> cmd = take (length cmd) name"

definition shell_command :: "byte list \<Rightarrow> shell_cmd" where
  "shell_command cmd =
     (let c = (if cmd = [] then 0 else hd cmd); named = (\<lambda>name. strncmp_eq cmd (map of_char name)) in
      if c = of_char CHR ''a'' then (if named ''add'' then Add else Bad)
      else if c = of_char CHR ''c'' then (if named ''cd'' then Cd else Bad)
      else if c = of_char CHR ''d'' then (if named ''delete'' then Delete else Bad)
      else if c = of_char CHR ''e'' then (if named ''extract'' then Extract else Bad)
      else if c = of_char CHR ''h'' then (if named ''help'' then Help else Bad)
      else if c = of_char CHR ''?'' then Help
      else if c = of_char CHR ''l'' then (if named ''ls'' then Ls else Bad)
      else if c = of_char CHR ''p'' then (if named ''pwd'' then Pwd else if named ''prompt'' then Prompt else Bad)
      else if c = of_char CHR ''q'' then (if named ''quit'' then Quit else Bad)
      else if c = of_char CHR ''x'' then (if named ''xit'' then Xit else Bad)
      else if c = of_char CHR ''v'' then (if named ''verbose'' then Verbose else Bad)
      else if c = of_char CHR ''s'' then (if named ''setmodes'' then Setmodes else Bad)
      else if c = of_char CHR ''w'' then (if named ''what'' then What else Bad)
      else if c = of_char CHR ''D'' then (if named ''Debug'' then Debug else Bad)
      else Bad)"

section \<open>Listing a directory\<close>

text \<open>\<open>struct afile\<close>.\<close>

record afile =
  fnum :: dump_ino_t
  fname :: "byte list"
  f_len :: nat
  prefix :: byte
  postfix :: byte

definition byte_of :: "char \<Rightarrow> byte" where "byte_of c = of_char c"

definition bytes_of :: "string \<Rightarrow> byte list" where "bytes_of = map byte_of"

definition newline :: byte where "newline = 0x0A"

text \<open>
  The directories of the tape: the file of \<open>extractdirs\<close>, its table, and the memory of a new descriptor.
\<close>

record tapedirs =
  td_fd :: "byte list"
  td_tab :: inotabs
  td_junk :: "byte list"

definition DT_FIFO :: byte where "DT_FIFO = 1"
definition DT_CHR :: byte where "DT_CHR = 2"
definition DT_BLK :: byte where "DT_BLK = 6"
definition DT_REG :: byte where "DT_REG = 8"
definition DT_LNK :: byte where "DT_LNK = 10"
definition DT_SOCK :: byte where "DT_SOCK = 12"

text \<open>\<open>mkentry\<close>, with what it prints.  Characters are signed.\<close>

definition shown_char :: "bool \<Rightarrow> byte \<Rightarrow> byte" where
  "shown_char v c = (if \<not> v \<and> (sint c < 0x20 \<or> sint c \<ge> 0x7F) then byte_of CHR ''?'' else c)"

definition entry_prefix :: "acfg \<Rightarrow> symtab \<Rightarrow> byte list \<Rightarrow> direct \<Rightarrow> restore_stop + byte" where
  "entry_prefix cfg st name dp =
     (if dflag (sc cfg) \<and> \<not> TSTINO (d_ino dp) (dumpmap cfg) then Inr (byte_of CHR ''^'')
      else bindE (lookupname (sc cfg) name st) (\<lambda>r.
        case r of None \<Rightarrow> Inr (byte_of CHR '' '')
        | Some np \<Rightarrow> Inr (byte_of (if flagged NEW st np then CHR ''*'' else CHR '' ''))))"

definition undefined_type :: "direct \<Rightarrow> bool" where
  "undefined_type dp \<longleftrightarrow> d_type dp \<notin> {DT_REG, DT_LNK, DT_FIFO, DT_SOCK, DT_CHR, DT_BLK, DT_UNKNOWN, DT_DIR}"

definition entry_postfix :: "inotabs \<Rightarrow> direct \<Rightarrow> byte" where
  "entry_postfix itab dp =
     byte_of (let t = d_type dp in
       if t = DT_LNK then CHR ''@''
       else if t = DT_FIFO \<or> t = DT_SOCK then CHR ''=''
       else if t = DT_CHR \<or> t = DT_BLK then CHR ''#''
       else if t = DT_UNKNOWN \<or> t = DT_DIR then (if inodetype (d_ino dp) itab then CHR ''/'' else CHR '' '')
       else CHR '' '')"

definition mkentry :: "acfg \<Rightarrow> inotabs \<Rightarrow> symtab \<Rightarrow> byte list \<Rightarrow> direct \<Rightarrow> restore_stop + afile \<times> byte list" where
  "mkentry cfg itab st name dp =
     (let nm = map (shown_char (vflag cfg)) (c_str (d_name dp)) in
      bindE (entry_prefix cfg st name dp) (\<lambda>pre.
        Inr (\<lparr> fnum = d_ino dp, fname = nm, f_len = length nm, prefix = pre, postfix = entry_postfix itab dp \<rparr>,
             if undefined_type dp
             then bytes_of (''Warning: undefined file type '' @ dec_nat (unat (d_type dp))) @ [newline] else [])))"

text \<open>\<open>formatf\<close>: the format from all entries, then the lines.\<close>

record layout =
  l_width :: nat
  l_precision :: nat
  l_prefix :: bool
  l_postfix :: bool

definition layout_of :: "bool \<Rightarrow> afile list \<Rightarrow> layout" where
  "layout_of v list =
     (let bigino = foldl (\<lambda>b f. if b < sint (fnum f) then sint (fnum f) else b) 2 list;
          width = foldl (\<lambda>w f. if w < f_len f then f_len f else w) 0 list;
          pre = (\<exists>f \<in> set list. prefix f \<noteq> byte_of CHR '' '');
          post = (\<exists>f \<in> set list. postfix f \<noteq> byte_of CHR '' '');
          width = (if pre then width + 1 else width);
          width = (if post then width + 1 else width);
          precision = (if v then length (dec_nat (nat bigino)) else 0)
      in \<lparr> l_width = (if v then width + (precision + 1) else width) + 1, l_precision = precision,
           l_prefix = pre, l_postfix = post \<rparr>)"

definition pad_left :: "nat \<Rightarrow> byte list \<Rightarrow> byte list" where
  "pad_left n s = replicate (n - length s) (byte_of CHR '' '') @ s"

definition item :: "bool \<Rightarrow> layout \<Rightarrow> afile \<Rightarrow> byte list" where
  "item v l f =
     (if v then pad_left (l_precision l) (bytes_of (dec_nat (unat (fnum f)))) @ [byte_of CHR '' ''] else [])
     @ (if l_prefix l then [prefix f] else []) @ fname f @ (if l_postfix l then [postfix f] else [])"

definition item_len :: "bool \<Rightarrow> layout \<Rightarrow> afile \<Rightarrow> nat" where
  "item_len v l f =
     f_len f + (if v then l_precision l + 1 else 0) + (if l_prefix l then 1 else 0) + (if l_postfix l then 1 else 0)"

definition columns_of :: "layout \<Rightarrow> nat" where
  "columns_of l = (if 81 div l_width l = 0 then 1 else 81 div l_width l)"

definition lines_of :: "layout \<Rightarrow> nat \<Rightarrow> nat" where
  "lines_of l n = (n + columns_of l - 1) div columns_of l"

text \<open>The inner loop, over the columns that are left.\<close>

fun print_row :: "bool \<Rightarrow> layout \<Rightarrow> afile list \<Rightarrow> nat \<Rightarrow> nat list \<Rightarrow> byte list" where
  "print_row v l list i [] = []"
| "print_row v l list i (j # js) =
     (let lines = lines_of l (length list); k = j * lines + i; f = list ! k
      in item v l f @
         (if k + lines \<ge> length list then [newline]
          else replicate (l_width l - item_len v l f) (byte_of CHR '' '') @ print_row v l list i js))"

definition formatf :: "bool \<Rightarrow> afile list \<Rightarrow> byte list" where
  "formatf v list =
     (let l = layout_of v list
      in concat (map (\<lambda>i. print_row v l list i [0..<columns_of l]) [0..<lines_of l (length list)]))"

text \<open>The entries in line \<open>i\<close>, and the line that shows them.\<close>

function upto_by :: "nat \<Rightarrow> nat \<Rightarrow> nat \<Rightarrow> nat list" where
  "upto_by lines n i = (if i < n \<and> lines > 0 then i # upto_by lines n (i + lines) else [])"
  by pat_completeness auto
termination by (relation "measure (\<lambda>(lines, n, i). n - i)") auto

declare upto_by.simps [simp del]

fun line_of :: "bool \<Rightarrow> layout \<Rightarrow> afile list \<Rightarrow> nat list \<Rightarrow> byte list" where
  "line_of v l list [] = []"
| "line_of v l list [k] = item v l (list ! k) @ [newline]"
| "line_of v l list (k # ks) =
     item v l (list ! k) @ replicate (l_width l - item_len v l (list ! k)) (byte_of CHR '' '') @ line_of v l list ks"

lemma set_upto_by: "lines > 0 \<Longrightarrow> set (upto_by lines n i) = {k. i \<le> k \<and> k < n \<and> k mod lines = i mod lines}"
proof (induction lines n i rule: upto_by.induct)
  case (1 lines n i)
  show ?case
  proof (cases "i < n")
    case True
    have "k = i \<or> i + lines \<le> k" if "i \<le> k" "k mod lines = i mod lines" for k
    proof -
      from that obtain q where q: "k = i + lines * q" using mod_eq_nat1E by metis
      show ?thesis using q by (cases q) simp_all
    qed
    then have "{k. i \<le> k \<and> k < n \<and> k mod lines = i mod lines}
      = insert i {k. i + lines \<le> k \<and> k < n \<and> k mod lines = (i + lines) mod lines}"
      using True by auto
    then show ?thesis using 1 True by (subst upto_by.simps) simp
  next
    case False
    then show ?thesis by (subst upto_by.simps) auto
  qed
qed

lemma distinct_upto_by: "distinct (upto_by lines n i)"
proof (induction lines n i rule: upto_by.induct)
  case (1 lines n i)
  then show ?case using set_upto_by [of lines n "i + lines"] by (subst upto_by.simps) auto
qed

lemma columns_pos: "columns_of l > 0"
  by (simp add: columns_of_def)

lemma lines_cover: "n \<le> columns_of l * lines_of l n"
proof -
  let ?c = "columns_of l"
  have "?c * lines_of l n + (n + ?c - 1) mod ?c = n + ?c - 1" by (simp add: lines_of_def)
  moreover have "(n + ?c - 1) mod ?c < ?c" using columns_pos by simp
  ultimately show ?thesis using columns_pos [of l] by linarith
qed

lemma lines_le: "lines_of l n \<le> n"
proof (cases "n = 0")
  case True
  then show ?thesis using columns_pos [of l] by (simp add: lines_of_def)
next
  case False
  obtain c where c: "columns_of l = Suc c" using columns_pos [of l] by (cases "columns_of l") auto
  have "(n + c) div Suc c \<le> n"
  proof -
    have "n + c < Suc c * Suc n" by simp
    then show ?thesis using less_mult_imp_div_less [of "n + c" "Suc n" "Suc c"] by (simp add: mult.commute)
  qed
  then show ?thesis by (simp add: lines_of_def c)
qed

lemma print_row_line:
  assumes "j < columns_of l" "i < lines_of l (length list)" "j * lines_of l (length list) + i < length list"
  shows "print_row v l list i [j..<columns_of l]
    = line_of v l list (upto_by (lines_of l (length list)) (length list) (j * lines_of l (length list) + i))"
  using assms
proof (induction "columns_of l - j" arbitrary: j)
  case (Suc d)
  let ?n = "length list" and ?L = "lines_of l (length list)"
  have js: "[j..<columns_of l] = j # [Suc j..<columns_of l]" using Suc.prems(1) by (rule upt_conv_Cons)
  have u: "upto_by ?L ?n (j * ?L + i) = (j * ?L + i) # upto_by ?L ?n (Suc j * ?L + i)"
    using Suc.prems by (subst upto_by.simps) (simp add: algebra_simps)
  show ?case
  proof (cases "Suc j * ?L + i < ?n")
    case True
    have "Suc j < columns_of l"
    proof (rule ccontr)
      assume "\<not> Suc j < columns_of l"
      then have "columns_of l * ?L \<le> Suc j * ?L" by (intro mult_le_mono1) simp
      then show False using lines_cover [of ?n l] True by linarith
    qed
    then have "print_row v l list i [Suc j..<columns_of l] = line_of v l list (upto_by ?L ?n (Suc j * ?L + i))"
      using Suc.hyps(2) Suc.prems True by (intro Suc.hyps(1)) simp_all
    moreover have "upto_by ?L ?n (Suc j * ?L + i) = (Suc j * ?L + i) # upto_by ?L ?n (Suc j * ?L + i + ?L)"
      using Suc.prems True by (subst upto_by.simps) simp
    ultimately show ?thesis using True unfolding js u by (simp add: Let_def algebra_simps)
  next
    case False
    then have "upto_by ?L ?n (Suc j * ?L + i) = []" by (subst upto_by.simps) simp
    then show ?thesis using False unfolding js u by (simp add: Let_def algebra_simps)
  qed
qed simp

lemma rows_distinct:
  "distinct (concat (map (upto_by L n) [0..<m]))" if "m \<le> L"
  using that
proof (induction m)
  case (Suc m)
  have "set (concat (map (upto_by L n) [0..<m])) \<inter> set (upto_by L n m) = {}"
    using Suc.prems set_upto_by [of L n] by auto
  then show ?case using Suc by (simp add: distinct_upto_by)
qed simp

lemma rows_all: "L > 0 \<Longrightarrow> set (concat (map (upto_by L n) [0..<L])) = {..<n}"
proof -
  assume L: "L > 0"
  have "k \<in> set (upto_by L n (k mod L))" if "k < n" for k using that L by (simp add: set_upto_by)
  then show ?thesis using L by (auto simp: set_upto_by)
qed

lemma length_upto_by: "i < lines_of l n \<Longrightarrow> length (upto_by (lines_of l n) n i) \<le> columns_of l"
proof -
  let ?L = "lines_of l n"
  assume i: "i < ?L"
  have "length (upto_by ?L n j) * ?L \<le> n - j + (?L - 1)" for j
  proof (induction "n - j" arbitrary: j rule: less_induct)
    case less
    have L: "?L > 0" using i by simp
    show ?case
    proof (cases "j + ?L < n")
      case True
      then have "length (upto_by ?L n (j + ?L)) * ?L \<le> n - (j + ?L) + (?L - 1)" using less [of "j + ?L"] L by simp
      moreover have "upto_by ?L n j = j # upto_by ?L n (j + ?L)" using True L by (subst upto_by.simps) simp
      moreover have "n - (j + ?L) + (?L - 1) + ?L = n - j + (?L - 1)" using True L by linarith
      ultimately show ?thesis by simp
    next
      case False
      then have "upto_by ?L n (j + ?L) = []" by (subst upto_by.simps) simp
      then show ?thesis using L by (subst upto_by.simps) (simp, arith)
    qed
  qed
  from this [of i] have "length (upto_by ?L n i) * ?L < (columns_of l + 1) * ?L"
    using lines_cover [of n l] i by (simp add: algebra_simps)
  then show ?thesis using mult_less_cancel2 [of _ ?L "columns_of l + 1"] by (metis Suc_eq_plus1 less_Suc_eq_le)
qed

lemma foldl_max: "foldl (\<lambda>b f. if b < g f then g f else b) (a :: 'a :: linorder) list = foldl max a (map g list)"
  by (induction list arbitrary: a) (auto simp: max_def)

lemma foldl_max_ge: "(a :: 'a :: linorder) \<le> foldl max a xs" "x \<in> set xs \<Longrightarrow> x \<le> foldl max a xs"
proof -
  have le: "a \<le> foldl max a xs" for a :: 'a and xs by (induction xs arbitrary: a) (simp, metis foldl_Cons max.bounded_iff)
  show "a \<le> foldl max a xs" by (rule le)
  show "x \<in> set xs \<Longrightarrow> x \<le> foldl max a xs"
  proof (induction xs arbitrary: a)
    case (Cons y xs)
    then show ?case using order_trans [OF max.cobounded2 [of y a] le [of "max a y"]] by (cases "x = y") simp_all
  qed simp
qed

lemma length_dec_nat_mono: "m \<le> n \<Longrightarrow> length (dec_nat m) \<le> length (dec_nat n)"
proof (induction m arbitrary: n rule: dec_nat.induct)
  case (1 m)
  show ?case
  proof (cases "m < 10")
    case True
    then show ?thesis by (simp add: dec_nat.simps [of m] dec_nat.simps [of n])
  next
    case False
    then have "length (dec_nat (m div 10)) \<le> length (dec_nat (n div 10))" using 1 by (simp add: div_le_mono)
    then show ?thesis using False 1(2) by (simp add: dec_nat.simps [of m] dec_nat.simps [of n])
  qed
qed

lemma sint_small: "(x :: u32) < 0x80000000 \<Longrightarrow> sint x = uint x"
  by (simp add: sint_uint word_less_def signed_take_bit_int_eq_self_iff) (rule order_trans [OF _ uint_nonnegative], simp)

lemma item_fits:
  assumes ok: "\<forall>f \<in> set list. f_len f = length (fname f) \<and> fnum f < 0x80000000" and f: "f \<in> set list"
  shows "length (item v (layout_of v list) f) = item_len v (layout_of v list) f"
    "item_len v (layout_of v list) f < l_width (layout_of v list)"
proof -
  let ?l = "layout_of v list"
  have "sint (fnum f) \<le> foldl max 2 (map (\<lambda>f. sint (fnum f)) list)" using f by (intro foldl_max_ge(2)) simp
  then have "unat (fnum f) \<le> nat (foldl max 2 (map (\<lambda>f. sint (fnum f)) list))"
    using ok f by (simp add: sint_small le_nat_iff uint_nat [symmetric]) (metis le_nat_iff nat_mono nat_uint_eq uint_nonnegative order_trans)
  then have "v \<Longrightarrow> length (dec_nat (unat (fnum f))) \<le> l_precision ?l"
    by (simp add: layout_of_def Let_def foldl_max length_dec_nat_mono)
  then show "length (item v ?l f) = item_len v ?l f"
    using ok f by (auto simp: item_def item_len_def pad_left_def bytes_of_def)
  have "f_len f \<le> foldl max 0 (map f_len list)" using f by (intro foldl_max_ge(2)) simp
  then show "item_len v ?l f < l_width ?l" by (simp add: item_len_def layout_of_def Let_def foldl_max)
qed

lemma length_line_of:
  assumes ok: "\<forall>f \<in> set list. f_len f = length (fname f) \<and> fnum f < 0x80000000"
  shows "set ks \<subseteq> {..<length list} \<Longrightarrow> length (line_of v (layout_of v list) list ks) \<le> length ks * l_width (layout_of v list)"
proof (induction ks rule: induct_list012)
  case (2 k)
  then show ?case using item_fits [OF ok, of "list ! k" v] by simp
next
  case (3 k k' ks)
  then show ?case using item_fits [OF ok, of "list ! k" v] by simp
qed simp

lemma formatf_lines:
  assumes ok: "\<forall>f \<in> set list. f_len f = length (fname f) \<and> fnum f < 0x80000000"
  shows "\<exists>rows. formatf v list = concat (map (line_of v (layout_of v list) list) rows)
    \<and> distinct (concat rows) \<and> set (concat rows) = {..<length list}
    \<and> (\<forall>i < length rows. \<forall>k \<in> set (rows ! i). k mod length rows = i)
    \<and> (\<forall>r \<in> set rows. length r = 1 \<or> length (line_of v (layout_of v list) list r) \<le> 81)"
proof (intro exI conjI)
  let ?l = "layout_of v list" and ?n = "length list"
  let ?L = "lines_of ?l ?n"
  let ?rows = "map (upto_by ?L ?n) [0..<?L]"
  have "print_row v ?l list i [0..<columns_of ?l] = line_of v ?l list (upto_by ?L ?n i)" if "i < ?L" for i
    using print_row_line [of 0 ?l i list v] that columns_pos [of ?l] lines_le [of ?l ?n] by simp
  then show "formatf v list = concat (map (line_of v ?l list) ?rows)"
    by (simp only: formatf_def Let_def map_map comp_def) (intro arg_cong [where f = concat] map_cong, simp_all)
  show "distinct (concat ?rows)" by (rule rows_distinct) simp
  show all: "set (concat ?rows) = {..<?n}"
  proof (cases "?L = 0")
    case True
    then show ?thesis using lines_cover [of ?n ?l] by simp
  qed (use rows_all [of ?L ?n] in simp)
  show "\<forall>i < length ?rows. \<forall>k \<in> set (?rows ! i). k mod length ?rows = i" by (auto simp: set_upto_by)
  show "\<forall>r \<in> set ?rows. length r = 1 \<or> length (line_of v ?l list r) \<le> 81"
  proof
    fix r assume r: "r \<in> set ?rows"
    then obtain i where i: "r = upto_by ?L ?n i" "i < ?L" by auto
    have c: "length r \<le> columns_of ?l" using length_upto_by [OF i(2)] i(1) by simp
    have ne: "r \<noteq> []" using i lines_le [of ?l ?n] by (subst (asm) upto_by.simps) auto
    have "set r \<subseteq> {..<?n}" using r all by auto
    then have w: "length (line_of v ?l list r) \<le> length r * l_width ?l" by (rule length_line_of [OF ok])
    show "length r = 1 \<or> length (line_of v ?l list r) \<le> 81"
    proof (cases "81 div l_width ?l = 0")
      case True
      then show ?thesis using c ne by (cases r) (simp_all add: columns_of_def)
    next
      case False
      then have "length r * l_width ?l \<le> 81 div l_width ?l * l_width ?l" using c by (intro mult_le_mono1) (simp add: columns_of_def)
      also have "\<dots> \<le> 81" by simp
      finally show ?thesis using w by simp
    qed
  qed
qed

text \<open>Reading a directory to its end.\<close>

function read_names :: "dump_ino_t \<Rightarrow> byte list \<Rightarrow> rst_dir \<Rightarrow> direct list" where
  "read_names maxino fd d =
     (case rst_readdir maxino fd d of
        (None, d') \<Rightarrow> []
      | (Some dp, d') \<Rightarrow> dp # read_names maxino fd d')"
  by pat_completeness auto
termination
  by (relation "measure (\<lambda>(maxino, fd, d). unread fd d)") (auto dest: rst_readdir_unread [OF sym])

declare read_names.simps [simp del]

definition search_path :: "acfg \<Rightarrow> tapedirs \<Rightarrow> byte list \<Rightarrow> rst_dir \<Rightarrow> direct option \<times> rst_dir" where
  "search_path cfg td name = pathsearch (r_maxino (sc cfg)) (td_fd td) (td_tab td) name"

definition open_names :: "acfg \<Rightarrow> tapedirs \<Rightarrow> byte list \<Rightarrow> rst_dir \<Rightarrow> direct list option \<times> rst_dir" where
  "open_names cfg td name d =
     (case rst_opendir (r_maxino (sc cfg)) (td_fd td) (td_tab td) (td_junk td) name d of
        (r, d) \<Rightarrow> (map_option (read_names (r_maxino (sc cfg)) (td_fd td)) r, d))"

text \<open>Is the file on the tape, or everything shown?\<close>

definition on_dump :: "acfg \<Rightarrow> direct \<Rightarrow> bool" where
  "on_dump cfg dp \<longleftrightarrow> dflag (sc cfg) \<or> TSTINO (d_ino dp) (dumpmap cfg)"

definition usable :: "acfg \<Rightarrow> direct \<Rightarrow> bool" where
  "usable cfg dp \<longleftrightarrow> on_dump cfg dp \<and> (vflag cfg \<or> d_ino dp \<noteq> WINO)"

definition is_dots :: "direct \<Rightarrow> bool" where
  "is_dots dp \<longleftrightarrow> c_str (d_name dp) = [0x2E] \<or> c_str (d_name dp) = [0x2E, 0x2E]"

text \<open>\<open>printlist\<close>: the entries of a directory, with what is printed while they are made.\<close>

fun list_entries :: "acfg \<Rightarrow> tapedirs \<Rightarrow> symtab \<Rightarrow> byte list \<Rightarrow> direct list \<Rightarrow> restore_stop + afile list \<times> byte list" where
  "list_entries cfg td st locname [] = Inr ([], [])"
| "list_entries cfg td st locname (dp # dps) =
     (let nm = c_str (d_name dp) in
      if \<not> on_dump cfg dp \<or> \<not> vflag cfg \<and> (d_ino dp = WINO \<or> is_dots dp) then list_entries cfg td st locname dps
      else if length locname + length nm \<ge> MAXPATHLEN
      then bindE (list_entries cfg td st locname dps) (\<lambda>(fs, out).
             Inr (fs, locname @ nm @ bytes_of '': name exceeds 4096 char'' @ [newline] @ out))
      else bindE (mkentry cfg (td_tab td) st (locname @ nm) dp) (\<lambda>(f, warn).
           bindE (list_entries cfg td st locname dps) (\<lambda>(fs, out). Inr (f # fs, warn @ out))))"

text \<open>
  A single file: its name without the directory at hand.  \<open>strlen (name) - len\<close> is unsigned; behind the name lies
  \<open>past\<close>, the rest of its buffer.
\<close>

definition single_name :: "byte list \<Rightarrow> byte list \<Rightarrow> byte list \<Rightarrow> afile \<Rightarrow> afile" where
  "single_name name past base f =
     (let len = length base + 1 in
      if (of_nat (length name) - of_nat len :: u64) > of_nat (f_len f)
      then let s = c_str (drop len (name @ 0 # past)) in f\<lparr>fname := s, f_len := length s\<rparr>
      else f)"

text \<open>A name shorter than the directory at hand and a slash: what is shown comes from behind the name in its buffer.\<close>

lemma single_name_stale:
  assumes "length name < length base + 1" "length base + 1 < 2 ^ 32" "f_len f < 2 ^ 32"
  shows "fname (single_name name past base f) = c_str (drop (length base - length name) past)"
proof -
  have u: "unat (of_nat n :: u64) = n" if "n < 2 ^ 33" for n using that by (simp add: unat_of_nat)
  have "unat (of_nat (length name) - of_nat (length base + 1) :: u64) = length name + 2 ^ 64 - (length base + 1)"
    using assms(1,2) by (simp add: unat_sub_if' u del: of_nat_add of_nat_Suc)
  then have "(of_nat (length name) - of_nat (length base + 1) :: u64) > of_nat (f_len f)"
    using assms(2,3) by (simp add: word_less_nat_alt u del: of_nat_add of_nat_Suc)
  moreover have "drop (length base + 1) (name @ 0 # past) = drop (length base - length name) past"
  proof -
    have "length base + 1 - length name = Suc (length base - length name)" using assms(1) by simp
    then show ?thesis using assms(1) by simp
  qed
  ultimately show ?thesis by (simp only: single_name_def Let_def if_True) simp
qed

definition sort_afiles :: "afile list \<Rightarrow> afile list" where
  "sort_afiles = sort_key fname"

definition printlist :: "acfg \<Rightarrow> tapedirs \<Rightarrow> symtab \<Rightarrow> byte list \<Rightarrow> byte list \<Rightarrow> byte list \<Rightarrow> rst_dir
    \<Rightarrow> restore_stop + byte list \<times> rst_dir" where
  "printlist cfg td st name past base d =
     (case search_path cfg td name d of
        (None, d) \<Rightarrow> Inr ([], d)
      | (Some dp, d) \<Rightarrow>
          if \<not> usable cfg dp then Inr ([], d)
          else case open_names cfg td name d of
            (None, d) \<Rightarrow>
              bindE (mkentry cfg (td_tab td) st name dp) (\<lambda>(f, warn).
                Inr (warn @ formatf (vflag cfg) [single_name name past base f], d))
          | (Some _, d) \<Rightarrow>
              (case open_names cfg td name d of
                 (None, d) \<Rightarrow> bindE (spanic (sc cfg)) (\<lambda>_. Inl Crash)
               | (Some dps, d) \<Rightarrow>
                   bindE (list_entries cfg td st (take MAXPATHLEN (name @ [slash])) dps) (\<lambda>(fs, out).
                     Inr (name @ bytes_of '':'' @ [newline] @ out
                          @ (if fs = [] then [] else formatf (vflag cfg) (sort_afiles fs)) @ [newline], d))))"

text \<open>\<open>glob_readdir\<close> and \<open>glob_stat\<close>.\<close>

definition glob_names :: "acfg \<Rightarrow> direct list \<Rightarrow> byte list list" where
  "glob_names cfg dps = map (\<lambda>dp. c_str (take (unat (d_namlen dp) + 1) (d_name dp))) (filter (usable cfg) dps)"

definition glob_stat :: "acfg \<Rightarrow> tapedirs \<Rightarrow> byte list \<Rightarrow> rst_dir \<Rightarrow> u32 option \<times> rst_dir" where
  "glob_stat cfg td name d =
     (case search_path cfg td name d of
        (None, d) \<Rightarrow> (None, d)
      | (Some dp, d) \<Rightarrow>
          (if usable cfg dp then Some (if inodetype (d_ino dp) (td_tab td) then 0x4000 else 0x8000) else None, d))"

definition restore_globfs :: "acfg \<Rightarrow> tapedirs \<Rightarrow> rst_dir globfs" where
  "restore_globfs cfg td =
     \<lparr> gl_opendir = (\<lambda>p d. case open_names cfg td p d of (r, d) \<Rightarrow> (map_option (glob_names cfg) r, d)),
       gl_lstat = glob_stat cfg td, gl_stat = glob_stat cfg td, gl_errfunc = None, GLOB_ERR = False,
       GLOB_MARK = False, GLOB_NOCHECK = False, GLOB_NOMAGIC = False, GLOB_NOSORT = False, GLOB_QUOTE = False \<rparr>"

section \<open>Reading a command\<close>

text \<open>
  The state of the shell: the configuration, whose flags commands toggle; the words and names that \<open>getcmd\<close> keeps from
  one call to the next (\<open>nextarg\<close>, and the names of \<open>ap->glob\<close> that are still to come); the state of restore; the descriptor
  of the directories; the lines of the terminal that are still to come.
\<close>

record shell =
  sh_cfg :: acfg
  sh_pflag :: bool
  sh_curdir :: "byte list"
  sh_cmd :: "byte list"
  sh_name :: "byte list"
  sh_nextarg :: "byte list option"
  sh_args :: "byte list list"
  sh_dir :: rst_dir
  sh_input :: "byte list list"
  sh_out :: "byte list"
  sh_volno :: nat

text \<open>A relative name is put behind the directory at hand, in a buffer of \<open>BUFSIZ\<close> bytes.\<close>

definition full_name :: "byte list \<Rightarrow> byte list \<Rightarrow> restore_stop + byte list" where
  "full_name curdir rawname =
     canon (if take 1 rawname = [slash] then rawname else take (BUFSIZ - 1) (curdir @ slash # rawname)) MAXPATHLEN"

definition retnext :: "shell \<Rightarrow> shell" where
  "retnext sh = sh\<lparr>sh_name := take (MAXPATHLEN - 1) (hd (sh_args sh)), sh_args := tl (sh_args sh)\<rparr>"

definition getarg :: "tapedirs \<Rightarrow> byte list \<Rightarrow> shell \<Rightarrow> restore_stop + shell" where
  "getarg td arg sh =
     (case copynext arg of
        (rawname, cp) \<Rightarrow>
          bindE (full_name (sh_curdir sh) rawname) (\<lambda>name.
          bindE (glob (restore_globfs (sh_cfg sh) td) name [] (sh_dir sh)) (\<lambda>(err, gl, d).
            let sh = sh\<lparr>sh_nextarg := (if cp = [] then None else Some cp), sh_name := name, sh_dir := d,
                        sh_out := sh_out sh @ (if err < 0 then sh_cmd sh @ bytes_of '': out of memory'' @ [newline] else [])\<rparr>
            in Inr (if gl_pathv gl = [] then sh else retnext (sh\<lparr>sh_args := gl_pathv gl\<rparr>)))))"

text \<open>
  The white space at the end of the line goes, with the newline.  The loop has no other end than a character that is not
  blank: on a line of blanks only it leaves the buffer.
\<close>

definition trim_line :: "byte list \<Rightarrow> restore_stop + byte list" where
  "trim_line input =
     (if \<forall>c \<in> set (butlast input). blank c then Inl Crash
      else Inr (rev (dropWhile blank (rev (butlast input)))))"

definition getcmd :: "tapedirs \<Rightarrow> shell \<Rightarrow> restore_stop + shell" where
  "getcmd td sh =
     (if sh_args sh \<noteq> [] then Inr (retnext sh)
      else case sh_nextarg sh of
        Some arg \<Rightarrow> getarg td arg sh
      | None \<Rightarrow>
          (case dropWhile (\<lambda>l. l = [newline]) (sh_input sh) of
             [] \<Rightarrow> Inr (sh\<lparr>sh_cmd := bytes_of ''quit'', sh_input := []\<rparr>)
           | line # later \<Rightarrow>
               bindE (trim_line line) (\<lambda>input.
                 case copynext input of
                   (cmd, cp) \<Rightarrow>
                     let sh = sh\<lparr>sh_cmd := cmd, sh_input := later\<rparr>
                     in if cp = [] then Inr (sh\<lparr>sh_name := take (MAXPATHLEN - 1) (sh_curdir sh)\<rparr>)
                        else getarg td cp sh)))"


section \<open>Running a command\<close>

definition print :: "string \<Rightarrow> shell \<Rightarrow> shell" where
  "print s sh = sh\<lparr>sh_out := sh_out sh @ bytes_of s @ [newline]\<rparr>"

definition print_dir :: "byte list \<Rightarrow> shell \<Rightarrow> shell" where
  "print_dir b sh = sh\<lparr>sh_out := sh_out sh @ b @ [newline]\<rparr>"

definition toggle :: "string \<Rightarrow> bool \<Rightarrow> (bool \<Rightarrow> shell \<Rightarrow> shell) \<Rightarrow> shell \<Rightarrow> shell" where
  "toggle mode was turn sh =
     (if was then print (mode @ '' mode off'') (turn False sh) else print (mode @ '' mode on'') (turn True sh))"

definition set_verbose :: "bool \<Rightarrow> shell \<Rightarrow> shell" where
  "set_verbose b sh = sh\<lparr>sh_cfg := (sh_cfg sh)\<lparr>vflag := b\<rparr>\<rparr>"

definition set_debug :: "bool \<Rightarrow> shell \<Rightarrow> shell" where
  "set_debug b sh = sh\<lparr>sh_cfg := (sh_cfg sh)\<lparr>sc := (sc (sh_cfg sh))\<lparr>dflag := b\<rparr>\<rparr>\<rparr>"

definition cmd_cd :: "tapedirs \<Rightarrow> shell \<Rightarrow> shell" where
  "cmd_cd td sh =
     (case dirlookup (r_maxino (sc (sh_cfg sh))) (td_fd td) (td_tab td) (sh_name sh) (sh_dir sh) of
        (ino, d) \<Rightarrow>
          let sh = sh\<lparr>sh_dir := d\<rparr>
          in if ino = 0 then sh
             else if \<not> inodetype ino (td_tab td) then print_dir (sh_name sh @ bytes_of '': not a directory'') sh
             else sh\<lparr>sh_curdir := take (MAXPATHLEN - 1) (sh_name sh)\<rparr>)"

text \<open>
  \<open>delete\<close>, for an entry that is on the list; \<open>n\<close> bounds the depth of \<open>treescan\<close>.
\<close>

definition cmd_delete :: "nat \<Rightarrow> tapedirs \<Rightarrow> shell \<times> restore \<Rightarrow> restore_stop + shell \<times> restore" where
  "cmd_delete n td = (\<lambda>(sh, s).
     let cfg = sh_cfg sh in
     bindE (lookupname (sc cfg) (sh_name sh) (tab s)) (\<lambda>r.
       case r of
         None \<Rightarrow> Inr (print_dir (sh_name sh @ bytes_of '': not on extraction list'') sh, s)
       | Some np \<Rightarrow>
           if \<not> flagged NEW (tab s) np then Inr (print_dir (sh_name sh @ bytes_of '': not on extraction list'') sh, s)
           else bindE (treescan n (deletefile cfg) (r_maxino (sc cfg)) (td_fd td) (td_tab td) (sh_name sh) (e_ino (ent (tab s) np))
                         (sh_dir sh, s)) (\<lambda>(d, s). Inr (sh\<lparr>sh_dir := d\<rparr>, s))))"

text \<open>
  The commands; \<open>act\<close> are those that run other parts of restore on the name (\<open>add\<close>, \<open>extract\<close>, \<open>setmodes\<close>, \<open>what\<close>), \<open>past\<close>
  what lies behind the name in its buffer.  The text of \<open>help\<close> is left out.
\<close>

definition run_command :: "nat \<Rightarrow> tapedirs \<Rightarrow> (shell_cmd \<Rightarrow> shell \<times> restore \<Rightarrow> restore_stop + shell \<times> restore) \<Rightarrow> byte list
    \<Rightarrow> shell \<times> restore \<Rightarrow> restore_stop + bool \<times> shell \<times> restore" where
  "run_command n td act past = (\<lambda>(sh, s).
     let on = (\<lambda>x. Inr (True, x)) in
     case shell_command (sh_cmd sh) of
       Cd \<Rightarrow> on (cmd_cd td sh, s)
     | Delete \<Rightarrow> bindE (cmd_delete n td (sh, s)) on
     | Ls \<Rightarrow> bindE (printlist (sh_cfg sh) td (tab s) (sh_name sh) past (sh_curdir sh) (sh_dir sh)) (\<lambda>(out, d).
               on (sh\<lparr>sh_out := sh_out sh @ out, sh_dir := d\<rparr>, s))
     | Pwd \<Rightarrow> on (print_dir (if length (sh_curdir sh) \<le> 1 then [slash] else tl (sh_curdir sh)) sh, s)
     | Prompt \<Rightarrow> on (toggle ''prompt'' (sh_pflag sh) (\<lambda>b sh. sh\<lparr>sh_pflag := b\<rparr>) sh, s)
     | Verbose \<Rightarrow> on (toggle ''verbose'' (vflag (sh_cfg sh)) set_verbose sh, s)
     | Debug \<Rightarrow> on (toggle ''debugging'' (dflag (sc (sh_cfg sh))) set_debug sh, s)
     | Quit \<Rightarrow> Inr (False, sh, s)
     | Xit \<Rightarrow> Inr (False, sh, s)
     | Help \<Rightarrow> on (sh, s)
     | Bad \<Rightarrow> on (print_dir (sh_cmd sh @ bytes_of '': unknown command; type ? for help'') sh, s)
     | c \<Rightarrow> bindE (act c (sh, s)) (\<lambda>(sh, s). on (if c = Extract then sh\<lparr>sh_volno := 0\<rparr> else sh, s)))"

text \<open>\<open>runcmdshell\<close>, a bounded number of commands; an interrupt drops what is kept from the last line.\<close>

definition sh_reset :: "shell \<Rightarrow> shell" where
  "sh_reset sh = sh\<lparr>sh_args := [], sh_nextarg := None, sh_volno := 0\<rparr>"

fun runcmdshell :: "nat \<Rightarrow> nat \<Rightarrow> tapedirs \<Rightarrow> (shell_cmd \<Rightarrow> shell \<times> restore \<Rightarrow> restore_stop + shell \<times> restore) \<Rightarrow> byte list
    \<Rightarrow> shell \<times> restore \<Rightarrow> restore_stop + shell \<times> restore" where
  "runcmdshell 0 depth td act past x = Inl No_Return"
| "runcmdshell (Suc n) depth td act past x =
     bindE (getcmd td (fst x)) (\<lambda>sh.
     bindE (run_command depth td act past (sh, snd x)) (\<lambda>(goes, x).
       if goes then runcmdshell n depth td act past x else Inr x))"


section \<open>What an argument names\<close>

lemma strsep_all_path: "(\<And>n. n \<in> set ns \<Longrightarrow> slash \<notin> set n) \<Longrightarrow> strsep_all (pathname ns @ slash # s) = [0x2E] # ns @ strsep_all s"
proof -
  assume ns: "\<And>n. n \<in> set ns \<Longrightarrow> slash \<notin> set n"
  have "slash \<notin> set n \<Longrightarrow> strsep_all (n @ spelled ns @ slash # s) = n # ns @ strsep_all s" for n
    using ns
  proof (induction ns arbitrary: n)
    case (Cons m ms)
    then show ?case using strsep_all_append [of n "m @ spelled ms @ slash # s"] by simp
  qed (simp add: strsep_all_append)
  moreover have "slash \<notin> set [0x2E]" by (simp add: slash_def)
  ultimately show ?thesis unfolding pathname_def by (metis append_Cons append_Nil)
qed

definition dir_component :: "byte list \<Rightarrow> bool" where
  "dir_component n \<longleftrightarrow> n \<noteq> [] \<and> slash \<notin> set n \<and> n \<noteq> [0x2E] \<and> n \<noteq> [0x2E, 0x2E]"

lemma resolved_components: "\<forall>n \<in> set ns. dir_component n \<Longrightarrow> resolved done (ns @ ms) = resolved (done @ ns) ms"
  by (induction ns arbitrary: "done") (auto simp: dir_component_def)

lemma spells_head: "spells w s \<Longrightarrow> w \<noteq> [] \<Longrightarrow> \<not> blank (hd w)"
  by (induction rule: spells.induct) (auto simp: blank_def backslash_def is_quote_def)

lemma copynext_word:
  assumes "spells w s" "w \<noteq> []" "rest = [] \<or> blank (hd rest)" "\<forall>c \<in> set bs. blank c"
  shows "copynext (bs @ w @ rest) = (s, rest)"
proof -
  have "dropWhile blank (bs @ w @ rest) = w @ rest"
    using assms(2,4) spells_head [OF assms(1,2)] by (cases w) (auto simp: dropWhile_append)
  moreover have "copynext_loop s rest = (s, rest)" using assms(3) by (cases rest) auto
  ultimately show ?thesis using spells_copied [OF assms(1), of "[]" rest] by (simp add: copynext_def)
qed

text \<open>C40: an argument of a command, whose word \<open>w\<close> spells \<open>s\<close> with quotes and backslashes, behind the blanks \<open>bs\<close>: \<open>copynext\<close> and
  \<open>canon\<close> give the path \<open>pathname\<close> of the components of \<open>s\<close>, seen from the directory at hand (\<open>ns\<close>) or, with a slash in front, from
  the root; empty components and \<open>.\<close> are left out, \<open>..\<close> takes away the component before it and nothing at the root.
  The rest of the line is what \<open>getcmd\<close> keeps for its next call.  The path has to fit its buffer.
\<close>

theorem argument_name:
  assumes "spells w s" "w \<noteq> []" "rest = [] \<or> blank (hd rest)" "\<forall>c \<in> set bs. blank c"
    and "\<forall>n \<in> set ns. dir_component n" "length (pathname ns) + length s + 3 < MAXPATHLEN"
  shows "(case copynext (bs @ w @ rest) of (rawname, cp) \<Rightarrow> (full_name (pathname ns) rawname, cp))
    = (Inr (pathname (resolved (if take 1 s = [slash] then [] else ns) (strsep_all s))), rest)"
proof -
  have c: "copynext (bs @ w @ rest) = (s, rest)" by (rule copynext_word [OF assms(1-4)])
  have "full_name (pathname ns) s = Inr (pathname (resolved (if take 1 s = [slash] then [] else ns) (strsep_all s)))"
  proof (cases "take 1 s = [slash]")
    case True
    then show ?thesis using canon_resolved [of s MAXPATHLEN] assms(6) by (auto simp: full_name_def)
  next
    case False
    let ?o = "pathname ns @ slash # s"
    have t: "take (BUFSIZ - 1) ?o = ?o" using assms(6) by (simp add: BUFSIZ_def MAXPATHLEN_def)
    have "strsep_all ?o = [0x2E] # ns @ strsep_all s"
      using assms(5) by (intro strsep_all_path) (simp add: dir_component_def)
    then have "resolved [] (strsep_all ?o) = resolved ns (strsep_all s)" using resolved_components [OF assms(5), of "[]"] by simp
    moreover have "full_name (pathname ns) s = canon ?o MAXPATHLEN"
      unfolding full_name_def using False by (simp only: t if_False)
    ultimately show ?thesis using canon_resolved [of ?o MAXPATHLEN] assms(6) False by auto
  qed
  then show ?thesis by (simp add: c)
qed


theorem argument_name_witness:
  "(case copynext [0x20, 0x61, 0x22, 0x2F, 0x22, 0x2E, 0x2E, 0x2F, 0x5C, 0x20] of (rawname, cp) \<Rightarrow> (full_name (pathname [[0x75]]) rawname, cp))
    = (Inr (pathname [[0x75], [0x20]]), [])"
proof -
  have q: "is_quote 0x22" "\<not> blank 0x61" "0x61 \<noteq> backslash" "\<not> is_quote 0x61" "\<not> blank 0x2E" "0x2E \<noteq> backslash"
    "\<not> is_quote 0x2E" "\<not> blank 0x2F" "0x2F \<noteq> backslash" "\<not> is_quote 0x2F" "backslash = 0x5C"
    by (simp_all add: is_quote_def blank_def backslash_def)
  have "spells [0x5C, 0x20] [0x20]" using spells_escape [OF spells_nil, where c = "0x20"] by (simp add: q)
  then have "spells [0x2E, 0x2E, 0x2F, 0x5C, 0x20] [0x2E, 0x2E, 0x2F, 0x20]" by (intro spells_plain q) simp_all
  then have "spells (([0x22] @ [0x2F] @ [0x22]) @ [0x2E, 0x2E, 0x2F, 0x5C, 0x20]) ([0x2F] @ [0x2E, 0x2E, 0x2F, 0x20])"
    using spells_quote [of _ _ "0x22" "[0x2F]"] q(1) by simp
  then have w: "spells (0x61 # ([0x22] @ [0x2F] @ [0x22]) @ [0x2E, 0x2E, 0x2F, 0x5C, 0x20]) (0x61 # [0x2F] @ [0x2E, 0x2E, 0x2F, 0x20])"
    by (intro spells_plain q)
  have r: "resolved [[0x75]] (strsep_all (0x61 # [0x2F] @ [0x2E, 0x2E, 0x2F, 0x20])) = [[0x75], [0x20]]"
    by (simp add: slash_def)
  show ?thesis
    using argument_name [OF w, where rest = "[]" and bs = "[0x20]" and ns = "[[0x75]]"] r
    by (simp add: blank_def dir_component_def slash_def pathname_def MAXPATHLEN_def)
qed

end
