(* ===== verification/Spec2Isabelle.thy ===== *)
theory Spec2Isabelle
  imports Tree_Roundtrip Itime Dumprmt Restore_End Interactive
begin

text \<open>
  Verification of dump and restore.

  The repository holds two programs and a helper.  dump (src/dump) reads the inodes of an ext2, ext3 or ext4 file
  system through libext2fs and writes them to a tape; restore (src/restore) reads such a tape and brings a file
  system to the state of the dump; rmt (src/rmt) serves a tape drive to a remote dump or restore, whose side of the
  protocol is src/common/dumprmt.c.  src/compat holds what the programs share.

  A dump goes over the file system in four passes.  Passes 1 and 2 find the inodes to dump and the directories that
  lead to them, as bits in four maps.  Passes 3 and 4 write the directories and then the other files as records of
  1024 bytes, each inode behind a header.  The writer collects records to blocks and passes them to slaves; it changes
  volumes when a tape ends.  The history file says which date an incremental dump starts from.  restore reads the headers back,
  builds a file of directories of its own from the directories of the tape, and keeps a symbol table of the file system it restores, which
  an incremental restore (the option r) updates dump by dump, with system calls for each change.

  The model is a translation of the C code: a struct is a record or a list of fields, a table is a list, an unsigned integer is a
  word of its width, a pointer is an index into a list that stands for the heap, or an option where it can be null.
  Strings are lists of bytes without the terminating NUL.  Global variables are the fields of a state that each
  function takes and returns, and options of the command line are the fields of a configuration.  What ends a program, or
  never ends, is a value: the results are sums whose left side is one of the datatypes \<open>dump_stop\<close>, \<open>tape_stop\<close>, \<open>client_stop\<close>
  and \<open>restore_stop\<close>.

  \<^bold>\<open>Theories\<close>

  Shared by both programs:
  \<^item> \<open>Prelude\<close>: the integers, their bytes in either order, results, the macros of compat/include/bsdcompat.h, and the
    lemmas on lists and words that the rest uses.
  \<^item> \<open>C_String\<close>: what the sources use of the C library on strings and numbers (isspace, strtol, printf of decimals).
  \<^item> \<open>Swab\<close>: restore/tape.c swab16, swab32, swab64, swabst with its format language.
  \<^item> \<open>Spcl\<close>: the tape header of compat/include/protocols/dumprestore.h, its layout of 1024 bytes, mkchecksum of dump and
    checksum of restore.  The checksum of dump is the one of restore in both byte orders, and every change within one word is found.
  \<^item> \<open>Inomap\<close>: the maps of inodes (SETINO, CLRINO, TSTINO), do_exclude_ino of dump/main.c, resizemaps
    of restore/utilities.c.

  dump:
  \<^item> \<open>Mapping_Pass\<close>: pass 1, mapfiles, maponefile, mapfilesindir, mapfilesfromdir; the maps are exactly
    the allocated, the changed and the directory inodes.
  \<^item> \<open>Directory_Pass\<close>: pass 2, searchdir, mapdirs and the loop of main; the result is closed under the way up, and the
    loop ends on a tree.
  \<^item> \<open>Tapeout\<close>: dump/tape.c writerec, dumpblock, flushtape, startnewtape, close_rewind, the slaves and the header
    of writeheader; blocks are full and volumes begin with a right header.  The interface of flushtape is the locale \<open>block_flush\<close>.
  \<^item> \<open>Dump_Inode\<close>: dumpino, dumpdirino, dump_xattr, blksout, dumpmap and convert_dir of dump/traverse.c.
  \<^item> \<open>Dump_Main\<close>: the second half of main of dump, with its loops over the maps and the trailers.
  \<^item> \<open>Itime\<close>: dump/itime.c and dump/unctime.c, the history of dumps.

  The remote tape:
  \<^item> \<open>Rmtflags\<close>: compat/lib/rmtflags.c.
  \<^item> \<open>Rmt\<close>: rmt/rmt.c as a machine whose step serves one command.
  \<^item> \<open>Dumprmt\<close>: common/dumprmt.c, run against a peer; connected to \<open>Rmt\<close> its calls are the system calls
    of the server.

  restore:
  \<^item> \<open>Tapein\<close>: gethead, converthead, findinode, getfile, skipfile and the handlers of restore/tape.c.
  \<^item> \<open>Segments\<close>, \<open>File_Roundtrip\<close>: getfile on the records of one file; a file dumped by \<open>Dump_Inode\<close> is
    extracted byte for byte.
  \<^item> \<open>Dirs\<close>, \<open>Dir_File\<close>, \<open>Dir_Extract\<close>: restore/dirs.c, the file of directories and the table of them; bounds of
    putdir, the directories read back.
  \<^item> \<open>Dir_Convert\<close>, \<open>Dir_Roundtrip\<close>, \<open>Tree_Roundtrip\<close>: the directories of dump as restore sees them; after extractdirs
    pathsearch finds what a walk over the dumped directories finds.
  \<^item> \<open>Symtab\<close>, \<open>Symtab_Tree\<close>, \<open>Symtab_Ops\<close>: restore/symtab.c, a heap of entries that is a tree of names and a
    hash table by number; the two abstractions (a set of paths, a map from numbers) and their preservation by every operation.
  \<^item> \<open>Restore_Acts\<close>: restore/restore.c and restore/utilities.c, the updates of the table with their system calls.
  \<^item> \<open>Restore_Path\<close>, \<open>Restore_Mirror\<close>, \<open>Restore_Update\<close>: the invariant that the names of the table are the files of the
    file system (\<open>mirrors\<close>), and nodeupdates under it.
  \<^item> \<open>Restore_End\<close>: removeoldnodes, lowerbnd, upperbnd and checkrestore.
  \<^item> \<open>Glob\<close>: compat/lib/compatglob.c, patterns and the search of the paths they stand for; the paths found are exactly
    those that exist and match, sorted.
  \<^item> \<open>Interactive\<close>: restore/interactive.c, the words of a command line (copynext), the paths of names (canon), the
    choice of a command and the listing of a directory; an argument in any spelling is the path it means.

  \<^bold>\<open>Parameters\<close>

  Code that is not in the repository is an argument of the definitions.  libext2fs is the record of a file system,
  with the inodes, the blocks and the directory iteration it delivers.  The system calls of rmt are the fields of
  \<open>sysops\<close>; the system calls of restore on the file system succeed or fail by the function \<open>os\<close>
  of the calls before.  The answers of the slaves of dump, of the tape drive and of the operator are lists or functions
  in the configuration; localtime and timelocal are parameters of \<open>Itime\<close>.  The records that restore reads are a list.  \<open>glob\<close> gets its directories from
  a record of functions; for an interactive restore they are those of the directories of the tape.

  \<^bold>\<open>Bounds\<close>

  A loop over a list of a heap is bounded by the length of the heap: a list that is longer has a cycle, on which
  the code would not return, and the value is then \<open>No_Return\<close>; under the invariant of \<open>Symtab_Ops\<close> this
  does not happen, and the properties show the result.  The recursion of \<open>mapfilesindir\<close> and \<open>treescan\<close> is bounded by an argument for the depth,
  the loop of pass 2 by a number of rounds; \<open>pass2_ends\<close> shows that there is one that is enough.
  \<open>flushtape\<close> calls \<open>startnewtape\<close>, which calls \<open>flushtape\<close> again; the nesting is bounded by a field of the
  configuration, since each level uses up a volume.  Loops over numbers and files have measures.

  \<^bold>\<open>Not modelled\<close>

  What lies on both sides of the code modelled here: option parsing, messages and statistics, signals and the processes
  of the slaves (their replay after an early end of tape included), sockets and ssh of the remote connection, the readahead of
  restore (readtape, volume changes on input), extraction of special files, and attributes of restored files other
  than names.  The compression and index modules wrap libraries that are not in the repository; the label lookup asks the
  kernel.  Of glob, braces and tildes are left out; of the interactive restore, readline, the text of help and longjmp.  In restore.c the loops that extract files (createleaves, createfiles, compareleaves) are dialogues over
  the tape.  The file of the symbol table, its dump and its reload, is left out, as are the parts of the code that Linux does not compile.
\<close>

end
